(* ===== verification/Prelude.thy ===== *)
theory Prelude
  imports Main "HOL-Library.Word"
begin

text \<open>
  Shared vocabulary of the development: the machine types of the 32-bit ARM target, the shifts
  its compiler emits, big-endian bit strings, and the list lemmas several components use.
\<close>

unbundle bit_operations_syntax

section \<open>Machine types\<close>

type_synonym u8 = "8 word"
type_synonym u32 = "32 word"

text \<open>
  A shift of a 32-bit operand by a count of 32 or more is undefined in C. The sources shift by
  32 in regular operation (a 32-bit field read from an empty window). The ARM instructions LSL
  and LSR by register use the low byte of the count, and counts from 32 to 255 give zero; this
  is the meaning the sources rely on and the one modelled.
\<close>

definition shl32 :: "u32 \<Rightarrow> nat \<Rightarrow> u32" where
  "shl32 x n = push_bit (n mod 256) x"

definition shr32 :: "u32 \<Rightarrow> nat \<Rightarrow> u32" where
  "shr32 x n = drop_bit (n mod 256) x"

named_theorems bitval \<open>values of words and bit strings as naturals\<close>

lemma unat_shr32 [bitval]: "n \<le> 32 \<Longrightarrow> unat (shr32 x n) = unat x div 2 ^ n"
  unfolding shr32_def unat_drop_bit_eq by (simp add: drop_bit_eq_div)

lemma unat_shl32 [bitval]: "n \<le> 32 \<Longrightarrow> unat (shl32 x n) = (unat x * 2 ^ n) mod 2 ^ 32"
  unfolding shl32_def unsigned_push_bit_eq by (simp add: take_bit_eq_mod push_bit_eq_mult)

lemma unat_less_32: "unat (x :: u32) < 2 ^ 32"
  using unsigned_less [of x, where ?'a = nat] by simp

lemma unat_less_8: "unat (x :: u8) < 2 ^ 8"
  using unsigned_less [of x, where ?'a = nat] by simp

lemma u32_eqI: "unat (x :: u32) = unat y \<Longrightarrow> x = y"
  by (rule unsigned_word_eqI)

lemma unat_of_nat32: "n < 2 ^ 32 \<Longrightarrow> unat (of_nat n :: u32) = n"
  by (simp add: unat_of_nat)

lemma odd_u32: "(v :: u32) AND 1 \<noteq> 0 \<longleftrightarrow> odd (unat v)"
  by (simp add: and_one_eq odd_iff_mod_2_eq_one unat_arith_simps)

lemma unat_ucast_8: "unat (ucast (b :: u8) :: u32) = unat b"
  by (simp add: unsigned_ucast_eq take_bit_eq_mod) (rule mod_less, rule less_trans, rule unsigned_less, simp)

lemma or_disj_nat [bitval]: "b < 2 ^ n \<Longrightarrow> (a * 2 ^ n OR b :: nat) = a * 2 ^ n + b"
proof -
  assume b: "b < 2 ^ n"
  then have "take_bit n b = b" by (simp add: take_bit_eq_mod)
  then have "a * 2 ^ n AND b = 0"
    by (intro bit_eqI)
      (metis bit_and_iff bit_push_bit_iff bit_take_bit_iff not_less push_bit_eq_mult
        bit_0_eq bot_apply bot_bool_def)
  then show ?thesis by (simp add: disjunctive_add_eq_or)
qed

section \<open>Bit strings, most significant bit first\<close>

fun bits_of :: "nat \<Rightarrow> nat \<Rightarrow> bool list" where
  "bits_of 0 x = []"
| "bits_of (Suc n) x = odd (x div 2 ^ n) # bits_of n x"

lemma nth_bits_of: "i < n \<Longrightarrow> bits_of n x ! i \<longleftrightarrow> bit x (n - 1 - i)"
proof (induction n arbitrary: i)
  case (Suc n)
  then show ?case by (cases i) (simp_all add: bit_iff_odd)
qed simp

fun bits_val :: "bool list \<Rightarrow> nat" where
  "bits_val [] = 0"
| "bits_val (b # bs) = of_bool b * 2 ^ length bs + bits_val bs"

lemma length_bits_of [simp]: "length (bits_of n x) = n"
  by (induction n) auto

named_theorems biteval \<open>evaluation of bit strings on numerals\<close>

lemma replicate_numeral [biteval]: "replicate (numeral k) x = x # replicate (pred_numeral k) x"
  by (simp add: numeral_eq_Suc)

lemma bits_of_numeral [biteval]:
  "bits_of (numeral k) x = odd (x div 2 ^ pred_numeral k) # bits_of (pred_numeral k) x"
  by (simp add: numeral_eq_Suc)

lemma bits_val_less: "bits_val bs < 2 ^ length bs"
  by (induction bs) auto

lemma bits_val_append: "bits_val (xs @ ys) = bits_val xs * 2 ^ length ys + bits_val ys"
  by (induction xs) (auto simp: algebra_simps power_add)

lemma bits_val_bits_of: "bits_val (bits_of n x) = x mod 2 ^ n"
proof (induction n)
  case (Suc n)
  have "x mod 2 ^ Suc n = 2 ^ n * (x div 2 ^ n mod 2) + x mod 2 ^ n"
    using mod_mult2_eq [of x "2 ^ n" 2] by (simp add: mult.commute)
  moreover have "x div 2 ^ n mod 2 = of_bool (odd (x div 2 ^ n))"
    by (simp add: mod2_eq_if)
  ultimately show ?case using Suc by (simp del: power_Suc)
qed simp

lemma bits_of_bits_val: "bits_of (length bs) (bits_val bs + k * 2 ^ length bs) = bs"
proof (induction bs arbitrary: k)
  case (Cons b bs)
  have e: "bits_val (b # bs) + k * 2 ^ length (b # bs) = bits_val bs + (of_bool b + 2 * k) * 2 ^ length bs"
    by (simp add: algebra_simps)
  have "(bits_val bs + (of_bool b + 2 * k) * 2 ^ length bs) div 2 ^ length bs = of_bool b + 2 * k"
    by (simp add: bits_val_less)
  then show ?case unfolding e using Cons [of "of_bool b + 2 * k"] by simp
qed simp

lemma bits_val_inj: "length xs = length ys \<Longrightarrow> bits_val xs = bits_val ys \<Longrightarrow> xs = ys"
  using bits_of_bits_val [of xs 0] bits_of_bits_val [of ys 0] by simp

lemma bits_of_add: "bits_of (a + b) x = bits_of a (x div 2 ^ b) @ bits_of b x"
proof (rule bits_val_inj)
  show "bits_val (bits_of (a + b) x) = bits_val (bits_of a (x div 2 ^ b) @ bits_of b x)"
    using mod_mult2_eq [of x "2 ^ b" "2 ^ a"]
    by (simp add: bits_val_append bits_val_bits_of power_add mult.commute)
qed simp

lemma take_bits_of: "k \<le> n \<Longrightarrow> take k (bits_of n x) = bits_of k (x div 2 ^ (n - k))"
  using bits_of_add [of k "n - k" x] by simp

lemma drop_bits_of: "k \<le> n \<Longrightarrow> drop k (bits_of n x) = bits_of (n - k) x"
  using bits_of_add [of k "n - k" x] by simp

lemma bits_of_cong: "x mod 2 ^ n = y mod 2 ^ n \<Longrightarrow> bits_of n x = bits_of n y"
  by (rule bits_val_inj) (simp_all add: bits_val_bits_of)

definition byte_bits :: "u8 \<Rightarrow> bool list" where
  "byte_bits b = bits_of 8 (unat b)"

definition bytes_bits :: "u8 list \<Rightarrow> bool list" where
  "bytes_bits bs = concat (map byte_bits bs)"

lemma length_byte_bits [simp]: "length (byte_bits b) = 8"
  by (simp add: byte_bits_def)

lemma bytes_bits_simps [simp]:
  "bytes_bits [] = []"
  "bytes_bits (b # bs) = byte_bits b @ bytes_bits bs"
  "bytes_bits (xs @ ys) = bytes_bits xs @ bytes_bits ys"
  by (simp_all add: bytes_bits_def)

lemma length_bytes_bits [simp]: "length (bytes_bits bs) = 8 * length bs"
  by (induction bs) auto

lemma bits_val_byte: "bits_val (byte_bits b) = unat b"
  unfolding byte_bits_def bits_val_bits_of using unat_less_8 [of b] by (rule mod_less)

lemma byte_bits_inj: "byte_bits a = byte_bits b \<Longrightarrow> a = b"
proof -
  assume "byte_bits a = byte_bits b"
  then have "unat a = unat b" by (metis bits_val_byte)
  then show "a = b" by (rule unsigned_word_eqI)
qed

lemma byte_bits_not_Nil [simp]: "byte_bits b \<noteq> []"
  using length_byte_bits [of b] by fastforce

lemma bytes_bits_inj: "bytes_bits xs = bytes_bits ys \<Longrightarrow> xs = ys"
proof (induction xs arbitrary: ys)
  case Nil
  then show ?case using length_bytes_bits [of ys] by simp
next
  case (Cons x xs)
  then show ?case by (cases ys) (auto dest: byte_bits_inj)
qed

lemma unat_shl_or:
  assumes "unat (x :: u32) < 2 ^ i" "i + k \<le> 32" "unat v < 2 ^ k"
  shows "unat (shl32 x k OR v) = unat x * 2 ^ k + unat v"
proof -
  have "unat x * 2 ^ k < 2 ^ i * 2 ^ k" using assms(1) by simp
  also have "\<dots> \<le> (2::nat) ^ 32" unfolding power_add [symmetric] using assms(2) by (rule power_increasing) simp
  finally have "unat (shl32 x k) = unat x * 2 ^ k" using assms(2) by (simp add: unat_shl32)
  then show ?thesis unfolding unsigned_or_eq using or_disj_nat [OF assms(3)] by simp
qed

lemma byte_slice:
  assumes "q + k \<le> 8"
  shows "take k (drop q (byte_bits b)) = bits_of k (unat b div 2 ^ (8 - q - k))"
  using assms by (simp add: byte_bits_def drop_bits_of take_bits_of)

lemma mask_mod:
  assumes "k \<le> 32"
  shows "unat (w AND (shl32 1 k - 1)) = unat w mod 2 ^ k"
proof -
  have "shl32 1 k - 1 = (mask k :: u32)"
    using assms by (simp add: shl32_def mask_eq_exp_minus_1 push_bit_eq_mult)
  then have "w AND (shl32 1 k - 1) = take_bit k w" by (simp add: take_bit_eq_mask)
  then show ?thesis by (simp only: unsigned_take_bit_eq) (simp add: take_bit_eq_mod)
qed

text \<open>The \<open>n\<close> bits of a syntax element of value \<open>x\<close>.\<close>

definition fld :: "nat \<Rightarrow> u32 \<Rightarrow> bool list" where
  "fld n x = bits_of n (unat x)"

lemma length_fld [simp]: "length (fld n x) = n"
  by (simp add: fld_def)

section \<open>Exponential Golomb codes\<close>

text \<open>
  The code word of \<open>k\<close> is \<open>m\<close> zero bits followed by the \<open>m + 1\<close> bits of
  \<open>k + 1\<close>, where \<open>m + 1\<close> is the number of significant bits of \<open>k + 1\<close>.
\<close>

fun nbits :: "nat \<Rightarrow> nat" where
  "nbits n = (if n = 0 then 0 else Suc (nbits (n div 2)))"

declare nbits.simps [simp del]

definition ue_zeros :: "nat \<Rightarrow> nat" where
  "ue_zeros k = nbits (k + 1) - 1"

definition ue_bits :: "nat \<Rightarrow> bool list" where
  "ue_bits k = replicate (ue_zeros k) False @ bits_of (Suc (ue_zeros k)) (k + 1)"

lemma nbits_bounds: "0 < n \<Longrightarrow> 0 < nbits n \<and> 2 ^ (nbits n - 1) \<le> n \<and> n < 2 ^ nbits n"
proof (induction n rule: nbits.induct)
  case (1 n)
  show ?case
  proof (cases "n div 2 = 0")
    case True
    with 1(2) have "n = 1" by simp
    then show ?thesis by (simp add: nbits.simps)
  next
    case False
    define m where "m = nbits (n div 2)"
    from 1 False have ih: "0 < m" "2 ^ (m - 1) \<le> n div 2" "n div 2 < 2 ^ m"
      by (auto simp: m_def)
    then have e: "(2::nat) ^ m = 2 * 2 ^ (m - 1)" by (cases m) auto
    have "nbits n = Suc m" using 1(2) by (subst nbits.simps) (simp add: m_def)
    then show ?thesis using ih e by simp linarith
  qed
qed

lemma ue_zeros_bounds: "2 ^ ue_zeros k \<le> k + 1" "k + 1 < 2 ^ Suc (ue_zeros k)"
proof -
  from nbits_bounds [of "k + 1"] have "nbits (k + 1) = Suc (ue_zeros k)"
    by (simp add: ue_zeros_def)
  with nbits_bounds [of "k + 1"] show "2 ^ ue_zeros k \<le> k + 1" "k + 1 < 2 ^ Suc (ue_zeros k)"
    by simp_all
qed

lemma ue_zeros_le: "k + 1 < 2 ^ n \<Longrightarrow> ue_zeros k < n"
proof -
  assume "k + 1 < 2 ^ n"
  with ue_zeros_bounds(1) have "(2::nat) ^ ue_zeros k < 2 ^ n" by (rule le_less_trans)
  then show ?thesis by simp
qed

lemma ue_bits_split:
  "ue_bits k = replicate (ue_zeros k) False @ True # bits_of (ue_zeros k) (k + 1 - 2 ^ ue_zeros k)"
proof -
  let ?m = "ue_zeros k"
  have "(k + 1) div 2 ^ ?m = 1"
    using ue_zeros_bounds [of k] by (intro div_nat_eqI) auto
  moreover have "bits_of ?m (k + 1) = bits_of ?m (k + 1 - 2 ^ ?m)"
    by (rule bits_of_cong) (use ue_zeros_bounds(1) [of k] in \<open>metis mod_add_self2 le_add_diff_inverse2\<close>)
  ultimately show ?thesis by (simp add: ue_bits_def)
qed

lemma ue_value: "2 ^ ue_zeros k - 1 + (k + 1 - 2 ^ ue_zeros k) = k"
  using ue_zeros_bounds(1) [of k] by (simp add: Suc_leI)

section \<open>Writing a block of an array\<close>

text \<open>The array \<open>xs\<close> after its entries from \<open>i\<close> on have been overwritten by \<open>ys\<close>.\<close>

definition overwrite :: "nat \<Rightarrow> 'a list \<Rightarrow> 'a list \<Rightarrow> 'a list" where
  "overwrite i ys xs = take i xs @ ys @ drop (i + length ys) xs"

lemma overwrite_Nil [simp]: "overwrite i [] xs = xs"
  by (simp add: overwrite_def)

lemma overwrite_Cons:
  "i < length xs \<Longrightarrow> overwrite i (y # ys) xs = overwrite (Suc i) ys (xs[i := y])"
  by (simp add: overwrite_def upd_conv_take_nth_drop take_Suc_conv_app_nth add.commute)

lemma length_overwrite: "i + length ys \<le> length xs \<Longrightarrow> length (overwrite i ys xs) = length xs"
  by (simp add: overwrite_def)

text \<open>Reading and writing memory by index; both fault outside.\<close>

definition mem_at :: "u8 list \<Rightarrow> nat \<Rightarrow> u8 option" where
  "mem_at mem i = (if i < length mem then Some (mem ! i) else None)"

definition mem_put :: "u8 list \<Rightarrow> nat \<Rightarrow> u8 \<Rightarrow> u8 list option" where
  "mem_put mem i b = (if i < length mem then Some (mem[i := b]) else None)"

section \<open>Computations that may fail\<close>

text \<open>\<open>yields P m\<close>: the computation \<open>m\<close> returns, with a result that satisfies \<open>P\<close>.\<close>

definition yields :: "('a \<Rightarrow> bool) \<Rightarrow> 'a option \<Rightarrow> bool" where
  "yields P m \<longleftrightarrow> (\<exists>x. m = Some x \<and> P x)"

named_theorems safe \<open>introduction rules for \<open>yields\<close>\<close>

lemma yields_Some [simp]: "yields P (Some x) \<longleftrightarrow> P x"
  by (simp add: yields_def)

lemma yields_Some_intro [safe]: "P x \<Longrightarrow> yields P (Some x)"
  by simp

lemma yields_bind [safe]: "yields Q m \<Longrightarrow> (\<And>x. Q x \<Longrightarrow> yields P (f x)) \<Longrightarrow> yields P (Option.bind m f)"
  by (auto simp: yields_def)

lemma yields_bind_pair:
  "yields (\<lambda>(a, b). Q a b) m \<Longrightarrow> (\<And>a b. Q a b \<Longrightarrow> yields P (f a b)) \<Longrightarrow>
   yields P (Option.bind m (\<lambda>(a, b). f a b))"
  by (auto simp: yields_def)

lemma yields_if [safe]:
  "(c \<Longrightarrow> yields P a) \<Longrightarrow> (\<not> c \<Longrightarrow> yields P b) \<Longrightarrow> yields P (if c then a else b)"
  by simp

lemma yields_mono: "yields P m \<Longrightarrow> (\<And>x. P x \<Longrightarrow> Q x) \<Longrightarrow> yields Q m"
  by (auto simp: yields_def)

end
