(* ===== verification/FramePack.thy ===== *)
theory FramePack
  imports Prelude
begin

text \<open>
  The frame packing arrangement record shared by the H.264 stream parser and the extra data
  handler: the \<open>FRAME_PACK_SIZE\<close> (18) words both copy from the field \<open>id\<close> on.
\<close>

record frame_pack =
  fp_id :: u32
  cancel_flag :: u32
  fp_type :: u32
  quincunx_sampling_flag :: u32
  content_interpretation_type :: u32
  spatial_flipping_flag :: u32
  frame0_flipped_flag :: u32
  field_views_flag :: u32
  current_frame_is_frame0_flag :: u32
  frame0_self_contained_flag :: u32
  frame1_self_contained_flag :: u32
  frame0_grid_position_x :: u32
  frame0_grid_position_y :: u32
  frame1_grid_position_x :: u32
  frame1_grid_position_y :: u32
  reserved_byte :: u32
  repetition_period :: u32
  extension_flag :: u32

definition zero_frame_pack :: frame_pack where
  "zero_frame_pack = \<lparr>fp_id = 0, cancel_flag = 0, fp_type = 0, quincunx_sampling_flag = 0,
     content_interpretation_type = 0, spatial_flipping_flag = 0, frame0_flipped_flag = 0,
     field_views_flag = 0, current_frame_is_frame0_flag = 0, frame0_self_contained_flag = 0,
     frame1_self_contained_flag = 0, frame0_grid_position_x = 0, frame0_grid_position_y = 0,
     frame1_grid_position_x = 0, frame1_grid_position_y = 0, reserved_byte = 0,
     repetition_period = 0, extension_flag = 0\<rparr>"

text \<open>
  The payload syntax of the frame packing arrangement SEI message (H.264, D.1.25): which bits
  carry which field. Grid positions are present only for side-by-side like arrangements.
\<close>

definition has_grid :: "frame_pack \<Rightarrow> bool" where
  "has_grid f \<longleftrightarrow> quincunx_sampling_flag f = 0 \<and> fp_type f \<noteq> 5"

definition grid_bits :: "frame_pack \<Rightarrow> bool list" where
  "grid_bits f = fld 4 (frame0_grid_position_x f) @ fld 4 (frame0_grid_position_y f)
     @ fld 4 (frame1_grid_position_x f) @ fld 4 (frame1_grid_position_y f)"

definition body_bits :: "frame_pack \<Rightarrow> bool list" where
  "body_bits f = fld 7 (fp_type f) @ fld 1 (quincunx_sampling_flag f)
     @ fld 6 (content_interpretation_type f) @ fld 1 (spatial_flipping_flag f)
     @ fld 1 (frame0_flipped_flag f) @ fld 1 (field_views_flag f)
     @ fld 1 (current_frame_is_frame0_flag f) @ fld 1 (frame0_self_contained_flag f)
     @ fld 1 (frame1_self_contained_flag f) @ (if has_grid f then grid_bits f else [])
     @ fld 8 (reserved_byte f) @ ue_bits (unat (repetition_period f))"

definition frame_pack_bits :: "frame_pack \<Rightarrow> bool list" where
  "frame_pack_bits f = ue_bits (unat (fp_id f)) @ fld 1 (cancel_flag f)
     @ (if cancel_flag f = 0 then body_bits f else []) @ fld 1 (extension_flag f)"

text \<open>Every field fits its width, and the two Exp-Golomb fields are below \<open>2^32 - 1\<close>.\<close>

definition frame_pack_wf :: "frame_pack \<Rightarrow> bool" where
  "frame_pack_wf f \<longleftrightarrow> fp_id f < 0xFFFFFFFF \<and> cancel_flag f < 2 \<and> fp_type f < 128
     \<and> quincunx_sampling_flag f < 2 \<and> content_interpretation_type f < 64 \<and> spatial_flipping_flag f < 2
     \<and> frame0_flipped_flag f < 2 \<and> field_views_flag f < 2 \<and> current_frame_is_frame0_flag f < 2
     \<and> frame0_self_contained_flag f < 2 \<and> frame1_self_contained_flag f < 2
     \<and> frame0_grid_position_x f < 16 \<and> frame0_grid_position_y f < 16
     \<and> frame1_grid_position_x f < 16 \<and> frame1_grid_position_y f < 16 \<and> reserved_byte f < 256
     \<and> repetition_period f < 0xFFFFFFFF \<and> extension_flag f < 2"

text \<open>What a decoder that keeps the fields not present makes of \<open>f\<close> over its old record.\<close>

definition frame_pack_over :: "frame_pack \<Rightarrow> frame_pack \<Rightarrow> frame_pack" where
  "frame_pack_over old f =
     (if cancel_flag f \<noteq> 0
      then old\<lparr>fp_id := fp_id f, cancel_flag := cancel_flag f, extension_flag := extension_flag f\<rparr>
      else if has_grid f then f
      else f\<lparr>frame0_grid_position_x := frame0_grid_position_x old,
             frame0_grid_position_y := frame0_grid_position_y old,
             frame1_grid_position_x := frame1_grid_position_x old,
             frame1_grid_position_y := frame1_grid_position_y old\<rparr>)"

lemma frame_pack_widths:
  assumes "frame_pack_wf f"
  shows "unat (cancel_flag f) < 2 ^ 1" "unat (fp_type f) < 2 ^ 7" "unat (quincunx_sampling_flag f) < 2 ^ 1"
    "unat (content_interpretation_type f) < 2 ^ 6" "unat (spatial_flipping_flag f) < 2 ^ 1"
    "unat (frame0_flipped_flag f) < 2 ^ 1" "unat (field_views_flag f) < 2 ^ 1"
    "unat (current_frame_is_frame0_flag f) < 2 ^ 1" "unat (frame0_self_contained_flag f) < 2 ^ 1"
    "unat (frame1_self_contained_flag f) < 2 ^ 1" "unat (frame0_grid_position_x f) < 2 ^ 4"
    "unat (frame0_grid_position_y f) < 2 ^ 4" "unat (frame1_grid_position_x f) < 2 ^ 4"
    "unat (frame1_grid_position_y f) < 2 ^ 4" "unat (reserved_byte f) < 2 ^ 8"
    "unat (extension_flag f) < 2 ^ 1"
  using assms by (simp_all add: frame_pack_wf_def word_less_nat_alt)

text \<open>The fields read by the body; the others keep the values of \<open>g\<close>.\<close>

definition body_over :: "frame_pack \<Rightarrow> frame_pack \<Rightarrow> frame_pack" where
  "body_over g f = (let h = f\<lparr>fp_id := fp_id g, cancel_flag := cancel_flag g, extension_flag := extension_flag g\<rparr>
     in if has_grid f then h else h\<lparr>frame0_grid_position_x := frame0_grid_position_x g,
          frame0_grid_position_y := frame0_grid_position_y g,
          frame1_grid_position_x := frame1_grid_position_x g,
          frame1_grid_position_y := frame1_grid_position_y g\<rparr>)"

definition sample_pack :: frame_pack where
  "sample_pack = zero_frame_pack\<lparr>fp_id := 2, fp_type := 3, frame1_grid_position_y := 9, reserved_byte := 7,
     repetition_period := 1\<rparr>"

lemma sample_pack_wf: "frame_pack_wf sample_pack"
  by (simp add: frame_pack_wf_def sample_pack_def zero_frame_pack_def)

end
