(* ===== verification/BitSource.thy ===== *)
theory BitSource
  imports Prelude
begin

text \<open>
  The interface between the bit readers of the codec sources and the Exp-Golomb decoders written
  over them. A reader promises that reading \<open>n \<le> width\<close> bits returns the next \<open>n\<close> bits of
  its stream as a number and removes them; a decoder counts leading zero bits and reads as many
  bits again. The three readers of the sources interpret \<open>bit_reader\<close>, their decoders
  \<open>ue_decoder\<close>; the width is 32 for two of them and 8 for the extra data handler.
\<close>

locale bit_reader =
  fixes rd :: "nat \<Rightarrow> 's \<Rightarrow> (u32 \<times> 's) option"
    and bits :: "'s \<Rightarrow> bool list"
    and inv :: "'s \<Rightarrow> bool"
    and width :: nat
  assumes width_pos: "1 \<le> width"
    and rd_spec: "inv s \<Longrightarrow> n \<le> width \<Longrightarrow> n \<le> length (bits s) \<Longrightarrow>
    \<exists>s'. rd n s = Some (of_nat (bits_val (take n (bits s))), s') \<and> bits s' = drop n (bits s) \<and> inv s'"
begin

lemma rd_append:
  assumes "inv s" "bits s = xs @ ys" "length xs \<le> width"
  shows "\<exists>s'. rd (length xs) s = Some (of_nat (bits_val xs), s') \<and> bits s' = ys \<and> inv s'"
  using rd_spec [of s "length xs"] assms by simp

lemma rd_field:
  assumes "inv s" "bits s = bits_of n x @ ys" "n \<le> width" "x < 2 ^ n"
  shows "\<exists>s'. rd n s = Some (of_nat x, s') \<and> bits s' = ys \<and> inv s'"
  using rd_append [of s "bits_of n x" ys] assms by (simp add: bits_val_bits_of)

lemma rd_one:
  assumes "inv s" "bits s = b # ys"
  shows "\<exists>s'. rd 1 s = Some (of_bool b, s') \<and> bits s' = ys \<and> inv s'"
  using rd_append [of s "[b]" ys] assms width_pos by simp

end

locale ue_decoder = bit_reader rd bits inv width
  for rd :: "nat \<Rightarrow> 's \<Rightarrow> (u32 \<times> 's) option"
    and bits :: "'s \<Rightarrow> bool list"
    and inv :: "'s \<Rightarrow> bool"
    and width :: nat +
  fixes zeros :: "nat \<Rightarrow> 's \<Rightarrow> (nat \<times> 's) option"
    and ue :: "'s \<Rightarrow> (u32 \<times> 's) option"
  assumes zeros_one: "inv s \<Longrightarrow> bits s = True # bs \<Longrightarrow> rd 1 s = Some (1, s') \<Longrightarrow>
      zeros z s = Some (z, s')"
    and zeros_zero: "inv s \<Longrightarrow> bits s = False # bs \<Longrightarrow> bs \<noteq> [] \<Longrightarrow> rd 1 s = Some (0, s') \<Longrightarrow>
      bits s' = bs \<Longrightarrow> inv s' \<Longrightarrow> zeros z s = zeros (Suc z) s'"
    and ue_zero: "inv s \<Longrightarrow> zeros 0 s = Some (0, s1) \<Longrightarrow> inv s1 \<Longrightarrow>
      \<exists>s2. ue s = Some (0, s2) \<and> bits s2 = bits s1 \<and> inv s2"
    and ue_suffix: "inv s \<Longrightarrow> zeros 0 s = Some (z, s1) \<Longrightarrow> 0 < z \<Longrightarrow> z < 32 \<Longrightarrow>
      rd z s1 = Some (v, s2) \<Longrightarrow> ue s = Some (shl32 1 z - 1 + v, s2)"
begin

lemma zeros_count:
  assumes "inv s" "bits s = replicate k False @ True # rest"
  shows "\<exists>s'. zeros z s = Some (z + k, s') \<and> bits s' = rest \<and> inv s'"
  using assms
proof (induction k arbitrary: s z)
  case 0
  then obtain s' where "rd 1 s = Some (1, s')" "bits s' = rest" "inv s'"
    using rd_one [of s True rest] by auto
  then show ?case using zeros_one [of s rest s' z] 0 by auto
next
  case (Suc k)
  let ?bs = "replicate k False @ True # rest"
  from Suc.prems obtain s' where s': "rd 1 s = Some (0, s')" "bits s' = ?bs" "inv s'"
    using rd_one [of s False ?bs] by auto
  then have "zeros z s = zeros (Suc z) s'"
    using zeros_zero [of s ?bs s' z] Suc.prems by simp
  then show ?case using Suc.IH [of s' "Suc z"] s' by simp
qed

theorem ue_decodes:
  assumes "inv s" "bits s = ue_bits k @ rest" "k + 1 < 2 ^ 32" "width < 32 \<Longrightarrow> ue_zeros k \<le> width"
  shows "\<exists>s'. ue s = Some (of_nat k, s') \<and> bits s' = rest \<and> inv s'"
proof -
  let ?m = "ue_zeros k" and ?x = "k + 1 - 2 ^ ue_zeros k"
  have m: "?m < 32" using assms(3) by (rule ue_zeros_le)
  have mw: "?m \<le> width" using m assms(4) by linarith
  have x: "?x < 2 ^ ?m" using ue_zeros_bounds [of k] by simp
  from assms(2) have "bits s = replicate ?m False @ True # (bits_of ?m ?x @ rest)"
    by (simp add: ue_bits_split)
  then obtain s1 where s1: "zeros 0 s = Some (?m, s1)" "bits s1 = bits_of ?m ?x @ rest" "inv s1"
    using zeros_count [OF assms(1)] by (metis add_0)
  show ?thesis
  proof (cases "?m = 0")
    case True
    with x have "k = 0" by simp
    then show ?thesis using ue_zero [OF assms(1), of s1] s1 True by (auto simp: ue_zeros_def)
  next
    case False
    obtain s2 where s2: "rd ?m s1 = Some (of_nat ?x, s2)" "bits s2 = rest" "inv s2"
      using rd_field [of s1 ?m ?x rest] s1 mw x by auto
    have "shl32 1 ?m = of_nat (2 ^ ?m)"
      using m by (simp add: shl32_def push_bit_eq_mult)
    then have "shl32 1 ?m - 1 + of_nat ?x = of_nat (2 ^ ?m - 1 + ?x)"
      by simp
    also have "2 ^ ?m - 1 + ?x = k" by (rule ue_value)
    finally show ?thesis using ue_suffix [OF assms(1) s1(1) _ m s2(1)] s2 False by simp
  qed
qed

end

end
