(* ===== verification/OmxBuffer.thy ===== *)
theory OmxBuffer
  imports Prelude "HOL-Library.Monad_Syntax"
begin

text \<open>
  The OMX buffer header as the frame splitter and the extra data handler use it: a block of memory,
  an offset and a filled length; reading, copying and appending with the bounds of the block
  written out.
\<close>

section \<open>Codecs\<close>

text \<open>\<open>codec_type\<close> of vdec/inc/frameparser.h; \<open>CODEC_TYPE_DIVX\<close> has the number of \<open>CODEC_TYPE_MPEG4\<close> and is the same value.\<close>

datatype codec_type = CODEC_TYPE_MPEG4 | CODEC_TYPE_H263 | CODEC_TYPE_H264 | CODEC_TYPE_VC1
  | CODEC_TYPE_MPEG2

section \<open>The header\<close>

record omx_buffer =
  pBuffer :: "u8 list"
  nAllocLen :: nat
  nFilledLen :: nat
  nOffset :: nat
  nFlags :: u32
  nTimeStamp :: int

section \<open>Buffers\<close>

text \<open>\<open>dest_len\<close>: the room left in a buffer, an unsigned 32-bit difference.\<close>

definition room :: "omx_buffer \<Rightarrow> nat" where
  "room d = nat ((int (nAllocLen d) - int (nFilledLen d + nOffset d)) mod 2 ^ 32)"

text \<open>\<open>memcpy\<close> to the write position of the destination, which advances \<open>nFilledLen\<close>.\<close>

definition emit :: "u8 list \<Rightarrow> omx_buffer \<Rightarrow> omx_buffer option" where
  "emit bs d =
     (let at = nOffset d + nFilledLen d
      in if at + length bs \<le> length (pBuffer d)
         then Some (d\<lparr>pBuffer := overwrite at bs (pBuffer d), nFilledLen := nFilledLen d + length bs\<rparr>)
         else None)"

definition peek :: "nat \<Rightarrow> omx_buffer \<Rightarrow> u8 option" where
  "peek i src = (let j = nOffset src + i in if j < length (pBuffer src) then Some (pBuffer src ! j) else None)"

definition slice :: "nat \<Rightarrow> omx_buffer \<Rightarrow> u8 list option" where
  "slice n src = (if nOffset src + n \<le> length (pBuffer src)
     then Some (take n (drop (nOffset src) (pBuffer src))) else None)"

definition consume :: "nat \<Rightarrow> omx_buffer \<Rightarrow> omx_buffer" where
  "consume n src = src\<lparr>nFilledLen := nFilledLen src - n, nOffset := nOffset src + n\<rparr>"

section \<open>Buffers as byte sequences\<close>

definition data :: "omx_buffer \<Rightarrow> u8 list" where
  "data b = take (nFilledLen b) (drop (nOffset b) (pBuffer b))"

definition buf_ok :: "omx_buffer \<Rightarrow> bool" where
  "buf_ok b \<longleftrightarrow> nOffset b + nFilledLen b \<le> nAllocLen b \<and> length (pBuffer b) = nAllocLen b \<and> nAllocLen b < 2 ^ 32"

lemma room_ok: "buf_ok d \<Longrightarrow> room d = nAllocLen d - (nFilledLen d + nOffset d)"
proof -
  assume a: "buf_ok d"
  have "(int (nAllocLen d) - int (nFilledLen d + nOffset d)) mod 2 ^ 32 =
      int (nAllocLen d - (nFilledLen d + nOffset d))"
    using a by (subst mod_pos_pos_trivial) (auto simp: buf_ok_def)
  then show ?thesis by (simp add: room_def)
qed

lemma length_data: "buf_ok b \<Longrightarrow> length (data b) = nFilledLen b"
  by (auto simp: data_def buf_ok_def min_def)

lemma emit_ok:
  assumes "buf_ok d" "length bs \<le> room d"
  shows "\<exists>d'. emit bs d = Some d' \<and> buf_ok d' \<and> data d' = data d @ bs \<and> room d' = room d - length bs"
proof -
  let ?at = "nOffset d + nFilledLen d"
  let ?d = "d\<lparr>pBuffer := overwrite ?at bs (pBuffer d), nFilledLen := nFilledLen d + length bs\<rparr>"
  have le: "?at + length bs \<le> length (pBuffer d)"
    using assms room_ok [OF assms(1)] by (auto simp: buf_ok_def)
  have ok: "buf_ok ?d" using assms(1) le by (auto simp: buf_ok_def length_overwrite)
  have a: "drop (nOffset d) (take ?at (pBuffer d)) = data d" by (simp add: data_def drop_take)
  have l: "length (take ?at (pBuffer d)) = ?at" using le by simp
  have "data ?d = take (nFilledLen d + length bs) (data d @ bs @ drop (?at + length bs) (pBuffer d))"
    unfolding data_def [of ?d] using l by (simp add: overwrite_def flip: a)
  then have "data ?d = data d @ bs" using length_data [OF assms(1)] by simp
  moreover have "room ?d = room d - length bs"
    unfolding room_ok [OF assms(1)] room_ok [OF ok] by simp
  ultimately show ?thesis using ok le by (simp add: emit_def Let_def)
qed

lemma peek_ok: "buf_ok s \<Longrightarrow> i < nFilledLen s \<Longrightarrow> peek i s = Some (data s ! i)"
  by (simp add: peek_def Let_def buf_ok_def data_def)

lemma slice_ok: "buf_ok s \<Longrightarrow> n \<le> nFilledLen s \<Longrightarrow> slice n s = Some (take n (data s))"
  by (simp add: slice_def buf_ok_def data_def min_def)

lemma consume_ok:
  "buf_ok s \<Longrightarrow> n \<le> nFilledLen s \<Longrightarrow> buf_ok (consume n s) \<and> data (consume n s) = drop n (data s)"
  by (simp add: buf_ok_def data_def consume_def drop_take add.commute)

lemma data_Cons: "buf_ok s \<Longrightarrow> 0 < nFilledLen s \<Longrightarrow> \<exists>b bs. data s = b # bs"
  using length_data [of s] by (cases "data s") auto

end
