(* ===== verification/ExtraData.thy ===== *)
theory ExtraData
  imports FramePack BitSource OmxBuffer
begin

text \<open>
  The extra data handler of vidc/common/src/extra_data_handler.cpp: a bit reader and a bit writer
  over one scratch buffer of 100 bytes, the frame packing SEI message in both directions, the
  slice table check and the walk over the extra data records behind a frame. \<open>None\<close> is an access
  outside a buffer or a loop that does not end.
\<close>

section \<open>State\<close>

record extra_data_handler =
  fpa :: frame_pack
  rbsp_buf :: "u8 list"
  bit_ptr :: nat
  byte_ptr :: nat
  pack_sei :: bool
  sei_payload_type :: u32

text \<open>The constructor leaves the two pointers indeterminate.\<close>

definition new_extra_data_handler :: "nat \<Rightarrow> nat \<Rightarrow> extra_data_handler" where
  "new_extra_data_handler b k = \<lparr>fpa = zero_frame_pack\<lparr>cancel_flag := 1\<rparr>, rbsp_buf = replicate 100 0,
     bit_ptr = b, byte_ptr = k, pack_sei = False, sei_payload_type = - 1\<rparr>"

text \<open>The byte under \<open>byte_ptr\<close>.\<close>

definition cur_byte :: "extra_data_handler \<Rightarrow> u8 option" where
  "cur_byte s = mem_at (rbsp_buf s) (byte_ptr s)"

section \<open>Reading bits\<close>

text \<open>The loop of \<open>d_u\<close>; \<open>shift\<close> keeps the value of the previous round.\<close>

function d_u_loop ::
  "nat \<Rightarrow> u32 \<Rightarrow> nat \<Rightarrow> extra_data_handler \<Rightarrow> (nat \<times> u32 \<times> extra_data_handler) option" where
  "d_u_loop rem bins shift s =
     (if rem \<ge> bit_ptr s then
        Option.bind (cur_byte s) (\<lambda>b.
          let bins = shl32 bins shift; shift = 8 - bit_ptr s;
              bins = bins OR shr32 (shl32 (ucast b) shift AND 0xFF) shift
          in d_u_loop (rem - bit_ptr s) bins shift (s\<lparr>bit_ptr := 8, byte_ptr := byte_ptr s + 1\<rparr>))
      else Some (rem, bins, s))"
  by pat_completeness auto
termination
  by (relation "measure (\<lambda>(rem, _, _, s). 2 * rem + (if bit_ptr s = 0 then 1 else 0))") auto

declare d_u_loop.simps [simp del]

text \<open>Moving \<open>bit_ptr\<close> down inside a byte.\<close>

definition step_bits :: "nat \<Rightarrow> extra_data_handler \<Rightarrow> extra_data_handler" where
  "step_bits n s = (if bit_ptr s - n = 0 then s\<lparr>bit_ptr := 8, byte_ptr := byte_ptr s + 1\<rparr>
     else s\<lparr>bit_ptr := bit_ptr s - n\<rparr>)"

definition d_u :: "nat \<Rightarrow> extra_data_handler \<Rightarrow> (u32 \<times> extra_data_handler) option" where
  "d_u num_bits s = do {
     (rem, bins, s) \<leftarrow> d_u_loop num_bits 0 0 s;
     if rem \<noteq> 0 then do {
       b \<leftarrow> cur_byte s;
       Some (shl32 bins rem OR shr32 (shl32 (ucast b) (8 - bit_ptr s) AND 0xFF) (8 - rem), step_bits rem s)
     } else Some (bins, s)
   }"

text \<open>The loop of \<open>d_ue\<close> counts from \<open>-1\<close>; \<open>k\<close> is the count after the round.\<close>

partial_function (option) d_ue_zeros :: "nat \<Rightarrow> extra_data_handler \<Rightarrow> (nat \<times> extra_data_handler) option" where
  "d_ue_zeros k s = Option.bind (d_u 1 s) (\<lambda>(b, s). if b = 0 then d_ue_zeros (Suc k) s else Some (k, s))"

definition d_ue :: "extra_data_handler \<Rightarrow> (u32 \<times> extra_data_handler) option" where
  "d_ue s = do {
     (k, s) \<leftarrow> d_ue_zeros 0 s;
     (v, s) \<leftarrow> d_u k s;
     Some (shl32 1 k - 1 + v, s)
   }"

text \<open>Assigning a field of the frame packing record.\<close>

abbreviation set_fpa :: "(frame_pack \<Rightarrow> frame_pack) \<Rightarrow> extra_data_handler \<Rightarrow> extra_data_handler" where
  "set_fpa g s \<equiv> s\<lparr>fpa := g (fpa s)\<rparr>"

definition grid_xd :: "extra_data_handler \<Rightarrow> extra_data_handler option" where
  "grid_xd s = do {
     (v, s) \<leftarrow> d_u 4 s; let s = set_fpa (\<lambda>f. f\<lparr>frame0_grid_position_x := v\<rparr>) s;
     (v, s) \<leftarrow> d_u 4 s; let s = set_fpa (\<lambda>f. f\<lparr>frame0_grid_position_y := v\<rparr>) s;
     (v, s) \<leftarrow> d_u 4 s; let s = set_fpa (\<lambda>f. f\<lparr>frame1_grid_position_x := v\<rparr>) s;
     (v, s) \<leftarrow> d_u 4 s; let s = set_fpa (\<lambda>f. f\<lparr>frame1_grid_position_y := v\<rparr>) s;
     Some s
   }"

definition body_xd :: "extra_data_handler \<Rightarrow> extra_data_handler option" where
  "body_xd s = do {
     (v, s) \<leftarrow> d_u 7 s; let s = set_fpa (\<lambda>f. f\<lparr>fp_type := v\<rparr>) s;
     (v, s) \<leftarrow> d_u 1 s; let s = set_fpa (\<lambda>f. f\<lparr>quincunx_sampling_flag := v\<rparr>) s;
     (v, s) \<leftarrow> d_u 6 s; let s = set_fpa (\<lambda>f. f\<lparr>content_interpretation_type := v\<rparr>) s;
     (v, s) \<leftarrow> d_u 1 s; let s = set_fpa (\<lambda>f. f\<lparr>spatial_flipping_flag := v\<rparr>) s;
     (v, s) \<leftarrow> d_u 1 s; let s = set_fpa (\<lambda>f. f\<lparr>frame0_flipped_flag := v\<rparr>) s;
     (v, s) \<leftarrow> d_u 1 s; let s = set_fpa (\<lambda>f. f\<lparr>field_views_flag := v\<rparr>) s;
     (v, s) \<leftarrow> d_u 1 s; let s = set_fpa (\<lambda>f. f\<lparr>current_frame_is_frame0_flag := v\<rparr>) s;
     (v, s) \<leftarrow> d_u 1 s; let s = set_fpa (\<lambda>f. f\<lparr>frame0_self_contained_flag := v\<rparr>) s;
     (v, s) \<leftarrow> d_u 1 s; let s = set_fpa (\<lambda>f. f\<lparr>frame1_self_contained_flag := v\<rparr>) s;
     s \<leftarrow> (if quincunx_sampling_flag (fpa s) = 0 \<and> fp_type (fpa s) \<noteq> 5 then grid_xd s else Some s);
     (v, s) \<leftarrow> d_u 8 s; let s = set_fpa (\<lambda>f. f\<lparr>reserved_byte := v\<rparr>) s;
     (v, s) \<leftarrow> d_ue s; let s = set_fpa (\<lambda>f. f\<lparr>repetition_period := v\<rparr>) s;
     Some s
   }"

definition parse_frame_pack_xd :: "extra_data_handler \<Rightarrow> extra_data_handler option" where
  "parse_frame_pack_xd s = do {
     (v, s) \<leftarrow> d_ue s; let s = set_fpa (\<lambda>f. f\<lparr>fp_id := v\<rparr>) s;
     (v, s) \<leftarrow> d_u 1 s; let s = set_fpa (\<lambda>f. f\<lparr>cancel_flag := v\<rparr>) s;
     s \<leftarrow> (if cancel_flag (fpa s) = 0 then body_xd s else Some s);
     (v, s) \<leftarrow> d_u 1 s; let s = set_fpa (\<lambda>f. f\<lparr>extension_flag := v\<rparr>) s;
     Some s
   }"

section \<open>Parsing a NAL unit and an SEI message\<close>

text \<open>
  The copy loop of \<open>parse_rbsp\<close> over \<open>buf\<close>, from index \<open>i\<close> to scratch index \<open>j\<close>; the bytes after
  \<open>i\<close> are read before the bound is tested.
\<close>

function rbsp_loop :: "u8 list \<Rightarrow> nat \<Rightarrow> nat \<Rightarrow> nat \<Rightarrow> u8 list \<Rightarrow> u8 list option" where
  "rbsp_loop buf len i j out =
     (if i < len then do {
        b0 \<leftarrow> mem_at buf i;
        b1 \<leftarrow> mem_at buf (i + 1);
        esc \<leftarrow> (if unat b0 + unat b1 = 0 then map_option (\<lambda>b2. b2 = 3 \<and> i + 2 < len) (mem_at buf (i + 2))
               else Some False);
        if esc then do {
          out \<leftarrow> mem_put out j b0;
          out \<leftarrow> mem_put out (j + 1) b1;
          rbsp_loop buf len (i + 3) (j + 2) out
        } else do {
          out \<leftarrow> mem_put out j b0;
          rbsp_loop buf len (i + 1) (j + 1) out
        }
      } else Some out)"
  by pat_completeness auto
termination
  by (relation "measure (\<lambda>(_, len, i, _). len - i)") auto

declare rbsp_loop.simps [simp del]

definition parse_rbsp :: "u8 list \<Rightarrow> nat \<Rightarrow> extra_data_handler \<Rightarrow> (int \<times> extra_data_handler) option" where
  "parse_rbsp buf len s = do {
     let s = s\<lparr>bit_ptr := 8, byte_ptr := 0\<rparr>;
     b0 \<leftarrow> mem_at buf 0; b1 \<leftarrow> mem_at buf 1; b2 \<leftarrow> mem_at buf 2;
     let startcode = shl32 (ucast b0) 16 OR shl32 (ucast b1) 8 OR ucast b2;
     (startcode, i) \<leftarrow> (if startcode = 0 then map_option (\<lambda>b. (ucast b, 4)) (mem_at buf 3)
                        else Some (startcode, 3));
     if startcode \<noteq> (1 :: u32) then Some (- 1, s)
     else do {
       h \<leftarrow> mem_at buf i;
       if h AND 0x80 \<noteq> 0 then Some (- 1, s)
       else do {
         out \<leftarrow> rbsp_loop buf len (i + 1) 0 (rbsp_buf s);
         Some (int (unat (h AND 0x1F)), s\<lparr>rbsp_buf := out\<rparr>)
       }
     }
   }"

text \<open>A number coded as a run of \<open>0xFF\<close> bytes and a last byte, from the scratch buffer.\<close>

function ff_number :: "u32 \<Rightarrow> extra_data_handler \<Rightarrow> (u32 \<times> extra_data_handler) option" where
  "ff_number acc s = Option.bind (cur_byte s) (\<lambda>b.
     let s1 = s\<lparr>byte_ptr := byte_ptr s + 1\<rparr>
     in if b = 0xFF then ff_number (acc + 0xFF) s1 else Some (acc + ucast b, s1))"
  by pat_completeness auto
termination
  by (relation "measure (\<lambda>(_, s). length (rbsp_buf s) - byte_ptr s)")
    (auto simp: cur_byte_def mem_at_def split: if_splits)

declare ff_number.simps [simp del]

definition SEI_PAYLOAD_FRAME_PACKING_ARRANGEMENT :: u32 where
  "SEI_PAYLOAD_FRAME_PACKING_ARRANGEMENT = 0x2D"

definition sei_trailing :: "extra_data_handler \<Rightarrow> (int \<times> extra_data_handler) option" where
  "sei_trailing s =
     (if bit_ptr s \<noteq> 8 then do {
        (marker, s) \<leftarrow> d_u 1 s;
        if marker \<noteq> 0 then
          if bit_ptr s \<noteq> 8 then do {
            (pad, s) \<leftarrow> d_u (bit_ptr s) s;
            Some (if pad \<noteq> 0 then - 1 else 1, s)
          } else Some (1, s)
        else Some (- 1, s)
      } else Some (1, s))"

definition parse_sei_xd :: "u8 list \<Rightarrow> nat \<Rightarrow> extra_data_handler \<Rightarrow> (int \<times> extra_data_handler) option" where
  "parse_sei_xd buffer buffer_length s = do {
     (nal_unit_type, s) \<leftarrow> parse_rbsp buffer buffer_length s;
     if nal_unit_type \<noteq> 6 then Some (- 1, s)
     else do {
       (payload_type, s) \<leftarrow> ff_number 0 s;
       (payload_size, s) \<leftarrow> ff_number 0 s;
       s \<leftarrow> (if payload_type = SEI_PAYLOAD_FRAME_PACKING_ARRANGEMENT then parse_frame_pack_xd s else Some s);
       sei_trailing s
     }
   }"

section \<open>Writing bits\<close>

text \<open>\<open>|=\<close> of the low byte of a word into the byte under \<open>byte_ptr\<close>.\<close>

definition or_byte :: "u32 \<Rightarrow> extra_data_handler \<Rightarrow> extra_data_handler option" where
  "or_byte x s = map_option (\<lambda>b. s\<lparr>rbsp_buf := (rbsp_buf s)[byte_ptr s := b OR ucast x]\<rparr>) (cur_byte s)"

text \<open>The count \<open>32 - shift\<close> is an unsigned difference.\<close>

function e_u_loop :: "nat \<Rightarrow> u32 \<Rightarrow> extra_data_handler \<Rightarrow> (nat \<times> u32 \<times> extra_data_handler) option" where
  "e_u_loop rem symbol s =
     (if rem \<ge> bit_ptr s then
        let shift = rem - bit_ptr s; k = nat ((32 - int shift) mod 2 ^ 32); bp = bit_ptr s
        in Option.bind (or_byte (shr32 symbol shift) s) (\<lambda>s.
             e_u_loop (rem - bp) (shr32 (shl32 symbol k) k) (s\<lparr>byte_ptr := byte_ptr s + 1, bit_ptr := 8\<rparr>))
      else Some (rem, symbol, s))"
  by pat_completeness auto
termination
  by (relation "measure (\<lambda>(rem, _, s). 2 * rem + (if bit_ptr s = 0 then 1 else 0))") auto

declare e_u_loop.simps [simp del]

definition e_u :: "u32 \<Rightarrow> nat \<Rightarrow> extra_data_handler \<Rightarrow> extra_data_handler option" where
  "e_u symbol num_bits s = do {
     (rem, symbol, s) \<leftarrow> e_u_loop num_bits symbol s;
     if rem \<noteq> 0 then map_option (step_bits rem) (or_byte (shl32 symbol (bit_ptr s - rem)) s)
     else Some s
   }"

function bit_count :: "nat \<Rightarrow> u32 \<Rightarrow> nat" where
  "bit_count i nn = (if i < 33 \<and> nn \<noteq> 0 then bit_count (i + 1) (shr32 nn 1) else i)"
  by pat_completeness auto
termination
  by (relation "measure (\<lambda>(i, _). 33 - i)") auto

declare bit_count.simps [simp del]

definition e_ue :: "u32 \<Rightarrow> extra_data_handler \<Rightarrow> extra_data_handler option" where
  "e_ue symbol s =
     (let i = bit_count 0 (shr32 (symbol + 1) 1); sym_len = 2 * i + 1;
          info = symbol + 1 - shl32 1 i; sufix_len = shl32 1 (sym_len div 2);
          info = sufix_len OR (info AND (sufix_len - 1))
      in e_u info sym_len s)"

definition create_grid :: "frame_pack \<Rightarrow> extra_data_handler \<Rightarrow> extra_data_handler option" where
  "create_grid f s = do {
     s \<leftarrow> e_u (frame0_grid_position_x f) 4 s;
     s \<leftarrow> e_u (frame0_grid_position_y f) 4 s;
     s \<leftarrow> e_u (frame1_grid_position_x f) 4 s;
     e_u (frame1_grid_position_y f) 4 s
   }"

definition create_body :: "frame_pack \<Rightarrow> extra_data_handler \<Rightarrow> extra_data_handler option" where
  "create_body f s = do {
     s \<leftarrow> e_u (fp_type f) 7 s;
     s \<leftarrow> e_u (quincunx_sampling_flag f) 1 s;
     s \<leftarrow> e_u (content_interpretation_type f) 6 s;
     s \<leftarrow> e_u (spatial_flipping_flag f) 1 s;
     s \<leftarrow> e_u (frame0_flipped_flag f) 1 s;
     s \<leftarrow> e_u (field_views_flag f) 1 s;
     s \<leftarrow> e_u (current_frame_is_frame0_flag f) 1 s;
     s \<leftarrow> e_u (frame0_self_contained_flag f) 1 s;
     s \<leftarrow> e_u (frame1_self_contained_flag f) 1 s;
     s \<leftarrow> (if quincunx_sampling_flag f = 0 \<and> fp_type f \<noteq> 5 then create_grid f s else Some s);
     s \<leftarrow> e_u (reserved_byte f) 8 s;
     e_ue (repetition_period f) s
   }"

definition create_frame_pack :: "extra_data_handler \<Rightarrow> extra_data_handler option" where
  "create_frame_pack s = (let f = fpa s in do {
     s \<leftarrow> e_ue (fp_id f) s;
     s \<leftarrow> e_u (cancel_flag f) 1 s;
     s \<leftarrow> (if cancel_flag f = 0 then create_body f s else Some s);
     e_u (extension_flag f) 1 s
   })"

section \<open>Creating the SEI message\<close>

text \<open>The loop of \<open>create_rbsp\<close> with the bytes written so far and their count \<open>j\<close>.\<close>

function rbsp_pairs :: "u8 list \<Rightarrow> nat \<Rightarrow> nat \<Rightarrow> nat \<Rightarrow> u8 list \<Rightarrow> (u8 list \<times> nat) option" where
  "rbsp_pairs rbsp n i j out =
     (if i < n then do {
        b0 \<leftarrow> mem_at rbsp i;
        if i + 1 < n then do {
          b1 \<leftarrow> mem_at rbsp (i + 1);
          if unat b0 + unat b1 = 0 then rbsp_pairs rbsp n (i + 2) (j + 3) (out @ [b0, b1, 3])
          else rbsp_pairs rbsp n (i + 2) (j + 2) (out @ [b0, b1])
        } else rbsp_pairs rbsp n (i + 2) (j + 1) (out @ [b0])
      } else Some (out, j))"
  by pat_completeness auto
termination
  by (relation "measure (\<lambda>(_, n, i, _). n - i)") auto

declare rbsp_pairs.simps [simp del]

definition create_rbsp :: "u8 \<Rightarrow> extra_data_handler \<Rightarrow> (u8 list \<times> nat) option" where
  "create_rbsp nalu_type s = map_option (\<lambda>(out, j).
     ([0, 0, 0, 1, nalu_type, ucast (sei_payload_type s AND 0xFF), of_nat (byte_ptr s) - 1] @ out, j))
     (rbsp_pairs (rbsp_buf s) (byte_ptr s) 0 7 [])"

definition align_payload :: "extra_data_handler \<Rightarrow> extra_data_handler option" where
  "align_payload s =
     (if bit_ptr s \<noteq> 8
      then Option.bind (e_u 1 1 s) (\<lambda>s. if bit_ptr s \<noteq> 8 then e_u 0 (bit_ptr s) s else Some s)
      else Some s)"

text \<open>\<open>create_sei\<close>: the bytes it writes, its return value and the new state.\<close>

definition create_sei :: "extra_data_handler \<Rightarrow> (u8 list \<times> nat \<times> extra_data_handler) option" where
  "create_sei s =
     (let s = s\<lparr>byte_ptr := 0, bit_ptr := 8\<rparr>
      in if sei_payload_type s = SEI_PAYLOAD_FRAME_PACKING_ARRANGEMENT then do {
           s \<leftarrow> create_frame_pack s;
           s \<leftarrow> align_payload s;
           s \<leftarrow> e_u 1 1 s;
           s \<leftarrow> e_u 0 7 s;
           (out, j) \<leftarrow> create_rbsp 6 s;
           Some (out, j, s\<lparr>pack_sei := False, sei_payload_type := - 1\<rparr>)
         } else Some ([], 0, s\<lparr>pack_sei := False, sei_payload_type := - 1\<rparr>))"

definition create_extra_data ::
  "omx_buffer \<Rightarrow> extra_data_handler \<Rightarrow> (omx_buffer \<times> extra_data_handler) option" where
  "create_extra_data buf s =
     (if nFlags buf AND 0x80 \<noteq> 0 \<and> pack_sei s then do {
        (out, msg_size, s) \<leftarrow> create_sei s;
        buf1 \<leftarrow> emit out buf;
        Some (buf1\<lparr>nFilledLen := nFilledLen buf + msg_size\<rparr>, s)
      } else Some (buf, s))"

definition get_frame_pack_data_xd :: "extra_data_handler \<Rightarrow> frame_pack" where
  "get_frame_pack_data_xd s = fpa s"

definition set_frame_pack_data :: "frame_pack \<Rightarrow> extra_data_handler \<Rightarrow> extra_data_handler" where
  "set_frame_pack_data f s = s\<lparr>fpa := f, pack_sei := True,
     sei_payload_type := SEI_PAYLOAD_FRAME_PACKING_ARRANGEMENT\<rparr>"

section \<open>Slice table and extra data records\<close>

text \<open>A little-endian word of memory.\<close>

definition rd_le :: "u8 list \<Rightarrow> nat \<Rightarrow> u32 option" where
  "rd_le mem i = (if i + 4 \<le> length mem
     then Some (ucast (mem ! i) OR push_bit 8 (ucast (mem ! (i + 1))) OR push_bit 16 (ucast (mem ! (i + 2)))
       OR push_bit 24 (ucast (mem ! (i + 3)))) else None)"

text \<open>The four byte test reads no further than the first mismatch.\<close>

fun bytes_match :: "u8 list \<Rightarrow> nat \<Rightarrow> u8 list \<Rightarrow> bool option" where
  "bytes_match mem i [] = Some True"
| "bytes_match mem i (c # cs) =
     Option.bind (mem_at mem i) (\<lambda>b. if b \<noteq> c then Some False else bytes_match mem (Suc i) cs)"

text \<open>\<open>Some None\<close> is the error return, \<open>Some (Some n)\<close> the total size of the slices.\<close>

fun slice_loop :: "u8 list \<Rightarrow> nat \<Rightarrow> u8 list \<Rightarrow> nat \<Rightarrow> nat \<Rightarrow> u32 \<Rightarrow> u32 option option" where
  "slice_loop mem d frame 0 i total_size = Some (Some total_size)"
| "slice_loop mem d frame (Suc n) i total_size = do {
     slice_offset \<leftarrow> rd_le mem (d + 4 * (i * 2 + 1));
     sc \<leftarrow> bytes_match frame (unat slice_offset) [0, 0, 0, 1];
     if \<not> sc then Some None
     else if slice_offset \<noteq> total_size then Some None
     else do {
       slice_size \<leftarrow> rd_le mem (d + 4 * (i * 2 + 2));
       slice_loop mem d frame n (Suc i) (total_size + slice_size)
     }
   }"

text \<open>\<open>d\<close> is the position of the record's \<open>data\<close> in the memory \<open>mem\<close>.\<close>

definition parse_sliceinfo :: "omx_buffer \<Rightarrow> u8 list \<Rightarrow> nat \<Rightarrow> u32 \<Rightarrow> int option" where
  "parse_sliceinfo buf mem d nDataSize = do {
     num_slices \<leftarrow> rd_le mem d;
     if 4 + num_slices * 8 \<noteq> nDataSize then Some (- 1)
     else do {
       r \<leftarrow> slice_loop mem d (pBuffer buf) (unat num_slices) 0 0;
       Some (case r of None \<Rightarrow> - 1 | Some total_size \<Rightarrow> if of_nat (nFilledLen buf) \<noteq> total_size then - 1 else 0)
     }
   }"

definition VDEC_EXTRADATA_NONE :: u32 where "VDEC_EXTRADATA_NONE = 0x001"
definition VDEC_EXTRADATA_SEI :: u32 where "VDEC_EXTRADATA_SEI = 0x010"
definition VEN_EXTRADATA_QCOMFILLER :: u32 where "VEN_EXTRADATA_QCOMFILLER = 0x002"
definition VEN_EXTRADATA_SLICEINFO :: u32 where "VEN_EXTRADATA_SLICEINFO = 0x100"

text \<open>
  The walk over the records. \<open>hdr mem p\<close> reads the header \<open>OMX_OTHER_EXTRADATATYPE\<close> (a type of
  the OMX headers) at \<open>p\<close>: its fields \<open>nSize\<close>, \<open>eType\<close>, \<open>nDataSize\<close> and the position of \<open>data\<close>.
\<close>

type_synonym xd_header = "u8 list \<Rightarrow> nat \<Rightarrow> (u32 \<times> u32 \<times> u32 \<times> nat) option"

partial_function (option) walk_records ::
  "xd_header \<Rightarrow> omx_buffer \<Rightarrow> nat \<Rightarrow> extra_data_handler \<Rightarrow> extra_data_handler option" where
  "walk_records hdr buf p s =
     (if p < nAllocLen buf then
        Option.bind (hdr (pBuffer buf) p) (\<lambda>(nSize, eType, nDataSize, d).
          if eType = VDEC_EXTRADATA_NONE then Some s
          else Option.bind
            (if eType = VDEC_EXTRADATA_SEI
             then map_option snd (parse_sei_xd (drop d (pBuffer buf)) (unat nDataSize) s)
             else if eType = VEN_EXTRADATA_QCOMFILLER then Some s
             else if eType = VEN_EXTRADATA_SLICEINFO
             then map_option (\<lambda>_. s) (parse_sliceinfo buf (pBuffer buf) d nDataSize)
             else Some s)
            (\<lambda>s. walk_records hdr buf (p + unat nSize) s))
      else Some s)"

text \<open>\<open>base\<close> is the address of the buffer; the first record is at the next multiple of four.\<close>

definition parse_extra_data :: "xd_header \<Rightarrow> nat \<Rightarrow> omx_buffer \<Rightarrow> extra_data_handler \<Rightarrow> extra_data_handler option" where
  "parse_extra_data hdr base buf s =
     (let a = base + nOffset buf + nFilledLen buf + 3; p = a - a mod 4 - base
      in if nFlags buf AND 0x40 \<noteq> 0 then walk_records hdr buf p s else Some s)"

end
