(* ===== verification/ExtraDataBits.thy ===== *)
theory ExtraDataBits
  imports ExtraData
begin

text \<open>
  The bit reader and the bit writer of the extra data handler, both against the shared syntax of
  the frame packing message: reads meet the bit reader contract up to eight bits, writes append
  to the bits written so far.
\<close>

section \<open>The reader meets the bit reader contract up to eight bits\<close>

definition xd_bits :: "extra_data_handler \<Rightarrow> bool list" where
  "xd_bits s = drop (8 - bit_ptr s) (bytes_bits (drop (byte_ptr s) (rbsp_buf s)))"

definition xd_ok :: "extra_data_handler \<Rightarrow> bool" where
  "xd_ok s \<longleftrightarrow> 1 \<le> bit_ptr s \<and> bit_ptr s \<le> 8"

lemma xd_bits_nonempty:
  assumes "xd_bits s \<noteq> []"
  obtains b where "cur_byte s = Some b"
    "xd_bits s = drop (8 - bit_ptr s) (byte_bits b) @ bytes_bits (drop (byte_ptr s + 1) (rbsp_buf s))"
proof -
  have lt: "byte_ptr s < length (rbsp_buf s)" using assms by (auto simp: xd_bits_def intro: ccontr)
  have "xd_bits s = drop (8 - bit_ptr s) (byte_bits (rbsp_buf s ! byte_ptr s)) @
      bytes_bits (drop (byte_ptr s + 1) (rbsp_buf s))"
    using Cons_nth_drop_Suc [OF lt, symmetric] by (simp add: xd_bits_def)
  then show thesis using lt that by (simp add: cur_byte_def mem_at_def)
qed

lemma window_byte:
  assumes "k + n \<le> 8"
  shows "unat (shr32 (shl32 (ucast (b :: u8)) k AND 0xFF) (8 - n)) =
    bits_val (take n (drop k (byte_bits b)))"
proof -
  have "shl32 (ucast b) k AND 0xFF = take_bit 8 (push_bit k (ucast b :: u32))"
    using assms by (simp add: shl32_def take_bit_eq_mask mask_eq_exp_minus_1)
  then have "unat (shl32 (ucast b) k AND 0xFF) = unat b * 2 ^ k mod 2 ^ 8"
    using assms by (simp only: unsigned_take_bit_eq unsigned_push_bit_eq)
      (simp add: push_bit_eq_mult take_bit_eq_mod unat_ucast_8 mod_mod_cancel)
  then have "unat (shr32 (shl32 (ucast b) k AND 0xFF) (8 - n)) = (unat b * 2 ^ k mod 2 ^ 8) div 2 ^ (8 - n)"
    by (simp add: unat_shr32)
  also have "\<dots> = drop_bit (8 - n) (take_bit 8 (push_bit k (unat b)))"
    by (simp add: drop_bit_eq_div take_bit_eq_mod push_bit_eq_mult)
  also have "\<dots> = take_bit n (drop_bit (8 - k - n) (unat b))"
    using assms by (intro bit_eqI) (auto simp: bit_simps ac_simps)
  also have "\<dots> = bits_val (take n (drop k (byte_bits b)))"
    by (simp only: byte_slice [OF assms] bits_val_bits_of) (simp add: drop_bit_eq_div take_bit_eq_mod)
  finally show ?thesis .
qed

definition same_but_ptr :: "extra_data_handler \<Rightarrow> extra_data_handler \<Rightarrow> bool" where
  "same_but_ptr s t \<longleftrightarrow> fpa t = fpa s \<and> rbsp_buf t = rbsp_buf s \<and> pack_sei t = pack_sei s \<and>
     sei_payload_type t = sei_payload_type s"

lemma d_u_inside:
  assumes "xd_ok s" "0 < n" "n < bit_ptr s" "n \<le> length (xd_bits s)"
  shows "\<exists>b. cur_byte s = Some b \<and> unat (shr32 (shl32 (ucast b) (8 - bit_ptr s) AND 0xFF) (8 - n)) =
      bits_val (take n (xd_bits s)) \<and> xd_bits (step_bits n s) = drop n (xd_bits s) \<and> xd_ok (step_bits n s) \<and>
    same_but_ptr s (step_bits n s)"
proof -
  have ne: "xd_bits s \<noteq> []" using assms(2,4) by (cases "xd_bits s") simp_all
  obtain b where b: "cur_byte s = Some b"
    "xd_bits s = drop (8 - bit_ptr s) (byte_bits b) @ bytes_bits (drop (byte_ptr s + 1) (rbsp_buf s))"
    by (rule xd_bits_nonempty [OF ne])
  have k: "8 - bit_ptr s + n \<le> 8" using assms(1,3) by (auto simp: xd_ok_def)
  have "take n (xd_bits s) = take n (drop (8 - bit_ptr s) (byte_bits b))"
    unfolding b(2) using assms(1,3) by (simp add: xd_ok_def)
  then have v: "unat (shr32 (shl32 (ucast b) (8 - bit_ptr s) AND 0xFF) (8 - n)) = bits_val (take n (xd_bits s))"
    using window_byte [OF k, of b] by (simp only:)
  have st: "step_bits n s = s\<lparr>bit_ptr := bit_ptr s - n\<rparr>" using assms(3) by (simp add: step_bits_def)
  have "8 - (bit_ptr s - n) = n + (8 - bit_ptr s)" using assms(1,3) by (auto simp: xd_ok_def)
  then have "xd_bits (step_bits n s) = drop n (xd_bits s)" by (simp add: st xd_bits_def)
  moreover have "xd_ok (step_bits n s)" using assms(1,3) by (auto simp: st xd_ok_def)
  moreover have "same_but_ptr s (step_bits n s)" by (simp add: st same_but_ptr_def)
  ultimately show ?thesis using b(1) v by blast
qed

lemma d_u_exact:
  assumes "xd_ok s" "n < bit_ptr s + 8" "n \<le> length (xd_bits s)"
  shows "\<exists>s'. d_u n s = Some (of_nat (bits_val (take n (xd_bits s))), s') \<and> xd_bits s' = drop n (xd_bits s) \<and>
    xd_ok s' \<and> same_but_ptr s s'"
proof (cases "n < bit_ptr s")
  case True
  then have l: "d_u_loop n 0 0 s = Some (n, 0, s)" by (subst d_u_loop.simps) simp
  show ?thesis
  proof (cases "n = 0")
    case True
    then show ?thesis using l assms(1) by (simp add: d_u_def same_but_ptr_def)
  next
    case False
    with d_u_inside [OF assms(1) _ True assms(3)] obtain b where b: "cur_byte s = Some b"
      "unat (shr32 (shl32 (ucast b) (8 - bit_ptr s) AND 0xFF) (8 - n)) = bits_val (take n (xd_bits s))"
      "xd_bits (step_bits n s) = drop n (xd_bits s)" "xd_ok (step_bits n s)" "same_but_ptr s (step_bits n s)"
      by auto
    have "shl32 0 n = 0" by (simp add: shl32_def)
    then have "d_u n s = Some (shr32 (shl32 (ucast b) (8 - bit_ptr s) AND 0xFF) (8 - n), step_bits n s)"
      using l b(1) False by (simp add: d_u_def)
    moreover have "shr32 (shl32 (ucast b) (8 - bit_ptr s) AND 0xFF) (8 - n) = of_nat (bits_val (take n (xd_bits s)))"
      by (metis b(2) of_nat_unat ucast_id)
    ultimately show ?thesis using b(3-5) by simp
  qed
next
  case False
  define m where "m = bit_ptr s"
  define r where "r = n - m"
  have m: "1 \<le> m" "m \<le> 8" "n = m + r" "r < 8" using assms(1,2) False by (auto simp: xd_ok_def m_def r_def)
  have ne: "xd_bits s \<noteq> []" using assms(3) m by (cases "xd_bits s") simp_all
  obtain b where b: "cur_byte s = Some b"
    "xd_bits s = drop (8 - m) (byte_bits b) @ bytes_bits (drop (byte_ptr s + 1) (rbsp_buf s))"
    unfolding m_def by (rule xd_bits_nonempty [OF ne])
  define s1 where "s1 = s\<lparr>bit_ptr := 8, byte_ptr := byte_ptr s + 1\<rparr>"
  define x where "x = shr32 (shl32 (ucast b) (8 - m) AND 0xFF) (8 - m)"
  have s1: "xd_ok s1" "xd_bits s1 = drop m (xd_bits s)" "same_but_ptr s s1" "bit_ptr s1 = 8"
    using m(1,2) b(2) by (simp_all add: s1_def xd_ok_def xd_bits_def same_but_ptr_def)
  have tk: "take m (xd_bits s) = drop (8 - m) (byte_bits b)" unfolding b(2) using m(2) by simp
  have "unat (shr32 (shl32 (ucast b) (8 - m) AND 0xFF) (8 - m)) = bits_val (take m (drop (8 - m) (byte_bits b)))"
    by (rule window_byte) (use m(2) in simp)
  then have ux: "unat x = bits_val (take m (xd_bits s))" unfolding x_def tk using m(2) by simp
  have l: "d_u_loop n 0 0 s = Some (r, x, s1)"
  proof -
    have "d_u_loop n 0 0 s = d_u_loop r (shl32 0 0 OR x) (8 - m) s1"
      using m(3) b(1) by (subst d_u_loop.simps) (simp add: m_def [symmetric] Let_def x_def s1_def)
    also have "\<dots> = Some (r, x, s1)" using m(4) s1(4) by (subst d_u_loop.simps) (simp add: shl32_def)
    finally show ?thesis .
  qed
  show ?thesis
  proof (cases "r = 0")
    case True
    then show ?thesis using l s1 m(3) ux by (simp add: d_u_def) (metis of_nat_unat ucast_id)
  next
    case r: False
    have r8: "0 < r" "r < bit_ptr s1" "r \<le> length (xd_bits s1)"
      using r m(3,4) s1(2,4) assms(3) by auto
    obtain c where c: "cur_byte s1 = Some c"
      "unat (shr32 (shl32 (ucast c) (8 - bit_ptr s1) AND 0xFF) (8 - r)) = bits_val (take r (xd_bits s1))"
      "xd_bits (step_bits r s1) = drop r (xd_bits s1)" "xd_ok (step_bits r s1)" "same_but_ptr s1 (step_bits r s1)"
      using d_u_inside [OF s1(1) r8] by blast
    define y where "y = shr32 (shl32 (ucast c) (8 - bit_ptr s1) AND 0xFF) (8 - r)"
    have lr: "length (take r (xd_bits s1)) = r" "length (take m (xd_bits s)) = m"
      using r8(3) assms(3) m(3) by auto
    have "unat (shl32 x r OR y) = unat x * 2 ^ r + unat y"
      using bits_val_less [of "take r (xd_bits s1)"] bits_val_less [of "take m (xd_bits s)"] lr m
      by (intro unat_shl_or [of x m]) (simp_all add: ux y_def c(2) del: length_take)
    also have "\<dots> = bits_val (take m (xd_bits s) @ take r (xd_bits s1))"
      by (simp only: bits_val_append lr ux y_def c(2))
    also have "take m (xd_bits s) @ take r (xd_bits s1) = take n (xd_bits s)"
      unfolding s1(2) m(3) by (rule take_add [symmetric])
    finally have "shl32 x r OR y = of_nat (bits_val (take n (xd_bits s)))" by (metis of_nat_unat ucast_id)
    moreover have "d_u n s = Some (shl32 x r OR y, step_bits r s1)"
      using l c(1) r by (simp add: d_u_def y_def)
    moreover have "drop r (xd_bits s1) = drop n (xd_bits s)" unfolding s1(2) m(3) by (simp add: add.commute)
    ultimately show ?thesis using c(3-5) s1(3) by (auto simp: same_but_ptr_def)
  qed
qed

interpretation xd: bit_reader d_u xd_bits xd_ok 8
proof
  show "1 \<le> (8::nat)" by simp
next
  fix s n
  assume "xd_ok s" "n \<le> 8" "n \<le> length (xd_bits s)"
  then show "\<exists>s'. d_u n s = Some (of_nat (bits_val (take n (xd_bits s))), s') \<and>
      xd_bits s' = drop n (xd_bits s) \<and> xd_ok s'"
    using d_u_exact [of s n] by (auto simp: xd_ok_def)
qed

interpretation xd: ue_decoder d_u xd_bits xd_ok 8 d_ue_zeros d_ue
proof
  fix s s' :: extra_data_handler and bs and z :: nat
  assume "d_u 1 s = Some (1, s')"
  then show "d_ue_zeros z s = Some (z, s')" by (subst d_ue_zeros.simps) simp
next
  fix s s' :: extra_data_handler and bs and z :: nat
  assume "d_u 1 s = Some (0, s')"
  then show "d_ue_zeros z s = d_ue_zeros (Suc z) s'" by (subst d_ue_zeros.simps) simp
next
  fix s s1
  assume "d_ue_zeros 0 s = Some (0, s1)" "xd_ok s1"
  moreover have "\<exists>s2. d_u 0 s1 = Some (0, s2) \<and> xd_bits s2 = xd_bits s1 \<and> xd_ok s2"
    using d_u_exact [of s1 0] \<open>xd_ok s1\<close> by auto
  ultimately show "\<exists>s2. d_ue s = Some (0, s2) \<and> xd_bits s2 = xd_bits s1 \<and> xd_ok s2"
    by (auto simp: d_ue_def shl32_def)
next
  fix s s1 s2 v and z :: nat
  assume "d_ue_zeros 0 s = Some (z, s1)" "d_u z s1 = Some (v, s2)"
  then show "d_ue s = Some (shl32 1 z - 1 + v, s2)" by (simp add: d_ue_def)
qed

section \<open>Reading changes only the two pointers\<close>

lemma same_refl [simp]: "same_but_ptr s s"
  by (simp add: same_but_ptr_def)

lemma same_trans: "same_but_ptr s t \<Longrightarrow> same_but_ptr t v \<Longrightarrow> same_but_ptr s v"
  by (simp add: same_but_ptr_def)

lemma d_u_loop_same: "d_u_loop n x k s = Some (r, y, t) \<Longrightarrow> same_but_ptr s t"
proof (induction n x k s rule: d_u_loop.induct)
  case (1 n x k s)
  show ?case
  proof (cases "n \<ge> bit_ptr s")
    case True
    then obtain b where b: "cur_byte s = Some b" using "1.prems"
      by (subst (asm) d_u_loop.simps) (auto simp: bind_eq_Some_conv)
    let ?s = "s\<lparr>bit_ptr := 8, byte_ptr := byte_ptr s + 1\<rparr>"
    have "d_u_loop (n - bit_ptr s) (shl32 x k OR shr32 (shl32 (ucast b) (8 - bit_ptr s) AND 0xFF) (8 - bit_ptr s))
        (8 - bit_ptr s) ?s = Some (r, y, t)"
      using "1.prems" True b by (subst (asm) d_u_loop.simps) (simp add: Let_def)
    then have "same_but_ptr ?s t" by (rule "1.IH" [OF True b refl refl refl])
    then show ?thesis by (simp add: same_but_ptr_def)
  next
    case False
    then show ?thesis using "1.prems" by (subst (asm) d_u_loop.simps) simp
  qed
qed

lemma step_bits_same: "same_but_ptr s (step_bits n s)"
  by (simp add: step_bits_def same_but_ptr_def)

lemma d_u_same: "d_u n s = Some (v, t) \<Longrightarrow> same_but_ptr s t"
  by (auto simp: d_u_def bind_eq_Some_conv split: if_splits
      intro: d_u_loop_same same_trans [OF d_u_loop_same step_bits_same])

lemma d_ue_zeros_same': "d_ue_zeros z s = Some r \<Longrightarrow> same_but_ptr s (snd r)"
proof (erule d_ue_zeros.raw_induct [rotated])
  fix f :: "nat \<Rightarrow> extra_data_handler \<Rightarrow> (nat \<times> extra_data_handler) option" and z s r
  assume ih: "\<And>z s r. f z s = Some r \<Longrightarrow> same_but_ptr s (snd r)"
    and run: "Option.bind (d_u 1 s) (\<lambda>(b, s). if b = 0 then f (Suc z) s else Some (z, s)) = Some r"
  obtain b t where d: "d_u 1 s = Some (b, t)" using run by (auto simp: bind_eq_Some_conv)
  then have "b = 0 \<and> f (Suc z) t = Some r \<or> r = (z, t)" using run by (auto split: if_splits)
  then show "same_but_ptr s (snd r)" by (metis d_u_same [OF d] ih snd_conv same_trans)
qed

lemmas d_ue_zeros_same = d_ue_zeros_same' [where r = "(k, t)" for k t, simplified]

lemma d_ue_same: "d_ue s = Some (v, t) \<Longrightarrow> same_but_ptr s t"
  by (auto simp: d_ue_def bind_eq_Some_conv intro: same_trans [OF d_ue_zeros_same d_u_same])

section \<open>The frame packing parser inverts the syntax\<close>

text \<open>\<open>xat g s0 s bs\<close>: \<open>s\<close> stands before \<open>bs\<close> and is \<open>s0\<close> with the record \<open>g\<close> otherwise.\<close>

definition xat :: "frame_pack \<Rightarrow> extra_data_handler \<Rightarrow> extra_data_handler \<Rightarrow> bool list \<Rightarrow> bool" where
  "xat g s0 s bs \<longleftrightarrow> same_but_ptr (s0\<lparr>fpa := g\<rparr>) s \<and> xd_ok s \<and> xd_bits s = bs"

lemma xat_fpa: "xat g s0 s bs \<Longrightarrow> fpa s = g"
  by (simp add: xat_def same_but_ptr_def)

lemma xat_set: "xat g s0 s bs \<Longrightarrow> xat h s0 (s\<lparr>fpa := h\<rparr>) bs"
  by (auto simp: xat_def same_but_ptr_def xd_ok_def xd_bits_def)

lemma xat_d_u:
  assumes "xat g s0 s (fld n x @ ys)" "n \<le> 8" "unat x < 2 ^ n"
  shows "\<exists>t. d_u n s = Some (x, t) \<and> xat g s0 t ys"
  using xd.rd_field [of s n "unat x" ys] assms d_u_same [of n s] same_trans
  by (fastforce simp: xat_def fld_def)

lemma xat_d_ue:
  assumes "xat g s0 s (ue_bits (unat x) @ ys)" "x < 0x1FF"
  shows "\<exists>t. d_ue s = Some (x, t) \<and> xat g s0 t ys"
proof -
  have x: "unat x + 1 < 2 ^ 9" using assms(2) by (simp add: word_less_nat_alt)
  have "ue_zeros (unat x) < 9" by (rule ue_zeros_le [OF x])
  then show ?thesis
    using xd.ue_decodes [of s "unat x" ys] assms(1) x d_ue_same [of s] same_trans
    by (fastforce simp: xat_def)
qed

lemma xat_fld_bind:
  assumes "xat g s0 s (fld n x @ ys)" "n \<le> 8" "unat x < 2 ^ n"
    and "\<And>t. xat (h x g) s0 t ys \<Longrightarrow> yields P (f t)"
  shows "yields P (Option.bind (d_u n s) (\<lambda>(v, s). let s = s\<lparr>fpa := h v (fpa s)\<rparr> in f s))"
proof -
  obtain t where t: "d_u n s = Some (x, t)" "xat g s0 t ys" using xat_d_u [OF assms(1-3)] by blast
  show ?thesis using assms(4) [OF xat_set [OF t(2)]] by (simp add: t(1) xat_fpa [OF t(2)] Let_def)
qed

lemma xat_ue_bind:
  assumes "xat g s0 s (ue_bits (unat x) @ ys)" "x < 0x1FF"
    and "\<And>t. xat (h x g) s0 t ys \<Longrightarrow> yields P (f t)"
  shows "yields P (Option.bind (d_ue s) (\<lambda>(v, s). let s = s\<lparr>fpa := h v (fpa s)\<rparr> in f s))"
proof -
  obtain t where t: "d_ue s = Some (x, t)" "xat g s0 t ys" using xat_d_ue [OF assms(1,2)] by blast
  show ?thesis using assms(3) [OF xat_set [OF t(2)]] by (simp add: t(1) xat_fpa [OF t(2)] Let_def)
qed

lemma grid_xd_decodes:
  assumes "xat g s0 s (grid_bits f @ ys)" "frame_pack_wf f"
  shows "yields (\<lambda>t. xat (g\<lparr>frame0_grid_position_x := frame0_grid_position_x f,
      frame0_grid_position_y := frame0_grid_position_y f, frame1_grid_position_x := frame1_grid_position_x f,
      frame1_grid_position_y := frame1_grid_position_y f\<rparr>) s0 t ys) (grid_xd s)"
  unfolding grid_xd_def
  apply (rule xat_fld_bind, rule assms(1) [unfolded grid_bits_def append_assoc], simp,
      rule frame_pack_widths [OF assms(2)])
  apply (rule xat_fld_bind, assumption, simp, rule frame_pack_widths [OF assms(2)])+
  by simp

lemma body_xd_decodes:
  assumes "xat g s0 s (body_bits f @ ys)" "frame_pack_wf f" "repetition_period f < 0x1FF"
  shows "yields (\<lambda>t. xat (body_over g f) s0 t ys) (body_xd s)"
proof -
  let ?h = "g\<lparr>fp_type := fp_type f, quincunx_sampling_flag := quincunx_sampling_flag f,
      content_interpretation_type := content_interpretation_type f,
      spatial_flipping_flag := spatial_flipping_flag f, frame0_flipped_flag := frame0_flipped_flag f,
      field_views_flag := field_views_flag f, current_frame_is_frame0_flag := current_frame_is_frame0_flag f,
      frame0_self_contained_flag := frame0_self_contained_flag f,
      frame1_self_contained_flag := frame1_self_contained_flag f\<rparr>"
  let ?tl = "fld 8 (reserved_byte f) @ ue_bits (unat (repetition_period f)) @ ys"
  define h2 where "h2 = (if has_grid f then ?h\<lparr>frame0_grid_position_x := frame0_grid_position_x f,
      frame0_grid_position_y := frame0_grid_position_y f, frame1_grid_position_x := frame1_grid_position_x f,
      frame1_grid_position_y := frame1_grid_position_y f\<rparr> else ?h)"
  have fin: "h2\<lparr>reserved_byte := reserved_byte f, repetition_period := repetition_period f\<rparr> = body_over g f"
    by (simp add: h2_def body_over_def Let_def)
  have grid: "yields (\<lambda>t. xat h2 s0 t ?tl)
      (if quincunx_sampling_flag (fpa t) = 0 \<and> fp_type (fpa t) \<noteq> 5 then grid_xd t else Some t)"
    if "xat ?h s0 t ((if has_grid f then grid_bits f else []) @ ?tl)" for t
  proof -
    have c: "quincunx_sampling_flag (fpa t) = 0 \<and> fp_type (fpa t) \<noteq> 5 \<longleftrightarrow> has_grid f"
      by (simp add: xat_fpa [OF that] has_grid_def)
    show ?thesis using that grid_xd_decodes [of ?h s0 t f ?tl] assms(2)
      unfolding c h2_def by (cases "has_grid f") simp_all
  qed
  show ?thesis
    unfolding body_xd_def
    apply (rule xat_fld_bind, rule assms(1) [unfolded body_bits_def append_assoc], simp,
        rule frame_pack_widths [OF assms(2)])
    apply (rule xat_fld_bind, assumption, simp, rule frame_pack_widths [OF assms(2)])+
    apply (rule yields_bind, erule grid)
    apply (rule xat_fld_bind, assumption, simp, rule frame_pack_widths [OF assms(2)])
    apply (rule xat_ue_bind, assumption, rule assms(3))
    by (simp add: fin)
qed

lemma parse_frame_pack_xd_decodes:
  assumes "xat g s0 s (frame_pack_bits f @ ys)" "frame_pack_wf f" "fp_id f < 0x1FF" "repetition_period f < 0x1FF"
  shows "yields (\<lambda>t. xat (frame_pack_over g f) s0 t ys) (parse_frame_pack_xd s)"
proof -
  let ?h = "g\<lparr>fp_id := fp_id f, cancel_flag := cancel_flag f\<rparr>"
  let ?tl = "fld 1 (extension_flag f) @ ys"
  define h2 where "h2 = (if cancel_flag f = 0 then body_over ?h f else ?h)"
  have fin: "h2\<lparr>extension_flag := extension_flag f\<rparr> = frame_pack_over g f"
    by (simp add: h2_def body_over_def frame_pack_over_def Let_def)
  have body: "yields (\<lambda>t. xat h2 s0 t ?tl) (if cancel_flag (fpa t) = 0 then body_xd t else Some t)"
    if "xat ?h s0 t ((if cancel_flag f = 0 then body_bits f else []) @ ?tl)" for t
    using that body_xd_decodes [of ?h s0 t f ?tl] assms(2,4) xat_fpa [OF that]
    by (simp add: h2_def split: if_splits)
  show ?thesis
    unfolding parse_frame_pack_xd_def
    apply (rule xat_ue_bind, rule assms(1) [unfolded frame_pack_bits_def append_assoc], rule assms(3))
    apply (rule xat_fld_bind, assumption, simp, rule frame_pack_widths [OF assms(2)])
    apply (rule yields_bind, erule body)
    apply (rule xat_fld_bind, assumption, simp, rule frame_pack_widths [OF assms(2)])
    by (simp add: fin)
qed

section \<open>What has been written\<close>

text \<open>\<open>partial_byte pb\<close>: a byte whose first bits are \<open>pb\<close> and whose other bits are clear.\<close>

definition partial_byte :: "bool list \<Rightarrow> u8" where
  "partial_byte pb = of_nat (bits_val pb * 2 ^ (8 - length pb))"

definition written :: "extra_data_handler \<Rightarrow> bool list \<Rightarrow> bool" where
  "written s bs \<longleftrightarrow> (\<exists>pre pb m. 1 \<le> bit_ptr s \<and> length pb = 8 - bit_ptr s \<and> bit_ptr s \<le> 8 \<and>
     byte_ptr s = length pre \<and> bs = bytes_bits pre @ pb \<and>
     (rbsp_buf s = pre \<and> pb = [] \<or> rbsp_buf s = pre @ partial_byte pb # replicate m 0))"

lemma partial_byte_full: "length pb = 8 \<Longrightarrow> byte_bits (partial_byte pb) = pb"
proof -
  assume l: "length pb = 8"
  then have "bits_val pb < 2 ^ 8" using bits_val_less [of pb] by simp
  then have "unat (of_nat (bits_val pb) :: u8) = bits_val pb" by (simp add: unat_of_nat)
  then show ?thesis using bits_of_bits_val [of pb 0] l by (simp add: byte_bits_def partial_byte_def)
qed

lemma partial_byte_append:
  assumes "length pb + r \<le> 8" "v < 2 ^ r"
  shows "partial_byte pb OR of_nat (v * 2 ^ (8 - length pb - r)) = partial_byte (pb @ bits_of r v)"
proof -
  define q where "q = 8 - length pb - r"
  have q: "8 - length pb = r + q" "8 - length (pb @ bits_of r v) = q" "length pb + r + q = 8"
    using assms(1) by (auto simp: q_def)
  have "v * 2 ^ q < 2 ^ r * 2 ^ q" using assms(2) by simp
  then have lt: "v * 2 ^ q < 2 ^ (r + q)" by (simp add: power_add)
  have bl: "bits_val pb < 2 ^ length pb" by (rule bits_val_less)
  have "bits_val pb * 2 ^ (r + q) + v * 2 ^ q < (bits_val pb + 1) * 2 ^ (r + q)" using lt by simp
  also have "\<dots> \<le> 2 ^ length pb * 2 ^ (r + q)" using bl by (intro mult_le_mono1) simp
  also have "\<dots> = 2 ^ 8" using q(3) by (simp flip: power_add add: add.assoc)
  finally have top: "bits_val pb * 2 ^ (r + q) + v * 2 ^ q < 256" by simp
  then have "bits_val pb * 2 ^ (r + q) < 256" "v * 2 ^ q < 256" by simp_all
  then have u: "unat (of_nat (bits_val pb * 2 ^ (r + q)) :: u8) = bits_val pb * 2 ^ (r + q)"
    "unat (of_nat (v * 2 ^ q) :: u8) = v * 2 ^ q"
    by (simp_all only: unat_of_nat) simp_all
  have "bits_val (pb @ bits_of r v) * 2 ^ q = bits_val pb * 2 ^ (r + q) + v * 2 ^ q"
    using assms(2) by (simp add: bits_val_append bits_val_bits_of power_add algebra_simps)
  then have "unat (partial_byte (pb @ bits_of r v)) = bits_val pb * 2 ^ (r + q) + v * 2 ^ q"
    unfolding partial_byte_def q(2) using top by (simp only: unat_of_nat) simp
  moreover have "unat (partial_byte pb OR of_nat (v * 2 ^ q)) = bits_val pb * 2 ^ (r + q) + v * 2 ^ q"
    unfolding partial_byte_def q(1) unsigned_or_eq u using lt by (rule or_disj_nat)
  ultimately have "unat (partial_byte pb OR of_nat (v * 2 ^ q)) = unat (partial_byte (pb @ bits_of r v))" by simp
  then show ?thesis unfolding q_def [symmetric] by (rule unsigned_word_eqI)
qed

lemma written_chunk:
  assumes "written s bs" "0 < r" "r \<le> bit_ptr s" "v < 2 ^ r" "length bs < 8 * length (rbsp_buf s)"
    and "ucast x = (of_nat (v * 2 ^ (bit_ptr s - r)) :: u8)"
  shows "\<exists>t. or_byte x s = Some t \<and> written (step_bits r t) (bs @ bits_of r v) \<and>
    t = s\<lparr>rbsp_buf := rbsp_buf t\<rparr> \<and> length (rbsp_buf t) = length (rbsp_buf s)"
proof -
  obtain pre pb m where w: "1 \<le> bit_ptr s" "length pb = 8 - bit_ptr s" "bit_ptr s \<le> 8"
    "byte_ptr s = length pre" "bs = bytes_bits pre @ pb"
    "rbsp_buf s = pre \<and> pb = [] \<or> rbsp_buf s = pre @ partial_byte pb # replicate m 0"
    using assms(1) by (auto simp: written_def)
  have buf: "rbsp_buf s = pre @ partial_byte pb # replicate m 0" using w(5,6) assms(5) by auto
  let ?b = "partial_byte (pb @ bits_of r v)"
  have "partial_byte pb OR ucast x = ?b"
    using partial_byte_append [of pb r v] assms(3,4,6) w(2,3) by simp
  then have t: "or_byte x s = Some (s\<lparr>rbsp_buf := pre @ ?b # replicate m 0\<rparr>)"
    by (simp add: or_byte_def cur_byte_def mem_at_def buf w(4))
  have "written (step_bits r (s\<lparr>rbsp_buf := pre @ ?b # replicate m 0\<rparr>)) (bs @ bits_of r v)"
  proof (cases "r = bit_ptr s")
    case True
    then have "byte_bits ?b = pb @ bits_of r v" using w(2,3) by (intro partial_byte_full) simp
    moreover have "partial_byte [] = 0" by (simp add: partial_byte_def)
    ultimately show ?thesis using True w(5)
      unfolding written_def
      by (intro exI [of _ "pre @ [?b]"] exI [of _ "[]"] exI [of _ "m - 1"])
        (cases m, auto simp: step_bits_def w(4))
  next
    case False
    then show ?thesis using assms(2,3) w
      unfolding written_def
      by (intro exI [of _ pre] exI [of _ "pb @ bits_of r v"] exI [of _ m]) (auto simp: step_bits_def)
  qed
  then show ?thesis using t by (auto simp: buf)
qed

text \<open>\<open>writes s t\<close>: \<open>t\<close> differs from \<open>s\<close> in the scratch bytes and the pointers only.\<close>

definition writes :: "extra_data_handler \<Rightarrow> extra_data_handler \<Rightarrow> bool" where
  "writes s t \<longleftrightarrow> fpa t = fpa s \<and> pack_sei t = pack_sei s \<and> sei_payload_type t = sei_payload_type s \<and>
     length (rbsp_buf t) = length (rbsp_buf s)"

lemma writes_trans: "writes s t \<Longrightarrow> writes t v \<Longrightarrow> writes s v"
  by (simp add: writes_def)

lemma writes_step: "t = s\<lparr>rbsp_buf := b\<rparr> \<Longrightarrow> length b = length (rbsp_buf s) \<Longrightarrow> writes s (step_bits r t)"
  by (simp add: writes_def step_bits_def)

lemma e_u_loop_writes:
  assumes "written s bs" "n \<le> bit_ptr s + 32" "unat x < 2 ^ n" "length bs + n \<le> 8 * length (rbsp_buf s)"
  shows "\<exists>k y t cs. e_u_loop n x s = Some (k, y, t) \<and> k < bit_ptr t \<and> written t (bs @ cs) \<and> writes s t \<and>
    unat y < 2 ^ k \<and> bits_of n (unat x) = cs @ bits_of k (unat y)"
  using assms
proof (induction n arbitrary: x s bs rule: less_induct)
  case (less n)
  have bp: "1 \<le> bit_ptr s" "bit_ptr s \<le> 8" using less.prems(1) unfolding written_def by blast+
  show ?case
  proof (cases "n \<ge> bit_ptr s")
    case False
    then show ?thesis using less.prems by (subst e_u_loop.simps) (auto simp: writes_def intro!: exI [of _ "[]"])
  next
    case True
    define sh where "sh = n - bit_ptr s"
    define k where "k = nat ((32 - int sh) mod 2 ^ 32)"
    have sh: "sh \<le> 32" "n = bit_ptr s + sh" using less.prems(2) True by (auto simp: sh_def)
    have k: "k = 32 - sh" using sh(1) by (simp add: k_def nat_mod_as_int)
    define v where "v = unat x div 2 ^ sh"
    have v: "v < 2 ^ bit_ptr s" unfolding v_def using less.prems(3) sh(2)
      by (simp add: less_mult_imp_div_less power_add)
    have "v < 256" using v bp(2) power_increasing [of "bit_ptr s" 8 "2::nat"] by simp
    moreover have ux: "unat (shr32 x sh) = v" using sh(1) by (simp add: unat_shr32 v_def)
    ultimately have uc: "ucast (shr32 x sh) = (of_nat (v * 2 ^ (bit_ptr s - bit_ptr s)) :: u8)"
      by (metis diff_self_eq_0 mult.right_neutral of_nat_unat power_0 unsigned_ucast_eq)
    have "length bs < 8 * length (rbsp_buf s)" using less.prems(4) bp(1) sh(2) by simp
    then obtain t where t: "or_byte (shr32 x sh) s = Some t"
      "written (step_bits (bit_ptr s) t) (bs @ bits_of (bit_ptr s) v)"
      "t = s\<lparr>rbsp_buf := rbsp_buf t\<rparr>" "length (rbsp_buf t) = length (rbsp_buf s)"
      using written_chunk [OF less.prems(1) _ order_refl v _ uc] bp(1) by auto
    define t1 where "t1 = t\<lparr>byte_ptr := byte_ptr t + 1, bit_ptr := 8\<rparr>"
    have bt: "bit_ptr t = bit_ptr s" by (subst t(3)) simp
    have t1: "step_bits (bit_ptr s) t = t1" by (simp add: step_bits_def bt t1_def)
    define x1 where "x1 = shr32 (shl32 x k) k"
    have "unat x1 = (unat x * 2 ^ k mod 2 ^ 32) div 2 ^ k" using k by (simp add: x1_def unat_shr32 unat_shl32)
    also have "(2::nat) ^ 32 = 2 ^ sh * 2 ^ k" using k sh(1) by (simp flip: power_add)
    also have "unat x * 2 ^ k mod (2 ^ sh * 2 ^ k) div 2 ^ k = unat x mod 2 ^ sh"
      by (simp only: mod_mult_mult2) simp
    finally have x1: "unat x1 = unat x mod 2 ^ sh" .
    have len: "length (bs @ bits_of (bit_ptr s) v) + sh \<le> 8 * length (rbsp_buf t1)"
      using less.prems(4) sh(2) t(4) by (simp add: t1_def)
    have run: "e_u_loop n x s = e_u_loop sh x1 t1"
      using True t(1) by (subst e_u_loop.simps) (simp add: Let_def sh_def [symmetric] k_def x1_def t1_def)
    have w1: "written t1 (bs @ bits_of (bit_ptr s) v)" using t(2) t1 by simp
    have sh_lt: "sh < n" using sh(2) bp(1) by simp
    have sh_le: "sh \<le> bit_ptr t1 + 32" using sh(1) by simp
    have x1_lt: "unat x1 < 2 ^ sh" by (simp add: x1)
    obtain k' y t' cs where r: "e_u_loop sh x1 t1 = Some (k', y, t')" "k' < bit_ptr t'"
      "written t' ((bs @ bits_of (bit_ptr s) v) @ cs)" "writes t1 t'" "unat y < 2 ^ k'"
      "bits_of sh (unat x1) = cs @ bits_of k' (unat y)"
      using less.IH [OF sh_lt w1 sh_le x1_lt len] by blast
    have "bits_of n (unat x) = bits_of (bit_ptr s) v @ bits_of sh (unat x1)"
      unfolding sh(2) bits_of_add v_def x1 using bits_of_cong [of "unat x" sh "unat x mod 2 ^ sh"] by simp
    moreover have "writes s t1" using writes_step [OF t(3,4), of "bit_ptr s"] t1 by simp
    ultimately show ?thesis unfolding run using r writes_trans by auto
  qed
qed

lemma e_u_writes:
  assumes "written s bs" "n \<le> bit_ptr s + 32" "unat x < 2 ^ n" "length bs + n \<le> 8 * length (rbsp_buf s)"
  shows "\<exists>t. e_u x n s = Some t \<and> written t (bs @ bits_of n (unat x)) \<and> writes s t"
proof -
  obtain k y t cs where r: "e_u_loop n x s = Some (k, y, t)" "k < bit_ptr t" "written t (bs @ cs)" "writes s t"
    "unat y < 2 ^ k" "bits_of n (unat x) = cs @ bits_of k (unat y)"
    using e_u_loop_writes [OF assms] by blast
  have len: "n = length cs + k" using arg_cong [OF r(6), of length] by simp
  show ?thesis
  proof (cases "k = 0")
    case True
    then show ?thesis using r by (simp add: e_u_def)
  next
    case False
    have bt: "bit_ptr t \<le> 8" using r(3) unfolding written_def by blast
    have "unat y * 2 ^ (bit_ptr t - k) < 2 ^ k * 2 ^ (bit_ptr t - k)" using r(5) by simp
    also have "\<dots> = 2 ^ bit_ptr t" using r(2) by (simp flip: power_add)
    also have "\<dots> \<le> 2 ^ 8" using bt by (rule power_increasing) simp
    finally have "unat (shl32 y (bit_ptr t - k)) = unat y * 2 ^ (bit_ptr t - k)" using bt by (simp add: unat_shl32)
    then have "ucast (shl32 y (bit_ptr t - k)) = (of_nat (unat y * 2 ^ (bit_ptr t - k)) :: u8)"
      by (metis of_nat_unat)
    moreover have "length (bs @ cs) < 8 * length (rbsp_buf t)"
      using assms(4) r(4) len False by (simp add: writes_def)
    ultimately obtain v where v: "or_byte (shl32 y (bit_ptr t - k)) t = Some v"
      "written (step_bits k v) ((bs @ cs) @ bits_of k (unat y))" "v = t\<lparr>rbsp_buf := rbsp_buf v\<rparr>"
      "length (rbsp_buf v) = length (rbsp_buf t)"
      using written_chunk [OF r(3) _ less_imp_le [OF r(2)] r(5)] False by blast
    have "writes s (step_bits k v)" by (rule writes_trans [OF r(4) writes_step [OF v(3,4)]])
    then show ?thesis using r(1,6) v(1,2) False by (simp add: e_u_def)
  qed
qed

lemma bit_count_nbits: "i + nbits (unat nn) \<le> 33 \<Longrightarrow> bit_count i nn = i + nbits (unat nn)"
proof (induction i nn rule: bit_count.induct)
  case (1 i nn)
  show ?case
  proof (cases "nn = 0")
    case True
    then show ?thesis by (simp add: bit_count.simps nbits.simps)
  next
    case False
    then have n: "nbits (unat nn) = Suc (nbits (unat nn div 2))"
      by (subst nbits.simps) (simp add: unat_eq_zero)
    have u: "unat (shr32 nn 1) = unat nn div 2" by (simp add: unat_shr32 [where n = 1, simplified])
    then have "bit_count i nn = bit_count (i + 1) (shr32 nn 1)" using False n "1.prems"
      by (subst bit_count.simps) simp
    then show ?thesis using "1.IH" False n "1.prems" u by simp
  qed
qed

lemma bits_of_zero: "bits_of n 0 = replicate n False"
  by (induction n) auto

lemma ue_bits_wide: "ue_bits k = bits_of (2 * ue_zeros k + 1) (k + 1)"
proof -
  have "(k + 1) div 2 ^ Suc (ue_zeros k) = 0" using ue_zeros_bounds(2) [of k] by simp
  then show ?thesis using bits_of_add [of "ue_zeros k" "Suc (ue_zeros k)" "k + 1"]
    by (simp add: ue_bits_def bits_of_zero mult_2)
qed

lemma e_ue_writes:
  assumes "written s bs" "unat x + 1 < 2 ^ 17"
    and "length bs + length (ue_bits (unat x)) \<le> 8 * length (rbsp_buf s)"
  shows "\<exists>t. e_ue x s = Some t \<and> written t (bs @ ue_bits (unat x)) \<and> writes s t"
proof -
  define k where "k = unat x"
  define m where "m = ue_zeros k"
  have m: "m \<le> 16" using ue_zeros_le [of k 17] assms(2) by (simp add: k_def m_def)
  have u1: "unat (x + 1) = k + 1" using assms(2) by (simp add: unat_word_ariths k_def)
  have "nbits (k + 1) = Suc m"
    using nbits_bounds [of "k + 1"] by (simp add: m_def ue_zeros_def)
  then have nb: "nbits ((k + 1) div 2) = m" by (subst (asm) nbits.simps) simp
  have "unat (shr32 (x + 1) 1) = (k + 1) div 2" using u1 by (simp add: unat_shr32 [where n = 1, simplified])
  then have bc: "bit_count 0 (shr32 (x + 1) 1) = m" using bit_count_nbits [of 0] nb m by simp
  have b: "2 ^ m \<le> k + 1" "k + 1 < 2 ^ Suc m" using ue_zeros_bounds [of k] by (simp_all add: m_def)
  have "(2::nat) ^ m \<le> 2 ^ 16" using m by (rule power_increasing) simp
  then have sh: "unat (shl32 1 m) = 2 ^ m" using m by (simp add: unat_shl32)
  have "unat (x + 1 - shl32 1 m) = k + 1 - 2 ^ m"
    using u1 sh b(1) by (simp add: unat_sub_if')
  then have lo: "unat ((x + 1 - shl32 1 m) AND (shl32 1 m - 1)) = k + 1 - 2 ^ m"
    using m b(2) by (simp add: mask_mod)
  have info: "unat (shl32 1 m OR ((x + 1 - shl32 1 m) AND (shl32 1 m - 1))) = k + 1"
    using unat_shl_or [of 1 1 m "(x + 1 - shl32 1 m) AND (shl32 1 m - 1)"] m b lo by simp
  define y where "y = shl32 1 m OR ((x + 1 - shl32 1 m) AND (shl32 1 m - 1))"
  have run: "e_ue x s = e_u y (2 * m + 1) s" by (simp add: e_ue_def bc [unfolded One_nat_def] Let_def y_def)
  have bp: "1 \<le> bit_ptr s" using assms(1) unfolding written_def by blast
  have ue: "ue_bits (unat x) = bits_of (2 * m + 1) (unat y)"
    using ue_bits_wide [of k] info by (simp add: k_def m_def y_def)
  have "(2::nat) ^ Suc m \<le> 2 ^ (2 * m + 1)" by (rule power_increasing) simp_all
  then have "unat y < 2 ^ (2 * m + 1)" unfolding y_def info by (rule less_le_trans [OF b(2)])
  then show ?thesis using e_u_writes [OF assms(1), of "2 * m + 1" y] bp m assms(3)
    unfolding run ue by simp
qed

section \<open>Writing the frame packing message\<close>

text \<open>\<open>wat full s0 s ys\<close>: of the bits \<open>full\<close>, which fit the buffer, \<open>ys\<close> are still to be written.\<close>

definition wat :: "bool list \<Rightarrow> extra_data_handler \<Rightarrow> extra_data_handler \<Rightarrow> bool list \<Rightarrow> bool" where
  "wat full s0 s ys \<longleftrightarrow> (\<exists>bs. written s bs \<and> full = bs @ ys) \<and> length full \<le> 8 * length (rbsp_buf s0) \<and> writes s0 s"

lemma wat_e_u:
  assumes "wat full s0 s (fld n x @ ys)" "n \<le> 32" "unat x < 2 ^ n"
  shows "yields (\<lambda>t. wat full s0 t ys) (e_u x n s)"
proof -
  obtain bs where bs: "written s bs" "full = bs @ fld n x @ ys" "length full \<le> 8 * length (rbsp_buf s0)" "writes s0 s"
    using assms(1) by (auto simp: wat_def)
  then have "length bs + n \<le> 8 * length (rbsp_buf s)" by (simp add: fld_def writes_def)
  then obtain t where "e_u x n s = Some t" "written t (bs @ bits_of n (unat x))" "writes s t"
    using e_u_writes [OF bs(1) _ assms(3)] assms(2) by auto
  then show ?thesis using bs writes_trans by (auto simp: wat_def fld_def)
qed

lemma wat_e_ue:
  assumes "wat full s0 s (ue_bits (unat x) @ ys)" "x < 0x1FFFF"
  shows "yields (\<lambda>t. wat full s0 t ys) (e_ue x s)"
proof -
  obtain bs where bs: "written s bs" "full = bs @ ue_bits (unat x) @ ys" "length full \<le> 8 * length (rbsp_buf s0)"
    "writes s0 s"
    using assms(1) by (auto simp: wat_def)
  have "unat x + 1 < 2 ^ 17" using assms(2) by (simp add: word_less_nat_alt)
  moreover have "length bs + length (ue_bits (unat x)) \<le> 8 * length (rbsp_buf s)" using bs by (simp add: writes_def)
  ultimately obtain t where "e_ue x s = Some t" "written t (bs @ ue_bits (unat x))" "writes s t"
    using e_ue_writes [OF bs(1)] by blast
  then show ?thesis using bs writes_trans by (auto simp: wat_def)
qed

lemmas wat_fld = yields_bind [OF wat_e_u]
lemmas wat_ue = yields_bind [OF wat_e_ue]

lemma create_grid_writes:
  assumes "wat full s0 s (grid_bits f @ ys)" "frame_pack_wf f"
  shows "yields (\<lambda>t. wat full s0 t ys) (create_grid f s)"
  unfolding create_grid_def
  apply (rule wat_fld, rule assms(1) [unfolded grid_bits_def append_assoc], simp,
      rule frame_pack_widths [OF assms(2)])
  apply (rule wat_fld, assumption, simp, rule frame_pack_widths [OF assms(2)])+
  by (rule wat_e_u, assumption, simp, rule frame_pack_widths [OF assms(2)])

lemma create_body_writes:
  assumes "wat full s0 s (body_bits f @ ys)" "frame_pack_wf f" "repetition_period f < 0x1FFFF"
  shows "yields (\<lambda>t. wat full s0 t ys) (create_body f s)"
proof -
  let ?tl = "fld 8 (reserved_byte f) @ ue_bits (unat (repetition_period f)) @ ys"
  have grid: "yields (\<lambda>t. wat full s0 t ?tl)
      (if quincunx_sampling_flag f = 0 \<and> fp_type f \<noteq> 5 then create_grid f t else Some t)"
    if "wat full s0 t ((if has_grid f then grid_bits f else []) @ ?tl)" for t
    using that create_grid_writes [of full s0 t f ?tl] assms(2)
    unfolding has_grid_def [symmetric] by (cases "has_grid f") simp_all
  show ?thesis
    unfolding create_body_def
    apply (rule wat_fld, rule assms(1) [unfolded body_bits_def append_assoc], simp,
        rule frame_pack_widths [OF assms(2)])
    apply (rule wat_fld, assumption, simp, rule frame_pack_widths [OF assms(2)])+
    apply (rule yields_bind, erule grid)
    apply (rule wat_fld, assumption, simp, rule frame_pack_widths [OF assms(2)])
    by (rule wat_e_ue, assumption, rule assms(3))
qed

lemma create_frame_pack_writes:
  assumes "wat full s0 s (frame_pack_bits (fpa s) @ ys)" "frame_pack_wf (fpa s)"
    and "fp_id (fpa s) < 0x1FFFF" "repetition_period (fpa s) < 0x1FFFF"
  shows "yields (\<lambda>t. wat full s0 t ys) (create_frame_pack s)"
proof -
  let ?f = "fpa s" and ?tl = "fld 1 (extension_flag (fpa s)) @ ys"
  have body: "yields (\<lambda>t. wat full s0 t ?tl) (if cancel_flag ?f = 0 then create_body ?f t else Some t)"
    if "wat full s0 t ((if cancel_flag ?f = 0 then body_bits ?f else []) @ ?tl)" for t
    using that create_body_writes [of full s0 t ?f ?tl] assms(2,4) by (cases "cancel_flag ?f = 0") simp_all
  show ?thesis
    unfolding create_frame_pack_def Let_def
    apply (rule wat_ue, rule assms(1) [unfolded frame_pack_bits_def append_assoc], rule assms(3))
    apply (rule wat_fld, assumption, simp, rule frame_pack_widths [OF assms(2)])
    apply (rule yields_bind, erule body)
    by (rule wat_e_u, assumption, simp, rule frame_pack_widths [OF assms(2)])
qed

section \<open>How far reads are exact\<close>

text \<open>
  A read of \<open>d_u\<close> returns the next \<open>n\<close> bits as long as it ends before the byte after the next
  one does (\<open>n < bit_ptr + 8\<close>); it moves the two pointers and nothing else.
\<close>
theorem d_u_reads:
  assumes "xd_ok s" "n < bit_ptr s + 8" "n \<le> length (xd_bits s)"
  shows "\<exists>t. d_u n s = Some (of_nat (bits_val (take n (xd_bits s))), t) \<and> xd_bits t = drop n (xd_bits s) \<and>
    rbsp_buf t = rbsp_buf s \<and> fpa t = fpa s"
  using d_u_exact [OF assms] by (auto simp: same_but_ptr_def)

definition sample_xd :: "u8 list \<Rightarrow> nat \<Rightarrow> extra_data_handler" where
  "sample_xd mem b = (new_extra_data_handler b 0)\<lparr>rbsp_buf := mem\<rparr>"

theorem d_u_reads_witness: "\<exists>t. d_u 10 (sample_xd [0x05, 0xA7] 3) = Some (0x2D3, t)"
proof -
  have ok: "xd_ok (sample_xd [0x05, 0xA7] 3)" by (simp add: xd_ok_def sample_xd_def new_extra_data_handler_def)
  have bits: "xd_bits (sample_xd [0x05, 0xA7] 3) =
      [True, False, True, True, False, True, False, False, True, True, True]"
    by (simp add: xd_bits_def sample_xd_def new_extra_data_handler_def byte_bits_def biteval)
  show ?thesis using d_u_reads [OF ok, of 10] unfolding bits
    by (simp add: sample_xd_def new_extra_data_handler_def) blast
qed

text \<open>
  A longer read is wrong: reading two whole bytes returns their bitwise or, because the loop
  shifts by the count of the previous round, which is zero at a byte boundary.
\<close>
theorem d_u_two_bytes:
  assumes "bit_ptr s = 8" "drop (byte_ptr s) (rbsp_buf s) = b # c # r"
  shows "map_option fst (d_u 16 s) = Some (ucast b OR ucast c)"
proof -
  have lt: "byte_ptr s + 1 < length (rbsp_buf s)"
  proof (rule ccontr)
    assume "\<not> ?thesis"
    then have "length (drop (byte_ptr s) (rbsp_buf s)) \<le> 1" by simp
    then show False using assms(2) by simp
  qed
  then have n: "rbsp_buf s ! byte_ptr s = b" "rbsp_buf s ! Suc (byte_ptr s) = c"
    using assms(2) nth_drop [of "byte_ptr s" "rbsp_buf s" 0] nth_drop [of "byte_ptr s" "rbsp_buf s" 1] by simp_all
  have m: "shr32 (shl32 (ucast y) 0 AND 0xFF) 0 = ucast (y :: u8)" for y
    by (rule u32_eqI) (use window_byte [of 0 8 y] in \<open>simp add: bits_val_byte unat_ucast_8\<close>)
  have z: "shl32 x 0 = x" for x by (simp add: shl32_def)
  have s1: "d_u_loop 16 0 0 s = d_u_loop 8 (ucast b) 0 (s\<lparr>bit_ptr := 8, byte_ptr := byte_ptr s + 1\<rparr>)"
    using lt n assms(1) by (subst d_u_loop.simps) (simp add: cur_byte_def mem_at_def Let_def m [unfolded z] z)
  also have "\<dots> = d_u_loop 0 (ucast b OR ucast c) 0 (s\<lparr>bit_ptr := 8, byte_ptr := byte_ptr s + 2\<rparr>)"
    using lt n assms(1) by (subst d_u_loop.simps) (simp add: cur_byte_def mem_at_def Let_def m [unfolded z] z)
  also have "\<dots> = Some (0, ucast b OR ucast c, s\<lparr>bit_ptr := 8, byte_ptr := byte_ptr s + 2\<rparr>)"
    by (subst d_u_loop.simps) simp
  finally show ?thesis by (simp add: d_u_def)
qed

theorem d_u_two_bytes_witness: "map_option fst (d_u 16 (sample_xd [0x01, 0x02] 8)) = Some 3"
  using d_u_two_bytes [of "sample_xd [0x01, 0x02] 8" 1 2 "[]"]
  by (simp add: sample_xd_def new_extra_data_handler_def)

end
