(* ===== verification/ExtraDataSei.thy ===== *)
theory ExtraDataSei
  imports ExtraDataBits
begin

text \<open>
  The properties of the extra data handler: emulation prevention, the SEI message there and back,
  the overruns of the scratch buffer, the slice table and the walk over the extra data records.
\<close>

section \<open>Emulation prevention as the handler does it\<close>

text \<open>The writer escapes zero bytes in pairs from the start; the reader removes every \<open>00 00 03\<close>.\<close>

fun emulate :: "u8 list \<Rightarrow> u8 list" where
  "emulate (a # b # r) = (if a = 0 \<and> b = 0 then a # b # 3 # emulate r else a # b # emulate r)"
| "emulate r = r"

lemmas emulate_pairs = emulate.induct [case_names "1" none single]

fun no_003 :: "u8 list \<Rightarrow> bool" where
  "no_003 (a # b # c # r) = (\<not> (a = 0 \<and> b = 0 \<and> c = 3) \<and> no_003 (b # c # r))"
| "no_003 r = True"

lemma no_003_tl: "no_003 (a # r) \<Longrightarrow> no_003 r"
  by (cases r; cases "tl r") auto

lemma emulate_hd: "\<exists>r'. emulate (a # r) = a # r'"
  by (cases r) auto

lemma length_emulate: "length r \<le> length (emulate r)"
  by (induction r rule: emulate.induct) auto

lemma unat_pair_zero: "unat (a :: u8) + unat (b :: u8) = 0 \<longleftrightarrow> a = 0 \<and> b = 0"
  by (simp add: unat_eq_zero)

lemma rbsp_pairs_emulate:
  assumes "n \<le> length rbsp"
  shows "rbsp_pairs rbsp n i j out =
    Some (out @ emulate (drop i (take n rbsp)), j + length (emulate (drop i (take n rbsp))))"
  using assms
proof (induction rbsp n i j out rule: rbsp_pairs.induct)
  case (1 rbsp n i j out)
  show ?case
  proof (cases "i < n")
    case False
    then show ?thesis by (subst rbsp_pairs.simps) simp
  next
    case i: True
    have d: "drop i (take n rbsp) = rbsp ! i # drop (i + 1) (take n rbsp)"
      using i "1.prems" by (simp add: Cons_nth_drop_Suc [of i "take n rbsp", symmetric])
    have m: "mem_at rbsp i = Some (rbsp ! i)" using i "1.prems" by (simp add: mem_at_def)
    show ?thesis
    proof (cases "i + 1 < n")
      case False
      then have "drop (i + 1) (take n rbsp) = []" by simp
      then have e: "drop i (take n rbsp) = [rbsp ! i]" using d by simp
      have "rbsp_pairs rbsp n (i + 2) (j + 1) (out @ [rbsp ! i]) = Some (out @ [rbsp ! i], j + 1)"
        using False by (subst rbsp_pairs.simps) simp
      then show ?thesis using i m False e by (subst rbsp_pairs.simps) simp
    next
      case True
      have d2: "drop (i + 1) (take n rbsp) = rbsp ! (i + 1) # drop (i + 2) (take n rbsp)"
        using True "1.prems" Cons_nth_drop_Suc [of "i + 1" "take n rbsp"] by simp
      have m2: "mem_at rbsp (i + 1) = Some (rbsp ! (i + 1))" using True "1.prems" by (simp add: mem_at_def)
      show ?thesis
      proof (cases "unat (rbsp ! i) + unat (rbsp ! (i + 1)) = 0")
        case z: True
        then have "rbsp_pairs rbsp n i j out = rbsp_pairs rbsp n (i + 2) (j + 3) (out @ [rbsp ! i, rbsp ! (i + 1), 3])"
          using i True m m2 by (subst rbsp_pairs.simps) simp
        then show ?thesis using "1.IH"(1) [OF i m True m2 z "1.prems"] z [unfolded unat_pair_zero] unfolding d d2 by auto
      next
        case z: False
        then have "rbsp_pairs rbsp n i j out = rbsp_pairs rbsp n (i + 2) (j + 2) (out @ [rbsp ! i, rbsp ! (i + 1)])"
          using i True m m2 by (subst rbsp_pairs.simps) auto
        then show ?thesis using "1.IH"(2) [OF i m True m2 z "1.prems"] z [unfolded unat_pair_zero] unfolding d d2 by auto
      qed
    qed
  qed
qed

lemma mem_at_drop: "drop i buf = b # r \<Longrightarrow> mem_at buf i = Some b \<and> drop (i + 1) buf = r"
  by (metis Cons_nth_drop_Suc One_nat_def add.commute drop_all linorder_not_le list.distinct(1) list.inject
      mem_at_def plus_1_eq_Suc)

lemma rbsp_loop_copy:
  assumes "drop i buf = a # b # r" "i < len" "j < length out" "a = 0 \<and> b = 0 \<Longrightarrow> r \<noteq> [] \<and> hd r \<noteq> 3"
  shows "rbsp_loop buf len i j out = rbsp_loop buf len (i + 1) (j + 1) (out[j := a])"
proof -
  note m = mem_at_drop [OF assms(1)]
  note m1 = mem_at_drop [of "i + 1" buf b r, OF conjunct2 [OF m]]
  have "\<exists>c r'. a = 0 \<and> b = 0 \<longrightarrow> r = c # r' \<and> c \<noteq> 3" using assms(4) by (cases r) auto
  then obtain c r' where c: "a = 0 \<and> b = 0 \<Longrightarrow> r = c # r' \<and> c \<noteq> 3" by blast
  show ?thesis
  proof (cases "unat a + unat b = 0")
    case True
    then have z: "a = 0 \<and> b = 0" by (simp only: unat_pair_zero)
    then have "mem_at buf (i + 2) = Some c" using c mem_at_drop [of "i + 2" buf c r'] m1 by simp
    then show ?thesis using m m1 assms(2,3) True z c
      by (subst rbsp_loop.simps) (simp add: mem_put_def)
  next
    case False
    then show ?thesis using m m1 assms(2,3) by (subst rbsp_loop.simps) (auto simp: mem_put_def)
  qed
qed

lemma rbsp_loop_emulate:
  assumes "drop i buf = emulate P @ z # zs" "len = i + length (emulate P)" "no_003 P" "P \<noteq> [] \<Longrightarrow> last P \<noteq> 0"
    and "j + length P \<le> length out"
  shows "rbsp_loop buf len i j out = Some (overwrite j P out)"
  using assms
proof (induction P arbitrary: i j out rule: emulate_pairs)
  case (1 a b r)
  show ?case
  proof (cases "a = 0 \<and> b = 0")
    case True
    have d: "drop i buf = a # b # 3 # emulate r @ z # zs" using 1(3) True by simp
    note m0 = mem_at_drop [OF d]
    note m1 = mem_at_drop [of "i + 1", OF conjunct2 [OF m0]]
    note m2 = mem_at_drop [of "i + 1 + 1", OF conjunct2 [OF m1]]
    have "rbsp_loop buf len i j out = rbsp_loop buf len (i + 3) (j + 2) (out[j := a, j + 1 := b])"
      using m0 m1 m2 1(4,7) True by (subst rbsp_loop.simps) (simp add: mem_put_def)
    also have "\<dots> = Some (overwrite (j + 2) r (out[j := a, j + 1 := b]))"
    proof (rule 1(1) [OF True])
      show "drop (i + 3) buf = emulate r @ z # zs" using m2 by (simp add: numeral_3_eq_3)
      show "len = i + 3 + length (emulate r)" using 1(4) True by simp
      show "no_003 r" using 1(5) no_003_tl by blast
      show "r \<noteq> [] \<Longrightarrow> last r \<noteq> 0" using 1(6) by simp
      show "j + 2 + length r \<le> length (out[j := a, j + 1 := b])" using 1(7) by simp
    qed
    also have "overwrite (j + 2) r (out[j := a, j + 1 := b]) = overwrite j (a # b # r) out"
      using 1(7) by (simp add: overwrite_Cons)
    finally show ?thesis .
  next
    case False
    have d: "drop i buf = a # b # emulate r @ z # zs" using 1(3) False by simp
    have d1: "drop (i + 1) buf = b # emulate r @ z # zs" using mem_at_drop [OF d] by simp
    have l: "len = i + 2 + length (emulate r)" using 1(4) False by simp
    have s1: "rbsp_loop buf len i j out = rbsp_loop buf len (i + 1) (j + 1) (out[j := a])"
      using False l 1(7) by (intro rbsp_loop_copy [OF d]) auto
    have s2: "rbsp_loop buf len (i + 1) (j + 1) (out[j := a]) = rbsp_loop buf len (i + 2) (j + 2) (out[j := a, j + 1 := b])"
    proof (cases r)
      case Nil
      then have "b \<noteq> 0" using 1(6) by simp
      then show ?thesis using d1 Nil l 1(7) rbsp_loop_copy [of "i + 1" buf b z zs len "j + 1" "out[j := a]"] by simp
    next
      case (Cons c r')
      obtain e where e: "emulate r = c # e" using emulate_hd Cons by blast
      have "c = 0 \<Longrightarrow> r' \<noteq> []" using 1(6) Cons by auto
      then have "b = 0 \<and> c = 0 \<Longrightarrow> e @ z # zs \<noteq> [] \<and> hd (e @ z # zs) \<noteq> 3"
        using 1(5) e Cons by (cases r') (auto split: if_splits)
      then show ?thesis
        using d1 e l 1(7) rbsp_loop_copy [of "i + 1" buf b c "e @ z # zs" len "j + 1" "out[j := a]"] by simp
    qed
    have "rbsp_loop buf len (i + 2) (j + 2) (out[j := a, j + 1 := b]) =
        Some (overwrite (j + 2) r (out[j := a, j + 1 := b]))"
    proof (rule 1(2) [OF False])
      show "drop (i + 2) buf = emulate r @ z # zs" using mem_at_drop [OF d1] by simp
      show "len = i + 2 + length (emulate r)" by (rule l)
      show "no_003 r" using 1(5) no_003_tl by blast
      show "r \<noteq> [] \<Longrightarrow> last r \<noteq> 0" using 1(6) by simp
      show "j + 2 + length r \<le> length (out[j := a, j + 1 := b])" using 1(7) by simp
    qed
    also have "overwrite (j + 2) r (out[j := a, j + 1 := b]) = overwrite j (a # b # r) out"
      using 1(7) by (simp add: overwrite_Cons)
    finally show ?thesis unfolding s1 s2 .
  qed
next
  case none
  then show ?case by (subst rbsp_loop.simps) simp
next
  case (single a)
  have d: "drop i buf = a # z # zs" using single(1) by simp
  have "rbsp_loop buf len i j out = rbsp_loop buf len (i + 1) (j + 1) (out[j := a])"
    using single by (intro rbsp_loop_copy [OF d]) auto
  also have "\<dots> = Some (out[j := a])" using single(2) by (subst rbsp_loop.simps) simp
  finally show ?case using single(5) by (simp add: overwrite_Cons)
qed

section \<open>The SEI message there and back\<close>

text \<open>The bits after the record: alignment inside the payload, and the trailing byte.\<close>

definition align_bits :: "bool list \<Rightarrow> bool list" where
  "align_bits bs = (if length bs mod 8 = 0 then [] else True # replicate (7 - length bs mod 8) False)"

definition trailing :: "bool list" where
  "trailing = True # replicate 7 False"

definition sei_bits :: "frame_pack \<Rightarrow> bool list" where
  "sei_bits f = frame_pack_bits f @ align_bits (frame_pack_bits f) @ trailing"

lemma length_align: "length (align_bits bs) = (8 - length bs mod 8) mod 8"
proof -
  have "length bs mod 8 < 8" by simp
  then show ?thesis by (cases "length bs mod 8") (auto simp: align_bits_def)
qed

lemma written_ptr:
  assumes "written s bs"
  shows "length bs mod 8 = 8 - bit_ptr s" "1 \<le> bit_ptr s" "bit_ptr s \<le> 8"
proof -
  obtain pre pb where w: "1 \<le> bit_ptr s" "length pb = 8 - bit_ptr s" "bit_ptr s \<le> 8" "bs = bytes_bits pre @ pb"
    using assms unfolding written_def by blast
  have "length bs = 8 - bit_ptr s + 8 * length pre" using w(2,4) by simp
  then show "length bs mod 8 = 8 - bit_ptr s" using w(1) by (simp only: mod_mult_self2) simp
qed (use assms in \<open>auto simp: written_def\<close>)

lemma written_aligned:
  assumes "written s bs" "length bs = 8 * n"
  shows "byte_ptr s = n \<and> n \<le> length (rbsp_buf s) \<and> bytes_bits (take n (rbsp_buf s)) = bs"
proof -
  obtain pre pb m where w: "1 \<le> bit_ptr s" "length pb = 8 - bit_ptr s" "byte_ptr s = length pre"
    "bs = bytes_bits pre @ pb" "rbsp_buf s = pre \<and> pb = [] \<or> rbsp_buf s = pre @ partial_byte pb # replicate m 0"
    using assms(1) unfolding written_def by blast
  have "8 * n = 8 * length pre + length pb" using assms(2) w(4) by simp
  moreover have "length pb < 8" using w(1,2) by simp
  ultimately have "n = length pre" "length pb = 0" by presburger+
  then have "n = length pre" "pb = []" by simp_all
  then show ?thesis using w by auto
qed

lemma wat_bits:
  assumes "wat full s0 s (bits_of n x @ ys)" "n \<le> 32" "x < 2 ^ n"
  shows "yields (\<lambda>t. wat full s0 t ys) (e_u (of_nat x) n s)"
proof -
  have "(2::nat) ^ n \<le> 2 ^ 32" using assms(2) by (rule power_increasing) simp
  then have "unat (of_nat x :: u32) = x" using assms(3) by (intro unat_of_nat32) simp
  then show ?thesis using wat_e_u [of full s0 s n "of_nat x" ys] assms by (simp add: fld_def)
qed

lemma align_payload_writes:
  assumes "wat (ps @ align_bits ps @ ys) s0 s (align_bits ps @ ys)"
  shows "yields (\<lambda>t. wat (ps @ align_bits ps @ ys) s0 t ys) (align_payload s)"
proof -
  let ?full = "ps @ align_bits ps @ ys"
  obtain bs where "written s bs" "?full = bs @ align_bits ps @ ys" using assms by (auto simp: wat_def)
  then have w: "written s ps" by simp
  note p = written_ptr [OF w]
  show ?thesis
  proof (cases "bit_ptr s = 8")
    case True
    then have "align_bits ps = []" using p(1) by (simp add: align_bits_def)
    then show ?thesis using assms True by (simp add: align_payload_def)
  next
    case False
    then have l: "length ps mod 8 = 8 - bit_ptr s" using p by simp
    then have ab: "align_bits ps = True # bits_of (bit_ptr s - 1) 0"
      using False p by (simp add: align_bits_def bits_of_zero)
    have w0: "wat ?full s0 s (bits_of 1 1 @ bits_of (bit_ptr s - 1) 0 @ ys)" using assms ab by simp
    have s1: "yields (\<lambda>t. wat ?full s0 t (bits_of (bit_ptr s - 1) 0 @ ys)) (e_u 1 1 s)"
      using wat_bits [OF w0] by simp
    have "yields (\<lambda>t. wat ?full s0 t ys) (if bit_ptr t \<noteq> 8 then e_u 0 (bit_ptr t) t else Some t)"
      if t: "wat ?full s0 t (bits_of (bit_ptr s - 1) 0 @ ys)" for t
    proof -
      obtain bs' where "written t bs'" "?full = bs' @ bits_of (bit_ptr s - 1) 0 @ ys" using t by (auto simp: wat_def)
      then have "written t (ps @ [True])" using ab by simp
      note q = written_ptr [OF this]
      have "bit_ptr t = (if bit_ptr s = 1 then 8 else bit_ptr s - 1)"
        using q p l False by (simp add: mod_Suc) presburger
      then show ?thesis using wat_bits [of ?full s0 t "bit_ptr s - 1" 0 ys] t p by (auto simp: le_diff_conv)
    qed
    then show ?thesis unfolding align_payload_def using False s1 by (auto intro: yields_bind)
  qed
qed

lemma clear_written:
  assumes "rbsp_buf s = replicate m 0" "bit_ptr s = 8" "byte_ptr s = 0"
  shows "written s []"
proof -
  have p: "partial_byte [] = 0" by (simp add: partial_byte_def)
  have buf: "rbsp_buf s = [] \<or> rbsp_buf s = partial_byte [] # replicate (m - 1) 0"
    unfolding assms(1) p by (cases m) simp_all
  show ?thesis
    unfolding written_def assms(2,3)
    by (rule exI [of _ "[]"], rule exI [of _ "[]"], rule exI [of _ "m - 1"]) (use buf in simp)
qed

lemma pad_to_8: "8 dvd n + (8 - n mod 8) mod (8::nat)"
proof (cases "n mod 8 = 0")
  case False
  define r q where "r = n mod 8" and "q = n div 8"
  have n: "n = 8 * q + r" "r < 8" "r \<noteq> 0" using False mult_div_mod_eq [of 8 n] by (simp_all add: r_def q_def)
  then have "n + (8 - r) mod 8 = 8 * (q + 1)" by simp
  then show ?thesis unfolding r_def [symmetric] by (metis dvd_triv_left)
qed (simp add: dvd_eq_mod_eq_0)

lemma sei_bits_length: "8 dvd length (sei_bits f)" "11 \<le> length (sei_bits f)"
proof -
  have "length (sei_bits f) = (length (frame_pack_bits f) + (8 - length (frame_pack_bits f) mod 8) mod 8) + 8"
    by (simp add: sei_bits_def length_align trailing_def)
  then show "8 dvd length (sei_bits f)" using pad_to_8 [of "length (frame_pack_bits f)"] by (simp only: dvd_add dvd_refl)
  show "11 \<le> length (sei_bits f)"
    by (simp add: sei_bits_def frame_pack_bits_def fld_def ue_bits_split trailing_def)
qed

lemma create_sei_bytes:
  assumes "rbsp_buf s = replicate m 0" "sei_payload_type s = SEI_PAYLOAD_FRAME_PACKING_ARRANGEMENT"
    and "frame_pack_wf (fpa s)" "fp_id (fpa s) < 0x1FFFF" "repetition_period (fpa s) < 0x1FFFF"
    and "bytes_bits P = sei_bits (fpa s)" "length P \<le> m"
  shows "\<exists>t. create_sei s = Some ([0, 0, 0, 1, 6, 0x2D, of_nat (length P) - 1] @ emulate P, 7 + length (emulate P), t)
    \<and> fpa t = fpa s \<and> \<not> pack_sei t"
proof -
  let ?f = "fpa s" and ?b = "frame_pack_bits (fpa s)"
  define s1 where "s1 = s\<lparr>byte_ptr := 0, bit_ptr := 8\<rparr>"
  let ?full = "?b @ align_bits ?b @ trailing"
  have full: "?full = sei_bits ?f" by (simp add: sei_bits_def)
  have lf: "length ?full = 8 * length P" unfolding full assms(6) [symmetric] by simp
  have f1: "fpa s1 = ?f" by (simp add: s1_def)
  have w1: "wat ?full s1 s1 (?b @ align_bits ?b @ trailing)"
    using clear_written [of s1 m] assms(1,7) lf
    by (auto simp: wat_def writes_def s1_def)
  have "yields (\<lambda>t. wat ?full s1 t []) (do {
      s \<leftarrow> create_frame_pack s1; s \<leftarrow> align_payload s; s \<leftarrow> e_u 1 1 s; e_u 0 7 s })"
    apply (rule yields_bind, rule create_frame_pack_writes, unfold f1, rule w1, rule assms(3), rule assms(4), rule assms(5))
    apply (rule yields_bind, erule align_payload_writes)
    apply (rule yields_bind [where Q = "\<lambda>t. wat ?full s1 t (bits_of 7 0)"])
    subgoal using wat_bits [where n = 1 and x = 1 and ys = "bits_of 7 0"] by (simp add: trailing_def bits_of_zero)
    subgoal for x y t using wat_bits [of _ _ t 7 0 "[]"] by simp
    done
  then obtain t where t: "do { s \<leftarrow> create_frame_pack s1; s \<leftarrow> align_payload s; s \<leftarrow> e_u 1 1 s; e_u 0 7 s } = Some t"
    "wat ?full s1 t []"
    by (auto simp: yields_def)
  have wt: "written t ?full" "writes s1 t" using t(2) by (auto simp: wat_def)
  note a = written_aligned [OF wt(1) lf]
  have "bytes_bits (take (length P) (rbsp_buf t)) = bytes_bits P" using a full assms(6) by simp
  then have tk: "take (length P) (rbsp_buf t) = P" using a by (intro bytes_bits_inj) auto
  have ty: "sei_payload_type t = SEI_PAYLOAD_FRAME_PACKING_ARRANGEMENT" "fpa t = ?f"
    using wt(2) assms(2) f1 by (auto simp: writes_def s1_def)
  have "create_rbsp 6 t = Some ([0, 0, 0, 1, 6, 0x2D, of_nat (length P) - 1] @ emulate P, 7 + length (emulate P))"
    using rbsp_pairs_emulate [of "byte_ptr t" "rbsp_buf t" 0 7 "[]"] a tk
    by (simp add: create_rbsp_def ty SEI_PAYLOAD_FRAME_PACKING_ARRANGEMENT_def)
  then show ?thesis using t(1) ty assms(2)
    unfolding create_sei_def Let_def s1_def [symmetric]
    by (auto simp: bind_eq_Some_conv s1_def)
qed

lemma xd_bit_ptr:
  assumes "xd_ok s" "xd_bits s \<noteq> []" "length (xd_bits s) = k + 8 * n" "k < 8"
  shows "bit_ptr s = (if k = 0 then 8 else k)"
proof -
  define l where "l = length (drop (byte_ptr s) (rbsp_buf s))"
  have len: "length (xd_bits s) = 8 * l - (8 - bit_ptr s)" by (simp add: xd_bits_def l_def)
  have bp: "1 \<le> bit_ptr s" "bit_ptr s \<le> 8" using assms(1) by (auto simp: xd_ok_def)
  have "0 < length (xd_bits s)" using assms(2) by simp
  moreover define j where "j = 8 - bit_ptr s"
  ultimately have "k + 8 * n + j = 8 * l" "j + bit_ptr s = 8" using len bp(2) assms(3) by simp_all
  then have "bit_ptr s + 8 * l = k + 8 * (n + 1)" by simp
  then have "(bit_ptr s + 8 * l) mod 8 = (k + 8 * (n + 1)) mod 8" by (simp only:)
  then have "bit_ptr s mod 8 = k" using assms(4) by (simp only: mod_mult_self2 mod_less)
  then show ?thesis using bp by (cases "bit_ptr s = 8") auto
qed

lemma xat_bits:
  assumes "xat g s0 s (bits_of n x @ ys)" "n \<le> 8" "x < 2 ^ n"
  shows "\<exists>t. d_u n s = Some (of_nat x, t) \<and> xat g s0 t ys"
proof -
  have "(2::nat) ^ n \<le> 2 ^ 32" using assms(2) by (intro power_increasing) simp_all
  then have "unat (of_nat x :: u32) = x" using assms(3) by (intro unat_of_nat32) simp
  then show ?thesis using xat_d_u [of g s0 s n "of_nat x" ys] assms by (simp add: fld_def)
qed

lemma sei_trailing_aligned:
  assumes "xat g s0 s (align_bits bs @ ys)" "length ys = 8 * n" "ys \<noteq> []"
  shows "\<exists>t. sei_trailing s = Some (1, t) \<and> fpa t = g"
proof -
  define k where "k = length (align_bits bs)"
  have k: "k < 8" by (simp add: k_def length_align)
  have s: "xd_ok s" "xd_bits s = align_bits bs @ ys" using assms(1) by (auto simp: xat_def)
  then have bp: "bit_ptr s = (if k = 0 then 8 else k)"
    using xd_bit_ptr [of s k n] assms(2,3) k by (simp add: k_def)
  show ?thesis
  proof (cases "k = 0")
    case True
    then show ?thesis using bp xat_fpa [OF assms(1)] by (simp add: sei_trailing_def)
  next
    case False
    then have "length bs mod 8 \<noteq> 0" by (cases "length bs mod 8 = 0") (simp_all add: k_def align_bits_def)
    then have ab: "align_bits bs = True # bits_of (k - 1) 0"
      by (simp add: k_def align_bits_def bits_of_zero)
    have "xat g s0 s (bits_of 1 1 @ bits_of (k - 1) 0 @ ys)" using assms(1) ab by simp
    then obtain t where t: "d_u 1 s = Some (1, t)" "xat g s0 t (bits_of (k - 1) 0 @ ys)"
      using xat_bits [of g s0 s 1 1] by auto
    have tt: "xd_ok t" "xd_bits t = bits_of (k - 1) 0 @ ys" using t(2) by (auto simp: xat_def)
    then have bt: "bit_ptr t = (if k = 1 then 8 else k - 1)"
      using xd_bit_ptr [of t "k - 1" n] assms(2,3) k False by auto
    show ?thesis
    proof (cases "k = 1")
      case True
      then show ?thesis using bp bt t xat_fpa [OF t(2)] by (simp add: sei_trailing_def)
    next
      case k1: False
      have "k - 1 \<le> 8" using k by linarith
      then obtain v where "d_u (k - 1) t = Some (0, v)" "xat g s0 v ys"
        using xat_bits [OF t(2)] by fastforce
      then show ?thesis using bp bt t k1 False k xat_fpa [of g s0 v ys] by (simp add: sei_trailing_def)
    qed
  qed
qed

lemma ff_number_last:
  assumes "cur_byte s = Some b" "b \<noteq> 0xFF"
  shows "ff_number acc s = Some (acc + ucast b, s\<lparr>byte_ptr := byte_ptr s + 1\<rparr>)"
  using assms by (subst ff_number.simps) simp

lemma sei_payload_bytes:
  assumes "bytes_bits P = sei_bits f"
  shows "2 \<le> length P" "last P \<noteq> 0"
proof -
  have "length (sei_bits f) = 8 * length P" using assms [symmetric] by simp
  then show l: "2 \<le> length P" using sei_bits_length(2) [of f] by simp
  then have P: "P = butlast P @ [last P]" by (intro append_butlast_last_id [symmetric]) auto
  have "bytes_bits (butlast P) @ byte_bits (last P) = (frame_pack_bits f @ align_bits (frame_pack_bits f)) @ trailing"
    using assms by (subst (asm) P) (simp add: sei_bits_def)
  moreover have "length (byte_bits (last P)) = length trailing" by (simp add: trailing_def)
  ultimately have "byte_bits (last P) = trailing" by (metis append_eq_append_conv)
  then show "last P \<noteq> 0" by (auto simp: byte_bits_def trailing_def bits_of_zero biteval)
qed

lemma parse_sei_created:
  assumes "bytes_bits P = sei_bits f" "no_003 P" "length P < 256" "length P + 2 \<le> length (rbsp_buf r)"
    and "frame_pack_wf f" "fp_id f < 0x1FF" "repetition_period f < 0x1FF"
  shows "\<exists>t. parse_sei_xd ([0, 0, 0, 1, 6, 0x2D, of_nat (length P) - 1] @ emulate P @ z # zs)
      (7 + length (emulate P)) r = Some (1, t) \<and> fpa t = frame_pack_over (fpa r) f"
proof -
  define sz :: u8 where "sz = of_nat (length P) - 1"
  note lP = sei_payload_bytes [OF assms(1)]
  have usz: "unat sz = length P - 1"
  proof -
    have "sz = of_nat (length P - 1)" using lP(1) by (simp add: sz_def)
    then show ?thesis using assms(3) by (simp add: unat_of_nat)
  qed
  then have sz: "sz \<noteq> 0" "sz \<noteq> 0xFF" using lP(1) assms(3) by auto
  define P' where "P' = 0x2D # sz # P"
  have em: "emulate P' = 0x2D # sz # emulate P" by (simp add: P'_def)
  have nP: "no_003 P'" using assms(2) lP(1) sz(1)
    by (cases P; cases "tl P") (auto simp: P'_def)
  have la: "P' \<noteq> [] \<Longrightarrow> last P' \<noteq> 0" using lP by (auto simp: P'_def)
  define buf where "buf = [0, 0, 0, 1, 6, 0x2D, sz] @ emulate P @ z # zs"
  define out where "out = overwrite 0 P' (rbsp_buf r)"
  have lp: "rbsp_loop buf (7 + length (emulate P)) 5 0 (rbsp_buf r) = Some out"
    unfolding out_def
  proof (rule rbsp_loop_emulate [OF _ _ nP la])
    show "drop 5 buf = emulate P' @ z # zs" by (simp add: buf_def em)
    show "7 + length (emulate P) = 5 + length (emulate P')" by (simp add: em)
    show "0 + length P' \<le> length (rbsp_buf r)" using assms(4) by (simp add: P'_def)
  qed
  define s1 where "s1 = r\<lparr>bit_ptr := 8, byte_ptr := 0, rbsp_buf := out\<rparr>"
  have hd6: "(6 :: u8) AND 0x80 = 0" "(6 :: u8) AND 0x1F = 6" by simp_all
  have "parse_rbsp buf (7 + length (emulate P)) r = Some (6, s1)"
    using lp by (simp add: parse_rbsp_def buf_def mem_at_def shl32_def s1_def hd6)
  have out: "out = P' @ drop (length P') (rbsp_buf r)" by (simp add: out_def overwrite_def)
  define s3 where "s3 = s1\<lparr>byte_ptr := 2\<rparr>"
  have c1: "cur_byte s1 = Some 0x2D" and c2: "cur_byte (s1\<lparr>byte_ptr := 1\<rparr>) = Some sz"
    by (simp_all add: cur_byte_def mem_at_def s1_def out P'_def)
  have f1: "ff_number 0 s1 = Some (0x2D, s1\<lparr>byte_ptr := 1\<rparr>)"
    using ff_number_last [OF c1, of 0] by (simp add: s1_def)
  have f2: "ff_number 0 (s1\<lparr>byte_ptr := 1\<rparr>) = Some (ucast sz, s3)"
    using ff_number_last [OF c2 sz(2), of 0] by (simp add: s3_def numeral_2_eq_2)
  let ?J = "bytes_bits (drop (length P') (rbsp_buf r))"
  have b3: "xd_bits s3 = sei_bits f @ ?J"
    by (simp add: s3_def s1_def xd_bits_def out P'_def assms(1))
  then have x3: "xat (fpa r) s3 s3 (frame_pack_bits f @ align_bits (frame_pack_bits f) @ trailing @ ?J)"
    by (simp add: xat_def sei_bits_def xd_ok_def same_but_ptr_def) (simp add: s3_def s1_def)
  obtain t where t: "parse_frame_pack_xd s3 = Some t"
    "xat (frame_pack_over (fpa r) f) s3 t (align_bits (frame_pack_bits f) @ trailing @ ?J)"
    using parse_frame_pack_xd_decodes [OF x3 assms(5-7)] by (auto simp: yields_def)
  obtain v where v: "sei_trailing t = Some (1, v)" "fpa v = frame_pack_over (fpa r) f"
    using sei_trailing_aligned [OF t(2), of "Suc (length (drop (length P') (rbsp_buf r)))"] by (auto simp: trailing_def)
  have "parse_sei_xd buf (7 + length (emulate P)) r = Some (1, v)"
    using \<open>parse_rbsp buf (7 + length (emulate P)) r = Some (6, s1)\<close> f1 f2 t(1) v(1)
    by (simp add: parse_sei_xd_def SEI_PAYLOAD_FRAME_PACKING_ARRANGEMENT_def)
  then show ?thesis using v(2) by (simp add: buf_def sz_def)
qed

text \<open>
  C14. What \<open>create_sei\<close> writes for a frame packing record, another handler's \<open>parse_sei\<close> reads back
  into the same record, whatever its scratch buffer held; fields absent from the message keep their
  old values. The conditions: the scratch buffer of the writer is zeroed and holds the payload, that
  of the reader holds two bytes more; the fields of the record are within their widths, and its
  identifier and repetition period below 0x1FF, since \<open>d_u\<close> goes wrong on reads across bytes
  (\<open>ExtraDataBits\<close>); and the payload has fewer than 256 bytes and no \<open>00 00 03\<close> of its own.
\<close>
theorem sei_round_trip:
  assumes "rbsp_buf s = replicate m 0" "sei_payload_type s = SEI_PAYLOAD_FRAME_PACKING_ARRANGEMENT"
    and "frame_pack_wf (fpa s)" "fp_id (fpa s) < 0x1FF" "repetition_period (fpa s) < 0x1FF"
    and "bytes_bits P = sei_bits (fpa s)" "length P \<le> m" "no_003 P"
    and "length P < 256" "length P + 2 \<le> length (rbsp_buf r)"
  shows "\<exists>out n s' r'. create_sei s = Some (out, n, s') \<and> length out = n \<and>
    parse_sei_xd (out @ z # zs) n r = Some (1, r') \<and> fpa r' = frame_pack_over (fpa r) (fpa s)"
proof -
  have w: "fp_id (fpa s) < 0x1FFFF" "repetition_period (fpa s) < 0x1FFFF"
    using assms(4,5) by (simp_all add: word_less_nat_alt)
  obtain t where "create_sei s =
      Some ([0, 0, 0, 1, 6, 0x2D, of_nat (length P) - 1] @ emulate P, 7 + length (emulate P), t)"
    using create_sei_bytes [OF assms(1-3) w assms(6,7)] by blast
  then show ?thesis using parse_sei_created [OF assms(6,8,9,10,3-5), of z zs] by simp
qed

definition sample_creator :: extra_data_handler where
  "sample_creator = set_frame_pack_data sample_pack (new_extra_data_handler 0 0)"

lemma sample_sei_bits: "bytes_bits [0x60, 0x60, 0, 0, 9, 7, 0x48, 0x80] = sei_bits sample_pack"
  by (simp add: sei_bits_def frame_pack_bits_def body_bits_def grid_bits_def align_bits_def trailing_def
      has_grid_def fld_def sample_pack_def zero_frame_pack_def byte_bits_def ue_bits_def ue_zeros_def
      nbits.simps biteval)

theorem sei_round_trip_witness:
  "\<exists>out n s' r'. create_sei sample_creator = Some (out, n, s') \<and>
    parse_sei_xd (out @ [0]) n (new_extra_data_handler 8 0) = Some (1, r') \<and> fpa r' = sample_pack"
  using sei_round_trip [of sample_creator 100 "[0x60, 0x60, 0, 0, 9, 7, 0x48, 0x80]" "new_extra_data_handler 8 0" 0 "[]"]
    sample_sei_bits sample_pack_wf
  by (auto simp: sample_creator_def set_frame_pack_data_def new_extra_data_handler_def sample_pack_def
      zero_frame_pack_def frame_pack_over_def has_grid_def)

section \<open>The bounds of \<open>parse_rbsp\<close>\<close>

lemma rbsp_loop_plain:
  assumes "drop i buf = body @ extra" "\<forall>b \<in> set body. b \<noteq> 0" "j \<le> length out"
  shows "rbsp_loop buf (i + length body) i j out =
    (if body \<noteq> [] \<and> extra = [] \<or> length out < j + length body then None else Some (overwrite j body out))"
  using assms
proof (induction body arbitrary: i j out)
  case Nil
  then show ?case by (subst rbsp_loop.simps) simp
next
  case (Cons b body)
  have d: "drop i buf = b # (body @ extra)" using Cons.prems(1) by simp
  note m = mem_at_drop [OF d]
  have b: "unat b \<noteq> 0" using Cons.prems(2) by (simp add: unat_eq_zero)
  show ?case
  proof (cases "body @ extra")
    case Nil
    then have "mem_at buf (i + 1) = None" using m by (simp add: mem_at_def)
    then show ?thesis using m Nil by (subst rbsp_loop.simps) simp
  next
    case e: (Cons c r)
    then have m1: "mem_at buf (i + 1) = Some c" using mem_at_drop [of "i + 1" buf c r] m by simp
    have "rbsp_loop buf (i + length (b # body)) i j out =
        Option.bind (mem_put out j b) (rbsp_loop buf (i + length (b # body)) (i + 1) (j + 1))"
      using m m1 b by (subst rbsp_loop.simps) simp
    moreover have "rbsp_loop buf (i + length (b # body)) (i + 1) (j + 1) (out[j := b]) =
        (if body \<noteq> [] \<and> extra = [] \<or> length out < j + length (b # body) then None
         else Some (overwrite (j + 1) body (out[j := b])))" if "j < length out"
      using Cons.IH [of "i + 1" "j + 1" "out[j := b]"] m Cons.prems(2) that by simp
    ultimately show ?thesis using e Cons.prems(3) by (auto simp: mem_put_def overwrite_Cons)
  qed
qed

text \<open>
  The bounds of \<open>parse_rbsp\<close>: on a NAL unit whose body has no zero byte it returns exactly
  when the memory goes on past the unit (the last byte is tested together with the one behind it)
  and the body fits the scratch buffer; otherwise it reads or writes outside. No length is checked.
\<close>
theorem parse_rbsp_bounds:
  assumes "h AND 0x80 = 0" "body \<noteq> []" "\<forall>b \<in> set body. b \<noteq> 0"
  shows "parse_rbsp ([0, 0, 0, 1, h] @ body @ extra) (5 + length body) s = None \<longleftrightarrow>
    extra = [] \<or> length (rbsp_buf s) < length body"
  using rbsp_loop_plain [of 5 "[0, 0, 0, 1, h] @ body @ extra" body extra 0 "rbsp_buf s"] assms
  by (simp add: parse_rbsp_def mem_at_def shl32_def)

theorem parse_rbsp_bounds_witness:
  "parse_rbsp ([0, 0, 0, 1, 6] @ replicate 101 1 @ [0]) 106 (new_extra_data_handler 8 0) = None"
  using parse_rbsp_bounds [of 6 "replicate 101 1" "[0]" "new_extra_data_handler 8 0"]
  by (simp add: new_extra_data_handler_def)

section \<open>The scratch buffer is not cleared\<close>

definition cancel_pack :: frame_pack where
  "cancel_pack = zero_frame_pack\<lparr>cancel_flag := 1\<rparr>"

text \<open>
  Writing ors into the scratch buffer, which only the constructor clears: after one SEI message
  the next one comes out garbled. A message that cancels the arrangement, written by a fresh
  handler and by one that has written \<open>sample_pack\<close> before.
\<close>
theorem create_sei_not_cleared:
  "map_option fst (create_sei (set_frame_pack_data cancel_pack (new_extra_data_handler 0 0))) =
     Some [0, 0, 0, 1, 6, 0x2D, 1, 0xD0, 0x80] \<and>
   map_option fst (Option.bind (create_sei sample_creator) (\<lambda>(_, _, s). create_sei (set_frame_pack_data cancel_pack s))) =
     Some [0, 0, 0, 1, 6, 0x2D, 1, 0xF0, 0xE0]"
  by code_simp

section \<open>The slice table\<close>

text \<open>\<open>table_at mem d es\<close>: the record at \<open>d\<close> holds the count and the pairs of \<open>es\<close>.\<close>

definition table_at :: "u8 list \<Rightarrow> nat \<Rightarrow> (u32 \<times> u32) list \<Rightarrow> bool" where
  "table_at mem d es \<longleftrightarrow> rd_le mem d = Some (of_nat (length es)) \<and>
     (\<forall>i < length es. rd_le mem (d + 4 * (i * 2 + 1)) = Some (fst (es ! i)) \<and>
        rd_le mem (d + 4 * (i * 2 + 2)) = Some (snd (es ! i)))"

text \<open>The slices of \<open>es\<close> follow each other from \<open>start\<close> on and begin with start codes.\<close>

fun tiles :: "u8 list \<Rightarrow> u32 \<Rightarrow> (u32 \<times> u32) list \<Rightarrow> bool" where
  "tiles frame start [] = True"
| "tiles frame start ((off, sz) # es) \<longleftrightarrow> off = start \<and> take 4 (drop (unat off) frame) = [0, 0, 0, 1] \<and>
     tiles frame (start + sz) es"

lemma bytes_match_iff:
  "i + length cs \<le> length mem \<Longrightarrow> bytes_match mem i cs = Some (take (length cs) (drop i mem) = cs)"
proof (induction cs arbitrary: i)
  case (Cons c cs)
  then have "drop i mem = mem ! i # drop (Suc i) mem" by (simp add: Cons_nth_drop_Suc)
  then show ?case using Cons by (simp add: mem_at_def)
qed simp

lemma slice_loop_tiles:
  assumes "\<forall>k < length es. rd_le mem (d + 4 * ((i + k) * 2 + 1)) = Some (fst (es ! k)) \<and>
      rd_le mem (d + 4 * ((i + k) * 2 + 2)) = Some (snd (es ! k))"
    and "\<forall>e \<in> set es. unat (fst e) + 4 \<le> length frame"
  shows "slice_loop mem d frame (length es) i start =
    Some (if tiles frame start es then Some (start + sum_list (map snd es)) else None)"
  using assms
proof (induction es arbitrary: i start)
  case (Cons e es)
  obtain off sz where e: "e = (off, sz)" by (cases e)
  have c4: "length [0, 0, 0, 1 :: u8] = 4" by simp
  have r: "rd_le mem (d + 4 * (i * 2 + 1)) = Some off" "rd_le mem (d + 4 * (i * 2 + 2)) = Some sz"
    using Cons.prems(1) e by auto
  have b: "bytes_match frame (unat off) [0, 0, 0, 1] = Some (take 4 (drop (unat off) frame) = [0, 0, 0, 1])"
    using bytes_match_iff [of "unat off" "[0, 0, 0, 1]" frame, unfolded c4] Cons.prems(2) e by simp
  have IH: "slice_loop mem d frame (length es) (Suc i) (start + sz) =
      Some (if tiles frame (start + sz) es then Some (start + sz + sum_list (map snd es)) else None)"
  proof (rule Cons.IH)
    show "\<forall>k < length es. rd_le mem (d + 4 * ((Suc i + k) * 2 + 1)) = Some (fst (es ! k)) \<and>
      rd_le mem (d + 4 * ((Suc i + k) * 2 + 2)) = Some (snd (es ! k))"
    proof (intro allI impI)
      fix k assume "k < length es"
      then show "rd_le mem (d + 4 * ((Suc i + k) * 2 + 1)) = Some (fst (es ! k)) \<and>
        rd_le mem (d + 4 * ((Suc i + k) * 2 + 2)) = Some (snd (es ! k))"
        using Cons.prems(1) [rule_format, of "Suc k"] by simp
    qed
  qed (use Cons.prems(2) in simp)
  show ?case using r b IH e by (auto simp: ac_simps simp del: bytes_match.simps)
qed simp

text \<open>
  C34. The slice table is accepted (0) exactly when the slices tile the frame: each begins where
  the previous one ends with a start code, and the sizes add up to the filled length (in 32-bit
  arithmetic); any other table is refused (-1). The offsets are assumed inside the frame memory.
\<close>
theorem parse_sliceinfo_tiles:
  assumes "table_at mem d es" "length es < 2 ^ 29" "\<forall>e \<in> set es. unat (fst e) + 4 \<le> length (pBuffer buf)"
  shows "parse_sliceinfo buf mem d (of_nat (4 + 8 * length es)) =
    Some (if tiles (pBuffer buf) 0 es \<and> sum_list (map snd es) = of_nat (nFilledLen buf) then 0 else - 1)"
proof -
  have "unat (of_nat (length es) :: u32) = length es" using assms(2) by (intro unat_of_nat32) simp
  moreover have "slice_loop mem d (pBuffer buf) (length es) 0 0 =
      Some (if tiles (pBuffer buf) 0 es then Some (sum_list (map snd es)) else None)"
    using slice_loop_tiles [of es mem d 0 "pBuffer buf" 0] assms(1,3) by (simp add: table_at_def)
  moreover have "rd_le mem d = Some (of_nat (length es))" using assms(1) by (simp add: table_at_def)
  moreover have "4 + of_nat (length es) * 8 = (of_nat (4 + 8 * length es) :: u32)" by simp
  ultimately show ?thesis by (auto simp: parse_sliceinfo_def)
qed

definition slice_frame :: omx_buffer where
  "slice_frame = \<lparr>pBuffer = [0, 0, 0, 1, 0x65, 0, 0, 0, 1, 0x41, 0x42], nAllocLen = 11, nFilledLen = 11,
     nOffset = 0, nFlags = 0, nTimeStamp = 0\<rparr>"

definition slice_table :: "u8 list" where
  "slice_table = [2, 0, 0, 0, 0, 0, 0, 0, 5, 0, 0, 0, 5, 0, 0, 0, 6, 0, 0, 0]"

theorem parse_sliceinfo_tiles_witness: "parse_sliceinfo slice_frame slice_table 0 20 = Some 0"
proof -
  have t: "table_at slice_table 0 [(0, 5), (5, 6)]"
    by (simp add: table_at_def slice_table_def rd_le_def less_Suc_eq)
  show ?thesis using parse_sliceinfo_tiles [OF t, of slice_frame] by (simp add: slice_frame_def)
qed

text \<open>
  The offset of a slice is used before it is compared with anything: an offset outside the
  frame memory is read through.
\<close>
theorem slice_offset_unchecked:
  assumes "rd_le mem d = Some num" "num \<noteq> 0" "4 + num * 8 = n" "rd_le mem (d + 4) = Some off"
    and "length (pBuffer buf) \<le> unat off"
  shows "parse_sliceinfo buf mem d n = None"
proof -
  obtain k where "unat num = Suc k" using assms(2) by (metis not0_implies_Suc unat_eq_zero)
  then show ?thesis using assms by (simp add: parse_sliceinfo_def mem_at_def)
qed

theorem slice_offset_unchecked_witness:
  "parse_sliceinfo slice_frame [1, 0, 0, 0, 0xFF, 0xFF, 0xFF, 0xFF, 11, 0, 0, 0] 0 12 = None"
  using slice_offset_unchecked [of "[1, 0, 0, 0, 0xFF, 0xFF, 0xFF, 0xFF, 11, 0, 0, 0]" 0 1 12 "0xFFFFFFFF" slice_frame]
  by (simp add: rd_le_def slice_frame_def)

section \<open>The walk over the records\<close>

definition stuck_record :: "xd_header \<Rightarrow> omx_buffer \<Rightarrow> nat \<Rightarrow> bool" where
  "stuck_record hdr buf p \<longleftrightarrow> p < nAllocLen buf \<and> (\<exists>ty n d. hdr (pBuffer buf) p = Some (0, ty, n, d) \<and>
    ty \<notin> {VDEC_EXTRADATA_NONE, VDEC_EXTRADATA_SEI, VEN_EXTRADATA_SLICEINFO})"

lemma walk_records_stuck:
  assumes "walk_records hdr buf p s = Some t"
  shows "\<not> stuck_record hdr buf p"
  using assms
proof (rule walk_records.raw_induct [rotated])
  fix f :: "xd_header \<Rightarrow> omx_buffer \<Rightarrow> nat \<Rightarrow> extra_data_handler \<Rightarrow> extra_data_handler option" and hdr buf p s t
  assume ih: "\<And>hdr buf p s t. f hdr buf p s = Some t \<Longrightarrow> \<not> stuck_record hdr buf p"
    and run: "(if p < nAllocLen buf then Option.bind (hdr (pBuffer buf) p) (\<lambda>(nSize, eType, nDataSize, d).
          if eType = VDEC_EXTRADATA_NONE then Some s
          else Option.bind
            (if eType = VDEC_EXTRADATA_SEI
             then map_option snd (parse_sei_xd (drop d (pBuffer buf)) (unat nDataSize) s)
             else if eType = VEN_EXTRADATA_QCOMFILLER then Some s
             else if eType = VEN_EXTRADATA_SLICEINFO
             then map_option (\<lambda>_. s) (parse_sliceinfo buf (pBuffer buf) d nDataSize)
             else Some s)
            (\<lambda>s. f hdr buf (p + unat nSize) s))
      else Some s) = Some t"
  show "\<not> stuck_record hdr buf p"
  proof
    assume st: "stuck_record hdr buf p"
    then have "f hdr buf p s = Some t" using run by (auto simp: stuck_record_def split: if_splits)
    then show False using ih st by blast
  qed
qed

text \<open>
  The walk advances by the record's own \<open>nSize\<close> without a test for zero: on a filler or
  unknown record of size zero, all of it inside the buffer, it never returns.
\<close>
theorem zero_size_record_hangs:
  assumes "nFlags buf AND 0x40 \<noteq> 0" "a = base + nOffset buf + nFilledLen buf + 3"
    and "p = a - a mod 4 - base" "p < nAllocLen buf" "hdr (pBuffer buf) p = Some (0, ty, n, d)"
    and "ty \<notin> {VDEC_EXTRADATA_NONE, VDEC_EXTRADATA_SEI, VEN_EXTRADATA_SLICEINFO}"
  shows "parse_extra_data hdr base buf s = None"
proof -
  have "stuck_record hdr buf p" using assms(4-6) unfolding stuck_record_def by blast
  then have "walk_records hdr buf p s = None" using walk_records_stuck by (cases "walk_records hdr buf p s") auto
  then show ?thesis using assms(1-3) by (simp add: parse_extra_data_def Let_def)
qed

theorem zero_size_record_hangs_witness:
  "parse_extra_data (\<lambda>mem p. Some (0, VEN_EXTRADATA_QCOMFILLER, 0, p + 20)) 0x1000
     (slice_frame\<lparr>nAllocLen := 64, nFlags := 0x40\<rparr>) (new_extra_data_handler 8 0) = None"
  using zero_size_record_hangs [of "slice_frame\<lparr>nAllocLen := 64, nFlags := 0x40\<rparr>" "0x1000 + 11 + 3" "0x1000" 12
      "\<lambda>mem p. Some (0, VEN_EXTRADATA_QCOMFILLER, 0, p + 20)" VEN_EXTRADATA_QCOMFILLER 0 32]
  by (simp add: slice_frame_def VEN_EXTRADATA_QCOMFILLER_def VDEC_EXTRADATA_NONE_def VDEC_EXTRADATA_SEI_def
      VEN_EXTRADATA_SLICEINFO_def)

end
