(* ===== verification/BitReader.thy ===== *)
theory BitReader
  imports BitSource
begin

text \<open>
  The bit level of \<open>h264_stream_parser\<close> (vdec/src/h264_utils.cpp): a 32-bit window refilled from
  a byte stream with removal of emulation prevention bytes, and the variable length codes read
  from it. The pointer \<open>bitstream\<close> and the counter \<open>bitstream_bytes\<close> are one list, the bytes
  not yet loaded.
\<close>

section \<open>State and operations\<close>

record bitreader =
  curr_32_bit :: u32
  bits_read :: nat
  zero_cntr :: nat
  emulation_code_skip_cntr :: nat
  emulation_sc_enabled :: bool
  bitstream :: "u8 list"

definition init_bitstream :: "u8 list \<Rightarrow> 'a bitreader_scheme \<Rightarrow> 'a bitreader_scheme" where
  "init_bitstream data s = s\<lparr>bitstream := data, curr_32_bit := 0, bits_read := 0, zero_cntr := 0,
     emulation_code_skip_cntr := 0\<rparr>"

definition more_bits :: "'a bitreader_scheme \<Rightarrow> bool" where
  "more_bits s \<longleftrightarrow> bitstream s \<noteq> [] \<or> bits_read s > 0"

text \<open>One round of the loop of \<open>read_word\<close>: a byte is skipped or shifted in.\<close>

definition read_byte :: "u8 \<Rightarrow> 'a bitreader_scheme \<Rightarrow> 'a bitreader_scheme" where
  "read_byte b s =
     (let s1 = (if b = 3 \<and> zero_cntr s \<ge> 2 \<and> emulation_sc_enabled s
                then s\<lparr>emulation_code_skip_cntr := emulation_code_skip_cntr s + 1\<rparr>
                else s\<lparr>curr_32_bit := push_bit 8 (curr_32_bit s) OR ucast b,
                       bits_read := bits_read s + 8\<rparr>)
      in s1\<lparr>zero_cntr := if b = 0 then zero_cntr s + 1 else 0\<rparr>)"

fun fill_word :: "u8 list \<Rightarrow> 'a bitreader_scheme \<Rightarrow> 'a bitreader_scheme" where
  "fill_word [] s = s\<lparr>bitstream := []\<rparr>"
| "fill_word (b # bs) s =
     (if bits_read s < 32 then fill_word bs (read_byte b s) else s\<lparr>bitstream := b # bs\<rparr>)"

definition read_word :: "'a bitreader_scheme \<Rightarrow> 'a bitreader_scheme" where
  "read_word s =
     (let s1 = fill_word (bitstream s) (s\<lparr>curr_32_bit := 0, bits_read := 0\<rparr>)
      in s1\<lparr>curr_32_bit := shl32 (curr_32_bit s1) (32 - bits_read s1)\<rparr>)"

definition consume_bits :: "nat \<Rightarrow> 'a bitreader_scheme \<Rightarrow> 'a bitreader_scheme" where
  "consume_bits n s = s\<lparr>bits_read := bits_read s - n, curr_32_bit := shl32 (curr_32_bit s) n\<rparr>"

definition extract_bits :: "nat \<Rightarrow> 'a bitreader_scheme \<Rightarrow> u32 \<times> 'a bitreader_scheme" where
  "extract_bits n s =
     (if n > 32 then (0, s)
      else let value = shr32 (curr_32_bit s) (32 - n) in
        if bits_read s < n then
          let n1 = n - bits_read s; s1 = read_word s;
              value1 = value OR shr32 (curr_32_bit s1) (32 - n1)
          in if bits_read s1 < n1
             then (shr32 value1 (n1 - bits_read s1), consume_bits (bits_read s1) s1)
             else (value1, consume_bits n1 s1)
        else (value, consume_bits n s))"

section \<open>The stream a state stands for\<close>

text \<open>The payload bytes left once emulation prevention bytes are dropped.\<close>

fun unescape :: "bool \<Rightarrow> nat \<Rightarrow> u8 list \<Rightarrow> u8 list" where
  "unescape en z [] = []"
| "unescape en z (b # bs) =
     (if b = 3 \<and> z \<ge> 2 \<and> en then unescape en 0 bs
      else b # unescape en (if b = 0 then z + 1 else 0) bs)"

definition payload_bits :: "'a bitreader_scheme \<Rightarrow> bool list" where
  "payload_bits s = bytes_bits (unescape (emulation_sc_enabled s) (zero_cntr s) (bitstream s))"

definition window_bits :: "'a bitreader_scheme \<Rightarrow> bool list" where
  "window_bits s = bits_of (bits_read s) (unat (curr_32_bit s) div 2 ^ (32 - bits_read s))"

definition stream_bits :: "'a bitreader_scheme \<Rightarrow> bool list" where
  "stream_bits s = window_bits s @ payload_bits s"

definition window_ok :: "'a bitreader_scheme \<Rightarrow> bool" where
  "window_ok s \<longleftrightarrow> bits_read s \<le> 32 \<and> 2 ^ (32 - bits_read s) dvd unat (curr_32_bit s)"

section \<open>Refilling the window\<close>

definition filling :: "'a bitreader_scheme \<Rightarrow> bool" where
  "filling s \<longleftrightarrow> bits_read s \<le> 32 \<and> 8 dvd bits_read s \<and> unat (curr_32_bit s) < 2 ^ bits_read s"

definition filled_bits :: "'a bitreader_scheme \<Rightarrow> bool list" where
  "filled_bits s = bits_of (bits_read s) (unat (curr_32_bit s))"

lemma push_byte_unat:
  assumes "unat (x :: u32) < 2 ^ k" "k + 8 \<le> 32"
  shows "unat (push_bit 8 x OR ucast (b :: u8)) = unat x * 2 ^ 8 + unat b"
proof -
  have "(2::nat) ^ k * 2 ^ 8 \<le> 2 ^ 32"
    using assms(2) by (simp only: flip: power_add) (rule power_increasing, simp_all)
  with assms(1) have "unat x * 2 ^ 8 < 2 ^ 32" by (simp add: less_le_trans)
  then have "unat (push_bit 8 x) = unat x * 2 ^ 8"
    unfolding unsigned_push_bit_eq by (simp add: take_bit_eq_mod push_bit_eq_mult)
  moreover have "unat (ucast b :: u32) = unat b"
    by (rule unat_ucast_8)
  ultimately show ?thesis
    unfolding unsigned_or_eq using or_disj_nat [of "unat b" 8 "unat x"] unsigned_less [of b]
    by simp
qed

lemma read_byte_filling:
  assumes "filling s" "bits_read s < 32" "bitstream s = b # bs"
  shows "filling (read_byte b (s\<lparr>bitstream := bs\<rparr>))"
    and "filled_bits (read_byte b (s\<lparr>bitstream := bs\<rparr>)) @ payload_bits (read_byte b (s\<lparr>bitstream := bs\<rparr>))
         = filled_bits s @ payload_bits s"
proof -
  have le: "bits_read s + 8 \<le> 32"
    using assms(1,2) unfolding filling_def by presburger
  have ub: "unat b < 256" using unsigned_less [of b] by simp
  have v: "unat (push_bit 8 (curr_32_bit s) OR ucast b) = unat (curr_32_bit s) * 2 ^ 8 + unat b"
    using assms(1) le by (intro push_byte_unat [where k = "bits_read s"]) (auto simp: filling_def)
  have lt: "unat (curr_32_bit s) * 256 + unat b < 2 ^ (bits_read s + 8)"
    using assms(1) ub by (simp add: filling_def power_add)
  have split: "bits_of (bits_read s + 8) (unat (curr_32_bit s) * 256 + unat b) =
      bits_of (bits_read s) (unat (curr_32_bit s)) @ byte_bits b"
    using ub by (subst bits_of_add) (auto simp: byte_bits_def intro!: bits_of_cong)
  show "filling (read_byte b (s\<lparr>bitstream := bs\<rparr>))"
    using assms(1) le v lt by (auto simp: filling_def read_byte_def Let_def)
  show "filled_bits (read_byte b (s\<lparr>bitstream := bs\<rparr>)) @ payload_bits (read_byte b (s\<lparr>bitstream := bs\<rparr>))
         = filled_bits s @ payload_bits s"
    using assms(3) v split by (auto simp: filled_bits_def payload_bits_def read_byte_def Let_def)
qed

lemma read_byte_bitstream:
  "read_byte b (s\<lparr>bitstream := ys\<rparr>) = (read_byte b s)\<lparr>bitstream := ys\<rparr>"
  by (simp add: read_byte_def Let_def)

lemma fill_word_bitstream: "fill_word bs (s\<lparr>bitstream := ys\<rparr>) = fill_word bs s"
  by (induction bs arbitrary: s) (auto simp: read_byte_bitstream)

lemma fill_word_spec:
  assumes "filling s" "bitstream s = bs"
  shows "filling (fill_word bs s) \<and>
    filled_bits (fill_word bs s) @ payload_bits (fill_word bs s) = filled_bits s @ payload_bits s \<and>
    (bits_read (fill_word bs s) < 32 \<longrightarrow> bitstream (fill_word bs s) = [])"
  using assms
proof (induction bs arbitrary: s)
  case Nil
  then have "fill_word [] s = s" by (cases s) simp
  with Nil show ?case by (simp del: fill_word.simps)
next
  case (Cons b bs)
  show ?case
  proof (cases "bits_read s < 32")
    case True
    have e: "fill_word bs (read_byte b s) = fill_word bs (read_byte b (s\<lparr>bitstream := bs\<rparr>))"
      by (simp add: read_byte_bitstream fill_word_bitstream)
    show ?thesis
      using Cons.IH [of "read_byte b (s\<lparr>bitstream := bs\<rparr>)"] True
        read_byte_filling [OF Cons.prems(1) True Cons.prems(2)]
      by (simp add: e) (simp add: read_byte_def Let_def)
  next
    case False
    then have "fill_word (b # bs) s = s" using Cons.prems(2) by (cases s) simp
    then show ?thesis using False Cons.prems(1) by (auto simp: filling_def simp del: fill_word.simps)
  qed
qed

lemma read_word_spec:
  assumes "bits_read s = 0"
  shows "window_ok (read_word s)" "stream_bits (read_word s) = stream_bits s"
    and "bits_read (read_word s) < 32 \<Longrightarrow> payload_bits (read_word s) = []"
proof -
  define s0 where "s0 = s\<lparr>curr_32_bit := 0, bits_read := 0\<rparr>"
  define s1 where "s1 = fill_word (bitstream s) s0"
  have "filling s0" "bitstream s0 = bitstream s" by (simp_all add: filling_def s0_def)
  then have f: "filling s1" "filled_bits s1 @ payload_bits s1 = filled_bits s0 @ payload_bits s0"
    "bits_read s1 < 32 \<longrightarrow> bitstream s1 = []"
    using fill_word_spec [of s0 "bitstream s"] by (auto simp: s1_def)
  have r: "read_word s = s1\<lparr>curr_32_bit := shl32 (curr_32_bit s1) (32 - bits_read s1)\<rparr>"
    by (simp add: read_word_def s1_def s0_def Let_def)
  have le: "bits_read s1 \<le> 32" and lt: "unat (curr_32_bit s1) < 2 ^ bits_read s1"
    using f(1) by (auto simp: filling_def)
  have "unat (curr_32_bit s1) * 2 ^ (32 - bits_read s1) < 2 ^ bits_read s1 * 2 ^ (32 - bits_read s1)"
    using lt by simp
  also have "\<dots> = 2 ^ 32" using le by (simp flip: power_add)
  finally have u: "unat (curr_32_bit (read_word s)) = unat (curr_32_bit s1) * 2 ^ (32 - bits_read s1)"
    unfolding r by (simp add: unat_shl32)
  have p: "payload_bits (read_word s) = payload_bits s1"
    by (simp add: r payload_bits_def)
  have w: "window_bits (read_word s) = filled_bits s1"
    unfolding window_bits_def u by (simp add: r filled_bits_def)
  show "window_ok (read_word s)"
    unfolding window_ok_def u using le by (simp add: r)
  show "stream_bits (read_word s) = stream_bits s"
    using f(2) assms
    by (simp add: stream_bits_def p w) (simp add: s0_def filled_bits_def payload_bits_def window_bits_def)
  show "bits_read (read_word s) < 32 \<Longrightarrow> payload_bits (read_word s) = []"
    using f(3) unfolding p by (simp add: r payload_bits_def)
qed

section \<open>Reading bits\<close>

lemma window_value:
  assumes "window_ok s" "n \<le> bits_read s"
  shows "unat (shr32 (curr_32_bit s) (32 - n)) = bits_val (take n (window_bits s))"
    and "window_ok (consume_bits n s)"
    and "window_bits (consume_bits n s) = drop n (window_bits s)"
proof -
  define br where "br = bits_read s"
  from assms obtain v where v: "unat (curr_32_bit s) = v * 2 ^ (32 - br)" and br: "br \<le> 32" "n \<le> br"
    by (auto simp: window_ok_def br_def dvd_def mult.commute)
  have "v * 2 ^ (32 - br) < 2 ^ br * 2 ^ (32 - br)"
    using unat_less_32 [of "curr_32_bit s"] br v by (simp flip: power_add)
  then have vb: "v < 2 ^ br" by simp
  have wb: "window_bits s = bits_of br v"
    by (simp add: window_bits_def v br_def [symmetric])
  have e1: "(2::nat) ^ (32 - n) = 2 ^ (32 - br) * 2 ^ (br - n)"
    using br by (simp flip: power_add)
  have "v * 2 ^ (32 - br) div 2 ^ (32 - n) = v div 2 ^ (br - n)"
    unfolding e1 by (simp add: div_mult2_eq)
  moreover have "v div 2 ^ (br - n) < 2 ^ n"
    using vb br by (intro less_mult_imp_div_less) (simp flip: power_add)
  ultimately show "unat (shr32 (curr_32_bit s) (32 - n)) = bits_val (take n (window_bits s))"
    using br by (simp add: unat_shr32 v wb take_bits_of bits_val_bits_of)
  have e2: "(2::nat) ^ 32 = 2 ^ (32 - br + n) * 2 ^ (br - n)"
    using br by (simp flip: power_add)
  have c: "unat (shl32 (curr_32_bit s) n) = v mod 2 ^ (br - n) * 2 ^ (32 - (br - n))"
  proof -
    have "n \<le> 32" using br by simp
    then have "unat (shl32 (curr_32_bit s) n) = v * 2 ^ (32 - br) * 2 ^ n mod 2 ^ 32"
      by (simp only: unat_shl32 v)
    also have "\<dots> = v * 2 ^ (32 - br + n) mod (2 ^ (br - n) * 2 ^ (32 - br + n))"
      by (simp only: e2 power_add mult.assoc mult.commute mult.left_commute)
    also have "\<dots> = v mod 2 ^ (br - n) * 2 ^ (32 - br + n)"
      by (simp only: mult_mod_left)
    also have "32 - br + n = 32 - (br - n)" using br by simp
    finally show ?thesis .
  qed
  show "window_ok (consume_bits n s)"
    using br by (simp add: window_ok_def consume_bits_def br_def [symmetric] c)
  show "window_bits (consume_bits n s) = drop n (window_bits s)"
  proof -
    have "window_bits (consume_bits n s) = bits_of (br - n) (v mod 2 ^ (br - n))"
      unfolding window_bits_def using br by (simp add: consume_bits_def br_def [symmetric] c)
    also have "\<dots> = bits_of (br - n) v" by (rule bits_of_cong) simp
    finally show ?thesis using br by (simp add: wb drop_bits_of)
  qed
qed

lemma drop_window_all:
  assumes "n \<le> bits_read s"
  shows "stream_bits (consume_bits n s) = window_bits (consume_bits n s) @ payload_bits s"
  by (simp add: stream_bits_def consume_bits_def payload_bits_def)

text \<open>
  Reading is exact on the stream: the value is the number formed by the first \<open>n\<close> bits
  (all of them when fewer are left) and those bits are gone.
\<close>

lemma or_shifted_unat:
  assumes "unat (a :: u32) = x * 2 ^ k" "unat b < 2 ^ k"
  shows "unat (a OR b) = unat a + unat b"
  unfolding unsigned_or_eq assms(1) using assms(2) by (rule or_disj_nat)

lemma window_value_short:
  assumes "window_ok s" "bits_read s \<le> n" "n \<le> 32"
  shows "unat (shr32 (curr_32_bit s) (32 - n)) = bits_val (window_bits s) * 2 ^ (n - bits_read s)"
proof -
  define br where "br = bits_read s"
  from assms obtain v where v: "unat (curr_32_bit s) = v * 2 ^ (32 - br)" and br: "br \<le> n"
    by (auto simp: window_ok_def br_def dvd_def mult.commute)
  have "v * 2 ^ (32 - br) < 2 ^ br * 2 ^ (32 - br)"
    using unat_less_32 [of "curr_32_bit s"] br assms(3) v by (simp flip: power_add)
  then have "window_bits s = bits_of br v" "v < 2 ^ br"
    by (simp_all add: window_bits_def v br_def [symmetric])
  moreover have "(2::nat) ^ (32 - br) = 2 ^ (n - br) * 2 ^ (32 - n)"
    using br assms(3) by (simp flip: power_add)
  ultimately show ?thesis
    using assms(3) by (simp add: unat_shr32 v bits_val_bits_of br_def [symmetric])
qed

lemma extract_bits_spec:
  assumes "window_ok s" "n \<le> 32"
  shows "fst (extract_bits n s) = of_nat (bits_val (take n (stream_bits s))) \<and>
    stream_bits (snd (extract_bits n s)) = drop n (stream_bits s) \<and>
    window_ok (snd (extract_bits n s))"
proof (cases "bits_read s < n")
  case False
  then have le: "n \<le> bits_read s" by simp
  have "extract_bits n s = (shr32 (curr_32_bit s) (32 - n), consume_bits n s)"
    using False assms(2) by (simp add: extract_bits_def Let_def)
  moreover have "length (window_bits s) = bits_read s" by (simp add: window_bits_def)
  ultimately show ?thesis
    using window_value [OF assms(1) le] le
    by (simp add: drop_window_all) (metis stream_bits_def take_append drop_append append_Nil2
      diff_is_0_eq drop0 of_nat_unat take_0 ucast_id)
next
  case True
  define s1 where "s1 = read_word (s\<lparr>bits_read := 0\<rparr>)"
  define n1 where "n1 = n - bits_read s"
  have rw: "read_word s = s1" by (simp add: s1_def read_word_def)
  have r: "window_ok s1" "stream_bits s1 = payload_bits s" "bits_read s1 < 32 \<Longrightarrow> payload_bits s1 = []"
    using read_word_spec [of "s\<lparr>bits_read := 0\<rparr>"]
    by (simp_all add: s1_def stream_bits_def window_bits_def payload_bits_def)
  have lw: "length (window_bits s) = bits_read s" "length (window_bits s1) = bits_read s1"
    by (simp_all add: window_bits_def)
  have v0: "unat (shr32 (curr_32_bit s) (32 - n)) = bits_val (window_bits s) * 2 ^ n1"
    using window_value_short [OF assms(1)] True assms(2) by (simp add: n1_def)
  have n1: "n1 \<le> 32" using assms(2) by (simp add: n1_def)
  have tk: "take n (stream_bits s) = window_bits s @ take n1 (payload_bits s)"
    and dr: "drop n (stream_bits s) = drop n1 (payload_bits s)"
    using True by (simp_all add: stream_bits_def lw n1_def)
  show ?thesis
  proof (cases "bits_read s1 < n1")
    case False
    then have le: "n1 \<le> bits_read s1" by simp
    have x: "extract_bits n s = (shr32 (curr_32_bit s) (32 - n) OR shr32 (curr_32_bit s1) (32 - n1),
        consume_bits n1 s1)"
      using True False assms(2) by (simp add: extract_bits_def Let_def rw n1_def [symmetric])
    have p: "take n1 (payload_bits s) = take n1 (window_bits s1)"
      using le by (simp flip: r(2)) (simp add: stream_bits_def lw)
    have "unat (shr32 (curr_32_bit s1) (32 - n1)) = bits_val (take n1 (window_bits s1))"
      by (rule window_value(1) [OF r(1) le])
    moreover have "length (take n1 (window_bits s1)) = n1" using le lw by simp
    ultimately have "unat (fst (extract_bits n s)) = bits_val (take n (stream_bits s))"
      unfolding x tk p using bits_val_less [of "take n1 (window_bits s1)"]
      by (simp add: or_shifted_unat [OF v0] v0 bits_val_append)
    moreover have "stream_bits (consume_bits n1 s1) = drop n1 (payload_bits s)"
      using le window_value(3) [OF r(1) le]
      by (simp add: drop_window_all flip: r(2)) (simp add: stream_bits_def lw)
    ultimately show ?thesis
      using window_value(2) [OF r(1) le] dr by (simp add: x) (metis of_nat_unat ucast_id)
  next
    case short: True
    then have lt: "bits_read s1 < 32" using n1 by simp
    have pay: "payload_bits s = window_bits s1"
      using r(2) r(3) [OF lt] by (simp add: stream_bits_def)
    let ?d = "n1 - bits_read s1"
    have x: "extract_bits n s =
        (shr32 (shr32 (curr_32_bit s) (32 - n) OR shr32 (curr_32_bit s1) (32 - n1)) ?d,
         consume_bits (bits_read s1) s1)"
      using True short assms(2) by (simp add: extract_bits_def Let_def rw n1_def [symmetric])
    have v1: "unat (shr32 (curr_32_bit s1) (32 - n1)) = bits_val (window_bits s1) * 2 ^ ?d"
      using window_value_short [OF r(1)] short n1 by simp
    have "bits_val (window_bits s1) * 2 ^ ?d < 2 ^ bits_read s1 * 2 ^ ?d"
      using bits_val_less [of "window_bits s1"] lw by simp
    then have lt1: "unat (shr32 (curr_32_bit s1) (32 - n1)) < 2 ^ n1"
      unfolding v1 using short by (simp flip: power_add)
    have e: "(2::nat) ^ n1 = 2 ^ bits_read s1 * 2 ^ ?d" using short by (simp flip: power_add)
    have "unat (fst (extract_bits n s)) = bits_val (window_bits s) * 2 ^ bits_read s1 + bits_val (window_bits s1)"
      unfolding x using n1
      by (simp add: unat_shr32 or_shifted_unat [OF v0 lt1] v0 v1 e flip: mult.assoc distrib_right)
    also have "\<dots> = bits_val (take n (stream_bits s))"
      unfolding tk using short lw by (simp add: pay bits_val_append)
    finally have v: "unat (fst (extract_bits n s)) = bits_val (take n (stream_bits s))" .
    have "stream_bits (consume_bits (bits_read s1) s1) = []"
      using window_value(3) [OF r(1) order_refl] r(3) [OF lt] lw by (simp add: drop_window_all)
    moreover have "drop n1 (payload_bits s) = []" using short lw by (simp add: pay)
    ultimately show ?thesis
      using v dr window_value(2) [OF r(1) order_refl] by (simp add: x) (metis of_nat_unat ucast_id)
  qed
qed

end
