(* ===== verification/H264Codes.thy ===== *)
theory H264Codes
  imports BitReader
begin

text \<open>
  The variable length codes of \<open>h264_stream_parser\<close> (vdec/src/h264_utils.cpp): \<open>uev\<close>, \<open>sev\<close>,
  \<open>iv\<close> and the NAL header search \<open>get_nal_unit_type\<close>, over the bit reader.
\<close>

section \<open>Progress of the reader\<close>

definition bits_left :: "'a bitreader_scheme \<Rightarrow> nat" where
  "bits_left s = 8 * length (bitstream s) + bits_read s"

lemma fill_word_left:
  "bits_left (fill_word bs s) \<le> 8 * length bs + bits_read s \<and>
   (bits_read (fill_word bs s) = 0 \<longrightarrow> bitstream (fill_word bs s) = [])"
proof (induction bs arbitrary: s)
  case Nil
  then show ?case by (simp add: bits_left_def)
next
  case (Cons b bs)
  have "bits_read (read_byte b s) \<le> bits_read s + 8"
    by (simp add: read_byte_def Let_def)
  then show ?case using Cons [of "read_byte b s"] by (auto simp: bits_left_def)
qed

lemma read_word_left:
  "bits_left (read_word s) \<le> 8 * length (bitstream s)"
  "0 < bits_read (read_word s) \<or> bitstream (read_word s) = []"
  using fill_word_left [of "bitstream s" "s\<lparr>curr_32_bit := 0, bits_read := 0\<rparr>"]
  by (auto simp: read_word_def Let_def bits_left_def)

lemma consume_bits_simps [simp]:
  "bits_read (consume_bits n s) = bits_read s - n"
  "bitstream (consume_bits n s) = bitstream s"
  by (simp_all add: consume_bits_def)

lemma extract_bits_progress:
  "0 < n \<Longrightarrow> n \<le> 32 \<Longrightarrow> more_bits (snd (extract_bits n s)) \<Longrightarrow>
   bits_left (snd (extract_bits n s)) < bits_left s"
  using read_word_left [of s]
  by (auto simp: extract_bits_def Let_def more_bits_def bits_left_def split: if_splits)

section \<open>Unsigned, signed and fixed width codes\<close>

function uev_zeros :: "nat \<Rightarrow> 'a bitreader_scheme \<Rightarrow> nat \<times> 'a bitreader_scheme" where
  "uev_zeros z s =
     (let (b, s1) = extract_bits 1 s
      in if b = 0 \<and> more_bits s1 then uev_zeros (Suc z) s1 else (z, s1))"
  by pat_completeness auto
termination
  by (relation "measure (\<lambda>(z, s). bits_left s)")
     (auto dest: extract_bits_progress [of 1, simplified] simp: prod_eq_iff)

declare uev_zeros.simps [simp del]

definition uev :: "'a bitreader_scheme \<Rightarrow> u32 \<times> 'a bitreader_scheme" where
  "uev s =
     (let (lead_zero_bits, s1) = uev_zeros 0 s
      in if lead_zero_bits = 0 then (0, s1)
         else let (v, s2) = extract_bits lead_zero_bits s1
              in (shl32 1 lead_zero_bits - 1 + v, s2))"

text \<open>The 32-bit result is the two's complement of the signed return value.\<close>

definition sev :: "'a bitreader_scheme \<Rightarrow> u32 \<times> 'a bitreader_scheme" where
  "sev s =
     (let (code_num, s1) = uev s; ret = shr32 (code_num + 1) 1
      in (if code_num AND 1 \<noteq> 0 then ret else - ret, s1))"

definition iv :: "nat \<Rightarrow> 'a bitreader_scheme \<Rightarrow> u32 \<times> 'a bitreader_scheme" where
  "iv n_bits s =
     (let (code_num, s1) = extract_bits n_bits s
      in (if shr32 code_num (n_bits - 1) \<noteq> 0
          then (- 1) * (NOT (code_num AND NOT (shl32 1 (n_bits - 1))) + 1)
          else code_num, s1))"

section \<open>The NAL header search\<close>

function nal_search :: "u32 \<Rightarrow> nat \<Rightarrow> 'a bitreader_scheme \<Rightarrow> u32 \<times> nat \<times> 'a bitreader_scheme" where
  "nal_search value consumed_bytes s =
     (if value \<noteq> 1 \<and> more_bits s
      then let (v, s1) = extract_bits 8 s
           in nal_search (push_bit 8 value OR v) (consumed_bytes + 1) s1
      else (value, consumed_bytes, s))"
  by pat_completeness auto
termination
proof (relation "measure (\<lambda>(v, c, s). if more_bits s then Suc (bits_left s) else 0)")
  fix s s1 :: "'a bitreader_scheme" and v val :: u32 and c :: nat and x
  assume "val \<noteq> 1 \<and> more_bits s" "x = extract_bits 8 s" "(v, s1) = x"
  then show "((push_bit 8 val OR v, c + 1, s1), val, c, s)
      \<in> measure (\<lambda>(v, c, s). if more_bits s then Suc (bits_left s) else 0)"
    using extract_bits_progress [of 8 s] by (cases "extract_bits 8 s") (auto simp: prod_eq_iff)
qed simp

declare nal_search.simps [simp del]

text \<open>The out parameter \<open>nal_unit_type\<close> and the result \<open>consumed_bytes\<close>, as a pair.\<close>

definition get_nal_unit_type :: "'a bitreader_scheme \<Rightarrow> (nat \<times> nat) \<times> 'a bitreader_scheme" where
  "get_nal_unit_type s =
     (let (v0, s0) = extract_bits 24 s;
          (value, consumed_bytes, s1) = nal_search v0 3 s0
      in if value \<noteq> 1 then ((0, consumed_bytes), s1)
         else let (forbidden_zero_bit, s2) = extract_bits 1 s1;
                  (nal_ref_idc, s3) = extract_bits 2 s2;
                  (nal_unit_type, s4) = extract_bits 5 s3
              in ((unat nal_unit_type, consumed_bytes + 1), s4))"

section \<open>The reader meets the bit reader contract\<close>

definition rd_h264 :: "nat \<Rightarrow> 'a bitreader_scheme \<Rightarrow> (u32 \<times> 'a bitreader_scheme) option" where
  "rd_h264 n s = Some (extract_bits n s)"

interpretation h264: bit_reader rd_h264 stream_bits window_ok 32
proof
  show "1 \<le> (32::nat)" by simp
next
  fix s :: "'a bitreader_scheme" and n :: nat
  assume "window_ok s" "n \<le> 32"
  then show "\<exists>s'. rd_h264 n s = Some (of_nat (bits_val (take n (stream_bits s))), s') \<and>
      stream_bits s' = drop n (stream_bits s) \<and> window_ok s'"
    using extract_bits_spec [of s n]
    by (cases "extract_bits n s") (simp add: rd_h264_def)
qed

lemma stream_more_bits: "stream_bits s \<noteq> [] \<Longrightarrow> more_bits s"
  by (cases "bits_read s") (auto simp: stream_bits_def window_bits_def payload_bits_def more_bits_def)

interpretation h264: ue_decoder rd_h264 stream_bits window_ok 32
  "\<lambda>z s. Some (uev_zeros z s)" "\<lambda>s. Some (uev s)"
proof
  fix s s' :: "'a bitreader_scheme" and bs z
  assume "rd_h264 1 s = Some (1, s')"
  then show "Some (uev_zeros z s) = Some (z, s')"
    by (subst uev_zeros.simps) (simp add: rd_h264_def)
next
  fix s s' :: "'a bitreader_scheme" and bs z
  assume "bs \<noteq> []" "rd_h264 1 s = Some (0, s')" "stream_bits s' = bs"
  then show "Some (uev_zeros z s) = Some (uev_zeros (Suc z) s')"
    by (subst uev_zeros.simps) (simp add: rd_h264_def stream_more_bits)
next
  fix s s1 :: "'a bitreader_scheme"
  assume "Some (uev_zeros 0 s) = Some (0, s1)" "window_ok s1"
  then show "\<exists>s2. Some (uev s) = Some (0, s2) \<and> stream_bits s2 = stream_bits s1 \<and> window_ok s2"
    by (simp add: uev_def)
next
  fix s s1 s2 :: "'a bitreader_scheme" and z v
  assume "Some (uev_zeros 0 s) = Some (z, s1)" "0 < z" "rd_h264 z s1 = Some (v, s2)"
  then show "Some (uev s) = Some (shl32 1 z - 1 + v, s2)"
    by (simp add: uev_def rd_h264_def)
qed

lemma init_bitstream_ok:
  "window_ok (init_bitstream data s)"
  "stream_bits (init_bitstream data s) = bytes_bits (unescape (emulation_sc_enabled s) 0 data)"
  by (simp_all add: init_bitstream_def window_ok_def stream_bits_def window_bits_def payload_bits_def)

section \<open>Reading changes only the reader\<close>

lemma fill_word_more: "bitreader.more (fill_word bs s) = bitreader.more s"
  by (induction bs arbitrary: s) (auto simp: read_byte_def Let_def)

lemma extract_more: "bitreader.more (snd (extract_bits n s)) = bitreader.more s"
  by (auto simp: extract_bits_def Let_def consume_bits_def read_word_def fill_word_more)

lemma uev_zeros_more: "bitreader.more (snd (uev_zeros z s)) = bitreader.more s"
proof (induction z s rule: uev_zeros.induct)
  case (1 z s)
  obtain b t where e: "extract_bits 1 s = (b, t)" by force
  then show ?case using 1 [OF refl e [symmetric]] extract_more [of 1 s]
    by (subst uev_zeros.simps) (auto simp: e [unfolded One_nat_def])
qed

lemma uev_more: "bitreader.more (snd (uev s)) = bitreader.more s"
  using uev_zeros_more [of 0 s] by (simp add: uev_def Let_def case_prod_beta extract_more)

section \<open>What the codes return\<close>

text \<open>
  C19. Reading \<open>n \<le> 32\<close> bits from a well-formed reader state returns the number formed by the
  next \<open>n\<close> bits of the stream with emulation prevention bytes removed (all the remaining bits
  when fewer are left), removes exactly those bits and leaves a well-formed state, whatever the
  position of the window and of the escape bytes.
\<close>
theorem extract_bits_exact:
  assumes "window_ok s" "n \<le> 32"
  shows "fst (extract_bits n s) = of_nat (bits_val (take n (stream_bits s))) \<and>
    stream_bits (snd (extract_bits n s)) = drop n (stream_bits s) \<and>
    window_ok (snd (extract_bits n s))"
  using assms by (rule extract_bits_spec)

definition sample_reader :: bitreader where
  "sample_reader = \<lparr>curr_32_bit = 0xA0000000, bits_read = 3, zero_cntr = 2,
     emulation_code_skip_cntr = 0, emulation_sc_enabled = True, bitstream = [3, 0x81, 0xFF, 0x10, 7, 9]\<rparr>"

theorem extract_bits_exact_witness:
  "window_ok sample_reader \<and> (12::nat) \<le> 32 \<and>
   fst (extract_bits 12 sample_reader) = of_nat (bits_val (take 12 (stream_bits sample_reader)))"
proof -
  have w: "window_ok sample_reader" by (simp add: window_ok_def sample_reader_def)
  show ?thesis using extract_bits_exact [OF w, of 12] w by simp
qed

text \<open>
  \<open>uev\<close> inverts the Exp-Golomb encoding: on a stream that starts with the code word of
  \<open>k < 2^32 - 1\<close> it returns \<open>k\<close> and leaves exactly the bits after the code word.
\<close>
theorem uev_decodes:
  assumes "window_ok s" "stream_bits s = ue_bits k @ rest" "k + 1 < 2 ^ 32"
  shows "fst (uev s) = of_nat k \<and> stream_bits (snd (uev s)) = rest \<and> window_ok (snd (uev s))"
  using h264.ue_decodes [OF assms] by auto

theorem uev_decodes_witness:
  "fst (uev (init_bitstream [0x2F] sample_reader)) = of_nat 4 \<and>
   stream_bits (snd (uev (init_bitstream [0x2F] sample_reader))) = [True, True, True]"
proof -
  have b: "stream_bits (init_bitstream [0x2F] sample_reader) = ue_bits 4 @ [True, True, True]"
    by (simp add: init_bitstream_ok byte_bits_def ue_bits_def ue_zeros_def nbits.simps
        sample_reader_def biteval)
  show ?thesis using uev_decodes [OF init_bitstream_ok(1) b] by simp
qed

definition se_code :: "int \<Rightarrow> nat" where
  "se_code v = nat (if 0 < v then 2 * v - 1 else - 2 * v)"

lemma sev_of_uev:
  assumes "k + 1 < 2 ^ 32" "fst (uev s) = of_nat k"
  shows "fst (sev s) = word_of_int (if odd k then int ((k + 1) div 2) else - int (k div 2))"
proof -
  have k1: "of_nat k + 1 = (of_nat (k + 1) :: u32)" by simp
  have "(k + 1) div 2 < 2 ^ 32" using assms(1) by simp
  then have r: "shr32 (of_nat k + 1) 1 = of_nat ((k + 1) div 2)"
    unfolding k1 using assms(1)
    by (intro u32_eqI) (simp only: unat_shr32 one_le_numeral unat_of_nat32 power_one_right)
  have "unat (of_nat k AND 1 :: u32) = k mod 2"
    unfolding unsigned_and_eq using assms(1) by (simp add: unat_of_nat and_one_eq)
  then have o: "(of_nat k AND 1 :: u32) = 0 \<longleftrightarrow> even k"
    by (simp add: even_iff_mod_2_eq_zero flip: unat_eq_0)
  have e: "even k \<Longrightarrow> (k + 1) div 2 = k div 2" by presburger
  show ?thesis
  proof (cases "even k")
    case True
    then show ?thesis using assms(2) e
      by (cases "uev s") (simp add: sev_def Let_def r [unfolded One_nat_def] o flip: of_nat_div)
  next
    case False
    then show ?thesis using assms(2)
      by (cases "uev s") (simp add: sev_def Let_def r [unfolded One_nat_def] o flip: of_nat_div)
  qed
qed

text \<open>
  \<open>sev\<close> inverts the signed Exp-Golomb mapping: on a stream that starts with the code word of
  the signed value \<open>v\<close>, \<open>-2^31 < v < 2^31\<close>, it returns \<open>v\<close> and consumes that code word.
\<close>
theorem sev_decodes:
  assumes "window_ok s" "stream_bits s = ue_bits (se_code v) @ rest" "- (2 ^ 31) < v" "v < 2 ^ 31"
  shows "sint (fst (sev s)) = v \<and> stream_bits (snd (sev s)) = rest"
proof -
  let ?k = "se_code v"
  have k: "?k + 1 < 2 ^ 32"
    using assms(3,4) unfolding se_code_def by (cases "0 < v") (simp_all add: nat_less_iff)
  have u: "fst (uev s) = of_nat ?k" "stream_bits (snd (uev s)) = rest"
    using h264.ue_decodes [OF assms(1,2) k] by auto
  have "(if odd ?k then int ((?k + 1) div 2) else - int (?k div 2)) = v"
  proof (cases "0 < v")
    case True
    define n where "n = nat v - 1"
    from True have "v = int n + 1" by (simp add: n_def)
    then show ?thesis by (simp add: se_code_def nat_add_distrib nat_mult_distrib)
  next
    case False
    define n where "n = nat (- v)"
    from False have "v = - int n" by (simp add: n_def)
    then show ?thesis by (simp add: se_code_def nat_mult_distrib)
  qed
  then have "fst (sev s) = word_of_int v" using sev_of_uev [OF k u(1)] by simp
  moreover have "sint (word_of_int v :: u32) = v"
    unfolding sint_sbintrunc' using assms(3,4) by (intro signed_take_bit_int_eq_self) simp_all
  ultimately show ?thesis using u(2) by (simp add: sev_def Let_def case_prod_beta)
qed

theorem sev_decodes_witness:
  "sint (fst (sev (init_bitstream [0x2F] sample_reader))) = - 2"
proof -
  have b: "stream_bits (init_bitstream [0x2F] sample_reader) = ue_bits (se_code (- 2)) @ [True, True, True]"
    by (simp add: init_bitstream_ok byte_bits_def ue_bits_def ue_zeros_def nbits.simps
        sample_reader_def se_code_def biteval)
  show ?thesis using sev_decodes [OF init_bitstream_ok(1) b] by simp
qed

lemma and_not_bit:
  assumes "unat (c :: u32) < 2 ^ n" "0 < n" "n \<le> 32"
  shows "c AND NOT (shl32 1 (n - 1)) = take_bit (n - 1) c"
proof (rule bit_word_eqI)
  fix i assume i: "i < LENGTH(32)"
  have c: "bit c i \<Longrightarrow> i < n"
  proof (rule ccontr)
    assume "bit c i" "\<not> i < n"
    have "bit (unat c) i" using \<open>bit c i\<close> by (simp add: bit_unsigned_iff)
    then have "odd (unat c div 2 ^ i)" unfolding bit_iff_odd .
    then have "unat c div 2 ^ i \<noteq> 0" by (metis even_zero)
    then have "2 ^ i \<le> unat c" by (metis div_less not_le)
    also have "unat c < 2 ^ n" by fact
    also have "\<dots> \<le> 2 ^ i" using \<open>\<not> i < n\<close> by simp
    finally show False by simp
  qed
  show "bit (c AND NOT (shl32 1 (n - 1))) i \<longleftrightarrow> bit (take_bit (n - 1) c) i"
    using i assms(2,3) c by (auto simp: shl32_def bit_simps)
qed

text \<open>
  \<open>iv\<close> drops the sign bit: for every width \<open>1 \<le> n \<le> 32\<close> it returns the low \<open>n - 1\<close> bits
  of the field as a non-negative number, where the two's complement code \<open>i(n)\<close> of the H.264
  syntax (used for \<open>time_offset\<close>) denotes that number minus \<open>2^(n-1)\<close> when the top bit is set.
\<close>
theorem iv_drops_sign:
  assumes "window_ok s" "0 < n" "n \<le> 32" "n \<le> length (stream_bits s)"
  shows "unat (fst (iv n s)) = bits_val (take n (stream_bits s)) mod 2 ^ (n - 1)"
proof -
  define c where "c = bits_val (take n (stream_bits s))"
  have c: "c < 2 ^ n" using bits_val_less [of "take n (stream_bits s)"] assms(4) by (simp add: c_def)
  also have "(2::nat) ^ n \<le> 2 ^ 32" using assms(3) by (rule power_increasing) simp
  finally have uc: "unat (of_nat c :: u32) = c" by (rule unat_of_nat32)
  obtain s1 where e: "extract_bits n s = (of_nat c, s1)"
    using extract_bits_spec [OF assms(1,3)] by (metis c_def prod.collapse)
  have t: "unat (take_bit (n - 1) (of_nat c :: u32)) = c mod 2 ^ (n - 1)"
    unfolding unsigned_take_bit_eq uc by (simp add: take_bit_eq_mod)
  have m: "(- 1) * (NOT x + 1) = (x :: u32)" for x
    by (simp add: minus_eq_not_plus_1 [symmetric])
  have sh: "unat (shr32 (of_nat c) (n - 1)) = c div 2 ^ (n - 1)"
    using assms(3) by (simp add: unat_shr32 uc)
  show ?thesis
  proof (cases "c div 2 ^ (n - 1) = 0")
    case True
    then have "c < 2 ^ (n - 1)" by (simp add: div_eq_0_iff)
    moreover have "shr32 (of_nat c) (n - 1) = (0 :: u32)" using sh True by (simp add: unat_0_iff)
    ultimately show ?thesis by (simp add: iv_def e uc flip: c_def)
  next
    case False
    then have "shr32 (of_nat c) (n - 1) \<noteq> (0 :: u32)" using sh by (metis unsigned_0)
    then show ?thesis
      using and_not_bit [of "of_nat c" n] c uc assms(2,3) t
      by (simp only: iv_def e Let_def prod.case if_True simp_thms m fst_conv flip: c_def)
  qed
qed

theorem iv_drops_sign_witness:
  "unat (fst (iv 8 (init_bitstream [0xFF] sample_reader))) = 127"
proof -
  have b: "stream_bits (init_bitstream [0xFF] sample_reader) = replicate 8 True"
    by (simp add: init_bitstream_ok byte_bits_def sample_reader_def biteval)
  show ?thesis using iv_drops_sign [OF init_bitstream_ok(1), of 8 "[0xFF]" sample_reader]
    by (simp add: b biteval)
qed

end
