(* ===== verification/PanScan.thy ===== *)
theory PanScan
  imports Prelude
begin

text \<open>
  The pan-scan store of vdec/src/h264_utils.cpp: the intrusive doubly linked list
  \<open>omx_dl_list\<close> over a pool of nodes, and \<open>panscan_handler\<close>, which moves the nodes of one pool
  between a free list and a list of rectangles in use. Pointers are indices into the pool;
  the linked lists are shown to represent HOL lists, and the handler's properties rest on that
  deque contract.
\<close>

section \<open>Data\<close>

record h264_pan_scan =
  rect_id :: u32
  rect_cancel_flag :: u8
  ps_cnt :: u32
  rect_left_offset :: "u32 list"
  rect_right_offset :: "u32 list"
  rect_top_offset :: "u32 list"
  rect_bottom_offset :: "u32 list"
  rect_repetition_period :: u32

record panscan_node =
  pan_scan_param :: h264_pan_scan
  start_ts :: int
  end_ts :: int
  active :: bool
  node_next :: "nat option"
  node_prev :: "nat option"

record omx_dl_list =
  head :: "nat option"
  tail :: "nat option"

type_synonym pool = "panscan_node list"

definition LLONG_MAX :: int where "LLONG_MAX = 2 ^ 63 - 1"

definition VALID_TS :: "int \<Rightarrow> bool" where "VALID_TS ts \<longleftrightarrow> ts < LLONG_MAX"

definition NO_PAN_SCAN_BIT :: u32 where "NO_PAN_SCAN_BIT = 0x100"

text \<open>Writing one node of the pool.\<close>

definition upd_node :: "nat \<Rightarrow> (panscan_node \<Rightarrow> panscan_node) \<Rightarrow> pool \<Rightarrow> pool" where
  "upd_node i f h = h[i := f (h ! i)]"

section \<open>The linked list\<close>

definition empty_list :: omx_dl_list where
  "empty_list = \<lparr>head = None, tail = None\<rparr>"

definition watch_first :: "omx_dl_list \<Rightarrow> nat option" where
  "watch_first l = head l"

definition watch_last :: "omx_dl_list \<Rightarrow> nat option" where
  "watch_last l = tail l"

definition remove_first :: "pool \<times> omx_dl_list \<Rightarrow> nat option \<times> pool \<times> omx_dl_list" where
  "remove_first = (\<lambda>(h, l).
     case head l of
       None \<Rightarrow> (None, h, l)
     | Some d \<Rightarrow>
         (let (h1, l1) = (case node_next (h ! d) of
                Some n \<Rightarrow> (upd_node n (\<lambda>x. x\<lparr>node_prev := None\<rparr>) h, l\<lparr>head := Some n\<rparr>)
              | None \<Rightarrow> (h, l\<lparr>head := None, tail := None\<rparr>))
          in (Some d, upd_node d (\<lambda>x. x\<lparr>node_next := None, node_prev := None\<rparr>) h1, l1)))"

definition remove_last :: "pool \<times> omx_dl_list \<Rightarrow> nat option \<times> pool \<times> omx_dl_list" where
  "remove_last = (\<lambda>(h, l).
     case tail l of
       None \<Rightarrow> (None, h, l)
     | Some d \<Rightarrow>
         (let (h1, l1) = (case node_prev (h ! d) of
                Some p \<Rightarrow> (upd_node p (\<lambda>x. x\<lparr>node_next := None\<rparr>) h, l\<lparr>tail := Some p\<rparr>)
              | None \<Rightarrow> (h, l\<lparr>head := None, tail := None\<rparr>))
          in (Some d, upd_node d (\<lambda>x. x\<lparr>node_next := None, node_prev := None\<rparr>) h1, l1)))"

definition add_last :: "nat option \<Rightarrow> pool \<times> omx_dl_list \<Rightarrow> pool \<times> omx_dl_list" where
  "add_last p = (\<lambda>(h, l).
     case p of
       None \<Rightarrow> (h, l)
     | Some d \<Rightarrow>
         (let h1 = upd_node d (\<lambda>x. x\<lparr>node_next := None, node_prev := tail l\<rparr>) h
          in case tail l of
               Some t \<Rightarrow> (upd_node t (\<lambda>x. x\<lparr>node_next := Some d\<rparr>) h1, l\<lparr>tail := Some d\<rparr>)
             | None \<Rightarrow> (h1, l\<lparr>head := Some d, tail := Some d\<rparr>)))"

fun add_multiple :: "nat list \<Rightarrow> pool \<times> omx_dl_list \<Rightarrow> pool \<times> omx_dl_list" where
  "add_multiple [] hl = hl"
| "add_multiple (d # ds) hl = add_multiple ds (add_last (Some d) hl)"

section \<open>The linked list represents a sequence\<close>

definition option_last :: "'a list \<Rightarrow> 'a option" where
  "option_last xs = (if xs = [] then None else Some (last xs))"

definition option_hd :: "'a list \<Rightarrow> 'a option" where
  "option_hd xs = (if xs = [] then None else Some (hd xs))"

definition linked :: "pool \<Rightarrow> nat list \<Rightarrow> bool" where
  "linked h xs \<longleftrightarrow> distinct xs \<and> (\<forall>i < length xs. xs ! i < length h
     \<and> node_next (h ! (xs ! i)) = (if Suc i < length xs then Some (xs ! Suc i) else None)
     \<and> node_prev (h ! (xs ! i)) = (if i = 0 then None else Some (xs ! (i - 1))))"

definition represents :: "pool \<Rightarrow> omx_dl_list \<Rightarrow> nat list \<Rightarrow> bool" where
  "represents h l xs \<longleftrightarrow> linked h xs \<and> head l = option_hd xs \<and> tail l = option_last xs"

text \<open>The payload of a node, everything but its links.\<close>

definition payload :: "panscan_node \<Rightarrow> panscan_node" where
  "payload n = n\<lparr>node_next := None, node_prev := None\<rparr>"

lemma length_upd_node [simp]: "length (upd_node i f h) = length h"
  by (simp add: upd_node_def)

lemma upd_node_nth:
  "j < length h \<Longrightarrow> upd_node i f h ! j = (if i = j then f (h ! j) else h ! j)"
  by (auto simp: upd_node_def nth_list_update)

lemma upd_node_other [simp]: "i \<noteq> j \<Longrightarrow> upd_node i f h ! j = h ! j"
  by (simp add: upd_node_def)

lemma payload_links [simp]:
  "payload (n\<lparr>node_next := a\<rparr>) = payload n" "payload (n\<lparr>node_prev := b\<rparr>) = payload n"
  "payload (n\<lparr>node_next := a, node_prev := b\<rparr>) = payload n"
  by (simp_all add: payload_def)

lemma payload_upd_node:
  "(\<And>n. payload (f n) = payload n) \<Longrightarrow> payload (upd_node i f h ! j) = payload (h ! j)"
  by (cases "i = j"; cases "i < length h") (auto simp: upd_node_def list_update_beyond)

lemma linked_cong:
  assumes "linked h xs" "length h' = length h"
    and "\<And>x. x \<in> set xs \<Longrightarrow> node_next (h' ! x) = node_next (h ! x) \<and> node_prev (h' ! x) = node_prev (h ! x)"
  shows "linked h' xs"
  using assms by (simp add: linked_def)

lemma represents_cong:
  assumes "represents h l xs" "length h' = length h"
    and "\<And>x. x \<in> set xs \<Longrightarrow> node_next (h' ! x) = node_next (h ! x) \<and> node_prev (h' ! x) = node_prev (h ! x)"
  shows "represents h' l xs"
  using assms linked_cong by (auto simp: represents_def)

lemma linked_bound: "linked h xs \<Longrightarrow> x \<in> set xs \<Longrightarrow> x < length h"
  by (auto simp: linked_def in_set_conv_nth)

lemma hd_not_nth: "distinct xs \<Longrightarrow> 0 < i \<Longrightarrow> i < length xs \<Longrightarrow> hd xs \<noteq> xs ! i"
  by (cases xs) (auto simp: nth_Cons')

lemma last_eq_nth:
  assumes "distinct xs" "i < length xs"
  shows "last xs = xs ! i \<longleftrightarrow> Suc i = length xs"
proof -
  have "last xs = xs ! (length xs - 1)" using assms(2) by (intro last_conv_nth) auto
  then show ?thesis using assms by (auto simp: nth_eq_iff_index_eq)
qed

lemma last_not_in: "xs \<noteq> [] \<Longrightarrow> j \<notin> set xs \<Longrightarrow> last xs \<noteq> j"
  using last_in_set by metis

lemma remove_first_Nil: "represents h l [] \<Longrightarrow> remove_first (h, l) = (None, h, l)"
  by (simp add: remove_first_def represents_def option_hd_def)

lemma linked_Cons_next:
  "linked h (x # xs) \<Longrightarrow> node_next (h ! x) = option_hd xs \<and> x < length h"
  unfolding linked_def option_hd_def by (drule conjunct2, drule spec [of _ 0]) (auto simp: hd_conv_nth)

lemma remove_first_Cons:
  assumes "represents h l (x # xs)"
  shows "\<exists>h' l'. remove_first (h, l) = (Some x, h', l') \<and> represents h' l' xs \<and> length h' = length h
    \<and> (\<forall>j. payload (h' ! j) = payload (h ! j)) \<and> (\<forall>j. j \<notin> set (x # xs) \<longrightarrow> h' ! j = h ! j)"
proof -
  have lk: "linked h (x # xs)" and hd: "head l = Some x" and tl: "tail l = Some (last (x # xs))"
    using assms by (auto simp: represents_def option_hd_def option_last_def)
  note nx = linked_Cons_next [OF lk]
  define h' where "h' = (let g = upd_node x (\<lambda>y. y\<lparr>node_next := None, node_prev := None\<rparr>) in
     case xs of [] \<Rightarrow> g h | n # _ \<Rightarrow> g (upd_node n (\<lambda>y. y\<lparr>node_prev := None\<rparr>) h))"
  define l' where "l' = (case xs of [] \<Rightarrow> l\<lparr>head := None, tail := None\<rparr> | n # _ \<Rightarrow> l\<lparr>head := Some n\<rparr>)"
  have r: "remove_first (h, l) = (Some x, h', l')"
    using nx by (cases xs) (auto simp: remove_first_def hd option_hd_def h'_def l'_def)
  have len: "length h' = length h" by (simp add: h'_def Let_def split: list.split)
  have x: "x \<notin> set xs" using lk by (simp add: linked_def)
  have pay: "payload (h' ! j) = payload (h ! j)" for j
    by (auto simp: h'_def Let_def payload_upd_node split: list.split)
  have oth: "j \<notin> set (x # xs) \<Longrightarrow> h' ! j = h ! j" for j
    by (auto simp: h'_def Let_def split: list.split)
  have "linked h' xs"
    unfolding linked_def
  proof (intro conjI allI impI)
    show "distinct xs" using lk by (simp add: linked_def)
    fix i assume i: "i < length xs"
    from lk i have L: "xs ! i < length h" "node_next (h ! (xs ! i)) = (if Suc i < length xs then Some (xs ! Suc i) else None)"
      "node_prev (h ! (xs ! i)) = Some ((x # xs) ! i)"
      unfolding linked_def by (auto dest!: spec [of _ "Suc i"])
    have ne: "xs ! i \<noteq> x" using x i nth_mem by blast
    show "xs ! i < length h'" using L len by simp
    show "node_next (h' ! (xs ! i)) = (if Suc i < length xs then Some (xs ! Suc i) else None)"
      using L ne by (auto simp: h'_def Let_def upd_node_nth split: list.split)
    have "i \<noteq> 0 \<Longrightarrow> hd xs \<noteq> xs ! i"
      using i lk by (intro hd_not_nth) (auto simp: linked_def)
    then show "node_prev (h' ! (xs ! i)) = (if i = 0 then None else Some (xs ! (i - 1)))"
      using L ne i by (cases xs) (auto simp: h'_def Let_def upd_node_nth)
  qed
  then have "represents h' l' xs"
    using hd tl by (cases xs) (auto simp: represents_def l'_def option_hd_def option_last_def)
  with r len pay oth show ?thesis by blast
qed

lemma remove_last_Nil: "represents h l [] \<Longrightarrow> remove_last (h, l) = (None, h, l)"
  by (simp add: remove_last_def represents_def option_last_def)

lemma remove_last_snoc:
  assumes "represents h l (xs @ [x])"
  shows "\<exists>h' l'. remove_last (h, l) = (Some x, h', l') \<and> represents h' l' xs \<and> length h' = length h
    \<and> (\<forall>j. payload (h' ! j) = payload (h ! j)) \<and> (\<forall>j. j \<notin> set (xs @ [x]) \<longrightarrow> h' ! j = h ! j)"
proof -
  have lk: "linked h (xs @ [x])" and hd: "head l = Some (hd (xs @ [x]))" and tl: "tail l = Some x"
    using assms by (auto simp: represents_def option_hd_def option_last_def)
  have pv: "node_prev (h ! x) = option_last xs" and xb: "x < length h"
    using lk [unfolded linked_def, THEN conjunct2, rule_format, of "length xs"]
    by (auto simp: option_last_def last_conv_nth nth_append)
  define h' where "h' = (let g = upd_node x (\<lambda>y. y\<lparr>node_next := None, node_prev := None\<rparr>) in
     if xs = [] then g h else g (upd_node (last xs) (\<lambda>y. y\<lparr>node_next := None\<rparr>) h))"
  define l' where "l' = (if xs = [] then l\<lparr>head := None, tail := None\<rparr> else l\<lparr>tail := Some (last xs)\<rparr>)"
  have r: "remove_last (h, l) = (Some x, h', l')"
    using pv by (auto simp: remove_last_def tl option_last_def h'_def l'_def)
  have len: "length h' = length h" by (simp add: h'_def Let_def)
  have x: "x \<notin> set xs" and dx: "distinct xs" using lk by (auto simp: linked_def)
  have pay: "payload (h' ! j) = payload (h ! j)" for j
    by (auto simp: h'_def Let_def payload_upd_node)
  have oth: "j \<notin> set (xs @ [x]) \<Longrightarrow> h' ! j = h ! j" for j
    by (auto simp: h'_def Let_def last_not_in)
  have "linked h' xs"
    unfolding linked_def
  proof (intro conjI allI impI dx)
    fix i assume i: "i < length xs"
    from lk i have L: "xs ! i < length h" "node_next (h ! (xs ! i)) = Some ((xs @ [x]) ! Suc i)"
      "node_prev (h ! (xs ! i)) = (if i = 0 then None else Some (xs ! (i - 1)))"
      using lk [unfolded linked_def, THEN conjunct2, rule_format, of i]
      by (auto simp: nth_append)
    have ne: "xs ! i \<noteq> x" using x i nth_mem by blast
    show "xs ! i < length h'" using L len by simp
    show "node_prev (h' ! (xs ! i)) = (if i = 0 then None else Some (xs ! (i - 1)))"
      using L ne by (auto simp: h'_def Let_def upd_node_nth)
    have "last xs = xs ! i \<longleftrightarrow> Suc i = length xs" by (rule last_eq_nth [OF dx i])
    then show "node_next (h' ! (xs ! i)) = (if Suc i < length xs then Some (xs ! Suc i) else None)"
      using L ne i by (auto simp: h'_def Let_def upd_node_nth nth_append)
  qed
  then have "represents h' l' xs"
    using hd tl by (auto simp: represents_def l'_def option_hd_def option_last_def)
  with r len pay oth show ?thesis by blast
qed

lemma add_last_snoc:
  assumes "represents h l xs" "x \<notin> set xs" "x < length h"
  shows "\<exists>h' l'. add_last (Some x) (h, l) = (h', l') \<and> represents h' l' (xs @ [x]) \<and> length h' = length h
    \<and> (\<forall>j. payload (h' ! j) = payload (h ! j)) \<and> (\<forall>j. j \<notin> set (xs @ [x]) \<longrightarrow> h' ! j = h ! j)"
proof -
  have lk: "linked h xs" and hd: "head l = option_hd xs" and tl: "tail l = option_last xs"
    using assms(1) by (auto simp: represents_def)
  define g where "g = upd_node x (\<lambda>y. y\<lparr>node_next := None, node_prev := option_last xs\<rparr>) h"
  define h' where "h' = (if xs = [] then g else upd_node (last xs) (\<lambda>y. y\<lparr>node_next := Some x\<rparr>) g)"
  define l' where "l' = (if xs = [] then l\<lparr>head := Some x, tail := Some x\<rparr> else l\<lparr>tail := Some x\<rparr>)"
  have r: "add_last (Some x) (h, l) = (h', l')"
    by (simp add: add_last_def tl option_last_def h'_def l'_def g_def Let_def)
  have len: "length h' = length h" by (simp add: h'_def g_def)
  have dx: "distinct xs" using lk by (simp add: linked_def)
  have pay: "payload (h' ! j) = payload (h ! j)" for j
    by (auto simp: h'_def g_def payload_upd_node)
  have oth: "j \<notin> set (xs @ [x]) \<Longrightarrow> h' ! j = h ! j" for j
    by (auto simp: h'_def g_def last_not_in)
  have "linked h' (xs @ [x])"
    unfolding linked_def
  proof (intro conjI allI impI)
    show "distinct (xs @ [x])" using dx assms(2) by simp
    fix i assume i: "i < length (xs @ [x])"
    show "(xs @ [x]) ! i < length h'"
      using i lk assms(3) len by (auto simp: nth_append linked_def less_Suc_eq)
    have lx: "xs \<noteq> [] \<Longrightarrow> last xs \<noteq> x" using assms(2) last_in_set by metis
    have L: "i < length xs \<Longrightarrow> xs ! i < length h \<and> xs ! i \<noteq> x \<and> (last xs = xs ! i \<longleftrightarrow> Suc i = length xs) \<and>
        node_next (h ! (xs ! i)) = (if Suc i < length xs then Some (xs ! Suc i) else None) \<and>
        node_prev (h ! (xs ! i)) = (if i = 0 then None else Some (xs ! (i - 1)))"
      using lk dx assms(2) nth_mem [of i xs] by (auto simp: linked_def last_eq_nth)
    show "node_next (h' ! ((xs @ [x]) ! i)) =
        (if Suc i < length (xs @ [x]) then Some ((xs @ [x]) ! Suc i) else None)"
      using i L lx assms(3) by (auto simp: nth_append h'_def g_def upd_node_nth less_Suc_eq)
    show "node_prev (h' ! ((xs @ [x]) ! i)) = (if i = 0 then None else Some ((xs @ [x]) ! (i - 1)))"
      using i L lx assms(3)
      by (auto simp: nth_append h'_def g_def upd_node_nth less_Suc_eq option_last_def last_conv_nth)
  qed
  then have "represents h' l' (xs @ [x])"
    using hd tl by (auto simp: represents_def l'_def option_hd_def option_last_def)
  with r len pay oth show ?thesis by blast
qed

section \<open>The deque contract\<close>

text \<open>
  What the handler needs of a list of pool nodes: removal at both ends, insertion at the end,
  and that an operation on one list leaves every node outside that list alone.
\<close>

locale pool_deque =
  fixes rem_first rem_last :: "'h \<times> 'l \<Rightarrow> nat option \<times> 'h \<times> 'l"
    and add_end :: "nat option \<Rightarrow> 'h \<times> 'l \<Rightarrow> 'h \<times> 'l"
    and rep :: "'h \<Rightarrow> 'l \<Rightarrow> nat list \<Rightarrow> bool"
    and pool_size :: "'h \<Rightarrow> nat"
    and same :: "'h \<Rightarrow> 'h \<Rightarrow> nat \<Rightarrow> bool"
    and data :: "'h \<Rightarrow> nat \<Rightarrow> 'd"
  assumes first_Cons: "rep h l (x # xs) \<Longrightarrow> \<exists>h' l'. rem_first (h, l) = (Some x, h', l') \<and> rep h' l' xs
      \<and> pool_size h' = pool_size h \<and> data h' = data h \<and> (\<forall>j. j \<notin> set (x # xs) \<longrightarrow> same h h' j)"
    and last_snoc: "rep h l (xs @ [x]) \<Longrightarrow> \<exists>h' l'. rem_last (h, l) = (Some x, h', l') \<and> rep h' l' xs
      \<and> pool_size h' = pool_size h \<and> data h' = data h \<and> (\<forall>j. j \<notin> set (xs @ [x]) \<longrightarrow> same h h' j)"
    and add_snoc: "rep h l xs \<Longrightarrow> x \<notin> set xs \<Longrightarrow> x < pool_size h \<Longrightarrow>
      \<exists>h' l'. add_end (Some x) (h, l) = (h', l') \<and> rep h' l' (xs @ [x])
      \<and> pool_size h' = pool_size h \<and> data h' = data h \<and> (\<forall>j. j \<notin> set (xs @ [x]) \<longrightarrow> same h h' j)"
    and frame: "rep h l xs \<Longrightarrow> pool_size h' = pool_size h \<Longrightarrow> (\<And>j. j \<in> set xs \<Longrightarrow> same h h' j) \<Longrightarrow> rep h' l xs"
    and bounded: "rep h l xs \<Longrightarrow> x \<in> set xs \<Longrightarrow> x < pool_size h"
    and dist: "rep h l xs \<Longrightarrow> distinct xs"
begin

text \<open>Moving the first node of one list to the end of another.\<close>

lemma move_first:
  assumes "rep h u (x # xs)" "rep h f ys" "set (x # xs) \<inter> set ys = {}"
  shows "\<exists>h1 u1 h2 f2. rem_first (h, u) = (Some x, h1, u1) \<and> add_end (Some x) (h1, f) = (h2, f2) \<and>
    rep h2 u1 xs \<and> rep h2 f2 (ys @ [x]) \<and> pool_size h2 = pool_size h \<and> data h2 = data h"
proof -
  obtain h1 u1 where 1: "rem_first (h, u) = (Some x, h1, u1)" "rep h1 u1 xs" "pool_size h1 = pool_size h"
    "data h1 = data h" "\<And>j. j \<notin> set (x # xs) \<Longrightarrow> same h h1 j"
    using first_Cons [OF assms(1)] by metis
  have out: "j \<in> set ys \<Longrightarrow> j \<notin> set (x # xs)" for j using assms(3) by auto
  have f1: "rep h1 f ys" by (rule frame [OF assms(2) 1(3)]) (rule 1(5), rule out)
  have x: "x \<notin> set ys" "x < pool_size h1" "x \<notin> set xs"
    using assms(3) bounded [OF assms(1)] dist [OF assms(1)] 1(3) by auto
  obtain h2 f2 where 2: "add_end (Some x) (h1, f) = (h2, f2)" "rep h2 f2 (ys @ [x])"
    "pool_size h2 = pool_size h1" "data h2 = data h1" "\<And>j. j \<notin> set (ys @ [x]) \<Longrightarrow> same h1 h2 j"
    using add_snoc [OF f1 x(1,2)] by metis
  have out2: "j \<in> set xs \<Longrightarrow> j \<notin> set (ys @ [x])" for j using assms(3) x(3) by auto
  have "rep h2 u1 xs" by (rule frame [OF 1(2) 2(3)]) (rule 2(5), rule out2)
  with 1 2 show ?thesis by metis
qed

text \<open>Taking the last node of a list out and putting it back.\<close>

lemma cycle_last:
  assumes "rep h u (xs @ [x])" "rep h f ys" "set (xs @ [x]) \<inter> set ys = {}"
  shows "\<exists>h1 u1 h2 u2. rem_last (h, u) = (Some x, h1, u1) \<and> add_end (Some x) (h1, u1) = (h2, u2) \<and>
    rep h2 u2 (xs @ [x]) \<and> rep h2 f ys \<and> pool_size h1 = pool_size h \<and> pool_size h2 = pool_size h \<and>
    data h1 = data h \<and> data h2 = data h \<and> rep h1 u1 xs \<and> rep h1 f ys"
proof -
  obtain h1 u1 where 1: "rem_last (h, u) = (Some x, h1, u1)" "rep h1 u1 xs" "pool_size h1 = pool_size h"
    "data h1 = data h" "\<And>j. j \<notin> set (xs @ [x]) \<Longrightarrow> same h h1 j"
    using last_snoc [OF assms(1)] by metis
  have out: "j \<in> set ys \<Longrightarrow> j \<notin> set (xs @ [x])" for j using assms(3) by auto
  have f1: "rep h1 f ys" by (rule frame [OF assms(2) 1(3)]) (rule 1(5), rule out)
  have x: "x \<notin> set xs" "x < pool_size h1"
    using bounded [OF assms(1)] dist [OF assms(1)] 1(3) by auto
  obtain h2 u2 where 2: "add_end (Some x) (h1, u1) = (h2, u2)" "rep h2 u2 (xs @ [x])"
    "pool_size h2 = pool_size h1" "data h2 = data h1" "\<And>j. j \<notin> set (xs @ [x]) \<Longrightarrow> same h1 h2 j"
    using add_snoc [OF 1(2) x] by metis
  have "rep h2 f ys" by (rule frame [OF f1 2(3)]) (rule 2(5), rule out)
  with 1 2 f1 show ?thesis by metis
qed

end

definition same_links :: "pool \<Rightarrow> pool \<Rightarrow> nat \<Rightarrow> bool" where
  "same_links h h' j \<longleftrightarrow> node_next (h' ! j) = node_next (h ! j) \<and> node_prev (h' ! j) = node_prev (h ! j)"

interpretation dl: pool_deque remove_first remove_last add_last represents length same_links
  "\<lambda>h j. payload (h ! j)"
proof
  fix h l x xs
  assume "represents h l (x # xs)"
  then show "\<exists>h' l'. remove_first (h, l) = (Some x, h', l') \<and> represents h' l' xs \<and> length h' = length h \<and>
      (\<lambda>j. payload (h' ! j)) = (\<lambda>j. payload (h ! j)) \<and> (\<forall>j. j \<notin> set (x # xs) \<longrightarrow> same_links h h' j)"
    using remove_first_Cons [of h l x xs] by (fastforce simp: same_links_def)
next
  fix h l x xs
  assume "represents h l (xs @ [x])"
  then show "\<exists>h' l'. remove_last (h, l) = (Some x, h', l') \<and> represents h' l' xs \<and> length h' = length h \<and>
      (\<lambda>j. payload (h' ! j)) = (\<lambda>j. payload (h ! j)) \<and> (\<forall>j. j \<notin> set (xs @ [x]) \<longrightarrow> same_links h h' j)"
    using remove_last_snoc [of h l xs x] by (fastforce simp: same_links_def)
next
  fix h l x xs
  assume "represents h l xs" "x \<notin> set xs" "x < length h"
  then show "\<exists>h' l'. add_last (Some x) (h, l) = (h', l') \<and> represents h' l' (xs @ [x]) \<and> length h' = length h \<and>
      (\<lambda>j. payload (h' ! j)) = (\<lambda>j. payload (h ! j)) \<and> (\<forall>j. j \<notin> set (xs @ [x]) \<longrightarrow> same_links h h' j)"
    using add_last_snoc [of h l xs x] by (fastforce simp: same_links_def)
next
  fix h h' l xs
  assume "represents h l xs" "length h' = length h" "\<And>j. j \<in> set xs \<Longrightarrow> same_links h h' j"
  then show "represents h' l xs" by (auto simp: same_links_def intro: represents_cong)
qed (auto simp: represents_def linked_bound, simp add: linked_def)

section \<open>The handler\<close>

record panscan_handler =
  panscan_data :: "pool option"
  panscan_used :: omx_dl_list
  panscan_free :: omx_dl_list

definition new_panscan_handler :: panscan_handler where
  "new_panscan_handler = \<lparr>panscan_data = None, panscan_used = empty_list, panscan_free = empty_list\<rparr>"

text \<open>The allocator's answer, \<open>None\<close> or an array of \<open>num_data\<close> nodes, is a parameter.\<close>

definition initialize :: "(nat \<Rightarrow> pool option) \<Rightarrow> nat \<Rightarrow> panscan_handler \<Rightarrow> bool \<times> panscan_handler" where
  "initialize malloc num_data p =
     (case panscan_data p of
        Some _ \<Rightarrow> (False, p)
      | None \<Rightarrow>
          (case malloc num_data of
             None \<Rightarrow> (False, p)
           | Some h \<Rightarrow>
               (let (h1, f1) = add_multiple [0..<num_data] (h, panscan_free p)
                in (True, p\<lparr>panscan_data := Some h1, panscan_free := f1\<rparr>))))"

text \<open>
  The operations below run on the pool and the two lists; the parser reaches them only with an
  initialised handler (its constructor drops the handler otherwise).
\<close>

type_synonym panscan_state = "pool \<times> omx_dl_list \<times> omx_dl_list"

definition get_free :: "panscan_state \<Rightarrow> nat option \<times> panscan_state" where
  "get_free = (\<lambda>(h, u, f).
     let last = watch_last u;
         (node, h1, u1, f1) =
           (if (case last of None \<Rightarrow> True | Some n \<Rightarrow> VALID_TS (start_ts (h ! n)))
            then (case remove_first (h, f) of (d, h', f') \<Rightarrow> (d, h', u, f'))
            else (case remove_last (h, u) of (d, h', u') \<Rightarrow> (d, h', u', f)))
     in case node of
          None \<Rightarrow> (None, h1, u1, f1)
        | Some n \<Rightarrow>
            (let h2 = upd_node n (\<lambda>x. x\<lparr>start_ts := LLONG_MAX, end_ts := LLONG_MAX,
                   pan_scan_param := (pan_scan_param x)\<lparr>rect_id := NO_PAN_SCAN_BIT\<rparr>,
                   active := False\<rparr>) h1;
                 (h3, u3) = add_last (Some n) (h2, u1)
             in (Some n, h3, u3, f1)))"

partial_function (option) populated_loop ::
  "int \<Rightarrow> nat option \<Rightarrow> panscan_state \<Rightarrow> (nat option \<times> panscan_state) option" where
  "populated_loop frame_ts node s =
     (case node of
        None \<Rightarrow> Some (None, s)
      | Some n \<Rightarrow>
          (case s of (h, u, f) \<Rightarrow>
            (if VALID_TS (start_ts (h ! n)) then
               (let h1 = (if active (h ! n) \<and> frame_ts < start_ts (h ! n)
                          then upd_node n (\<lambda>x. x\<lparr>start_ts := frame_ts\<rparr>) h else h)
                in if start_ts (h1 ! n) \<le> frame_ts then
                     (if frame_ts < end_ts (h1 ! n)
                      then Some (Some n, upd_node n (\<lambda>x. x\<lparr>active := True\<rparr>) h1, u, f)
                      else (case remove_first (h1, u) of (d, h2, u2) \<Rightarrow>
                             (case add_last d (h2, f) of (h3, f3) \<Rightarrow>
                                populated_loop frame_ts (watch_first u2) (h3, u2, f3))))
                   else Some (None, h1, u, f))
             else Some (Some n, upd_node n (\<lambda>x. x\<lparr>active := True\<rparr>) h, u, f))))"

definition get_populated :: "int \<Rightarrow> panscan_state \<Rightarrow> (nat option \<times> panscan_state) option" where
  "get_populated frame_ts = (\<lambda>(h, u, f).
     case populated_loop frame_ts (watch_first u) (h, u, f) of
       None \<Rightarrow> None
     | Some (None, s) \<Rightarrow> Some (None, s)
     | Some (Some n, h1, u1, f1) \<Rightarrow>
         (let period = rect_repetition_period (pan_scan_param (h1 ! n))
          in if period = 0 then
               (case remove_first (h1, u1) of (d, h2, u2) \<Rightarrow>
                 (case add_last d (h2, f1) of (h3, f3) \<Rightarrow> Some (Some n, h3, u2, f3)))
             else if period > 1 then
               Some (Some n, upd_node n (\<lambda>x. x\<lparr>pan_scan_param :=
                  (pan_scan_param x)\<lparr>rect_repetition_period := period - 2\<rparr>\<rparr>) h1, u1, f1)
             else Some (Some n, h1, u1, f1)))"

definition update_last :: "int \<Rightarrow> panscan_state \<Rightarrow> panscan_state" where
  "update_last frame_ts = (\<lambda>(h, u, f).
     case watch_last u of
       None \<Rightarrow> (h, u, f)
     | Some n \<Rightarrow>
         (if VALID_TS (start_ts (h ! n)) then (h, u, f)
          else let h1 = upd_node n (\<lambda>x. x\<lparr>start_ts := frame_ts\<rparr>) h
               in case node_prev (h1 ! n) of
                    None \<Rightarrow> (h1, u, f)
                  | Some p \<Rightarrow>
                      (if frame_ts < end_ts (h1 ! p)
                       then (upd_node p (\<lambda>x. x\<lparr>end_ts := frame_ts\<rparr>) h1, u, f)
                       else if \<not> VALID_TS frame_ts
                       then (upd_node p (\<lambda>x. x\<lparr>pan_scan_param :=
                              (pan_scan_param x)\<lparr>rect_repetition_period := 0\<rparr>\<rparr>) h1, u, f)
                       else (h1, u, f))))"

section \<open>The handler neither loses nor shares nodes\<close>

text \<open>
  \<open>xs\<close> are the nodes in use, oldest first, and \<open>ys\<close> the free ones: together every node of the
  pool exactly once.
\<close>

definition handler_ok :: "panscan_state \<Rightarrow> nat list \<Rightarrow> nat list \<Rightarrow> bool" where
  "handler_ok s xs ys \<longleftrightarrow> (case s of (h, u, f) \<Rightarrow>
     represents h u xs \<and> represents h f ys \<and> distinct (xs @ ys) \<and> set (xs @ ys) = {..<length h})"

lemma represents_upd_data:
  assumes "\<And>n. node_next (g n) = node_next n" "\<And>n. node_prev (g n) = node_prev n"
  shows "represents (upd_node i g h) l xs \<longleftrightarrow> represents h l xs"
proof -
  have "same_links h (upd_node i g h) j" for j
    using assms by (cases "i = j"; cases "i < length h")
      (auto simp: same_links_def upd_node_def list_update_beyond)
  then show ?thesis
    by (auto simp: same_links_def intro: represents_cong [where h' = h] represents_cong [where h = h])
qed

lemma handler_ok_upd_data:
  assumes "\<And>n. node_next (g n) = node_next n" "\<And>n. node_prev (g n) = node_prev n"
  shows "handler_ok (upd_node i g h, u, f) xs ys \<longleftrightarrow> handler_ok (h, u, f) xs ys"
  by (simp add: handler_ok_def represents_upd_data [OF assms])

lemma watch_first_rep: "represents h l xs \<Longrightarrow> watch_first l = option_hd xs"
  by (simp add: watch_first_def represents_def)

lemma watch_last_rep: "represents h l xs \<Longrightarrow> watch_last l = option_last xs"
  by (simp add: watch_last_def represents_def)

lemma handler_watch:
  "handler_ok (h, u, f) xs ys \<Longrightarrow> watch_first u = option_hd xs \<and> watch_last u = option_last xs"
  by (auto simp: handler_ok_def dest: watch_first_rep watch_last_rep)

lemma linked_last_prev: "linked h (xs @ [x]) \<Longrightarrow> node_prev (h ! x) = option_last xs \<and> x < length h"
  unfolding linked_def
  by (drule conjunct2, drule spec [of _ "length xs"])
    (auto simp: option_last_def last_conv_nth nth_append)

lemma handler_move_first:
  assumes "handler_ok (h, u, f) (x # xs) ys"
  shows "\<exists>h1 u1 h2 f2. remove_first (h, u) = (Some x, h1, u1) \<and> add_last (Some x) (h1, f) = (h2, f2) \<and>
    handler_ok (h2, u1, f2) xs (ys @ [x]) \<and> length h2 = length h \<and> (\<forall>j. payload (h2 ! j) = payload (h ! j))"
proof -
  have r: "represents h u (x # xs)" "represents h f ys" "set (x # xs) \<inter> set ys = {}"
    using assms by (auto simp: handler_ok_def)
  from dl.move_first [OF r] obtain h1 u1 h2 f2 where m:
    "remove_first (h, u) = (Some x, h1, u1)" "add_last (Some x) (h1, f) = (h2, f2)"
    "represents h2 u1 xs" "represents h2 f2 (ys @ [x])" "length h2 = length h"
    "(\<lambda>j. payload (h2 ! j)) = (\<lambda>j. payload (h ! j))" by metis
  moreover from m(6) have "payload (h2 ! j) = payload (h ! j)" for j by (rule fun_cong)
  moreover have "handler_ok (h2, u1, f2) xs (ys @ [x])"
    using assms m(3-5) by (auto simp: handler_ok_def)
  ultimately show ?thesis by blast
qed

definition reset_node :: "panscan_node \<Rightarrow> panscan_node" where
  "reset_node x = x\<lparr>start_ts := LLONG_MAX, end_ts := LLONG_MAX,
     pan_scan_param := (pan_scan_param x)\<lparr>rect_id := NO_PAN_SCAN_BIT\<rparr>, active := False\<rparr>"

lemma reset_node_links [simp]:
  "node_next (reset_node x) = node_next x" "node_prev (reset_node x) = node_prev x"
  "payload (reset_node x) = reset_node (payload x)"
  by (simp_all add: reset_node_def payload_def)

lemma get_free_last:
  assumes "handler_ok (h, u, f) (xs @ [n]) ys" "\<not> VALID_TS (start_ts (h ! n))"
  shows "\<exists>s'. get_free (h, u, f) = (Some n, s') \<and> handler_ok s' (xs @ [n]) ys \<and>
    (\<forall>j. payload (fst s' ! j) = (if j = n then reset_node (payload (h ! j)) else payload (h ! j)))"
proof -
  have r: "represents h u (xs @ [n])" "represents h f ys" "set (xs @ [n]) \<inter> set ys = {}"
    and n: "n < length h"
    using assms(1) by (auto simp: handler_ok_def)
  obtain h1 u1 where 1: "remove_last (h, u) = (Some n, h1, u1)" "represents h1 u1 xs" "represents h1 f ys"
    "length h1 = length h" "(\<lambda>j. payload (h1 ! j)) = (\<lambda>j. payload (h ! j))"
    using dl.cycle_last [OF r] by metis
  define h2 where "h2 = upd_node n reset_node h1"
  have r2: "represents h2 u1 xs" "represents h2 f ys" "length h2 = length h"
    using 1 by (simp_all add: h2_def represents_upd_data)
  have nx: "n \<notin> set xs" using assms(1) by (auto simp: handler_ok_def)
  obtain h3 u3 where 3: "add_last (Some n) (h2, u1) = (h3, u3)" "represents h3 u3 (xs @ [n])"
    "length h3 = length h2" "(\<lambda>j. payload (h3 ! j)) = (\<lambda>j. payload (h2 ! j))"
    "\<And>j. j \<notin> set (xs @ [n]) \<Longrightarrow> same_links h2 h3 j"
    using dl.add_snoc [OF r2(1) nx] n r2(3) by auto
  have out: "j \<in> set ys \<Longrightarrow> j \<notin> set (xs @ [n])" for j using r(3) by auto
  have f3: "represents h3 f ys" by (rule dl.frame [OF r2(2) 3(3)]) (rule 3(5), rule out)
  have g: "get_free (h, u, f) = (Some n, h3, u3, f)"
    using assms(2) watch_last_rep [OF r(1)] 1(1) 3(1)
    by (simp add: get_free_def option_last_def h2_def reset_node_def [abs_def])
  have "payload (h3 ! j) = (if j = n then reset_node (payload (h ! j)) else payload (h ! j))" for j
    using fun_cong [OF 3(4), of j] fun_cong [OF 1(5), of j] n 1(4)
    by (auto simp: h2_def upd_node_def)
  with g f3 3(2,3) r2(3) assms(1) show ?thesis by (auto simp: handler_ok_def)
qed

lemma get_free_fresh:
  assumes "handler_ok (h, u, f) xs (n # ys)" "xs = [] \<or> VALID_TS (start_ts (h ! last xs))"
  shows "\<exists>s'. get_free (h, u, f) = (Some n, s') \<and> handler_ok s' (xs @ [n]) ys \<and>
    (\<forall>j. payload (fst s' ! j) = (if j = n then reset_node (payload (h ! j)) else payload (h ! j)))"
proof -
  have r: "represents h u xs" "represents h f (n # ys)" and n: "n < length h"
    using assms(1) by (auto simp: handler_ok_def)
  obtain h1 f1 where 1: "remove_first (h, f) = (Some n, h1, f1)" "represents h1 f1 ys" "length h1 = length h"
    "(\<lambda>j. payload (h1 ! j)) = (\<lambda>j. payload (h ! j))" "\<And>j. j \<notin> set (n # ys) \<Longrightarrow> same_links h h1 j"
    using dl.first_Cons [OF r(2)] by metis
  have d: "j \<in> set xs \<Longrightarrow> j \<notin> set (n # ys)" "j \<in> set ys \<Longrightarrow> j \<notin> set (xs @ [n])" "n \<notin> set xs" for j
    using assms(1) by (auto simp: handler_ok_def)
  have u1: "represents h1 u xs" by (rule dl.frame [OF r(1) 1(3)]) (rule 1(5), rule d(1))
  define h2 where "h2 = upd_node n reset_node h1"
  have r2: "represents h2 u xs" "represents h2 f1 ys" "length h2 = length h"
    using 1 u1 by (simp_all add: h2_def represents_upd_data)
  obtain h3 u3 where 3: "add_last (Some n) (h2, u) = (h3, u3)" "represents h3 u3 (xs @ [n])"
    "length h3 = length h2" "(\<lambda>j. payload (h3 ! j)) = (\<lambda>j. payload (h2 ! j))"
    "\<And>j. j \<notin> set (xs @ [n]) \<Longrightarrow> same_links h2 h3 j"
    using dl.add_snoc [OF r2(1) d(3)] n r2(3) by auto
  have f3: "represents h3 f1 ys" by (rule dl.frame [OF r2(2) 3(3)]) (rule 3(5), rule d(2))
  have g: "get_free (h, u, f) = (Some n, h3, u3, f1)"
    using assms(2) watch_last_rep [OF r(1)] 1(1) 3(1)
    by (auto simp: get_free_def option_last_def h2_def reset_node_def [abs_def])
  have "payload (h3 ! j) = (if j = n then reset_node (payload (h ! j)) else payload (h ! j))" for j
    using fun_cong [OF 3(4), of j] fun_cong [OF 1(4), of j] n 1(3)
    by (auto simp: h2_def upd_node_def)
  with g f3 3(2,3) r2(3) assms(1) show ?thesis by (auto simp: handler_ok_def)
qed

lemma get_free_none:
  assumes "handler_ok (h, u, f) xs []" "xs = [] \<or> VALID_TS (start_ts (h ! last xs))"
  shows "get_free (h, u, f) = (None, h, u, f)"
  using assms watch_last_rep [of h u xs] remove_first_Nil [of h f]
  by (auto simp: get_free_def handler_ok_def option_last_def)

lemma payload_sel:
  "start_ts n = start_ts (payload n)" "end_ts n = end_ts (payload n)" "active n = active (payload n)"
  "pan_scan_param n = pan_scan_param (payload n)"
  by (simp_all add: payload_def)

lemma payload_eqD:
  assumes "payload a = payload b"
  shows "start_ts a = start_ts b" "end_ts a = end_ts b" "active a = active b" "pan_scan_param a = pan_scan_param b"
  using assms by (metis payload_sel)+

lemma u32_cases3:
  assumes "(x :: u32) = 0 \<Longrightarrow> P" "x = 1 \<Longrightarrow> P" "1 < x \<Longrightarrow> P"
  shows P
proof -
  have "unat x = 0 \<or> unat x = 1 \<or> 1 < unat x" by linarith
  then show P using assms by (metis unat_1 unat_eq_0 word_less_nat_alt word_unat_eq_iff)
qed

section \<open>Looking up the rectangle of a frame\<close>

text \<open>
  A rectangle is reached by \<open>ts\<close> when its start is unknown, when it was handed out before, or
  when it has started; it is expired when it is reached, its start is known and its end is not
  after \<open>ts\<close>.
\<close>

definition reached :: "int \<Rightarrow> panscan_node \<Rightarrow> bool" where
  "reached ts n \<longleftrightarrow> \<not> VALID_TS (start_ts n) \<or> active n \<or> start_ts n \<le> ts"

definition expired :: "int \<Rightarrow> panscan_node \<Rightarrow> bool" where
  "expired ts n \<longleftrightarrow> VALID_TS (start_ts n) \<and> reached ts n \<and> end_ts n \<le> ts"

lemma expired_payload: "payload a = payload b \<Longrightarrow> expired ts a = expired ts b"
  using payload_eqD [of a b] by (simp add: expired_def reached_def)

lemma reached_payload: "payload a = payload b \<Longrightarrow> reached ts a = reached ts b"
  using payload_eqD [of a b] by (simp add: reached_def)

definition loop_result :: "int \<Rightarrow> pool \<Rightarrow> nat list \<Rightarrow> nat option" where
  "loop_result ts h xs = (case xs of [] \<Rightarrow> None | n # _ \<Rightarrow> if reached ts (h ! n) then Some n else None)"

definition clamp_start :: "int \<Rightarrow> nat \<Rightarrow> pool \<Rightarrow> pool" where
  "clamp_start ts n h = (if active (h ! n) \<and> ts < start_ts (h ! n)
     then upd_node n (\<lambda>x. x\<lparr>start_ts := ts\<rparr>) h else h)"

lemma clamp_start_simps:
  assumes "n < length h"
  shows "length (clamp_start ts n h) = length h"
    "end_ts (clamp_start ts n h ! n) = end_ts (h ! n)"
    "start_ts (clamp_start ts n h ! n) \<le> ts \<longleftrightarrow> active (h ! n) \<or> start_ts (h ! n) \<le> ts"
    "j \<noteq> n \<Longrightarrow> clamp_start ts n h ! j = h ! j"
    "pan_scan_param (clamp_start ts n h ! n) = pan_scan_param (h ! n)"
    "handler_ok (clamp_start ts n h, u, f) xs ys \<longleftrightarrow> handler_ok (h, u, f) xs ys"
  using assms by (auto simp: clamp_start_def upd_node_nth handler_ok_upd_data)

lemma populated_loop_spec:
  assumes "handler_ok (h, u, f) xs ys"
  shows "\<exists>s'. populated_loop ts (option_hd xs) (h, u, f) =
      Some (loop_result ts h (dropWhile (\<lambda>n. expired ts (h ! n)) xs), s') \<and>
    handler_ok s' (dropWhile (\<lambda>n. expired ts (h ! n)) xs)
      (ys @ takeWhile (\<lambda>n. expired ts (h ! n)) xs) \<and> length (fst s') = length h \<and>
    (\<forall>j < length h. pan_scan_param (fst s' ! j) = pan_scan_param (h ! j)) \<and>
    (\<forall>j \<in> set (tl (dropWhile (\<lambda>n. expired ts (h ! n)) xs)). payload (fst s' ! j) = payload (h ! j))"
  using assms
proof (induction xs arbitrary: h u f ys)
  case Nil
  then show ?case by (subst populated_loop.simps) (auto simp: option_hd_def loop_result_def)
next
  case (Cons x xs)
  have x: "x < length h" and dx: "x \<notin> set xs" and bxs: "\<And>j. j \<in> set xs \<Longrightarrow> j < length h"
    using Cons.prems by (auto simp: handler_ok_def)
  have ne: "\<And>j. j \<in> set xs \<Longrightarrow> x \<noteq> j" using dx by auto
  note cs = clamp_start_simps [OF x]
  note step = populated_loop.simps [of ts "option_hd (x # xs)" "(h, u, f)"]
  have mk: "handler_ok (upd_node x (\<lambda>x. x\<lparr>active := True\<rparr>) h', u, f) (x # xs) ys"
    if "handler_ok (h', u, f) (x # xs) ys" for h'
    using that by (simp add: handler_ok_upd_data)
  show ?case
  proof (cases "VALID_TS (start_ts (h ! x))")
    case False
    then show ?thesis using Cons.prems mk [OF Cons.prems] ne
      by (subst step) (auto simp: option_hd_def expired_def loop_result_def reached_def upd_node_nth dest!: ne)
  next
    case True
    let ?h1 = "clamp_start ts x h"
    have ok1: "handler_ok (?h1, u, f) (x # xs) ys" using Cons.prems by (simp add: cs)
    show ?thesis
    proof (cases "expired ts (h ! x)")
      case False
      show ?thesis
      proof (cases "reached ts (h ! x)")
        case True
        with False \<open>VALID_TS _\<close> have "ts < end_ts (h ! x)" "active (h ! x) \<or> start_ts (h ! x) \<le> ts"
          by (auto simp: expired_def reached_def)
        then show ?thesis using \<open>VALID_TS _\<close> mk [OF ok1] ne True False
          by (subst step)
            (auto simp: option_hd_def loop_result_def cs upd_node_nth Let_def dest!: ne
                simp flip: clamp_start_def)
      next
        case False
        then have "\<not> (active (h ! x) \<or> start_ts (h ! x) \<le> ts)" "\<not> expired ts (h ! x)"
          by (auto simp: reached_def expired_def)
        then show ?thesis using \<open>VALID_TS _\<close> Cons.prems dx False
          by (subst step) (auto simp: option_hd_def loop_result_def)
      qed
    next
      case exp: True
      then have e: "end_ts (h ! x) \<le> ts" "active (h ! x) \<or> start_ts (h ! x) \<le> ts"
        using True by (auto simp: expired_def reached_def)
      obtain h2 u2 h3 f3 where m: "remove_first (?h1, u) = (Some x, h2, u2)"
        "add_last (Some x) (h2, f) = (h3, f3)" "handler_ok (h3, u2, f3) xs (ys @ [x])"
        "length h3 = length ?h1" "\<And>j. payload (h3 ! j) = payload (?h1 ! j)"
        using handler_move_first [OF ok1] by metis
      have pay: "payload (h3 ! j) = payload (h ! j)" if "j \<noteq> x" for j
        using m(5) [of j] that by (simp add: cs)
      have par: "pan_scan_param (h3 ! j) = pan_scan_param (h ! j)" for j
        using payload_eqD(4) [OF m(5) [of j]] by (cases "j = x") (simp_all add: cs)
      have ex: "expired ts (h3 ! j) = expired ts (h ! j)" if "j \<in> set xs" for j
        using that dx by (intro expired_payload pay) auto
      then have tw: "takeWhile (\<lambda>n. expired ts (h3 ! n)) xs = takeWhile (\<lambda>n. expired ts (h ! n)) xs"
        "dropWhile (\<lambda>n. expired ts (h3 ! n)) xs = dropWhile (\<lambda>n. expired ts (h ! n)) xs"
        by (auto cong: takeWhile_cong dropWhile_cong)
      have hd: "watch_first u2 = option_hd xs"
        using m(3) watch_first_rep [of h3 u2 xs] by (simp add: handler_ok_def)
      have lr: "loop_result ts h3 (dropWhile (\<lambda>n. expired ts (h ! n)) xs) =
          loop_result ts h (dropWhile (\<lambda>n. expired ts (h ! n)) xs)"
      proof (cases "dropWhile (\<lambda>n. expired ts (h ! n)) xs")
        case Nil
        show ?thesis unfolding Nil by (simp add: loop_result_def)
      next
        case (Cons a as)
        then have "a \<in> set xs" by (metis list.set_intros(1) set_dropWhileD)
        with dx have "a \<noteq> x" by auto
        from reached_payload [OF pay [OF this]] show ?thesis unfolding Cons by (simp add: loop_result_def)
      qed
      have run: "populated_loop ts (option_hd (x # xs)) (h, u, f) =
          populated_loop ts (option_hd xs) (h3, u2, f3)"
        using True e m(1,2) hd
        by (subst step) (simp add: option_hd_def cs Let_def flip: clamp_start_def)
      obtain s' where s': "populated_loop ts (option_hd xs) (h3, u2, f3) =
           Some (loop_result ts h (dropWhile (\<lambda>n. expired ts (h ! n)) xs), s')"
        "handler_ok s' (dropWhile (\<lambda>n. expired ts (h ! n)) xs)
           ((ys @ [x]) @ takeWhile (\<lambda>n. expired ts (h ! n)) xs)"
        "length (fst s') = length h3"
        "\<And>j. j < length h3 \<Longrightarrow> pan_scan_param (fst s' ! j) = pan_scan_param (h3 ! j)"
        "\<And>j. j \<in> set (tl (dropWhile (\<lambda>n. expired ts (h ! n)) xs)) \<Longrightarrow> payload (fst s' ! j) = payload (h3 ! j)"
        using Cons.IH [OF m(3)] unfolding tw lr by metis
      have len: "length h3 = length h" using m(4) by (simp add: cs)
      have "payload (fst s' ! j) = payload (h ! j)" if "j \<in> set (tl (dropWhile (\<lambda>n. expired ts (h ! n)) xs))" for j
      proof -
        from that have "j \<in> set (dropWhile (\<lambda>n. expired ts (h ! n)) xs)"
          by (metis list.sel(2) list.set_sel(2))
        then have "j \<in> set xs" by (rule set_dropWhileD)
        with dx have "j \<noteq> x" by auto
        with s'(5) [OF that] pay show ?thesis by simp
      qed
      with s' len exp run par show ?thesis by (intro exI [of _ s']) simp
    qed
  qed
qed

section \<open>Properties of the handler\<close>

lemma add_multiple_append:
  assumes "represents h l xs" "distinct (xs @ ds)" "\<And>d. d \<in> set ds \<Longrightarrow> d < length h"
  shows "\<exists>h' l'. add_multiple ds (h, l) = (h', l') \<and> represents h' l' (xs @ ds) \<and> length h' = length h"
  using assms
proof (induction ds arbitrary: h l xs)
  case (Cons d ds)
  from Cons.prems obtain h1 l1 where 1: "add_last (Some d) (h, l) = (h1, l1)"
    "represents h1 l1 (xs @ [d])" "length h1 = length h"
    using add_last_snoc [of h l xs d] by fastforce
  then show ?case using Cons.IH [OF 1(2)] Cons.prems(2,3) by simp
qed simp

lemma add_last_payload: "add_last p (h, l) = (h', l') \<Longrightarrow> payload (h' ! j) = payload (h ! j)"
  by (auto simp: add_last_def Let_def payload_upd_node split: option.splits)

lemma add_multiple_payload:
  "add_multiple ds (h, l) = (h', l') \<Longrightarrow> payload (h' ! j) = payload (h ! j)"
proof (induction ds arbitrary: h l)
  case (Cons d ds)
  then show ?case by (cases "add_last (Some d) (h, l)") (auto dest: add_last_payload)
qed simp

text \<open>
  A fresh handler given a pool of \<open>n\<close> nodes, whatever they contain, becomes a handler with no
  rectangle in use and every node of the pool on the free list in address order; a second
  \<open>initialize\<close> is refused and changes nothing.
\<close>
theorem initialize_all_free:
  assumes "malloc n = Some h" "length h = n"
  shows "\<exists>h1 p. initialize malloc n new_panscan_handler = (True, p) \<and> panscan_data p = Some h1 \<and>
    handler_ok (h1, panscan_used p, panscan_free p) [] [0..<n] \<and>
    (\<forall>malloc' m. initialize malloc' m p = (False, p))"
proof -
  have e: "represents k empty_list []" for k
    by (simp add: represents_def linked_def empty_list_def option_hd_def option_last_def)
  obtain h1 f1 where a: "add_multiple [0..<n] (h, empty_list) = (h1, f1)"
    "represents h1 f1 [0..<n]" "length h1 = length h"
    using add_multiple_append [OF e, of "[0..<n]" h] assms(2) by auto
  then show ?thesis using e [of h1] assms
    by (auto simp: initialize_def new_panscan_handler_def handler_ok_def)
qed

definition sample_node :: "int \<Rightarrow> int \<Rightarrow> bool \<Rightarrow> u32 \<Rightarrow> panscan_node" where
  "sample_node a b act period = \<lparr>
     pan_scan_param = \<lparr>rect_id = 0, rect_cancel_flag = 0, ps_cnt = 1, rect_left_offset = [0],
       rect_right_offset = [0], rect_top_offset = [0], rect_bottom_offset = [0],
       rect_repetition_period = period\<rparr>,
     start_ts = a, end_ts = b, active = act, node_next = None, node_prev = None\<rparr>"

theorem initialize_all_free_witness:
  "(\<lambda>n. Some (replicate n (sample_node 0 0 False 0))) 2 = Some (replicate 2 (sample_node 0 0 False 0)) \<and>
   fst (initialize (\<lambda>n. Some (replicate n (sample_node 0 0 False 0))) 2 new_panscan_handler)"
  using initialize_all_free [of "\<lambda>n. Some (replicate n (sample_node 0 0 False 0))" 2
      "replicate 2 (sample_node 0 0 False 0)"] by auto

text \<open>What every outcome of \<open>get_free\<close> has in common.\<close>

lemma get_free_ok:
  assumes "handler_ok (h, u, f) xs ys"
  shows "\<exists>r h' u' f' xs' ys'. get_free (h, u, f) = (r, h', u', f') \<and> handler_ok (h', u', f') xs' ys' \<and>
    length h' = length h \<and> set xs' = set xs \<union> set_option r \<and>
    (\<forall>j. payload (h' ! j) = (if j \<in> set_option r then reset_node (payload (h ! j)) else payload (h ! j)))"
proof -
  have eq: "length h' = length h"
    if "handler_ok (h', u', f') xs' ys'" "set (xs' @ ys') = set (xs @ ys)" for h' u' f' xs' ys'
  proof -
    have "{..<length h'} = {..<length h}" using that assms by (auto simp: handler_ok_def)
    then show ?thesis by simp
  qed
  consider (pend) zs n where "xs = zs @ [n]" "\<not> VALID_TS (start_ts (h ! n))"
    | (fresh) n zs where "xs = [] \<or> VALID_TS (start_ts (h ! last xs))" "ys = n # zs"
    | (none) "xs = [] \<or> VALID_TS (start_ts (h ! last xs))" "ys = []"
    by (cases xs rule: rev_cases; cases ys) auto
  then show ?thesis
  proof cases
    case pend
    then obtain s' where "get_free (h, u, f) = (Some n, s')" "handler_ok s' xs ys"
      "\<forall>j. payload (fst s' ! j) = (if j = n then reset_node (payload (h ! j)) else payload (h ! j))"
      using get_free_last [of h u f zs n ys] assms by auto
    then show ?thesis using pend eq [of "fst s'" "fst (snd s')" "snd (snd s')" xs ys]
      by (intro exI [of _ "Some n"] exI [of _ "fst s'"] exI [of _ "fst (snd s')"] exI [of _ "snd (snd s')"]
          exI [of _ xs] exI [of _ ys]) simp
  next
    case fresh
    then obtain s' where "get_free (h, u, f) = (Some n, s')" "handler_ok s' (xs @ [n]) zs"
      "\<forall>j. payload (fst s' ! j) = (if j = n then reset_node (payload (h ! j)) else payload (h ! j))"
      using get_free_fresh [of h u f xs n zs] assms by auto
    then show ?thesis using fresh eq [of "fst s'" "fst (snd s')" "snd (snd s')" "xs @ [n]" zs]
      by (intro exI [of _ "Some n"] exI [of _ "fst s'"] exI [of _ "fst (snd s')"] exI [of _ "snd (snd s')"]
          exI [of _ "xs @ [n]"] exI [of _ zs]) (simp add: insert_commute)
  next
    case none
    then show ?thesis using get_free_none [of h u f xs] assms
      by (intro exI [of _ None] exI [of _ h] exI [of _ u] exI [of _ f] exI [of _ xs] exI [of _ ys]) simp
  qed
qed

text \<open>
  C24. \<open>get_free\<close> on every branch. When the newest rectangle in use still waits for its timestamp
  its node is reused in place; otherwise the oldest free node is moved to the end of the used
  list; with no free node it returns null and changes nothing. The node handed out is reset, no
  other node's data changes, and the two lists stay a partition of the pool.
\<close>
theorem get_free_branches:
  assumes "handler_ok (h, u, f) xs ys"
  shows "if xs \<noteq> [] \<and> \<not> VALID_TS (start_ts (h ! last xs))
    then \<exists>s'. get_free (h, u, f) = (Some (last xs), s') \<and> handler_ok s' xs ys \<and>
      (\<forall>j. payload (fst s' ! j) = (if j = last xs then reset_node (payload (h ! j)) else payload (h ! j)))
    else (case ys of
        [] \<Rightarrow> get_free (h, u, f) = (None, h, u, f)
      | n # ys' \<Rightarrow> \<exists>s'. get_free (h, u, f) = (Some n, s') \<and> handler_ok s' (xs @ [n]) ys' \<and>
          (\<forall>j. payload (fst s' ! j) = (if j = n then reset_node (payload (h ! j)) else payload (h ! j))))"
proof (cases "xs \<noteq> [] \<and> \<not> VALID_TS (start_ts (h ! last xs))")
  case True
  then have "xs = butlast xs @ [last xs]" by simp
  with True show ?thesis using get_free_last [of h u f "butlast xs" "last xs" ys] assms by simp
next
  case False
  then have v: "xs = [] \<or> VALID_TS (start_ts (h ! last xs))" by auto
  show ?thesis
  proof (cases ys)
    case Nil
    then show ?thesis using False v get_free_none [of h u f xs] assms by simp
  next
    case (Cons n ys')
    with get_free_fresh [of h u f xs n ys'] v assms False show ?thesis by (simp only: list.case if_False)
  qed
qed

definition sample_state :: "panscan_state" where
  "sample_state = (
     [(sample_node 0 10 True 2)\<lparr>node_next := Some 1\<rparr>,
      (sample_node 10 LLONG_MAX False 5)\<lparr>node_prev := Some 0\<rparr>, sample_node 0 0 False 0],
     \<lparr>head = Some 0, tail = Some 1\<rparr>, \<lparr>head = Some 2, tail = Some 2\<rparr>)"

lemma less_2_3: "i < (2::nat) \<longleftrightarrow> i = 0 \<or> i = 1" "i < Suc 0 \<longleftrightarrow> i = 0"
  by auto

lemma sample_state_ok: "handler_ok sample_state [0, 1] [2]"
  by (auto simp: handler_ok_def sample_state_def represents_def linked_def option_hd_def option_last_def
      sample_node_def less_Suc_eq numeral_2_eq_2)

theorem get_free_branches_witness:
  "handler_ok sample_state [0, 1] [2] \<and>
   (\<exists>s'. get_free sample_state = (Some 2, s') \<and> handler_ok s' [0, 1, 2] [])"
  using get_free_branches [of "fst sample_state" "fst (snd sample_state)" "snd (snd sample_state)" "[0, 1]" "[2]"]
    sample_state_ok
  by (auto simp: sample_state_def sample_node_def VALID_TS_def LLONG_MAX_def)

lemma get_populated_spec:
  assumes "handler_ok (h, u, f) xs ys" "es = takeWhile (\<lambda>n. expired ts (h ! n)) xs"
    and "rs = dropWhile (\<lambda>n. expired ts (h ! n)) xs"
  shows "case loop_result ts h rs of
      None \<Rightarrow> \<exists>s'. get_populated ts (h, u, f) = Some (None, s') \<and> handler_ok s' rs (ys @ es) \<and>
        (\<forall>j < length h. pan_scan_param (fst s' ! j) = pan_scan_param (h ! j))
    | Some n \<Rightarrow> \<exists>s'. get_populated ts (h, u, f) = Some (Some n, s') \<and>
        (let period = rect_repetition_period (pan_scan_param (h ! n)) in
          (if period = 0 then handler_ok s' (tl rs) (ys @ es @ [n]) else handler_ok s' rs (ys @ es)) \<and>
          (\<forall>j < length h. pan_scan_param (fst s' ! j) =
             (if j = n \<and> 1 < period then (pan_scan_param (h ! j))\<lparr>rect_repetition_period := period - 2\<rparr>
              else pan_scan_param (h ! j))))"
proof -
  have w: "watch_first u = option_hd xs" using handler_watch [OF assms(1)] by simp
  obtain h1 u1 f1 where l: "populated_loop ts (option_hd xs) (h, u, f) = Some (loop_result ts h rs, h1, u1, f1)"
    "handler_ok (h1, u1, f1) rs (ys @ es)" "length h1 = length h"
    "\<And>j. j < length h \<Longrightarrow> pan_scan_param (h1 ! j) = pan_scan_param (h ! j)"
    using populated_loop_spec [OF assms(1), of ts] unfolding assms(2,3) [symmetric]
    by (metis fst_conv surj_pair)
  show ?thesis
  proof (cases "loop_result ts h rs")
    case None
    then show ?thesis using l w by (auto simp: get_populated_def)
  next
    case (Some n)
    then obtain rs' where rs: "rs = n # rs'" by (auto simp: loop_result_def split: list.splits if_splits)
    have n: "n < length h" using l(2,3) by (auto simp: handler_ok_def rs)
    define period where "period = rect_repetition_period (pan_scan_param (h ! n))"
    have p: "rect_repetition_period (pan_scan_param (h1 ! n)) = period"
      using l(4) [OF n] by (simp add: period_def)
    obtain h2 u2 h3 f3 where m: "remove_first (h1, u1) = (Some n, h2, u2)"
      "add_last (Some n) (h2, f1) = (h3, f3)" "handler_ok (h3, u2, f3) rs' ((ys @ es) @ [n])"
      "\<And>j. payload (h3 ! j) = payload (h1 ! j)"
      using handler_move_first [OF l(2) [unfolded rs]] by metis
    note par = payload_eqD(4) [OF m(4)]
    consider "period = 0" | "period = 1" | "1 < period" by (rule u32_cases3)
    then show ?thesis
    proof cases
      case 1
      then show ?thesis using Some l w p m par
        by (simp add: get_populated_def Let_def period_def [symmetric] rs)
    next
      case 2
      then show ?thesis using Some l w p
        by (simp add: get_populated_def Let_def period_def [symmetric] rs)
    next
      case 3
      then have "period \<noteq> 0" by auto
      then show ?thesis using Some l w p 3 n
        by (auto simp: get_populated_def Let_def period_def [symmetric] rs handler_ok_upd_data upd_node_nth)
    qed
  qed
qed

text \<open>
  C23. \<open>get_populated\<close> terminates. It moves exactly the expired rectangles at the front of the used
  list to the free list, in order, and returns the first remaining one when its time is reached
  (null otherwise). The rectangle returned is retired when its repetition period is 0 and has the
  period reduced by 2 when it exceeds 1; no other rectangle changes and the lists stay a
  partition of the pool.
\<close>
theorem get_populated_result:
  assumes "handler_ok (h, u, f) xs ys" "es = takeWhile (\<lambda>n. expired ts (h ! n)) xs"
    and "rs = dropWhile (\<lambda>n. expired ts (h ! n)) xs"
  shows "case loop_result ts h rs of
      None \<Rightarrow> \<exists>s'. get_populated ts (h, u, f) = Some (None, s') \<and> handler_ok s' rs (ys @ es) \<and>
        (\<forall>j < length h. pan_scan_param (fst s' ! j) = pan_scan_param (h ! j))
    | Some n \<Rightarrow> \<exists>s'. get_populated ts (h, u, f) = Some (Some n, s') \<and>
        (let period = rect_repetition_period (pan_scan_param (h ! n)) in
          (if period = 0 then handler_ok s' (tl rs) (ys @ es @ [n]) else handler_ok s' rs (ys @ es)) \<and>
          (\<forall>j < length h. pan_scan_param (fst s' ! j) =
             (if j = n \<and> 1 < period then (pan_scan_param (h ! j))\<lparr>rect_repetition_period := period - 2\<rparr>
              else pan_scan_param (h ! j))))"
  by (rule get_populated_spec [OF assms])

theorem get_populated_result_witness:
  "handler_ok sample_state [0, 1] [2] \<and>
   (\<exists>s'. get_populated 12 sample_state = Some (Some 1, s') \<and> handler_ok s' [1] [2, 0])"
  using get_populated_result [of "fst sample_state" "fst (snd sample_state)" "snd (snd sample_state)"
      "[0, 1]" "[2]" "[0]" 12 "[1]"] sample_state_ok
  by (auto simp: sample_state_def sample_node_def VALID_TS_def LLONG_MAX_def expired_def reached_def
      loop_result_def Let_def)

text \<open>
  \<open>update_last\<close> gives the newest rectangle its start time only when it has none yet; it then
  closes the preceding rectangle at that time (or cancels its repetition when the time is
  unknown), changes no other node and keeps both lists.
\<close>
theorem update_last_result:
  assumes "handler_ok (h, u, f) xs ys"
  shows "case update_last ts (h, u, f) of (h', u', f') \<Rightarrow> handler_ok (h', u', f') xs ys \<and>
    (if xs = [] \<or> VALID_TS (start_ts (h ! last xs)) then h' = h
     else start_ts (h' ! last xs) = ts \<and>
       (\<forall>j. j \<noteq> last xs \<longrightarrow> butlast xs = [] \<or> j \<noteq> last (butlast xs) \<longrightarrow> h' ! j = h ! j) \<and>
       (butlast xs \<noteq> [] \<longrightarrow> (let p = last (butlast xs) in
          start_ts (h' ! p) = start_ts (h ! p) \<and> end_ts (h' ! p) = min ts (end_ts (h ! p)) \<and>
          rect_repetition_period (pan_scan_param (h' ! p)) =
            (if end_ts (h ! p) \<le> ts \<and> \<not> VALID_TS ts then 0
             else rect_repetition_period (pan_scan_param (h ! p))))))"
proof (cases "xs = [] \<or> VALID_TS (start_ts (h ! last xs))")
  case True
  then show ?thesis using assms watch_last_rep [of h u xs]
    by (auto simp: update_last_def handler_ok_def option_last_def)
next
  case False
  define n where "n = last xs"
  have xs: "xs = butlast xs @ [n]" and w: "watch_last u = Some n" and n: "n < length h"
    and lk: "linked h xs"
    using False assms watch_last_rep [of h u xs]
    by (auto simp: n_def handler_ok_def option_last_def represents_def)
  have nv: "\<not> VALID_TS (start_ts (h ! n))" using False by (simp add: n_def)
  have pv: "node_prev (h ! n) = option_last (butlast xs)"
    using linked_last_prev [of h "butlast xs" n] lk xs by simp
  show ?thesis
  proof (cases "butlast xs = []")
    case True
    then show ?thesis using False w nv pv n assms
      by (auto simp: update_last_def Let_def option_last_def upd_node_nth handler_ok_upd_data
          simp flip: n_def)
  next
    case ne: False
    define p where "p = last (butlast xs)"
    have p: "p \<in> set (butlast xs)" using ne by (simp add: p_def)
    have "distinct xs" using lk by (simp add: linked_def)
    then have pn: "p \<noteq> n" using p xs by (metis distinct.simps(2) distinct_append disjoint_iff list.set_intros(1))
    have pb: "p < length h" using lk p in_set_butlastD linked_bound by metis
    show ?thesis using False w nv pv n assms ne pn pb
      by (auto simp: update_last_def Let_def option_last_def upd_node_nth handler_ok_upd_data
          simp flip: n_def p_def)
  qed
qed

definition pending_state :: panscan_state where
  "pending_state = (case sample_state of (h, u, f) \<Rightarrow> (upd_node 1 (\<lambda>x. x\<lparr>start_ts := LLONG_MAX\<rparr>) h, u, f))"

lemma pending_state_ok: "handler_ok pending_state [0, 1] [2]"
  using sample_state_ok by (auto simp: pending_state_def handler_ok_upd_data split: prod.split)

theorem update_last_result_witness:
  "handler_ok pending_state [0, 1] [2] \<and> end_ts (fst (update_last 7 pending_state) ! 0) = 7"
  using update_last_result [of "fst pending_state" "fst (snd pending_state)" "snd (snd pending_state)"
      "[0, 1]" "[2]" 7] pending_state_ok
  by (auto simp: pending_state_def sample_state_def upd_node_def sample_node_def VALID_TS_def LLONG_MAX_def
      Let_def split: prod.splits)

end
