(* ===== verification/H264Syntax.thy ===== *)
theory H264Syntax
  imports H264Codes PanScan FramePack "HOL-Library.Monad_Syntax" "HOL-Library.Signed_Division"
begin

text \<open>
  The syntax parsers of \<open>h264_stream_parser\<close> (vdec/src/h264_utils.cpp): VUI, HRD, SPS and the SEI
  messages, and \<open>parse_nal\<close>, which drives them. An operation maps a parser state to its result
  and the new state; \<open>None\<close> stands for a fault (a null handler or an access outside an array) or
  for a loop that does not end.
\<close>

section \<open>Parser state\<close>

record h264_hrd_param =
  cpb_cnt :: u32
  bit_rate_scale :: u8
  cpb_size_scale :: u8
  bit_rate_value :: "u32 list"
  cpb_size_value :: "u32 list"
  cbr_flag :: "u8 list"
  initial_cpb_removal_delay_length :: u8
  cpb_removal_delay_length :: u8
  dpb_output_delay_length :: u8
  time_offset_length :: u8

record h264_aspect_ratio_info =
  aspect_ratio_idc :: u32
  aspect_ratio_x :: u32
  aspect_ratio_y :: u32

record h264_vui_param =
  aspect_ratio_info_present_flag :: u8
  vui_aspect_ratio :: h264_aspect_ratio_info
  timing_info_present_flag :: u8
  num_units_in_tick :: u32
  time_scale :: u32
  fixed_frame_rate_flag :: u8
  nal_hrd_parameters_present_flag :: u8
  nal_hrd_parameters :: h264_hrd_param
  vcl_hrd_parameters_present_flag :: u8
  vcl_hrd_parameters :: h264_hrd_param
  low_delay_hrd_flag :: u8
  pic_struct_present_flag :: u8
  fixed_fps_prev_ts :: int

record h264_sei_pic_timing =
  cpb_removal_delay :: u32
  dpb_output_delay :: u32
  pic_struct :: u8
  num_clock_ts :: u32
  clock_ts_flag :: bool
  ct_type :: u8
  nuit_field_based_flag :: u32
  counting_type :: u8
  full_timestamp_flag :: u8
  discontinuity_flag :: u8
  cnt_dropped_flag :: u8
  n_frames :: u32
  seconds_value :: u32
  minutes_value :: u32
  hours_value :: u32
  time_offset :: u32
  pic_timing_is_valid :: bool

record h264_sei_buf_period =
  initial_cpb_removal_delay :: "u32 list"
  initial_cpb_removal_delay_offset :: "u32 list"
  au_cntr :: u32
  reference_ts :: int
  buf_period_is_valid :: bool

record h264_parser = bitreader +
  vui_param :: h264_vui_param
  sei_buf_period :: h264_sei_buf_period
  sei_pic_timing :: h264_sei_pic_timing
  panscan_hdl :: "panscan_state option"
  frame_packing_arrangement :: frame_pack
  mbaff_flag :: bool

definition MAX_CPB_COUNT :: nat where "MAX_CPB_COUNT = 32"
definition MAX_PAN_SCAN_RECT :: nat where "MAX_PAN_SCAN_RECT = 3"

datatype sei_payload_type = BUFFERING_PERIOD | PIC_TIMING | PAN_SCAN_RECT
  | SEI_PAYLOAD_FRAME_PACKING_ARRANGEMENT | OTHER_PAYLOAD

definition payload_kind :: "u32 \<Rightarrow> sei_payload_type" where
  "payload_kind n = (if n = 0 then BUFFERING_PERIOD else if n = 1 then PIC_TIMING
     else if n = 2 then PAN_SCAN_RECT
     else if n = 0x2D then SEI_PAYLOAD_FRAME_PACKING_ARRANGEMENT else OTHER_PAYLOAD)"

definition NALU_TYPE_UNSPECIFIED :: nat where "NALU_TYPE_UNSPECIFIED = 0"
definition NALU_TYPE_SEI :: nat where "NALU_TYPE_SEI = 6"
definition NALU_TYPE_SPS :: nat where "NALU_TYPE_SPS = 7"
definition NALU_TYPE_VUI :: nat where "NALU_TYPE_VUI = 14"

text \<open>Writing an array element; \<open>None\<close> outside the array.\<close>

definition put :: "nat \<Rightarrow> 'a \<Rightarrow> 'a list \<Rightarrow> 'a list option" where
  "put i x xs = (if i < length xs then Some (xs[i := x]) else None)"

definition zero_hrd :: h264_hrd_param where
  "zero_hrd = \<lparr>cpb_cnt = 0, bit_rate_scale = 0, cpb_size_scale = 0,
     bit_rate_value = replicate MAX_CPB_COUNT 0, cpb_size_value = replicate MAX_CPB_COUNT 0,
     cbr_flag = replicate MAX_CPB_COUNT 0, initial_cpb_removal_delay_length = 0,
     cpb_removal_delay_length = 0, dpb_output_delay_length = 0, time_offset_length = 0\<rparr>"

definition zero_vui :: h264_vui_param where
  "zero_vui = \<lparr>aspect_ratio_info_present_flag = 0,
     vui_aspect_ratio = \<lparr>aspect_ratio_idc = 0, aspect_ratio_x = 0, aspect_ratio_y = 0\<rparr>,
     timing_info_present_flag = 0, num_units_in_tick = 0, time_scale = 0, fixed_frame_rate_flag = 0,
     nal_hrd_parameters_present_flag = 0, nal_hrd_parameters = zero_hrd,
     vcl_hrd_parameters_present_flag = 0, vcl_hrd_parameters = zero_hrd, low_delay_hrd_flag = 0,
     pic_struct_present_flag = 0, fixed_fps_prev_ts = 0\<rparr>"

definition zero_buf_period :: h264_sei_buf_period where
  "zero_buf_period = \<lparr>initial_cpb_removal_delay = replicate MAX_CPB_COUNT 0,
     initial_cpb_removal_delay_offset = replicate MAX_CPB_COUNT 0, au_cntr = 0, reference_ts = 0,
     buf_period_is_valid = False\<rparr>"

definition zero_pic_timing :: h264_sei_pic_timing where
  "zero_pic_timing = \<lparr>cpb_removal_delay = 0, dpb_output_delay = 0, pic_struct = 0, num_clock_ts = 0,
     clock_ts_flag = False, ct_type = 0, nuit_field_based_flag = 0, counting_type = 0,
     full_timestamp_flag = 0, discontinuity_flag = 0, cnt_dropped_flag = 0, n_frames = 0,
     seconds_value = 0, minutes_value = 0, hours_value = 0, time_offset = 0,
     pic_timing_is_valid = False\<rparr>"

text \<open>\<open>reset\<close> leaves only the pan-scan handler as it was.\<close>

definition reset :: "h264_parser \<Rightarrow> h264_parser" where
  "reset s = s\<lparr>curr_32_bit := 0, bits_read := 0, zero_cntr := 0, emulation_code_skip_cntr := 0,
     emulation_sc_enabled := True, bitstream := [],
     vui_param := zero_vui\<lparr>fixed_fps_prev_ts := LLONG_MAX\<rparr>, sei_buf_period := zero_buf_period,
     sei_pic_timing := zero_pic_timing,
     frame_packing_arrangement := zero_frame_pack\<lparr>cancel_flag := 1\<rparr>, mbaff_flag := False\<rparr>"

definition new_h264_stream_parser :: "(nat \<Rightarrow> pool option) \<Rightarrow> h264_parser \<Rightarrow> h264_parser" where
  "new_h264_stream_parser malloc raw =
     (case initialize malloc 10 new_panscan_handler of
        (True, p) \<Rightarrow> (reset raw)\<lparr>panscan_hdl :=
           map_option (\<lambda>h. (h, panscan_used p, panscan_free p)) (panscan_data p)\<rparr>
      | (False, _) \<Rightarrow> (reset raw)\<lparr>panscan_hdl := None\<rparr>)"

section \<open>Reads whose value is not used\<close>

definition skip_bits :: "nat \<Rightarrow> 'a bitreader_scheme \<Rightarrow> 'a bitreader_scheme" where
  "skip_bits n s = snd (extract_bits n s)"

definition skip_ue :: "'a bitreader_scheme \<Rightarrow> 'a bitreader_scheme" where
  "skip_ue s = snd (uev s)"

definition skip_se :: "'a bitreader_scheme \<Rightarrow> 'a bitreader_scheme" where
  "skip_se s = snd (sev s)"

section \<open>VUI and HRD parameters\<close>

function discard_zeros :: "'a bitreader_scheme \<Rightarrow> 'a bitreader_scheme" where
  "discard_zeros s =
     (let (b, s1) = extract_bits 1 s in if b = 0 \<and> more_bits s1 then discard_zeros s1 else s1)"
  by pat_completeness auto
termination
  by (relation "measure bits_left") (auto dest: extract_bits_progress [of 1, simplified] simp: prod_eq_iff)

declare discard_zeros.simps [simp del]

definition aspect_ratio_table :: "u32 \<Rightarrow> u32 \<times> u32" where
  "aspect_ratio_table idc =
     (if idc = 1 then (1, 1) else if idc = 2 then (12, 11) else if idc = 3 then (10, 11)
      else if idc = 4 then (16, 11) else if idc = 5 then (40, 33) else if idc = 6 then (24, 11)
      else if idc = 7 then (20, 11) else if idc = 8 then (32, 11) else if idc = 9 then (80, 33)
      else if idc = 10 then (18, 11) else if idc = 11 then (15, 11) else if idc = 12 then (64, 33)
      else if idc = 13 then (160, 99) else if idc = 14 then (4, 3) else if idc = 15 then (3, 2)
      else if idc = 16 then (2, 1) else (0, 0))"

definition aspect_ratio_info :: "h264_parser \<Rightarrow> h264_parser" where
  "aspect_ratio_info s =
     (let (idc, s) = extract_bits 8 s;
          ((x, y), s) = (if idc = 255
             then let (x, s) = extract_bits 16 s; (y, s) = extract_bits 16 s in ((x, y), s)
             else (aspect_ratio_table idc, s))
      in s\<lparr>vui_param := (vui_param s)\<lparr>vui_aspect_ratio :=
            \<lparr>aspect_ratio_idc = idc, aspect_ratio_x = x, aspect_ratio_y = y\<rparr>\<rparr>\<rparr>)"

fun hrd_loop :: "nat \<Rightarrow> nat \<Rightarrow> h264_hrd_param \<Rightarrow> h264_parser \<Rightarrow> (h264_hrd_param \<times> h264_parser) option" where
  "hrd_loop idx 0 h s = Some (h, s)"
| "hrd_loop idx (Suc k) h s =
     (if more_bits s then do {
        let (v, s) = uev s;
        brv \<leftarrow> put idx (v + 1) (bit_rate_value h);
        let (v, s) = uev s;
        csv \<leftarrow> put idx (v + 1) (cpb_size_value h);
        let (v, s) = extract_bits 1 s;
        cf \<leftarrow> put idx (ucast v) (cbr_flag h);
        hrd_loop (Suc idx) k (h\<lparr>bit_rate_value := brv, cpb_size_value := csv, cbr_flag := cf\<rparr>) s
      } else Some (h, s))"

definition hrd_parameters :: "h264_hrd_param \<Rightarrow> h264_parser \<Rightarrow> (h264_hrd_param \<times> h264_parser) option" where
  "hrd_parameters h s = do {
     let (v, s) = uev s;
     let (brs, s) = extract_bits 4 s;
     let (css, s) = extract_bits 4 s;
     let h = h\<lparr>cpb_cnt := v + 1, bit_rate_scale := ucast brs, cpb_size_scale := ucast css\<rparr>;
     if unat (cpb_cnt h) > MAX_CPB_COUNT then Some (h, s)
     else do {
       (h, s) \<leftarrow> hrd_loop 0 (unat (cpb_cnt h)) h s;
       let (a, s) = extract_bits 5 s;
       let (b, s) = extract_bits 5 s;
       let (c, s) = extract_bits 5 s;
       let (d, s) = extract_bits 5 s;
       Some (h\<lparr>initial_cpb_removal_delay_length := ucast (a + 1),
               cpb_removal_delay_length := ucast (b + 1),
               dpb_output_delay_length := ucast (c + 1), time_offset_length := ucast d\<rparr>, s)
     }
   }"

definition upd_vui :: "(h264_vui_param \<Rightarrow> h264_vui_param) \<Rightarrow> h264_parser \<Rightarrow> h264_parser" where
  "upd_vui f s = s\<lparr>vui_param := f (vui_param s)\<rparr>"

text \<open>The fields of \<open>parse_vui\<close> before the timing information.\<close>

definition vui_video_signal :: "h264_parser \<Rightarrow> h264_parser" where
  "vui_video_signal s =
     (let (b, s) = extract_bits 1 s;
          s = (if b \<noteq> 0 then skip_bits 1 s else s);
          (b, s) = extract_bits 1 s;
          s = (if b \<noteq> 0 then
                 let s = skip_bits 1 (skip_bits 3 s); (c, s) = extract_bits 1 s
                 in if c \<noteq> 0 then skip_bits 8 (skip_bits 8 (skip_bits 8 s)) else s
               else s);
          (b, s) = extract_bits 1 s
      in if b \<noteq> 0 then skip_ue (skip_ue s) else s)"

definition vui_timing :: "h264_parser \<Rightarrow> h264_parser" where
  "vui_timing s =
     (let (b, s) = extract_bits 1 s;
          s = upd_vui (timing_info_present_flag_update (\<lambda>_. ucast b)) s
      in if b \<noteq> 0 then
           let (n, s) = extract_bits 32 s;
               (t, s) = extract_bits 32 s;
               (f, s) = extract_bits 1 s
           in upd_vui (\<lambda>v. v\<lparr>num_units_in_tick := n, time_scale := t, fixed_frame_rate_flag := ucast f\<rparr>) s
         else s)"

definition vui_hrd :: "h264_parser \<Rightarrow> h264_parser option" where
  "vui_hrd s = do {
     let (nb, s) = extract_bits 1 s;
     let s = upd_vui (nal_hrd_parameters_present_flag_update (\<lambda>_. ucast nb)) s;
     s \<leftarrow> (if nb \<noteq> 0 then do {
             (h, s) \<leftarrow> hrd_parameters (nal_hrd_parameters (vui_param s)) s;
             Some (upd_vui (nal_hrd_parameters_update (\<lambda>_. h)) s)
           } else Some s);
     let (vb, s) = extract_bits 1 s;
     let s = upd_vui (vcl_hrd_parameters_present_flag_update (\<lambda>_. ucast vb)) s;
     s \<leftarrow> (if vb \<noteq> 0 then do {
             (h, s) \<leftarrow> hrd_parameters (vcl_hrd_parameters (vui_param s)) s;
             Some (upd_vui (vcl_hrd_parameters_update (\<lambda>_. h)) s)
           } else Some s);
     if nb \<noteq> 0 \<or> vb \<noteq> 0 then
       let (b, s) = extract_bits 1 s in Some (upd_vui (low_delay_hrd_flag_update (\<lambda>_. ucast b)) s)
     else Some s
   }"

definition parse_vui :: "bool \<Rightarrow> h264_parser \<Rightarrow> h264_parser option" where
  "parse_vui vui_in_extradata s = do {
     let s = (if vui_in_extradata then discard_zeros s else s);
     if \<not> more_bits s then Some s
     else do {
       let (b, s) = extract_bits 1 s;
       let s = upd_vui (aspect_ratio_info_present_flag_update (\<lambda>_. ucast b)) s;
       let s = (if b \<noteq> 0 then aspect_ratio_info s else s);
       s \<leftarrow> vui_hrd (vui_timing (vui_video_signal s));
       let (b, s) = extract_bits 1 s;
       let s = upd_vui (pic_struct_present_flag_update (\<lambda>_. ucast b)) s;
       let (b, s) = extract_bits 1 s;
       Some (if b \<noteq> 0
             then skip_ue (skip_ue (skip_ue (skip_ue (skip_ue (skip_ue (skip_bits 1 s))))))
             else s)
     }
   }"

section \<open>Sequence parameter sets\<close>

text \<open>
  \<open>scaling_list\<close> on two's complement words: signed overflow of \<open>last_scale + delta_scale + 256\<close>
  is undefined in C and modelled as wrap-around; the remainder truncates towards zero.
\<close>

definition scale_next :: "u32 \<Rightarrow> u32 \<Rightarrow> u32" where
  "scale_next last_scale delta_scale = word_of_int (sint (last_scale + delta_scale + 256) smod 256)"

fun scaling_loop :: "nat \<Rightarrow> u32 \<Rightarrow> u32 \<Rightarrow> h264_parser \<Rightarrow> h264_parser" where
  "scaling_loop 0 last_scale next_scale s = s"
| "scaling_loop (Suc k) last_scale next_scale s =
     (let (next_scale, s) = (if next_scale \<noteq> 0
            then let (delta_scale, s) = sev s in (scale_next last_scale delta_scale, s)
            else (next_scale, s))
      in scaling_loop k (if next_scale = 0 then last_scale else next_scale) next_scale s)"

definition scaling_list :: "nat \<Rightarrow> h264_parser \<Rightarrow> h264_parser" where
  "scaling_list size_of_scaling_list s = scaling_loop size_of_scaling_list 8 8 s"

fun scaling_matrix :: "nat \<Rightarrow> nat \<Rightarrow> h264_parser \<Rightarrow> h264_parser" where
  "scaling_matrix i 0 s = s"
| "scaling_matrix i (Suc k) s =
     (if more_bits s then
        let (b, s) = extract_bits 1 s;
            s = (if b \<noteq> 0 then (if i < 6 then scaling_list 16 s else scaling_list 64 s) else s)
        in scaling_matrix (Suc i) k s
      else s)"

definition high_profile :: "u32 \<Rightarrow> bool" where
  "high_profile p \<longleftrightarrow> p \<in> {100, 110, 122, 244, 44, 83, 86, 118}"

text \<open>Both branches on \<open>chroma_format_idc\<close> set \<open>scaling_matrix_limit\<close> to 12.\<close>

definition sps_high_profile :: "h264_parser \<Rightarrow> h264_parser" where
  "sps_high_profile s =
     (let (c, s) = uev s;
          s = (if c = 3 then skip_bits 1 s else s);
          s = skip_bits 1 (skip_ue (skip_ue s));
          (b, s) = extract_bits 1 s
      in if b \<noteq> 0 then scaling_matrix 0 12 s else s)"

definition sps_pic_order :: "h264_parser \<Rightarrow> h264_parser" where
  "sps_pic_order s =
     (let (t, s) = uev s
      in if t = 0 then skip_ue s
         else if t = 1 then
           let (n, s) = uev (skip_se (skip_se (skip_bits 1 s)))
           in (skip_se ^^ unat n) s
         else s)"

definition parse_sps :: "h264_parser \<Rightarrow> h264_parser option" where
  "parse_sps s = do {
     let (profile, s) = extract_bits 8 s;
     let s = skip_ue (skip_bits 8 (skip_bits 8 s));
     let s = (if high_profile profile then sps_high_profile s else s);
     let s = sps_pic_order (skip_ue s);
     let s = skip_ue (skip_ue (skip_bits 1 (skip_ue s)));
     let (frame_mbs_only, s) = extract_bits 1 s;
     let s = (if frame_mbs_only = 0
              then let (b, s) = extract_bits 1 s in s\<lparr>mbaff_flag := (b \<noteq> 0)\<rparr> else s);
     let s = skip_bits 1 s;
     let (b, s) = extract_bits 1 s;
     let s = (if b \<noteq> 0 then skip_ue (skip_ue (skip_ue (skip_ue s))) else s);
     let (b, s) = extract_bits 1 s;
     if b \<noteq> 0 then parse_vui False s else Some s
   }"

section \<open>SEI messages\<close>

fun buf_period_loop ::
  "nat \<Rightarrow> nat \<Rightarrow> nat \<Rightarrow> h264_sei_buf_period \<Rightarrow> h264_parser \<Rightarrow> (h264_sei_buf_period \<times> h264_parser) option" where
  "buf_period_loop len idx 0 p s = Some (p, s)"
| "buf_period_loop len idx (Suc k) p s = do {
     let (a, s) = extract_bits len s;
     d \<leftarrow> put idx a (initial_cpb_removal_delay p);
     let (b, s) = extract_bits len s;
     e \<leftarrow> put idx b (initial_cpb_removal_delay_offset p);
     buf_period_loop len (Suc idx) k
       (p\<lparr>buf_period_is_valid := True, initial_cpb_removal_delay := d,
          initial_cpb_removal_delay_offset := e\<rparr>) s
   }"

text \<open>
  The delays of one HRD (NAL, then VCL); the boolean tells that the count was refused, on which
  \<open>sei_buffering_period\<close> returns.
\<close>

definition buf_period_hrd ::
  "h264_hrd_param \<Rightarrow> h264_sei_buf_period \<Rightarrow> h264_parser \<Rightarrow> (bool \<times> h264_sei_buf_period \<times> h264_parser) option" where
  "buf_period_hrd h p s =
     (if unat (cpb_cnt h) > MAX_CPB_COUNT then Some (True, p, s)
      else do {
        (p, s) \<leftarrow> buf_period_loop (unat (initial_cpb_removal_delay_length h)) 0 (unat (cpb_cnt h)) p s;
        Some (False, p, s)
      })"

definition sei_buffering_period :: "h264_parser \<Rightarrow> h264_parser option" where
  "sei_buffering_period s = do {
     let (v, s) = uev s;
     if 31 < v then Some s
     else do {
       let v = vui_param s;
       let p = (sei_buf_period s)\<lparr>buf_period_is_valid := False\<rparr>;
       (bad, p, s) \<leftarrow> (if nal_hrd_parameters_present_flag v \<noteq> 0
          then buf_period_hrd (nal_hrd_parameters v) p s else Some (False, p, s));
       if bad then Some (s\<lparr>sei_buf_period := p\<rparr>)
       else do {
         (bad, p, s) \<leftarrow> (if vcl_hrd_parameters_present_flag v \<noteq> 0
            then buf_period_hrd (vcl_hrd_parameters v) p s else Some (False, p, s));
         if bad then Some (s\<lparr>sei_buf_period := p\<rparr>)
         else Some (s\<lparr>sei_buf_period := p\<lparr>au_cntr := 0\<rparr>\<rparr>)
       }
     }
   }"

definition timing_lengths :: "h264_vui_param \<Rightarrow> nat \<times> nat \<times> nat" where
  "timing_lengths v =
     (if nal_hrd_parameters_present_flag v \<noteq> 0 then
        (let h = nal_hrd_parameters v in
         (unat (cpb_removal_delay_length h), unat (dpb_output_delay_length h), unat (time_offset_length h)))
      else if vcl_hrd_parameters_present_flag v \<noteq> 0 then
        (let h = vcl_hrd_parameters v in
         (unat (cpb_removal_delay_length h), unat (dpb_output_delay_length h), unat (time_offset_length h)))
      else (24, 24, 0))"

definition clock_hms :: "h264_sei_pic_timing \<Rightarrow> h264_parser \<Rightarrow> h264_sei_pic_timing \<times> h264_parser" where
  "clock_hms t s =
     (if full_timestamp_flag t \<noteq> 0 then
        let (x, s) = extract_bits 6 s; (y, s) = extract_bits 6 s; (z, s) = extract_bits 5 s
        in (t\<lparr>seconds_value := x, minutes_value := y, hours_value := z\<rparr>, s)
      else
        let (sf, s) = extract_bits 1 s
        in if sf = 0 then (t, s)
           else let (x, s) = extract_bits 6 s; (mf, s) = extract_bits 1 s
             in if mf = 0 then (t\<lparr>seconds_value := x\<rparr>, s)
                else let (y, s) = extract_bits 6 s; (hf, s) = extract_bits 1 s
                  in if hf = 0 then (t\<lparr>seconds_value := x, minutes_value := y\<rparr>, s)
                     else let (z, s) = extract_bits 5 s
                       in (t\<lparr>seconds_value := x, minutes_value := y, hours_value := z\<rparr>, s))"

definition clock_timestamp ::
  "nat \<Rightarrow> h264_sei_pic_timing \<Rightarrow> h264_parser \<Rightarrow> h264_sei_pic_timing \<times> h264_parser" where
  "clock_timestamp time_offset_len t s =
     (let (cf, s) = extract_bits 1 s; t = t\<lparr>clock_ts_flag := (cf \<noteq> 0)\<rparr>
      in if cf = 0 then (t, s)
         else
           let (ct, s) = extract_bits 2 s; (nu, s) = extract_bits 1 s; (co, s) = extract_bits 5 s;
               (fu, s) = extract_bits 1 s; (di, s) = extract_bits 1 s; (cd, s) = extract_bits 1 s;
               (nf, s) = extract_bits 8 s;
               t = t\<lparr>ct_type := ucast ct, nuit_field_based_flag := nu, counting_type := ucast co,
                     full_timestamp_flag := ucast fu, discontinuity_flag := ucast di,
                     cnt_dropped_flag := ucast cd, n_frames := nf,
                     seconds_value := 0, minutes_value := 0, hours_value := 0\<rparr>;
               (t, s) = clock_hms t s;
               (off, s) = (if time_offset_len > 0 then iv time_offset_len s else (0, s))
           in (t\<lparr>time_offset := off\<rparr>, s))"

fun clock_loop ::
  "nat \<Rightarrow> nat \<Rightarrow> h264_sei_pic_timing \<Rightarrow> h264_parser \<Rightarrow> h264_sei_pic_timing \<times> h264_parser" where
  "clock_loop len 0 t s = (t, s)"
| "clock_loop len (Suc k) t s =
     (if more_bits s then let (t, s) = clock_timestamp len t s in clock_loop len k t s else (t, s))"

definition num_clock_ts_of :: "u8 \<Rightarrow> u32" where
  "num_clock_ts_of ps = (if ps \<in> {0, 1, 2} then 1 else if ps \<in> {3, 4, 7} then 2
     else if ps \<in> {5, 6, 8} then 3 else 0)"

definition sei_picture_timing :: "h264_parser \<Rightarrow> h264_parser" where
  "sei_picture_timing s =
     (let (cpb_removal_len, dpb_output_len, time_offset_len) = timing_lengths (vui_param s);
          (c, s) = extract_bits cpb_removal_len s;
          (d, s) = extract_bits dpb_output_len s;
          t = (sei_pic_timing s)\<lparr>pic_timing_is_valid := True, cpb_removal_delay := c, dpb_output_delay := d\<rparr>;
          (t, s) = (if pic_struct_present_flag (vui_param s) \<noteq> 0 then
             let (ps, s) = extract_bits 4 s;
                 n = num_clock_ts_of (ucast ps);
                 t = t\<lparr>pic_struct := ucast ps, num_clock_ts := n\<rparr>
             in clock_loop time_offset_len (unat n) t s
           else (t, s))
      in s\<lparr>sei_pic_timing := t\<rparr>)"

fun rect_loop :: "nat \<Rightarrow> nat \<Rightarrow> h264_pan_scan \<Rightarrow> h264_parser \<Rightarrow> (h264_pan_scan \<times> h264_parser) option" where
  "rect_loop i 0 p s = Some (p, s)"
| "rect_loop i (Suc k) p s = do {
     let (a, s) = sev s;
     l \<leftarrow> put i a (rect_left_offset p);
     let (a, s) = sev s;
     r \<leftarrow> put i a (rect_right_offset p);
     let (a, s) = sev s;
     t \<leftarrow> put i a (rect_top_offset p);
     let (a, s) = sev s;
     b \<leftarrow> put i a (rect_bottom_offset p);
     rect_loop (Suc i) k
       (p\<lparr>rect_left_offset := l, rect_right_offset := r, rect_top_offset := t, rect_bottom_offset := b\<rparr>) s
   }"

definition parse_rect :: "h264_pan_scan \<Rightarrow> h264_parser \<Rightarrow> (h264_pan_scan \<times> h264_parser) option" where
  "parse_rect p s = do {
     let (v, s) = uev s;
     let p = p\<lparr>rect_id := v\<rparr>;
     if 0xFF < v then Some (p\<lparr>rect_id := NO_PAN_SCAN_BIT\<rparr>, s)
     else do {
       let (c, s) = extract_bits 1 s;
       let p = p\<lparr>rect_cancel_flag := ucast c\<rparr>;
       if c \<noteq> 0 then Some (p\<lparr>rect_id := NO_PAN_SCAN_BIT\<rparr>, s)
       else do {
         let (n, s) = uev s;
         let p = p\<lparr>ps_cnt := n + 1\<rparr>;
         if unat (n + 1) > MAX_PAN_SCAN_RECT then Some (p\<lparr>rect_id := NO_PAN_SCAN_BIT\<rparr>, s)
         else do {
           (p, s) \<leftarrow> rect_loop 0 (unat (n + 1)) p s;
           let (r, s) = uev s;
           Some (p\<lparr>rect_repetition_period := (if 1 < r then r * 2 else r)\<rparr>, s)
         }
       }
     }
   }"

text \<open>The rectangle is written through the pointer returned by \<open>get_free\<close>.\<close>

definition sei_pan_scan :: "h264_parser \<Rightarrow> h264_parser option" where
  "sei_pan_scan s = do {
     ps \<leftarrow> panscan_hdl s;
     case get_free ps of
       (None, ps) \<Rightarrow> Some (s\<lparr>panscan_hdl := Some ps\<rparr>)
     | (Some n, h, u, f) \<Rightarrow> do {
         (p, s) \<leftarrow> parse_rect (pan_scan_param (h ! n)) s;
         Some (s\<lparr>panscan_hdl := Some (upd_node n (pan_scan_param_update (\<lambda>_. p)) h, u, f)\<rparr>)
       }
   }"

definition frame_pack_grid :: "frame_pack \<Rightarrow> h264_parser \<Rightarrow> frame_pack \<times> h264_parser" where
  "frame_pack_grid f s =
     (let (a, s) = extract_bits 4 s; (b, s) = extract_bits 4 s;
          (c, s) = extract_bits 4 s; (d, s) = extract_bits 4 s
      in (f\<lparr>frame0_grid_position_x := a, frame0_grid_position_y := b,
            frame1_grid_position_x := c, frame1_grid_position_y := d\<rparr>, s))"

definition frame_pack_tail :: "frame_pack \<Rightarrow> h264_parser \<Rightarrow> frame_pack \<times> h264_parser" where
  "frame_pack_tail f s =
     (let (a, s) = extract_bits 8 s; (b, s) = uev s
      in (f\<lparr>reserved_byte := a, repetition_period := b\<rparr>, s))"

definition frame_pack_body :: "frame_pack \<Rightarrow> h264_parser \<Rightarrow> frame_pack \<times> h264_parser" where
  "frame_pack_body f s =
     (let (a, s) = extract_bits 7 s; (b, s) = extract_bits 1 s; (c, s) = extract_bits 6 s;
          (d, s) = extract_bits 1 s; (e, s) = extract_bits 1 s; (g, s) = extract_bits 1 s;
          (h, s) = extract_bits 1 s; (i, s) = extract_bits 1 s; (j, s) = extract_bits 1 s;
          f = f\<lparr>fp_type := a, quincunx_sampling_flag := b, content_interpretation_type := c,
                spatial_flipping_flag := d, frame0_flipped_flag := e, field_views_flag := g,
                current_frame_is_frame0_flag := h, frame0_self_contained_flag := i,
                frame1_self_contained_flag := j\<rparr>
      in if quincunx_sampling_flag f = 0 \<and> fp_type f \<noteq> 5
         then case frame_pack_grid f s of (f, s) \<Rightarrow> frame_pack_tail f s
         else frame_pack_tail f s)"

definition parse_frame_pack :: "h264_parser \<Rightarrow> h264_parser" where
  "parse_frame_pack s =
     (let f = frame_packing_arrangement s;
          (a, s) = uev s; (c, s) = extract_bits 1 s;
          f = f\<lparr>fp_id := a, cancel_flag := c\<rparr>;
          (f, s) = (if c = 0 then frame_pack_body f s else (f, s));
          (a, s) = extract_bits 1 s
      in s\<lparr>frame_packing_arrangement := f\<lparr>extension_flag := a\<rparr>\<rparr>)"

text \<open>A payload type or size: bytes \<open>0xFF\<close> continue the number; \<open>n\<close> counts the bytes.\<close>

lemma extract_8_left:
  assumes "extract_bits 8 s = (v, s1)" "v \<noteq> 0"
  shows "bits_left s1 < bits_left s"
proof (cases "bits_left s = 0")
  case False
  then show ?thesis using extract_bits_progress [of 8 s] assms(1)
    by (cases "more_bits s1") (auto simp: more_bits_def bits_left_def)
next
  case True
  then have b: "bits_read s = 0" "bitstream s = []" by (auto simp: bits_left_def)
  have "v = shr32 (shr32 (curr_32_bit s) 24) 8"
    using assms(1) b by (auto simp: extract_bits_def Let_def read_word_def shl32_def shr32_def)
  moreover have "unat (shr32 (shr32 (curr_32_bit s) 24) 8) = unat (curr_32_bit s) div 2 ^ 24 div 2 ^ 8"
    by (simp add: unat_shr32)
  moreover have "\<dots> = 0"
    using unat_less_32 [of "curr_32_bit s"] by (simp add: div_mult2_eq [symmetric])
  ultimately have "v = 0" using unat_eq_0 by metis
  with assms(2) show ?thesis by simp
qed

function ff_coded :: "u32 \<Rightarrow> u32 \<Rightarrow> 'a bitreader_scheme \<Rightarrow> u32 \<times> u32 \<times> 'a bitreader_scheme" where
  "ff_coded acc n s =
     (let (v, s1) = extract_bits 8 s
      in if v = 0xFF then ff_coded (acc + v) (n + 1) s1 else (acc + v, n + 1, s1))"
  by pat_completeness auto
termination
  by (relation "measure (\<lambda>(_, _, s). bits_left s)") (auto dest: extract_8_left [OF sym])

declare ff_coded.simps [simp del]

definition sei_payload :: "u32 \<Rightarrow> h264_parser \<Rightarrow> h264_parser option" where
  "sei_payload payload_type s =
     (case payload_kind payload_type of
        BUFFERING_PERIOD \<Rightarrow> sei_buffering_period s
      | PIC_TIMING \<Rightarrow> Some (sei_picture_timing s)
      | PAN_SCAN_RECT \<Rightarrow> sei_pan_scan s
      | SEI_PAYLOAD_FRAME_PACKING_ARRANGEMENT \<Rightarrow> Some (parse_frame_pack s)
      | OTHER_PAYLOAD \<Rightarrow> Some s)"

text \<open>
  The loop of \<open>parse_sei\<close>; \<open>msg\<close> is the buffer at entry. With 32-bit \<open>processed_bytes\<close> a huge
  payload size can wrap the counter, so the loop is partial; a start outside the buffer is a
  fault.
\<close>

partial_function (option) parse_sei_loop ::
  "u8 list \<Rightarrow> u32 \<Rightarrow> h264_parser \<Rightarrow> h264_parser option" where
  "parse_sei_loop msg processed s =
     (if processed + 2 < of_nat (length msg) \<and> more_bits s then
        if unat processed > length msg then None
        else (let s = init_bitstream (drop (unat processed) msg) s;
             (payload_type, n1, s) = ff_coded 0 0 s;
             (payload_size, n2, s) = ff_coded 0 0 s
         in Option.bind (if payload_size > 0 then sei_payload payload_type s else Some s)
              (\<lambda>s. parse_sei_loop msg
                 (processed + n1 + n2 + (payload_size + of_nat (emulation_code_skip_cntr s))) s))
      else Some s)"

definition parse_sei :: "h264_parser \<Rightarrow> h264_parser option" where
  "parse_sei s = parse_sei_loop (bitstream s) 0 s"

section \<open>Entry points\<close>

text \<open>The payload handed to the SEI parser must lie inside the NAL unit.\<close>

definition parse_nal :: "u8 list \<Rightarrow> nat \<Rightarrow> bool \<Rightarrow> h264_parser \<Rightarrow> h264_parser option" where
  "parse_nal data nal_type enable_emu_sc s =
     (if data = [] then Some s
      else do {
        let s = (init_bitstream data s)\<lparr>emulation_sc_enabled := enable_emu_sc\<rparr>;
        let ((nal_unit_type, cons_bytes), s) =
          (if nal_type \<noteq> NALU_TYPE_VUI then get_nal_unit_type s else ((NALU_TYPE_UNSPECIFIED, 0), s));
        if nal_type \<noteq> NALU_TYPE_VUI \<and> nal_type \<noteq> nal_unit_type \<and> nal_type \<noteq> NALU_TYPE_UNSPECIFIED
        then Some s
        else if nal_type = NALU_TYPE_SPS then do {
          s \<leftarrow> (if more_bits s then parse_sps s else Some s);
          ps \<leftarrow> panscan_hdl s;
          Some (s\<lparr>panscan_hdl := Some (snd (get_free ps))\<rparr>)
        }
        else if nal_type = NALU_TYPE_SEI then
          (if cons_bytes \<le> length data then parse_sei (init_bitstream (drop cons_bytes data) s)
           else None)
        else if nal_type = NALU_TYPE_VUI then parse_vui True s
        else Some s
      })"

definition update_panscan_data :: "int \<Rightarrow> h264_parser \<Rightarrow> h264_parser option" where
  "update_panscan_data timestamp s = do {
     ps \<leftarrow> panscan_hdl s;
     Some (s\<lparr>panscan_hdl := Some (update_last timestamp ps)\<rparr>)
   }"

definition get_frame_pack_data :: "h264_parser \<Rightarrow> frame_pack" where
  "get_frame_pack_data s = frame_packing_arrangement s"

definition is_mbaff :: "h264_parser \<Rightarrow> bool" where
  "is_mbaff s = mbaff_flag s"

text \<open>The caller's \<open>frame_rate\<close> is left alone without timing data; a zero divisor faults.\<close>

definition get_frame_rate :: "h264_parser \<Rightarrow> u32 \<Rightarrow> u32 option" where
  "get_frame_rate s frame_rate =
     (let n = num_units_in_tick (vui_param s)
      in if n \<noteq> 0 then (if 2 * n = 0 then None else Some (time_scale (vui_param s) div (2 * n)))
         else Some frame_rate)"

definition fill_aspect_ratio_info :: "(u32 \<times> u32) option \<Rightarrow> h264_parser \<Rightarrow> (u32 \<times> u32) option" where
  "fill_aspect_ratio_info dest s =
     (case dest of
        Some d \<Rightarrow> Some (if aspect_ratio_info_present_flag (vui_param s) \<noteq> 0
          then (aspect_ratio_x (vui_aspect_ratio (vui_param s)),
                aspect_ratio_y (vui_aspect_ratio (vui_param s))) else d)
      | None \<Rightarrow> None)"

text \<open>A window as \<open>(x, y, dx, dy)\<close>; reading outside an offset array is a fault.\<close>

definition get_at :: "nat \<Rightarrow> 'a list \<Rightarrow> 'a option" where
  "get_at i xs = (if i < length xs then Some (xs ! i) else None)"

fun fill_windows :: "nat \<Rightarrow> nat \<Rightarrow> h264_pan_scan \<Rightarrow> (u32 \<times> u32 \<times> u32 \<times> u32) list option" where
  "fill_windows i 0 p = Some []"
| "fill_windows i (Suc k) p = do {
     x \<leftarrow> get_at i (rect_left_offset p);
     y \<leftarrow> get_at i (rect_top_offset p);
     dx \<leftarrow> get_at i (rect_right_offset p);
     dy \<leftarrow> get_at i (rect_bottom_offset p);
     ws \<leftarrow> fill_windows (Suc i) k p;
     Some ((x, y, dx, dy) # ws)
   }"

text \<open>The windows written to the destination, \<open>None\<close> inside when it is left alone.\<close>

definition fill_pan_scan_data ::
  "int \<Rightarrow> h264_parser \<Rightarrow> ((u32 \<times> u32 \<times> u32 \<times> u32) list option \<times> h264_parser) option" where
  "fill_pan_scan_data timestamp s = do {
     ps \<leftarrow> panscan_hdl s;
     (r, h, u, f) \<leftarrow> get_populated timestamp ps;
     case r of
       None \<Rightarrow> Some (None, s\<lparr>panscan_hdl := Some (h, u, f)\<rparr>)
     | Some n \<Rightarrow>
         (let p = pan_scan_param (h ! n) in
          if rect_id p AND NO_PAN_SCAN_BIT = 0 then do {
            ws \<leftarrow> fill_windows 0 (unat (ps_cnt p)) p;
            Some (Some ws, s\<lparr>panscan_hdl := Some (h, u, f)\<rparr>)
          } else
            Some (None, s\<lparr>panscan_hdl := Some
              (upd_node n (pan_scan_param_update (rect_repetition_period_update (\<lambda>_. 0))) h, u, f)\<rparr>))
   }"

end
