(* ===== verification/H264Decode.thy ===== *)
theory H264Decode
  imports H264Syntax
begin

text \<open>
  What the syntax functions return on well-formed input: the frame packing and HRD parsers invert
  the corresponding H.264 syntax, over the contract of the bit reader.
\<close>

section \<open>Stepping through a syntax function\<close>

text \<open>\<open>at m s bs\<close>: the reader of \<open>s\<close> stands before \<open>bs\<close>, and \<open>m\<close> is the rest of the state.\<close>

definition at :: "'a \<Rightarrow> 'a bitreader_scheme \<Rightarrow> bool list \<Rightarrow> bool" where
  "at m s bs \<longleftrightarrow> window_ok s \<and> stream_bits s = bs \<and> bitreader.more s = m"

lemma at_extract:
  assumes "at m s (fld n x @ ys)" "n \<le> 32" "unat x < 2 ^ n"
  shows "\<exists>s'. extract_bits n s = (x, s') \<and> at m s' ys"
  using h264.rd_field [of s n "unat x" ys] assms extract_more [of n s]
  by (auto simp: at_def fld_def rd_h264_def)

lemma at_uev:
  assumes "at m s (ue_bits (unat x) @ ys)" "x < 0xFFFFFFFF"
  shows "\<exists>s'. uev s = (x, s') \<and> at m s' ys"
proof -
  have "unat x + 1 < 2 ^ 32" using assms(2) by (simp add: word_less_nat_alt)
  then show ?thesis
    using h264.ue_decodes [of s "unat x" ys] assms(1) uev_more [of s] by (auto simp: at_def)
qed

lemma fld_let:
  assumes "at m s (fld n x @ ys)" "n \<le> 32" "unat x < 2 ^ n" "\<And>s'. at m s' ys \<Longrightarrow> P (f x s')"
  shows "P (let (v, s') = extract_bits n s in f v s')"
  using at_extract [OF assms(1-3)] assms(4) by auto

lemma ue_let:
  assumes "at m s (ue_bits (unat x) @ ys)" "x < 0xFFFFFFFF" "\<And>s'. at m s' ys \<Longrightarrow> P (f x s')"
  shows "P (let (v, s') = uev s in f v s')"
  using at_uev [OF assms(1,2)] assms(3) by auto

section \<open>Frame packing\<close>

definition decoded ::
  "'b \<Rightarrow> 'a \<Rightarrow> bool list \<Rightarrow> 'b \<times> 'a bitreader_scheme \<Rightarrow> bool" where
  "decoded g m bs r \<longleftrightarrow> fst r = g \<and> at m (snd r) bs"

lemmas decoded_fld = fld_let [where P = "decoded g m' bs" for g m' bs]
lemmas decoded_ue = ue_let [where P = "decoded g m' bs" for g m' bs]

lemma frame_pack_grid_decodes:
  assumes "at m s (grid_bits f @ ys)" "frame_pack_wf f"
  shows "decoded (g\<lparr>frame0_grid_position_x := frame0_grid_position_x f,
      frame0_grid_position_y := frame0_grid_position_y f, frame1_grid_position_x := frame1_grid_position_x f,
      frame1_grid_position_y := frame1_grid_position_y f\<rparr>) m ys (frame_pack_grid g s)"
  unfolding frame_pack_grid_def
  apply (rule decoded_fld, rule assms(1) [unfolded grid_bits_def append_assoc], simp,
      rule frame_pack_widths [OF assms(2)])
  apply (rule decoded_fld, assumption, simp, rule frame_pack_widths [OF assms(2)])+
  by (simp add: decoded_def)

lemma frame_pack_tail_decodes:
  assumes "at m s (fld 8 (reserved_byte f) @ ue_bits (unat (repetition_period f)) @ ys)" "frame_pack_wf f"
  shows "decoded (g\<lparr>reserved_byte := reserved_byte f, repetition_period := repetition_period f\<rparr>) m ys
    (frame_pack_tail g s)"
  unfolding frame_pack_tail_def
  apply (rule decoded_fld, rule assms(1), simp, rule frame_pack_widths [OF assms(2)])
  apply (rule decoded_ue, assumption)
  using assms(2) by (simp_all add: decoded_def frame_pack_wf_def)

lemma frame_pack_body_decodes:
  assumes "at m s (body_bits f @ ys)" "frame_pack_wf f"
  shows "decoded (body_over g f) m ys (frame_pack_body g s)"
proof -
  let ?h = "g\<lparr>fp_type := fp_type f, quincunx_sampling_flag := quincunx_sampling_flag f,
      content_interpretation_type := content_interpretation_type f,
      spatial_flipping_flag := spatial_flipping_flag f, frame0_flipped_flag := frame0_flipped_flag f,
      field_views_flag := field_views_flag f, current_frame_is_frame0_flag := current_frame_is_frame0_flag f,
      frame0_self_contained_flag := frame0_self_contained_flag f,
      frame1_self_contained_flag := frame1_self_contained_flag f\<rparr>"
  have rest: "decoded (body_over g f) m ys
      (let h = ?h in if quincunx_sampling_flag h = 0 \<and> fp_type h \<noteq> 5
        then case frame_pack_grid h t of (h, t) \<Rightarrow> frame_pack_tail h t else frame_pack_tail h t)"
    if t: "at m t ((if has_grid f then grid_bits f else []) @ fld 8 (reserved_byte f) @
      ue_bits (unat (repetition_period f)) @ ys)" for t
  proof (cases "has_grid f")
    case True
    obtain h2 t2 where 2: "frame_pack_grid ?h t = (h2, t2)" by force
    from frame_pack_grid_decodes [of m t f _ ?h] t True assms(2) 2
    have "decoded (h2\<lparr>reserved_byte := reserved_byte f, repetition_period := repetition_period f\<rparr>) m ys
        (frame_pack_tail h2 t2)"
      by (intro frame_pack_tail_decodes) (auto simp: decoded_def)
    moreover have "h2\<lparr>reserved_byte := reserved_byte f, repetition_period := repetition_period f\<rparr> = body_over g f"
      using frame_pack_grid_decodes [of m t f _ ?h] t True assms(2) 2
      by (auto simp: decoded_def body_over_def Let_def)
    ultimately show ?thesis using True 2 by (simp add: has_grid_def)
  next
    case False
    then have "decoded (?h\<lparr>reserved_byte := reserved_byte f, repetition_period := repetition_period f\<rparr>) m ys
        (frame_pack_tail ?h t)"
      using t assms(2) by (intro frame_pack_tail_decodes) simp_all
    moreover have "?h\<lparr>reserved_byte := reserved_byte f, repetition_period := repetition_period f\<rparr> = body_over g f"
      using False by (simp add: body_over_def Let_def)
    ultimately show ?thesis using False by (auto simp: has_grid_def Let_def)
  qed
  show ?thesis
    unfolding frame_pack_body_def
    apply (rule decoded_fld, rule assms(1) [unfolded body_bits_def append_assoc], simp,
        rule frame_pack_widths [OF assms(2)])
    apply (rule decoded_fld, assumption, simp, rule frame_pack_widths [OF assms(2)])+
    by (rule rest)
qed

lemma parse_frame_pack_at:
  assumes "at m s (frame_pack_bits f @ rest)" "frame_pack_wf f"
  shows "frame_packing_arrangement (parse_frame_pack s) =
    frame_pack_over (frame_packing_arrangement s) f \<and> stream_bits (parse_frame_pack s) = rest"
proof -
  let ?g = "(frame_packing_arrangement s)\<lparr>fp_id := fp_id f, cancel_flag := cancel_flag f\<rparr>"
  obtain s1 where s1: "uev s = (fp_id f, s1)"
    "at m s1 (fld 1 (cancel_flag f) @ (if cancel_flag f = 0 then body_bits f else []) @
      fld 1 (extension_flag f) @ rest)"
    using at_uev [OF assms(1) [unfolded frame_pack_bits_def append_assoc]] assms(2)
    by (auto simp: frame_pack_wf_def)
  obtain s2 where s2: "extract_bits 1 s1 = (cancel_flag f, s2)"
    "at m s2 ((if cancel_flag f = 0 then body_bits f else []) @ fld 1 (extension_flag f) @ rest)"
    using at_extract [OF s1(2)] frame_pack_widths [OF assms(2)] by auto
  define g' where "g' = (if cancel_flag f = 0 then body_over ?g f else ?g)"
  obtain s3 where s3: "(if cancel_flag f = 0 then frame_pack_body ?g s2 else (?g, s2)) = (g', s3)"
    "at m s3 (fld 1 (extension_flag f) @ rest)"
    using frame_pack_body_decodes [of m s2 f _ ?g] s2(2) assms(2)
    by (cases "cancel_flag f = 0") (auto simp: decoded_def g'_def prod_eq_iff)
  obtain s4 where s4: "extract_bits 1 s3 = (extension_flag f, s4)" "at m s4 rest"
    using at_extract [OF s3(2)] frame_pack_widths [OF assms(2)] by auto
  have "g'\<lparr>extension_flag := extension_flag f\<rparr> = frame_pack_over (frame_packing_arrangement s) f"
    by (simp add: g'_def frame_pack_over_def body_over_def Let_def)
  moreover have "parse_frame_pack s = s4\<lparr>frame_packing_arrangement := g'\<lparr>extension_flag := extension_flag f\<rparr>\<rparr>"
    using s1(1) s2(1) s3(1) s4(1) unfolding parse_frame_pack_def Let_def by simp
  ultimately show ?thesis using s4(2)
    by (simp add: at_def stream_bits_def window_bits_def payload_bits_def)
qed

text \<open>
  C32. The frame packing parser inverts the SEI payload syntax: on a stream that starts with the
  encoding of \<open>f\<close> it stores every field present in the message, keeps the old value of the fields
  that are absent, and consumes exactly that encoding.
\<close>
theorem parse_frame_pack_decodes:
  assumes "window_ok s" "stream_bits s = frame_pack_bits f @ rest" "frame_pack_wf f"
  shows "frame_packing_arrangement (parse_frame_pack s) = frame_pack_over (frame_packing_arrangement s) f \<and>
    stream_bits (parse_frame_pack s) = rest"
  using assms by (intro parse_frame_pack_at) (auto simp: at_def)

definition blank_parser :: h264_parser where
  "blank_parser = \<lparr>curr_32_bit = 0, bits_read = 0, zero_cntr = 0, emulation_code_skip_cntr = 0,
     emulation_sc_enabled = True, bitstream = [], vui_param = zero_vui, sei_buf_period = zero_buf_period,
     sei_pic_timing = zero_pic_timing, panscan_hdl = None, frame_packing_arrangement = zero_frame_pack,
     mbaff_flag = False\<rparr>"

lemma sample_pack_stream:
  "stream_bits (init_bitstream [0x60, 0x60, 0, 0, 9, 7, 0x40] blank_parser) =
   frame_pack_bits sample_pack @ replicate 4 False"
  by (simp add: init_bitstream_ok blank_parser_def frame_pack_bits_def body_bits_def grid_bits_def
      has_grid_def fld_def sample_pack_def zero_frame_pack_def byte_bits_def ue_bits_def ue_zeros_def
      nbits.simps biteval)

theorem parse_frame_pack_decodes_witness:
  "frame_pack_wf sample_pack \<and>
   frame_packing_arrangement (parse_frame_pack (init_bitstream [0x60, 0x60, 0, 0, 9, 7, 0x40] blank_parser)) =
     sample_pack"
  using parse_frame_pack_decodes [OF init_bitstream_ok(1) sample_pack_stream sample_pack_wf] sample_pack_wf
  by (simp add: frame_pack_over_def has_grid_def sample_pack_def zero_frame_pack_def)

section \<open>HRD parameters\<close>

text \<open>One schedule entry: bit rate minus 1, buffer size minus 1, constant bit rate flag.\<close>

type_synonym hrd_entry = "u32 \<times> u32 \<times> u32"

definition entry_bits :: "hrd_entry \<Rightarrow> bool list" where
  "entry_bits e = (case e of (r, c, f) \<Rightarrow> ue_bits (unat r) @ ue_bits (unat c) @ fld 1 f)"

definition entry_wf :: "hrd_entry \<Rightarrow> bool" where
  "entry_wf e \<longleftrightarrow> (case e of (r, c, f) \<Rightarrow> r < 0xFFFFFFFF \<and> c < 0xFFFFFFFF \<and> f < 2)"

definition hrd_bits :: "u32 \<Rightarrow> u32 \<Rightarrow> hrd_entry list \<Rightarrow> u32 \<Rightarrow> u32 \<Rightarrow> u32 \<Rightarrow> u32 \<Rightarrow> bool list" where
  "hrd_bits brs css es a b c d = ue_bits (length es - 1) @ fld 4 brs @ fld 4 css @
     concat (map entry_bits es) @ fld 5 a @ fld 5 b @ fld 5 c @ fld 5 d"

definition hrd_written :: "nat \<Rightarrow> hrd_entry list \<Rightarrow> h264_hrd_param \<Rightarrow> h264_hrd_param" where
  "hrd_written i es h = h\<lparr>bit_rate_value := overwrite i (map (\<lambda>(r, c, f). r + 1) es) (bit_rate_value h),
     cpb_size_value := overwrite i (map (\<lambda>(r, c, f). c + 1) es) (cpb_size_value h),
     cbr_flag := overwrite i (map (\<lambda>(r, c, f). ucast f) es) (cbr_flag h)\<rparr>"

lemma ue_bits_nonempty: "ue_bits k \<noteq> []"
  by (simp add: ue_bits_split)

lemma hrd_loop_decodes:
  assumes "at m s (concat (map entry_bits es) @ ys)" "\<forall>e \<in> set es. entry_wf e"
    and "i + length es \<le> length (bit_rate_value h)" "i + length es \<le> length (cpb_size_value h)"
    and "i + length es \<le> length (cbr_flag h)"
  shows "\<exists>s'. hrd_loop i (length es) h s = Some (hrd_written i es h, s') \<and> at m s' ys"
  using assms
proof (induction es arbitrary: i h s)
  case Nil
  then show ?case by (simp add: hrd_written_def)
next
  case (Cons e es)
  obtain r c f where e: "e = (r, c, f)" by (cases e)
  have wf: "r < 0xFFFFFFFF" "c < 0xFFFFFFFF" "unat f < 2 ^ 1"
    using Cons.prems(2) by (auto simp: e entry_wf_def word_less_nat_alt)
  have s0: "at m s (ue_bits (unat r) @ ue_bits (unat c) @ fld 1 f @ concat (map entry_bits es) @ ys)"
    using Cons.prems(1) by (simp add: e entry_bits_def [of "(r, c, f)"])
  then have more: "more_bits s" by (intro stream_more_bits) (auto simp: at_def ue_bits_nonempty)
  obtain s1 where s1: "uev s = (r, s1)" "at m s1 (ue_bits (unat c) @ fld 1 f @ concat (map entry_bits es) @ ys)"
    using at_uev [OF s0 wf(1)] by blast
  obtain s2 where s2: "uev s1 = (c, s2)" "at m s2 (fld 1 f @ concat (map entry_bits es) @ ys)"
    using at_uev [OF s1(2) wf(2)] by blast
  obtain s3 where s3: "extract_bits 1 s2 = (f, s3)" "at m s3 (concat (map entry_bits es) @ ys)"
    using at_extract [OF s2(2) _ wf(3)] by auto
  let ?h = "h\<lparr>bit_rate_value := (bit_rate_value h)[i := r + 1], cpb_size_value := (cpb_size_value h)[i := c + 1],
    cbr_flag := (cbr_flag h)[i := ucast f]\<rparr>"
  obtain s' where s': "hrd_loop (Suc i) (length es) ?h s3 = Some (hrd_written (Suc i) es ?h, s')" "at m s' ys"
    using Cons.IH [OF s3(2), of "Suc i" ?h] Cons.prems(2-5) by auto
  have "hrd_written (Suc i) es ?h = hrd_written i (e # es) h"
    using Cons.prems(3-5) by (simp add: hrd_written_def e overwrite_Cons)
  moreover have "hrd_loop i (length (e # es)) h s = hrd_loop (Suc i) (length es) ?h s3"
    using more s1(1) s2(1) s3(1) Cons.prems(3-5) by (simp add: put_def)
  ultimately show ?case using s' by simp
qed

text \<open>
  C33. The HRD parser inverts the HRD syntax with up to 32 schedule entries: it stores each entry
  incremented by one at its index, leaves the other array elements alone, stores the four length
  fields and consumes exactly the encoding.
\<close>
theorem hrd_parameters_decodes:
  assumes "window_ok s" "stream_bits s = hrd_bits brs css es a b c d @ rest"
    and "es \<noteq> []" "length es \<le> MAX_CPB_COUNT" "\<forall>e \<in> set es. entry_wf e"
    and "length (bit_rate_value h) = MAX_CPB_COUNT" "length (cpb_size_value h) = MAX_CPB_COUNT"
    and "length (cbr_flag h) = MAX_CPB_COUNT"
    and "brs < 16" "css < 16" "a < 32" "b < 32" "c < 32" "d < 32"
  shows "\<exists>s'. hrd_parameters h s = Some ((hrd_written 0 es h)\<lparr>cpb_cnt := of_nat (length es),
      bit_rate_scale := ucast brs, cpb_size_scale := ucast css,
      initial_cpb_removal_delay_length := ucast (a + 1), cpb_removal_delay_length := ucast (b + 1),
      dpb_output_delay_length := ucast (c + 1), time_offset_length := ucast d\<rparr>, s') \<and>
    stream_bits s' = rest \<and> bitreader.more s' = bitreader.more s"
proof -
  define m where "m = bitreader.more s"
  have w: "unat brs < 2 ^ 4" "unat css < 2 ^ 4" "unat a < 2 ^ 5" "unat b < 2 ^ 5" "unat c < 2 ^ 5" "unat d < 2 ^ 5"
    using assms(9-) by (simp_all add: word_less_nat_alt)
  have n: "unat (of_nat (length es - 1) :: u32) = length es - 1"
    using assms(4) by (intro unat_of_nat32) (simp add: MAX_CPB_COUNT_def)
  have s0: "at m s (ue_bits (unat (of_nat (length es - 1) :: u32)) @ fld 4 brs @ fld 4 css @
      concat (map entry_bits es) @ fld 5 a @ fld 5 b @ fld 5 c @ fld 5 d @ rest)"
    using assms(1,2) n by (simp add: at_def hrd_bits_def m_def)
  have lt: "(of_nat (length es - 1) :: u32) < 0xFFFFFFFF"
    using assms(4) n by (simp add: word_less_nat_alt MAX_CPB_COUNT_def)
  obtain s1 where s1: "uev s = (of_nat (length es - 1), s1)"
    "at m s1 (fld 4 brs @ fld 4 css @ concat (map entry_bits es) @ fld 5 a @ fld 5 b @ fld 5 c @ fld 5 d @ rest)"
    using at_uev [OF s0 lt] by blast
  obtain s2 where s2: "extract_bits 4 s1 = (brs, s2)"
    "at m s2 (fld 4 css @ concat (map entry_bits es) @ fld 5 a @ fld 5 b @ fld 5 c @ fld 5 d @ rest)"
    using at_extract [OF s1(2) _ w(1)] by auto
  obtain s3 where s3: "extract_bits 4 s2 = (css, s3)"
    "at m s3 (concat (map entry_bits es) @ fld 5 a @ fld 5 b @ fld 5 c @ fld 5 d @ rest)"
    using at_extract [OF s2(2) _ w(2)] by auto
  have cnt: "of_nat (length es - 1) + 1 = (of_nat (length es) :: u32)"
    using assms(3) by (cases es) auto
  have ul: "unat (of_nat (length es) :: u32) = length es"
    using assms(4) by (intro unat_of_nat32) (simp add: MAX_CPB_COUNT_def)
  let ?h = "h\<lparr>cpb_cnt := of_nat (length es), bit_rate_scale := ucast brs, cpb_size_scale := ucast css\<rparr>"
  obtain s4 where s4: "hrd_loop 0 (length es) ?h s3 = Some (hrd_written 0 es ?h, s4)"
    "at m s4 (fld 5 a @ fld 5 b @ fld 5 c @ fld 5 d @ rest)"
    using hrd_loop_decodes [OF s3(2) assms(5), of 0 ?h] assms(4,6-8) by auto
  obtain s5 where s5: "extract_bits 5 s4 = (a, s5)" "at m s5 (fld 5 b @ fld 5 c @ fld 5 d @ rest)"
    using at_extract [OF s4(2) _ w(3)] by auto
  obtain s6 where s6: "extract_bits 5 s5 = (b, s6)" "at m s6 (fld 5 c @ fld 5 d @ rest)"
    using at_extract [OF s5(2) _ w(4)] by auto
  obtain s7 where s7: "extract_bits 5 s6 = (c, s7)" "at m s7 (fld 5 d @ rest)"
    using at_extract [OF s6(2) _ w(5)] by auto
  obtain s8 where s8: "extract_bits 5 s7 = (d, s8)" "at m s8 rest"
    using at_extract [OF s7(2) _ w(6)] by auto
  have "\<not> unat (of_nat (length es) :: u32) > MAX_CPB_COUNT" using assms(4) ul by simp
  then show ?thesis using s1(1) s2(1) s3(1) s4(1) s5(1) s6(1) s7(1) s8
    by (simp add: hrd_parameters_def cnt [unfolded One_nat_def] ul at_def m_def hrd_written_def Let_def)
qed

lemma ue_small: "ue_bits 0 = [True]" "ue_bits (Suc 0) = [False, True, False]" "ue_bits 2 = [False, True, True]"
  by (simp_all add: ue_bits_def ue_zeros_def nbits.simps biteval)

lemma sample_hrd_bits:
  "hrd_bits 1 2 [(1, 2, 1), (0, 1, 0)] 3 6 6 3 @ replicate 5 False =
   bytes_bits [0x42, 0x49, 0xE8, 0x33, 0x18, 0x60]"
  by (simp add: hrd_bits_def entry_bits_def fld_def byte_bits_def ue_small biteval)

lemma sample_hrd_stream:
  "stream_bits (init_bitstream [0x42, 0x49, 0xE8, 0x33, 0x18, 0x60] blank_parser) =
   hrd_bits 1 2 [(1, 2, 1), (0, 1, 0)] 3 6 6 3 @ replicate 5 False"
  unfolding sample_hrd_bits by (simp add: init_bitstream_ok blank_parser_def)

theorem hrd_parameters_decodes_witness:
  "\<exists>h s. hrd_parameters zero_hrd (init_bitstream [0x42, 0x49, 0xE8, 0x33, 0x18, 0x60] blank_parser) = Some (h, s) \<and>
     cpb_cnt h = 2 \<and> take 2 (bit_rate_value h) = [2, 1] \<and> time_offset_length h = 3"
  using hrd_parameters_decodes [OF init_bitstream_ok(1) sample_hrd_stream, of zero_hrd]
  by (auto simp: MAX_CPB_COUNT_def entry_wf_def zero_hrd_def hrd_written_def overwrite_def)

end
