(* ===== verification/SeiExchange.thy ===== *)
theory SeiExchange
  imports ExtraDataSei H264Decode
begin

text \<open>
  The two parsers of the frame packing message meet: the SEI unit that the extra data handler
  writes, \<open>parse_nal\<close> of the stream parser decodes, each removing emulation prevention bytes in its
  own way. \<open>tracks\<close> accounts for the bytes the reader has skipped, which the loop over the messages of
  a SEI unit counts.
\<close>

lemma no_003_append: "no_003 (xs @ ys) \<Longrightarrow> no_003 ys"
  by (induction xs) (auto dest: no_003_tl)

text \<open>\<open>z\<close> zero bytes before the string.\<close>

lemma unescape_emulate:
  "no_003 (replicate z 0 @ P) \<Longrightarrow> unescape True z (emulate P) = P"
proof (induction P arbitrary: z rule: emulate_pairs)
  case (1 a b r)
  have first: "\<not> (a = 3 \<and> 2 \<le> z)"
  proof
    assume h: "a = 3 \<and> 2 \<le> z"
    then have "replicate z 0 @ a # b # r = replicate (z - 2) 0 @ 0 # 0 # 3 # b # r"
      by (metis append.assoc append_Cons append_Nil le_add_diff_inverse2 numeral_2_eq_2 replicate_Suc
          replicate_add replicate_empty)
    then have "no_003 (0 # 0 # 3 # b # r)" using 1(3) no_003_append by metis
    then show False by simp
  qed
  show ?case
  proof (cases "a = 0 \<and> b = 0")
    case True
    have "no_003 r" using no_003_append [of "replicate z 0 @ [a, b]" r] 1(3) by simp
    then have "unescape True 0 (emulate r) = r" using 1(1) [OF True, of 0] by simp
    then show ?thesis using True first by simp
  next
    case False
    have second: "\<not> (b = 3 \<and> 2 \<le> (if a = 0 then z + 1 else 0))"
    proof
      assume h: "b = 3 \<and> 2 \<le> (if a = 0 then z + 1 else 0)"
      then have a: "a = 0" "1 \<le> z" by (auto split: if_splits)
      then have "replicate z 0 @ a # b # r = replicate (z - 1) 0 @ 0 # 0 # 3 # r"
        using h by (cases z) (auto simp: replicate_append_same [symmetric])
      then have "no_003 (0 # 0 # 3 # r)" using 1(3) no_003_append by metis
      then show False by simp
    qed
    define w where "w = (if b = 0 then 1 else 0 :: nat)"
    have "no_003 (replicate w 0 @ r)"
      using no_003_append [of "replicate z 0 @ [a]" "b # r"] no_003_append [of "replicate z 0 @ [a, b]" r] 1(3)
      by (cases "b = 0") (simp_all add: w_def)
    then have "unescape True w (emulate r) = r" by (rule 1(2) [OF False])
    moreover have "(if b = 0 then (if a = 0 then z + 1 else 0) + 1 else 0) = w" using False by (auto simp: w_def)
    ultimately show ?thesis using False first second by (simp split: if_splits)
  qed
next
  case (single a)
  have "\<not> (a = 3 \<and> 2 \<le> z)"
  proof
    assume "a = 3 \<and> 2 \<le> z"
    then have "replicate z 0 @ [a] = replicate (z - 2) 0 @ [0, 0, 3]"
      by (metis append.assoc append_Cons append_Nil le_add_diff_inverse2 numeral_2_eq_2 replicate_Suc
          replicate_add replicate_empty)
    then have "no_003 [0, 0, 3]" using single no_003_append by metis
    then show False by simp
  qed
  then show ?case by simp
qed simp

section \<open>Emulation prevention bytes the reader has skipped\<close>

text \<open>The payload bytes still to be loaded.\<close>

definition unread :: "'a bitreader_scheme \<Rightarrow> u8 list" where
  "unread s = unescape (emulation_sc_enabled s) (zero_cntr s) (bitstream s)"

text \<open>
  \<open>tracks s t\<close>: reading from \<open>s\<close> to \<open>t\<close>, every byte that was loaded or skipped is accounted for, so
  that the number of skipped bytes is known from the bytes that are left.
\<close>

definition tracks :: "'a bitreader_scheme \<Rightarrow> 'a bitreader_scheme \<Rightarrow> bool" where
  "tracks s t \<longleftrightarrow> emulation_sc_enabled t = emulation_sc_enabled s \<and>
     emulation_code_skip_cntr t + length (bitstream t) + length (unread s) =
     emulation_code_skip_cntr s + length (bitstream s) + length (unread t)"

lemma tracks_refl: "tracks s s"
  by (simp add: tracks_def)

lemma tracks_trans: "tracks s t \<Longrightarrow> tracks t u \<Longrightarrow> tracks s u"
  by (simp add: tracks_def)

lemma fill_word_tracks:
  "emulation_sc_enabled (fill_word bs s) = emulation_sc_enabled s \<and>
   emulation_code_skip_cntr (fill_word bs s) + length (bitstream (fill_word bs s)) +
     length (unescape (emulation_sc_enabled s) (zero_cntr s) bs) =
   emulation_code_skip_cntr s + length bs + length (unread (fill_word bs s))"
proof (induction bs arbitrary: s)
  case (Cons b bs)
  have e: "emulation_sc_enabled (read_byte b s) = emulation_sc_enabled s"
    "zero_cntr (read_byte b s) = (if b = 0 then zero_cntr s + 1 else 0)"
    "emulation_code_skip_cntr (read_byte b s) = emulation_code_skip_cntr s +
       (if b = 3 \<and> 2 \<le> zero_cntr s \<and> emulation_sc_enabled s then 1 else 0)"
    by (simp_all add: read_byte_def)
  show ?case
  proof (cases "bits_read s < 32")
    case True
    then show ?thesis using Cons [of "read_byte b s"] by (auto simp: e)
  qed (simp add: unread_def)
qed (simp add: unread_def)

lemma tracks_extract: "tracks s (snd (extract_bits n s))"
  using fill_word_tracks [of "bitstream s" "s\<lparr>curr_32_bit := 0, bits_read := 0\<rparr>"]
  by (auto simp: tracks_def extract_bits_def Let_def consume_bits_def read_word_def unread_def)

lemma tracks_uev_zeros: "tracks s (snd (uev_zeros z s))"
proof (induction z s rule: uev_zeros.induct)
  case (1 z s)
  obtain b t where e: "extract_bits 1 s = (b, t)" by force
  then have "tracks s t" using tracks_extract [of s 1] by simp
  then show ?case using 1 [OF refl e [symmetric]] tracks_trans
    by (subst uev_zeros.simps) (auto simp: e [unfolded One_nat_def])
qed

lemma tracks_uev: "tracks s (snd (uev s))"
  using tracks_uev_zeros [of s 0] tracks_trans [OF _ tracks_extract]
  by (auto simp: uev_def Let_def case_prod_beta)

lemma tracks_let:
  assumes "tracks s0 s" "tracks s (snd e)" "\<And>v s'. tracks s0 s' \<Longrightarrow> Q (f v s')"
  shows "Q (let (v, s') = e in f v s')"
  using assms tracks_trans [of s0 s "snd e"] by (simp add: case_prod_beta)

lemmas tracks_lets = tracks_let [OF _ tracks_extract] tracks_let [OF _ tracks_uev]

lemma tracks_grid: "tracks s0 s \<Longrightarrow> tracks s0 (snd (frame_pack_grid f s))"
  unfolding frame_pack_grid_def
  by (rule tracks_lets [where Q = "\<lambda>r. tracks s0 (snd r)"], assumption)+ simp

lemma tracks_tail: "tracks s0 s \<Longrightarrow> tracks s0 (snd (frame_pack_tail f s))"
  unfolding frame_pack_tail_def
  by (rule tracks_lets [where Q = "\<lambda>r. tracks s0 (snd r)"], assumption)+ simp

lemma tracks_body: "tracks s0 s \<Longrightarrow> tracks s0 (snd (frame_pack_body f s))"
  unfolding frame_pack_body_def
  by (rule tracks_lets [where Q = "\<lambda>r. tracks s0 (snd r)"], assumption)+
    (auto simp: Let_def case_prod_beta intro: tracks_tail tracks_grid)

lemma tracks_frame_pack: "tracks s (parse_frame_pack s)"
proof -
  obtain a s1 where 1: "uev s = (a, s1)" by force
  obtain c s2 where 2: "extract_bits 1 s1 = (c, s2)" by force
  define g where "g = (frame_packing_arrangement s)\<lparr>fp_id := a, cancel_flag := c\<rparr>"
  obtain f s3 where 3: "(if c = 0 then frame_pack_body g s2 else (g, s2)) = (f, s3)" by force
  obtain e s4 where 4: "extract_bits 1 s3 = (e, s4)" by force
  have "parse_frame_pack s = s4\<lparr>frame_packing_arrangement := f\<lparr>extension_flag := e\<rparr>\<rparr>"
    using 1 2 3 [unfolded g_def] 4 by (simp add: parse_frame_pack_def Let_def)
  moreover have "tracks s s1" using tracks_uev [of s] 1 by simp
  moreover have "tracks s1 s2" using tracks_extract [of s1 1] 2 by simp
  moreover have "tracks s2 s3" using 3 tracks_body [OF tracks_refl, of s2 g] tracks_refl [of s2] by (auto split: if_splits)
  moreover have "tracks s3 s4" using tracks_extract [of s3 1] 4 by simp
  ultimately show ?thesis
    using tracks_trans [of s s1] tracks_trans [of s s2] tracks_trans [of s s3] by (auto simp: tracks_def unread_def)
qed

text \<open>Between two emulation prevention bytes there are two payload bytes.\<close>

lemma escapes_left: "length bs \<le> length (unescape en z bs) + (length (unescape en z bs) + min z 2) div 2"
proof (induction bs arbitrary: z)
  case (Cons b bs)
  show ?case using Cons [of 0] Cons [of "z + 1"] by (auto simp: min_def split: if_splits)
qed simp

lemma tracks_nal_search: "tracks s (snd (snd (nal_search v c s)))"
proof (induction v c s rule: nal_search.induct)
  case (1 v c s)
  obtain b t where e: "extract_bits 8 s = (b, t)" by force
  then have "tracks s t" using tracks_extract [of s 8] by simp
  then show ?case using 1 [OF _ refl e [symmetric]] tracks_trans tracks_refl
    by (subst nal_search.simps) (auto simp: e)
qed

lemma tracks_nal_unit_type: "tracks s (snd (get_nal_unit_type s))"
proof -
  have "tracks s (snd (snd (nal_search v c (snd (extract_bits 24 s)))))" for v c
    by (rule tracks_trans [OF tracks_extract tracks_nal_search])
  then show ?thesis
    by (auto simp: get_nal_unit_type_def Let_def case_prod_beta intro!: tracks_trans [OF _ tracks_extract])
qed

lemma more_frame_pack:
  "bitreader.more t = bitreader.more (s :: h264_parser) \<Longrightarrow> frame_packing_arrangement t = frame_packing_arrangement s"
  by (cases s; cases t) simp

lemma unescape_shorter: "length (unescape en z bs) \<le> length bs"
  by (induction bs arbitrary: z) (auto simp: le_SucI)

section \<open>The message through the NAL parser\<close>

lemma bytes_bits_fld: "bytes_bits (b # bs) = fld 8 (ucast b) @ bytes_bits bs"
  by (simp add: byte_bits_def fld_def unat_ucast_8)

text \<open>The start code and the header of a SEI unit.\<close>

lemma get_nal_unit_type_sei:
  assumes "at m s (bytes_bits [0, 0, 0, 1, 6] @ ys)"
  shows "\<exists>t. get_nal_unit_type s = ((6, 5), t) \<and> at m t ys"
proof -
  have eq: "bytes_bits [0, 0, 0, 1, 6] @ ys = fld 24 0 @ fld 8 1 @ fld 1 0 @ fld 2 0 @ fld 5 6 @ ys"
    by (simp add: byte_bits_def fld_def bits_of_zero biteval)
  note a = assms [unfolded eq]
  obtain s0 where s0: "extract_bits 24 s = (0, s0)" "at m s0 (fld 8 1 @ fld 1 0 @ fld 2 0 @ fld 5 6 @ ys)"
    using at_extract [OF a] by auto
  obtain s1 where s1: "extract_bits 8 s0 = (1, s1)" "at m s1 (fld 1 0 @ fld 2 0 @ fld 5 6 @ ys)"
    using at_extract [OF s0(2)] by auto
  obtain s2 where s2: "extract_bits 1 s1 = (0, s2)" "at m s2 (fld 2 0 @ fld 5 6 @ ys)"
    using at_extract [OF s1(2)] by auto
  obtain s3 where s3: "extract_bits 2 s2 = (0, s3)" "at m s3 (fld 5 6 @ ys)"
    using at_extract [OF s2(2)] by auto
  obtain s4 where s4: "extract_bits 5 s3 = (6, s4)" "at m s4 ys"
    using at_extract [OF s3(2)] by auto
  have "stream_bits s0 \<noteq> []" using s0(2) by (auto simp: at_def fld_def)
  then have "more_bits s0" by (rule stream_more_bits)
  moreover have "nal_search 1 4 s1 = (1, 4, s1)" by (subst nal_search.simps) simp
  ultimately have "nal_search 0 3 s0 = (1, 4, s1)"
    using s1(1) by (subst nal_search.simps) simp
  then show ?thesis using s0(1) s2(1) s3(1) s4 by (simp add: get_nal_unit_type_def)
qed

lemma ff_coded_last:
  assumes "at m s (fld 8 v @ ys)" "unat v < 255"
  shows "\<exists>t. ff_coded 0 0 s = (v, 1, t) \<and> at m t ys"
proof -
  have "unat v < 2 ^ 8" "v \<noteq> 0xFF" using assms(2) by auto
  with at_extract [OF assms(1)] show ?thesis by (subst ff_coded.simps) auto
qed

lemma tracks_ff_coded: "tracks s (snd (snd (ff_coded a n s)))"
proof (induction a n s rule: ff_coded.induct)
  case (1 a n s)
  obtain v t where e: "extract_bits 8 s = (v, t)" by force
  then have "tracks s t" using tracks_extract [of s 8] by simp
  then show ?case using 1 [OF refl e [symmetric]] tracks_trans
    by (subst ff_coded.simps) (auto simp: e)
qed

text \<open>
  One round of the SEI loop: the frame packing message is parsed, and as nothing but trailing bits
  is left, the count of the bytes processed, which includes the skipped ones, has reached the end.
\<close>

lemma parse_sei_frame_pack:
  assumes "bytes_bits P = sei_bits f" "no_003 P" "length P < 256" "frame_pack_wf f"
    and "emulation_sc_enabled p"
  shows "\<exists>t. parse_sei (init_bitstream (0x2D # (of_nat (length P) - 1) # emulate P) p) = Some t \<and>
    frame_packing_arrangement t = frame_pack_over (frame_packing_arrangement p) f"
proof -
  define sz :: u8 where "sz = of_nat (length P) - 1"
  define m where "m = bitreader.more p"
  define msg where "msg = 0x2D # sz # emulate P"
  define s where "s = init_bitstream msg p"
  note lP = sei_payload_bytes [OF assms(1)]
  have "sz = of_nat (length P - 1)" using lP(1) by (simp add: sz_def)
  then have usz: "unat sz = length P - 1" using assms(3) by (simp add: unat_of_nat)
  then have sz: "sz \<noteq> 0" using lP(1) by auto
  have ue: "unescape True 0 msg = 0x2D # sz # P"
    using unescape_emulate [of 0 P] assms(2) sz by (simp add: msg_def)
  define rest where "rest = align_bits (frame_pack_bits f) @ trailing"
  have s: "at m s (fld 8 0x2D @ fld 8 (ucast sz) @ frame_pack_bits f @ rest)"
    using ue assms(1,5) unfolding at_def s_def
    by (simp add: init_bitstream_ok bytes_bits_fld sei_bits_def rest_def del: bytes_bits_simps)
      (simp add: init_bitstream_def m_def)
  obtain s1 where s1: "ff_coded 0 0 s = (0x2D, 1, s1)" "at m s1 (fld 8 (ucast sz) @ frame_pack_bits f @ rest)"
    using ff_coded_last [OF s] by auto
  have "unat (ucast sz :: u32) < 255" using usz lP(1) assms(3) unfolding unat_ucast_8 by linarith
  then obtain s2 where s2: "ff_coded 0 0 s1 = (ucast sz, 1, s2)" "at m s2 (frame_pack_bits f @ rest)"
    using ff_coded_last [OF s1(2)] by auto
  define t where "t = parse_frame_pack s2"
  have "tracks s s1" "tracks s1 s2" "tracks s2 t"
    using tracks_ff_coded [of s 0 0] tracks_ff_coded [of s1 0 0] s1(1) s2(1) tracks_frame_pack [of s2]
    by (simp_all add: t_def)
  then have "tracks s t" by (blast intro: tracks_trans)
  then have skipped: "emulation_code_skip_cntr t + length (bitstream t) + length P =
      length (emulate P) + length (unread t)"
    using ue assms(5) by (simp add: tracks_def s_def unread_def) (simp add: init_bitstream_def msg_def)
  note fp = parse_frame_pack_at [OF s2(2) assms(4), folded t_def]
  have "length rest < 16" by (simp add: rest_def length_align trailing_def)
  moreover have "8 * length (unread t) \<le> length (stream_bits t)"
    by (simp add: stream_bits_def payload_bits_def unread_def)
  ultimately have "length (unread t) \<le> 1" using fp by simp
  then have "length (bitstream t) \<le> length (unread t) + 1"
    using escapes_left [of "bitstream t" "emulation_sc_enabled t" "zero_cntr t"]
    by (auto simp: unread_def [symmetric] min_def split: if_splits)
  with skipped have all: "length (emulate P) \<le> emulation_code_skip_cntr t + length P + 1" by simp
  have emP: "length (emulate P) \<le> 2 * length P" by (induction P rule: emulate_pairs) auto
  have lm: "length msg = length (emulate P) + 2" by (simp add: msg_def)
  have "length (unread t) \<le> length (bitstream t)" by (simp add: unread_def unescape_shorter)
  with skipped have sk: "emulation_code_skip_cntr t \<le> length (emulate P)" by simp
  have "\<not> (0 + 1 + 1 + (ucast sz + of_nat (emulation_code_skip_cntr t)) + 2 < (of_nat (length msg) :: u32))"
  proof -
    have "ucast sz = (of_nat (length P - 1) :: u32)"
      using usz assms(3) unat_of_nat32 [of "length P - 1"] by (intro u32_eqI) (simp add: unat_ucast_8)
    then have e: "0 + 1 + 1 + (ucast sz + of_nat (emulation_code_skip_cntr t)) + 2 =
        (of_nat (4 + (length P - 1) + emulation_code_skip_cntr t) :: u32)" by simp
    have "length msg < 2 ^ 32" "4 + (length P - 1) + emulation_code_skip_cntr t < 2 ^ 32"
      using lm emP sk assms(3) by simp_all
    then show ?thesis
      using all lm lP(1) unfolding e word_less_nat_alt by (simp only: unat_of_nat32)
  qed
  then have "parse_sei_loop msg (0 + 1 + 1 + (ucast sz + of_nat (emulation_code_skip_cntr t))) t = Some t"
    by (subst parse_sei_loop.simps) simp
  moreover have "(2 :: u32) < of_nat (length msg)"
  proof -
    have "1 < length (emulate P)" using lP(1) by (cases P rule: emulate.cases) auto
    moreover have "unat (of_nat (length msg) :: u32) = length msg"
      using lm emP assms(3) by (intro unat_of_nat32) simp
    moreover have "unat (2 :: u32) = 2" by simp
    ultimately show ?thesis using lm unfolding word_less_nat_alt by linarith
  qed
  moreover have "more_bits s" "bitstream s = msg" "init_bitstream msg s = s"
    by (simp_all add: s_def init_bitstream_def more_bits_def msg_def)
  moreover have "(ucast sz :: u32) \<noteq> 0" using usz lP(1) unat_ucast_8 [of sz] by auto
  ultimately have "parse_sei s = Some t"
    using s1(1) s2(1) unfolding parse_sei_def
    by (subst parse_sei_loop.simps) (simp add: sei_payload_def payload_kind_def t_def [symmetric] word_gt_0)
  moreover have "frame_packing_arrangement s2 = frame_packing_arrangement p"
    using s2(2) by (intro more_frame_pack) (simp add: at_def m_def)
  ultimately show ?thesis using fp(1) by (simp add: s_def msg_def sz_def)
qed

text \<open>
  C15. The SEI unit the extra data handler writes for a frame packing record is decoded by the stream
  parser: \<open>parse_nal\<close>, given all the bytes of the unit, finds its start code and type, walks over the
  message, and leaves the record in \<open>get_frame_pack_data\<close>, over the one it had. The conditions: the
  record is within the widths of its fields, its two numbers are below 0x1FFFF, the handler's
  scratch buffer is zeroed and large enough, and the payload has fewer than 256 bytes and no
  \<open>00 00 03\<close> of its own.
\<close>
theorem sei_to_stream_parser:
  assumes "rbsp_buf s = replicate m 0"
    "ExtraData.sei_payload_type s = ExtraData.SEI_PAYLOAD_FRAME_PACKING_ARRANGEMENT"
    and "frame_pack_wf (fpa s)" "fp_id (fpa s) < 0x1FFFF" "repetition_period (fpa s) < 0x1FFFF"
    and "bytes_bits P = sei_bits (fpa s)" "length P \<le> m" "no_003 P" "length P < 256"
  shows "\<exists>out n s' p'. create_sei s = Some (out, n, s') \<and> length out = n \<and>
    parse_nal out NALU_TYPE_SEI True p = Some p' \<and>
    get_frame_pack_data p' = frame_pack_over (get_frame_pack_data p) (fpa s)"
proof -
  define out where "out = [0, 0, 0, 1, 6, 0x2D, of_nat (length P) - 1] @ emulate P"
  obtain t where t: "create_sei s = Some (out, 7 + length (emulate P), t)"
    using create_sei_bytes [OF assms(1-7)] unfolding out_def by blast
  define q where "q = (init_bitstream out p)\<lparr>emulation_sc_enabled := True\<rparr>"
  have "q = init_bitstream out (p\<lparr>emulation_sc_enabled := True\<rparr>)"
    by (simp add: q_def init_bitstream_def)
  then have "at (bitreader.more p) q (bytes_bits [0, 0, 0, 1, 6] @
      bytes_bits (unescape True 0 (0x2D # (of_nat (length P) - 1) # emulate P)))"
    by (simp add: at_def init_bitstream_ok out_def) (simp add: init_bitstream_def)
  then obtain u where u: "get_nal_unit_type q = ((6, 5), u)" "bitreader.more u = bitreader.more p"
    using get_nal_unit_type_sei [of "bitreader.more p" q] by (auto simp: at_def)
  have "emulation_sc_enabled u" using tracks_nal_unit_type [of q] u(1) by (simp add: tracks_def q_def)
  from parse_sei_frame_pack [OF assms(6,8,9,3) this] obtain v where
    v: "parse_sei (init_bitstream (0x2D # (of_nat (length P) - 1) # emulate P) u) = Some v"
    "frame_packing_arrangement v = frame_pack_over (frame_packing_arrangement u) (fpa s)" by blast
  moreover have "out \<noteq> []" "5 \<le> length out" by (simp_all add: out_def)
  then have "parse_nal out NALU_TYPE_SEI True p = parse_sei (init_bitstream (drop 5 out) u)"
    using u(1) by (simp add: parse_nal_def q_def [symmetric] NALU_TYPE_SEI_def NALU_TYPE_SPS_def NALU_TYPE_VUI_def)
  moreover have "drop 5 out = 0x2D # (of_nat (length P) - 1) # emulate P" by (simp add: out_def)
  ultimately show ?thesis
    using t more_frame_pack [OF u(2)] by (simp add: get_frame_pack_data_def) (simp add: out_def)
qed

theorem sei_to_stream_parser_witness:
  "\<exists>out n s' p'. create_sei sample_creator = Some (out, n, s') \<and>
    parse_nal out NALU_TYPE_SEI True blank_parser = Some p' \<and> get_frame_pack_data p' = sample_pack"
  using sei_to_stream_parser [of sample_creator 100 "[0x60, 0x60, 0, 0, 9, 7, 0x48, 0x80]" blank_parser]
    sample_sei_bits sample_pack_wf
  by (auto simp: sample_creator_def set_frame_pack_data_def new_extra_data_handler_def sample_pack_def
      zero_frame_pack_def frame_pack_over_def has_grid_def blank_parser_def get_frame_pack_data_def)

end
