(* ===== verification/H264Safe.thy ===== *)
theory H264Safe
  imports H264Decode
begin

text \<open>
  Memory safety and termination of \<open>parse_nal\<close>: every operation of the H.264 parser keeps the
  invariant \<open>parser_ok\<close> and, from a state that satisfies it, returns.
\<close>

section \<open>The invariant\<close>

definition hrd_ok :: "h264_hrd_param \<Rightarrow> bool" where
  "hrd_ok h \<longleftrightarrow> length (bit_rate_value h) = MAX_CPB_COUNT \<and> length (cpb_size_value h) = MAX_CPB_COUNT
     \<and> length (cbr_flag h) = MAX_CPB_COUNT"

definition buf_period_ok :: "h264_sei_buf_period \<Rightarrow> bool" where
  "buf_period_ok p \<longleftrightarrow> length (initial_cpb_removal_delay p) = MAX_CPB_COUNT
     \<and> length (initial_cpb_removal_delay_offset p) = MAX_CPB_COUNT"

definition rect_typed :: "h264_pan_scan \<Rightarrow> bool" where
  "rect_typed p \<longleftrightarrow> length (rect_left_offset p) = MAX_PAN_SCAN_RECT
     \<and> length (rect_right_offset p) = MAX_PAN_SCAN_RECT
     \<and> length (rect_top_offset p) = MAX_PAN_SCAN_RECT
     \<and> length (rect_bottom_offset p) = MAX_PAN_SCAN_RECT"

text \<open>A rectangle in use is either marked unusable or has a window count within its arrays.\<close>

definition rect_usable :: "h264_pan_scan \<Rightarrow> bool" where
  "rect_usable p \<longleftrightarrow> rect_id p AND NO_PAN_SCAN_BIT \<noteq> 0 \<or> unat (ps_cnt p) \<le> MAX_PAN_SCAN_RECT"

definition panscan_ok :: "panscan_state \<Rightarrow> bool" where
  "panscan_ok ps \<longleftrightarrow> (\<exists>xs ys. handler_ok ps xs ys \<and>
     (\<forall>i < length (fst ps). rect_typed (pan_scan_param (fst ps ! i))) \<and>
     (\<forall>i \<in> set xs. rect_usable (pan_scan_param (fst ps ! i))))"

text \<open>
  \<open>M\<close> bounds the bytes still to be loaded together with the escape bytes already skipped.
\<close>

definition ctx_ok :: "h264_parser \<Rightarrow> bool" where
  "ctx_ok s \<longleftrightarrow> hrd_ok (nal_hrd_parameters (vui_param s)) \<and> hrd_ok (vcl_hrd_parameters (vui_param s))
     \<and> buf_period_ok (sei_buf_period s) \<and> (\<exists>ps. panscan_hdl s = Some ps \<and> panscan_ok ps)"

definition reader_ok :: "nat \<Rightarrow> 'a bitreader_scheme \<Rightarrow> bool" where
  "reader_ok M s \<longleftrightarrow> window_ok s \<and> emulation_code_skip_cntr s + length (bitstream s) \<le> M"

definition parser_ok :: "nat \<Rightarrow> h264_parser \<Rightarrow> bool" where
  "parser_ok M s \<longleftrightarrow> reader_ok M s \<and> ctx_ok s"

section \<open>Reading keeps the invariant\<close>

lemma fill_word_skip:
  "emulation_code_skip_cntr (fill_word bs s) + length (bitstream (fill_word bs s))
     \<le> emulation_code_skip_cntr s + length bs"
proof (induction bs arbitrary: s)
  case (Cons b bs)
  have "emulation_code_skip_cntr (read_byte b s) \<le> emulation_code_skip_cntr s + 1"
    by (simp add: read_byte_def Let_def)
  with Cons [of "read_byte b s"] show ?case by auto
qed simp

text \<open>\<open>reads s s'\<close>: only the bit reader part changed, within bounds.\<close>

definition reads :: "'a bitreader_scheme \<Rightarrow> 'a bitreader_scheme \<Rightarrow> bool" where
  "reads s s' \<longleftrightarrow> (\<forall>M. reader_ok M s \<longrightarrow> reader_ok M s') \<and> bitreader.more s' = bitreader.more s"

lemma reads_refl: "reads s s"
  by (simp add: reads_def)

lemma reads_trans: "reads s t \<Longrightarrow> reads t u \<Longrightarrow> reads s u"
  by (simp add: reads_def)

lemma extract_bits_skip:
  "emulation_code_skip_cntr (snd (extract_bits n s)) + length (bitstream (snd (extract_bits n s)))
     \<le> emulation_code_skip_cntr s + length (bitstream s)"
  using fill_word_skip [of "bitstream s" "s\<lparr>curr_32_bit := 0, bits_read := 0\<rparr>"]
  by (auto simp: extract_bits_def Let_def consume_bits_def read_word_def)

lemma reads_extract: "reads s (snd (extract_bits n s))"
proof -
  have "window_ok s \<Longrightarrow> window_ok (snd (extract_bits n s))"
    by (cases "n \<le> 32") (use extract_bits_spec [of s n] in \<open>auto simp: extract_bits_def\<close>)
  then show ?thesis using extract_bits_skip [of n s] by (auto simp: reads_def reader_ok_def extract_more)
qed

lemma reads_uev_zeros: "reads s (snd (uev_zeros z s))"
proof (induction z s rule: uev_zeros.induct)
  case (1 z s)
  obtain b t where e: "extract_bits 1 s = (b, t)" by force
  then have "reads s t" using reads_extract [of s 1] by simp
  then show ?case using 1 [OF refl e [symmetric]] reads_trans
    by (subst uev_zeros.simps) (auto simp: e [unfolded One_nat_def])
qed

lemma reads_uev: "reads s (snd (uev s))"
  using reads_uev_zeros [of s 0] reads_trans [OF _ reads_extract]
  by (auto simp: uev_def Let_def case_prod_beta)

lemma reads_sev: "reads s (snd (sev s))"
  using reads_uev [of s] by (simp add: sev_def Let_def case_prod_beta)

lemma reads_iv: "reads s (snd (iv n s))"
  using reads_extract [of s n] by (simp add: iv_def Let_def case_prod_beta)

lemma reads_discard_zeros: "reads s (discard_zeros s)"
proof (induction s rule: discard_zeros.induct)
  case (1 s)
  obtain b t where e: "extract_bits 1 s = (b, t)" by force
  then have "reads s t" using reads_extract [of s 1] by simp
  then show ?case using 1 [OF refl e [symmetric]] reads_trans
    by (subst discard_zeros.simps) (auto simp: e [unfolded One_nat_def])
qed

lemma reads_nal_search: "reads s (snd (snd (nal_search v c s)))"
proof (induction v c s rule: nal_search.induct)
  case (1 v c s)
  obtain b t where e: "extract_bits 8 s = (b, t)" by force
  then have "reads s t" using reads_extract [of s 8] by simp
  then show ?case using 1 [OF _ refl e [symmetric]] reads_trans reads_refl
    by (subst nal_search.simps) (auto simp: e)
qed

lemma reads_nal_unit_type: "reads s (snd (get_nal_unit_type s))"
proof -
  have "reads s (snd (snd (nal_search v c (snd (extract_bits 24 s)))))" for v c
    by (rule reads_trans [OF reads_extract reads_nal_search])
  then show ?thesis
    by (auto simp: get_nal_unit_type_def Let_def case_prod_beta intro!: reads_trans [OF _ reads_extract])
qed

lemma more_ctx:
  assumes "bitreader.more s' = bitreader.more (s :: h264_parser)"
  shows "vui_param s' = vui_param s" "sei_buf_period s' = sei_buf_period s"
    "sei_pic_timing s' = sei_pic_timing s" "panscan_hdl s' = panscan_hdl s"
    "frame_packing_arrangement s' = frame_packing_arrangement s" "mbaff_flag s' = mbaff_flag s"
  using assms by (cases s; cases s'; simp)+

lemma reads_ok: "reads s s' \<Longrightarrow> parser_ok M s \<Longrightarrow> parser_ok M s'"
  using more_ctx [of s' s] by (simp add: reads_def parser_ok_def ctx_ok_def)

section \<open>A calculus for the syntax functions\<close>

text \<open>
  Rules that walk through a definition: a read keeps the invariant, so does a write of a field
  the invariant does not mention.
\<close>

lemma safe_let [safe]: "(\<And>x. x = e \<Longrightarrow> yields P (f x)) \<Longrightarrow> yields P (Let e f)"
  by simp

lemma safe_read_let:
  assumes "parser_ok M s" "reads s (snd e)" "\<And>v s'. parser_ok M s' \<Longrightarrow> Q (f v s')"
  shows "Q (let (v, s') = e in f v s')"
  using assms reads_ok [of s "snd e" M] by (simp add: case_prod_beta)

lemmas safe_reads =
  safe_read_let [OF _ reads_extract] safe_read_let [OF _ reads_uev] safe_read_let [OF _ reads_sev]
  safe_read_let [OF _ reads_iv]

lemmas ok_yield_reads [safe] = safe_reads [where Q = "yields P" for P]

lemmas ok_state_reads = safe_reads [where Q = "parser_ok M'" for M']

lemma ok_if: "(c \<Longrightarrow> parser_ok M a) \<Longrightarrow> (\<not> c \<Longrightarrow> parser_ok M b) \<Longrightarrow> parser_ok M (if c then a else b)"
  by simp

lemma ok_let: "(parser_ok M e) \<Longrightarrow> (\<And>s. parser_ok M s \<Longrightarrow> parser_ok M' (f s)) \<Longrightarrow> parser_ok M' (Let e f)"
  by simp

lemma ok_yield_let: "(parser_ok M e) \<Longrightarrow> (\<And>s. parser_ok M s \<Longrightarrow> yields P (f s)) \<Longrightarrow> yields P (Let e f)"
  by simp

lemma ok_skips:
  "parser_ok M s \<Longrightarrow> parser_ok M (skip_bits n s)" "parser_ok M s \<Longrightarrow> parser_ok M (skip_ue s)"
  "parser_ok M s \<Longrightarrow> parser_ok M (skip_se s)" "parser_ok M s \<Longrightarrow> parser_ok M (discard_zeros s)"
  unfolding skip_bits_def skip_ue_def skip_se_def
  by (erule reads_ok [rotated], rule reads_extract reads_uev reads_sev reads_discard_zeros)+

text \<open>A write of the VUI record that keeps both HRD records.\<close>

lemma ok_upd_vui:
  assumes "parser_ok M s" "\<And>v. hrd_ok (nal_hrd_parameters v) \<and> hrd_ok (vcl_hrd_parameters v) \<Longrightarrow>
    hrd_ok (nal_hrd_parameters (f v)) \<and> hrd_ok (vcl_hrd_parameters (f v))"
  shows "parser_ok M (upd_vui f s)"
  using assms by (simp add: parser_ok_def ctx_ok_def reader_ok_def window_ok_def upd_vui_def)

lemma ok_set_mbaff: "parser_ok M s \<Longrightarrow> parser_ok M (s\<lparr>mbaff_flag := b\<rparr>)"
  and ok_set_timing: "parser_ok M s \<Longrightarrow> parser_ok M (s\<lparr>sei_pic_timing := t\<rparr>)"
  and ok_set_pack: "parser_ok M s \<Longrightarrow> parser_ok M (s\<lparr>frame_packing_arrangement := p\<rparr>)"
  and ok_set_buf: "parser_ok M s \<Longrightarrow> buf_period_ok bp \<Longrightarrow> parser_ok M (s\<lparr>sei_buf_period := bp\<rparr>)"
  and ok_set_hdl: "parser_ok M s \<Longrightarrow> panscan_ok ps \<Longrightarrow> parser_ok M (s\<lparr>panscan_hdl := Some ps\<rparr>)"
  by (simp_all add: parser_ok_def ctx_ok_def reader_ok_def window_ok_def)

lemma yields_put: "i < length xs \<Longrightarrow> length (xs[i := x]) = n \<Longrightarrow> yields (\<lambda>ys. length ys = n) (put i x xs)"
  by (simp add: put_def)

lemma parser_okD:
  assumes "parser_ok M s"
  shows "hrd_ok (nal_hrd_parameters (vui_param s))" "hrd_ok (vcl_hrd_parameters (vui_param s))"
    "buf_period_ok (sei_buf_period s)" "\<exists>ps. panscan_hdl s = Some ps \<and> panscan_ok ps" "reader_ok M s"
  using assms by (auto simp: parser_ok_def ctx_ok_def)

section \<open>VUI and HRD\<close>

lemma aspect_ratio_info_ok: "parser_ok M s \<Longrightarrow> parser_ok M (aspect_ratio_info s)"
  unfolding aspect_ratio_info_def
  apply (rule ok_state_reads, assumption)
  subgoal for idc t
    by (cases "idc = 255")
      (auto simp: Let_def case_prod_beta intro!: ok_upd_vui [unfolded upd_vui_def] reads_ok [OF reads_extract])
  done

lemma hrd_loop_ok:
  "parser_ok M s \<Longrightarrow> hrd_ok h \<Longrightarrow> idx + k \<le> MAX_CPB_COUNT \<Longrightarrow>
   yields (\<lambda>(h', s'). hrd_ok h' \<and> parser_ok M s') (hrd_loop idx k h s)"
proof (induction k arbitrary: idx h s)
  case (Suc k)
  have l: "idx < length (bit_rate_value h)" "idx < length (cpb_size_value h)" "idx < length (cbr_flag h)"
    using Suc.prems by (auto simp: hrd_ok_def)
  show ?case unfolding hrd_loop.simps
    apply (rule safe)
     apply (rule ok_yield_reads, rule Suc.prems)
     apply (rule yields_bind, rule yields_put, rule l, rule length_list_update)
     apply (rule ok_yield_reads, assumption)
     apply (rule yields_bind, rule yields_put, rule l, rule length_list_update)
     apply (rule ok_yield_reads, assumption)
     apply (rule yields_bind, rule yields_put, rule l, rule length_list_update)
     apply (rule Suc.IH, assumption)
    using Suc.prems by (auto simp: hrd_ok_def)
qed simp

lemma hrd_parameters_ok:
  assumes "parser_ok M s" "hrd_ok h"
  shows "yields (\<lambda>(h', s'). hrd_ok h' \<and> parser_ok M s') (hrd_parameters h s)"
  unfolding hrd_parameters_def
  apply (rule ok_yield_reads, rule assms)
  apply (rule ok_yield_reads, assumption)
  apply (rule ok_yield_reads, assumption)
  apply (rule safe)
  apply (rule safe)
  using assms(2) apply (simp add: hrd_ok_def)
  apply (rule yields_bind_pair, rule hrd_loop_ok, assumption)
  using assms(2) apply (simp add: hrd_ok_def)
   apply simp
  apply (elim conjE)
  apply (rule ok_yield_reads, assumption)+
  apply (simp add: hrd_ok_def)
  done

lemma vui_video_signal_ok: "parser_ok M s \<Longrightarrow> parser_ok M (vui_video_signal s)"
  unfolding vui_video_signal_def by (intro ok_state_reads ok_let ok_if ok_skips; assumption)

lemma vui_timing_ok: "parser_ok M s \<Longrightarrow> parser_ok M (vui_timing s)"
  unfolding vui_timing_def by (intro ok_state_reads ok_let ok_if ok_upd_vui; (assumption | simp))

lemma vui_hrd_ok: "parser_ok M s \<Longrightarrow> yields (parser_ok M) (vui_hrd s)"
  unfolding vui_hrd_def
  apply (rule ok_yield_reads, assumption)
  apply (rule ok_yield_let, rule ok_upd_vui, assumption, simp)
  apply (rule yields_bind [where Q = "parser_ok M"])
   apply (rule safe)
    apply (rule yields_bind_pair, rule hrd_parameters_ok, assumption, erule parser_okD)
    apply (auto intro!: ok_upd_vui) [2]
  apply (rule ok_yield_reads, assumption)
  apply (rule ok_yield_let, rule ok_upd_vui, assumption, simp)
  apply (rule yields_bind [where Q = "parser_ok M"])
   apply (rule safe)
    apply (rule yields_bind_pair, rule hrd_parameters_ok, assumption, erule parser_okD)
    apply (auto intro!: ok_upd_vui) [2]
  apply (rule safe)
   apply (rule ok_yield_reads, assumption)
   apply (simp add: ok_upd_vui)
  apply simp
  done

lemma parse_vui_ok: "parser_ok M s \<Longrightarrow> yields (parser_ok M) (parse_vui b s)"
  unfolding parse_vui_def
  apply (rule ok_yield_let [where M = M])
   apply (simp add: ok_skips)
  apply (rule safe, simp)
  apply (rule ok_yield_reads, assumption)
  apply (rule ok_yield_let, rule ok_upd_vui, assumption, simp)
  apply (rule ok_yield_let [where M = M])
   apply (simp add: aspect_ratio_info_ok)
  apply (rule yields_bind [where Q = "parser_ok M"])
   apply (intro vui_hrd_ok vui_timing_ok vui_video_signal_ok, assumption)
  apply (rule ok_yield_reads, assumption)
  apply (rule ok_yield_let, rule ok_upd_vui, assumption, simp)
  apply (rule ok_yield_reads, assumption)
  apply (simp add: ok_skips)
  done

section \<open>Sequence parameter sets\<close>

lemma scaling_loop_ok: "parser_ok M s \<Longrightarrow> parser_ok M (scaling_loop k a b s)"
proof (induction k arbitrary: a b s)
  case (Suc k)
  show ?case
    using Suc.IH [OF reads_ok [OF reads_sev Suc.prems]] Suc.IH [OF Suc.prems]
    by (simp add: Let_def case_prod_beta)
qed simp

lemma scaling_matrix_ok: "parser_ok M s \<Longrightarrow> parser_ok M (scaling_matrix i k s)"
proof (induction k arbitrary: i s)
  case (Suc k)
  show ?case unfolding scaling_matrix.simps scaling_list_def
    by (intro ok_state_reads ok_let ok_if scaling_loop_ok Suc.IH; (assumption | rule Suc.prems))
qed simp

lemma sps_high_profile_ok: "parser_ok M s \<Longrightarrow> parser_ok M (sps_high_profile s)"
  unfolding sps_high_profile_def
  by (intro ok_state_reads ok_let ok_if ok_skips scaling_matrix_ok; assumption)

lemma skip_se_funpow_ok: "parser_ok M s \<Longrightarrow> parser_ok M ((skip_se ^^ n) s)"
  by (induction n) (auto intro: ok_skips)

lemma sps_pic_order_ok: "parser_ok M s \<Longrightarrow> parser_ok M (sps_pic_order s)"
  unfolding sps_pic_order_def
  by (intro ok_state_reads ok_let ok_if ok_skips skip_se_funpow_ok; assumption)

lemma parse_sps_ok: "parser_ok M s \<Longrightarrow> yields (parser_ok M) (parse_sps s)"
  unfolding parse_sps_def
  by (intro ok_yield_reads ok_state_reads ok_yield_let ok_let ok_if yields_if yields_Some_intro ok_skips
        sps_high_profile_ok sps_pic_order_ok ok_set_mbaff parse_vui_ok; assumption)

section \<open>SEI messages\<close>

lemmas ok_pair_reads = safe_reads [where Q = "\<lambda>x. parser_ok M' (snd x)" for M']

lemma buf_period_loop_ok:
  "parser_ok M s \<Longrightarrow> buf_period_ok p \<Longrightarrow> idx + k \<le> MAX_CPB_COUNT \<Longrightarrow>
   yields (\<lambda>(p', s'). buf_period_ok p' \<and> parser_ok M s') (buf_period_loop len idx k p s)"
proof (induction k arbitrary: idx p s)
  case (Suc k)
  have l: "idx < length (initial_cpb_removal_delay p)" "idx < length (initial_cpb_removal_delay_offset p)"
    using Suc.prems by (auto simp: buf_period_ok_def)
  show ?case unfolding buf_period_loop.simps
    apply (rule ok_yield_reads, rule Suc.prems)
    apply (rule yields_bind, rule yields_put, rule l, rule length_list_update)
    apply (rule ok_yield_reads, assumption)
    apply (rule yields_bind, rule yields_put, rule l, rule length_list_update)
    apply (rule Suc.IH, assumption)
    using Suc.prems by (auto simp: buf_period_ok_def)
qed simp

lemma buf_period_hrd_ok:
  "parser_ok M s \<Longrightarrow> buf_period_ok p \<Longrightarrow>
   yields (\<lambda>(bad, p', s'). buf_period_ok p' \<and> parser_ok M s') (buf_period_hrd h p s)"
  unfolding buf_period_hrd_def
  apply (rule safe, simp)
  apply (rule yields_bind_pair, rule buf_period_loop_ok)
  by (simp_all add: not_less)

lemma buf_reset_ok: "parser_ok M s \<Longrightarrow> buf_period_ok ((sei_buf_period s)\<lparr>buf_period_is_valid := b\<rparr>)"
  using parser_okD(3) [of M s] by (simp add: buf_period_ok_def)

lemma sei_buffering_period_ok: "parser_ok M s \<Longrightarrow> yields (parser_ok M) (sei_buffering_period s)"
  unfolding sei_buffering_period_def
  apply (rule ok_yield_reads, assumption)
  apply (rule safe, simp)
  apply (rule safe)
  apply (rule safe)
  apply (rule yields_bind [where Q = "\<lambda>(bad, p', s'). buf_period_ok p' \<and> parser_ok M s'"])
   apply (rule safe)
    apply (rule buf_period_hrd_ok, assumption, simp add: buf_reset_ok)
   apply (simp add: buf_reset_ok)
  apply (clarify)
  apply (rule safe)
   apply (simp add: ok_set_buf)
  apply (rule yields_bind [where Q = "\<lambda>(bad, p', s'). buf_period_ok p' \<and> parser_ok M s'"])
   apply (rule safe)
    apply (rule buf_period_hrd_ok, assumption, assumption)
   apply simp
  apply clarify
  apply (rule safe)
   apply (simp add: ok_set_buf)
  apply (simp add: ok_set_buf buf_period_ok_def)
  done

lemma clock_hms_ok: "parser_ok M s \<Longrightarrow> parser_ok M (snd (clock_hms t s))"
  unfolding clock_hms_def
  by (auto simp: Let_def case_prod_beta intro!: reads_ok [OF reads_extract])

lemma clock_timestamp_ok: "parser_ok M s \<Longrightarrow> parser_ok M (snd (clock_timestamp len t s))"
  unfolding clock_timestamp_def
  by (auto simp: Let_def case_prod_beta intro!: reads_ok [OF reads_extract] reads_ok [OF reads_iv] clock_hms_ok)

lemma clock_loop_ok: "parser_ok M s \<Longrightarrow> parser_ok M (snd (clock_loop len k t s))"
proof (induction k arbitrary: t s)
  case (Suc k)
  then show ?case using clock_timestamp_ok [OF Suc.prems] by (auto simp: Let_def case_prod_beta)
qed simp

lemma sei_picture_timing_ok: "parser_ok M s \<Longrightarrow> parser_ok M (sei_picture_timing s)"
  unfolding sei_picture_timing_def
  by (auto simp: Let_def case_prod_beta intro!: ok_set_timing clock_loop_ok reads_ok [OF reads_extract])

lemma frame_pack_body_ok: "parser_ok M s \<Longrightarrow> parser_ok M (snd (frame_pack_body f s))"
  unfolding frame_pack_body_def frame_pack_grid_def frame_pack_tail_def
  by (auto simp: Let_def case_prod_beta intro!: reads_ok [OF reads_extract] reads_ok [OF reads_uev])

lemma parse_frame_pack_ok: "parser_ok M s \<Longrightarrow> parser_ok M (parse_frame_pack s)"
  unfolding parse_frame_pack_def Let_def case_prod_beta
  by (intro ok_set_pack reads_ok [OF reads_extract])
    (auto intro!: reads_ok [OF reads_extract] reads_ok [OF reads_uev] frame_pack_body_ok)

section \<open>The pan-scan rectangle\<close>

lemma rect_loop_ok:
  "parser_ok M s \<Longrightarrow> rect_typed p \<Longrightarrow> i + k \<le> MAX_PAN_SCAN_RECT \<Longrightarrow>
   yields (\<lambda>(p', s'). rect_typed p' \<and> ps_cnt p' = ps_cnt p \<and> parser_ok M s') (rect_loop i k p s)"
proof (induction k arbitrary: i p s)
  case (Suc k)
  have l: "i < length (rect_left_offset p)" "i < length (rect_right_offset p)"
    "i < length (rect_top_offset p)" "i < length (rect_bottom_offset p)"
    using Suc.prems by (auto simp: rect_typed_def)
  show ?case unfolding rect_loop.simps
    apply (rule ok_yield_reads, rule Suc.prems)
    apply (rule yields_bind, rule yields_put, rule l, rule length_list_update)
    apply (rule ok_yield_reads, assumption)
    apply (rule yields_bind, rule yields_put, rule l, rule length_list_update)
    apply (rule ok_yield_reads, assumption)
    apply (rule yields_bind, rule yields_put, rule l, rule length_list_update)
    apply (rule ok_yield_reads, assumption)
    apply (rule yields_bind, rule yields_put, rule l, rule length_list_update)
    subgoal for v s' y va s'a ya vb s'b yb vc s'c yc
      using Suc.prems Suc.IH [of s'c "p\<lparr>rect_left_offset := y, rect_right_offset := ya,
        rect_top_offset := yb, rect_bottom_offset := yc\<rparr>" "Suc i"]
      by (simp add: rect_typed_def)
    done
qed simp

lemma parse_rect_ok:
  assumes "parser_ok M s" "rect_typed p"
  shows "yields (\<lambda>(p', s'). rect_typed p' \<and> rect_usable p' \<and> parser_ok M s') (parse_rect p s)"
proof -
  have bit: "NO_PAN_SCAN_BIT AND NO_PAN_SCAN_BIT \<noteq> 0" by (simp add: NO_PAN_SCAN_BIT_def)
  show ?thesis unfolding parse_rect_def
    apply (rule ok_yield_reads, rule assms)
    apply (rule safe)
    apply (rule safe)
    using assms(2) bit apply (simp add: rect_typed_def rect_usable_def)
    apply (rule ok_yield_reads, assumption)
    apply (rule safe)
    apply (rule safe)
    using assms(2) bit apply (simp add: rect_typed_def rect_usable_def)
    apply (rule ok_yield_reads, assumption)
    apply (rule safe)
    apply (rule safe)
    using assms(2) bit apply (simp add: rect_typed_def rect_usable_def)
    apply (rule yields_bind_pair, rule rect_loop_ok, assumption)
    using assms(2) apply (simp add: rect_typed_def)
     apply simp
    apply (elim conjE)
    apply (rule ok_yield_reads, assumption)
    apply (simp add: rect_typed_def rect_usable_def)
    done
qed

lemma reset_node_param: "pan_scan_param (reset_node n) = (pan_scan_param n)\<lparr>rect_id := NO_PAN_SCAN_BIT\<rparr>"
  by (simp add: reset_node_def)

lemma get_free_panscan:
  assumes "panscan_ok ps"
  shows "\<exists>r h u f. get_free ps = (r, h, u, f) \<and> panscan_ok (h, u, f) \<and>
    (\<forall>n. r = Some n \<longrightarrow> rect_typed (pan_scan_param (h ! n)))"
proof -
  obtain h u f where ps: "ps = (h, u, f)" by (cases ps)
  from assms obtain xs ys where a: "handler_ok (h, u, f) xs ys"
    "\<And>i. i < length h \<Longrightarrow> rect_typed (pan_scan_param (h ! i))"
    "\<And>i. i \<in> set xs \<Longrightarrow> rect_usable (pan_scan_param (h ! i))"
    by (auto simp: panscan_ok_def ps)
  from get_free_ok [OF a(1)] obtain r h' u' f' xs' ys' where g: "get_free (h, u, f) = (r, h', u', f')"
    "handler_ok (h', u', f') xs' ys'" "length h' = length h" "set xs' = set xs \<union> set_option r"
    "\<And>j. payload (h' ! j) = (if j \<in> set_option r then reset_node (payload (h ! j)) else payload (h ! j))"
    by blast
  have p: "pan_scan_param (h' ! j) = (if j \<in> set_option r then (pan_scan_param (h ! j))\<lparr>rect_id := NO_PAN_SCAN_BIT\<rparr>
      else pan_scan_param (h ! j))" for j
    using g(5) [of j] by (metis payload_sel(4) reset_node_param)
  have bit: "NO_PAN_SCAN_BIT AND NO_PAN_SCAN_BIT \<noteq> 0" by (simp add: NO_PAN_SCAN_BIT_def)
  have t: "i < length h \<Longrightarrow> rect_typed (pan_scan_param (h' ! i))" for i
    using a(2) [of i] by (simp add: p rect_typed_def)
  have us: "i \<in> set xs' \<Longrightarrow> rect_usable (pan_scan_param (h' ! i))" for i
    using a(3) [of i] g(4) bit by (auto simp: p rect_usable_def)
  have "n < length h" if "r = Some n" for n
    using that g(2-4) by (auto simp: handler_ok_def)
  then show ?thesis using g(1-3) t us unfolding ps panscan_ok_def by fastforce
qed

lemma panscan_upd:
  assumes "panscan_ok (h, u, f)" "rect_typed p" "rect_usable p"
  shows "panscan_ok (upd_node n (pan_scan_param_update (\<lambda>_. p)) h, u, f)"
proof -
  from assms(1) obtain xs ys where a: "handler_ok (h, u, f) xs ys"
    "\<And>i. i < length h \<Longrightarrow> rect_typed (pan_scan_param (h ! i))"
    "\<And>i. i \<in> set xs \<Longrightarrow> rect_usable (pan_scan_param (h ! i))"
    by (auto simp: panscan_ok_def)
  have b: "i \<in> set xs \<Longrightarrow> i < length h" for i using a(1) by (auto simp: handler_ok_def)
  show ?thesis unfolding panscan_ok_def
    by (rule exI [of _ xs], rule exI [of _ ys]) (auto simp: handler_ok_upd_data upd_node_nth a b assms(2,3))
qed

lemma sei_pan_scan_ok:
  assumes "parser_ok M s"
  shows "yields (parser_ok M) (sei_pan_scan s)"
proof -
  obtain ps where ps: "panscan_hdl s = Some ps" "panscan_ok ps" using parser_okD(4) [OF assms] by blast
  obtain r h u f where g: "get_free ps = (r, h, u, f)" "panscan_ok (h, u, f)"
    "\<And>n. r = Some n \<Longrightarrow> rect_typed (pan_scan_param (h ! n))"
    using get_free_panscan [OF ps(2)] by blast
  show ?thesis
  proof (cases r)
    case None
    then show ?thesis using assms ps g by (simp add: sei_pan_scan_def ok_set_hdl)
  next
    case (Some n)
    then show ?thesis using assms ps g parse_rect_ok [OF assms g(3) [OF Some]]
      by (auto simp: sei_pan_scan_def yields_def intro!: ok_set_hdl panscan_upd)
  qed
qed

lemma sei_payload_ok: "parser_ok M s \<Longrightarrow> yields (parser_ok M) (sei_payload t s)"
  by (cases "payload_kind t")
    (simp_all add: sei_payload_def sei_buffering_period_ok sei_picture_timing_ok sei_pan_scan_ok
      parse_frame_pack_ok)

section \<open>The SEI loop\<close>

lemma extract_8_value:
  assumes "window_ok s" "extract_bits 8 s = (v, t)"
  shows "unat v \<le> 255" "stream_bits t = drop 8 (stream_bits s)" "window_ok t"
    "v = 0xFF \<Longrightarrow> 8 \<le> length (stream_bits s)"
proof -
  let ?b = "take 8 (stream_bits s)"
  have x: "v = of_nat (bits_val ?b)" "stream_bits t = drop 8 (stream_bits s)" "window_ok t"
    using extract_bits_spec [OF assms(1), of 8] assms(2) by auto
  have l: "bits_val ?b < 2 ^ length ?b" by (rule bits_val_less)
  also have "\<dots> \<le> 2 ^ 8" by (rule power_increasing) auto
  finally have "bits_val ?b < 256" by simp
  then have u: "unat v = bits_val ?b" unfolding x(1) by (intro unat_of_nat32) simp
  show "unat v \<le> 255" using u \<open>bits_val ?b < 256\<close> by simp
  show "stream_bits t = drop 8 (stream_bits s)" "window_ok t" by fact+
  show "8 \<le> length (stream_bits s)" if "v = 0xFF"
  proof (rule ccontr)
    assume "\<not> 8 \<le> length (stream_bits s)"
    then have "length ?b \<le> 7" by simp
    then have "(2::nat) ^ length ?b \<le> 2 ^ 7" by (rule power_increasing) simp
    with l u that show False by simp
  qed
qed

lemma unat_add_no_wrap: "unat (x :: u32) + unat y < 2 ^ 32 \<Longrightarrow> unat (x + y) = unat x + unat y"
  by (simp add: unat_word_ariths)

lemma ff_coded_bounds:
  assumes "window_ok s" "k = length (stream_bits s) div 8"
    and "unat acc + 255 * (k + 1) < 2 ^ 32" "unat n + (k + 1) < 2 ^ 32" "ff_coded acc n s = (a', n', t)"
  shows "reads s t \<and> unat a' \<le> unat acc + 255 * (k + 1) \<and> unat n < unat n' \<and> unat n' \<le> unat n + (k + 1)
    \<and> length (stream_bits t) \<le> length (stream_bits s)"
  using assms
proof (induction acc n s arbitrary: k rule: ff_coded.induct)
  case (1 acc n s)
  obtain v s1 where e: "extract_bits 8 s = (v, s1)" by force
  note x = extract_8_value [OF "1.prems"(1) e]
  have r: "reads s s1" using reads_extract [of s 8] e by simp
  have n1: "unat (n + 1) = unat n + 1" using "1.prems"(4) by (simp add: unat_add_no_wrap)
  have av: "unat (acc + v) = unat acc + unat v" using "1.prems"(3) x(1) by (simp add: unat_add_no_wrap)
  show ?case
  proof (cases "v = 0xFF")
    case True
    have k: "k = Suc (length (stream_bits s1) div 8)"
      using x(2) x(4) [OF True] "1.prems"(2) by (simp add: le_div_geq)
    have f: "ff_coded (acc + v) (n + 1) s1 = (a', n', t)"
      using "1.prems"(5) by (subst (asm) ff_coded.simps) (simp add: e True)
    have "reads s1 t \<and> unat a' \<le> unat (acc + v) + 255 * (length (stream_bits s1) div 8 + 1) \<and>
      unat (n + 1) < unat n' \<and> unat n' \<le> unat (n + 1) + (length (stream_bits s1) div 8 + 1) \<and>
      length (stream_bits t) \<le> length (stream_bits s1)"
      using "1.prems"(3,4) k x(1,3) n1 av f by (intro "1.IH" [OF refl e [symmetric] True]) auto
    then show ?thesis using r reads_trans k x(1,2) n1 av by auto
  next
    case False
    then have "ff_coded acc n s = (acc + v, n + 1, s1)"
      by (subst ff_coded.simps) (simp add: e)
    then have "a' = acc + v" "n' = n + 1" "t = s1" using "1.prems"(5) by auto
    then show ?thesis using r x(1,2) n1 av by auto
  qed
qed

lemma length_unescape: "length (unescape en z bs) \<le> length bs"
  by (induction bs arbitrary: z) (auto simp: le_SucI)

lemma init_bitstream_parser_ok:
  "parser_ok M s \<Longrightarrow> length data \<le> M \<Longrightarrow> parser_ok M (init_bitstream data s)"
  using init_bitstream_ok(1) [of data s]
  by (simp add: parser_ok_def reader_ok_def ctx_ok_def) (simp add: init_bitstream_def)

lemma init_bitstream_length: "length (stream_bits (init_bitstream data s)) \<le> 8 * length data"
  using length_unescape [of "emulation_sc_enabled s" 0 data] by (simp add: init_bitstream_ok(2))

lemma parser_ok_window: "parser_ok M s \<Longrightarrow> window_ok s"
  by (simp add: parser_ok_def reader_ok_def)

lemma sei_header_bounds:
  assumes "parser_ok M s" "length data \<le> 2 ^ 23" "length data \<le> M"
    and "ff_coded 0 0 (init_bitstream data s) = (ty, n1, s1)" "ff_coded 0 0 s1 = (sz, n2, s2)"
  shows "parser_ok M s2" "unat sz \<le> 255 * (length data + 1)"
    "0 < unat n1" "unat n1 \<le> length data + 1" "unat n2 \<le> length data + 1"
proof -
  let ?s0 = "init_bitstream data s"
  have ok0: "parser_ok M ?s0" using assms(1,3) by (rule init_bitstream_parser_ok)
  have l0: "length (stream_bits ?s0) div 8 \<le> length data"
    using init_bitstream_length [of data s] by simp
  have f1: "reads ?s0 s1 \<and> unat ty \<le> unat (0::u32) + 255 * (length (stream_bits ?s0) div 8 + 1) \<and>
    unat (0::u32) < unat n1 \<and> unat n1 \<le> unat (0::u32) + (length (stream_bits ?s0) div 8 + 1) \<and>
    length (stream_bits s1) \<le> length (stream_bits ?s0)"
    using l0 assms(2) by (intro ff_coded_bounds [OF init_bitstream_ok(1) refl _ _ assms(4)]) auto
  then have ok1: "parser_ok M s1" using ok0 by (auto intro: reads_ok)
  have l1: "length (stream_bits s1) div 8 \<le> length data"
    using f1 l0 div_le_mono by (meson le_trans)
  have f2: "reads s1 s2 \<and> unat sz \<le> unat (0::u32) + 255 * (length (stream_bits s1) div 8 + 1) \<and>
    unat (0::u32) < unat n2 \<and> unat n2 \<le> unat (0::u32) + (length (stream_bits s1) div 8 + 1) \<and>
    length (stream_bits s2) \<le> length (stream_bits s1)"
    using l1 assms(2) by (intro ff_coded_bounds [OF parser_ok_window [OF ok1] refl _ _ assms(5)]) auto
  show "parser_ok M s2" using ok1 f2 by (auto intro: reads_ok)
  show "unat sz \<le> 255 * (length data + 1)" "0 < unat n1" "unat n1 \<le> length data + 1"
    "unat n2 \<le> length data + 1" using f1 f2 l0 l1 by auto
qed

text \<open>
  Each round advances \<open>processed\<close> and, for messages below 8 MB, no counter wraps.
\<close>

lemma parse_sei_loop_ok:
  assumes "length msg \<le> M" "M \<le> 2 ^ 23"
  shows "parser_ok M s \<Longrightarrow> unat processed + 2 < 2 ^ 32 \<Longrightarrow>
    yields (parser_ok M) (parse_sei_loop msg processed s)"
proof (induction "2 ^ 32 - unat processed" arbitrary: processed s rule: less_induct)
  case less
  have p2: "unat (processed + 2) = unat processed + 2"
    using less.prems(2) by (simp add: unat_add_no_wrap)
  have ml: "unat (of_nat (length msg) :: u32) = length msg" using assms by (intro unat_of_nat32) simp
  show ?case
  proof (cases "processed + 2 < of_nat (length msg) \<and> more_bits s")
    case False
    then show ?thesis using less.prems by (subst parse_sei_loop.simps) (simp only: if_False yields_Some)
  next
    case True
    then have lt: "unat processed + 2 < length msg" by (simp add: word_less_nat_alt p2 ml)
    let ?data = "drop (unat processed) msg"
    obtain ty n1 s1 where f1: "ff_coded 0 0 (init_bitstream ?data s) = (ty, n1, s1)" by (metis prod_cases3)
    obtain sz n2 s2 where f2: "ff_coded 0 0 s1 = (sz, n2, s2)" by (metis prod_cases3)
    have d: "length ?data \<le> 2 ^ 23" "length ?data \<le> M" using assms by auto
    note b = sei_header_bounds [OF less.prems(1) d f1 f2]
    have dl: "length ?data \<le> length msg" by simp
    have body: "yields (parser_ok M) (if sz > 0 then sei_payload ty s2 else Some s2)"
      using b(1) by (simp add: sei_payload_ok)
    then obtain s3 where s3: "(if sz > 0 then sei_payload ty s2 else Some s2) = Some s3" "parser_ok M s3"
      by (auto simp: yields_def)
    define skip where "skip = emulation_code_skip_cntr s3"
    have sk: "skip \<le> M" using s3(2) by (simp add: parser_ok_def reader_ok_def skip_def)
    define p' where "p' = processed + n1 + n2 + (sz + of_nat skip)"
    have us: "unat (of_nat skip :: u32) = skip" using sk assms by (intro unat_of_nat32) simp
    have u: "unat p' = unat processed + unat n1 + unat n2 + (unat sz + skip)"
    proof -
      have 1: "unat (processed + n1) = unat processed + unat n1"
        using b(4) lt dl assms by (intro unat_add_no_wrap) simp
      have 2: "unat (processed + n1 + n2) = unat processed + unat n1 + unat n2"
        using 1 b(4,5) lt dl assms by (subst unat_add_no_wrap) auto
      have 3: "unat (sz + of_nat skip) = unat sz + skip"
        using us b(2) dl sk assms by (subst unat_add_no_wrap) auto
      show ?thesis unfolding p'_def
        using 2 3 b(2,4,5) lt dl sk assms by (subst unat_add_no_wrap) auto
    qed
    have run: "parse_sei_loop msg processed s = parse_sei_loop msg p' s3"
      using True lt s3(1) by (subst parse_sei_loop.simps) (simp add: f1 f2 p'_def skip_def)
    show ?thesis unfolding run
      using u b(2-5) lt dl sk assms s3(2) less.prems(2) by (intro less.hyps) auto
  qed
qed

lemma parse_sei_ok:
  assumes "parser_ok M s" "M \<le> 2 ^ 23"
  shows "yields (parser_ok M) (parse_sei s)"
  unfolding parse_sei_def using assms
  by (intro parse_sei_loop_ok) (auto simp: parser_ok_def reader_ok_def)

section \<open>NAL units\<close>

text \<open>
  A NAL type other than 0 is only read while bits remain, so the bytes counted before it lie in
  the buffer.
\<close>

lemma extract_drop:
  assumes "window_ok s" "n \<le> 32" "extract_bits n s = (v, t)"
  shows "window_ok t" "length (stream_bits t) = length (stream_bits s) - n"
    "length (stream_bits s) = 0 \<Longrightarrow> v = 0"
  using extract_bits_spec [OF assms(1,2)] assms(3) by auto

lemma nal_search_count:
  assumes "nal_search v c s = (v', c', t)" "window_ok s"
  shows "window_ok t \<and> c \<le> c' \<and> length (stream_bits t) = length (stream_bits s) - 8 * (c' - c)"
  using assms
proof (induction v c s rule: nal_search.induct)
  case (1 v c s)
  show ?case
  proof (cases "v \<noteq> 1 \<and> more_bits s")
    case False
    then have "nal_search v c s = (v, c, s)" by (subst nal_search.simps) (simp only: if_False)
    then show ?thesis using "1.prems" by simp
  next
    case True
    obtain w s1 where e: "extract_bits 8 s = (w, s1)" by force
    note d = extract_drop [OF "1.prems"(2) _ e]
    have f: "nal_search (push_bit 8 v OR w) (c + 1) s1 = (v', c', t)"
      using "1.prems"(1) True by (subst (asm) nal_search.simps) (simp add: e)
    have "window_ok t \<and> c + 1 \<le> c' \<and> length (stream_bits t) = length (stream_bits s1) - 8 * (c' - (c + 1))"
      using d(1) by (intro "1.IH" [OF True refl e [symmetric] f]) simp
    then show ?thesis using d(2) by auto
  qed
qed

lemma get_nal_unit_type_count:
  assumes "window_ok s" "length (stream_bits s) \<le> 8 * N" "get_nal_unit_type s = ((ty, cons), t)" "ty \<noteq> 0"
  shows "cons \<le> N"
proof -
  obtain v0 s0 where e0: "extract_bits 24 s = (v0, s0)" by force
  obtain v c s1 where n: "nal_search v0 3 s0 = (v, c, s1)" by (metis prod_cases3)
  obtain f s2 where e2: "extract_bits 1 s1 = (f, s2)" by force
  obtain r s3 where e3: "extract_bits 2 s2 = (r, s3)" by force
  obtain u s4 where e4: "extract_bits 5 s3 = (u, s4)" by force
  have v: "v = 1" and ty: "ty = unat u" and cons: "cons = c + 1"
    using assms(3,4) e0 n e2 e3 e4
    by (auto simp: get_nal_unit_type_def split: if_splits)
  note d0 = extract_drop [OF assms(1) _ e0]
  note ns = nal_search_count [OF n]
  have w0: "window_ok s0" "length (stream_bits s0) = length (stream_bits s) - 24" using d0 by auto
  have w1: "window_ok s1" "3 \<le> c" "length (stream_bits s1) = length (stream_bits s0) - 8 * (c - 3)"
    using ns w0 by auto
  have w2: "window_ok s2" "length (stream_bits s2) = length (stream_bits s1) - 1"
    using extract_drop [OF w1(1) _ e2] by auto
  have w3: "window_ok s3" "length (stream_bits s3) = length (stream_bits s2) - 2"
    using extract_drop [OF w2(1) _ e3] by auto
  have "length (stream_bits s3) \<noteq> 0"
    using extract_drop(3) [OF w3(1) _ e4] ty assms(4) by auto
  then show ?thesis using w0 w1 w2 w3 cons assms(2) by auto
qed

lemma parse_nal_ok:
  assumes "parser_ok M s" "length data \<le> M" "M \<le> 2 ^ 23"
  shows "yields (parser_ok M) (parse_nal data nal_type en s)"
proof (cases "data = []")
  case True
  then show ?thesis using assms by (simp add: parse_nal_def)
next
  case False
  define s0 where "s0 = (init_bitstream data s)\<lparr>emulation_sc_enabled := en\<rparr>"
  have i: "s0 = init_bitstream data (s\<lparr>emulation_sc_enabled := en\<rparr>)"
    by (simp add: s0_def init_bitstream_def)
  have ok: "parser_ok M s0"
    unfolding i using assms(1,2)
    by (intro init_bitstream_parser_ok) (auto simp: parser_ok_def reader_ok_def ctx_ok_def window_ok_def)
  obtain nt cons s1 where n: "(if nal_type \<noteq> NALU_TYPE_VUI then get_nal_unit_type s0
      else ((NALU_TYPE_UNSPECIFIED, 0), s0)) = ((nt, cons), s1)" by (metis surj_pair)
  have ok1: "parser_ok M s1"
    using n ok reads_ok [OF reads_nal_unit_type ok] by (auto split: if_splits)
  have cons: "cons \<le> length data" if "nal_type = nt" "nal_type = NALU_TYPE_SEI"
    using n that get_nal_unit_type_count [OF parser_ok_window [OF ok], of "length data"]
      init_bitstream_length [of data "s\<lparr>emulation_sc_enabled := en\<rparr>"]
    by (auto simp: i NALU_TYPE_SEI_def NALU_TYPE_VUI_def)
  have sps: "yields (parser_ok M) (Option.bind (if more_bits s1 then parse_sps s1 else Some s1)
      (\<lambda>s. Option.bind (panscan_hdl s) (\<lambda>ps. Some (s\<lparr>panscan_hdl := Some (snd (get_free ps))\<rparr>))))"
  proof (rule yields_bind)
    show "yields (parser_ok M) (if more_bits s1 then parse_sps s1 else Some s1)"
      using ok1 by (simp add: parse_sps_ok)
    fix t assume t: "parser_ok M t"
    obtain ps where "panscan_hdl t = Some ps" "panscan_ok ps" using parser_okD(4) [OF t] by blast
    then show "yields (parser_ok M) (Option.bind (panscan_hdl t)
        (\<lambda>ps. Some (t\<lparr>panscan_hdl := Some (snd (get_free ps))\<rparr>)))"
      using get_free_panscan [of ps] t by (auto intro!: ok_set_hdl)
  qed
  show ?thesis
    using False n ok1 sps cons assms(2,3)
    by (auto simp: parse_nal_def s0_def [symmetric] parse_vui_ok NALU_TYPE_SPS_def NALU_TYPE_SEI_def
        NALU_TYPE_VUI_def NALU_TYPE_UNSPECIFIED_def intro!: parse_sei_ok init_bitstream_parser_ok)
qed

section \<open>Handing out the rectangle\<close>

lemma get_populated_ok:
  assumes "handler_ok (h, u, f) xs ys"
  shows "\<exists>r h' u' f' xs' ys'. get_populated ts (h, u, f) = Some (r, h', u', f') \<and>
    handler_ok (h', u', f') xs' ys' \<and> set xs' \<subseteq> set xs \<and> set_option r \<subseteq> set xs \<and> length h' = length h \<and>
    (\<forall>j < length h. \<exists>p. pan_scan_param (h' ! j) = (pan_scan_param (h ! j))\<lparr>rect_repetition_period := p\<rparr>)"
proof -
  define es where "es = takeWhile (\<lambda>n. expired ts (h ! n)) xs"
  define rs where "rs = dropWhile (\<lambda>n. expired ts (h ! n)) xs"
  note spec = get_populated_spec [OF assms es_def rs_def]
  have xs: "xs = es @ rs" by (simp add: es_def rs_def)
  have upd: "\<exists>q. p = p\<lparr>rect_repetition_period := q\<rparr>" for p :: h264_pan_scan
    by (cases p) auto
  have size: "length h' = length h" if "handler_ok (h', u', f') xs' ys'" "set (xs' @ ys') = set (xs @ ys)"
    for h' u' f' xs' ys'
  proof -
    have "{..<length h'} = {..<length h}" using that assms by (auto simp: handler_ok_def)
    then show ?thesis by simp
  qed
  show ?thesis
  proof (cases "loop_result ts h rs")
    case None
    with spec obtain h' u' f' where g: "get_populated ts (h, u, f) = Some (None, h', u', f')"
      "handler_ok (h', u', f') rs (ys @ es)" "\<forall>j < length h. pan_scan_param (h' ! j) = pan_scan_param (h ! j)"
      by auto
    then show ?thesis using size [OF g(2)] upd xs
      by (intro exI [of _ None] exI [of _ h'] exI [of _ u'] exI [of _ f'] exI [of _ rs] exI [of _ "ys @ es"])
        auto
  next
    case (Some n)
    then have rs: "rs \<noteq> []" "n \<in> set rs" by (auto simp: loop_result_def split: list.splits if_splits)
    have hd: "hd rs = n" using Some by (auto simp: loop_result_def split: list.splits if_splits)
    define period where "period = rect_repetition_period (pan_scan_param (h ! n))"
    from spec Some obtain h' u' f' where g: "get_populated ts (h, u, f) = Some (Some n, h', u', f')"
      "if period = 0 then handler_ok (h', u', f') (tl rs) (ys @ es @ [n]) else handler_ok (h', u', f') rs (ys @ es)"
      "\<forall>j < length h. pan_scan_param (h' ! j) = (if j = n \<and> 1 < period
          then (pan_scan_param (h ! j))\<lparr>rect_repetition_period := period - 2\<rparr> else pan_scan_param (h ! j))"
      by (auto simp: Let_def period_def)
    define xs' ys' where "xs' = (if period = 0 then tl rs else rs)" and
      "ys' = (if period = 0 then ys @ es @ [n] else ys @ es)"
    have ok: "handler_ok (h', u', f') xs' ys'" using g(2) by (simp add: xs'_def ys'_def)
    have st: "set (xs' @ ys') = set (xs @ ys)" "set xs' \<subseteq> set xs" "n \<in> set xs"
      using xs rs hd by (cases rs; auto simp: xs'_def ys'_def)+
    have "\<exists>p. pan_scan_param (h' ! j) = (pan_scan_param (h ! j))\<lparr>rect_repetition_period := p\<rparr>"
      if "j < length h" for j
      using g(3) that upd by (cases "j = n \<and> 1 < period") (auto simp del: word_not_simps)
    then show ?thesis using g(1) ok st size [OF ok st(1)]
      by (intro exI [of _ "Some n"] exI [of _ h'] exI [of _ u'] exI [of _ f'] exI [of _ xs'] exI [of _ ys'])
        auto
  qed
qed

lemma fill_windows_ok:
  "rect_typed p \<Longrightarrow> i + k \<le> MAX_PAN_SCAN_RECT \<Longrightarrow> yields (\<lambda>ws. length ws = k) (fill_windows i k p)"
proof (induction k arbitrary: i)
  case (Suc k)
  then have l: "i < length (rect_left_offset p)" "i < length (rect_right_offset p)"
    "i < length (rect_top_offset p)" "i < length (rect_bottom_offset p)"
    by (auto simp: rect_typed_def)
  have "yields (\<lambda>ws. length ws = k) (fill_windows (Suc i) k p)" using Suc by auto
  then show ?case using l by (auto simp: get_at_def yields_def)
qed simp

lemma fill_pan_scan_ok:
  assumes "parser_ok M s"
  shows "yields (\<lambda>(ws, s'). parser_ok M s' \<and> (\<forall>w. ws = Some w \<longrightarrow> length w \<le> MAX_PAN_SCAN_RECT))
    (fill_pan_scan_data ts s)"
proof -
  obtain h u f where ps: "panscan_hdl s = Some (h, u, f)" "panscan_ok (h, u, f)"
    using parser_okD(4) [OF assms] by (metis prod_cases3)
  from ps(2) obtain xs ys where a: "handler_ok (h, u, f) xs ys"
    "\<And>i. i < length h \<Longrightarrow> rect_typed (pan_scan_param (h ! i))"
    "\<And>i. i \<in> set xs \<Longrightarrow> rect_usable (pan_scan_param (h ! i))"
    by (auto simp: panscan_ok_def)
  have lt: "i \<in> set xs \<Longrightarrow> i < length h" for i using a(1) by (auto simp: handler_ok_def)
  from get_populated_ok [OF a(1), of ts] obtain r h' u' f' xs' ys' where g:
    "get_populated ts (h, u, f) = Some (r, h', u', f')" "handler_ok (h', u', f') xs' ys'"
    "set xs' \<subseteq> set xs" "set_option r \<subseteq> set xs" "length h' = length h"
    "\<And>j. j < length h \<Longrightarrow> \<exists>p. pan_scan_param (h' ! j) = (pan_scan_param (h ! j))\<lparr>rect_repetition_period := p\<rparr>"
    by blast
  have t: "i < length h \<Longrightarrow> rect_typed (pan_scan_param (h' ! i))" for i
    using a(2) [of i] g(6) [of i] by (auto simp: rect_typed_def)
  have us: "i \<in> set xs \<Longrightarrow> rect_usable (pan_scan_param (h' ! i))" for i
    using a(3) [of i] g(6) [of i] lt [of i] by (auto simp: rect_usable_def)
  have ok': "panscan_ok (h', u', f')" unfolding panscan_ok_def
    using g(2,3,5) t us by (intro exI [of _ xs'] exI [of _ ys']) auto
  show ?thesis
  proof (cases r)
    case None
    then show ?thesis using assms ps g(1) ok' by (simp add: fill_pan_scan_data_def ok_set_hdl)
  next
    case (Some n)
    define p where "p = pan_scan_param (h' ! n)"
    have n: "n < length h" "n \<in> set xs" using Some g(4) lt by auto
    show ?thesis
    proof (cases "rect_id p AND NO_PAN_SCAN_BIT = 0")
      case True
      then have "unat (ps_cnt p) \<le> MAX_PAN_SCAN_RECT" using us [OF n(2)] by (simp add: rect_usable_def p_def)
      with fill_windows_ok [of p 0 "unat (ps_cnt p)"] t [OF n(1)] obtain ws where
        "fill_windows 0 (unat (ps_cnt p)) p = Some ws" "length ws \<le> MAX_PAN_SCAN_RECT"
        by (auto simp: p_def yields_def)
      then show ?thesis using True Some assms ps g(1) ok'
        by (simp add: fill_pan_scan_data_def p_def ok_set_hdl)
    next
      case False
      have "panscan_ok (upd_node n (pan_scan_param_update (rect_repetition_period_update (\<lambda>_. 0))) h', u', f')"
        unfolding panscan_ok_def
        by (rule exI [of _ xs'], rule exI [of _ ys'], use g(2,3,5) t us lt in
          \<open>auto simp: handler_ok_upd_data upd_node_nth rect_typed_def rect_usable_def subset_iff\<close>)
      then show ?thesis using False Some assms ps g(1)
        by (simp add: fill_pan_scan_data_def p_def ok_set_hdl)
    qed
  qed
qed

lemma update_last_links: "handler_ok (update_last ts ps) xs ys \<longleftrightarrow> handler_ok ps xs ys"
  by (cases ps) (simp add: update_last_def Let_def handler_ok_upd_data split: option.split)

text \<open>A rectangle up to its repetition period.\<close>

definition rect_shape :: "panscan_node \<Rightarrow> h264_pan_scan" where
  "rect_shape n = (pan_scan_param n)\<lparr>rect_repetition_period := 0\<rparr>"

lemma rect_shapeD:
  assumes "rect_shape m = rect_shape n"
  shows "rect_typed (pan_scan_param m) = rect_typed (pan_scan_param n)"
    "rect_usable (pan_scan_param m) = rect_usable (pan_scan_param n)"
proof -
  have "rect_typed (rect_shape k) = rect_typed (pan_scan_param k)"
    "rect_usable (rect_shape k) = rect_usable (pan_scan_param k)" for k
    by (simp_all add: rect_typed_def rect_usable_def rect_shape_def)
  with assms show "rect_typed (pan_scan_param m) = rect_typed (pan_scan_param n)"
    "rect_usable (pan_scan_param m) = rect_usable (pan_scan_param n)" by metis+
qed

lemma upd_node_shape:
  "(\<And>n. rect_shape (g n) = rect_shape n) \<Longrightarrow> rect_shape (upd_node i g h ! j) = rect_shape (h ! j)"
  by (cases "i = j"; cases "j < length h") (auto simp: upd_node_def list_update_beyond)

lemma rect_shape_simps [simp]:
  "rect_shape (n\<lparr>start_ts := t\<rparr>) = rect_shape n" "rect_shape (n\<lparr>end_ts := t\<rparr>) = rect_shape n"
  "rect_shape (n\<lparr>pan_scan_param := (pan_scan_param n)\<lparr>rect_repetition_period := q\<rparr>\<rparr>) = rect_shape n"
  by (simp_all add: rect_shape_def)

lemma update_last_shape:
  "update_last ts (h, u, f) = (h', u', f') \<Longrightarrow>
   length h' = length h \<and> rect_shape (h' ! j) = rect_shape (h ! j)"
  unfolding update_last_def Let_def
  by (auto split: option.splits if_splits simp: upd_node_shape)

lemma update_last_panscan:
  assumes "panscan_ok ps"
  shows "panscan_ok (update_last ts ps)"
proof -
  obtain h u f h' u' f' where ps: "ps = (h, u, f)" and r: "update_last ts (h, u, f) = (h', u', f')"
    by (cases ps; cases "update_last ts ps") auto
  note sh = update_last_shape [OF r]
  from assms obtain xs ys where "handler_ok ps xs ys"
    "\<And>i. i < length h \<Longrightarrow> rect_typed (pan_scan_param (h ! i))"
    "\<And>i. i \<in> set xs \<Longrightarrow> rect_usable (pan_scan_param (h ! i))"
    by (auto simp: panscan_ok_def ps)
  then show ?thesis
    using update_last_links [of ts ps] rect_shapeD [OF sh [THEN conjunct2]] sh
    unfolding panscan_ok_def ps r by (intro exI [of _ xs] exI [of _ ys]) (auto simp: r)
qed

section \<open>Runs of the parser\<close>

text \<open>The calls \<open>omx_vdec\<close> makes on the parser, in any order.\<close>

datatype parser_call = Parse_nal "u8 list" nat bool | Update_panscan int | Fill_panscan int | Reset

fun parser_step :: "parser_call \<Rightarrow> h264_parser \<Rightarrow> h264_parser option" where
  "parser_step (Parse_nal data ty en) s = parse_nal data ty en s"
| "parser_step (Update_panscan ts) s = update_panscan_data ts s"
| "parser_step (Fill_panscan ts) s = map_option snd (fill_pan_scan_data ts s)"
| "parser_step Reset s = Some (reset s)"

fun parser_run :: "parser_call list \<Rightarrow> h264_parser \<Rightarrow> h264_parser option" where
  "parser_run [] s = Some s"
| "parser_run (c # cs) s = Option.bind (parser_step c s) (parser_run cs)"

fun small_call :: "parser_call \<Rightarrow> bool" where
  "small_call (Parse_nal data ty en) \<longleftrightarrow> length data \<le> 2 ^ 23"
| "small_call _ \<longleftrightarrow> True"

lemma reset_ok: "parser_ok M s \<Longrightarrow> parser_ok M (reset s)"
  by (simp add: parser_ok_def ctx_ok_def reader_ok_def window_ok_def reset_def zero_vui_def zero_hrd_def
      hrd_ok_def zero_buf_period_def buf_period_ok_def)

lemma parser_step_ok:
  assumes "parser_ok (2 ^ 23) s" "small_call c"
  shows "yields (parser_ok (2 ^ 23)) (parser_step c s)"
proof (cases c)
  case (Parse_nal data ty en)
  then show ?thesis using assms by (simp add: parse_nal_ok)
next
  case (Update_panscan ts)
  obtain ps where "panscan_hdl s = Some ps" "panscan_ok ps" using parser_okD(4) [OF assms(1)] by blast
  then show ?thesis
    using Update_panscan assms(1) by (simp add: update_panscan_data_def ok_set_hdl update_last_panscan)
next
  case (Fill_panscan ts)
  then show ?thesis using fill_pan_scan_ok [OF assms(1), of ts] by (auto simp: yields_def)
next
  case Reset
  then show ?thesis using assms(1) by (simp add: reset_ok)
qed

lemma parser_run_ok:
  "parser_ok (2 ^ 23) s \<Longrightarrow> \<forall>c \<in> set cs. small_call c \<Longrightarrow> yields (parser_ok (2 ^ 23)) (parser_run cs s)"
proof (induction cs arbitrary: s)
  case (Cons c cs)
  then have "yields (parser_ok (2 ^ 23)) (parser_step c s)" by (intro parser_step_ok) auto
  then show ?case using Cons by (auto simp: yields_def)
qed simp

lemma new_parser_ok:
  assumes "malloc 10 = Some h" "length h = 10" "\<forall>n \<in> set h. rect_typed (pan_scan_param n)"
  shows "parser_ok M (new_h264_stream_parser malloc raw)"
proof -
  have e: "represents k empty_list []" for k
    by (simp add: represents_def linked_def empty_list_def option_hd_def option_last_def)
  obtain h1 f1 where a: "add_multiple [0..<10] (h, empty_list) = (h1, f1)"
    "represents h1 f1 [0..<10]" "length h1 = length h"
    using add_multiple_append [OF e, of "[0..<10]" h] assms(2) by auto
  have pay: "\<exists>m \<in> set h. payload (h1 ! j) = payload m" if "j < 10" for j
    using add_multiple_payload [OF a(1)] that assms(2) by (metis nth_mem)
  have "rect_typed (pan_scan_param (h1 ! j))" if "j < 10" for j
    using pay [OF that] assms(3) by (metis payload_sel(4))
  then have "panscan_ok (h1, empty_list, f1)"
    using a(2,3) e [of h1] assms(2) unfolding panscan_ok_def
    by (intro exI [of _ "[]"] exI [of _ "[0..<10]"]) (auto simp: handler_ok_def)
  then show ?thesis using a(1) assms(1)
    by (simp add: new_h264_stream_parser_def initialize_def new_panscan_handler_def parser_ok_def
        ctx_ok_def reader_ok_def window_ok_def reset_def zero_vui_def zero_hrd_def hrd_ok_def
        zero_buf_period_def buf_period_ok_def)
qed

section \<open>Safety of every run\<close>

text \<open>
  C12. Memory safety and termination of the H.264 parser: from a parser whose construction got its
  ten pan-scan nodes (with whatever contents), every sequence of \<open>parse_nal\<close>,
  \<open>update_panscan_data\<close>, \<open>fill_pan_scan_data\<close> and \<open>reset\<close> calls on NAL units of at most 8 MB
  returns, for any bytes: no loop runs forever, no array access is out of bounds, no null handler
  is used and no sub-buffer leaves the NAL unit; the state invariant holds at the end.
\<close>
theorem parser_run_safe:
  assumes "malloc 10 = Some h" "length h = 10" "\<forall>n \<in> set h. rect_typed (pan_scan_param n)"
    and "\<forall>c \<in> set cs. small_call c"
  shows "\<exists>s. parser_run cs (new_h264_stream_parser malloc raw) = Some s \<and> parser_ok (2 ^ 23) s"
  using parser_run_ok [OF new_parser_ok [of malloc h, OF assms(1-3)] assms(4)] by (simp add: yields_def)

definition raw_node :: panscan_node where
  "raw_node = (sample_node 0 0 False 9)\<lparr>pan_scan_param := (pan_scan_param (sample_node 0 0 False 9))\<lparr>
     ps_cnt := 77, rect_left_offset := [1, 2, 3], rect_right_offset := [1, 2, 3],
     rect_top_offset := [1, 2, 3], rect_bottom_offset := [1, 2, 3]\<rparr>\<rparr>"

theorem parser_run_safe_witness:
  "\<exists>s. parser_run [Parse_nal [0, 0, 1, 6, 2, 255, 3, 0, 0, 3, 1, 0xAB] NALU_TYPE_SEI True, Fill_panscan 5]
     (new_h264_stream_parser (\<lambda>n. Some (replicate n raw_node)) blank_parser) = Some s"
  using parser_run_safe [of "\<lambda>n. Some (replicate n raw_node)" "replicate 10 raw_node"
      "[Parse_nal [0, 0, 1, 6, 2, 255, 3, 0, 0, 3, 1, 0xAB] NALU_TYPE_SEI True, Fill_panscan 5]" blank_parser]
  by (auto simp: raw_node_def rect_typed_def sample_node_def MAX_PAN_SCAN_RECT_def)

text \<open>
  In every state the parser reaches, \<open>fill_pan_scan_data\<close> returns and copies at most
  \<open>MAX_PAN_SCAN_RECT\<close> windows, although the nodes start as uninitialised memory and the window
  count is read from the stream.
\<close>
theorem fill_pan_scan_bounded:
  assumes "parser_ok M s"
  shows "\<exists>ws s'. fill_pan_scan_data ts s = Some (ws, s') \<and> parser_ok M s' \<and>
    (\<forall>w. ws = Some w \<longrightarrow> length w \<le> MAX_PAN_SCAN_RECT)"
  using fill_pan_scan_ok [OF assms, of ts] by (auto simp: yields_def)

theorem fill_pan_scan_bounded_witness:
  "parser_ok 5 (new_h264_stream_parser (\<lambda>n. Some (replicate n raw_node)) blank_parser) \<and>
   (\<exists>r. fill_pan_scan_data 3 (new_h264_stream_parser (\<lambda>n. Some (replicate n raw_node)) blank_parser) = Some r)"
proof -
  have "parser_ok 5 (new_h264_stream_parser (\<lambda>n. Some (replicate n raw_node)) blank_parser)"
    by (rule new_parser_ok [of _ "replicate 10 raw_node"])
      (auto simp: raw_node_def rect_typed_def sample_node_def MAX_PAN_SCAN_RECT_def)
  with fill_pan_scan_bounded [OF this, of 3] show ?thesis by blast
qed

text \<open>
  \<open>get_frame_rate\<close> divides by zero for exactly one value its guard lets through,
  \<open>num_units_in_tick = 2^31\<close>, whose double wraps to 0; otherwise it returns
  \<open>time_scale / (2 * num_units_in_tick)\<close> with the wrapped divisor, or leaves the caller's value.
\<close>
theorem get_frame_rate_faults:
  "get_frame_rate s r = (let n = num_units_in_tick (vui_param s) in
     if n = 0x80000000 then None else if n = 0 then Some r
     else Some (time_scale (vui_param s) div (2 * n)))"
proof -
  have "2 * n = 0 \<longleftrightarrow> n = 0 \<or> n = 0x80000000" for n :: u32
  proof -
    have "unat (2 * n) = 2 * unat n mod 2 ^ 32" by (simp add: unat_word_ariths)
    then have "2 * n = 0 \<longleftrightarrow> 2 * unat n mod 4294967296 = 0"
      using unat_eq_0 [of "2 * n"] by simp
    also have "\<dots> \<longleftrightarrow> 2147483648 dvd unat n"
      using mult_mod_right [of 2 "unat n" 2147483648] by (simp add: mod_eq_0_iff_dvd)
    also have "\<dots> \<longleftrightarrow> unat n = 0 \<or> unat n = 2147483648"
      using unat_less_32 [of n] by (auto elim!: dvdE)
    also have "\<dots> \<longleftrightarrow> n = 0 \<or> n = 0x80000000"
      by (auto simp: word_unat_eq_iff)
    finally show ?thesis .
  qed
  then show ?thesis by (simp add: get_frame_rate_def Let_def)
qed

end
