(* ===== verification/NalFrame.thy ===== *)
theory NalFrame
  imports BitSource "HOL-Library.Monad_Syntax"
begin

text \<open>
  The access unit detector of vdec/src/h264_utils.cpp: \<open>H264_Utils::extract_rbsp\<close> and
  \<open>H264_Utils::isNewFrame\<close>, and \<open>RbspParser\<close>, the second bit reader of the decoder. Memory is a
  list of bytes; \<open>None\<close> is an access outside it or a loop that does not end.
\<close>

section \<open>The RBSP reader\<close>

record rbsp_parser =
  begin_mem :: "u8 list"
  rbsp_pos :: int
  bit_offset :: nat
  cursor :: u32
  advance_needed :: bool

definition new_rbsp_parser :: "u8 list \<Rightarrow> rbsp_parser" where
  "new_rbsp_parser mem = \<lparr>begin_mem = mem, rbsp_pos = - 1, bit_offset = 0, cursor = 0xFFFFFF,
     advance_needed = True\<rparr>"

text \<open>Reading past \<open>end\<close> is only logged; the read itself faults outside the memory.\<close>

definition byte_at :: "u8 list \<Rightarrow> int \<Rightarrow> u8 option" where
  "byte_at mem i = (if 0 \<le> i \<and> nat i < length mem then Some (mem ! nat i) else None)"

function advance :: "rbsp_parser \<Rightarrow> rbsp_parser option" where
  "advance s =
     (let p = rbsp_pos s + 1
      in case byte_at (begin_mem s) p of
           None \<Rightarrow> None
         | Some b \<Rightarrow>
             (let c = push_bit 8 (cursor s) OR ucast b; s1 = s\<lparr>rbsp_pos := p, cursor := c\<rparr>
              in if c AND 0xFFFFFF = 3
                 then map_option (\<lambda>t. t\<lparr>advance_needed := False\<rparr>) (advance s1)
                 else Some (s1\<lparr>advance_needed := False\<rparr>)))"
  by pat_completeness auto
termination
  by (relation "measure (\<lambda>s. nat (int (length (begin_mem s)) - rbsp_pos s))")
    (auto simp: byte_at_def split: if_splits)

declare advance.simps [simp del]

definition next_byte :: "rbsp_parser \<Rightarrow> (u32 \<times> rbsp_parser) option" where
  "next_byte s = do {
     s \<leftarrow> (if advance_needed s then advance s else Some s);
     b \<leftarrow> byte_at (begin_mem s) (rbsp_pos s);
     Some (ucast b, s)
   }"

partial_function (option) u_loop ::
  "nat \<Rightarrow> nat \<Rightarrow> u32 \<Rightarrow> rbsp_parser \<Rightarrow> (u32 \<times> rbsp_parser) option" where
  "u_loop n i x s =
     (if i < n then
        let sz = min (8 - bit_offset s) (n - i)
        in Option.bind (next_byte s) (\<lambda>(w, s).
             let x = shl32 x sz OR (shr32 w (8 - bit_offset s - sz) AND (shl32 1 sz - 1));
                 b = (bit_offset s + sz) mod 8;
                 s = s\<lparr>bit_offset := b, advance_needed := (b = 0 \<or> advance_needed s)\<rparr>
             in u_loop n (i + sz) x s)
      else Some (x, s))"

definition u :: "nat \<Rightarrow> rbsp_parser \<Rightarrow> (u32 \<times> rbsp_parser) option" where
  "u n s = u_loop n 0 0 s"

text \<open>The loop of \<open>ue\<close>, started at \<open>leadingZeroBits = -1\<close>; \<open>k\<close> is its value after the round.\<close>

partial_function (option) leading_zeros :: "nat \<Rightarrow> rbsp_parser \<Rightarrow> (nat \<times> rbsp_parser) option" where
  "leading_zeros k s =
     Option.bind (u 1 s) (\<lambda>(b, s). if b = 0 then leading_zeros (Suc k) s else Some (k, s))"

definition ue :: "rbsp_parser \<Rightarrow> (u32 \<times> rbsp_parser) option" where
  "ue s = do {
     (k, s) \<leftarrow> leading_zeros 0 s;
     (v, s) \<leftarrow> u k s;
     Some (shl32 1 k - 1 + v, s)
   }"

definition se :: "rbsp_parser \<Rightarrow> (u32 \<times> rbsp_parser) option" where
  "se s = do {
     (x, s) \<leftarrow> ue s;
     Some (if x = 0 then 0 else if x AND 1 \<noteq> 0 then shr32 x 1 + 1 else - shr32 x 1, s)
   }"

section \<open>The stream an RBSP reader stands for\<close>

fun cursor_bytes :: "u32 \<Rightarrow> u8 list \<Rightarrow> u8 list" where
  "cursor_bytes c [] = []"
| "cursor_bytes c (b # bs) =
     (let c1 = push_bit 8 c OR ucast b
      in if c1 AND 0xFFFFFF = 3 then cursor_bytes c1 bs else b # cursor_bytes c1 bs)"

definition rest_mem :: "rbsp_parser \<Rightarrow> u8 list" where
  "rest_mem s = drop (nat (rbsp_pos s + 1)) (begin_mem s)"

definition rbsp_bits :: "rbsp_parser \<Rightarrow> bool list" where
  "rbsp_bits s = (if advance_needed s then []
       else drop (bit_offset s) (byte_bits (begin_mem s ! nat (rbsp_pos s))))
     @ bytes_bits (cursor_bytes (cursor s) (rest_mem s))"

definition rbsp_ok :: "rbsp_parser \<Rightarrow> bool" where
  "rbsp_ok s \<longleftrightarrow> bit_offset s < 8 \<and> - 1 \<le> rbsp_pos s \<and> (advance_needed s \<longrightarrow> bit_offset s = 0)
     \<and> (\<not> advance_needed s \<longrightarrow> 0 \<le> rbsp_pos s \<and> nat (rbsp_pos s) < length (begin_mem s))"

lemma rest_mem_step:
  assumes "- 1 \<le> rbsp_pos s" "rest_mem s = b # bs"
  shows "byte_at (begin_mem s) (rbsp_pos s + 1) = Some b" "drop (nat (rbsp_pos s + 2)) (begin_mem s) = bs"
proof -
  let ?n = "nat (rbsp_pos s + 1)"
  have lt: "?n < length (begin_mem s)" using assms(2) by (auto simp: rest_mem_def intro: ccontr)
  then have "begin_mem s ! ?n = b"
    using assms(2) by (metis Cons_nth_drop_Suc list.inject rest_mem_def)
  then show "byte_at (begin_mem s) (rbsp_pos s + 1) = Some b"
    using assms(1) lt by (simp add: byte_at_def)
  have "nat (rbsp_pos s + 2) = Suc ?n" using assms(1) by simp
  then show "drop (nat (rbsp_pos s + 2)) (begin_mem s) = bs"
    using assms(2) lt by (metis Cons_nth_drop_Suc list.inject rest_mem_def)
qed

lemma advance_spec:
  assumes "- 1 \<le> rbsp_pos s" "cursor_bytes (cursor s) (rest_mem s) = b # bs"
  shows "\<exists>t. advance s = Some t \<and> \<not> advance_needed t \<and> bit_offset t = bit_offset s \<and> 0 \<le> rbsp_pos t \<and>
    begin_mem t = begin_mem s \<and> byte_at (begin_mem s) (rbsp_pos t) = Some b \<and>
    cursor_bytes (cursor t) (rest_mem t) = bs"
  using assms
proof (induction "rest_mem s" arbitrary: s)
  case Nil
  then show ?case by (metis cursor_bytes.simps(1) list.distinct(1))
next
  case (Cons a as)
  let ?c = "push_bit 8 (cursor s) OR ucast a"
  let ?s1 = "s\<lparr>rbsp_pos := rbsp_pos s + 1, cursor := ?c\<rparr>"
  note st = rest_mem_step [OF Cons.prems(1) Cons.hyps(2) [symmetric]]
  have r1: "rest_mem ?s1 = as" using st(2) by (simp add: rest_mem_def algebra_simps)
  show ?case
  proof (cases "?c AND 0xFFFFFF = 3")
    case True
    have "cursor_bytes ?c as = b # bs"
      using Cons.prems(2) Cons.hyps(2) [symmetric] True by (simp add: Let_def)
    then obtain t where "advance ?s1 = Some t" "\<not> advance_needed t" "bit_offset t = bit_offset s"
      "0 \<le> rbsp_pos t" "begin_mem t = begin_mem s" "byte_at (begin_mem s) (rbsp_pos t) = Some b"
      "cursor_bytes (cursor t) (rest_mem t) = bs"
      using Cons.hyps(1) [of ?s1] r1 Cons.prems(1) by auto
    moreover have "advance s = map_option (\<lambda>t. t\<lparr>advance_needed := False\<rparr>) (advance ?s1)"
      using st(1) True by (subst advance.simps) (simp add: Let_def)
    ultimately show ?thesis by (auto simp: rest_mem_def)
  next
    case False
    then have b: "a = b" "cursor_bytes ?c as = bs"
      using Cons.prems(2) Cons.hyps(2) [symmetric] by (auto simp: Let_def)
    have "advance s = Some (?s1\<lparr>advance_needed := False\<rparr>)"
      using st(1) False by (subst advance.simps) (simp add: Let_def)
    then show ?thesis using b st(1) r1 Cons.prems(1) by (simp add: rest_mem_def)
  qed
qed

lemma next_byte_spec:
  assumes "rbsp_ok s" "rbsp_bits s \<noteq> []"
  shows "\<exists>b t. next_byte s = Some (ucast b, t) \<and> \<not> advance_needed t \<and> bit_offset t = bit_offset s \<and>
    rbsp_ok t \<and> begin_mem t ! nat (rbsp_pos t) = b \<and> rbsp_bits t = rbsp_bits s"
proof (cases "advance_needed s")
  case False
  then show ?thesis using assms(1)
    by (simp add: next_byte_def byte_at_def rbsp_ok_def)
next
  case True
  then obtain b bs where c: "cursor_bytes (cursor s) (rest_mem s) = b # bs"
    using assms(2) by (cases "cursor_bytes (cursor s) (rest_mem s)") (auto simp: rbsp_bits_def)
  obtain t where t: "advance s = Some t" "\<not> advance_needed t" "bit_offset t = bit_offset s" "0 \<le> rbsp_pos t"
    "begin_mem t = begin_mem s" "byte_at (begin_mem s) (rbsp_pos t) = Some b"
    "cursor_bytes (cursor t) (rest_mem t) = bs"
    using advance_spec [OF _ c] assms(1) by (auto simp: rbsp_ok_def)
  from t(6) have m: "nat (rbsp_pos t) < length (begin_mem s)" "begin_mem s ! nat (rbsp_pos t) = b"
    by (auto simp: byte_at_def split: if_splits)
  have "bit_offset s = 0" using assms(1) True by (simp add: rbsp_ok_def)
  then show ?thesis using t m True c
    by (intro exI [of _ b] exI [of _ t]) (simp add: next_byte_def rbsp_ok_def rbsp_bits_def)
qed

lemma consume_rbsp_bits:
  assumes "\<not> advance_needed t" "begin_mem t ! nat (rbsp_pos t) = b" "0 < k" "bit_offset t + k \<le> 8"
  shows "rbsp_bits (t\<lparr>bit_offset := (bit_offset t + k) mod 8,
      advance_needed := ((bit_offset t + k) mod 8 = 0 \<or> advance_needed t)\<rparr>) =
    drop (bit_offset t + k) (byte_bits b) @ bytes_bits (cursor_bytes (cursor t) (rest_mem t))"
proof (cases "bit_offset t + k = 8")
  case False
  then have "(bit_offset t + k) mod 8 = bit_offset t + k" using assms(4) by simp
  then show ?thesis using assms by (simp add: rbsp_bits_def rest_mem_def)
qed (simp add: rbsp_bits_def rest_mem_def)

lemma u_loop_spec:
  assumes "rbsp_ok s" "i \<le> n" "n \<le> 32" "n - i \<le> length (rbsp_bits s)" "unat x < 2 ^ i"
  shows "\<exists>s'. u_loop n i x s =
      Some (of_nat (unat x * 2 ^ (n - i) + bits_val (take (n - i) (rbsp_bits s))), s') \<and>
    rbsp_bits s' = drop (n - i) (rbsp_bits s) \<and> rbsp_ok s'"
  using assms
proof (induction "n - i" arbitrary: i x s rule: less_induct)
  case less
  show ?case
  proof (cases "i < n")
    case False
    then show ?thesis using less.prems by (subst u_loop.simps) simp
  next
    case True
    define kk where "kk = min (8 - bit_offset s) (n - i)"
    have bo: "bit_offset s < 8" using less.prems(1) by (simp add: rbsp_ok_def)
    have k: "0 < kk" "bit_offset s + kk \<le> 8" "i + kk \<le> n" using bo True by (auto simp: kk_def)
    obtain b t where t: "next_byte s = Some (ucast b, t)" "\<not> advance_needed t" "bit_offset t = bit_offset s"
      "rbsp_ok t" "begin_mem t ! nat (rbsp_pos t) = b" "rbsp_bits t = rbsp_bits s"
      using next_byte_spec [OF less.prems(1)] less.prems(4) True by fastforce
    define v where "v = shr32 (ucast b) (8 - bit_offset t - kk) AND (shl32 1 kk - 1)"
    define tl where "tl = bytes_bits (cursor_bytes (cursor t) (rest_mem t))"
    have bits: "rbsp_bits s = drop (bit_offset s) (byte_bits b) @ tl"
      using t(2,3,5,6) by (simp add: rbsp_bits_def tl_def)
    have first: "take kk (rbsp_bits s) = bits_of kk (unat b div 2 ^ (8 - bit_offset s - kk))"
      unfolding bits using k(2) byte_slice [OF k(2), of b] by simp
    have ub: "unat (ucast b :: u32) = unat b" by (rule unat_ucast_8)
    have uv: "unat v = bits_val (take kk (rbsp_bits s))"
      unfolding first bits_val_bits_of v_def t(3)
      using k(2) by (subst mask_mod) (simp_all add: unat_shr32 ub)
    have vl: "unat v < 2 ^ kk" unfolding uv
      using bits_val_less [of "take kk (rbsp_bits s)"] less.prems(4) k(3) by simp
    have ux: "unat (shl32 x kk OR v) = unat x * 2 ^ kk + unat v"
      using less.prems(3,5) k(3) vl by (intro unat_shl_or) auto
    have lx: "unat (shl32 x kk OR v) < 2 ^ (i + kk)"
    proof -
      have "unat x * 2 ^ kk + unat v < (unat x + 1) * 2 ^ kk" using vl by simp
      also have "\<dots> \<le> 2 ^ i * 2 ^ kk" using less.prems(5) by (intro mult_right_mono) auto
      finally show ?thesis unfolding ux by (simp add: power_add)
    qed
    define t' where "t' = t\<lparr>bit_offset := (bit_offset t + kk) mod 8,
      advance_needed := ((bit_offset t + kk) mod 8 = 0 \<or> advance_needed t)\<rparr>"
    have t': "rbsp_ok t'" "rbsp_bits t' = drop kk (rbsp_bits s)"
    proof -
      show "rbsp_ok t'" using t(2,4) by (auto simp: t'_def rbsp_ok_def)
      have d: "drop kk (rbsp_bits s) = drop (bit_offset s + kk) (byte_bits b) @ tl"
        unfolding bits using k(2) by (simp add: add.commute)
      show "rbsp_bits t' = drop kk (rbsp_bits s)"
        unfolding d t'_def using consume_rbsp_bits [OF t(2,5) k(1)] k(2) t(3) by (simp only: tl_def)
    qed
    have run: "u_loop n i x s = u_loop n (i + kk) (shl32 x kk OR v) t'"
      using True t(1,3) by (subst u_loop.simps) (simp add: Let_def v_def t'_def kk_def)
    obtain s' where s': "u_loop n (i + kk) (shl32 x kk OR v) t' =
        Some (of_nat (unat (shl32 x kk OR v) * 2 ^ (n - (i + kk)) + bits_val (take (n - (i + kk)) (rbsp_bits t'))), s')"
      "rbsp_bits s' = drop (n - (i + kk)) (rbsp_bits t')" "rbsp_ok s'"
    proof -
      have "n - (i + kk) < n - i" "n - (i + kk) \<le> length (rbsp_bits t')"
        using k True less.prems(4) t'(2) by auto
      then show thesis using less.hyps [OF _ t'(1) k(3) less.prems(3) _ lx] that by blast
    qed
    have split: "n - i = kk + (n - (i + kk))" using k(3) by simp
    have tk: "take (n - i) (rbsp_bits s) = take kk (rbsp_bits s) @ take (n - (i + kk)) (rbsp_bits t')"
      unfolding t'(2) by (subst split, rule take_add)
    have len: "length (take (n - (i + kk)) (rbsp_bits t')) = n - (i + kk)"
      using less.prems(4) t'(2) by simp
    have pow: "(2::nat) ^ (n - i) = 2 ^ kk * 2 ^ (n - (i + kk))"
      using split by (metis power_add)
    have val: "unat (shl32 x kk OR v) * 2 ^ (n - (i + kk)) + bits_val (take (n - (i + kk)) (rbsp_bits t')) =
        unat x * 2 ^ (n - i) + bits_val (take (n - i) (rbsp_bits s))"
      unfolding tk bits_val_append len ux uv pow by (simp only: add_mult_distrib add.assoc mult.assoc)
    have "drop (n - (i + kk)) (rbsp_bits t') = drop (n - i) (rbsp_bits s)"
      unfolding t'(2) drop_drop using split by (metis add.commute)
    then show ?thesis using s' val unfolding run by auto
  qed
qed

section \<open>The reader meets the bit reader contract\<close>

interpretation rbsp: bit_reader u rbsp_bits rbsp_ok 32
proof
  show "1 \<le> (32::nat)" by simp
next
  fix s n
  assume "rbsp_ok s" "n \<le> 32" "n \<le> length (rbsp_bits s)"
  then show "\<exists>s'. u n s = Some (of_nat (bits_val (take n (rbsp_bits s))), s') \<and>
      rbsp_bits s' = drop n (rbsp_bits s) \<and> rbsp_ok s'"
    using u_loop_spec [of s 0 n 0] by (simp add: u_def)
qed

interpretation rbsp: ue_decoder u rbsp_bits rbsp_ok 32 leading_zeros ue
proof
  fix s s' :: rbsp_parser and bs and z :: nat
  assume "u 1 s = Some (1, s')"
  then show "leading_zeros z s = Some (z, s')"
    by (subst leading_zeros.simps) simp
next
  fix s s' :: rbsp_parser and bs and z :: nat
  assume "u 1 s = Some (0, s')"
  then show "leading_zeros z s = leading_zeros (Suc z) s'"
    by (subst leading_zeros.simps) simp
next
  fix s s1
  assume "leading_zeros 0 s = Some (0, s1)" "rbsp_ok s1"
  moreover have "u 0 s1 = Some (0, s1)" by (simp add: u_def u_loop.simps)
  ultimately show "\<exists>s2. ue s = Some (0, s2) \<and> rbsp_bits s2 = rbsp_bits s1 \<and> rbsp_ok s2"
    by (simp add: ue_def shl32_def)
next
  fix s s1 s2 v and z :: nat
  assume "leading_zeros 0 s = Some (z, s1)" "u z s1 = Some (v, s2)"
  then show "ue s = Some (shl32 1 z - 1 + v, s2)" by (simp add: ue_def)
qed

text \<open>
  \<open>RbspParser::ue\<close> inverts the Exp-Golomb encoding as the stream parser does: on memory whose
  bytes (with the parser's own removal of \<open>00 00 03\<close>) start with the code word of \<open>k < 2^32 - 1\<close> it
  returns \<open>k\<close> and stands after the code word.
\<close>
theorem rbsp_ue_decodes:
  assumes "bytes_bits (cursor_bytes 0xFFFFFF mem) = ue_bits k @ rest" "k + 1 < 2 ^ 32"
  shows "\<exists>s. ue (new_rbsp_parser mem) = Some (of_nat k, s) \<and> rbsp_bits s = rest"
proof -
  have "rbsp_ok (new_rbsp_parser mem)" by (simp add: rbsp_ok_def new_rbsp_parser_def)
  moreover have "rbsp_bits (new_rbsp_parser mem) = ue_bits k @ rest"
    using assms(1) by (simp add: rbsp_bits_def new_rbsp_parser_def rest_mem_def)
  ultimately show ?thesis using rbsp.ue_decodes [OF _ _ assms(2)] by blast
qed

theorem rbsp_ue_decodes_witness: "\<exists>s. ue (new_rbsp_parser [0x2F]) = Some (4, s)"
proof -
  have b: "bytes_bits (cursor_bytes 0xFFFFFF [0x2F]) = ue_bits 4 @ [True, True, True]"
    by (simp add: byte_bits_def ue_bits_def ue_zeros_def nbits.simps biteval)
  show ?thesis using rbsp_ue_decodes [OF b] by auto
qed

section \<open>Extracting the RBSP of a NAL unit\<close>

record nalu =
  nal_ref_idc :: u32
  nalu_type :: u32
  forbidden_zero_bit :: u32

text \<open>The start code search; \<open>None\<close> inside the result is the error return.\<close>

function start_code_search :: "u8 list \<Rightarrow> nat \<Rightarrow> nat \<Rightarrow> u8 \<Rightarrow> u8 \<Rightarrow> nat option option" where
  "start_code_search buffer buffer_length pos coef2 coef3 =
     (if pos \<ge> buffer_length then Some None
      else Option.bind (mem_at buffer pos) (\<lambda>c.
        if coef2 \<noteq> 0 \<or> coef3 \<noteq> 0 \<or> c \<noteq> 1
        then start_code_search buffer buffer_length (pos + 1) coef3 c
        else Some (Some (pos + 1))))"
  by pat_completeness auto
termination
  by (relation "measure (\<lambda>(b, n, pos, _). n - pos)") auto

declare start_code_search.simps [simp del]

fun nal_len_field :: "u8 list \<Rightarrow> nat \<Rightarrow> nat \<Rightarrow> u32 \<Rightarrow> (u32 \<times> nat) option" where
  "nal_len_field buffer 0 pos len = Some (len, pos)"
| "nal_len_field buffer (Suc k) pos len =
     Option.bind (mem_at buffer pos) (\<lambda>b. nal_len_field buffer k (pos + 1) (len OR shl32 (ucast b) (8 * k)))"

text \<open>
  The copy loop, up to \<open>limit\<close>. The result is the value of \<open>pos\<close> on which the function returns
  at the next start code (\<open>None\<close> when the loop ends), the RBSP buffer and its length.
\<close>

function rbsp_copy ::
  "u8 list \<Rightarrow> bool \<Rightarrow> nat \<Rightarrow> nat \<Rightarrow> nat \<Rightarrow> u8 list \<Rightarrow> nat \<Rightarrow> (nat option \<times> u8 list \<times> nat) option" where
  "rbsp_copy buffer start_code limit pos zero_count rbsp len =
     (if pos < limit then
        Option.bind (mem_at buffer pos) (\<lambda>b.
          if zero_count = 2 \<and> b = 3 then rbsp_copy buffer start_code limit (pos + 1) 0 rbsp len
          else if zero_count = 2 \<and> b \<le> 1 \<and> start_code then Some (Some (pos - 2), rbsp, len - 2)
          else
            let z = (if zero_count = 2 then 0 else zero_count) + 1;
                z = (if b \<noteq> 0 then 0 else z)
            in Option.bind (mem_put rbsp len b) (\<lambda>rbsp.
                 rbsp_copy buffer start_code limit (pos + 1) z rbsp (len + 1)))
      else Some (None, rbsp, len))"
  by pat_completeness auto
termination
  by (relation "measure (\<lambda>(_, _, limit, pos, _). limit - pos)") auto

declare rbsp_copy.simps [simp del]

text \<open>
  \<open>extract_rbsp\<close> returns a \<open>boolean\<close>, an unsigned char: positions and lengths are truncated to 8
  bits. The result is the returned byte, the RBSP buffer, its length and the NAL header. On an
  early error return the header keeps its (indeterminate) value and the length is not written.
\<close>

definition extract_rbsp ::
  "u8 list \<Rightarrow> nat \<Rightarrow> nat \<Rightarrow> u8 list \<Rightarrow> nat \<Rightarrow> nalu \<Rightarrow> (u8 \<times> u8 list \<times> nat \<times> nalu) option" where
  "extract_rbsp buffer buffer_length size_of_nal_length_field rbsp rbsp_length nal = do {
     let start_code = (size_of_nal_length_field = 0);
     hd_res \<leftarrow> (if start_code then do {
           coef2 \<leftarrow> mem_at buffer 0;
           coef3 \<leftarrow> mem_at buffer 1;
           r \<leftarrow> start_code_search buffer buffer_length 2 coef2 coef3;
           Some (map_option (\<lambda>pos. (pos, buffer_length)) r)
         } else do {
           (nal_len, pos) \<leftarrow> nal_len_field buffer size_of_nal_length_field 0 0;
           Some (if unat nal_len \<ge> buffer_length then None else Some (pos, unat nal_len))
         });
     case hd_res of
       None \<Rightarrow> Some (0, rbsp, rbsp_length, nal)
     | Some (pos, nal_len) \<Rightarrow>
         if pos + 1 > nal_len + size_of_nal_length_field then Some (0, rbsp, rbsp_length, nal)
         else do {
           b \<leftarrow> mem_at buffer pos;
           let nal = \<lparr>nal_ref_idc = shr32 (ucast b AND 0x60) 5, nalu_type = ucast b AND 0x1F,
                      forbidden_zero_bit = ucast b AND 0x80\<rparr>;
           if nalu_type nal = 10 \<or> nalu_type nal = 11
           then Some (of_nat (nal_len + size_of_nal_length_field), rbsp, 0, nal)
           else do {
             (stop, rbsp, len) \<leftarrow> rbsp_copy buffer start_code (nal_len + size_of_nal_length_field) (pos + 1) 0 rbsp 0;
             Some (case stop of Some p \<Rightarrow> of_nat p | None \<Rightarrow> 1, rbsp, len, nal)
           }
         }
   }"

section \<open>Frame boundaries\<close>

record h264_utils =
  m_rbspBytes :: "u8 list"
  m_prv_nalu :: nalu
  m_forceToStichNextNAL :: bool
  m_au_data :: bool
  last_nalu_type :: u32

definition initialize_frame_checking_environment :: "h264_utils \<Rightarrow> h264_utils" where
  "initialize_frame_checking_environment ut = ut\<lparr>m_forceToStichNextNAL := False, m_au_data := False,
     m_prv_nalu := (m_prv_nalu ut)\<lparr>nal_ref_idc := 0, nalu_type := 0\<rparr>\<rparr>"

definition allocate_rbsp_buffer :: "(nat \<Rightarrow> u8 list) \<Rightarrow> nat \<Rightarrow> h264_utils \<Rightarrow> h264_utils" where
  "allocate_rbsp_buffer calloc n ut = ut\<lparr>m_rbspBytes := calloc n,
     m_prv_nalu := (m_prv_nalu ut)\<lparr>nal_ref_idc := 0, nalu_type := 0\<rparr>\<rparr>"

definition is_slice :: "nalu \<Rightarrow> bool" where
  "is_slice n \<longleftrightarrow> nalu_type n = 5 \<or> nalu_type n = 1"

definition is_parameter :: "nalu \<Rightarrow> bool" where
  "is_parameter n \<longleftrightarrow> nalu_type n = 7 \<or> nalu_type n = 8 \<or> nalu_type n = 6"

definition starts_picture :: "nalu \<Rightarrow> nalu \<Rightarrow> 16 word \<Rightarrow> bool" where
  "starts_picture prv n first_mb_in_slice \<longleftrightarrow> first_mb_in_slice = 0
     \<or> (nal_ref_idc prv \<noteq> nal_ref_idc n \<and> nal_ref_idc n * nal_ref_idc prv = 0)
     \<or> (nalu_type prv \<noteq> nalu_type n \<and> (nalu_type prv = 5 \<or> nalu_type n = 5))"

text \<open>The switch of \<open>isNewFrame\<close>; the first macroblock only matters for a slice not stitched.\<close>

definition frame_decision :: "nalu \<Rightarrow> 16 word \<Rightarrow> h264_utils \<Rightarrow> bool \<times> h264_utils" where
  "frame_decision n first_mb ut =
     (if is_slice n then
        (\<not> m_forceToStichNextNAL ut \<and> starts_picture (m_prv_nalu ut) n first_mb,
         ut\<lparr>m_au_data := True, m_forceToStichNextNAL := False\<rparr>)
      else if is_parameter n then
        (m_au_data ut, ut\<lparr>m_au_data := False, m_forceToStichNextNAL := True\<rparr>)
      else (False, ut))"

text \<open>
  \<open>isNewFrame\<close>; the result is the return value and the out parameter. \<open>raw\<close> is the
  indeterminate initial value of the local NAL header.
\<close>

definition is_new_frame ::
  "u8 list \<Rightarrow> nat \<Rightarrow> nat \<Rightarrow> nalu \<Rightarrow> h264_utils \<Rightarrow> ((bool \<times> bool) \<times> h264_utils) option" where
  "is_new_frame buffer buffer_length size_of_nal_length_field raw ut = do {
     (r, rbsp, len, n) \<leftarrow>
       extract_rbsp buffer buffer_length size_of_nal_length_field (m_rbspBytes ut) 0 raw;
     let ut = ut\<lparr>m_rbspBytes := rbsp\<rparr>;
     if r = 0 then Some ((False, False), ut\<lparr>m_prv_nalu := n\<rparr>)
     else do {
       first_mb \<leftarrow> (if is_slice n \<and> \<not> m_forceToStichNextNAL ut
          then map_option (\<lambda>(v, _). ucast v) (ue (new_rbsp_parser rbsp)) else Some 0);
       let (f, ut) = frame_decision n first_mb (ut\<lparr>last_nalu_type := nalu_type n\<rparr>);
       Some ((True, f), ut\<lparr>m_prv_nalu := n\<rparr>)
     }
   }"

section \<open>Emulation prevention\<close>

text \<open>The encoder's side (H.264, 7.4.1.1): \<open>z\<close> counts the zero bytes just written.\<close>

fun escape :: "nat \<Rightarrow> u8 list \<Rightarrow> u8 list" where
  "escape z [] = []"
| "escape z (b # bs) =
     (if z = 2 \<and> b \<le> 3 then 3 # b # escape (if b = 0 then 1 else 0) bs
      else b # escape (if b = 0 then z + 1 else 0) bs)"

fun zeros_after :: "nat \<Rightarrow> u8 list \<Rightarrow> nat" where
  "zeros_after z [] = z"
| "zeros_after z (b # bs) = zeros_after (if b = 0 then (if z = 2 then 1 else z + 1) else 0) bs"

lemma zeros_after_last: "bs \<noteq> [] \<Longrightarrow> last bs \<noteq> 0 \<Longrightarrow> zeros_after z bs = 0"
  by (induction bs arbitrary: z) (auto split: if_splits)

lemma drop_nth: "drop pos xs = b # bs \<Longrightarrow> pos < length xs \<and> xs ! pos = b \<and> drop (Suc pos) xs = bs"
  by (metis Cons_nth_drop_Suc drop_eq_Nil list.distinct(1) list.inject not_le)

lemma byte_small: "(b :: u8) \<le> 1 \<Longrightarrow> b \<le> 3"
  by (erule order_trans) simp

lemma rbsp_copy_skip:
  assumes "pos < limit" "pos < length buffer" "buffer ! pos = 3"
  shows "rbsp_copy buffer sc limit pos 2 rbsp len = rbsp_copy buffer sc limit (Suc pos) 0 rbsp len"
  using assms by (subst rbsp_copy.simps) (simp add: mem_at_def)

lemma rbsp_copy_byte:
  assumes "pos < limit" "pos < length buffer" "buffer ! pos = b" "len < length rbsp" "z = 2 \<longrightarrow> \<not> b \<le> 3"
  shows "rbsp_copy buffer sc limit pos z rbsp len =
    rbsp_copy buffer sc limit (Suc pos) (if b = 0 then z + 1 else 0) (rbsp[len := b]) (Suc len)"
proof -
  have "z = 2 \<Longrightarrow> b \<noteq> 3 \<and> \<not> b \<le> 1 \<and> b \<noteq> 0" using assms(5) byte_small [of b] by auto
  then show ?thesis using assms(1-4)
    by (subst rbsp_copy.simps) (cases "z = 2"; simp add: mem_at_def mem_put_def Let_def)
qed

text \<open>The copy loop undoes the escaping of any payload, in both framings.\<close>

lemma rbsp_copy_escape:
  assumes "drop pos buffer = escape z payload @ tail" "pos + length (escape z payload) \<le> limit" "z \<le> 2"
    and "len + length payload \<le> length rbsp"
  shows "rbsp_copy buffer sc limit pos z rbsp len =
    rbsp_copy buffer sc limit (pos + length (escape z payload)) (zeros_after z payload)
      (overwrite len payload rbsp) (len + length payload)"
  using assms
proof (induction payload arbitrary: pos z len rbsp)
  case Nil
  then show ?case by simp
next
  case (Cons b bs)
  let ?r = "rbsp[len := b]"
  have ow: "overwrite len (b # bs) rbsp = overwrite (Suc len) bs ?r"
    using Cons.prems(4) by (simp add: overwrite_Cons)
  show ?case
  proof (cases "z = 2 \<and> b \<le> 3")
    case True
    let ?z = "if b = 0 then 1 else 0 :: nat"
    have d: "drop pos buffer = 3 # b # (escape ?z bs @ tail)" using Cons.prems(1) True by simp
    note d1 = drop_nth [OF d]
    note d2 = drop_nth [OF d1 [THEN conjunct2, THEN conjunct2]]
    have l: "pos + 2 + length (escape ?z bs) \<le> limit" using Cons.prems(2) True by simp
    have "rbsp_copy buffer sc limit pos z rbsp len = rbsp_copy buffer sc limit (Suc pos) 0 rbsp len"
      using True d1 l rbsp_copy_skip [of pos limit buffer sc rbsp len] by simp
    also have "\<dots> = rbsp_copy buffer sc limit (Suc (Suc pos)) ?z ?r (Suc len)"
      using d2 l Cons.prems(4) rbsp_copy_byte [of "Suc pos" limit buffer b len rbsp 0 sc] by simp
    also have "\<dots> = rbsp_copy buffer sc limit (Suc (Suc pos) + length (escape ?z bs)) (zeros_after ?z bs)
        (overwrite (Suc len) bs ?r) (Suc len + length bs)"
      using d2 l Cons.prems(4) by (intro Cons.IH) auto
    finally show ?thesis using True unfolding ow by simp
  next
    case False
    let ?z = "if b = 0 then z + 1 else 0"
    have e: "escape z (b # bs) = b # escape ?z bs" using False by auto
    have d: "drop pos buffer = b # (escape ?z bs @ tail)" using Cons.prems(1) unfolding e by simp
    note d1 = drop_nth [OF d]
    have l: "Suc pos + length (escape ?z bs) \<le> limit" using Cons.prems(2) unfolding e by simp
    have z: "z = 2 \<longrightarrow> \<not> b \<le> 3" using False by blast
    then have z2: "?z \<le> 2" using Cons.prems(3) by (cases "z = 2") auto
    have za: "zeros_after z (b # bs) = zeros_after ?z bs" using z by (cases "z = 2") auto
    have "rbsp_copy buffer sc limit pos z rbsp len = rbsp_copy buffer sc limit (Suc pos) ?z ?r (Suc len)"
      using d1 l Cons.prems(4) z by (intro rbsp_copy_byte) auto
    also have "\<dots> = rbsp_copy buffer sc limit (Suc pos + length (escape ?z bs)) (zeros_after ?z bs)
        (overwrite (Suc len) bs ?r) (Suc len + length bs)"
      using d1 l Cons.prems(4) z2 by (intro Cons.IH) auto
    finally show ?thesis unfolding ow za e by simp
  qed
qed

lemma rbsp_copy_end: "\<not> pos < limit \<Longrightarrow> rbsp_copy buffer sc limit pos z rbsp len = Some (None, rbsp, len)"
  by (subst rbsp_copy.simps) simp

text \<open>The header byte of a NAL unit.\<close>

definition nal_header :: "u8 \<Rightarrow> nalu" where
  "nal_header b = \<lparr>nal_ref_idc = shr32 (ucast b AND 0x60) 5, nalu_type = ucast b AND 0x1F,
     forbidden_zero_bit = ucast b AND 0x80\<rparr>"

text \<open>
  C26. Extracting the RBSP of an escaped NAL unit after a start code returns true, the payload
  with its emulation prevention bytes removed, and the header fields: for every payload,
  extraction inverts escaping.
\<close>
theorem extract_rbsp_start_code:
  assumes "buffer = [0, 0, 1, h] @ escape 0 payload" "length payload \<le> length rbsp"
    and "nalu_type (nal_header h) \<noteq> 10" "nalu_type (nal_header h) \<noteq> 11"
  shows "extract_rbsp buffer (length buffer) 0 rbsp l0 raw =
    Some (1, overwrite 0 payload rbsp, length payload, nal_header h)"
proof -
  have s: "start_code_search buffer (length buffer) 2 0 0 = Some (Some 3)"
    using assms(1) by (subst start_code_search.simps) (simp add: mem_at_def)
  have "rbsp_copy buffer True (length buffer) 4 0 rbsp 0 =
      rbsp_copy buffer True (length buffer) (4 + length (escape 0 payload)) (zeros_after 0 payload)
        (overwrite 0 payload rbsp) (0 + length payload)"
    using assms(1,2) by (intro rbsp_copy_escape [where tail = "[]"]) auto
  also have "\<dots> = Some (None, overwrite 0 payload rbsp, length payload)"
    using assms(1) by (subst rbsp_copy_end) auto
  finally show ?thesis
    using s assms by (simp add: extract_rbsp_def mem_at_def Let_def nal_header_def)
qed

definition unset_nalu :: nalu where
  "unset_nalu = \<lparr>nal_ref_idc = 0, nalu_type = 0, forbidden_zero_bit = 0\<rparr>"

lemma sample_header: "nalu_type (nal_header 0x65) = 5" "nalu_type (nal_header 0x65) \<noteq> 10"
  "nalu_type (nal_header 0x65) \<noteq> 11"
  by (simp_all add: nal_header_def)

lemma sample_payload: "escape 0 [0, 0, 1, 7] = [0, 0, 3, 1, 7]" "escape 0 [1, 2, 3, 4] = [1, 2, 3, 4]"
  "overwrite 0 [0, 0, 1, 7] [9, 9, 9, 9, 9 :: u8] = [0, 0, 1, 7, 9]"
  "overwrite 0 [1, 2, 3, 4] [9, 9, 9, 9, 9 :: u8] = [1, 2, 3, 4, 9]"
  by (simp_all add: overwrite_def)

theorem extract_rbsp_start_code_witness:
  "extract_rbsp [0, 0, 1, 0x65, 0, 0, 3, 1, 7] (length [0, 0, 1, 0x65 :: u8, 0, 0, 3, 1, 7]) 0 [9, 9, 9, 9, 9] 0 unset_nalu =
   Some (1, [0, 0, 1, 7, 9], length [0, 0, 1, 7 :: u8], nal_header 0x65)"
proof -
  have "[0, 0, 1, 0x65, 0, 0, 3, 1, 7] = [0, 0, 1, 0x65] @ escape 0 [0, 0, 1, 7]"
    unfolding sample_payload by simp
  moreover have "length [0, 0, 1, 7 :: u8] \<le> length [9, 9, 9, 9, 9 :: u8]" by simp
  ultimately show ?thesis
    using extract_rbsp_start_code [OF _ _ sample_header(2,3), of _ "[0, 0, 1, 7]" "[9, 9, 9, 9, 9]" 0 unset_nalu]
    unfolding sample_payload by blast
qed

lemma rbsp_copy_next_code:
  assumes "drop pos buffer = [0, 0, 1] @ tail" "pos + 3 \<le> limit" "len + 2 \<le> length rbsp"
  shows "rbsp_copy buffer True limit pos 0 rbsp len = Some (Some pos, rbsp[len := 0, len + 1 := 0], len)"
proof -
  note d0 = drop_nth [OF assms(1) [simplified]]
  note d1 = drop_nth [OF d0 [THEN conjunct2, THEN conjunct2]]
  note d2 = drop_nth [OF d1 [THEN conjunct2, THEN conjunct2]]
  have "rbsp_copy buffer True limit pos 0 rbsp len = rbsp_copy buffer True limit (Suc pos) 1 (rbsp[len := 0]) (Suc len)"
    using rbsp_copy_byte [of pos limit buffer 0 len rbsp 0 True] d0 assms(2,3) by simp
  also have "\<dots> = rbsp_copy buffer True limit (Suc (Suc pos)) 2 (rbsp[len := 0, Suc len := 0]) (Suc (Suc len))"
    using rbsp_copy_byte [of "Suc pos" limit buffer 0 "Suc len" "rbsp[len := 0]" 1 True] d1 assms(2,3)
    by (simp add: numeral_2_eq_2)
  also have "\<dots> = Some (Some pos, rbsp[len := 0, Suc len := 0], len)"
    using d2 assms(2) by (subst rbsp_copy.simps) (simp add: mem_at_def)
  finally show ?thesis by simp
qed

text \<open>
  When another start code follows, extraction stops there with the payload, but it returns the
  stop position squeezed into an unsigned char: the result is that position modulo 256, so a NAL
  unit that ends at a multiple of 256 is reported as a failure.
\<close>
theorem extract_rbsp_truncates:
  assumes "buffer = [0, 0, 1, h] @ escape 0 payload @ [0, 0, 1] @ tail" "length payload + 2 \<le> length rbsp"
    and "payload \<noteq> []" "last payload \<noteq> 0" "nalu_type (nal_header h) \<noteq> 10" "nalu_type (nal_header h) \<noteq> 11"
  shows "\<exists>rbsp'. extract_rbsp buffer (length buffer) 0 rbsp l0 raw =
      Some (of_nat (4 + length (escape 0 payload)), rbsp', length payload, nal_header h) \<and>
    take (length payload) rbsp' = payload"
proof -
  let ?p = "4 + length (escape 0 payload)"
  let ?r = "overwrite 0 payload rbsp"
  have s: "start_code_search buffer (length buffer) 2 0 0 = Some (Some 3)"
    using assms(1) by (subst start_code_search.simps) (simp add: mem_at_def)
  have "rbsp_copy buffer True (length buffer) 4 0 rbsp 0 =
      rbsp_copy buffer True (length buffer) ?p (zeros_after 0 payload) ?r (0 + length payload)"
    using assms(1,2) by (intro rbsp_copy_escape [where tail = "[0, 0, 1] @ tail"]) auto
  also have "\<dots> = Some (Some ?p, ?r[length payload := 0, length payload + 1 := 0], length payload)"
    unfolding zeros_after_last [OF assms(3,4)] add_0
    using assms(1,2) by (intro rbsp_copy_next_code [where tail = tail]) (auto simp: length_overwrite eval_nat_numeral)
  finally have c: "rbsp_copy buffer True (length buffer) 4 0 rbsp 0 = \<dots>" .
  have "take (length payload) (?r[length payload := 0, length payload + 1 := 0]) = payload"
    by (simp add: overwrite_def)
  then show ?thesis
    using s c assms by (simp add: extract_rbsp_def mem_at_def Let_def nal_header_def)
qed

theorem extract_rbsp_truncates_witness:
  "\<exists>r. extract_rbsp ([0, 0, 1, 0x65] @ replicate 252 7 @ [0, 0, 1] @ [0x65]) 260 0 (replicate 300 0) 0 unset_nalu =
    Some (0, r, 252, nal_header 0x65)"
proof -
  have e: "escape 0 (replicate n 7) = replicate n 7" for n by (induction n) auto
  have len: "length ([0, 0, 1, 0x65] @ replicate 252 7 @ [0, 0, 1] @ [0x65 :: u8]) = 260" by simp
  have z: "(of_nat (4 + length (escape 0 (replicate 252 7))) :: u8) = 0" by (simp add: e)
  have "length (replicate 252 (7 :: u8)) + 2 \<le> length (replicate 300 (0 :: u8))" by simp
  moreover have "replicate 252 (7 :: u8) \<noteq> []" "last (replicate 252 (7 :: u8)) \<noteq> 0" by simp_all
  ultimately show ?thesis
    using extract_rbsp_truncates [OF refl _ _ _ sample_header(2,3), of "replicate 252 7" "replicate 300 0" "[0x65]" 0 unset_nalu]
    unfolding z e len by auto
qed

text \<open>
  With NAL length fields the length is only checked to be below \<open>buffer_length\<close>, not together
  with the size of the field itself: any unit of \<open>L < buffer_length\<close> bytes is accepted and copied
  in full, also when its end \<open>k + L\<close> lies up to \<open>k\<close> bytes beyond \<open>buffer_length\<close>.
\<close>
theorem extract_rbsp_length_field:
  assumes "nal_len_field buffer k 0 0 = Some (len, k)" "0 < k" "unat len < buffer_length"
    and "drop k buffer = h # escape 0 payload @ tail" "unat len = 1 + length (escape 0 payload)"
    and "length payload \<le> length rbsp" "nalu_type (nal_header h) \<noteq> 10" "nalu_type (nal_header h) \<noteq> 11"
  shows "extract_rbsp buffer buffer_length k rbsp l0 raw =
    Some (1, overwrite 0 payload rbsp, length payload, nal_header h)"
proof -
  note d = drop_nth [OF assms(4)]
  have "rbsp_copy buffer False (unat len + k) (k + 1) 0 rbsp 0 =
      rbsp_copy buffer False (unat len + k) (k + 1 + length (escape 0 payload)) (zeros_after 0 payload)
        (overwrite 0 payload rbsp) (0 + length payload)"
    using d assms(5,6) by (intro rbsp_copy_escape [where tail = tail]) auto
  also have "\<dots> = Some (None, overwrite 0 payload rbsp, length payload)"
    using assms(5) by (subst rbsp_copy_end) auto
  finally show ?thesis
    using d assms(1-3,5,7,8) by (simp add: extract_rbsp_def mem_at_def Let_def nal_header_def)
qed

theorem extract_rbsp_length_field_witness:
  "extract_rbsp [0, 0, 0, 5, 0x65, 1, 2, 3, 4] 6 4 [9, 9, 9, 9, 9] 0 unset_nalu =
   Some (1, [1, 2, 3, 4, 9], length [1, 2, 3, 4 :: u8], nal_header 0x65)"
proof -
  have four: "(4 :: nat) = Suc (Suc (Suc (Suc 0)))" by simp
  have f: "nal_len_field [0, 0, 0, 5, 0x65, 1, 2, 3, 4] 4 0 0 = Some (5, 4)"
    unfolding four by (simp add: mem_at_def shl32_def)
  have d: "drop 4 [0, 0, 0, 5, 0x65, 1, 2, 3, 4 :: u8] = 0x65 # escape 0 [1, 2, 3, 4] @ []"
    unfolding sample_payload by simp
  have l: "unat (5 :: u32) < 6" "unat (5 :: u32) = 1 + length (escape 0 [1, 2, 3, 4])"
    "length [1, 2, 3, 4 :: u8] \<le> length [9, 9, 9, 9, 9 :: u8]"
    unfolding sample_payload by simp_all
  show ?thesis
    using extract_rbsp_length_field [OF f _ l(1) d l(2,3) sample_header(2,3), of 0 unset_nalu]
    unfolding sample_payload by simp
qed

section \<open>Access units\<close>

text \<open>
  The decisions of \<open>isNewFrame\<close> along a sequence of NAL units, each with the first macroblock its
  slice header carries.
\<close>

fun boundary_flags :: "(nalu \<times> 16 word) list \<Rightarrow> h264_utils \<Rightarrow> bool list" where
  "boundary_flags [] ut = []"
| "boundary_flags ((n, mb) # ns) ut =
     (let (f, ut) = frame_decision n mb ut in f # boundary_flags ns (ut\<lparr>m_prv_nalu := n\<rparr>))"

fun after_units :: "(nalu \<times> 16 word) list \<Rightarrow> h264_utils \<Rightarrow> h264_utils" where
  "after_units [] ut = ut"
| "after_units ((n, mb) # ns) ut = after_units ns ((snd (frame_decision n mb ut))\<lparr>m_prv_nalu := n\<rparr>)"

text \<open>Parameter sets and SEI, then the slices of one picture.\<close>

definition picture_slices :: "(nalu \<times> 16 word) list \<Rightarrow> bool" where
  "picture_slices ss \<longleftrightarrow> ss \<noteq> [] \<and> is_slice (fst (hd ss)) \<and> snd (hd ss) = 0 \<and>
     (\<forall>x \<in> set (tl ss). nalu_type (fst x) = nalu_type (fst (hd ss)) \<and>
        nal_ref_idc (fst x) = nal_ref_idc (fst (hd ss)) \<and> snd x \<noteq> 0)"

definition access_unit :: "(nalu \<times> 16 word) list \<times> (nalu \<times> 16 word) list \<Rightarrow> bool" where
  "access_unit au \<longleftrightarrow> (\<forall>x \<in> set (fst au). is_parameter (fst x)) \<and> picture_slices (snd au)"

definition au_units :: "(nalu \<times> 16 word) list \<times> (nalu \<times> 16 word) list \<Rightarrow> (nalu \<times> 16 word) list" where
  "au_units au = fst au @ snd au"

lemma boundary_flags_append:
  "boundary_flags (xs @ ys) ut = boundary_flags xs ut @ boundary_flags ys (after_units xs ut)"
  by (induction xs arbitrary: ut) (auto simp: Let_def case_prod_beta)

lemma after_units_append: "after_units (xs @ ys) ut = after_units ys (after_units xs ut)"
  by (induction xs ut rule: after_units.induct) auto

lemma not_both: "is_parameter n \<Longrightarrow> \<not> is_slice n"
  by (auto simp: is_parameter_def is_slice_def)

lemma parameter_flags:
  assumes "\<forall>x \<in> set ps. is_parameter (fst x)"
  shows "boundary_flags ps ut = (case ps of [] \<Rightarrow> [] | _ # ps' \<Rightarrow> m_au_data ut # replicate (length ps') False)
    \<and> (ps \<noteq> [] \<longrightarrow> m_forceToStichNextNAL (after_units ps ut) \<and> \<not> m_au_data (after_units ps ut))"
  using assms
proof (induction ps arbitrary: ut)
  case (Cons p ps)
  obtain n mb where p: "p = (n, mb)" by (cases p)
  have n: "is_parameter n" "\<not> is_slice n" using Cons.prems p not_both by auto
  define ut1 where "ut1 = ut\<lparr>m_au_data := False, m_forceToStichNextNAL := True, m_prv_nalu := n\<rparr>"
  from Cons have "boundary_flags ps ut1 = (case ps of [] \<Rightarrow> [] | _ # ps' \<Rightarrow> m_au_data ut1 # replicate (length ps') False)
    \<and> (ps \<noteq> [] \<longrightarrow> m_forceToStichNextNAL (after_units ps ut1) \<and> \<not> m_au_data (after_units ps ut1))"
    by auto
  then show ?case using n p by (cases ps) (auto simp: frame_decision_def ut1_def)
qed simp

lemma slice_tail_flags:
  assumes "is_slice prv" "m_prv_nalu ut = prv" "\<not> m_forceToStichNextNAL ut" "m_au_data ut"
    and "\<forall>x \<in> set ss. nalu_type (fst x) = nalu_type prv \<and> nal_ref_idc (fst x) = nal_ref_idc prv \<and> snd x \<noteq> 0"
  shows "boundary_flags ss ut = replicate (length ss) False \<and> m_au_data (after_units ss ut) \<and>
    \<not> m_forceToStichNextNAL (after_units ss ut)"
  using assms
proof (induction ss arbitrary: prv ut)
  case (Cons s ss)
  obtain n mb where s: "s = (n, mb)" by (cases s)
  have n: "is_slice n" "\<not> starts_picture prv n mb" "nalu_type n = nalu_type prv" "nal_ref_idc n = nal_ref_idc prv"
    using Cons.prems(1,5) s by (auto simp: is_slice_def starts_picture_def)
  have "boundary_flags ss (ut\<lparr>m_au_data := True, m_forceToStichNextNAL := False, m_prv_nalu := n\<rparr>) =
      replicate (length ss) False \<and>
    m_au_data (after_units ss (ut\<lparr>m_au_data := True, m_forceToStichNextNAL := False, m_prv_nalu := n\<rparr>)) \<and>
    \<not> m_forceToStichNextNAL (after_units ss (ut\<lparr>m_au_data := True, m_forceToStichNextNAL := False, m_prv_nalu := n\<rparr>))"
    using Cons.prems(5) n by (intro Cons.IH [of n]) auto
  then show ?case using n s Cons.prems(2,3) by (simp add: frame_decision_def)
qed simp

lemma access_unit_flags:
  assumes "access_unit (ps, ss)" "\<not> m_forceToStichNextNAL ut"
  shows "boundary_flags (ps @ ss) ut =
      (ps = [] \<or> m_au_data ut) # replicate (length (ps @ ss) - 1) False \<and>
    m_au_data (after_units (ps @ ss) ut) \<and> \<not> m_forceToStichNextNAL (after_units (ps @ ss) ut)"
proof -
  have p: "\<forall>x \<in> set ps. is_parameter (fst x)" and sl: "picture_slices ss" using assms(1) by (auto simp: access_unit_def)
  obtain n ss' where ss: "ss = (n, 0) # ss'" and n: "is_slice n"
    "\<forall>x \<in> set ss'. nalu_type (fst x) = nalu_type n \<and> nal_ref_idc (fst x) = nal_ref_idc n \<and> snd x \<noteq> 0"
    using sl by (cases ss) (auto simp: picture_slices_def)
  define ut1 where "ut1 = after_units ps ut"
  note pf = parameter_flags [OF p, of ut, folded ut1_def]
  define ut2 where "ut2 = ut1\<lparr>m_au_data := True, m_forceToStichNextNAL := False, m_prv_nalu := n\<rparr>"
  have st: "m_forceToStichNextNAL ut1 \<longleftrightarrow> ps \<noteq> []"
    using pf assms(2) by (cases ps) (auto simp: ut1_def)
  have f: "frame_decision n 0 ut1 = (ps = [], ut1\<lparr>m_au_data := True, m_forceToStichNextNAL := False\<rparr>)"
    using n(1) st by (simp add: frame_decision_def starts_picture_def)
  note tf = slice_tail_flags [of n ut2 ss', OF n(1) _ _ _ n(2)]
  have s: "boundary_flags ss ut1 = (ps = []) # replicate (length ss') False"
    "after_units ss ut1 = after_units ss' ut2"
    using f tf by (simp_all add: ss ut2_def)
  have fl: "boundary_flags (ps @ ss) ut = boundary_flags ps ut @ (ps = []) # replicate (length ss') False"
    by (simp only: boundary_flags_append ut1_def [symmetric] s)
  have au: "after_units (ps @ ss) ut = after_units ss' ut2"
    by (simp only: after_units_append ut1_def [symmetric] s)
  have len: "length (ps @ ss) - 1 = length ps + length ss'" by (simp add: ss)
  show ?thesis unfolding fl au len
    using conjunct1 [OF pf] tf
    by (cases ps) (simp_all add: ut2_def replicate_add replicate_app_Cons_same)
qed

lemma access_units_flags:
  assumes "\<forall>au \<in> set aus. access_unit au" "\<not> m_forceToStichNextNAL ut" "m_au_data ut"
  shows "boundary_flags (concat (map au_units aus)) ut =
    concat (map (\<lambda>au. True # replicate (length (au_units au) - 1) False) aus)"
  using assms
proof (induction aus arbitrary: ut)
  case (Cons au aus)
  obtain ps ss where au: "au = (ps, ss)" by (cases au)
  from Cons.prems have a: "access_unit (ps, ss)" by (simp add: au)
  note f = access_unit_flags [OF a Cons.prems(2)]
  have "boundary_flags (concat (map au_units aus)) (after_units (ps @ ss) ut) =
      concat (map (\<lambda>au. True # replicate (length (au_units au) - 1) False) aus)"
    using Cons.prems(1) f by (intro Cons.IH) auto
  moreover have "boundary_flags (concat (map au_units (au # aus))) ut =
      boundary_flags (ps @ ss) ut @ boundary_flags (concat (map au_units aus)) (after_units (ps @ ss) ut)"
    by (simp only: boundary_flags_append [symmetric] au au_units_def list.map concat.simps fst_conv snd_conv)
  ultimately show ?case using f Cons.prems(3) by (simp add: au au_units_def [of "(ps, ss)"])
qed simp

section \<open>Streams of NAL units\<close>

text \<open>
  A NAL unit as an encoder writes it: the length field, the header byte, the payload before emulation
  prevention, and for a slice the number of its first macroblock, with which the payload begins.
\<close>

type_synonym stream_unit = "u8 list \<times> u8 \<times> u8 list \<times> 16 word"

fun nal_of :: "stream_unit \<Rightarrow> u8 list" where
  "nal_of (l, h, r, mb) = h # escape 0 r"

fun unit_info :: "stream_unit \<Rightarrow> nalu \<times> 16 word" where
  "unit_info (l, h, r, mb) = (nal_header h, mb)"

text \<open>
  A slice or a parameter set whose payload fits the buffer of \<open>R\<close> bytes of the detector; a slice
  begins with the number of its first macroblock.
\<close>

fun unit_readable :: "nat \<Rightarrow> stream_unit \<Rightarrow> bool" where
  "unit_readable R (l, h, r, mb) \<longleftrightarrow> length r \<le> R \<and> (is_slice (nal_header h) \<or> is_parameter (nal_header h))
     \<and> (is_slice (nal_header h) \<longrightarrow>
         (\<exists>n rest. bytes_bits (cursor_bytes 0xFFFFFF r) = ue_bits n @ rest \<and> n + 1 < 2 ^ 32 \<and> mb = of_nat n))"

text \<open>The unit behind a start code.\<close>

definition sc_unit :: "u8 list \<Rightarrow> u8 list" where
  "sc_unit nal = [0, 0, 0, 1] @ nal"

lemma extract_rbsp_unit:
  assumes "length r \<le> length rbsp" "nalu_type (nal_header h) \<noteq> 10" "nalu_type (nal_header h) \<noteq> 11"
  shows "extract_rbsp (sc_unit (h # escape 0 r)) (length (sc_unit (h # escape 0 r))) 0 rbsp l0 raw =
    Some (1, overwrite 0 r rbsp, length r, nal_header h)"
proof -
  define b where "b = sc_unit (h # escape 0 r)"
  have b: "b = [0, 0, 0, 1, h] @ escape 0 r" by (simp add: b_def sc_unit_def)
  have s: "start_code_search b (length b) 2 0 0 = Some (Some 4)"
    by (subst start_code_search.simps, simp add: mem_at_def b) (subst start_code_search.simps, simp add: mem_at_def)
  have "rbsp_copy b True (length b) 5 0 rbsp 0 =
      rbsp_copy b True (length b) (5 + length (escape 0 r)) (zeros_after 0 r) (overwrite 0 r rbsp) (0 + length r)"
    using assms(1) by (intro rbsp_copy_escape [where tail = "[]"]) (simp_all add: b)
  also have "\<dots> = Some (None, overwrite 0 r rbsp, length r)" by (subst rbsp_copy_end) (simp_all add: b)
  finally show ?thesis
    using s assms unfolding b_def [symmetric] by (simp add: extract_rbsp_def Let_def nal_header_def) (simp add: b mem_at_def)
qed

lemma cursor_bytes_append: "\<exists>c'. cursor_bytes c (xs @ ys) = cursor_bytes c xs @ cursor_bytes c' ys"
  by (induction xs arbitrary: c) (auto simp: Let_def)

lemma first_macroblock:
  assumes "bytes_bits (cursor_bytes 0xFFFFFF r) = ue_bits n @ rest" "n + 1 < 2 ^ 32"
  shows "\<exists>p. ue (new_rbsp_parser (overwrite 0 r rbsp)) = Some (of_nat n, p)"
proof -
  obtain c where "cursor_bytes 0xFFFFFF (overwrite 0 r rbsp) = cursor_bytes 0xFFFFFF r @ cursor_bytes c (drop (length r) rbsp)"
    using cursor_bytes_append [of "0xFFFFFF" r "drop (length r) rbsp"] by (auto simp: overwrite_def)
  then have "bytes_bits (cursor_bytes 0xFFFFFF (overwrite 0 r rbsp)) =
      ue_bits n @ rest @ bytes_bits (cursor_bytes c (drop (length r) rbsp))"
    using assms(1) by (simp add: bytes_bits_def)
  from rbsp_ue_decodes [OF this assms(2)] show ?thesis by blast
qed

text \<open>The fields of the detector that its answers depend on.\<close>

definition same_detector :: "h264_utils \<Rightarrow> h264_utils \<Rightarrow> bool" where
  "same_detector ut vt \<longleftrightarrow> m_prv_nalu ut = m_prv_nalu vt \<and> m_forceToStichNextNAL ut = m_forceToStichNextNAL vt
     \<and> m_au_data ut = m_au_data vt"

lemma unit_detected:
  assumes "unit_readable R x" "length (m_rbspBytes ut) = R" "same_detector ut vt"
  shows "\<exists>ut'. is_new_frame (sc_unit (nal_of x)) (length (sc_unit (nal_of x))) 0 raw ut =
      Some ((True, fst (frame_decision (fst (unit_info x)) (snd (unit_info x)) vt)), ut') \<and>
    length (m_rbspBytes ut') = R \<and>
    same_detector ut' ((snd (frame_decision (fst (unit_info x)) (snd (unit_info x)) vt))\<lparr>m_prv_nalu := fst (unit_info x)\<rparr>)"
proof -
  obtain l h r mb where x: "x = (l, h, r, mb)" by (cases x)
  define n where "n = nal_header h"
  have r: "length r \<le> length (m_rbspBytes ut)" "is_slice n \<or> is_parameter n" using assms(1,2) by (simp_all add: x n_def)
  then have ty: "nalu_type n \<noteq> 10" "nalu_type n \<noteq> 11" by (auto simp: is_slice_def is_parameter_def)
  define mem where "mem = overwrite 0 r (m_rbspBytes ut)"
  have ex: "extract_rbsp (sc_unit (nal_of x)) (length (sc_unit (nal_of x))) 0 (m_rbspBytes ut) 0 raw = Some (1, mem, length r, n)"
    using extract_rbsp_unit [OF r(1)] ty by (simp add: x mem_def n_def)
  have "length mem = R" using r(1) assms(2) by (simp add: mem_def length_overwrite)
  show ?thesis
  proof (cases "is_slice n \<and> \<not> m_forceToStichNextNAL ut")
    case True
    obtain q rest where "bytes_bits (cursor_bytes 0xFFFFFF r) = ue_bits q @ rest" "q + 1 < 2 ^ 32" "mb = of_nat q"
      using assms(1) True by (auto simp: x n_def)
    moreover from this obtain p where "ue (new_rbsp_parser mem) = Some (of_nat q, p)"
      using first_macroblock [of r q rest] by (auto simp: mem_def)
    moreover have "ucast (of_nat q :: u32) = (of_nat q :: 16 word)"
      by (simp add: unsigned_of_nat word_of_nat_eq_iff)
    ultimately show ?thesis using True ex assms(3) \<open>length mem = R\<close>
      by (simp add: is_new_frame_def frame_decision_def same_detector_def n_def [symmetric] x)
  next
    case False
    then show ?thesis using ex assms(3) r(2) \<open>length mem = R\<close>
      by (auto simp: is_new_frame_def frame_decision_def same_detector_def n_def [symmetric] x)
  qed
qed

lemma boundary_same:
  "same_detector ut vt \<Longrightarrow> fst (frame_decision n mb ut) = fst (frame_decision n mb vt) \<and>
   same_detector (snd (frame_decision n mb ut)) (snd (frame_decision n mb vt))"
  by (simp add: same_detector_def frame_decision_def)

text \<open>The answers wanted for one access unit.\<close>

definition first_only :: "'a list \<Rightarrow> bool list" where
  "first_only vs = True # replicate (length vs - 1) False"

definition au_info :: "stream_unit list \<times> stream_unit list \<Rightarrow> (nalu \<times> 16 word) list \<times> (nalu \<times> 16 word) list" where
  "au_info au = (map unit_info (fst au), map unit_info (snd au))"

definition all_units :: "(stream_unit list \<times> stream_unit list) list \<Rightarrow> stream_unit list" where
  "all_units aus = concat (map (\<lambda>au. fst au @ snd au) aus)"

text \<open>The answers on access units: the first unit of the stream is flagged when it is a slice, then the first of each unit.\<close>

lemma access_unit_answers:
  assumes "\<forall>a \<in> set (au # aus). access_unit (au_info a)" "\<not> m_forceToStichNextNAL ut" "\<not> m_au_data ut"
  shows "boundary_flags (map unit_info (all_units (au # aus))) ut =
    (fst au = []) # replicate (length (fst au @ snd au) - 1) False @
    concat (map (\<lambda>a. first_only (fst a @ snd a)) aus)"
proof -
  have i: "map unit_info (all_units xs) = concat (map au_units (map au_info xs))" for xs
    by (induction xs) (simp_all add: all_units_def au_units_def au_info_def)
  have "access_unit (map unit_info (fst au), map unit_info (snd au))" using assms(1) by (simp add: au_info_def)
  note f = access_unit_flags [OF this assms(2)]
  let ?ut = "after_units (map unit_info (fst au) @ map unit_info (snd au)) ut"
  have "boundary_flags (map unit_info (all_units (au # aus))) ut =
      boundary_flags (map unit_info (fst au) @ map unit_info (snd au)) ut @ boundary_flags (concat (map au_units (map au_info aus))) ?ut"
    by (simp only: i [symmetric] boundary_flags_append [symmetric] map_append [symmetric]) (simp add: all_units_def)
  moreover have "boundary_flags (concat (map au_units (map au_info aus))) ?ut =
      concat (map (\<lambda>a. first_only (fst a @ snd a)) aus)"
    using access_units_flags [of "map au_info aus" ?ut] assms(1) f by (simp add: au_units_def au_info_def comp_def first_only_def)
  ultimately show ?thesis using f assms(3) by auto
qed

text \<open>The return values and answers of \<open>isNewFrame\<close> along a list of NAL units.\<close>

fun new_frame_flags :: "nalu \<Rightarrow> u8 list list \<Rightarrow> h264_utils \<Rightarrow> ((bool \<times> bool) list \<times> h264_utils) option" where
  "new_frame_flags raw [] ut = Some ([], ut)"
| "new_frame_flags raw (n # ns) ut = do {
     (f, ut) \<leftarrow> is_new_frame n (length n) 0 raw ut;
     (fs, ut) \<leftarrow> new_frame_flags raw ns ut;
     Some (f # fs, ut)
   }"

lemma new_frame_flags_boundary:
  assumes "\<forall>x \<in> set xs. unit_readable R x" "length (m_rbspBytes ut) = R" "same_detector ut vt"
  shows "\<exists>ut'. new_frame_flags raw (map (\<lambda>x. sc_unit (nal_of x)) xs) ut =
    Some (map (Pair True) (boundary_flags (map unit_info xs) vt), ut')"
  using assms
proof (induction xs arbitrary: ut vt)
  case (Cons x xs)
  let ?d = "frame_decision (fst (unit_info x)) (snd (unit_info x)) vt"
  obtain ut1 where 1: "is_new_frame (sc_unit (nal_of x)) (length (sc_unit (nal_of x))) 0 raw ut = Some ((True, fst ?d), ut1)"
    "length (m_rbspBytes ut1) = R" "same_detector ut1 ((snd ?d)\<lparr>m_prv_nalu := fst (unit_info x)\<rparr>)"
    using unit_detected [of R x ut vt raw] Cons.prems by auto
  obtain ut' where "new_frame_flags raw (map (\<lambda>x. sc_unit (nal_of x)) xs) ut1 =
      Some (map (Pair True) (boundary_flags (map unit_info xs) ((snd ?d)\<lparr>m_prv_nalu := fst (unit_info x)\<rparr>)), ut')"
    using Cons.IH [OF _ 1(2,3)] Cons.prems(1) by auto
  moreover have "boundary_flags (map unit_info (x # xs)) vt =
      fst ?d # boundary_flags (map unit_info xs) ((snd ?d)\<lparr>m_prv_nalu := fst (unit_info x)\<rparr>)"
    by (cases "unit_info x") (simp add: case_prod_beta)
  ultimately show ?case using 1(1) by simp
qed simp

text \<open>
  C18. Access unit detection on bytes: the detector is given, one after the other, the NAL units of a
  stream behind start codes, with their payloads escaped. The stream consists of access units, each
  made of parameter sets and SEI followed by the slices of one picture. \<open>isNewFrame\<close> returns true on
  every unit; its answer is true on the first unit of every access unit after the first, and false on
  every other unit. On the first unit of the stream the answer is true if it is a slice and false if
  it is a parameter set, as no frame lies before it.
\<close>
theorem access_unit_boundaries:
  assumes "\<forall>a \<in> set (au # aus). access_unit (au_info a)"
    and "\<forall>x \<in> set (all_units (au # aus)). unit_readable (length (m_rbspBytes ut)) x"
  shows "\<exists>ut'. new_frame_flags raw (map (\<lambda>x. sc_unit (nal_of x)) (all_units (au # aus)))
      (initialize_frame_checking_environment ut) =
    Some (map (Pair True) ((fst au = []) # replicate (length (fst au @ snd au) - 1) False @
      concat (map (\<lambda>a. first_only (fst a @ snd a)) aus)), ut')"
proof -
  let ?u = "initialize_frame_checking_environment ut"
  have u: "\<not> m_forceToStichNextNAL ?u" "\<not> m_au_data ?u" "m_rbspBytes ?u = m_rbspBytes ut"
    by (simp_all add: initialize_frame_checking_environment_def)
  have "boundary_flags (map unit_info (all_units (au # aus))) ?u =
      (fst au = []) # replicate (length (fst au @ snd au) - 1) False @
      concat (map (\<lambda>a. first_only (fst a @ snd a)) aus)"
    using access_unit_answers [OF assms(1) u(1,2)] .
  then show ?thesis
    using new_frame_flags_boundary [OF assms(2), of ?u ?u raw] u(3) by (simp add: same_detector_def)
qed

text \<open>An access unit of a parameter set and two slices, and one of a slice only.\<close>

definition sample_stream :: "(stream_unit list \<times> stream_unit list) list" where
  "sample_stream = [([([2], 0x67, [0x42], 0)], [([2], 0x65, [0x88], 0), ([2], 0x65, [0x2F], 4)]), ([], [([2], 0x41, [0x88], 0)])]"

lemma sample_stream_readable: "\<forall>x \<in> set (all_units sample_stream). unit_readable 4 x"
proof -
  have a: "bytes_bits (cursor_bytes 0xFFFFFF [0x88]) = ue_bits 0 @ [False, False, False, True, False, False, False]"
    "bytes_bits (cursor_bytes 0xFFFFFF [0x2F]) = ue_bits 4 @ [True, True, True]"
    by (simp_all add: byte_bits_def ue_bits_def ue_zeros_def nbits.simps biteval)
  have "\<exists>n rest. bytes_bits (cursor_bytes 0xFFFFFF [0x88]) = ue_bits n @ rest \<and> n + 1 < 2 ^ 32 \<and> (0 :: 16 word) = of_nat n"
    using a(1) by (intro exI [of _ 0] exI conjI) auto
  moreover have "\<exists>n rest. bytes_bits (cursor_bytes 0xFFFFFF [0x2F]) = ue_bits n @ rest \<and> n + 1 < 2 ^ 32 \<and> (4 :: 16 word) = of_nat n"
    using a(2) by (intro exI [of _ 4] exI conjI) auto
  ultimately show ?thesis
    by (simp add: sample_stream_def all_units_def is_slice_def is_parameter_def nal_header_def del: cursor_bytes.simps)
qed

lemma sample_stream_units: "\<forall>a \<in> set sample_stream. access_unit (au_info a)"
  by (simp add: sample_stream_def access_unit_def au_info_def picture_slices_def is_parameter_def is_slice_def nal_header_def)

definition sample_utils :: h264_utils where
  "sample_utils = \<lparr>m_rbspBytes = [], m_prv_nalu = unset_nalu,
     m_forceToStichNextNAL = False, m_au_data = False, last_nalu_type = 0\<rparr>"

theorem access_unit_boundaries_witness:
  "\<exists>ut'. new_frame_flags unset_nalu [[0, 0, 0, 1, 0x67, 0x42], [0, 0, 0, 1, 0x65, 0x88], [0, 0, 0, 1, 0x65, 0x2F],
       [0, 0, 0, 1, 0x41, 0x88]]
       (initialize_frame_checking_environment (sample_utils\<lparr>m_rbspBytes := [9, 9, 9, 9]\<rparr>)) =
     Some ([(True, False), (True, False), (True, False), (True, True)], ut')"
proof -
  obtain au aus where s: "sample_stream = au # aus" by (simp add: sample_stream_def)
  have "\<forall>x \<in> set (all_units (au # aus)).
      unit_readable (length (m_rbspBytes (sample_utils\<lparr>m_rbspBytes := [9, 9, 9, 9]\<rparr>))) x"
    using sample_stream_readable s by (simp add: eval_nat_numeral)
  from access_unit_boundaries [OF sample_stream_units [unfolded s] this, of unset_nalu] show ?thesis
    using s by (auto simp: sample_stream_def all_units_def sc_unit_def first_only_def numeral_2_eq_2)
qed

end
