(* ===== verification/FrameParser.thy ===== *)
theory FrameParser
  imports OmxBuffer
begin

text \<open>
  The frame splitter \<open>frame_parse\<close> of vdec/src/frameparser.cpp: it cuts a byte stream that arrives
  in buffers of any size at start codes (\<open>parse_sc_frame\<close>) or by NAL length fields
  (\<open>parse_h264_nallength\<close>). \<open>None\<close> is an access outside a buffer or a null start code.
\<close>

section \<open>State\<close>

datatype state_start_code_parse = A0 | A1 | A2 | A3 | A4 | A5

datatype state_nal_parse = NAL_LENGTH_ACC | NAL_PARSING

record frame_parse =
  parse_state :: state_start_code_parse
  sc_codec :: "codec_type option"
  last_byte_h263 :: u8
  last_byte :: u8
  header_found :: bool
  skip_frame_boundary :: bool
  state_nal :: state_nal_parse
  nal_length :: nat
  accum_length :: nat
  bytes_tobeparsed :: u32

definition frame_parse_init :: "u8 \<Rightarrow> frame_parse" where
  "frame_parse_init garbage = \<lparr>parse_state = A0, sc_codec = None, last_byte_h263 = 0, last_byte = garbage,
     header_found = False, skip_frame_boundary = False, state_nal = NAL_LENGTH_ACC, nal_length = 0,
     accum_length = 0, bytes_tobeparsed = 0\<rparr>"

text \<open>The tables \<open>start_code\<close> and \<open>mask_code\<close>, selected by codec.\<close>

fun start_code :: "codec_type \<Rightarrow> u8 list" where
  "start_code CODEC_TYPE_MPEG4 = [0, 0, 1, 0xB6]"
| "start_code CODEC_TYPE_H263 = [0, 0, 0x80, 0]"
| "start_code CODEC_TYPE_H264 = [0, 0, 0, 1]"
| "start_code CODEC_TYPE_VC1 = [0, 0, 1, 0x0C]"
| "start_code CODEC_TYPE_MPEG2 = [0, 0, 1, 0]"

fun mask_code :: "codec_type \<Rightarrow> u8 list" where
  "mask_code CODEC_TYPE_H263 = [0xFF, 0xFF, 0xFC, 0]"
| "mask_code CODEC_TYPE_VC1 = [0xFF, 0xFF, 0xFF, 0xFC]"
| "mask_code _ = [0xFF, 0xFF, 0xFF, 0xFF]"

definition code_match :: "codec_type \<Rightarrow> nat \<Rightarrow> u8 \<Rightarrow> bool" where
  "code_match c k b \<longleftrightarrow> b AND mask_code c ! k = start_code c ! k"

definition init_start_codes :: "codec_type \<Rightarrow> frame_parse \<Rightarrow> int \<times> frame_parse" where
  "init_start_codes c p = (if parse_state p \<noteq> A0 then (- 1, p) else (1, p\<lparr>sc_codec := Some c\<rparr>))"

definition init_nal_length :: "nat \<Rightarrow> frame_parse \<Rightarrow> int \<times> frame_parse" where
  "init_nal_length n p =
     (if n = 0 \<or> n > 4 \<or> state_nal p \<noteq> NAL_LENGTH_ACC then (- 1, p) else (1, p\<lparr>nal_length := n\<rparr>))"

definition flush :: "frame_parse \<Rightarrow> frame_parse" where
  "flush p = p\<lparr>parse_state := A0, state_nal := NAL_LENGTH_ACC, accum_length := 0, bytes_tobeparsed := 0,
     header_found := False, skip_frame_boundary := False\<rparr>"

section \<open>Start code machines\<close>

text \<open>
  \<open>parse_additional_start_code\<close> on the byte under \<open>parsed_length\<close>; the boolean tells whether it
  advanced \<open>parsed_length\<close>.
\<close>

definition parse_additional_start_code :: "codec_type \<Rightarrow> u8 \<Rightarrow> frame_parse \<Rightarrow> bool \<times> frame_parse" where
  "parse_additional_start_code c b p =
     (if c = CODEC_TYPE_MPEG4 \<and> b AND 0xF0 = 0x20 \<or> c = CODEC_TYPE_MPEG2 \<and> b = 0xB3 then
        (if header_found p then (True, p\<lparr>last_byte := b, parse_state := A4\<rparr>)
         else (False, p\<lparr>header_found := True\<rparr>))
      else (False, p))"

definition check_skip_frame_boundary :: "codec_type \<Rightarrow> frame_parse \<Rightarrow> nat \<Rightarrow> nat \<times> frame_parse" where
  "check_skip_frame_boundary c p partialframe =
     (if c = CODEC_TYPE_MPEG4 \<or> c = CODEC_TYPE_MPEG2
      then (if skip_frame_boundary p then 1 else 0, p\<lparr>skip_frame_boundary := False\<rparr>)
      else (partialframe, p))"

definition update_skip_frame :: "codec_type \<Rightarrow> frame_parse \<Rightarrow> frame_parse" where
  "update_skip_frame c p =
     (if c = CODEC_TYPE_MPEG4 \<and> last_byte p AND 0xF0 = 0x20 \<or> c = CODEC_TYPE_MPEG2 \<and> last_byte p = 0xB3
      then p\<lparr>skip_frame_boundary := True\<rparr> else p)"

text \<open>
  The match of the third byte, common to both machines: \<open>Some p\<close> when the byte is taken.
\<close>

definition third_byte :: "codec_type \<Rightarrow> u8 \<Rightarrow> frame_parse \<Rightarrow> frame_parse option" where
  "third_byte c b p =
     (if c = CODEC_TYPE_H263 then
        (if code_match c 2 b then Some (p\<lparr>last_byte_h263 := b, parse_state := A5\<rparr>) else None)
      else if c = CODEC_TYPE_H264 \<and> code_match c 3 b then Some (p\<lparr>parse_state := A5\<rparr>)
      else if code_match c 2 b then Some (p\<lparr>parse_state := A3\<rparr>)
      else None)"

text \<open>
  The state a failed match falls back to after three held bytes, with the number of start code
  bytes given up; the entry machine copies them.
\<close>

definition fallback3 :: "codec_type \<Rightarrow> state_start_code_parse \<times> nat" where
  "fallback3 c = (let sc = start_code c in
     if sc ! 1 = sc ! 0 \<and> sc ! 2 = sc ! 1 then (A2, 1)
     else if sc ! 2 = sc ! 0 then (A1, 2)
     else (A0, 3))"

definition fallback2 :: "codec_type \<Rightarrow> state_start_code_parse \<times> nat" where
  "fallback2 c = (let sc = start_code c in if sc ! 1 = sc ! 0 then (A1, 1) else (A0, 2))"

text \<open>One round of the entry machine.\<close>

definition give_up ::
  "codec_type \<Rightarrow> state_start_code_parse \<times> nat \<Rightarrow> frame_parse \<Rightarrow> omx_buffer \<Rightarrow> omx_buffer
   \<Rightarrow> (frame_parse \<times> omx_buffer \<times> omx_buffer) option" where
  "give_up c f p src dst =
     map_option (\<lambda>dst. (p\<lparr>parse_state := fst f\<rparr>, src, dst)) (emit (take (snd f) (start_code c)) dst)"

definition entry_step ::
  "codec_type \<Rightarrow> frame_parse \<Rightarrow> omx_buffer \<Rightarrow> omx_buffer \<Rightarrow> (frame_parse \<times> omx_buffer \<times> omx_buffer) option" where
  "entry_step c p src dst = do {
     b \<leftarrow> peek 0 src;
     (case parse_state p of
        A3 \<Rightarrow>
          (let p = snd (parse_additional_start_code c b p)
           in if parse_state p = A4 then Some (p, consume 1 src, dst)
              else if code_match c 3 b then Some (p\<lparr>parse_state := A4, last_byte := b\<rparr>, consume 1 src, dst)
              else give_up c (fallback3 c) p src dst)
      | A2 \<Rightarrow>
          (case third_byte c b p of
             Some p \<Rightarrow> Some (p, consume 1 src, dst)
           | None \<Rightarrow> give_up c (fallback2 c) p src dst)
      | A1 \<Rightarrow>
          (if code_match c 1 b then Some (p\<lparr>parse_state := A2\<rparr>, consume 1 src, dst)
           else give_up c (A0, 1) p src dst)
      | _ \<Rightarrow> Some (p, src, dst))
   }"

definition entry_active :: "frame_parse \<Rightarrow> omx_buffer \<Rightarrow> omx_buffer \<Rightarrow> bool" where
  "entry_active p src dst \<longleftrightarrow> nFilledLen src > 0 \<and> parse_state p \<notin> {A0, A4, A5} \<and> room dst > 0"

partial_function (option) entry_loop ::
  "codec_type \<Rightarrow> frame_parse \<Rightarrow> omx_buffer \<Rightarrow> omx_buffer \<Rightarrow> (frame_parse \<times> omx_buffer \<times> omx_buffer) option" where
  "entry_loop c p src dst =
     (if entry_active p src dst
      then Option.bind (entry_step c p src dst) (\<lambda>(p, src, dst). entry_loop c p src dst)
      else Some (p, src, dst))"

text \<open>One round of the parsing machine at index \<open>n = parsed_length\<close>.\<close>

definition scan_step :: "codec_type \<Rightarrow> frame_parse \<Rightarrow> nat \<Rightarrow> u8 \<Rightarrow> frame_parse \<times> nat" where
  "scan_step c p n b =
     (case parse_state p of
        A0 \<Rightarrow> ((if code_match c 0 b then p\<lparr>parse_state := A1\<rparr> else p), n + 1)
      | A1 \<Rightarrow> (if code_match c 1 b then (p\<lparr>parse_state := A2\<rparr>, n + 1) else (p\<lparr>parse_state := A0\<rparr>, n))
      | A2 \<Rightarrow> (case third_byte c b p of
                 Some p \<Rightarrow> (p, n + 1)
               | None \<Rightarrow> (p\<lparr>parse_state := fst (fallback2 c)\<rparr>, n))
      | A3 \<Rightarrow> (case parse_additional_start_code c b p of (adv, p) \<Rightarrow>
                 (let n = (if adv then n + 1 else n)
                  in if parse_state p = A4 then (p, n)
                     else if code_match c 3 b then (p\<lparr>last_byte := b, parse_state := A4\<rparr>, n + 1)
                     else (p\<lparr>parse_state := fst (fallback3 c)\<rparr>, n)))
      | _ \<Rightarrow> (p, n))"

partial_function (option) scan_loop ::
  "codec_type \<Rightarrow> omx_buffer \<Rightarrow> nat \<Rightarrow> frame_parse \<Rightarrow> nat \<Rightarrow> (frame_parse \<times> nat) option" where
  "scan_loop c src temp_len p n =
     (if n < temp_len \<and> parse_state p \<noteq> A4 \<and> parse_state p \<noteq> A5
      then Option.bind (peek n src) (\<lambda>b. case scan_step c p n b of (p, n) \<Rightarrow> scan_loop c src temp_len p n)
      else Some (p, n))"

fun held_count :: "state_start_code_parse \<Rightarrow> nat" where
  "held_count A0 = 0" | "held_count A1 = 1" | "held_count A2 = 2" | "held_count A3 = 3"
| "held_count A4 = 4" | "held_count A5 = 3"

text \<open>The exit machine: copy what was scanned except the bytes the state holds.\<close>

definition scan_exit ::
  "codec_type \<Rightarrow> frame_parse \<Rightarrow> nat \<Rightarrow> omx_buffer \<Rightarrow> omx_buffer \<Rightarrow> nat
   \<Rightarrow> (int \<times> nat \<times> frame_parse \<times> omx_buffer \<times> omx_buffer) option" where
  "scan_exit c p n src dst partialframe = do {
     let (partialframe, p) =
       (if parse_state p = A4 \<or> parse_state p = A5 then check_skip_frame_boundary c p 0 else (partialframe, p));
     let m = n - held_count (parse_state p);
     bs \<leftarrow> slice m src;
     dst \<leftarrow> emit bs dst;
     Some (if nFilledLen src < n then (- 1, partialframe, p, src, dst)
           else (1, partialframe, p, consume n src, dst))
   }"

text \<open>Writing the start code found by the previous call.\<close>

definition flush_start_code ::
  "codec_type \<Rightarrow> frame_parse \<Rightarrow> omx_buffer \<Rightarrow> omx_buffer \<Rightarrow> (frame_parse \<times> omx_buffer) option" where
  "flush_start_code c p src dst =
     (if parse_state p = A4 \<or> parse_state p = A5 then
        let dst = dst\<lparr>nFlags := nFlags src, nTimeStamp := nTimeStamp src\<rparr>
        in if c = CODEC_TYPE_H263 then
             map_option (\<lambda>dst. (p\<lparr>parse_state := A0\<rparr>, dst)) (emit [0, 0, last_byte_h263 p] dst)
           else if c \<in> {CODEC_TYPE_VC1, CODEC_TYPE_MPEG4, CODEC_TYPE_MPEG2} then
             map_option (\<lambda>dst. ((update_skip_frame c p)\<lparr>parse_state := A0\<rparr>, dst))
               (emit (take 3 (start_code c) @ [last_byte p]) dst)
           else map_option (\<lambda>dst. (p\<lparr>parse_state := A0\<rparr>, dst)) (emit (start_code c) dst)
      else Some (p, dst))"

definition parse_sc_frame ::
  "frame_parse \<Rightarrow> omx_buffer \<Rightarrow> omx_buffer \<Rightarrow> nat \<Rightarrow> (int \<times> nat \<times> frame_parse \<times> omx_buffer \<times> omx_buffer) option" where
  "parse_sc_frame p src dst partialframe = do {
     let dest_len = room dst;
     let min_len = (if sc_codec p = Some CODEC_TYPE_H263 then 3 else 4);
     if dest_len < min_len \<or> nFilledLen src = 0 then
       Some (if nFilledLen src = 0 \<and> nFlags src AND 1 \<noteq> 0 then (1, 0, p, src, dst)
             else (- 1, partialframe, p, src, dst))
     else do {
       c \<leftarrow> sc_codec p;
       (p, dst) \<leftarrow> flush_start_code c p src dst;
       (p, src, dst) \<leftarrow> entry_loop c p src dst;
       if parse_state p = A4 \<or> parse_state p = A5 then
         let (partialframe, p) = check_skip_frame_boundary c p 0 in Some (1, partialframe, p, src, dst)
       else
         let temp_len = min (nFilledLen src) (room dst)
         in if temp_len = 0 then Some (1, 1, p, src, dst)
            else do {
              (p, n) \<leftarrow> scan_loop c src temp_len p 0;
              scan_exit c p n src dst 1
            }
     }
   }"

section \<open>NAL length parsing\<close>

text \<open>The accumulation loop; \<open>n\<close> is \<open>parsed_length\<close>.\<close>

function acc_loop ::
  "nat \<Rightarrow> nat \<Rightarrow> frame_parse \<Rightarrow> omx_buffer \<Rightarrow> omx_buffer \<Rightarrow> (frame_parse \<times> omx_buffer \<times> omx_buffer) option" where
  "acc_loop n temp_len p src dst =
     (if n < temp_len then
        Option.bind (peek 0 src) (\<lambda>b.
          let sh = nat ((8 * (int (nal_length p) - int (accum_length p) - 1)) mod 2 ^ 32);
              p = p\<lparr>bytes_tobeparsed := bytes_tobeparsed p OR shl32 (ucast b) sh,
                    accum_length := accum_length p + 1\<rparr>;
              src = consume 1 src
          in if accum_length p = nal_length p then
               map_option (\<lambda>dst. (p\<lparr>accum_length := 0, state_nal := NAL_PARSING\<rparr>, src, dst))
                 (emit (start_code CODEC_TYPE_H264) dst)
             else acc_loop (n + 1) temp_len p src dst)
      else Some (p, src, dst))"
  by pat_completeness auto
termination
  by (relation "measure (\<lambda>(n, t, _). t - n)") auto

declare acc_loop.simps [simp del]

definition copy_nal :: "frame_parse \<Rightarrow> omx_buffer \<Rightarrow> omx_buffer \<Rightarrow> (frame_parse \<times> omx_buffer \<times> omx_buffer) option" where
  "copy_nal p src dst =
     (let temp_len = min (nFilledLen src) (room dst)
      in if state_nal p = NAL_PARSING \<and> temp_len > 0 then
           let k = min temp_len (unat (bytes_tobeparsed p))
           in do {
             bs \<leftarrow> slice k src;
             dst \<leftarrow> emit bs dst;
             Some (p\<lparr>bytes_tobeparsed := bytes_tobeparsed p - of_nat k\<rparr>, consume k src, dst)
           }
         else Some (p, src, dst))"

definition parse_h264_nallength ::
  "frame_parse \<Rightarrow> omx_buffer \<Rightarrow> omx_buffer \<Rightarrow> nat \<Rightarrow> (int \<times> nat \<times> frame_parse \<times> omx_buffer \<times> omx_buffer) option" where
  "parse_h264_nallength p src dst partialframe =
     (let dest_len = room dst; source_len = nFilledLen src
      in if dest_len < 4 \<or> source_len = 0 \<or> nal_length p = 0 then Some (- 1, partialframe, p, src, dst)
         else do {
           (p, src, dst) \<leftarrow> (if state_nal p = NAL_LENGTH_ACC
              then acc_loop 0 (min source_len dest_len) p src dst else Some (p, src, dst));
           let dst = dst\<lparr>nTimeStamp := nTimeStamp src, nFlags := nFlags src\<rparr>;
           (p, src, dst) \<leftarrow> copy_nal p src dst;
           Some (if bytes_tobeparsed p = 0 \<and> state_nal p = NAL_PARSING
                 then (1, 0, p\<lparr>state_nal := NAL_LENGTH_ACC\<rparr>, src, dst)
                 else (1, 1, p, src, dst))
         })"

section \<open>H.264: the start code automaton\<close>

text \<open>The bytes a state holds back.\<close>

fun held :: "state_start_code_parse \<Rightarrow> u8 list" where
  "held A0 = []" | "held A1 = [0]" | "held A2 = [0, 0]" | "held A3 = [0, 0, 0]"
| "held A4 = [0, 0, 0, 1]" | "held A5 = [0, 0, 1]"

lemma length_held: "length (held st) = held_count st"
  by (cases st) auto

text \<open>What both machines do on one byte: the next state, and whether the byte is taken.\<close>

fun micro :: "state_start_code_parse \<Rightarrow> u8 \<Rightarrow> state_start_code_parse \<times> bool" where
  "micro A0 b = (if b = 0 then A1 else A0, True)"
| "micro A1 b = (if b = 0 then (A2, True) else (A0, False))"
| "micro A2 b = (if b = 1 then (A5, True) else if b = 0 then (A3, True) else (A1, False))"
| "micro A3 b = (if b = 1 then (A4, True) else (A2, False))"
| "micro st b = (st, False)"

lemma h264_match: "code_match CODEC_TYPE_H264 k b \<longleftrightarrow> b = start_code CODEC_TYPE_H264 ! k" if "k < 4" for b :: u8
proof -
  have "k = 0 \<or> k = 1 \<or> k = 2 \<or> k = 3" using that by auto
  then have "mask_code CODEC_TYPE_H264 ! k = - 1" by auto
  then show ?thesis by (simp add: code_match_def)
qed

text \<open>
  \<open>text\<close> has no start code \<open>00 00 01\<close>; \<open>sc_inv\<close>: the state holds its last bytes, and a state
  that holds fewer zero bytes than \<open>text\<close> ends with has a pending byte that cannot complete a
  start code.
\<close>

definition no_sc :: "u8 list \<Rightarrow> bool" where
  "no_sc t \<longleftrightarrow> (\<nexists>xs ys. t = xs @ [0, 0, 1] @ ys)"

definition ends :: "u8 list \<Rightarrow> u8 list \<Rightarrow> bool" where
  "ends t s \<longleftrightarrow> (\<exists>p. t = p @ s)"

definition boundary :: "state_start_code_parse \<Rightarrow> bool" where
  "boundary st \<longleftrightarrow> st = A4 \<or> st = A5"

definition sc_inv :: "u8 list \<Rightarrow> state_start_code_parse \<Rightarrow> u8 list \<Rightarrow> bool" where
  "sc_inv t st src \<longleftrightarrow> \<not> boundary st \<and> no_sc t \<and> ends t (held st)
     \<and> (ends t [0, 0] \<and> (st = A0 \<or> st = A1) \<longrightarrow> (\<exists>b r. src = b # r \<and> b \<noteq> 0 \<and> b \<noteq> 1))
     \<and> (ends t [0] \<and> st = A0 \<longrightarrow> (\<exists>b r. src = b # r \<and> b \<noteq> 0))"

text \<open>The text up to and including its first start code.\<close>

definition found :: "u8 list \<Rightarrow> state_start_code_parse \<Rightarrow> bool" where
  "found t st \<longleftrightarrow> boundary st \<and> no_sc (butlast t) \<and> ends t (held st)"

lemma ends_snoc: "ends (t @ [b]) (s @ [c]) \<longleftrightarrow> b = c \<and> ends t s"
  by (auto simp: ends_def)

lemma ends_two: "ends (t @ [b]) [0, 0] \<longleftrightarrow> b = 0 \<and> ends t [0]" "ends (t @ [b]) [0] \<longleftrightarrow> b = 0"
  using ends_snoc [of t b "[0]" 0] ends_snoc [of t b "[]" 0] by (auto simp: ends_def)

lemma ends_shorter: "ends t (a # s) \<Longrightarrow> ends t s"
  by (auto simp: ends_def)

lemma no_sc_snoc: "no_sc t \<Longrightarrow> (b = 1 \<longrightarrow> \<not> ends t [0, 0]) \<Longrightarrow> no_sc (t @ [b])"
proof -
  assume t: "no_sc t" and b: "b = 1 \<longrightarrow> \<not> ends t [0, 0]"
  show "no_sc (t @ [b])"
    unfolding no_sc_def
  proof (rule notI, elim exE)
    fix xs ys assume e: "t @ [b] = xs @ [0, 0, 1] @ ys"
    show False
    proof (cases ys rule: rev_cases)
      case Nil
      then have "t @ [b] = (xs @ [0, 0]) @ [1]" using e by simp
      then have "b = 1" "t = xs @ [0, 0]" by (simp_all only: append1_eq_conv)
      then show False using b by (auto simp: ends_def)
    next
      case (snoc zs z)
      then have "t @ [b] = (xs @ [0, 0, 1] @ zs) @ [z]" using e by simp
      then have "t = xs @ [0, 0, 1] @ zs" by (simp only: append1_eq_conv)
      then show False using t by (auto simp: no_sc_def)
    qed
  qed
qed

lemma micro_inv:
  assumes "sc_inv t st (b # src)" "micro st b = (st', k)"
  shows "if boundary st' then k \<and> found (t @ [b]) st' \<and> held st' = held st @ [b]
    else sc_inv (t @ (if k then [b] else [])) st' (if k then src else b # src) \<and>
      (if k then st = A0 \<or> held st' = held st @ [b] else held st = 0 # held st')"
proof -
  have i: "\<not> boundary st" "no_sc t" "ends t (held st)"
    "ends t [0, 0] \<Longrightarrow> st = A0 \<or> st = A1 \<Longrightarrow> b \<noteq> 0 \<and> b \<noteq> 1" "ends t [0] \<Longrightarrow> st = A0 \<Longrightarrow> b \<noteq> 0"
    using assms(1) by (auto simp: sc_inv_def)
  have ns: "b \<noteq> 1 \<Longrightarrow> no_sc (t @ [b])" using no_sc_snoc [OF i(2), of b] by simp
  show ?thesis
  proof (cases st)
    case A0
    have "no_sc (t @ [b])" using no_sc_snoc [OF i(2)] i(4) A0 by blast
    then show ?thesis using assms(2) i A0
      by (cases "b = 0") (auto simp: sc_inv_def boundary_def ends_two, auto simp: ends_def)
  next
    case A1
    then have "ends (t @ [0]) [0, 0]" using i(3) by (simp add: ends_two)
    then show ?thesis using assms(2) i ns A1
      by (cases "b = 0") (auto simp: sc_inv_def boundary_def, auto simp: ends_def)
  next
    case A2
    have e: "ends (t @ [1]) [0, 0, 1]" "ends (t @ [0]) [0, 0, 0]"
      using i(3) ends_snoc [of t _ "[0, 0]" _] A2 by auto
    then show ?thesis using assms(2) i ns A2 ends_shorter [of t 0 "[0]"]
      by (cases "b = 1"; cases "b = 0") (auto simp: sc_inv_def boundary_def found_def)
  next
    case A3
    have e: "ends (t @ [1]) [0, 0, 0, 1]"
      using i(3) ends_snoc [of t _ "[0, 0, 0]" _] A3 by auto
    then show ?thesis using assms(2) i ns A3 ends_shorter [of t 0 "[0, 0]"]
      by (cases "b = 1") (auto simp: sc_inv_def boundary_def found_def)
  qed (use i(1) in \<open>auto simp: boundary_def\<close>)
qed

section \<open>H.264: both machines run the automaton\<close>

definition set_state :: "state_start_code_parse \<Rightarrow> u8 \<Rightarrow> frame_parse \<Rightarrow> frame_parse" where
  "set_state st b p = (let p = p\<lparr>parse_state := st\<rparr> in if st = A4 then p\<lparr>last_byte := b\<rparr> else p)"

lemma set_state_simps [simp]:
  "parse_state (set_state st b p) = st" "sc_codec (set_state st b p) = sc_codec p"
  by (simp_all add: set_state_def Let_def)

lemma additional_h264: "parse_additional_start_code CODEC_TYPE_H264 b p = (False, p)"
  by (simp add: parse_additional_start_code_def)

lemma fallback_h264: "fallback3 CODEC_TYPE_H264 = (A2, 1)" "fallback2 CODEC_TYPE_H264 = (A1, 1)"
  by (simp_all add: fallback3_def fallback2_def numeral_2_eq_2)

lemma scan_step_h264:
  assumes "micro (parse_state p) b = (st, k)" "\<not> boundary (parse_state p)"
  shows "scan_step CODEC_TYPE_H264 p n b = (set_state st b p, if k then n + 1 else n)"
  using assms
  by (cases "parse_state p")
    (auto simp: scan_step_def h264_match third_byte_def additional_h264 fallback_h264 set_state_def
      boundary_def Let_def split: if_splits)

lemma entry_step_h264:
  assumes "micro (parse_state p) b = (st, k)" "\<not> boundary (parse_state p)" "parse_state p \<noteq> A0"
    and "peek 0 src = Some b"
  shows "entry_step CODEC_TYPE_H264 p src dst =
    (if k then Some (set_state st b p, consume 1 src, dst)
     else map_option (\<lambda>dst. (set_state st b p, src, dst)) (emit [0] dst))"
  using assms
  by (cases "parse_state p")
    (auto simp: entry_step_def h264_match third_byte_def additional_h264 fallback_h264 set_state_def
      give_up_def boundary_def Let_def split: if_splits)

text \<open>The state after a scan over \<open>text\<close> with \<open>rest\<close> left.\<close>

definition scanned :: "u8 list \<Rightarrow> state_start_code_parse \<Rightarrow> u8 list \<Rightarrow> bool" where
  "scanned t st rest \<longleftrightarrow> (if boundary st then found t st else sc_inv t st rest)"

fun rank :: "state_start_code_parse \<Rightarrow> nat" where
  "rank A1 = 1" | "rank A2 = 2" | "rank A3 = 3" | "rank _ = 0"

lemma micro_rank: "micro st b = (st', False) \<Longrightarrow> \<not> boundary st \<Longrightarrow> rank st' < rank st"
  by (cases st) (auto simp: boundary_def split: if_splits)

lemma micro_count: "micro st b = (st', k) \<Longrightarrow> held_count st' \<le> held_count st + (if k then 1 else 0)"
  by (cases st) (auto split: if_splits)

lemma rank_le: "rank st \<le> 3"
  by (cases st) auto

lemma scan_loop_h264:
  assumes "buf_ok src" "t \<le> nFilledLen src" "n \<le> t" "held_count (parse_state p) \<le> n"
    and "sc_inv (f @ take n (data src)) (parse_state p) (drop n (data src))" "sc_codec p = Some CODEC_TYPE_H264"
  shows "\<exists>p' n'. scan_loop CODEC_TYPE_H264 src t p n = Some (p', n') \<and> n' \<le> t \<and>
    held_count (parse_state p') \<le> n' \<and> sc_codec p' = Some CODEC_TYPE_H264 \<and>
    scanned (f @ take n' (data src)) (parse_state p') (drop n' (data src))"
  using assms(3-6)
proof (induction "4 * (t - n) + rank (parse_state p)" arbitrary: n p rule: less_induct)
  case less
  let ?st = "parse_state p"
  have nb: "\<not> boundary ?st" using less.prems(3) by (simp add: sc_inv_def)
  show ?case
  proof (cases "n < t")
    case False
    then show ?thesis using less.prems nb
      by (subst scan_loop.simps) (simp add: scanned_def)
  next
    case True
    define b where "b = data src ! n"
    have ln: "n < length (data src)" using True assms(1,2) by (simp add: length_data)
    have d: "drop n (data src) = b # drop (Suc n) (data src)"
      using ln by (simp add: b_def Cons_nth_drop_Suc)
    have tk: "take (Suc n) (data src) = take n (data src) @ [b]"
      using ln by (simp add: b_def take_Suc_conv_app_nth)
    have pk: "peek n src = Some b" using True assms(1,2) by (simp add: b_def peek_ok)
    obtain st k where m: "micro ?st b = (st, k)" by force
    define p1 where "p1 = set_state st b p"
    define n1 where "n1 = (if k then n + 1 else n)"
    have run: "scan_loop CODEC_TYPE_H264 src t p n = scan_loop CODEC_TYPE_H264 src t p1 n1"
      using True pk nb scan_step_h264 [OF m nb, of n]
      by (subst scan_loop.simps) (simp add: boundary_def p1_def n1_def)
    have hc: "held_count st \<le> n1" using micro_count [OF m] less.prems(2) by (auto simp: n1_def)
    note inv = micro_inv [OF less.prems(3) [unfolded d] m]
    have t1: "f @ take n1 (data src) = (f @ take n (data src)) @ (if k then [b] else [])"
      using tk by (simp add: n1_def)
    have d1: "drop n1 (data src) = (if k then drop (Suc n) (data src) else b # drop (Suc n) (data src))"
      using d by (simp add: n1_def)
    show ?thesis
    proof (cases "boundary st")
      case True
      then have "scan_loop CODEC_TYPE_H264 src t p1 n1 = Some (p1, n1)"
        by (subst scan_loop.simps) (auto simp: p1_def boundary_def)
      then show ?thesis using run inv True hc t1 less.prems(4) \<open>n < t\<close>
        by (auto simp: scanned_def p1_def n1_def)
    next
      case False
      have dec: "4 * (t - n1) + rank (parse_state p1) < 4 * (t - n) + rank (parse_state p)"
        using micro_rank [of ?st b st] m nb rank_le [of st] \<open>n < t\<close>
        by (cases k) (auto simp: n1_def p1_def)
      have "sc_inv (f @ take n1 (data src)) (parse_state p1) (drop n1 (data src))"
        using inv False unfolding t1 d1 by (simp add: p1_def)
      from less.hyps [OF dec _ _ this] run hc \<open>n < t\<close> less.prems(4) show ?thesis
        by (auto simp: n1_def p1_def)
    qed
  qed
qed

lemma entry_loop_h264:
  assumes "buf_ok src" "buf_ok dst" "sc_inv (f @ held (parse_state p)) (parse_state p) (data src)"
    and "sc_codec p = Some CODEC_TYPE_H264"
  shows "\<exists>p' src' dst' out. entry_loop CODEC_TYPE_H264 p src dst = Some (p', src', dst') \<and>
    buf_ok src' \<and> buf_ok dst' \<and> sc_codec p' = Some CODEC_TYPE_H264 \<and> data dst' = data dst @ out \<and>
    held (parse_state p) @ data src = out @ held (parse_state p') @ data src' \<and>
    scanned (f @ out @ held (parse_state p')) (parse_state p') (data src') \<and>
    (boundary (parse_state p') \<or> parse_state p' = A0 \<or> min (nFilledLen src') (room dst') = 0)"
  using assms
proof (induction "4 * nFilledLen src + rank (parse_state p)" arbitrary: p src dst f rule: less_induct)
  case less
  let ?st = "parse_state p"
  have nb: "\<not> boundary ?st" using less.prems(3) by (simp add: sc_inv_def)
  show ?case
  proof (cases "entry_active p src dst")
    case False
    then have "?st = A0 \<or> min (nFilledLen src) (room dst) = 0" using nb by (auto simp: entry_active_def boundary_def)
    moreover have "entry_loop CODEC_TYPE_H264 p src dst = Some (p, src, dst)"
      using False by (subst entry_loop.simps) simp
    ultimately show ?thesis using less.prems nb by (auto simp: scanned_def)
  next
    case True
    then have pos: "0 < nFilledLen src" "0 < room dst" "?st \<noteq> A0" by (auto simp: entry_active_def)
    obtain b bs where d: "data src = b # bs" using data_Cons [OF less.prems(1) pos(1)] by blast
    have pk: "peek 0 src = Some b" using peek_ok [OF less.prems(1) pos(1)] d by simp
    obtain st k where m: "micro ?st b = (st, k)" by force
    note inv = micro_inv [OF less.prems(3) [unfolded d] m]
    note step = entry_step_h264 [OF m nb pos(3) pk, of dst]
    define p1 where "p1 = set_state st b p"
    obtain src1 dst1 out1 where s1: "entry_step CODEC_TYPE_H264 p src dst = Some (p1, src1, dst1)"
      "buf_ok src1" "buf_ok dst1" "data dst1 = data dst @ out1" "held ?st @ data src = out1 @ held st @ data src1"
      "f @ out1 @ held st = (f @ held ?st) @ (if k then [b] else [])"
      "data src1 = (if k then bs else b # bs)" "nFilledLen src1 = nFilledLen src - (if k then 1 else 0)"
    proof (cases k)
      case True
      have h: "held st = held ?st @ [b]" using inv True pos(3) by (auto split: if_splits)
      show thesis
        by (rule that [of "consume 1 src" dst "[]"])
          (use step True h consume_ok [OF less.prems(1), of 1] pos(1) less.prems(2) d in
            \<open>auto simp: p1_def consume_def\<close>)
    next
      case False
      have h: "held ?st = 0 # held st" using inv False by (auto split: if_splits)
      obtain d' where "emit [0] dst = Some d'" "buf_ok d'" "data d' = data dst @ [0]"
        using emit_ok [OF less.prems(2), of "[0]"] pos(2) by auto
      then show thesis
        by (intro that [of src d' "[0]"]) (use step False h less.prems(1) d in \<open>auto simp: p1_def\<close>)
    qed
    have run: "entry_loop CODEC_TYPE_H264 p src dst = entry_loop CODEC_TYPE_H264 p1 src1 dst1"
      using True s1(1) by (subst entry_loop.simps) simp
    have st1: "parse_state p1 = st" "sc_codec p1 = Some CODEC_TYPE_H264"
      using less.prems(4) by (simp_all add: p1_def)
    show ?thesis
    proof (cases "boundary st")
      case True
      then have "entry_loop CODEC_TYPE_H264 p1 src1 dst1 = Some (p1, src1, dst1)"
        by (subst entry_loop.simps) (auto simp: entry_active_def st1 boundary_def)
      then show ?thesis using run s1 inv True st1 by (auto simp: scanned_def)
    next
      case False
      have dec: "4 * nFilledLen src1 + rank (parse_state p1) < 4 * nFilledLen src + rank ?st"
        using micro_rank [of ?st b st] m nb rank_le [of st] pos(1) s1(8) by (cases k) (auto simp: st1)
      have inv1: "sc_inv ((f @ out1) @ held (parse_state p1)) (parse_state p1) (data src1)"
        using inv False s1(6,7) by (simp add: st1)
      obtain p' src' dst' out where r: "entry_loop CODEC_TYPE_H264 p1 src1 dst1 = Some (p', src', dst')"
        "buf_ok src'" "buf_ok dst'" "sc_codec p' = Some CODEC_TYPE_H264" "data dst' = data dst1 @ out"
        "held (parse_state p1) @ data src1 = out @ held (parse_state p') @ data src'"
        "scanned ((f @ out1) @ out @ held (parse_state p')) (parse_state p') (data src')"
        "boundary (parse_state p') \<or> parse_state p' = A0 \<or> min (nFilledLen src') (room dst') = 0"
        using less.hyps [OF dec s1(2,3) inv1 st1(2)] by blast
      show ?thesis
        by (intro exI [of _ p'] exI [of _ src'] exI [of _ dst'] exI [of _ "out1 @ out"])
          (use run r s1(4,5) st1 in simp)
    qed
  qed
qed

lemma suffix_split:
  assumes "f @ x = q @ h" "length h \<le> length x"
  shows "x = take (length x - length h) x @ h"
proof -
  from assms(1) obtain us where "f = q @ us \<and> us @ x = h \<or> f @ us = q \<and> x = us @ h"
    by (auto simp: append_eq_append_conv2)
  then show ?thesis using assms(2) by (auto dest: arg_cong [where f = length])
qed

lemma scan_exit_h264:
  assumes "buf_ok src" "buf_ok dst" "n \<le> nFilledLen src" "n \<le> room dst" "held_count (parse_state p) \<le> n"
    and "scanned (f @ take n (data src)) (parse_state p) (drop n (data src))"
  shows "\<exists>src' dst' out. scan_exit CODEC_TYPE_H264 p n src dst 1 =
      Some (1, if boundary (parse_state p) then 0 else 1, p, src', dst') \<and> buf_ok src' \<and> buf_ok dst' \<and>
    data dst' = data dst @ out \<and> data src = out @ held (parse_state p) @ data src' \<and>
    scanned (f @ out @ held (parse_state p)) (parse_state p) (data src')"
proof -
  let ?h = "held (parse_state p)"
  let ?m = "n - held_count (parse_state p)"
  have len: "length (take n (data src)) = n" using assms(1,3) by (simp add: length_data)
  have "ends (f @ take n (data src)) ?h"
    using assms(6) by (auto simp: scanned_def found_def sc_inv_def split: if_splits)
  then obtain q where q: "f @ take n (data src) = q @ ?h" by (auto simp: ends_def)
  from suffix_split [OF this] have tk: "take n (data src) = take ?m (data src) @ ?h"
    using assms(5) len by (simp add: length_held min_def)
  have sl: "slice ?m src = Some (take ?m (data src))" using assms(1,3) by (intro slice_ok) auto
  have "length (take ?m (data src)) \<le> room dst" using assms(4) by simp
  from emit_ok [OF assms(2) this] obtain dst' where e: "emit (take ?m (data src)) dst = Some dst'"
    "buf_ok dst'" "data dst' = data dst @ take ?m (data src)" by blast
  have c: "buf_ok (consume n src)" "data (consume n src) = drop n (data src)"
    using consume_ok [OF assms(1,3)] by auto
  have sk: "check_skip_frame_boundary CODEC_TYPE_H264 p x = (x, p)" for x
    by (simp add: check_skip_frame_boundary_def)
  have r: "scan_exit CODEC_TYPE_H264 p n src dst 1 =
      Some (1, if boundary (parse_state p) then 0 else 1, p, consume n src, dst')"
    using sl e(1) assms(3) by (auto simp: scan_exit_def sk boundary_def Let_def)
  have "data src = take ?m (data src) @ ?h @ drop n (data src)"
    using tk by (metis append.assoc append_take_drop_id)
  then show ?thesis using r c e(2,3) assms(6) unfolding tk
    by (intro exI [of _ "consume n src"] exI [of _ dst'] exI [of _ "take ?m (data src)"]) simp
qed

definition start_text :: "frame_parse \<Rightarrow> u8 list" where
  "start_text p = (if boundary (parse_state p) then [] else held (parse_state p))"

lemma sc_inv_Nil: "sc_inv [] A0 src"
  by (auto simp: sc_inv_def boundary_def no_sc_def ends_def)

lemma h264_call:
  assumes "sc_codec p = Some CODEC_TYPE_H264" "buf_ok src" "buf_ok dst" "4 \<le> room dst" "0 < nFilledLen src"
    and "if boundary (parse_state p) then f = [] else sc_inv (f @ held (parse_state p)) (parse_state p) (data src)"
  shows "\<exists>p' src' dst' out. parse_sc_frame p src dst x =
      Some (1, if boundary (parse_state p') then 0 else 1, p', src', dst') \<and>
    sc_codec p' = Some CODEC_TYPE_H264 \<and> buf_ok src' \<and> buf_ok dst' \<and>
    data dst' = data dst @ (if boundary (parse_state p) then [0, 0, 0, 1] else []) @ out \<and>
    start_text p @ data src = out @ held (parse_state p') @ data src' \<and>
    scanned (f @ out @ held (parse_state p')) (parse_state p') (data src')"
proof -
  define pre where "pre = (if boundary (parse_state p) then [0, 0, 0, 1 :: u8] else [])"
  obtain p1 dst1 where fl: "flush_start_code CODEC_TYPE_H264 p src dst = Some (p1, dst1)"
    "sc_codec p1 = Some CODEC_TYPE_H264" "buf_ok dst1" "data dst1 = data dst @ pre"
    "held (parse_state p1) = start_text p" "sc_inv (f @ held (parse_state p1)) (parse_state p1) (data src)"
  proof (cases "boundary (parse_state p)")
    case True
    let ?d = "dst\<lparr>nFlags := nFlags src, nTimeStamp := nTimeStamp src\<rparr>"
    have "buf_ok ?d" "data ?d = data dst" "room ?d = room dst"
      using assms(3) by (simp_all add: buf_ok_def data_def room_def)
    then obtain d' where "emit [0, 0, 0, 1] ?d = Some d'" "buf_ok d'" "data d' = data dst @ [0, 0, 0, 1]"
      using emit_ok [of ?d "[0, 0, 0, 1]"] assms(4) by auto
    then show thesis using True assms(1,6) sc_inv_Nil [of "data src"]
      by (intro that [of "p\<lparr>parse_state := A0\<rparr>" d'])
        (auto simp: flush_start_code_def boundary_def pre_def start_text_def)
  next
    case False
    then show thesis using assms(1,3,6)
      by (intro that [of p dst]) (auto simp: flush_start_code_def boundary_def pre_def start_text_def)
  qed
  obtain p2 src2 dst2 out2 where en: "entry_loop CODEC_TYPE_H264 p1 src dst1 = Some (p2, src2, dst2)"
    "buf_ok src2" "buf_ok dst2" "sc_codec p2 = Some CODEC_TYPE_H264" "data dst2 = data dst1 @ out2"
    "held (parse_state p1) @ data src = out2 @ held (parse_state p2) @ data src2"
    "scanned (f @ out2 @ held (parse_state p2)) (parse_state p2) (data src2)"
    "boundary (parse_state p2) \<or> parse_state p2 = A0 \<or> min (nFilledLen src2) (room dst2) = 0"
    using entry_loop_h264 [OF assms(2) fl(3,6,2)] by blast
  have sk: "check_skip_frame_boundary CODEC_TYPE_H264 q y = (y, q)" for q y
    by (simp add: check_skip_frame_boundary_def)
  define t where "t = min (nFilledLen src2) (room dst2)"
  have go: "parse_sc_frame p src dst x = (if boundary (parse_state p2) then Some (1, 0, p2, src2, dst2)
      else if t = 0 then Some (1, 1, p2, src2, dst2)
      else Option.bind (scan_loop CODEC_TYPE_H264 src2 t p2 0) (\<lambda>(p, n). scan_exit CODEC_TYPE_H264 p n src2 dst2 1))"
    using assms(1,4,5) fl(1) en(1)
    unfolding parse_sc_frame_def Let_def sk boundary_def t_def [symmetric] by (auto simp: sk simp flip: t_def)
  show ?thesis
  proof (cases "boundary (parse_state p2) \<or> t = 0")
    case True
    then show ?thesis using go en fl(4,5)
      by (intro exI [of _ p2] exI [of _ src2] exI [of _ dst2] exI [of _ out2]) (auto simp: pre_def)
  next
    case False
    then have a0: "parse_state p2 = A0" using en(8) by (auto simp: t_def)
    have inv: "sc_inv ((f @ out2) @ take 0 (data src2)) (parse_state p2) (drop 0 (data src2))"
      using en(7) a0 by (simp add: scanned_def boundary_def)
    obtain p3 n where sc: "scan_loop CODEC_TYPE_H264 src2 t p2 0 = Some (p3, n)" "n \<le> t"
      "held_count (parse_state p3) \<le> n" "sc_codec p3 = Some CODEC_TYPE_H264"
      "scanned ((f @ out2) @ take n (data src2)) (parse_state p3) (drop n (data src2))"
      using scan_loop_h264 [OF en(2) _ _ _ inv en(4), of t] a0 by (auto simp: t_def)
    have n: "n \<le> nFilledLen src2" "n \<le> room dst2" using sc(2) by (auto simp: t_def)
    obtain src3 dst3 out3 where ex: "scan_exit CODEC_TYPE_H264 p3 n src2 dst2 1 =
        Some (1, if boundary (parse_state p3) then 0 else 1, p3, src3, dst3)" "buf_ok src3" "buf_ok dst3"
      "data dst3 = data dst2 @ out3" "data src2 = out3 @ held (parse_state p3) @ data src3"
      "scanned ((f @ out2) @ out3 @ held (parse_state p3)) (parse_state p3) (data src3)"
      using scan_exit_h264 [OF en(2,3) n sc(3,5)] by blast
    show ?thesis using go False sc(1,4) ex en(5,6) fl(4,5) a0
      by (intro exI [of _ p3] exI [of _ src3] exI [of _ dst3] exI [of _ "out2 @ out3"]) (auto simp: pre_def)
  qed
qed

section \<open>Properties of the splitter\<close>

text \<open>
  C13. One call of \<open>parse_sc_frame\<close> on H.264 data, with source and destination buffers of any size.
  \<open>f\<close> is the text of the current NAL unit copied by earlier calls. The call terminates without
  overflowing either buffer. No byte is lost or invented: the bytes the parser held plus the
  source bytes are the bytes copied, the bytes it now holds and the bytes left. It reports a
  boundary exactly when the text contains a start code \<open>00 00 01\<close>, at the first one; a start code
  found by the previous call is written first, as the four bytes \<open>00 00 00 01\<close>. The invariant for
  the next call is established.
\<close>
theorem parse_sc_frame_h264:
  assumes "sc_codec p = Some CODEC_TYPE_H264" "buf_ok src" "buf_ok dst" "4 \<le> room dst" "0 < nFilledLen src"
    and "if boundary (parse_state p) then f = [] else sc_inv (f @ held (parse_state p)) (parse_state p) (data src)"
  shows "\<exists>partial p' src' dst' out. parse_sc_frame p src dst x = Some (1, partial, p', src', dst') \<and>
    buf_ok src' \<and> buf_ok dst' \<and>
    data dst' = data dst @ (if boundary (parse_state p) then [0, 0, 0, 1] else []) @ out \<and>
    start_text p @ data src = out @ held (parse_state p') @ data src' \<and>
    (if partial = 0 then found (f @ out @ held (parse_state p')) (parse_state p')
     else sc_inv (f @ out @ held (parse_state p')) (parse_state p') (data src'))"
  using h264_call [OF assms, of x] by (force simp: scanned_def split: if_splits)

definition sample_src :: "u8 list \<Rightarrow> omx_buffer" where
  "sample_src bs = \<lparr>pBuffer = bs, nAllocLen = length bs, nFilledLen = length bs, nOffset = 0, nFlags = 0,
     nTimeStamp = 5\<rparr>"

definition sample_dst :: "nat \<Rightarrow> omx_buffer" where
  "sample_dst n = \<lparr>pBuffer = replicate n 0xEE, nAllocLen = n, nFilledLen = 0, nOffset = 0, nFlags = 0,
     nTimeStamp = 0\<rparr>"

theorem parse_sc_frame_h264_witness:
  "\<exists>partial p' src' dst'. parse_sc_frame ((frame_parse_init 0)\<lparr>sc_codec := Some CODEC_TYPE_H264\<rparr>)
     (sample_src [9, 0, 0, 1, 0x65]) (sample_dst 16) 7 = Some (1, partial, p', src', dst')"
proof -
  let ?p = "(frame_parse_init 0)\<lparr>sc_codec := Some CODEC_TYPE_H264\<rparr>"
  have b: "buf_ok (sample_src [9, 0, 0, 1, 0x65])" "buf_ok (sample_dst 16)"
    by (simp_all add: buf_ok_def sample_src_def sample_dst_def)
  have r: "4 \<le> room (sample_dst 16)" unfolding room_ok [OF b(2)] by (simp add: sample_dst_def)
  show ?thesis
    using parse_sc_frame_h264 [of ?p "sample_src [9, 0, 0, 1, 0x65]" "sample_dst 16" "[]" 7] b r sc_inv_Nil
    by (auto simp: frame_parse_init_def sample_src_def boundary_def)
qed

text \<open>
  The room check at entry (four bytes) does not cover the entry machine for codecs whose
  start code is \<open>00 00 01 xx\<close>: with exactly the four bytes of room the check asks for, well-formed
  buffers, two held zero bytes and the source \<open>00 00 00 01 FF\<close>, an MPEG-4 call writes past the end
  of the destination.
\<close>
theorem parse_sc_frame_mpeg4_overflow:
  "\<exists>p src dst. sc_codec p = Some CODEC_TYPE_MPEG4 \<and> parse_state p = A2 \<and> buf_ok src \<and> buf_ok dst \<and>
    room dst = 4 \<and> data src = [0, 0, 0, 1, 0xFF] \<and> parse_sc_frame p src dst 1 = None"
proof -
  define p where "p = (frame_parse_init 0)\<lparr>sc_codec := Some CODEC_TYPE_MPEG4, parse_state := A2\<rparr>"
  define src where "src = sample_src [0, 0, 0, 1, 0xFF]"
  define dst where "dst = sample_dst 4"
  have b: "buf_ok src" "buf_ok dst" by (simp_all add: buf_ok_def src_def dst_def sample_src_def sample_dst_def)
  have r: "room dst = 4" unfolding room_ok [OF b(2)] by (simp add: dst_def sample_dst_def)
  have "parse_sc_frame p src dst 1 = None"
    by (simp add: parse_sc_frame_def p_def src_def dst_def sample_src_def sample_dst_def frame_parse_init_def
        flush_start_code_def entry_loop.simps entry_active_def entry_step_def peek_def room_def emit_def
        third_byte_def code_match_def give_up_def fallback2_def fallback3_def consume_def
        parse_additional_start_code_def overwrite_def Let_def biteval)
  then show ?thesis using b r
    by (intro exI [of _ p] exI [of _ src] exI [of _ dst])
      (simp add: p_def src_def data_def sample_src_def)
qed

section \<open>Length prefixed units\<close>

fun be_val :: "nat \<Rightarrow> u8 list \<Rightarrow> nat" where
  "be_val v [] = v"
| "be_val v (b # bs) = be_val (256 * v + unat b) bs"

text \<open>The length bytes read so far, of value \<open>v\<close>.\<close>

definition acc_inv :: "frame_parse \<Rightarrow> nat \<Rightarrow> bool" where
  "acc_inv p v \<longleftrightarrow> nal_length p \<le> 4 \<and> accum_length p < nal_length p \<and> v < 256 ^ accum_length p
     \<and> unat (bytes_tobeparsed p) = v * 256 ^ (nal_length p - accum_length p)"

lemma acc_step:
  assumes "acc_inv p v" "sh = nat ((8 * (int (nal_length p) - int (accum_length p) - 1)) mod 2 ^ 32)"
  shows "256 * v + unat b < 256 ^ (accum_length p + 1)"
    "unat (bytes_tobeparsed p OR shl32 (ucast (b :: u8)) sh) =
      (256 * v + unat b) * 256 ^ (nal_length p - (accum_length p + 1))"
proof -
  define m where "m = nal_length p - (accum_length p + 1)"
  have i: "nal_length p \<le> 4" "accum_length p < nal_length p" "v < 256 ^ accum_length p"
    "unat (bytes_tobeparsed p) = v * 256 ^ (nal_length p - accum_length p)"
    using assms(1) by (auto simp: acc_inv_def)
  have m: "m \<le> 3" "nal_length p - accum_length p = m + 1" using i(1,2) by (auto simp: m_def)
  have sm: "sh = 8 * m" unfolding assms(2) using i(1,2) by (subst mod_pos_pos_trivial) (auto simp: m_def)
  have b: "unat b < 256" using unat_less_8 [of b] by simp
  have p: "(256::nat) ^ k = 2 ^ (8 * k)" for k by (simp add: power_mult)
  have "unat b * 2 ^ (8 * m) < 2 ^ 8 * 2 ^ (8 * m)" using b by simp
  then have lt: "unat b * 2 ^ (8 * m) < 2 ^ (8 * m + 8)" by (simp only: power_add mult.commute)
  also have "\<dots> \<le> 2 ^ 32" using m(1) by (intro power_increasing) auto
  finally have s: "unat (shl32 (ucast b) (8 * m)) = unat b * 2 ^ (8 * m)"
    using m(1) by (simp add: unat_shl32 unat_ucast_8)
  have "unat (bytes_tobeparsed p OR shl32 (ucast b) (8 * m)) = v * 2 ^ (8 * m + 8) + unat b * 2 ^ (8 * m)"
    unfolding unsigned_or_eq i(4) m(2) p s using or_disj_nat [OF lt, of v]
    by (simp only: distrib_left mult_1_right)
  also have "\<dots> = (256 * v + unat b) * 2 ^ (8 * m)" by (simp add: power_add algebra_simps)
  finally show "unat (bytes_tobeparsed p OR shl32 (ucast b) sh) = (256 * v + unat b) * 256 ^ (nal_length p - (accum_length p + 1))"
    unfolding sm m_def [symmetric] p .
  have "256 * v + unat b < 256 * (v + 1)" using b by simp
  also have "\<dots> \<le> 256 * 256 ^ accum_length p" using i(3) by (intro mult_le_mono2) simp
  finally show "256 * v + unat b < 256 ^ (accum_length p + 1)" by simp
qed

lemma acc_loop_length:
  assumes "acc_inv p v" "buf_ok src" "buf_ok dst" "4 \<le> room dst" "data src = ls @ rest"
    and "length ls = nal_length p - accum_length p" "n + length ls \<le> t"
  shows "\<exists>p' src' dst'. acc_loop n t p src dst = Some (p', src', dst') \<and>
    p' = p\<lparr>bytes_tobeparsed := of_nat (be_val v ls), accum_length := 0, state_nal := NAL_PARSING\<rparr> \<and>
    buf_ok src' \<and> buf_ok dst' \<and> data src' = rest \<and> data dst' = data dst @ [0, 0, 0, 1] \<and>
    room dst' = room dst - 4"
  using assms
proof (induction ls arbitrary: p v src n)
  case Nil
  then show ?case by (simp add: acc_inv_def)
next
  case (Cons b bs)
  define sh where "sh = nat ((8 * (int (nal_length p) - int (accum_length p) - 1)) mod 2 ^ 32)"
  note st = acc_step [OF Cons.prems(1) sh_def, of b]
  have pos: "0 < nFilledLen src" using Cons.prems(2,5) length_data [of src] by simp
  have pk: "peek 0 src = Some b" using peek_ok [OF Cons.prems(2) pos] Cons.prems(5) by simp
  have c: "buf_ok (consume 1 src)" "data (consume 1 src) = bs @ rest"
    using consume_ok [OF Cons.prems(2), of 1] pos Cons.prems(5) by auto
  define p1 where "p1 = p\<lparr>bytes_tobeparsed := bytes_tobeparsed p OR shl32 (ucast b) sh,
    accum_length := accum_length p + 1\<rparr>"
  have nt: "n < t" using Cons.prems(7) by simp
  show ?case
  proof (cases "accum_length p + 1 = nal_length p")
    case True
    then have "length bs = 0" using Cons.prems(6) by (simp only: list.size)
    then have bs: "bs = []" by simp
    obtain d' where d: "emit (start_code CODEC_TYPE_H264) dst = Some d'" "buf_ok d'"
      "data d' = data dst @ [0, 0, 0, 1]" "room d' = room dst - 4"
      using emit_ok [OF Cons.prems(3), of "[0, 0, 0, 1]"] Cons.prems(4) by auto
    have "unat (bytes_tobeparsed p1) = 256 * v + unat b" using st(2) True by (simp add: p1_def)
    then have bt: "bytes_tobeparsed p1 = of_nat (256 * v + unat b)" by (metis of_nat_unat ucast_id)
    have "acc_loop n t p src dst =
        Some (p1\<lparr>accum_length := 0, state_nal := NAL_PARSING\<rparr>, consume 1 src, d')"
      using nt pk True d(1) by (subst acc_loop.simps) (simp add: Let_def p1_def sh_def)
    then show ?thesis using c d bt bs by (simp add: p1_def)
  next
    case False
    have i1: "acc_inv p1 (256 * v + unat b)"
      using st Cons.prems(1) False by (simp add: acc_inv_def p1_def)
    have run: "acc_loop n t p src dst = acc_loop (n + 1) t p1 (consume 1 src) dst"
      using nt pk False by (subst acc_loop.simps) (simp add: Let_def p1_def sh_def)
    show ?thesis unfolding run
      using Cons.IH [OF i1 c(1) Cons.prems(3,4) c(2), of "n + 1"] Cons.prems(6,7)
      by (simp add: p1_def)
  qed
qed

lemma copy_nal_unit:
  assumes "buf_ok src" "buf_ok dst" "data src = nal @ rest" "length nal \<le> room dst" "state_nal p = NAL_PARSING"
    and "bytes_tobeparsed p = of_nat (length nal)" "length nal < 2 ^ 32"
  shows "\<exists>src' dst'. copy_nal p src dst = Some (p\<lparr>bytes_tobeparsed := 0\<rparr>, src', dst') \<and>
    buf_ok src' \<and> buf_ok dst' \<and> data src' = rest \<and> data dst' = data dst @ nal"
proof -
  have u: "unat (bytes_tobeparsed p) = length nal" unfolding assms(6) by (rule unat_of_nat32 [OF assms(7)])
  have len: "nFilledLen src = length nal + length rest" using length_data [OF assms(1)] assms(3) by simp
  show ?thesis
  proof (cases "min (nFilledLen src) (room dst) > 0")
    case False
    then have "nal = []" using len assms(4) by auto
    then show ?thesis using False assms u by (auto simp: copy_nal_def Let_def unat_eq_0)
  next
    case True
    have k: "min (min (nFilledLen src) (room dst)) (unat (bytes_tobeparsed p)) = length nal"
      using u len assms(4) by simp
    have s: "slice (length nal) src = Some nal" using slice_ok [OF assms(1), of "length nal"] len assms(3) by simp
    obtain d' where d: "emit nal dst = Some d'" "buf_ok d'" "data d' = data dst @ nal"
      using emit_ok [OF assms(2,4)] by blast
    have c: "buf_ok (consume (length nal) src)" "data (consume (length nal) src) = rest"
      using consume_ok [OF assms(1), of "length nal"] len assms(3) by auto
    show ?thesis using True assms(5,6) k s d c by (simp add: copy_nal_def Let_def)
  qed
qed

text \<open>The parser between two units.\<close>

definition unit_start :: "frame_parse \<Rightarrow> nat \<Rightarrow> bool" where
  "unit_start p k \<longleftrightarrow> nal_length p = k \<and> 0 < k \<and> k \<le> 4 \<and> state_nal p = NAL_LENGTH_ACC
     \<and> accum_length p = 0 \<and> bytes_tobeparsed p = 0"

lemma nallength_unit:
  assumes "unit_start p k" "buf_ok src" "buf_ok dst" "data src = ls @ nal @ rest" "length ls = k"
    and "be_val 0 ls = length nal" "4 + length nal \<le> room dst"
  shows "\<exists>p' src' dst'. parse_h264_nallength p src dst x = Some (1, 0, p', src', dst') \<and> unit_start p' k \<and>
    buf_ok src' \<and> buf_ok dst' \<and> data src' = rest \<and> data dst' = data dst @ [0, 0, 0, 1] @ nal"
proof -
  have len: "nFilledLen src = k + length nal + length rest"
    using length_data [OF assms(2)] assms(4,5) by simp
  have k: "0 < k" "k \<le> 4" using assms(1) by (auto simp: unit_start_def)
  have inv: "acc_inv p 0" using assms(1) by (simp add: acc_inv_def unit_start_def)
  have lt: "length nal < 2 ^ 32"
    using assms(7) room_ok [OF assms(3)] assms(3) by (auto simp: buf_ok_def)
  obtain p1 src1 dst1 where a: "acc_loop 0 (min (nFilledLen src) (room dst)) p src dst = Some (p1, src1, dst1)"
    "p1 = p\<lparr>bytes_tobeparsed := of_nat (length nal), accum_length := 0, state_nal := NAL_PARSING\<rparr>"
    "buf_ok src1" "buf_ok dst1" "data src1 = nal @ rest" "data dst1 = data dst @ [0, 0, 0, 1]"
    "room dst1 = room dst - 4"
    using acc_loop_length [OF inv assms(2,3) _ assms(4), of 0 "min (nFilledLen src) (room dst)"] assms(1,5-7) len k
    by (auto simp: unit_start_def)
  let ?d = "dst1\<lparr>nTimeStamp := nTimeStamp src1, nFlags := nFlags src1\<rparr>"
  have d: "buf_ok ?d" "data ?d = data dst1" "room ?d = room dst1"
    using a(4) by (simp_all add: buf_ok_def data_def room_def)
  obtain src2 dst2 where c: "copy_nal p1 src1 ?d = Some (p1\<lparr>bytes_tobeparsed := 0\<rparr>, src2, dst2)"
    "buf_ok src2" "buf_ok dst2" "data src2 = rest" "data dst2 = data ?d @ nal"
  proof -
    have "length nal \<le> room ?d" using a(7) d(3) assms(7) by simp
    moreover have "state_nal p1 = NAL_PARSING" "bytes_tobeparsed p1 = of_nat (length nal)"
      by (simp_all add: a(2))
    ultimately show thesis using copy_nal_unit [OF a(3) d(1) a(5) _ _ _ lt] that by blast
  qed
  show ?thesis using assms(1,7) len k a(1,2) c d(2) a(6)
    by (simp add: parse_h264_nallength_def Let_def unit_start_def)
qed

text \<open>Calling the parser once per unit, each time with an empty destination \<open>fresh\<close>.\<close>

fun split_units :: "nat \<Rightarrow> omx_buffer \<Rightarrow> frame_parse \<Rightarrow> omx_buffer \<Rightarrow> (u8 list list \<times> u8 list) option" where
  "split_units 0 fresh p src = Some ([], data src)"
| "split_units (Suc n) fresh p src = do {
     (r, partial, p, src, dst) \<leftarrow> parse_h264_nallength p src fresh 1;
     if r = 1 \<and> partial = 0 then do {
       (fs, rest) \<leftarrow> split_units n fresh p src;
       Some (data dst # fs, rest)
     } else None
   }"

definition unit_bytes :: "nat \<Rightarrow> u8 list \<times> u8 list \<Rightarrow> bool" where
  "unit_bytes k x \<longleftrightarrow> length (fst x) = k \<and> be_val 0 (fst x) = length (snd x)"

text \<open>
  C25. NAL length framing: on a source that holds any sequence of units, each a big-endian length
  of 1 to 4 bytes followed by that many bytes, repeated calls of \<open>parse_h264_nallength\<close> return the
  units one by one as complete frames, each with its length replaced by a start code, and consume
  exactly their bytes, provided each fits the destination.
\<close>
theorem parse_h264_nallength_splits:
  assumes "unit_start p k" "buf_ok src" "buf_ok fresh" "data fresh = []"
    and "data src = concat (map (\<lambda>(l, nal). l @ nal) us) @ rest"
    and "\<forall>x \<in> set us. unit_bytes k x \<and> 4 + length (snd x) \<le> room fresh"
  shows "split_units (length us) fresh p src = Some (map (\<lambda>(l, nal). [0, 0, 0, 1] @ nal) us, rest)"
  using assms
proof (induction us arbitrary: p src)
  case (Cons x us)
  obtain l nal where x: "x = (l, nal)" by (cases x)
  have d: "data src = l @ nal @ concat (map (\<lambda>(l, nal). l @ nal) us) @ rest"
    using Cons.prems(5) x by simp
  have u: "length l = k" "be_val 0 l = length nal" "4 + length nal \<le> room fresh"
    using Cons.prems(6) x by (auto simp: unit_bytes_def)
  obtain p' src' dst' where c: "parse_h264_nallength p src fresh 1 = Some (1, 0, p', src', dst')" "unit_start p' k"
    "buf_ok src'" "data src' = concat (map (\<lambda>(l, nal). l @ nal) us) @ rest"
    "data dst' = data fresh @ [0, 0, 0, 1] @ nal"
    using nallength_unit [OF Cons.prems(1-3) d u] by blast
  have "split_units (length us) fresh p' src' = Some (map (\<lambda>(l, nal). [0, 0, 0, 1] @ nal) us, rest)"
    using Cons.IH [OF c(2,3) Cons.prems(3,4) c(4)] Cons.prems(6) by simp
  then show ?case using c Cons.prems(4) x by simp
qed simp

theorem parse_h264_nallength_splits_witness:
  "split_units 2 (sample_dst 16) ((frame_parse_init 0)\<lparr>nal_length := 2\<rparr>) (sample_src [0, 3, 7, 8, 9, 0, 1, 5, 99]) =
   Some ([[0, 0, 0, 1, 7, 8, 9], [0, 0, 0, 1, 5]], [99])"
proof -
  have b: "buf_ok (sample_src [0, 3, 7, 8, 9, 0, 1, 5, 99])" "buf_ok (sample_dst 16)"
    by (simp_all add: buf_ok_def sample_src_def sample_dst_def)
  have r: "room (sample_dst 16) = 16" unfolding room_ok [OF b(2)] by (simp add: sample_dst_def)
  have "unit_start ((frame_parse_init 0)\<lparr>nal_length := 2\<rparr>) 2"
    by (simp add: unit_start_def frame_parse_init_def)
  note u = this
  define us :: "(u8 list \<times> u8 list) list" where "us = [([0, 3], [7, 8, 9]), ([0, 1], [5])]"
  have us: "length us = 2" "map (\<lambda>(l, nal). [0, 0, 0, 1] @ nal) us = [[0, 0, 0, 1, 7, 8, 9], [0, 0, 0, 1, 5]]"
    by (simp_all add: us_def)
  have "\<forall>x \<in> set us. unit_bytes 2 x \<and> 4 + length (snd x) \<le> room (sample_dst 16)"
    unfolding r by (simp add: us_def unit_bytes_def)
  moreover have "data (sample_src [0, 3, 7, 8, 9, 0, 1, 5, 99]) = concat (map (\<lambda>(l, nal). l @ nal) us) @ [99]"
    by (simp add: us_def data_def sample_src_def)
  moreover have "data (sample_dst 16) = []" by (simp add: data_def sample_dst_def)
  ultimately show ?thesis
    using parse_h264_nallength_splits [OF u b, of us "[99]"] unfolding us by blast
qed

end
