(* ===== verification/TsReorder.thy ===== *)
theory TsReorder
  imports OmxBuffer "HOL-Library.Multiset"
begin

text \<open>
  The time stamp reorderer \<open>omx_time_stamp_reorder\<close> of vdec/src/ts_parser.cpp: tables of 64 time
  stamps, one per run of frames between two ends of stream, from which the smallest is taken. The
  circular list of tables is a list that starts at \<open>phead\<close>; \<open>phead->prev\<close> is its last element
  and the null \<open>phead\<close> the empty list. Its abstraction is a queue of multisets.
\<close>

section \<open>State\<close>

record timestamp =
  timestamps :: int
  in_use :: bool

record time_stamp_list =
  input_timestamps :: "timestamp list"
  entries_filled :: u32

record omx_time_stamp_reorder =
  ts_error :: bool
  ts_tables :: "time_stamp_list list"
  reorder_ts :: bool
  print_debug :: bool

definition TIME_SZ :: nat where
  "TIME_SZ = 64"

definition new_ts_reorder :: omx_time_stamp_reorder where
  "new_ts_reorder = \<lparr>ts_error = False, ts_tables = [], reorder_ts = False, print_debug = False\<rparr>"

definition set_timestamp_reorder_mode :: "bool \<Rightarrow> omx_time_stamp_reorder \<Rightarrow> omx_time_stamp_reorder" where
  "set_timestamp_reorder_mode mode s = s\<lparr>reorder_ts := mode\<rparr>"

definition enable_debug_print :: "bool \<Rightarrow> omx_time_stamp_reorder \<Rightarrow> omx_time_stamp_reorder" where
  "enable_debug_print flag s = s\<lparr>print_debug := flag\<rparr>"

section \<open>The list of tables\<close>

definition delete_list :: "omx_time_stamp_reorder \<Rightarrow> omx_time_stamp_reorder" where
  "delete_list s = s\<lparr>ts_tables := []\<rparr>"

definition handle_error :: "omx_time_stamp_reorder \<Rightarrow> omx_time_stamp_reorder" where
  "handle_error s = (if ts_error s then s else delete_list (s\<lparr>ts_error := True\<rparr>))"

definition empty_table :: time_stamp_list where
  "empty_table = \<lparr>input_timestamps = replicate TIME_SZ \<lparr>timestamps = - 1, in_use = False\<rparr>, entries_filled = 0\<rparr>"

text \<open>\<open>new\<close> does not return null.\<close>

definition add_new_list :: "omx_time_stamp_reorder \<Rightarrow> omx_time_stamp_reorder" where
  "add_new_list s = s\<lparr>ts_tables := ts_tables s @ [empty_table]\<rparr>"

definition get_current_list :: "omx_time_stamp_reorder \<Rightarrow> omx_time_stamp_reorder" where
  "get_current_list s = (if ts_tables s = [] then add_new_list s else s)"

text \<open>A list of one table keeps it.\<close>

definition update_head :: "omx_time_stamp_reorder \<Rightarrow> bool \<times> omx_time_stamp_reorder" where
  "update_head s = (if ts_tables s = [] then (False, s)
     else (True, if tl (ts_tables s) \<noteq> [] then s\<lparr>ts_tables := tl (ts_tables s)\<rparr> else s))"

definition set_head :: "time_stamp_list \<Rightarrow> omx_time_stamp_reorder \<Rightarrow> omx_time_stamp_reorder" where
  "set_head t s = s\<lparr>ts_tables := t # tl (ts_tables s)\<rparr>"

definition set_current :: "time_stamp_list \<Rightarrow> omx_time_stamp_reorder \<Rightarrow> omx_time_stamp_reorder" where
  "set_current t s = s\<lparr>ts_tables := butlast (ts_tables s) @ [t]\<rparr>"

definition advance_if_empty :: "bool \<Rightarrow> omx_time_stamp_reorder \<Rightarrow> bool \<times> omx_time_stamp_reorder" where
  "advance_if_empty status s =
     (if entries_filled (hd (ts_tables s)) = 0
      then (case update_head s of (ok, s) \<Rightarrow> if ok then (status, s) else (False, handle_error s))
      else (status, s))"

definition flush_timestamp :: "omx_time_stamp_reorder \<Rightarrow> omx_time_stamp_reorder" where
  "flush_timestamp s = delete_list s"

section \<open>Operations\<close>

fun first_free :: "timestamp list \<Rightarrow> nat option" where
  "first_free [] = None"
| "first_free (e # es) = (if \<not> in_use e then Some 0 else map_option Suc (first_free es))"

text \<open>Flags: 1 is the end of stream, 0x80 codec configuration. \<open>None\<close> is a null header.\<close>

definition insert_timestamp :: "omx_buffer option \<Rightarrow> omx_time_stamp_reorder \<Rightarrow> bool \<times> omx_time_stamp_reorder" where
  "insert_timestamp header s =
     (case header of
        None \<Rightarrow> (False, s)
      | Some h \<Rightarrow>
          if \<not> reorder_ts s \<or> ts_error s then (False, s)
          else let s = get_current_list s; pcurrent = last (ts_tables s)
               in if entries_filled pcurrent > of_nat (TIME_SZ - 1) then (False, handle_error s)
                  else if nFlags h AND 0x80 \<noteq> 0 then (True, s)
                  else if nFlags h AND 1 \<noteq> 0 \<and> nFilledLen h = 0 then (True, add_new_list s)
                  else case first_free (input_timestamps pcurrent) of
                         None \<Rightarrow> (False, handle_error s)
                       | Some i \<Rightarrow>
                           let s = set_current (pcurrent\<lparr>
                                 input_timestamps := (input_timestamps pcurrent)
                                   [i := \<lparr>timestamps = nTimeStamp h, in_use = True\<rparr>],
                                 entries_filled := entries_filled pcurrent + 1\<rparr>) s
                           in (True, if nFlags h AND 1 \<noteq> 0 then add_new_list s else s))"

text \<open>Releasing an entry.\<close>

definition release :: "nat \<Rightarrow> time_stamp_list \<Rightarrow> time_stamp_list" where
  "release i t = t\<lparr>input_timestamps := (input_timestamps t)[i := (input_timestamps t ! i)\<lparr>in_use := False\<rparr>],
     entries_filled := entries_filled t - 1\<rparr>"

fun remove_loop :: "int \<Rightarrow> nat \<Rightarrow> nat list \<Rightarrow> time_stamp_list \<Rightarrow> time_stamp_list" where
  "remove_loop ts n [] t = t"
| "remove_loop ts n (i # is) t =
     (if n = 0 then t
      else let e = input_timestamps t ! i
           in if in_use e \<and> timestamps e = ts then remove_loop ts (n - 1) is (release i t)
              else remove_loop ts n is t)"

definition remove_time_stamp :: "int \<Rightarrow> bool \<Rightarrow> omx_time_stamp_reorder \<Rightarrow> bool \<times> omx_time_stamp_reorder" where
  "remove_time_stamp ts is_interlaced s =
     (if \<not> reorder_ts s \<or> ts_error s then (False, s)
      else case ts_tables s of
             [] \<Rightarrow> (False, s)
           | t # _ \<Rightarrow>
               if entries_filled t = 0 then (False, s)
               else advance_if_empty True
                 (set_head (remove_loop ts (if is_interlaced then 2 else 1) [0..<TIME_SZ] t) s))"

text \<open>The search for the smallest entry and one with the same time stamp.\<close>

definition scan_entry :: "timestamp list \<Rightarrow> nat \<Rightarrow> nat option \<times> nat option \<Rightarrow> nat option \<times> nat option" where
  "scan_entry es i r =
     (if in_use (es ! i) then
        case fst r of
          None \<Rightarrow> (Some i, snd r)
        | Some e \<Rightarrow>
            if timestamps (es ! e) > timestamps (es ! i) then (Some i, None)
            else if timestamps (es ! e) = timestamps (es ! i) then (Some e, Some i)
            else r
      else r)"

definition scan_second :: "timestamp list \<Rightarrow> nat \<Rightarrow> nat option \<Rightarrow> nat option" where
  "scan_second es i d =
     (if in_use (es ! i) then
        case d of
          None \<Rightarrow> Some i
        | Some k \<Rightarrow> if timestamps (es ! k) > timestamps (es ! i) then Some i else d
      else d)"

text \<open>The table after \<open>get_next_timestamp\<close> took its entries, and the time stamp.\<close>

definition take_entries :: "bool \<Rightarrow> time_stamp_list \<Rightarrow> int option \<times> time_stamp_list" where
  "take_entries is_interlaced t =
     (case fold (scan_entry (input_timestamps t)) [0..<TIME_SZ] (None, None) of
        (None, _) \<Rightarrow> (None, t)
      | (Some e, duplicate) \<Rightarrow>
          let ts = timestamps (input_timestamps t ! e); t = release e t
          in if is_interlaced then
               case (case duplicate of Some d \<Rightarrow> Some d
                     | None \<Rightarrow> fold (scan_second (input_timestamps t)) [0..<TIME_SZ] None) of
                 Some d \<Rightarrow> (Some ts, release d t)
               | None \<Rightarrow> (Some ts, t)
             else (Some ts, t))"

text \<open>The header's \<open>nTimeStamp\<close> is only written when an entry was found.\<close>

definition get_next_timestamp ::
  "omx_buffer option \<Rightarrow> bool \<Rightarrow> omx_time_stamp_reorder \<Rightarrow> bool \<times> omx_buffer option \<times> omx_time_stamp_reorder" where
  "get_next_timestamp header is_interlaced s =
     (case header of
        None \<Rightarrow> (False, header, s)
      | Some h \<Rightarrow>
          if \<not> reorder_ts s \<or> ts_error s then (False, header, s)
          else case ts_tables s of
                 [] \<Rightarrow> (False, header, s)
               | t # _ \<Rightarrow>
                   if entries_filled t = 0 then (False, header, s)
                   else case take_entries is_interlaced t of
                          (r, t) \<Rightarrow>
                            (case advance_if_empty (r \<noteq> None) (set_head t s) of
                               (ok, s) \<Rightarrow> (ok, Some (case r of Some ts \<Rightarrow> h\<lparr>nTimeStamp := ts\<rparr> | None \<Rightarrow> h), s)))"

section \<open>A table as a multiset\<close>

definition stamps :: "time_stamp_list \<Rightarrow> int multiset" where
  "stamps t = image_mset timestamps (filter_mset in_use (mset (input_timestamps t)))"

definition table_ok :: "time_stamp_list \<Rightarrow> bool" where
  "table_ok t \<longleftrightarrow> length (input_timestamps t) = TIME_SZ \<and> unat (entries_filled t) = size (stamps t)"

definition segments :: "omx_time_stamp_reorder \<Rightarrow> int multiset list" where
  "segments s = map stamps (ts_tables s)"

lemma in_stamps: "x \<in># stamps t \<longleftrightarrow>
    (\<exists>j < length (input_timestamps t). in_use (input_timestamps t ! j) \<and> timestamps (input_timestamps t ! j) = x)"
  by (auto simp: stamps_def in_set_conv_nth image_iff)

lemma size_stamps_le: "size (stamps t) \<le> length (input_timestamps t)"
proof -
  have "size (filter_mset in_use (mset (input_timestamps t))) \<le> size (mset (input_timestamps t))"
    by (rule size_mset_mono) simp
  then show ?thesis by (simp add: stamps_def)
qed

lemma stamps_update:
  assumes "i < length (input_timestamps t)"
  shows "stamps (t\<lparr>input_timestamps := (input_timestamps t)[i := e], entries_filled := n\<rparr>) =
    (if in_use e then {#timestamps e#} else {#}) +
      (if in_use (input_timestamps t ! i) then stamps t - {#timestamps (input_timestamps t ! i)#} else stamps t)"
proof -
  let ?M = "mset (input_timestamps t)" and ?o = "input_timestamps t ! i"
  have "?o \<in># ?M" using assms by simp
  then obtain N where N: "?M = add_mset ?o N" by (metis insert_DiffM)
  have "mset ((input_timestamps t)[i := e]) = add_mset e N" using assms N by (simp add: mset_update)
  then show ?thesis by (simp add: stamps_def N)
qed

lemma empty_table_ok [simp]: "table_ok empty_table" "stamps empty_table = {#}"
  by (simp_all add: table_ok_def empty_table_def stamps_def)

lemma table_size:
  assumes "table_ok t"
  shows "size (stamps t) \<le> 64" "entries_filled t = 0 \<longleftrightarrow> stamps t = {#}"
    "entries_filled t > of_nat (TIME_SZ - 1) \<longleftrightarrow> size (stamps t) = 64"
proof -
  show le: "size (stamps t) \<le> 64" using size_stamps_le [of t] assms by (simp add: table_ok_def TIME_SZ_def)
  show "entries_filled t = 0 \<longleftrightarrow> stamps t = {#}" using assms by (metis size_eq_0_iff_empty table_ok_def unat_eq_zero)
  show "entries_filled t > of_nat (TIME_SZ - 1) \<longleftrightarrow> size (stamps t) = 64"
    using assms le by (auto simp: table_ok_def TIME_SZ_def word_less_nat_alt)
qed

lemma release_ok:
  assumes "table_ok t" "i < TIME_SZ" "in_use (input_timestamps t ! i)"
  shows "table_ok (release i t)" "stamps (release i t) = stamps t - {#timestamps (input_timestamps t ! i)#}"
proof -
  have i: "i < length (input_timestamps t)" using assms by (simp add: table_ok_def)
  show st: "stamps (release i t) = stamps t - {#timestamps (input_timestamps t ! i)#}"
    using stamps_update [OF i, where e = "(input_timestamps t ! i)\<lparr>in_use := False\<rparr>"] assms(3) by (simp add: release_def)
  have m: "timestamps (input_timestamps t ! i) \<in># stamps t" using i assms(3) by (auto simp: in_stamps)
  then have "0 < size (stamps t)" by (cases "stamps t") auto
  then have "unat (entries_filled t - 1) = size (stamps t) - 1"
    using assms(1) by (subst unat_minus_one) (auto simp: table_ok_def unat_eq_zero)
  then show "table_ok (release i t)" using assms(1) st m
    by (simp add: table_ok_def size_Diff_singleton) (simp add: release_def)
qed

lemma first_free_Some: "first_free es = Some i \<Longrightarrow> i < length es \<and> \<not> in_use (es ! i)"
  by (induction es arbitrary: i) (auto split: if_splits)

lemma first_free_None: "first_free es = None \<Longrightarrow> filter_mset in_use (mset es) = mset es"
  by (induction es) (auto split: if_splits)

lemma fill_ok:
  assumes "table_ok t" "size (stamps t) < 64"
  shows "\<exists>i. first_free (input_timestamps t) = Some i \<and>
    table_ok (t\<lparr>input_timestamps := (input_timestamps t)[i := \<lparr>timestamps = ts, in_use = True\<rparr>],
      entries_filled := entries_filled t + 1\<rparr>) \<and>
    stamps (t\<lparr>input_timestamps := (input_timestamps t)[i := \<lparr>timestamps = ts, in_use = True\<rparr>],
      entries_filled := entries_filled t + 1\<rparr>) = add_mset ts (stamps t)"
proof -
  have "first_free (input_timestamps t) \<noteq> None"
    using first_free_None [of "input_timestamps t"] assms
    by (cases "first_free (input_timestamps t)") (auto simp: stamps_def table_ok_def TIME_SZ_def)
  then obtain i where i: "first_free (input_timestamps t) = Some i" by auto
  note fi = first_free_Some [OF i]
  let ?t = "t\<lparr>input_timestamps := (input_timestamps t)[i := \<lparr>timestamps = ts, in_use = True\<rparr>],
      entries_filled := entries_filled t + 1\<rparr>"
  have st: "stamps ?t = add_mset ts (stamps t)" using stamps_update [of i t] fi by simp
  have "unat (entries_filled t + 1) = size (stamps t) + 1"
    using assms by (simp add: table_ok_def unat_word_ariths)
  then show ?thesis using i st assms(1) by (auto simp: table_ok_def)
qed

section \<open>The search\<close>

definition scan_ok :: "timestamp list \<Rightarrow> nat \<Rightarrow> nat option \<times> nat option \<Rightarrow> bool" where
  "scan_ok es n r \<longleftrightarrow> (case r of
     (None, d) \<Rightarrow> d = None \<and> (\<forall>j < n. \<not> in_use (es ! j))
   | (Some e, d) \<Rightarrow> e < n \<and> in_use (es ! e) \<and> (\<forall>j < n. in_use (es ! j) \<longrightarrow> timestamps (es ! e) \<le> timestamps (es ! j)) \<and>
       (case d of None \<Rightarrow> \<forall>j < n. in_use (es ! j) \<longrightarrow> j \<noteq> e \<longrightarrow> timestamps (es ! e) < timestamps (es ! j)
        | Some k \<Rightarrow> k < n \<and> k \<noteq> e \<and> in_use (es ! k) \<and> timestamps (es ! k) = timestamps (es ! e)))"

lemma scan_entry_ok:
  assumes "scan_ok es n r"
  shows "scan_ok es (Suc n) (scan_entry es n r)"
proof (cases "in_use (es ! n)")
  case False
  then show ?thesis using assms
    by (auto simp: scan_ok_def scan_entry_def less_Suc_eq split: option.splits prod.splits)
next
  case True
  show ?thesis
  proof (cases "fst r")
    case None
    then show ?thesis using assms True
      by (cases r) (auto simp: scan_ok_def scan_entry_def less_Suc_eq)
  next
    case (Some e)
    obtain d where r: "r = (Some e, d)" using Some by (cases r) auto
    consider "timestamps (es ! e) > timestamps (es ! n)" | "timestamps (es ! e) = timestamps (es ! n)"
      | "timestamps (es ! e) < timestamps (es ! n)" by linarith
    then show ?thesis
    proof cases
      case 1
      then show ?thesis using assms True
        by (auto simp: r scan_ok_def scan_entry_def less_Suc_eq dest: order.strict_trans2)
    next
      case 2
      then show ?thesis using assms True
        by (auto simp: r scan_ok_def scan_entry_def less_Suc_eq split: option.splits)
    next
      case 3
      then show ?thesis using assms True
        by (auto simp: r scan_ok_def scan_entry_def less_Suc_eq split: option.splits)
    qed
  qed
qed

lemma scan_fold_ok: "scan_ok es n (fold (scan_entry es) [0..<n] (None, None))"
  by (induction n) (auto simp: scan_ok_def [of _ 0] intro: scan_entry_ok)

definition second_ok :: "timestamp list \<Rightarrow> nat \<Rightarrow> nat option \<Rightarrow> bool" where
  "second_ok es n d \<longleftrightarrow> (case d of None \<Rightarrow> \<forall>j < n. \<not> in_use (es ! j)
     | Some k \<Rightarrow> k < n \<and> in_use (es ! k) \<and> (\<forall>j < n. in_use (es ! j) \<longrightarrow> timestamps (es ! k) \<le> timestamps (es ! j)))"

lemma second_fold_ok: "second_ok es n (fold (scan_second es) [0..<n] None)"
proof (induction n)
  case (Suc n)
  then show ?case
    by (auto simp: second_ok_def scan_second_def less_Suc_eq split: option.splits)
qed (simp add: second_ok_def)

text \<open>What is left of a multiset after taking the smallest element, or the two smallest ones.\<close>

definition take_min :: "bool \<Rightarrow> int multiset \<Rightarrow> int multiset" where
  "take_min il M = (let M1 = M - {#Min_mset M#} in if il \<and> M1 \<noteq> {#} then M1 - {#Min_mset M1#} else M1)"

lemma Min_stamps:
  assumes "i < length (input_timestamps t)" "in_use (input_timestamps t ! i)"
    and "\<forall>j < length (input_timestamps t). in_use (input_timestamps t ! j) \<longrightarrow>
      timestamps (input_timestamps t ! i) \<le> timestamps (input_timestamps t ! j)"
  shows "Min_mset (stamps t) = timestamps (input_timestamps t ! i)"
proof (rule Min_eqI)
  show "timestamps (input_timestamps t ! i) \<in># stamps t" using assms(1,2) by (auto simp: in_stamps)
  show "timestamps (input_timestamps t ! i) \<le> y" if "y \<in># stamps t" for y
    using that assms(3) by (auto simp: in_stamps)
qed simp

lemma take_entries_spec:
  assumes "table_ok t" "stamps t \<noteq> {#}"
  shows "\<exists>t'. take_entries il t = (Some (Min_mset (stamps t)), t') \<and> table_ok t' \<and> stamps t' = take_min il (stamps t)"
proof -
  let ?es = "input_timestamps t"
  have len: "length ?es = TIME_SZ" using assms(1) by (simp add: table_ok_def)
  obtain el d where r: "fold (scan_entry ?es) [0..<TIME_SZ] (None, None) = (el, d)" by force
  have sc: "scan_ok ?es TIME_SZ (el, d)" using scan_fold_ok [of ?es TIME_SZ] r by simp
  have "el \<noteq> None"
  proof
    assume "el = None"
    then have "\<forall>j < TIME_SZ. \<not> in_use (?es ! j)" using sc by (simp add: scan_ok_def)
    moreover obtain x where "x \<in># stamps t" using assms(2) by (metis multiset_nonemptyE)
    ultimately show False using len by (auto simp: in_stamps)
  qed
  then obtain e where el: "el = Some e" by auto
  have e: "e < TIME_SZ" "in_use (?es ! e)"
    "\<forall>j < TIME_SZ. in_use (?es ! j) \<longrightarrow> timestamps (?es ! e) \<le> timestamps (?es ! j)"
    using sc by (auto simp: scan_ok_def el)
  have m: "Min_mset (stamps t) = timestamps (?es ! e)" using Min_stamps [of e t] e len by simp
  define t1 where "t1 = release e t"
  note r1 = release_ok [OF assms(1) e(1,2), folded t1_def m]
  have es1: "input_timestamps t1 = ?es[e := (?es ! e)\<lparr>in_use := False\<rparr>]" by (simp add: t1_def release_def)
  have len1: "length (input_timestamps t1) = TIME_SZ" by (simp add: es1 len)
  define d2 where "d2 = (case d of Some d \<Rightarrow> Some d | None \<Rightarrow> fold (scan_second (input_timestamps t1)) [0..<TIME_SZ] None)"
  have run: "take_entries il t = (Some (Min_mset (stamps t)),
      if il then (case d2 of Some k \<Rightarrow> release k t1 | None \<Rightarrow> t1) else t1)"
    by (simp add: take_entries_def r el Let_def t1_def [symmetric] d2_def [symmetric] m split: option.splits)
  have sec: "second_ok (input_timestamps t1) TIME_SZ d2"
  proof (cases d)
    case None
    then show ?thesis using second_fold_ok [of "input_timestamps t1" TIME_SZ] by (simp add: d2_def)
  next
    case (Some k)
    have k: "k < TIME_SZ" "k \<noteq> e" "in_use (?es ! k)" "timestamps (?es ! k) = timestamps (?es ! e)"
      using sc by (auto simp: scan_ok_def el Some)
    have "timestamps (?es ! e) \<le> timestamps (input_timestamps t1 ! j)"
      if "j < TIME_SZ" "in_use (input_timestamps t1 ! j)" for j
      using that e len by (cases "j = e") (auto simp: es1)
    then show ?thesis using k by (simp add: second_ok_def d2_def Some es1)
  qed
  show ?thesis
  proof (cases "il \<and> d2 \<noteq> None")
    case False
    have "\<not> (il \<and> stamps t1 \<noteq> {#})"
    proof
      assume h: "il \<and> stamps t1 \<noteq> {#}"
      then obtain x where "x \<in># stamps t1" by (metis multiset_nonemptyE)
      then show False using sec False h len1 by (auto simp: in_stamps second_ok_def)
    qed
    then show ?thesis using False run r1 by (auto simp: take_min_def)
  next
    case True
    then obtain k where k: "d2 = Some k" by auto
    have kk: "k < TIME_SZ" "in_use (input_timestamps t1 ! k)"
      "\<forall>j < TIME_SZ. in_use (input_timestamps t1 ! j) \<longrightarrow>
        timestamps (input_timestamps t1 ! k) \<le> timestamps (input_timestamps t1 ! j)"
      using sec by (auto simp: second_ok_def k)
    have m1: "Min_mset (stamps t1) = timestamps (input_timestamps t1 ! k)"
      using Min_stamps [of k t1] kk len1 by simp
    note r2 = release_ok [OF r1(1) kk(1,2), folded m1]
    have "timestamps (input_timestamps t1 ! k) \<in># stamps t1" using kk(1,2) len1 by (auto simp: in_stamps)
    then have "stamps t1 \<noteq> {#}" by auto
    then show ?thesis using True run r1 r2 k by (auto simp: take_min_def)
  qed
qed

section \<open>The abstract reorderer\<close>

text \<open>
  A queue of multisets. Putting a time stamp fails when the last multiset holds 64; an end of stream
  opens a new one. Taking works on the first multiset, which goes when it is empty and not the last.
\<close>

definition opened :: "int multiset list \<Rightarrow> int multiset list" where
  "opened segs = (if segs = [] then [{#}] else segs)"

definition spec_insert :: "bool \<Rightarrow> bool \<Rightarrow> bool \<Rightarrow> int \<Rightarrow> int multiset list \<Rightarrow> int multiset list option" where
  "spec_insert config eos nodata ts segs0 =
     (let segs = opened segs0; put = butlast segs @ [add_mset ts (last segs)]
      in if size (last segs) = 64 then None
         else if config then Some segs
         else if eos \<and> nodata then Some (segs @ [{#}])
         else if eos then Some (put @ [{#}]) else Some put)"

fun drop_empty :: "int multiset list \<Rightarrow> int multiset list" where
  "drop_empty (M # N # r) = (if M = {#} then N # r else M # N # r)"
| "drop_empty r = r"

fun spec_next :: "bool \<Rightarrow> int multiset list \<Rightarrow> (int \<times> int multiset list) option" where
  "spec_next il [] = None"
| "spec_next il (M # r) = (if M = {#} then None else Some (Min_mset M, drop_empty (take_min il M # r)))"

definition ts_ok :: "omx_time_stamp_reorder \<Rightarrow> bool" where
  "ts_ok s \<longleftrightarrow> (\<forall>t \<in> set (ts_tables s). table_ok t) \<and> (ts_error s \<longrightarrow> ts_tables s = [])"

lemma new_ok: "ts_ok new_ts_reorder"
  by (simp add: ts_ok_def new_ts_reorder_def)

lemma handle_error_facts [simp]: "ts_error (handle_error s)" "reorder_ts (handle_error s) = reorder_ts s"
  "ts_ok s \<Longrightarrow> ts_ok (handle_error s) \<and> ts_tables (handle_error s) = []"
  by (auto simp: handle_error_def delete_list_def ts_ok_def)

definition active :: "omx_time_stamp_reorder \<Rightarrow> bool" where
  "active s \<longleftrightarrow> ts_ok s \<and> reorder_ts s \<and> \<not> ts_error s"

lemma add_new_list_facts [simp]:
  "segments (add_new_list s) = segments s @ [{#}]" "active (add_new_list s) \<longleftrightarrow> active s"
  "ts_tables (add_new_list s) \<noteq> []"
  by (auto simp: segments_def add_new_list_def active_def ts_ok_def)

lemma current_facts:
  assumes "active s"
  shows "active (get_current_list s)" "segments (get_current_list s) = opened (segments s)"
    "ts_tables (get_current_list s) \<noteq> []" "stamps (last (ts_tables (get_current_list s))) = last (opened (segments s))"
    "table_ok (last (ts_tables (get_current_list s)))"
proof -
  show 1: "active (get_current_list s)" and 2: "segments (get_current_list s) = opened (segments s)"
    and 3: "ts_tables (get_current_list s) \<noteq> []"
    using assms by (auto simp: get_current_list_def opened_def) (simp add: segments_def)+
  show "stamps (last (ts_tables (get_current_list s))) = last (opened (segments s))"
  proof -
    have "last (segments (get_current_list s)) = stamps (last (ts_tables (get_current_list s)))"
      using 3 by (simp add: segments_def last_map)
    then show ?thesis using 2 by simp
  qed
  show "table_ok (last (ts_tables (get_current_list s)))" using 1 3 by (simp add: active_def ts_ok_def)
qed

lemma set_current_facts:
  assumes "active s" "table_ok t" "ts_tables s \<noteq> []"
  shows "active (set_current t s)" "segments (set_current t s) = butlast (segments s) @ [stamps t]"
  using assms by (auto simp: active_def ts_ok_def set_current_def segments_def map_butlast dest: in_set_butlastD)

lemma insert_refines:
  assumes "active s"
  shows "case spec_insert (nFlags h AND 0x80 \<noteq> 0) (nFlags h AND 1 \<noteq> 0) (nFilledLen h = 0) (nTimeStamp h) (segments s) of
      None \<Rightarrow> \<exists>t. insert_timestamp (Some h) s = (False, t) \<and> ts_error t \<and> ts_ok t
    | Some segs \<Rightarrow> \<exists>t. insert_timestamp (Some h) s = (True, t) \<and> active t \<and> segments t = segs"
proof -
  define s1 where "s1 = get_current_list s"
  define c where "c = last (ts_tables s1)"
  note cf = current_facts [OF assms, folded s1_def, folded c_def]
  have run: "insert_timestamp (Some h) s =
      (if entries_filled c > of_nat (TIME_SZ - 1) then (False, handle_error s1)
       else if nFlags h AND 0x80 \<noteq> 0 then (True, s1)
       else if nFlags h AND 1 \<noteq> 0 \<and> nFilledLen h = 0 then (True, add_new_list s1)
       else case first_free (input_timestamps c) of
              None \<Rightarrow> (False, handle_error s1)
            | Some i \<Rightarrow>
                let s2 = set_current (c\<lparr>input_timestamps := (input_timestamps c)
                        [i := \<lparr>timestamps = nTimeStamp h, in_use = True\<rparr>], entries_filled := entries_filled c + 1\<rparr>) s1
                in (True, if nFlags h AND 1 \<noteq> 0 then add_new_list s2 else s2))"
    using assms by (simp add: insert_timestamp_def active_def s1_def c_def Let_def split: option.split)
  note full = table_size(3) [OF cf(5)]
  show ?thesis
  proof (cases "size (last (opened (segments s))) = 64")
    case True
    then have "insert_timestamp (Some h) s = (False, handle_error s1)" using full run cf(4) by simp
    then show ?thesis using True cf(1) by (simp add: spec_insert_def Let_def active_def)
  next
    case False
    then have "size (stamps c) < 64" using table_size(1) [OF cf(5)] cf(4) by simp
    from fill_ok [OF cf(5) this, of "nTimeStamp h"] obtain i where i: "first_free (input_timestamps c) = Some i"
      "table_ok (c\<lparr>input_timestamps := (input_timestamps c)[i := \<lparr>timestamps = nTimeStamp h, in_use = True\<rparr>],
        entries_filled := entries_filled c + 1\<rparr>)"
      "stamps (c\<lparr>input_timestamps := (input_timestamps c)[i := \<lparr>timestamps = nTimeStamp h, in_use = True\<rparr>],
        entries_filled := entries_filled c + 1\<rparr>) = add_mset (nTimeStamp h) (stamps c)"
      by blast
    note sf = set_current_facts [OF cf(1) i(2) cf(3), unfolded i(3)]
    show ?thesis using False run full cf i(1) sf by (auto simp: spec_insert_def Let_def)
  qed
qed

lemma advance_facts:
  assumes "active s" "ts_tables s \<noteq> []"
  shows "\<exists>t. advance_if_empty b s = (b, t) \<and> active t \<and> segments t = drop_empty (segments s)"
proof -
  obtain u r where u: "ts_tables s = u # r" using assms(2) by (cases "ts_tables s") auto
  have ok: "table_ok u" using assms(1) u by (simp add: active_def ts_ok_def)
  have seg: "segments s = stamps u # map stamps r" by (simp add: segments_def u)
  have e: "entries_filled (hd (ts_tables s)) = 0 \<longleftrightarrow> stamps u = {#}" using table_size(2) [OF ok] u by simp
  show ?thesis using assms(1) e seg u
    by (cases r) (auto simp: advance_if_empty_def update_head_def active_def ts_ok_def segments_def)
qed

lemma next_refines:
  assumes "active s"
  shows "case spec_next il (segments s) of
      None \<Rightarrow> get_next_timestamp (Some h) il s = (False, Some h, s)
    | Some (ts, segs) \<Rightarrow> \<exists>t. get_next_timestamp (Some h) il s = (True, Some (h\<lparr>nTimeStamp := ts\<rparr>), t) \<and>
        active t \<and> segments t = segs"
proof (cases "ts_tables s")
  case Nil
  then show ?thesis using assms by (simp add: segments_def get_next_timestamp_def active_def)
next
  case (Cons u r)
  have ok: "table_ok u" using assms Cons by (simp add: active_def ts_ok_def)
  have seg: "segments s = stamps u # map stamps r" by (simp add: segments_def Cons)
  show ?thesis
  proof (cases "stamps u = {#}")
    case True
    then show ?thesis using assms Cons seg table_size(2) [OF ok]
      by (simp add: get_next_timestamp_def active_def)
  next
    case False
    obtain v where v: "take_entries il u = (Some (Min_mset (stamps u)), v)" "table_ok v" "stamps v = take_min il (stamps u)"
      using take_entries_spec [OF ok False] by blast
    have a: "active (set_head v s)" "ts_tables (set_head v s) \<noteq> []" "segments (set_head v s) = stamps v # map stamps r"
      using assms v(2) Cons by (auto simp: active_def ts_ok_def set_head_def segments_def)
    obtain t where t: "advance_if_empty True (set_head v s) = (True, t)" "active t"
      "segments t = drop_empty (stamps v # map stamps r)"
      using advance_facts [OF a(1,2), of True] a(3) by auto
    have "get_next_timestamp (Some h) il s = (True, Some (h\<lparr>nTimeStamp := Min_mset (stamps u)\<rparr>), t)"
      using assms Cons False table_size(2) [OF ok] v(1) t(1) by (simp add: get_next_timestamp_def active_def)
    then show ?thesis using False seg t v(3) by simp
  qed
qed

lemma remove_loop_ok:
  assumes "table_ok t" "k \<le> TIME_SZ" "\<forall>j < k. \<not> (in_use (input_timestamps t ! j) \<and> timestamps (input_timestamps t ! j) = ts)"
  shows "table_ok (remove_loop ts n [k..<TIME_SZ] t) \<and>
    stamps (remove_loop ts n [k..<TIME_SZ] t) = stamps t - replicate_mset n ts"
  using assms
proof (induction "TIME_SZ - k" arbitrary: k n t)
  case 0
  have "ts \<notin># stamps t" using 0 by (auto simp: in_stamps table_ok_def)
  then have "stamps t - replicate_mset n ts = stamps t"
    by (intro multiset_eqI) (auto simp: not_in_iff)
  then show ?case using 0 by simp
next
  case (Suc m)
  then have k: "k < TIME_SZ" "[k..<TIME_SZ] = k # [Suc k..<TIME_SZ]" by (simp_all add: upt_rec)
  show ?case
  proof (cases "n = 0")
    case True
    then show ?thesis using Suc.prems(1) k(2) by simp
  next
    case n: False
    show ?thesis
    proof (cases "in_use (input_timestamps t ! k) \<and> timestamps (input_timestamps t ! k) = ts")
      case True
      note r = release_ok [OF Suc.prems(1) k(1) conjunct1 [OF True]]
      have "\<forall>j < Suc k. \<not> (in_use (input_timestamps (release k t) ! j) \<and> timestamps (input_timestamps (release k t) ! j) = ts)"
        using Suc.prems(1,3) k(1) by (auto simp: release_def less_Suc_eq table_ok_def)
      then have "table_ok (remove_loop ts (n - 1) [Suc k..<TIME_SZ] (release k t)) \<and>
          stamps (remove_loop ts (n - 1) [Suc k..<TIME_SZ] (release k t)) = stamps (release k t) - replicate_mset (n - 1) ts"
        using Suc.hyps k(1) r(1) by (intro Suc.hyps(1)) auto
      moreover have "replicate_mset n ts = add_mset ts (replicate_mset (n - 1) ts)" using n by (cases n) auto
      ultimately show ?thesis using True n k(2) r(2) by simp
    next
      case False
      then have "\<forall>j < Suc k. \<not> (in_use (input_timestamps t ! j) \<and> timestamps (input_timestamps t ! j) = ts)"
        using Suc.prems(3) by (auto simp: less_Suc_eq)
      then have "table_ok (remove_loop ts n [Suc k..<TIME_SZ] t) \<and>
          stamps (remove_loop ts n [Suc k..<TIME_SZ] t) = stamps t - replicate_mset n ts"
        using Suc k(1) by (intro Suc.hyps(1)) auto
      then show ?thesis using False n k(2) by (auto simp: Let_def)
    qed
  qed
qed

fun spec_remove :: "bool \<Rightarrow> int \<Rightarrow> int multiset list \<Rightarrow> int multiset list option" where
  "spec_remove il ts [] = None"
| "spec_remove il ts (M # r) = (if M = {#} then None
     else Some (drop_empty ((M - replicate_mset (if il then 2 else 1) ts) # r)))"

lemma remove_refines:
  assumes "active s"
  shows "case spec_remove il ts (segments s) of
      None \<Rightarrow> remove_time_stamp ts il s = (False, s)
    | Some segs \<Rightarrow> \<exists>t. remove_time_stamp ts il s = (True, t) \<and> active t \<and> segments t = segs"
proof (cases "ts_tables s")
  case Nil
  then show ?thesis using assms by (simp add: segments_def remove_time_stamp_def active_def)
next
  case (Cons u r)
  have ok: "table_ok u" using assms Cons by (simp add: active_def ts_ok_def)
  have seg: "segments s = stamps u # map stamps r" by (simp add: segments_def Cons)
  define n :: nat where "n = (if il then 2 else 1)"
  define v where "v = remove_loop ts n [0..<TIME_SZ] u"
  have v: "table_ok v" "stamps v = stamps u - replicate_mset n ts"
    using remove_loop_ok [OF ok, of 0] by (simp_all add: v_def)
  have a: "active (set_head v s)" "ts_tables (set_head v s) \<noteq> []" "segments (set_head v s) = stamps v # map stamps r"
    using assms v(1) Cons by (auto simp: active_def ts_ok_def set_head_def segments_def)
  obtain t where t: "advance_if_empty True (set_head v s) = (True, t)" "active t"
    "segments t = drop_empty (stamps v # map stamps r)"
    using advance_facts [OF a(1,2), of True] a(3) by auto
  show ?thesis
  proof (cases "stamps u = {#}")
    case True
    then show ?thesis using assms Cons seg table_size(2) [OF ok] by (simp add: remove_time_stamp_def active_def)
  next
    case False
    have "remove_time_stamp ts il s = advance_if_empty True (set_head v s)"
      using assms Cons False table_size(2) [OF ok] by (simp add: remove_time_stamp_def active_def v_def n_def)
    then show ?thesis using False seg t v(2) by (simp add: n_def)
  qed
qed

section \<open>Reachable states\<close>

inductive ts_reachable :: "omx_time_stamp_reorder \<Rightarrow> bool" where
  start: "ts_reachable new_ts_reorder"
| mode: "ts_reachable s \<Longrightarrow> ts_reachable (set_timestamp_reorder_mode b s)"
| debug: "ts_reachable s \<Longrightarrow> ts_reachable (enable_debug_print b s)"
| put: "ts_reachable s \<Longrightarrow> ts_reachable (snd (insert_timestamp h s))"
| take: "ts_reachable s \<Longrightarrow> ts_reachable (snd (snd (get_next_timestamp h il s)))"
| remove: "ts_reachable s \<Longrightarrow> ts_reachable (snd (remove_time_stamp ts il s))"
| flush: "ts_reachable s \<Longrightarrow> ts_reachable (flush_timestamp s)"

lemma inactive_ops:
  assumes "\<not> reorder_ts s \<or> ts_error s"
  shows "insert_timestamp h s = (False, s)" "get_next_timestamp h il s = (False, h, s)"
    "remove_time_stamp ts il s = (False, s)"
  using assms by (auto simp: insert_timestamp_def get_next_timestamp_def remove_time_stamp_def split: option.splits)

lemma ops_ok:
  assumes "ts_ok s"
  shows "ts_ok (snd (insert_timestamp h s))" "ts_ok (snd (snd (get_next_timestamp h il s)))"
    "ts_ok (snd (remove_time_stamp ts il s))"
proof -
  have null: "insert_timestamp None s = (False, s)" "get_next_timestamp None il s = (False, None, s)"
    by (simp_all add: insert_timestamp_def get_next_timestamp_def)
  show "ts_ok (snd (insert_timestamp h s))"
  proof (cases "active s \<and> h \<noteq> None")
    case True
    then show ?thesis using insert_refines [of s "the h"] by (auto simp: active_def split: option.splits)
  next
    case False
    then show ?thesis using assms null inactive_ops(1) [of s h] by (cases h) (auto simp: active_def)
  qed
  show "ts_ok (snd (snd (get_next_timestamp h il s)))"
  proof (cases "active s \<and> h \<noteq> None")
    case True
    then show ?thesis using next_refines [of s, where il = il and h = "the h"] by (auto simp: active_def split: option.splits prod.splits)
  next
    case False
    then show ?thesis using assms null inactive_ops(2) [of s h il] by (cases h) (auto simp: active_def)
  qed
  show "ts_ok (snd (remove_time_stamp ts il s))"
  proof (cases "active s")
    case True
    then show ?thesis using remove_refines [of s, where il = il and ts = ts] by (auto simp: active_def split: option.splits)
  next
    case False
    then show ?thesis using assms inactive_ops(3) [of s ts il] by (auto simp: active_def)
  qed
qed

lemma reachable_ok: "ts_reachable s \<Longrightarrow> ts_ok s"
  by (induction rule: ts_reachable.induct)
    (auto simp: new_ok ops_ok, auto simp: ts_ok_def set_timestamp_reorder_mode_def enable_debug_print_def
      flush_timestamp_def delete_list_def)

text \<open>
  In every reachable state each table has 64 entries and its counter is the number of entries
  in use, so the counter never wraps; after an error no table is left.
\<close>
theorem ts_counts:
  assumes "ts_reachable s"
  shows "(\<forall>t \<in> set (ts_tables s). length (input_timestamps t) = TIME_SZ \<and>
      unat (entries_filled t) = length (filter in_use (input_timestamps t))) \<and> (ts_error s \<longrightarrow> ts_tables s = [])"
proof -
  have "size (stamps t) = length (filter in_use (input_timestamps t))" for t
    by (simp add: stamps_def flip: mset_filter)
  then show ?thesis using reachable_ok [OF assms] by (simp add: ts_ok_def table_ok_def)
qed

definition frame_at :: "int \<Rightarrow> omx_buffer" where
  "frame_at ts = \<lparr>pBuffer = [], nAllocLen = 0, nFilledLen = 9, nOffset = 0, nFlags = 0, nTimeStamp = ts\<rparr>"

definition started :: omx_time_stamp_reorder where
  "started = set_timestamp_reorder_mode True new_ts_reorder"

lemma started_facts: "active started" "segments started = []" "ts_reachable started"
  using ts_reachable.mode [OF ts_reachable.start, of True]
  by (simp_all add: started_def set_timestamp_reorder_mode_def new_ts_reorder_def active_def ts_ok_def segments_def)

theorem ts_counts_witness:
  "length (ts_tables (snd (insert_timestamp (Some (frame_at 7)) started))) = 1 \<and>
   unat (entries_filled (hd (ts_tables (snd (insert_timestamp (Some (frame_at 7)) started))))) = 1"
proof -
  let ?s = "snd (insert_timestamp (Some (frame_at 7)) started)"
  have r: "ts_reachable ?s" by (rule ts_reachable.put [OF started_facts(3)])
  have t: "ts_tables ?s = [\<lparr>input_timestamps = \<lparr>timestamps = 7, in_use = True\<rparr> #
      replicate 63 \<lparr>timestamps = - 1, in_use = False\<rparr>, entries_filled = 1\<rparr>]"
    by (simp add: insert_timestamp_def started_def set_timestamp_reorder_mode_def new_ts_reorder_def frame_at_def
        get_current_list_def add_new_list_def empty_table_def TIME_SZ_def set_current_def biteval Let_def)
  show ?thesis using ts_counts [OF r] by (simp add: t)
qed

section \<open>Refinement of the queue of multisets\<close>

text \<open>
  C21. \<open>insert_timestamp\<close> implements the abstract insertion: it fails, for good, exactly when the
  current multiset holds 64 time stamps; otherwise it adds the time stamp, or opens a new multiset at
  an end of stream, or both.
\<close>
theorem insert_timestamp_refines:
  assumes "active s"
  shows "case spec_insert (nFlags h AND 0x80 \<noteq> 0) (nFlags h AND 1 \<noteq> 0) (nFilledLen h = 0) (nTimeStamp h) (segments s) of
      None \<Rightarrow> \<exists>t. insert_timestamp (Some h) s = (False, t) \<and> ts_error t
    | Some segs \<Rightarrow> \<exists>t. insert_timestamp (Some h) s = (True, t) \<and> active t \<and> segments t = segs"
  using insert_refines [OF assms, of h] by (auto split: option.splits)

theorem insert_timestamp_refines_witness:
  "\<exists>t. insert_timestamp (Some (frame_at 7)) started = (True, t) \<and> segments t = [{#7#}]"
  using insert_timestamp_refines [OF started_facts(1), of "frame_at 7"]
  by (auto simp: started_facts frame_at_def spec_insert_def opened_def Let_def)

lemma three_inserted: "\<exists>s. active s \<and> segments s = [{#4, 4, 9#}]"
proof -
  have e: "spec_insert (nFlags (frame_at ts) AND 0x80 \<noteq> 0) (nFlags (frame_at ts) AND 1 \<noteq> 0)
      (nFilledLen (frame_at ts) = 0) (nTimeStamp (frame_at ts)) segs = spec_insert False False False ts segs" for ts segs
    by (simp add: frame_at_def)
  obtain s1 where 1: "active s1" "segments s1 = [{#9#}]"
    using insert_refines [OF started_facts(1), of "frame_at 9", unfolded e started_facts(2)]
    by (auto simp: spec_insert_def opened_def Let_def)
  obtain s2 where 2: "active s2" "segments s2 = [{#4, 9#}]"
    using insert_refines [OF 1(1), of "frame_at 4", unfolded e 1(2)] by (auto simp: spec_insert_def opened_def Let_def)
  obtain s3 where 3: "active s3" "segments s3 = [{#4, 4, 9#}]"
    using insert_refines [OF 2(1), of "frame_at 4", unfolded e 2(2)] by (auto simp: spec_insert_def opened_def Let_def)
  then show ?thesis by blast
qed

text \<open>
  C20. \<open>get_next_timestamp\<close> implements the abstract removal: it returns the smallest time stamp of the
  first multiset and, for interlaced frames, also drops the next smallest one; it fails, changing
  nothing, exactly when the first multiset is empty.
\<close>
theorem get_next_timestamp_refines:
  assumes "active s"
  shows "case spec_next il (segments s) of
      None \<Rightarrow> get_next_timestamp (Some h) il s = (False, Some h, s)
    | Some (ts, segs) \<Rightarrow> \<exists>t. get_next_timestamp (Some h) il s = (True, Some (h\<lparr>nTimeStamp := ts\<rparr>), t) \<and>
        active t \<and> segments t = segs"
  by (rule next_refines [OF assms])

theorem get_next_timestamp_refines_witness:
  "\<exists>s. segments s = [{#4, 4, 9#}] \<and>
    (\<exists>t. get_next_timestamp (Some (frame_at 0)) True s = (True, Some (frame_at 4), t) \<and> segments t = [{#9#}])"
proof -
  obtain s where s: "active s" "segments s = [{#4, 4, 9#}]" using three_inserted by blast
  show ?thesis
    using get_next_timestamp_refines [OF s(1), where il = True and h = "frame_at 0", unfolded s(2)] s
    by (intro exI [of _ s]) (auto simp: take_min_def Let_def frame_at_def)
qed

text \<open>
  C22. \<open>remove_time_stamp\<close> removes up to one copy (two for interlaced frames) of the given time
  stamp from the first multiset, and succeeds whenever that multiset is not empty, found or not.
\<close>
theorem remove_time_stamp_refines:
  assumes "active s"
  shows "case spec_remove il ts (segments s) of
      None \<Rightarrow> remove_time_stamp ts il s = (False, s)
    | Some segs \<Rightarrow> \<exists>t. remove_time_stamp ts il s = (True, t) \<and> active t \<and> segments t = segs"
  by (rule remove_refines [OF assms])

theorem remove_time_stamp_refines_witness:
  "remove_time_stamp 4 False started = (False, started) \<and>
   (\<exists>s. segments s = [{#4, 4, 9#}] \<and> (\<exists>t. remove_time_stamp 4 True s = (True, t) \<and> segments t = [{#9#}]))"
proof -
  obtain s where s: "active s" "segments s = [{#4, 4, 9#}]" using three_inserted by blast
  have "\<exists>t. remove_time_stamp 4 True s = (True, t) \<and> segments t = [{#9#}]"
    using remove_time_stamp_refines [OF s(1), where il = True and ts = 4, unfolded s(2)] by (auto simp: numeral_2_eq_2)
  then show ?thesis
    using remove_time_stamp_refines [OF started_facts(1), where il = False and ts = 4] s(2) by (auto simp: started_facts)
qed

section \<open>What the decoder relies on\<close>

definition insert_all :: "omx_buffer list \<Rightarrow> omx_time_stamp_reorder \<Rightarrow> omx_time_stamp_reorder" where
  "insert_all hs s = fold (\<lambda>h s. snd (insert_timestamp (Some h) s)) hs s"

text \<open>Up to \<open>n\<close> time stamps taken one after the other.\<close>

fun drain :: "nat \<Rightarrow> omx_buffer \<Rightarrow> omx_time_stamp_reorder \<Rightarrow> int list" where
  "drain 0 h s = []"
| "drain (Suc n) h s =
     (case get_next_timestamp (Some h) False s of
        (True, Some h, s) \<Rightarrow> nTimeStamp h # drain n h s
      | _ \<Rightarrow> [])"

definition plain :: "omx_buffer \<Rightarrow> bool" where
  "plain h \<longleftrightarrow> nFlags h AND 0x80 = 0 \<and> nFlags h AND 1 = 0"

lemma insert_all_segment:
  assumes "active s" "segments s = [M]" "\<forall>h \<in> set hs. plain h" "size M + length hs \<le> 64"
  shows "active (insert_all hs s) \<and> segments (insert_all hs s) = [M + mset (map nTimeStamp hs)]"
  using assms
proof (induction hs arbitrary: s M)
  case Nil
  then show ?case by (simp add: insert_all_def)
next
  case (Cons h hs)
  have p: "nFlags h AND 0x80 = 0" "nFlags h AND 1 = 0" using Cons.prems(3) by (auto simp: plain_def)
  obtain t where t: "insert_timestamp (Some h) s = (True, t)" "active t" "segments t = [add_mset (nTimeStamp h) M]"
    using insert_refines [OF Cons.prems(1), of h, unfolded Cons.prems(2)] p Cons.prems(4)
    by (auto simp: spec_insert_def opened_def Let_def)
  have "insert_all (h # hs) s = insert_all hs t" by (simp add: insert_all_def t(1))
  then show ?case using Cons.IH [OF t(2,3)] Cons.prems(3,4) by simp
qed

lemma drain_sorted:
  assumes "active s" "segments s = [M]"
  shows "mset (drain (size M) h s) = M \<and> sorted (drain (size M) h s)"
  using assms
proof (induction "size M" arbitrary: s M h)
  case 0
  then show ?case by simp
next
  case (Suc n)
  have M: "M \<noteq> {#}" using Suc.hyps(2) by auto
  define x where "x = Min_mset M"
  have x: "x \<in># M" "\<And>y. y \<in># M \<Longrightarrow> x \<le> y" using M by (simp_all add: x_def)
  obtain t where t: "get_next_timestamp (Some h) False s = (True, Some (h\<lparr>nTimeStamp := x\<rparr>), t)" "active t"
    "segments t = [M - {#x#}]"
    using next_refines [OF Suc.prems(1), where il = False and h = h, unfolded Suc.prems(2)] M
    by (auto simp: take_min_def x_def)
  have n: "n = size (M - {#x#})" using Suc.hyps(2) x(1) by (simp add: size_Diff_singleton)
  have IH: "mset (drain n (h\<lparr>nTimeStamp := x\<rparr>) t) = M - {#x#}" "sorted (drain n (h\<lparr>nTimeStamp := x\<rparr>) t)"
    using Suc.hyps(1) [OF n t(2,3)] n by simp_all
  have d: "drain (size M) h s = x # drain n (h\<lparr>nTimeStamp := x\<rparr>) t"
    by (simp add: Suc.hyps(2) [symmetric] t(1))
  have "\<forall>y \<in> set (drain n (h\<lparr>nTimeStamp := x\<rparr>) t). x \<le> y"
    using x(2) IH(1) by (metis in_diffD set_mset_mset)
  then show ?case using d IH x(1) by simp
qed

text \<open>
  C35. Up to 64 time stamps put in any order come out in ascending order.
\<close>
theorem reorder_sorts:
  assumes "active s" "segments s = []" "\<forall>h \<in> set hs. plain h" "length hs \<le> 64"
  shows "drain (length hs) h (insert_all hs s) = sort (map nTimeStamp hs)"
proof (cases hs)
  case Nil
  then show ?thesis by simp
next
  case (Cons h1 hs')
  have p: "nFlags h1 AND 0x80 = 0" "nFlags h1 AND 1 = 0" using assms(3) Cons by (auto simp: plain_def)
  obtain t where t: "insert_timestamp (Some h1) s = (True, t)" "active t" "segments t = [{#nTimeStamp h1#}]"
    using insert_refines [OF assms(1), of h1, unfolded assms(2)] p
    by (auto simp: spec_insert_def opened_def Let_def)
  have "active (insert_all hs' t)" "segments (insert_all hs' t) = [mset (map nTimeStamp hs)]"
    using insert_all_segment [OF t(2,3), of hs'] assms(3,4) Cons by simp_all
  moreover have "insert_all hs s = insert_all hs' t" by (simp add: insert_all_def Cons t(1))
  ultimately have "mset (drain (length hs) h (insert_all hs s)) = mset (map nTimeStamp hs)"
    "sorted (drain (length hs) h (insert_all hs s))"
    using drain_sorted [of "insert_all hs s" "mset (map nTimeStamp hs)" h] by simp_all
  then show ?thesis by (metis properties_for_sort)
qed

theorem reorder_sorts_witness:
  "drain 3 (frame_at 0) (insert_all [frame_at 66, frame_at 0, frame_at 33] started) = [0, 33, 66]"
proof -
  let ?hs = "[frame_at 66, frame_at 0, frame_at 33]"
  have l: "length ?hs = 3" by simp
  have p: "\<forall>h \<in> set ?hs. plain h" by (simp add: plain_def frame_at_def)
  have "sort (map nTimeStamp ?hs) = [0, 33, 66]" by (simp add: frame_at_def)
  then show ?thesis using reorder_sorts [OF started_facts(1,2) p, of "frame_at 0"] unfolding l by simp
qed

section \<open>Getting stuck\<close>

datatype ts_op = Insert omx_buffer | Next omx_buffer bool | Remove int bool | Flush

fun ts_exec :: "ts_op \<Rightarrow> omx_time_stamp_reorder \<Rightarrow> omx_time_stamp_reorder" where
  "ts_exec (Insert h) s = snd (insert_timestamp (Some h) s)"
| "ts_exec (Next h il) s = snd (snd (get_next_timestamp (Some h) il s))"
| "ts_exec (Remove ts il) s = snd (remove_time_stamp ts il s)"
| "ts_exec Flush s = flush_timestamp s"

text \<open>No time stamp will be returned before a flush.\<close>

definition blocked :: "omx_time_stamp_reorder \<Rightarrow> bool" where
  "blocked s \<longleftrightarrow> ts_error s \<or> active s \<and> (\<exists>N r. segments s = {#} # N # r)"

lemma blocked_exec:
  assumes "blocked s" "op \<noteq> Flush"
  shows "blocked (ts_exec op s)"
proof (cases "ts_error s")
  case True
  then show ?thesis using assms(2) inactive_ops by (cases op) (auto simp: blocked_def)
next
  case False
  then obtain N r where s: "active s" "segments s = {#} # N # r" using assms(1) by (auto simp: blocked_def)
  show ?thesis
  proof (cases op)
    case (Insert h)
    have "\<exists>N r. butlast (N # r') @ ys = N # r" if "ys \<noteq> []" for N :: "int multiset" and r' ys :: "int multiset list"
      using that by (cases "butlast (N # r') @ ys") auto
    then have "\<exists>N r. segs = {#} # N # r"
      if "spec_insert c e n ts ({#} # N # r) = Some segs" for c e n ts segs
      using that by (auto simp: spec_insert_def opened_def Let_def split: if_splits)
    then show ?thesis using insert_refines [OF s(1), of h, unfolded s(2)] Insert
      by (auto simp: blocked_def split: option.splits)
  next
    case (Next h il)
    then show ?thesis using next_refines [OF s(1), where il = il and h = h, unfolded s(2)] assms(1) by simp
  next
    case (Remove ts il)
    then show ?thesis using remove_refines [OF s(1), where il = il and ts = ts, unfolded s(2)] assms(1) by simp
  qed (use assms(2) in simp)
qed

definition eos_header :: omx_buffer where
  "eos_header = \<lparr>pBuffer = [], nAllocLen = 0, nFilledLen = 0, nOffset = 0, nFlags = 1, nTimeStamp = 0\<rparr>"

text \<open>
  An empty end-of-stream buffer that comes while the current table is empty blocks the reorderer:
  it opens a second table behind the empty first one, which is never left, so until a flush no
  time stamp is returned any more, whatever is inserted.
\<close>
theorem empty_eos_blocks:
  assumes "Flush \<notin> set ops"
  shows "fst (get_next_timestamp (Some h) il (fold ts_exec (Insert eos_header # ops) started)) = False"
proof -
  have "blocked (ts_exec (Insert eos_header) started)"
    using insert_refines [OF started_facts(1), of eos_header]
    by (auto simp: started_facts eos_header_def spec_insert_def opened_def Let_def blocked_def)
  moreover have "blocked (fold ts_exec ops s)" if "blocked s" for s
    using that assms
  proof (induction ops arbitrary: s)
    case (Cons op ops)
    have "op \<noteq> Flush" "Flush \<notin> set ops" using Cons.prems(2) by auto
    then show ?case using Cons.IH [OF blocked_exec [OF Cons.prems(1)]] by simp
  qed simp
  ultimately have b: "blocked (fold ts_exec (Insert eos_header # ops) started)" by simp
  define t where "t = fold ts_exec (Insert eos_header # ops) started"
  show ?thesis
  proof (cases "ts_error t")
    case True
    then show ?thesis using inactive_ops(2) [of t "Some h" il] by (simp add: t_def)
  next
    case False
    then obtain N r where "active t" "segments t = {#} # N # r" using b by (auto simp: blocked_def t_def)
    then show ?thesis using next_refines [of t, where il = il and h = h] by (simp add: t_def)
  qed
qed

theorem empty_eos_blocks_witness:
  "fst (get_next_timestamp (Some (frame_at 0)) False
     (fold ts_exec [Insert eos_header, Insert (frame_at 33), Insert (frame_at 66)] started)) = False"
  using empty_eos_blocks [of "[Insert (frame_at 33), Insert (frame_at 66)]" "frame_at 0" False] by simp

text \<open>
  A 65th time stamp in one run of frames ends reordering for good: the error is never reset, and
  no later operation, a flush included, makes an insertion succeed.
\<close>
theorem overflow_is_permanent:
  assumes "active s" "segments s = segs @ [M]" "size M = 64"
  shows "fst (insert_timestamp (Some h) s) = False \<and>
    fst (insert_timestamp (Some g) (fold ts_exec ops (snd (insert_timestamp (Some h) s)))) = False"
proof -
  have "opened (segments s) = segs @ [M]" using assms(2) by (simp add: opened_def)
  then obtain t where t: "insert_timestamp (Some h) s = (False, t)" "ts_error t"
    using insert_refines [OF assms(1), of h] assms(3) by (auto simp: spec_insert_def Let_def)
  have "ts_error (fold ts_exec ops v)" if "ts_error v" for v
    using that
  proof (induction ops arbitrary: v)
    case (Cons op ops)
    have "ts_error (ts_exec op v)"
      using Cons.prems inactive_ops [of v] by (cases op) (simp_all add: flush_timestamp_def delete_list_def)
    then show ?case using Cons.IH by simp
  qed simp
  then have "ts_error (fold ts_exec ops t)" using t(2) by blast
  then show ?thesis using t(1) inactive_ops(1) by simp
qed

theorem overflow_is_permanent_witness:
  "fst (insert_timestamp (Some (frame_at 5)) (fold ts_exec [Flush]
     (snd (insert_timestamp (Some (frame_at 64)) (insert_all (map frame_at [0..63]) started))))) = False"
proof -
  have u: "map frame_at [0..63] = frame_at 0 # map frame_at [1..63]" by (simp add: upto_rec1)
  obtain t where t: "insert_timestamp (Some (frame_at 0)) started = (True, t)" "active t" "segments t = [{#0#}]"
    using insert_refines [OF started_facts(1), of "frame_at 0"]
    by (auto simp: started_facts frame_at_def spec_insert_def opened_def Let_def)
  have "\<forall>h \<in> set (map frame_at [1..63]). plain h" by (auto simp: plain_def frame_at_def)
  then have "active (insert_all (map frame_at [1..63]) t)"
    "segments (insert_all (map frame_at [1..63]) t) = [{#0#} + mset (map nTimeStamp (map frame_at [1..63]))]"
    using insert_all_segment [OF t(2,3), of "map frame_at [1..63]"] by simp_all
  moreover have "insert_all (map frame_at [0..63]) started = insert_all (map frame_at [1..63]) t"
    unfolding u by (simp add: insert_all_def t(1))
  ultimately show ?thesis
    using overflow_is_permanent [of "insert_all (map frame_at [0..63]) started" "[]"
        "{#0#} + mset (map nTimeStamp (map frame_at [1..63]))" "frame_at 64" "frame_at 5" "[Flush]"] by simp
qed

end
