(* ===== verification/Mp4Utils.thy ===== *)
theory Mp4Utils
  imports BitSource "HOL-Library.Monad_Syntax"
begin

text \<open>
  The MPEG-4 header parser \<open>MP4_Utils\<close> of vdec/src/mp4_utils.cpp: the search for start codes, the
  fixed window bit reader, the video object layer header up to the time resolution, and the test
  for a VOP that is not coded. \<open>None\<close> is a read outside the memory.
\<close>

section \<open>The bit reader\<close>

text \<open>\<open>bytePtr\<close> is an index into the memory \<open>mp4_mem\<close>.\<close>

record posInfoType =
  mp4_mem :: "u8 list"
  bytePtr :: nat
  bitPos :: nat

definition MASK :: "nat \<Rightarrow> u32" where
  "MASK x = shr32 0xFFFFFFFF (32 - x)"

text \<open>The position advances byte by byte while \<open>bitPos\<close> is 8 or more.\<close>

fun normalize :: "nat \<Rightarrow> nat \<Rightarrow> nat \<times> nat" where
  "normalize bp p = (if bp \<ge> 8 then normalize (bp - 8) (Suc p) else (bp, p))"

declare normalize.simps [simp del]

definition read_bit_field :: "nat \<Rightarrow> posInfoType \<Rightarrow> (u32 \<times> posInfoType) option" where
  "read_bit_field sz s = do {
     b0 \<leftarrow> mem_at (mp4_mem s) (bytePtr s);
     b1 \<leftarrow> mem_at (mp4_mem s) (bytePtr s + 1);
     b2 \<leftarrow> mem_at (mp4_mem s) (bytePtr s + 2);
     b3 \<leftarrow> mem_at (mp4_mem s) (bytePtr s + 3);
     let bitBuf = shl32 (ucast b0) 24 OR shl32 (ucast b1) 16 OR shl32 (ucast b2) 8 OR ucast b3;
     let value = shr32 bitBuf (32 - bitPos s - sz) AND MASK sz;
     let (bp, p) = normalize (bitPos s + sz) (bytePtr s);
     Some (value, s\<lparr>bitPos := bp, bytePtr := p\<rparr>)
   }"

text \<open>The inner option is the null result.\<close>

function find_code_loop :: "u8 list \<Rightarrow> nat \<Rightarrow> nat \<Rightarrow> u32 \<Rightarrow> u32 \<Rightarrow> u32 \<Rightarrow> nat option option" where
  "find_code_loop mem p n codeMask referenceCode code =
     (if n = 0 then Some None
      else Option.bind (mem_at mem p) (\<lambda>b.
        let code = shl32 code 8 OR ucast b
        in if code AND codeMask = referenceCode then Some (Some (p + 1))
           else find_code_loop mem (p + 1) (n - 1) codeMask referenceCode code))"
  by pat_completeness auto
termination
  by (relation "measure (\<lambda>(_, _, n, _). n)") auto

declare find_code_loop.simps [simp del]

definition find_code :: "u8 list \<Rightarrow> nat \<Rightarrow> nat \<Rightarrow> u32 \<Rightarrow> u32 \<Rightarrow> nat option option" where
  "find_code mem p n codeMask referenceCode = find_code_loop mem p n codeMask referenceCode 0xFFFFFFFF"

section \<open>The header parser\<close>

record mp4_utils =
  vop_time_resolution :: u32
  vop_time_found :: bool
  m_SrcWidth :: "16 word"
  m_SrcHeight :: "16 word"

definition new_mp4_utils :: mp4_utils where
  "new_mp4_utils = \<lparr>vop_time_resolution = 0, vop_time_found = False, m_SrcWidth = 0, m_SrcHeight = 0\<rparr>"

definition VOP_START_CODE :: u32 where "VOP_START_CODE = 0x1B6"
definition GOV_START_CODE :: u32 where "GOV_START_CODE = 0x1B3"
definition VISUAL_OBJECT_SEQUENCE_START_CODE :: u32 where "VISUAL_OBJECT_SEQUENCE_START_CODE = 0x1B0"
definition VISUAL_OBJECT_START_CODE :: u32 where "VISUAL_OBJECT_START_CODE = 0x1B5"
definition VIDEO_OBJECT_START_CODE_MASK :: u32 where "VIDEO_OBJECT_START_CODE_MASK = 0xFFFFFFE0"
definition VIDEO_OBJECT_START_CODE :: u32 where "VIDEO_OBJECT_START_CODE = 0x100"
definition VIDEO_OBJECT_LAYER_START_CODE_MASK :: u32 where "VIDEO_OBJECT_LAYER_START_CODE_MASK = 0xFFFFFFF0"
definition VIDEO_OBJECT_LAYER_START_CODE :: u32 where "VIDEO_OBJECT_LAYER_START_CODE = 0x120"

text \<open>
  The stages of \<open>parseHeader\<close>. A stage returns the position to go on from; \<open>Some None\<close> is the
  early return of false.
\<close>

definition visual_sequence :: "u8 list \<Rightarrow> nat \<Rightarrow> posInfoType option" where
  "visual_sequence mem numBytes = do {
     r \<leftarrow> find_code mem 0 numBytes (MASK 32) VISUAL_OBJECT_SEQUENCE_START_CODE;
     case r of
       None \<Rightarrow> Some \<lparr>mp4_mem = mem, bytePtr = 0, bitPos = 0\<rparr>
     | Some p \<Rightarrow> map_option snd (read_bit_field 8 \<lparr>mp4_mem = mem, bytePtr = p, bitPos = 0\<rparr>)
   }"

definition visual_object :: "nat \<Rightarrow> posInfoType \<Rightarrow> posInfoType option option" where
  "visual_object numBytes s = do {
     r \<leftarrow> find_code (mp4_mem s) (bytePtr s) numBytes (MASK 32) VISUAL_OBJECT_START_CODE;
     case r of
       None \<Rightarrow> Some (Some (s\<lparr>bytePtr := 0, bitPos := 0\<rparr>))
     | Some p \<Rightarrow> do {
         (is_id, s) \<leftarrow> read_bit_field 1 (s\<lparr>bytePtr := p\<rparr>);
         s \<leftarrow> (if is_id \<noteq> 0 then do { (_, s) \<leftarrow> read_bit_field 4 s; (_, s) \<leftarrow> read_bit_field 3 s; Some s } else Some s);
         (visual_object_type, s) \<leftarrow> read_bit_field 4 s;
         if visual_object_type \<noteq> 1 then Some None
         else do {
           r \<leftarrow> find_code (mp4_mem s) (bytePtr s) numBytes VIDEO_OBJECT_START_CODE_MASK VIDEO_OBJECT_START_CODE;
           Some (map_option (\<lambda>p. s\<lparr>bytePtr := p\<rparr>) r)
         }
       }
   }"

definition layer_start :: "nat \<Rightarrow> posInfoType \<Rightarrow> posInfoType option" where
  "layer_start numBytes s = do {
     r \<leftarrow> find_code (mp4_mem s) (bytePtr s) numBytes VIDEO_OBJECT_LAYER_START_CODE_MASK VIDEO_OBJECT_LAYER_START_CODE;
     Some (case r of None \<Rightarrow> s\<lparr>bytePtr := 0, bitPos := 0\<rparr> | Some p \<Rightarrow> s\<lparr>bytePtr := p, bitPos := 0\<rparr>)
   }"

text \<open>Field widths that are each followed by a marker bit, which must be 1.\<close>

fun marked_fields :: "nat list \<Rightarrow> posInfoType \<Rightarrow> posInfoType option option" where
  "marked_fields [] s = Some (Some s)"
| "marked_fields (n # ns) s = do {
     (_, s) \<leftarrow> read_bit_field n s;
     (marker_bit, s) \<leftarrow> read_bit_field 1 s;
     if marker_bit \<noteq> 1 then Some None else marked_fields ns s
   }"

text \<open>
  The bit rate halves and the first buffer size half carry marker bits, the second buffer size
  half does not, the two occupancy halves do again.
\<close>

definition vbv_parameters :: "posInfoType \<Rightarrow> posInfoType option option" where
  "vbv_parameters s = do {
     r \<leftarrow> marked_fields [15, 15, 15] s;
     case r of
       None \<Rightarrow> Some None
     | Some s \<Rightarrow> do { (_, s) \<leftarrow> read_bit_field 3 s; marked_fields [11, 15] s }
   }"

definition vol_control_parameters :: "posInfoType \<Rightarrow> posInfoType option option" where
  "vol_control_parameters s = do {
     (chroma_format, s) \<leftarrow> read_bit_field 2 s;
     if chroma_format \<noteq> 1 then Some None
     else do {
       (low_delay, s) \<leftarrow> read_bit_field 1 s;
       (vbv, s) \<leftarrow> read_bit_field 1 s;
       if vbv \<noteq> 0 then vbv_parameters s else Some (Some s)
     }
   }"

definition layer_identifier :: "posInfoType \<Rightarrow> posInfoType option" where
  "layer_identifier s = do {
     (is_id, s) \<leftarrow> read_bit_field 1 s;
     if is_id \<noteq> 0 then do { (_, s) \<leftarrow> read_bit_field 4 s; (_, s) \<leftarrow> read_bit_field 3 s; Some s } else Some s
   }"

definition layer_aspect_ratio :: "posInfoType \<Rightarrow> posInfoType option" where
  "layer_aspect_ratio s = do {
     (aspect_ratio_info, s) \<leftarrow> read_bit_field 4 s;
     if aspect_ratio_info = 0xF then do { (_, s) \<leftarrow> read_bit_field 8 s; (_, s) \<leftarrow> read_bit_field 8 s; Some s }
     else Some s
   }"

definition layer_control :: "posInfoType \<Rightarrow> posInfoType option option" where
  "layer_control s = do {
     (present, s) \<leftarrow> read_bit_field 1 s;
     if present \<noteq> 0 then vol_control_parameters s else Some (Some s)
   }"

definition layer_resolution :: "posInfoType \<Rightarrow> u32 option option" where
  "layer_resolution s = do {
     (video_object_layer_shape, s) \<leftarrow> read_bit_field 2 s;
     if video_object_layer_shape \<noteq> 0 then Some None
     else do {
       (marker_bit, s) \<leftarrow> read_bit_field 1 s;
       if marker_bit \<noteq> 1 then Some None
       else do { (res, s) \<leftarrow> read_bit_field 16 s; Some (Some res) }
     }
   }"

text \<open>The video object layer header; the result is the time increment resolution.\<close>

definition layer_header :: "posInfoType \<Rightarrow> u32 option option" where
  "layer_header s = do {
     (_, s) \<leftarrow> read_bit_field 1 s;
     (indication, s) \<leftarrow> read_bit_field 8 s;
     if indication \<notin> {0, 1, 2, 3, 4, 0x11} then Some None
     else do {
       s \<leftarrow> layer_identifier s;
       s \<leftarrow> layer_aspect_ratio s;
       r \<leftarrow> layer_control s;
       case r of None \<Rightarrow> Some None | Some s \<Rightarrow> layer_resolution s
     }
   }"

text \<open>\<open>data\<close> is the memory from \<open>psBits->data\<close> on; \<open>numBytes\<close> of it belong to the header.\<close>

definition parse_header :: "u8 list \<Rightarrow> nat \<Rightarrow> mp4_utils \<Rightarrow> (bool \<times> mp4_utils) option" where
  "parse_header data numBytes m = do {
     vop \<leftarrow> find_code data 0 4 (MASK 32) VOP_START_CODE;
     if vop \<noteq> None then Some (False, m)
     else do {
       gov \<leftarrow> find_code data 0 4 (MASK 32) GOV_START_CODE;
       if gov \<noteq> None then Some (False, m)
       else do {
         s \<leftarrow> visual_sequence data numBytes;
         r \<leftarrow> visual_object numBytes s;
         case r of
           None \<Rightarrow> Some (False, m)
         | Some s \<Rightarrow> do {
             s \<leftarrow> layer_start numBytes s;
             r \<leftarrow> layer_header s;
             Some (case r of
                 None \<Rightarrow> (False, m)
               | Some res \<Rightarrow> (True, m\<lparr>vop_time_resolution := res, vop_time_found := True\<rparr>))
           }
       }
     }
   }"

section \<open>VOPs that are not coded\<close>

fun count_bits :: "nat \<Rightarrow> nat" where
  "count_bits temp = (if temp = 0 then 0 else Suc (count_bits (temp div 2)))"

declare count_bits.simps [simp del]

text \<open>The loop over \<open>modulo_time_base\<close>; the inner \<open>None\<close> is the return of false at the end of the data.\<close>

function modulo_loop :: "u8 list \<Rightarrow> nat \<Rightarrow> nat \<Rightarrow> nat \<Rightarrow> (nat \<times> nat) option option" where
  "modulo_loop pbuffer len index bits_parsed =
     Option.bind (mem_at pbuffer index) (\<lambda>b.
       let modulo_bit = b AND push_bit (7 - bits_parsed) 1; bits_parsed = bits_parsed + 1;
           index = index + bits_parsed div 8; bits_parsed = bits_parsed mod 8
       in if index \<ge> len then Some None
          else if modulo_bit \<noteq> 0 then modulo_loop pbuffer len index bits_parsed
          else Some (Some (index, bits_parsed)))"
  by pat_completeness auto
termination
proof (relation "measure (\<lambda>(_, len, index, bp). 8 * len - (8 * index + bp))")
  fix pbuffer :: "u8 list" and len index bp :: nat and b :: u8 and x xa xb xc
  assume "xa = bp + 1" "xb = index + xa div 8" "xc = xa mod 8" "\<not> len \<le> xb"
  moreover have "8 * (xa div 8) + xa mod 8 = xa" by simp
  ultimately have "8 * xb + xc = 8 * index + bp + 1" "xc < 8" "xb + 1 \<le> len" by simp_all
  then show "((pbuffer, len, xb, xc), pbuffer, len, index, bp) \<in>
      measure (\<lambda>(_, len, index, bp). 8 * len - (8 * index + bp))" by simp
qed simp

declare modulo_loop.simps [simp del]

definition is_notcodec_vop :: "u8 list \<Rightarrow> nat \<Rightarrow> mp4_utils \<Rightarrow> bool option" where
  "is_notcodec_vop pbuffer len m =
     (if \<not> vop_time_found m \<or> len < 5 then Some False
      else do {
        code \<leftarrow> (if 4 \<le> length pbuffer then Some (take 4 pbuffer = [0, 0, 1, 0xB6]) else None);
        if code then do {
          let vop_bits = count_bits (unat (vop_time_resolution m - 1));
          r \<leftarrow> modulo_loop pbuffer len 4 2;
          case r of
            None \<Rightarrow> Some False
          | Some (index, bits_parsed) \<Rightarrow>
              let bits_parsed = bits_parsed + 1 + vop_bits + 1; index = index + bits_parsed div 8
              in if index \<ge> len then Some False
                 else map_option (\<lambda>b. b AND push_bit (7 - bits_parsed mod 8) 1 = 0) (mem_at pbuffer index)
        } else Some False
      })"

section \<open>Aspect ratio\<close>

text \<open>The frame info's ratio is left alone for any other code.\<close>

definition mp4_fill_aspect_ratio_info :: "u32 \<times> u32 \<times> u32 \<Rightarrow> u32 \<times> u32 \<Rightarrow> u32 \<times> u32" where
  "mp4_fill_aspect_ratio_info ai old = (case ai of (aspect_ratio, par_width, par_height) \<Rightarrow>
     if aspect_ratio = 1 then (1, 1)
     else if aspect_ratio = 2 then (12, 11)
     else if aspect_ratio = 3 then (10, 11)
     else if aspect_ratio = 4 then (16, 11)
     else if aspect_ratio = 5 then (40, 33)
     else if aspect_ratio = 15 then (par_width, par_height)
     else old)"

section \<open>The reader meets the bit reader contract up to 25 bits\<close>

definition be32 :: "u8 \<Rightarrow> u8 \<Rightarrow> u8 \<Rightarrow> u8 \<Rightarrow> u32" where
  "be32 b0 b1 b2 b3 = shl32 (ucast b0) 24 OR shl32 (ucast b1) 16 OR shl32 (ucast b2) 8 OR ucast b3"

lemma unat_be32: "unat (be32 b0 b1 b2 b3) = bits_val (bytes_bits [b0, b1, b2, b3])"
proof -
  have l: "unat (ucast b :: u32) < 2 ^ 8" for b :: u8 using unat_less_8 [of b] by (simp add: unat_ucast_8)
  have s1: "unat (shl32 (ucast b0) 8 OR ucast b1) = unat b0 * 2 ^ 8 + unat b1"
    using unat_shl_or [of "ucast b0" 8 8 "ucast b1"] l by (simp add: unat_ucast_8)
  have l1: "unat b0 * 2 ^ 8 + unat b1 < 2 ^ 16" using unat_less_8 [of b0] unat_less_8 [of b1] by simp
  have s2: "unat (shl32 (shl32 (ucast b0) 8 OR ucast b1) 8 OR ucast b2) = (unat b0 * 2 ^ 8 + unat b1) * 2 ^ 8 + unat b2"
    using unat_shl_or [of "shl32 (ucast b0) 8 OR ucast b1" 16 8 "ucast b2"] l l1 by (simp add: unat_ucast_8 s1)
  have l2: "(unat b0 * 2 ^ 8 + unat b1) * 2 ^ 8 + unat b2 < 2 ^ 24" using l1 unat_less_8 [of b2] by simp
  have s3: "unat (shl32 (shl32 (shl32 (ucast b0) 8 OR ucast b1) 8 OR ucast b2) 8 OR ucast b3) =
      ((unat b0 * 2 ^ 8 + unat b1) * 2 ^ 8 + unat b2) * 2 ^ 8 + unat b3"
    using unat_shl_or [of "shl32 (shl32 (ucast b0) 8 OR ucast b1) 8 OR ucast b2" 24 8 "ucast b3"] l l2
    by (simp add: unat_ucast_8 s2)
  have "be32 b0 b1 b2 b3 = shl32 (shl32 (shl32 (ucast b0) 8 OR ucast b1) 8 OR ucast b2) 8 OR ucast b3"
    by (rule bit_word_eqI) (auto simp: be32_def shl32_def bit_simps)
  moreover have "bits_val (bytes_bits [b0, b1, b2, b3]) = ((unat b0 * 2 ^ 8 + unat b1) * 2 ^ 8 + unat b2) * 2 ^ 8 + unat b3"
    by (simp add: bits_val_append bits_val_byte)
  ultimately show ?thesis using s3 by simp
qed

text \<open>A position keeps four bytes of memory ahead; the bits before them are the reader's stream.\<close>

definition mp4_bits :: "posInfoType \<Rightarrow> bool list" where
  "mp4_bits s = drop (bitPos s) (bytes_bits (take (length (mp4_mem s) - 4 - bytePtr s) (drop (bytePtr s) (mp4_mem s))))"

definition mp4_ok :: "posInfoType \<Rightarrow> bool" where
  "mp4_ok s \<longleftrightarrow> bytePtr s + 4 \<le> length (mp4_mem s) \<and> bitPos s < 8 \<and>
     (bytePtr s + 4 = length (mp4_mem s) \<longrightarrow> bitPos s = 0)"

lemma normalize_div: "normalize bp p = (bp mod 8, p + bp div 8)"
proof (induction bp p rule: normalize.induct)
  case (1 bp p)
  show ?case
  proof (cases "bp \<ge> 8")
    case True
    then have "bp mod 8 = (bp - 8) mod 8" "bp div 8 = Suc ((bp - 8) div 8)" by (simp_all add: le_mod_geq le_div_geq)
    then show ?thesis using 1 True by (subst normalize.simps) simp
  qed (subst normalize.simps, simp)
qed

lemma MASK_eq: "n \<le> 32 \<Longrightarrow> MASK n = shl32 1 n - 1"
proof -
  assume n: "n \<le> 32"
  have m: "(0xFFFFFFFF :: u32) = - 1" by simp
  have "MASK n = mask n"
    unfolding MASK_def m by (rule bit_word_eqI) (use n in \<open>auto simp: shr32_def bit_simps\<close>)
  then show ?thesis using n by (simp add: shl32_def mask_eq_exp_minus_1 push_bit_eq_mult)
qed

lemma bits_window:
  assumes "k + n \<le> 32"
  shows "unat (shr32 (be32 b0 b1 b2 b3) (32 - k - n) AND MASK n) = bits_val (take n (drop k (bytes_bits [b0, b1, b2, b3])))"
proof -
  let ?B = "bytes_bits [b0, b1, b2, b3]"
  have B: "bits_of 32 (bits_val ?B) = ?B" using bits_of_bits_val [of ?B 0] by simp
  have "MASK n = shl32 1 n - 1" using assms by (intro MASK_eq) simp
  then have "unat (shr32 (be32 b0 b1 b2 b3) (32 - k - n) AND MASK n) = bits_val ?B div 2 ^ (32 - k - n) mod 2 ^ n"
    using assms by (simp add: mask_mod unat_shr32 unat_be32)
  also have "\<dots> = bits_val (take n (drop k (bits_of 32 (bits_val ?B))))"
    using assms by (simp add: drop_bits_of take_bits_of bits_val_bits_of)
  finally show ?thesis unfolding B .
qed

lemma take_bytes_bits: "take (8 * m) (bytes_bits bs) = bytes_bits (take m bs)"
proof (induction bs arbitrary: m)
  case (Cons b bs)
  then show ?case by (cases m) simp_all
qed simp

lemma drop_bytes_bits: "drop (8 * m) (bytes_bits bs) = bytes_bits (drop m bs)"
proof (induction bs arbitrary: m)
  case (Cons b bs)
  then show ?case by (cases m) simp_all
qed simp

lemma take_take_drop: "n + k \<le> m \<Longrightarrow> take n (drop k (take m xs)) = take n (drop k xs)"
  by (simp add: take_drop min_def)

lemma mp4_bits_take:
  assumes "bitPos s + n \<le> 32" "n \<le> length (mp4_bits s)" "drop (bytePtr s) (mp4_mem s) = b0 # b1 # b2 # b3 # rest"
  shows "take n (mp4_bits s) = take n (drop (bitPos s) (bytes_bits [b0, b1, b2, b3]))"
proof -
  let ?k = "bitPos s" and ?m = "length (mp4_mem s) - 4 - bytePtr s" and ?D = "drop (bytePtr s) (mp4_mem s)"
  have "n + ?k \<le> 8 * ?m \<or> n = 0" using assms(2) by (simp add: mp4_bits_def) linarith
  then have "take n (mp4_bits s) = take n (drop ?k (bytes_bits ?D))"
    by (auto simp: mp4_bits_def take_take_drop simp flip: take_bytes_bits)
  also have "bytes_bits ?D = bytes_bits [b0, b1, b2, b3] @ bytes_bits rest" using assms(3) by simp
  finally show ?thesis using assms(1) by (simp del: bytes_bits_simps(2))
qed

lemma four_bytes: "4 \<le> length xs \<Longrightarrow> \<exists>a b c d rest. xs = a # b # c # d # rest"
  by (auto simp: numeral_eq_Suc Suc_le_length_iff)

lemma read_bit_field_spec:
  assumes "mp4_ok s" "n \<le> 25" "n \<le> length (mp4_bits s)"
  shows "\<exists>s'. read_bit_field n s = Some (of_nat (bits_val (take n (mp4_bits s))), s') \<and>
    mp4_bits s' = drop n (mp4_bits s) \<and> mp4_ok s' \<and> mp4_mem s' = mp4_mem s"
proof -
  let ?k = "bitPos s" and ?p = "bytePtr s" and ?M = "mp4_mem s" and ?m = "length (mp4_mem s) - 4 - bytePtr s"
  have k: "?k < 8" "?p + 4 \<le> length ?M" and z: "?m = 0 \<Longrightarrow> ?k = 0" using assms(1) by (auto simp: mp4_ok_def)
  obtain b0 b1 b2 b3 rest where D: "drop ?p ?M = b0 # b1 # b2 # b3 # rest"
  proof -
    have "4 \<le> length (drop ?p ?M)" using k(2) by simp
    then show thesis using four_bytes that by blast
  qed
  have nth: "?M ! ?p = b0" "?M ! (?p + 1) = b1" "?M ! (?p + 2) = b2" "?M ! (?p + 3) = b3"
    using k(2) arg_cong [OF D, of "\<lambda>l. l ! 0"] arg_cong [OF D, of "\<lambda>l. l ! 1"] arg_cong [OF D, of "\<lambda>l. l ! 2"]
      arg_cong [OF D, of "\<lambda>l. l ! 3"] by (simp_all add: numeral_eq_Suc)
  let ?s = "s\<lparr>bitPos := (?k + n) mod 8, bytePtr := ?p + (?k + n) div 8\<rparr>"
  have "unat (shr32 (be32 b0 b1 b2 b3) (32 - ?k - n) AND MASK n) = bits_val (take n (mp4_bits s))"
    using bits_window [of ?k n b0 b1 b2 b3] mp4_bits_take [OF _ assms(3) D] k assms(2) by simp
  from arg_cong [OF this, of "of_nat :: nat \<Rightarrow> u32"]
  have v: "shr32 (be32 b0 b1 b2 b3) (32 - ?k - n) AND MASK n = of_nat (bits_val (take n (mp4_bits s)))" by simp
  have r: "read_bit_field n s = Some (of_nat (bits_val (take n (mp4_bits s))), ?s)"
    using k(2) v by (simp add: read_bit_field_def mem_at_def nth [simplified] normalize_div be32_def Let_def)
  have room: "?k + n \<le> 8 * ?m" using assms(3) z k(1) by (cases "?m = 0") (simp_all add: mp4_bits_def)
  have q: "8 * ((?k + n) div 8) + (?k + n) mod 8 = ?k + n" by simp
  then have d: "(?k + n) div 8 \<le> ?m" using room by linarith
  have "(?k + n) div 8 = ?m \<Longrightarrow> (?k + n) mod 8 = 0" using q room by linarith
  then have ok: "mp4_ok ?s" using d k by (auto simp: mp4_ok_def)
  have "mp4_bits ?s = drop n (mp4_bits s)"
  proof -
    let ?T = "bytes_bits (take ?m (drop ?p ?M))"
    have "drop n (mp4_bits s) = drop ((?k + n) mod 8) (drop (8 * ((?k + n) div 8)) ?T)"
      using q by (simp add: mp4_bits_def add.commute)
    also have "\<dots> = mp4_bits ?s" using d by (simp add: drop_bytes_bits mp4_bits_def drop_take ac_simps)
    finally show ?thesis by simp
  qed
  then show ?thesis using r ok by auto
qed

interpretation mp4: bit_reader read_bit_field mp4_bits mp4_ok 25
proof
  show "1 \<le> (25 :: nat)" by simp
  fix s :: posInfoType and n
  assume "mp4_ok s" "n \<le> 25" "n \<le> length (mp4_bits s)"
  then obtain s' where s': "read_bit_field n s = Some (of_nat (bits_val (take n (mp4_bits s))), s')"
    "mp4_bits s' = drop n (mp4_bits s)" "mp4_ok s'" using read_bit_field_spec by blast
  show "\<exists>s'. read_bit_field n s = Some (of_nat (bits_val (take n (mp4_bits s))), s') \<and>
      mp4_bits s' = drop n (mp4_bits s) \<and> mp4_ok s'" by (rule exI [of _ s']) (simp add: s')
qed

end
