(* ===== verification/Mp4Header.thy ===== *)
theory Mp4Header
  imports Mp4Utils
begin

text \<open>
  The MPEG-4 header parser against the syntax: the search for start codes returns the first one,
  the layer header parser inverts the layer syntax, and the restarted search reads beyond the
  header.
\<close>

section \<open>Reading syntax elements\<close>

definition mat :: "posInfoType \<Rightarrow> bool list \<Rightarrow> bool" where
  "mat s bs \<longleftrightarrow> mp4_ok s \<and> mp4_bits s = bs"

lemma mat_skip:
  assumes "mat s (xs @ ys)" "length xs = n" "n \<le> 25" "\<And>v t. mat t ys \<Longrightarrow> yields P (f v t)"
  shows "yields P (Option.bind (read_bit_field n s) (\<lambda>(v, t). f v t))"
  using mp4.rd_append [of s xs ys] assms by (auto simp: mat_def)

lemma mat_fld:
  assumes "mat s (fld n x @ ys)" "n \<le> 25" "unat x < 2 ^ n" "\<And>t. mat t ys \<Longrightarrow> yields P (f x t)"
  shows "yields P (Option.bind (read_bit_field n s) (\<lambda>(v, t). f v t))"
  using mp4.rd_field [of s n "unat x" ys] assms by (auto simp: mat_def fld_def)

lemma mat_flag:
  assumes "mat s (b # ys)" "\<And>t. mat t ys \<Longrightarrow> yields P (f (of_bool b) t)"
  shows "yields P (Option.bind (read_bit_field 1 s) (\<lambda>(v, t). f v t))"
  using mp4.rd_one [of s b ys] assms by (auto simp: mat_def)

section \<open>The layer syntax\<close>

record vbv =
  bit_rate :: "u32 \<times> u32"
  buffer_size :: "u32 \<times> u32"
  occupancy :: "u32 \<times> u32"

record vol_header =
  random_accessible_vol :: u32
  object_type :: u32
  layer_id :: "(u32 \<times> u32) option"
  aspect :: u32
  par :: "u32 \<times> u32"
  control :: "(u32 \<times> vbv option) option"
  resolution :: u32

definition vbv_bits :: "vbv \<Rightarrow> bool list" where
  "vbv_bits v = fld 15 (fst (bit_rate v)) @ True # fld 15 (snd (bit_rate v)) @ True #
     fld 15 (fst (buffer_size v)) @ True # fld 3 (snd (buffer_size v)) @
     fld 11 (fst (occupancy v)) @ True # fld 15 (snd (occupancy v)) @ [True]"

definition layer_id_bits :: "(u32 \<times> u32) option \<Rightarrow> bool list" where
  "layer_id_bits i = (case i of None \<Rightarrow> [False] | Some (verid, priority) \<Rightarrow> True # fld 4 verid @ fld 3 priority)"

definition aspect_bits :: "u32 \<Rightarrow> u32 \<times> u32 \<Rightarrow> bool list" where
  "aspect_bits a p = fld 4 a @ (if a = 15 then fld 8 (fst p) @ fld 8 (snd p) else [])"

definition control_bits :: "(u32 \<times> vbv option) option \<Rightarrow> bool list" where
  "control_bits c = (case c of None \<Rightarrow> [False]
     | Some (low_delay, v) \<Rightarrow> True # fld 2 1 @ fld 1 low_delay @
         (case v of None \<Rightarrow> [False] | Some v \<Rightarrow> True # vbv_bits v))"

definition vol_bits :: "vol_header \<Rightarrow> bool list" where
  "vol_bits v = fld 1 (random_accessible_vol v) @ fld 8 (object_type v) @ layer_id_bits (layer_id v) @
     aspect_bits (aspect v) (par v) @ control_bits (control v) @ fld 2 0 @ True # fld 16 (resolution v)"

definition vol_wf :: "vol_header \<Rightarrow> bool" where
  "vol_wf v \<longleftrightarrow> object_type v \<in> {0, 1, 2, 3, 4, 0x11} \<and> unat (aspect v) < 2 ^ 4 \<and> unat (resolution v) < 2 ^ 16"

lemma layer_identifier_decodes:
  assumes "mat s (layer_id_bits i @ ys)"
  shows "yields (\<lambda>t. mat t ys) (layer_identifier s)"
proof (cases i)
  case None
  show ?thesis unfolding layer_identifier_def
    by (rule mat_flag [of _ False ys]) (use assms None in \<open>simp_all add: layer_id_bits_def\<close>)
next
  case (Some q)
  show ?thesis unfolding layer_identifier_def
    apply (rule mat_flag [of _ True "fld 4 (fst q) @ fld 3 (snd q) @ ys"])
     apply (use assms Some in \<open>simp add: layer_id_bits_def split_beta\<close>)
    apply simp
    apply (rule mat_skip, assumption, simp, simp)+
    by simp
qed

lemma layer_aspect_ratio_decodes:
  assumes "mat s (aspect_bits a p @ ys)" "unat a < 2 ^ 4"
  shows "yields (\<lambda>t. mat t ys) (layer_aspect_ratio s)"
  unfolding layer_aspect_ratio_def
proof (rule mat_fld)
  show "mat s (fld 4 a @ (if a = 15 then fld 8 (fst p) @ fld 8 (snd p) else []) @ ys)"
    using assms(1) by (simp add: aspect_bits_def)
  fix t
  assume t: "mat t ((if a = 15 then fld 8 (fst p) @ fld 8 (snd p) else []) @ ys)"
  show "yields (\<lambda>t. mat t ys) (if a = 0xF then do { (_, s) \<leftarrow> read_bit_field 8 t; (_, s) \<leftarrow> read_bit_field 8 s; Some s } else Some t)"
  proof (cases "a = 15")
    case True
    then have "mat t (fld 8 (fst p) @ fld 8 (snd p) @ ys)" using t by simp
    then show ?thesis using True by simp (rule mat_skip, assumption, simp, simp, rule mat_skip, assumption, simp_all)
  qed (use t in simp)
qed (use assms in simp_all)

lemma marked_fields_Cons:
  assumes "mat s (xs @ True # ys)" "length xs = n" "n \<le> 25" "\<And>t. mat t ys \<Longrightarrow> yields P (marked_fields ns t)"
  shows "yields P (marked_fields (n # ns) s)"
  unfolding marked_fields.simps
  by (rule mat_skip [OF assms(1-3)], rule mat_flag, assumption) (simp add: assms(4))

lemma vbv_parameters_decodes:
  assumes "mat s (vbv_bits v @ ys)"
  shows "yields (\<lambda>r. \<exists>t. r = Some t \<and> mat t ys) (vbv_parameters s)"
proof -
  let ?tl = "fld 3 (snd (buffer_size v)) @ fld 11 (fst (occupancy v)) @ True # fld 15 (snd (occupancy v)) @ True # ys"
  have s: "mat s (fld 15 (fst (bit_rate v)) @ True # fld 15 (snd (bit_rate v)) @ True #
      fld 15 (fst (buffer_size v)) @ True # ?tl)" using assms by (simp add: vbv_bits_def)
  have 1: "yields (\<lambda>r. \<exists>t. r = Some t \<and> mat t ?tl) (marked_fields [15, 15, 15] s)"
    by (rule marked_fields_Cons [OF s], simp, simp, rule marked_fields_Cons, assumption, simp, simp,
        rule marked_fields_Cons, assumption) simp_all
  have 2: "yields (\<lambda>r. \<exists>t. r = Some t \<and> mat t ys)
      (Option.bind (read_bit_field 3 t) (\<lambda>(_, s). marked_fields [11, 15] s))" if "mat t ?tl" for t
    by (rule mat_skip [OF that], simp, simp, rule marked_fields_Cons, assumption, simp, simp,
        rule marked_fields_Cons, assumption) simp_all
  show ?thesis unfolding vbv_parameters_def
    by (rule yields_bind [OF 1]) (use 2 in \<open>auto simp del: marked_fields.simps\<close>)
qed

lemma layer_control_decodes:
  assumes "mat s (control_bits c @ ys)"
  shows "yields (\<lambda>r. \<exists>t. r = Some t \<and> mat t ys) (layer_control s)"
proof (cases c)
  case None
  show ?thesis unfolding layer_control_def
    by (rule mat_flag [of _ False ys]) (use assms None in \<open>simp_all add: control_bits_def\<close>)
next
  case (Some q)
  obtain l v where q: "q = (l, v)" by fastforce
  let ?tl = "(case v of None \<Rightarrow> [False] | Some v \<Rightarrow> True # vbv_bits v) @ ys"
  have s: "mat s (True # fld 2 1 @ fld 1 l @ ?tl)" using assms Some q by (simp add: control_bits_def)
  have v: "yields (\<lambda>r. \<exists>t. r = Some t \<and> mat t ys)
      (Option.bind (read_bit_field 1 t) (\<lambda>(vbv, s). if vbv \<noteq> 0 then vbv_parameters s else Some (Some s)))"
    if "mat t ?tl" for t
  proof (cases v)
    case None
    show ?thesis by (rule mat_flag [of _ False ys]) (use that None in simp_all)
  next
    case (Some w)
    show ?thesis
      by (rule mat_flag [of _ True "vbv_bits w @ ys"]) (use that Some vbv_parameters_decodes in simp_all)
  qed
  show ?thesis unfolding layer_control_def vol_control_parameters_def
    apply (rule mat_flag [OF s], simp del: One_nat_def)
    apply (rule mat_fld, assumption, simp, simp, simp del: One_nat_def)
    apply (rule mat_skip, assumption, simp, simp, erule v)
    done
qed

lemma layer_header_decodes:
  assumes "mat s (vol_bits v @ ys)" "vol_wf v"
  shows "layer_header s = Some (Some (resolution v))"
proof -
  let ?t4 = "fld 2 0 @ True # fld 16 (resolution v) @ ys"
  let ?t3 = "control_bits (control v) @ ?t4"
  let ?t2 = "aspect_bits (aspect v) (par v) @ ?t3"
  have s: "mat s (fld 1 (random_accessible_vol v) @ fld 8 (object_type v) @ layer_id_bits (layer_id v) @ ?t2)"
    using assms(1) by (simp add: vol_bits_def)
  have w: "unat (aspect v) < 2 ^ 4" "unat (resolution v) < 2 ^ 16" "unat (object_type v) < 2 ^ 8"
    "object_type v \<in> {0, 1, 2, 3, 4, 0x11}" using assms(2) by (auto simp: vol_wf_def)
  have 4: "yields (\<lambda>r. r = Some (resolution v)) (layer_resolution t)" if "mat t ?t4" for t
    unfolding layer_resolution_def
    apply (rule mat_fld [OF that], simp, simp, simp del: One_nat_def)
    apply (rule mat_flag, assumption, simp)
    apply (rule mat_fld, assumption, simp, rule w, simp)
    done
  have "yields (\<lambda>r. r = Some (resolution v)) (layer_header s)"
    unfolding layer_header_def
    apply (rule mat_skip [OF s], simp, simp)
    apply (rule mat_fld, assumption, simp, rule w)
    apply (simp only: if_False not_True_eq_False w(4))
    apply (rule yields_bind, erule layer_identifier_decodes)
    apply (rule yields_bind, erule layer_aspect_ratio_decodes, rule w)
    apply (rule yields_bind, erule layer_control_decodes)
    apply (use 4 in auto)
    done
  then show ?thesis by (auto simp: yields_def)
qed

section \<open>The search for start codes\<close>

definition code_at :: "u8 list \<Rightarrow> u32 \<Rightarrow> u32 \<Rightarrow> nat \<Rightarrow> bool" where
  "code_at mem codeMask referenceCode i \<longleftrightarrow>
     be32 (mem ! i) (mem ! (i + 1)) (mem ! (i + 2)) (mem ! (i + 3)) AND codeMask = referenceCode"

lemma be32_shift: "shl32 (be32 a b c d) 8 OR ucast e = be32 b c d e"
  by (rule bit_word_eqI) (auto simp: be32_def shl32_def bit_simps not_le dest: bit_imp_le_length)

text \<open>The first position above \<open>j\<close> at which a property holds, up to \<open>n\<close>.\<close>

definition first_from :: "nat \<Rightarrow> nat \<Rightarrow> (nat \<Rightarrow> bool) \<Rightarrow> nat option \<Rightarrow> bool" where
  "first_from j n P r \<longleftrightarrow> (case r of
     None \<Rightarrow> \<forall>i. j < i \<and> i \<le> n \<longrightarrow> \<not> P i
   | Some i \<Rightarrow> j < i \<and> i \<le> n \<and> P i \<and> (\<forall>k. j < k \<and> k < i \<longrightarrow> \<not> P k))"

lemma first_from_hit: "j < n \<Longrightarrow> P (Suc j) \<Longrightarrow> first_from j n P (Some (Suc j))"
  by (auto simp: first_from_def)

lemma first_from_step: "first_from (Suc j) n P r \<Longrightarrow> \<not> P (Suc j) \<Longrightarrow> first_from j n P r"
  unfolding first_from_def by (auto split: option.splits) (metis Suc_lessI)+

lemma find_code_loop_first:
  assumes "p + n \<le> length mem" "j \<le> n"
    and "ext = [255, 255, 255, 255] @ drop p mem"
    and "code = be32 (ext ! j) (ext ! (j + 1)) (ext ! (j + 2)) (ext ! (j + 3))"
  shows "\<exists>r. find_code_loop mem (p + j) (n - j) codeMask referenceCode code = Some (map_option ((+) p) r) \<and>
    first_from j n (code_at ext codeMask referenceCode) r"
  using assms(2,4)
proof (induction "n - j" arbitrary: j code)
  case 0
  then show ?case by (intro exI [of _ None]) (auto simp: find_code_loop.simps first_from_def)
next
  case (Suc m)
  then have j: "j < n" "m = n - Suc j" by simp_all
  let ?b = "mem ! (p + j)"
  have b: "mem_at mem (p + j) = Some ?b" "?b = ext ! (j + 4)" using assms(1,3) j by (simp_all add: mem_at_def)
  define c where "c = be32 (ext ! Suc j) (ext ! (Suc j + 1)) (ext ! (Suc j + 2)) (ext ! (Suc j + 3))"
  have c: "shl32 code 8 OR ucast ?b = c"
    unfolding c_def Suc.prems(2) be32_shift b(2) by (simp add: eval_nat_numeral)
  have h: "code_at ext codeMask referenceCode (Suc j) \<longleftrightarrow> c AND codeMask = referenceCode"
    by (simp add: code_at_def c_def)
  have loop: "find_code_loop mem (p + j) (n - j) codeMask referenceCode code =
      (if c AND codeMask = referenceCode then Some (Some (p + Suc j))
       else find_code_loop mem (p + Suc j) (n - Suc j) codeMask referenceCode c)"
    using j by (subst find_code_loop.simps) (simp add: b(1) c Let_def)
  show ?case
  proof (cases "c AND codeMask = referenceCode")
    case True
    then show ?thesis using loop h j first_from_hit by (intro exI [of _ "Some (Suc j)"]) simp
  next
    case False
    obtain r where "find_code_loop mem (p + Suc j) (n - Suc j) codeMask referenceCode c = Some (map_option ((+) p) r)"
      "first_from (Suc j) n (code_at ext codeMask referenceCode) r"
      using Suc.hyps(1) [OF j(2) _ c_def] j by auto
    then show ?thesis using False loop h first_from_step by auto
  qed
qed

lemma find_code_spec:
  assumes "p + n \<le> length mem" "bit codeMask 31" "\<not> bit referenceCode 31"
  shows "\<exists>r. find_code mem p n codeMask referenceCode = Some r \<and>
    (case r of
       None \<Rightarrow> \<forall>i. p \<le> i \<and> i + 4 \<le> p + n \<longrightarrow> \<not> code_at mem codeMask referenceCode i
     | Some q \<Rightarrow> p + 4 \<le> q \<and> q \<le> p + n \<and> code_at mem codeMask referenceCode (q - 4) \<and>
         (\<forall>i. p \<le> i \<and> i + 4 < q \<longrightarrow> \<not> code_at mem codeMask referenceCode i))"
proof -
  define ext where "ext = [255, 255, 255, 255 :: u8] @ drop p mem"
  let ?P = "code_at ext codeMask referenceCode" and ?Q = "code_at mem codeMask referenceCode"
  have start: "(0xFFFFFFFF :: u32) = be32 (ext ! 0) (ext ! (0 + 1)) (ext ! (0 + 2)) (ext ! (0 + 3))"
    by (simp add: ext_def be32_def shl32_def push_bit_eq_mult)
  obtain r where r: "find_code mem p n codeMask referenceCode = Some (map_option ((+) p) r)" "first_from 0 n ?P r"
    using find_code_loop_first [OF assms(1) _ ext_def start] by (auto simp: find_code_def)
  have low: "\<not> ?P i" if "i < 4" for i
  proof
    assume "?P i"
    moreover have "ext ! i = 255" using that by (auto simp: ext_def nth_Cons' less_Suc_eq numeral_eq_Suc)
    moreover have "bit (be32 255 b c d) 31" for b c d
      by (simp add: be32_def shl32_def bit_simps)
    ultimately have "bit referenceCode 31" using assms(2) by (auto simp: code_at_def bit_and_iff)
    then show False using assms(3) by simp
  qed
  have high: "?P (i + 4) \<longleftrightarrow> ?Q (p + i)" if "i + 4 \<le> n" for i
    using that assms(1) by (simp add: code_at_def ext_def add.assoc eval_nat_numeral)
  have high': "?P i \<longleftrightarrow> 4 \<le> i \<and> ?Q (p + i - 4)" if "i \<le> n" for i
    using high [of "i - 4"] low [of i] that by (cases "i < 4") auto
  show ?thesis
  proof (cases r)
    case None
    have "\<not> ?Q i" if "p \<le> i" "i + 4 \<le> p + n" for i
      using r(2) None high [of "i - p"] that by (auto simp: first_from_def)
    then show ?thesis using r(1) None by auto
  next
    case (Some q)
    then have q: "0 < q" "q \<le> n" "?P q" "\<And>k. 0 < k \<Longrightarrow> k < q \<Longrightarrow> \<not> ?P k"
      using r(2) by (auto simp: first_from_def)
    have "4 \<le> q" "?Q (p + q - 4)" using q high' by auto
    moreover have "\<not> ?Q i" if "p \<le> i" "i + 4 < p + q" for i
      using q(2,4) high [of "i - p"] that by auto
    ultimately show ?thesis using r(1) Some q(2) by auto
  qed
qed

lemma find_code_loop_mono:
  assumes "find_code_loop mem p n codeMask referenceCode code = Some (Some q)" "n \<le> n'"
  shows "find_code_loop mem p n' codeMask referenceCode code = Some (Some q)"
  using assms
proof (induction n arbitrary: p n' code)
  case 0
  then show ?case by (simp add: find_code_loop.simps)
next
  case (Suc n)
  obtain b where b: "mem_at mem p = Some b"
    using Suc.prems(1) by (subst (asm) find_code_loop.simps) (auto split: bind_splits)
  obtain k where k: "n' = Suc k" "n \<le> k" using Suc.prems(2) by (cases n') auto
  let ?c = "shl32 code 8 OR ucast b"
  have "find_code_loop mem p (Suc l) codeMask referenceCode code =
      (if ?c AND codeMask = referenceCode then Some (Some (p + 1))
       else find_code_loop mem (p + 1) l codeMask referenceCode ?c)" for l
    by (subst find_code_loop.simps) (simp add: b Let_def)
  then show ?case using Suc.prems(1) Suc.IH [OF _ k(2)] k(1) by (auto split: if_splits)
qed

definition first_code :: "u8 list \<Rightarrow> u32 \<Rightarrow> u32 \<Rightarrow> nat \<Rightarrow> nat \<Rightarrow> bool" where
  "first_code mem codeMask referenceCode p q \<longleftrightarrow> p \<le> q \<and> code_at mem codeMask referenceCode q \<and>
     (\<forall>i. p \<le> i \<and> i < q \<longrightarrow> \<not> code_at mem codeMask referenceCode i)"

lemma first_code_list [code]:
  "first_code mem codeMask referenceCode p q \<longleftrightarrow> p \<le> q \<and> code_at mem codeMask referenceCode q \<and>
     list_all (\<lambda>i. \<not> code_at mem codeMask referenceCode i) [p..<q]"
  by (auto simp: first_code_def list_all_iff)

lemma find_code_at:
  assumes "first_code mem codeMask referenceCode p q" "q + 4 \<le> length mem" "q + 4 \<le> p + n"
    and "bit codeMask 31" "\<not> bit referenceCode 31"
  shows "find_code mem p n codeMask referenceCode = Some (Some (q + 4))"
proof -
  have f: "p \<le> q" "code_at mem codeMask referenceCode q"
    "\<And>i. p \<le> i \<Longrightarrow> i < q \<Longrightarrow> \<not> code_at mem codeMask referenceCode i"
    using assms(1) by (auto simp: first_code_def)
  let ?n = "q + 4 - p"
  have "find_code mem p ?n codeMask referenceCode = Some (Some (q + 4))"
  proof -
    have n: "p + ?n \<le> length mem" "p + ?n = q + 4" using assms(2) f(1) by simp_all
    obtain r where r: "find_code mem p ?n codeMask referenceCode = Some r"
      "case r of
         None \<Rightarrow> \<forall>i. p \<le> i \<and> i + 4 \<le> p + ?n \<longrightarrow> \<not> code_at mem codeMask referenceCode i
       | Some y \<Rightarrow> p + 4 \<le> y \<and> y \<le> p + ?n \<and> code_at mem codeMask referenceCode (y - 4) \<and>
           (\<forall>i. p \<le> i \<and> i + 4 < y \<longrightarrow> \<not> code_at mem codeMask referenceCode i)"
      using find_code_spec [OF n(1) assms(4,5)] by blast
    show ?thesis
    proof (cases r)
      case None
      then show ?thesis using r(2) f(1,2) n(2) by simp
    next
      case (Some y)
      then have y: "p + 4 \<le> y" "y \<le> q + 4" "code_at mem codeMask referenceCode (y - 4)" using r(2) n(2) by simp_all
      then have "y - 4 = q" using f(3) [of "y - 4"] by (cases "y - 4 < q") auto
      then show ?thesis using r(1) Some y(1) by simp
    qed
  qed
  then show ?thesis using assms(3) unfolding find_code_def by (auto elim: find_code_loop_mono)
qed

lemma find_code_none:
  assumes "p + n \<le> length mem" "bit codeMask 31" "\<not> bit referenceCode 31"
    and "\<And>i. p \<le> i \<Longrightarrow> i + 4 \<le> p + n \<Longrightarrow> \<not> code_at mem codeMask referenceCode i"
  shows "find_code mem p n codeMask referenceCode = Some None"
  using find_code_spec [OF assms(1-3)] assms(4) by (fastforce split: option.splits)

section \<open>The whole header\<close>

text \<open>A state at byte \<open>p\<close>, bit \<open>k\<close> of \<open>mem\<close>, before the bits \<open>bs\<close>.\<close>

definition mat_at :: "u8 list \<Rightarrow> posInfoType \<Rightarrow> nat \<Rightarrow> nat \<Rightarrow> bool list \<Rightarrow> bool" where
  "mat_at mem s p k bs \<longleftrightarrow> mat s bs \<and> mp4_mem s = mem \<and> bytePtr s = p \<and> bitPos s = k"

lemma read_bit_field_pos:
  "read_bit_field n s = Some (v, t) \<Longrightarrow> mp4_mem t = mp4_mem s \<and>
     bytePtr t = bytePtr s + (bitPos s + n) div 8 \<and> bitPos t = (bitPos s + n) mod 8"
  by (auto simp: read_bit_field_def normalize_div Let_def bind_eq_Some_conv)

lemma mat_at_read:
  assumes "mat_at mem s p k (xs @ ys)" "length xs = n" "n \<le> 25"
    and "\<And>t. mat_at mem t (p + (k + n) div 8) ((k + n) mod 8) ys \<Longrightarrow> yields P (f (of_nat (bits_val xs)) t)"
  shows "yields P (Option.bind (read_bit_field n s) (\<lambda>(v, t). f v t))"
proof -
  obtain t where "read_bit_field n s = Some (of_nat (bits_val xs), t)" "mp4_bits t = ys" "mp4_ok t"
    using mp4.rd_append [of s xs ys] assms(1-3) by (auto simp: mat_at_def mat_def)
  then show ?thesis using assms(1,4) read_bit_field_pos by (auto simp: mat_at_def mat_def)
qed

text \<open>The visual object header after its start code at \<open>b\<close>; the next search starts at \<open>e\<close>.\<close>

definition video_object_header :: "u8 list \<Rightarrow> nat \<Rightarrow> nat \<Rightarrow> bool" where
  "video_object_header mem b e \<longleftrightarrow>
     take 5 (byte_bits (mem ! (b + 4))) = [False, False, False, False, True] \<and> e = b + 4 \<or>
     hd (byte_bits (mem ! (b + 4))) \<and> take 4 (byte_bits (mem ! (b + 5))) = [False, False, False, True] \<and> e = b + 5"

lemma code_masks [simp]:
  "bit (MASK 32) 31" "bit VIDEO_OBJECT_START_CODE_MASK 31" "bit VIDEO_OBJECT_LAYER_START_CODE_MASK 31"
  "\<not> bit VOP_START_CODE 31" "\<not> bit GOV_START_CODE 31" "\<not> bit VISUAL_OBJECT_SEQUENCE_START_CODE 31"
  "\<not> bit VISUAL_OBJECT_START_CODE 31" "\<not> bit VIDEO_OBJECT_START_CODE 31" "\<not> bit VIDEO_OBJECT_LAYER_START_CODE 31"
  by (simp_all add: MASK_def shr32_def VIDEO_OBJECT_START_CODE_MASK_def VIDEO_OBJECT_LAYER_START_CODE_MASK_def
      VOP_START_CODE_def GOV_START_CODE_def VISUAL_OBJECT_SEQUENCE_START_CODE_def VISUAL_OBJECT_START_CODE_def
      VIDEO_OBJECT_START_CODE_def VIDEO_OBJECT_LAYER_START_CODE_def bit_numeral_rec)

lemma mat_at_start:
  assumes "p + 4 < length mem"
  shows "mat_at mem \<lparr>mp4_mem = mem, bytePtr = p, bitPos = 0\<rparr> p 0 (bytes_bits (take (length mem - 4 - p) (drop p mem)))"
  using assms by (simp add: mat_at_def mat_def mp4_ok_def mp4_bits_def)

lemma two_bytes:
  assumes "b + 10 \<le> length mem"
  shows "\<exists>ys. bytes_bits (take (length mem - 4 - (b + 4)) (drop (b + 4) mem)) =
    byte_bits (mem ! (b + 4)) @ byte_bits (mem ! (b + 5)) @ ys"
proof -
  define m where "m = length mem - b - 10"
  have m: "length mem - 4 - (b + 4) = Suc (Suc m)" using assms by (simp add: m_def)
  have "drop (b + 4) mem = mem ! (b + 4) # mem ! (b + 5) # drop (b + 6) mem"
    using assms by (simp add: Cons_nth_drop_Suc eval_nat_numeral)
  then show ?thesis unfolding m by auto
qed

lemma bind_case_prod: "Option.bind (case y of (a, b) \<Rightarrow> f a b) g = (case y of (a, b) \<Rightarrow> Option.bind (f a b) g)"
  by (simp add: split_beta)

lemma visual_object_found:
  assumes "mp4_mem s = mem" "bitPos s = 0" "b + 10 \<le> length mem"
    and "first_code mem (MASK 32) VISUAL_OBJECT_START_CODE (bytePtr s) b" "b + 4 \<le> bytePtr s + n"
    and "video_object_header mem b e"
    and "first_code mem VIDEO_OBJECT_START_CODE_MASK VIDEO_OBJECT_START_CODE e c" "c + 4 \<le> length mem" "c + 4 \<le> e + n"
  shows "yields (\<lambda>r. \<exists>t. r = Some t \<and> mp4_mem t = mem \<and> bytePtr t = c + 4) (visual_object n s)"
proof -
  have find1: "find_code mem (bytePtr s) n (MASK 32) VISUAL_OBJECT_START_CODE = Some (Some (b + 4))"
    by (rule find_code_at [OF assms(4)]) (use assms in simp_all)
  have find2: "find_code mem e n VIDEO_OBJECT_START_CODE_MASK VIDEO_OBJECT_START_CODE = Some (Some (c + 4))"
    by (rule find_code_at [OF assms(7)]) (use assms in simp_all)
  obtain ys where "bytes_bits (take (length mem - 4 - (b + 4)) (drop (b + 4) mem)) =
      byte_bits (mem ! (b + 4)) @ byte_bits (mem ! (b + 5)) @ ys" using two_bytes [OF assms(3)] by blast
  moreover have "s\<lparr>bytePtr := b + 4\<rparr> = \<lparr>mp4_mem = mem, bytePtr = b + 4, bitPos = 0\<rparr>" using assms(1,2) by simp
  ultimately have t: "mat_at mem (s\<lparr>bytePtr := b + 4\<rparr>) (b + 4) 0 (byte_bits (mem ! (b + 4)) @ byte_bits (mem ! (b + 5)) @ ys)"
    using mat_at_start [of "b + 4" mem] assms(3) by simp
  have fin: "yields (\<lambda>r. \<exists>t. r = Some t \<and> mp4_mem t = mem \<and> bytePtr t = c + 4)
      (do { r \<leftarrow> find_code (mp4_mem u) (bytePtr u) n VIDEO_OBJECT_START_CODE_MASK VIDEO_OBJECT_START_CODE;
            Some (map_option (\<lambda>p. u\<lparr>bytePtr := p\<rparr>) r) })"
    if "mat_at mem u e k zs" for u k zs
    using that find2 by (simp add: mat_at_def)
  show ?thesis
  proof (cases "take 5 (byte_bits (mem ! (b + 4))) = [False, False, False, False, True] \<and> e = b + 4")
    case True
    obtain zs where "byte_bits (mem ! (b + 4)) = [False, False, False, False, True] @ zs"
      using True append_take_drop_id [of 5 "byte_bits (mem ! (b + 4))"] by metis
    then obtain rest where r: "mat_at mem (s\<lparr>bytePtr := b + 4\<rparr>) (b + 4) 0 ([False] @ [False, False, False, True] @ rest)"
      using t by auto
    show ?thesis
      unfolding visual_object_def assms(1) find1 bind.bind_lunit option.case
      apply (rule mat_at_read [OF r], simp, simp)
      apply (simp only: bits_val.simps)
      apply simp
      apply (rule mat_at_read [where xs = "[False, False, False, True]" and ys = rest], simp, simp, simp, simp)
      apply (rule fin)
      apply (simp add: True)
      done
  next
    case False
    then have h: "hd (byte_bits (mem ! (b + 4)))" "take 4 (byte_bits (mem ! (b + 5))) = [False, False, False, True]" "e = b + 5"
      using assms(6) by (auto simp: video_object_header_def)
    obtain b1 b2 b3 b4 b5 b6 b7 where "byte_bits (mem ! (b + 4)) = [True, b1, b2, b3, b4, b5, b6, b7]"
      using h(1) length_byte_bits [of "mem ! (b + 4)"] by (auto simp: numeral_eq_Suc length_Suc_conv simp del: length_byte_bits)
    moreover obtain zs where "byte_bits (mem ! (b + 5)) = [False, False, False, True] @ zs"
      using h(2) append_take_drop_id [of 4 "byte_bits (mem ! (b + 5))"] by metis
    ultimately obtain rest where r: "mat_at mem (s\<lparr>bytePtr := b + 4\<rparr>) (b + 4) 0
        ([True] @ [b1, b2, b3, b4] @ [b5, b6, b7] @ [False, False, False, True] @ rest)"
      using t by auto
    show ?thesis
      unfolding visual_object_def assms(1) find1 bind.bind_lunit option.case
      apply (rule mat_at_read [OF r], simp, simp)
      apply (simp only: bits_val.simps)
      apply (simp add: bind_case_prod)
      apply (rule mat_at_read [where xs = "[b1, b2, b3, b4]"], simp, simp, simp, simp)
      apply (rule mat_at_read [where xs = "[b5, b6, b7]"], simp, simp, simp, simp)
      apply (rule mat_at_read [where xs = "[False, False, False, True]" and ys = rest], simp, simp, simp, simp)
      apply (rule fin)
      apply (simp add: h(3) add.commute)
      done
  qed
qed

text \<open>
  \<open>layer_search mem n p\<close>: with \<open>n\<close> header bytes the search for the layer starts at \<open>p\<close>,
  either because there are no object headers, or behind the headers of the visual object sequence,
  the visual object and the video object.
\<close>

definition layer_search :: "u8 list \<Rightarrow> nat \<Rightarrow> nat \<Rightarrow> bool" where
  "layer_search mem n p \<longleftrightarrow>
     p = 0 \<and> (\<forall>i. i + 4 \<le> n \<longrightarrow> \<not> code_at mem (MASK 32) VISUAL_OBJECT_SEQUENCE_START_CODE i \<and>
       \<not> code_at mem (MASK 32) VISUAL_OBJECT_START_CODE i) \<or>
     (\<exists>a b c e. first_code mem (MASK 32) VISUAL_OBJECT_SEQUENCE_START_CODE 0 a \<and>
       first_code mem (MASK 32) VISUAL_OBJECT_START_CODE (a + 5) b \<and> video_object_header mem b e \<and>
       first_code mem VIDEO_OBJECT_START_CODE_MASK VIDEO_OBJECT_START_CODE e c \<and> p = c + 4)"

lemma visual_sequence_found:
  assumes "first_code mem (MASK 32) VISUAL_OBJECT_SEQUENCE_START_CODE 0 a" "a + 8 \<le> length mem" "a + 4 \<le> n"
  shows "\<exists>s. visual_sequence mem n = Some s \<and> mp4_mem s = mem \<and> bytePtr s = a + 5 \<and> bitPos s = 0"
proof -
  have f: "find_code mem 0 n (MASK 32) VISUAL_OBJECT_SEQUENCE_START_CODE = Some (Some (a + 4))"
    by (rule find_code_at [OF assms(1)]) (use assms in simp_all)
  obtain v t where r: "read_bit_field 8 \<lparr>mp4_mem = mem, bytePtr = a + 4, bitPos = 0\<rparr> = Some (v, t)"
    using assms(2) by (auto simp: read_bit_field_def mem_at_def normalize_div Let_def)
  show ?thesis using read_bit_field_pos [OF r] f r by (simp add: visual_sequence_def)
qed

lemma object_headers:
  assumes "layer_search mem n p" "p + 8 \<le> length mem" "p \<le> n" "n \<le> length mem"
  shows "\<exists>s t. visual_sequence mem n = Some s \<and> visual_object n s = Some (Some t) \<and> mp4_mem t = mem \<and> bytePtr t = p"
  using assms(1) unfolding layer_search_def
proof (elim disjE conjE exE)
  assume p: "p = 0" and no: "\<forall>i. i + 4 \<le> n \<longrightarrow> \<not> code_at mem (MASK 32) VISUAL_OBJECT_SEQUENCE_START_CODE i \<and>
      \<not> code_at mem (MASK 32) VISUAL_OBJECT_START_CODE i"
  have "find_code mem 0 n (MASK 32) VISUAL_OBJECT_SEQUENCE_START_CODE = Some None"
    "find_code mem 0 n (MASK 32) VISUAL_OBJECT_START_CODE = Some None"
    by (rule find_code_none; use no assms(4) in simp)+
  then show ?thesis using p by (simp add: visual_sequence_def visual_object_def)
next
  fix a b c e
  assume f: "first_code mem (MASK 32) VISUAL_OBJECT_SEQUENCE_START_CODE 0 a"
    "first_code mem (MASK 32) VISUAL_OBJECT_START_CODE (a + 5) b" "video_object_header mem b e"
    "first_code mem VIDEO_OBJECT_START_CODE_MASK VIDEO_OBJECT_START_CODE e c" "p = c + 4"
  have o: "a + 5 \<le> b" "b + 4 \<le> e" "e \<le> c" using f(2,3,4) by (auto simp: first_code_def video_object_header_def)
  obtain s where s: "visual_sequence mem n = Some s" "mp4_mem s = mem" "bytePtr s = a + 5" "bitPos s = 0"
    using visual_sequence_found [OF f(1), of n] o f(5) assms(2,3) by auto
  have "yields (\<lambda>r. \<exists>t. r = Some t \<and> mp4_mem t = mem \<and> bytePtr t = c + 4) (visual_object n s)"
    by (rule visual_object_found [OF s(2,4) _ f(2) [folded s(3)] _ f(3,4)]) (use o f(5) assms(2,3) s(3) in simp_all)
  then show ?thesis using s(1) f(5) by (auto simp: yields_def)
qed

text \<open>
  C17. The header parser decodes: with or without the headers of the objects around it, a video
  object layer header in the layer syntax is found and parsed to its time increment resolution.
\<close>
theorem parse_header_decodes:
  assumes "\<not> code_at mem (MASK 32) VOP_START_CODE 0" "\<not> code_at mem (MASK 32) GOV_START_CODE 0"
    and "layer_search mem n p" "first_code mem VIDEO_OBJECT_LAYER_START_CODE_MASK VIDEO_OBJECT_LAYER_START_CODE p q"
    and "drop (q + 4) mem = body @ look" "length look = 4" "bytes_bits body = vol_bits v @ rest" "vol_wf v"
    and "q + 4 \<le> n" "n \<le> length mem"
  shows "parse_header mem n m = Some (True, m\<lparr>vop_time_resolution := resolution v, vop_time_found := True\<rparr>)"
proof -
  have pq: "p \<le> q" using assms(4) by (simp add: first_code_def)
  have "length (bytes_bits body) \<ge> 8" using assms(7) by (simp add: vol_bits_def)
  then have "1 \<le> length body" by simp
  moreover have len: "length mem - (q + 4) = length body + 4" using arg_cong [OF assms(5), of length] assms(6) by simp
  ultimately have q: "q + 8 < length mem" by linarith
  have none: "find_code mem 0 4 (MASK 32) c = Some None" if "\<not> code_at mem (MASK 32) c 0" "\<not> bit c 31" for c
    by (rule find_code_none) (use that q in auto)
  obtain s t where s: "visual_sequence mem n = Some s" "visual_object n s = Some (Some t)" "mp4_mem t = mem" "bytePtr t = p"
    using object_headers [OF assms(3) _ _ assms(10)] pq q assms(9) by auto
  have "find_code mem p n VIDEO_OBJECT_LAYER_START_CODE_MASK VIDEO_OBJECT_LAYER_START_CODE = Some (Some (q + 4))"
    by (rule find_code_at [OF assms(4)]) (use assms(9) q in simp_all)
  moreover define u where "u = \<lparr>mp4_mem = mem, bytePtr = q + 4, bitPos = 0\<rparr>"
  moreover have "t\<lparr>bytePtr := q + 4, bitPos := 0\<rparr> = u" using s(3) by (simp add: u_def)
  ultimately have start: "layer_start n t = Some u" by (simp add: layer_start_def s(3,4))
  have "mat u (bytes_bits (take (length mem - 4 - (q + 4)) (drop (q + 4) mem)))"
    using mat_at_start [of "q + 4" mem] q by (simp add: mat_at_def u_def)
  moreover have "length mem - 4 - (q + 4) = length body" using len by simp
  ultimately have "mat u (vol_bits v @ rest)" using assms(5,7) by simp
  then have "layer_header u = Some (Some (resolution v))" using assms(8) by (rule layer_header_decodes)
  then show ?thesis using none [OF assms(1)] none [OF assms(2)] s start by (simp add: parse_header_def)
qed

definition sample_config :: "u8 list" where
  "sample_config = [0, 0, 1, 0xB0, 1, 0, 0, 1, 0xB5, 9, 0, 0, 1, 0, 0, 0, 1, 0x20,
     0, 0x84, 0x40, 7, 0x80, 0, 0, 0, 0]"

definition sample_vol :: vol_header where
  "sample_vol = \<lparr>random_accessible_vol = 0, object_type = 1, layer_id = None, aspect = 1, par = (0, 0),
     control = None, resolution = 30\<rparr>"

theorem parse_header_decodes_witness:
  "parse_header sample_config 23 new_mp4_utils =
     Some (True, new_mp4_utils\<lparr>vop_time_resolution := resolution sample_vol, vop_time_found := True\<rparr>)"
proof (rule parse_header_decodes)
  show "\<not> code_at sample_config (MASK 32) VOP_START_CODE 0" by code_simp
  show "\<not> code_at sample_config (MASK 32) GOV_START_CODE 0" by code_simp
  have "first_code sample_config (MASK 32) VISUAL_OBJECT_SEQUENCE_START_CODE 0 0"
    "first_code sample_config (MASK 32) VISUAL_OBJECT_START_CODE 5 5" "video_object_header sample_config 5 9"
    "first_code sample_config VIDEO_OBJECT_START_CODE_MASK VIDEO_OBJECT_START_CODE 9 10" by code_simp+
  then show "layer_search sample_config 23 14" unfolding layer_search_def
    by (intro disjI2 exI [of _ 0] exI [of _ 5] exI [of _ 10] exI [of _ 9]) simp
  show "first_code sample_config VIDEO_OBJECT_LAYER_START_CODE_MASK VIDEO_OBJECT_LAYER_START_CODE 14 14" by code_simp
  show "drop (14 + 4) sample_config = [0, 0x84, 0x40, 7, 0x80] @ [0, 0, 0, 0]" by (simp add: sample_config_def)
  show "length [0, 0, 0, 0 :: u8] = 4" by simp
  show "bytes_bits [0, 0x84, 0x40, 7, 0x80] = vol_bits sample_vol @ replicate 6 False"
    by (simp add: vol_bits_def sample_vol_def layer_id_bits_def aspect_bits_def control_bits_def fld_def byte_bits_def
        bits_of_numeral replicate_numeral)
  show "vol_wf sample_vol" by (simp add: vol_wf_def sample_vol_def)
  show "14 + 4 \<le> (23 :: nat)" by simp
  show "23 \<le> length sample_config" by (simp add: sample_config_def)
qed

lemma find_code_loop_runs_off:
  assumes "find_code_loop mem p n codeMask referenceCode code = Some None" "p + n = length mem" "n < k"
  shows "find_code_loop mem p k codeMask referenceCode code = None"
  using assms
proof (induction n arbitrary: p k code)
  case 0
  then show ?case by (subst find_code_loop.simps) (simp add: mem_at_def)
next
  case (Suc n)
  obtain b where b: "mem_at mem p = Some b"
    using Suc.prems(1) by (subst (asm) find_code_loop.simps) (auto split: bind_splits)
  obtain l where k: "k = Suc l" "n < l" using Suc.prems(3) by (cases k) auto
  let ?c = "shl32 code 8 OR ucast b"
  have "find_code_loop mem p (Suc i) codeMask referenceCode code =
      (if ?c AND codeMask = referenceCode then Some (Some (p + 1))
       else find_code_loop mem (p + 1) i codeMask referenceCode ?c)" for i
    by (subst find_code_loop.simps) (simp add: b Let_def)
  then show ?case using Suc.prems(1,2) Suc.IH [of "p + 1" ?c l] k by (auto split: if_splits)
qed

text \<open>
  The search is restarted with the full size: a header that consists of a visual object
  sequence header and holds no visual object start code behind it makes \<open>parseHeader\<close> read
  beyond its memory.
\<close>
theorem parse_header_overreads:
  assumes "\<not> code_at mem (MASK 32) VOP_START_CODE 0" "\<not> code_at mem (MASK 32) GOV_START_CODE 0"
    and "first_code mem (MASK 32) VISUAL_OBJECT_SEQUENCE_START_CODE 0 a" "a + 8 \<le> length mem"
    and "\<And>i. a + 5 \<le> i \<Longrightarrow> i + 4 \<le> length mem \<Longrightarrow> \<not> code_at mem (MASK 32) VISUAL_OBJECT_START_CODE i"
  shows "parse_header mem (length mem) m = None"
proof -
  have none: "find_code mem 0 4 (MASK 32) c = Some None" if "\<not> code_at mem (MASK 32) c 0" "\<not> bit c 31" for c
    by (rule find_code_none) (use that assms(4) in auto)
  obtain s where s: "visual_sequence mem (length mem) = Some s" "mp4_mem s = mem" "bytePtr s = a + 5"
    using visual_sequence_found [OF assms(3,4), of "length mem"] assms(4) by auto
  have "find_code mem (a + 5) (length mem - (a + 5)) (MASK 32) VISUAL_OBJECT_START_CODE = Some None"
    by (rule find_code_none) (use assms(4,5) in auto)
  then have "find_code mem (a + 5) (length mem) (MASK 32) VISUAL_OBJECT_START_CODE = None"
    unfolding find_code_def by (rule find_code_loop_runs_off) (use assms(4) in simp_all)
  then have "visual_object (length mem) s = None" using s by (simp add: visual_object_def)
  then show ?thesis using none [OF assms(1)] none [OF assms(2)] s(1) by (simp add: parse_header_def)
qed

theorem parse_header_overreads_witness:
  "parse_header [0, 0, 1, 0xB0, 1, 0, 0, 1] 8 new_mp4_utils = None"
proof -
  let ?mem = "[0, 0, 1, 0xB0, 1, 0, 0, 1 :: u8]"
  have "\<not> code_at ?mem (MASK 32) VOP_START_CODE 0" "\<not> code_at ?mem (MASK 32) GOV_START_CODE 0"
    "first_code ?mem (MASK 32) VISUAL_OBJECT_SEQUENCE_START_CODE 0 0" by code_simp+
  then have "parse_header ?mem (length ?mem) new_mp4_utils = None"
    by (rule parse_header_overreads) simp_all
  moreover have "length ?mem = 8" by simp
  ultimately show ?thesis by (simp only:)
qed

section \<open>VOPs that are not coded\<close>

text \<open>
  The VOP header behind the start code: the coding type, \<open>modulo_time_base\<close> as \<open>k\<close> ones and a
  zero, a marker, the time increment, a marker and the coded flag.
\<close>

definition vop_bits :: "bool list \<Rightarrow> nat \<Rightarrow> bool list \<Rightarrow> bool \<Rightarrow> bool list" where
  "vop_bits coding_type k increment coded = coding_type @ replicate k True @ False # True # increment @ [True, coded]"

lemma byte_bit: "i < 8 \<Longrightarrow> (b AND push_bit (7 - i) 1 = 0) \<longleftrightarrow> \<not> byte_bits b ! i" for b :: u8
proof -
  assume i: "i < 8"
  have "b AND push_bit (7 - i) 1 = (if bit b (7 - i) then push_bit (7 - i) 1 else 0)"
    by (rule bit_word_eqI) (auto simp: bit_simps)
  moreover have "push_bit (7 - i) 1 \<noteq> (0 :: u8)" using i by (auto simp: push_bit_eq_mult dest!: arg_cong [of _ _ unat])
  moreover have "byte_bits b ! i = bit b (7 - i)" using i by (simp add: byte_bits_def nth_bits_of bit_unsigned_iff)
  ultimately show ?thesis by auto
qed

lemma nth_bytes_bits: "i < 8 * length bs \<Longrightarrow> bytes_bits bs ! i = byte_bits (bs ! (i div 8)) ! (i mod 8)"
proof (induction bs arbitrary: i)
  case (Cons b bs)
  show ?case
  proof (cases "i < 8")
    case False
    then have "i div 8 = Suc ((i - 8) div 8)" "i mod 8 = (i - 8) mod 8" by (simp_all add: le_div_geq le_mod_geq)
    then show ?thesis using Cons False by (simp add: nth_append)
  qed (simp add: nth_append)
qed simp

lemma bit_of_byte:
  assumes "g < 8 * len" "len \<le> length pbuffer"
  shows "\<exists>b. mem_at pbuffer (g div 8) = Some b \<and>
    (b AND push_bit (7 - g mod 8) 1 = 0 \<longleftrightarrow> \<not> bytes_bits (take len pbuffer) ! g)"
proof -
  have "g div 8 < len" using assms(1) by simp
  then show ?thesis
    using assms byte_bit [of "g mod 8" "pbuffer ! (g div 8)"] by (simp add: mem_at_def nth_bytes_bits)
qed

lemma modulo_loop_ones:
  assumes "bp < 8" "len \<le> length pbuffer" "xs \<noteq> []"
    and "drop (8 * index + bp) (bytes_bits (take len pbuffer)) = replicate k True @ False # xs"
  shows "modulo_loop pbuffer len index bp =
    Some (Some ((8 * index + bp + k + 1) div 8, (8 * index + bp + k + 1) mod 8))"
  using assms(1,4)
proof (induction k arbitrary: index bp)
  case 0
  let ?g = "8 * index + bp" and ?B = "bytes_bits (take len pbuffer)"
  have g: "?g + 1 < length ?B" using arg_cong [OF 0(2), of length] assms(3) by (cases xs) auto
  then have l: "?g < 8 * len" "(?g + 1) div 8 < len" using assms(2) by auto
  have i: "?g div 8 = index" "?g mod 8 = bp" using 0(1) by simp_all
  have "?B ! ?g = hd (drop ?g ?B)" using g by (simp add: hd_drop_conv_nth)
  then have "\<not> ?B ! ?g" using 0(2) by simp
  then obtain b where b: "mem_at pbuffer index = Some b" "b AND push_bit (7 - bp) 1 = 0"
    using bit_of_byte [OF l(1) assms(2)] i by auto
  have s: "index + (bp + 1) div 8 = (?g + 1) div 8" "(bp + 1) mod 8 = (?g + 1) mod 8" by simp_all
  show ?case using l(2) b unfolding modulo_loop.simps [of pbuffer len index bp] s Let_def by simp
next
  case (Suc k)
  let ?g = "8 * index + bp" and ?B = "bytes_bits (take len pbuffer)"
  have g: "?g + 2 < length ?B" using arg_cong [OF Suc.prems(2), of length] assms(3) by (cases xs) auto
  then have l: "?g < 8 * len" "(?g + 1) div 8 < len" using assms(2) by auto
  have i: "?g div 8 = index" "?g mod 8 = bp" using Suc.prems(1) by simp_all
  have "?B ! ?g = hd (drop ?g ?B)" using g by (simp add: hd_drop_conv_nth)
  then have "?B ! ?g" using Suc.prems(2) by simp
  then obtain b where b: "mem_at pbuffer index = Some b" "b AND push_bit (7 - bp) 1 \<noteq> 0"
    using bit_of_byte [OF l(1) assms(2)] i by auto
  have s: "index + (bp + 1) div 8 = (?g + 1) div 8" "(bp + 1) mod 8 = (?g + 1) mod 8" by simp_all
  have n: "8 * ((?g + 1) div 8) + (?g + 1) mod 8 = ?g + 1" by (rule mult_div_mod_eq)
  have "drop (?g + 1) ?B = tl (drop ?g ?B)" by (simp add: drop_Suc tl_drop)
  then have "drop (8 * ((?g + 1) div 8) + (?g + 1) mod 8) ?B = replicate k True @ False # xs"
    unfolding n using Suc.prems(2) by simp
  from Suc.IH [OF _ this] have "modulo_loop pbuffer len ((?g + 1) div 8) ((?g + 1) mod 8) =
      Some (Some ((?g + Suc k + 1) div 8, (?g + Suc k + 1) mod 8))" unfolding n by simp
  then show ?case using l(2) b unfolding modulo_loop.simps [of pbuffer len index bp] s Let_def by simp
qed

lemma div_mod_carry: "a div 8 + (a mod 8 + x) div 8 = (a + x) div 8" "(a mod 8 + x) mod 8 = (a + x) mod 8"
  for a x :: nat
  by (simp_all add: mod_simps div_add1_eq [of a x] div_add1_eq [of "a mod 8" x])

text \<open>
  The test for a VOP that is not coded: on a VOP header in the syntax, with a time increment
  of as many bits as \<open>vop_time_resolution - 1\<close> has, it returns whether the coded flag is clear.
\<close>
theorem is_notcodec_vop_decodes:
  assumes "vop_time_found m" "take 4 pbuffer = [0, 0, 1, 0xB6]" "5 \<le> len" "len \<le> length pbuffer"
    and "bytes_bits (drop 4 (take len pbuffer)) = vop_bits coding_type k increment coded @ rest"
    and "length coding_type = 2" "length increment = count_bits (unat (vop_time_resolution m - 1))"
  shows "is_notcodec_vop pbuffer len m = Some (\<not> coded)"
proof -
  let ?B = "bytes_bits (take len pbuffer)" and ?vb = "length increment"
  have d32: "drop 32 ?B = vop_bits coding_type k increment coded @ rest"
    using drop_bytes_bits [of 4 "take len pbuffer"] assms(5) by simp
  then have "drop 2 (drop 32 ?B) = replicate k True @ False # True # increment @ [True, coded] @ rest"
    using assms(6) by (simp add: vop_bits_def)
  then have d: "drop (8 * 4 + 2) ?B = replicate k True @ False # True # increment @ [True, coded] @ rest" by simp
  define g where "g = 8 * 4 + 2 + k + 1"
  have loop: "modulo_loop pbuffer len 4 2 = Some (Some (g div 8, g mod 8))"
    using modulo_loop_ones [OF _ assms(4) _ d] by (simp add: g_def)
  define h where "h = g + 1 + ?vb + 1"
  have "drop h ?B = drop (k + 3 + ?vb) (drop (8 * 4 + 2) ?B)" by (simp add: h_def g_def ac_simps)
  also have "\<dots> = coded # rest" unfolding d by (simp add: eval_nat_numeral)
  finally have h: "drop h ?B = coded # rest" .
  then have "h < length ?B" by (metis drop_all list.distinct(1) not_le)
  then have l: "h < 8 * len" using assms(4) by simp
  have "?B ! h = coded" using h \<open>h < length ?B\<close> by (metis hd_drop_conv_nth list.sel(1))
  then obtain b where b: "mem_at pbuffer (h div 8) = Some b" "(b AND push_bit (7 - h mod 8) 1 = 0) \<longleftrightarrow> \<not> coded"
    using bit_of_byte [OF l assms(4)] by auto
  have s: "g div 8 + (g mod 8 + 1 + ?vb + 1) div 8 = h div 8" "(g mod 8 + 1 + ?vb + 1) mod 8 = h mod 8"
    using div_mod_carry [of g "?vb + 2"] by (simp_all add: h_def)
  have "h div 8 < len" using l by simp
  then show ?thesis
    using assms(1-4) b
    unfolding is_notcodec_vop_def assms(7) [symmetric] by (simp add: loop Let_def s [simplified])
qed

theorem is_notcodec_vop_decodes_witness:
  "is_notcodec_vop [0, 0, 1, 0xB6, 0x53, 0xD0] 6 (new_mp4_utils\<lparr>vop_time_resolution := 30, vop_time_found := True\<rparr>) = Some True"
proof -
  let ?m = "new_mp4_utils\<lparr>vop_time_resolution := 30, vop_time_found := True\<rparr>"
  have "count_bits (unat (vop_time_resolution ?m - 1)) = 5" by (simp add: count_bits.simps)
  then have "is_notcodec_vop [0, 0, 1, 0xB6, 0x53, 0xD0] 6 ?m = Some (\<not> False)"
    by (intro is_notcodec_vop_decodes [where coding_type = "[False, True]" and k = "0" and
          increment = "[False, False, True, True, True]" and coded = False and rest = "[True, False, False, False, False]"])
      (simp_all add: vop_bits_def byte_bits_def bits_of_numeral replicate_numeral)
  then show ?thesis by simp
qed

end
