(* ===== verification/Queues.thy ===== *)
theory Queues
  imports Prelude "HOL-Library.Monad_Syntax" "HOL-Library.Multiset"
begin

text \<open>
  The queues of the video components: the fixed ring \<open>omx_cmd_queue\<close> of vdec/src/omx_vdec.cpp,
  the two rings behind one semaphore of vdec/src/message_queue.c and the linked list of
  vdec/src/queue.c. The command ring meets the contract of a
  queue, the locale \<open>fifo\<close>; the linked list, whose operations can also fault, is a refinement of a
  list in which a fault is a result of its own.
\<close>

section \<open>The contract\<close>

text \<open>\<open>cap q\<close> is the capacity, \<open>None\<close> when there is no bound.\<close>

locale fifo =
  fixes put :: "'e \<Rightarrow> 'q \<Rightarrow> 'q option"
    and get :: "'q \<Rightarrow> ('e \<times> 'q) option"
    and abs :: "'q \<Rightarrow> 'e list"
    and inv :: "'q \<Rightarrow> bool"
    and cap :: "'q \<Rightarrow> nat option"
  assumes put_room: "inv q \<Longrightarrow> (\<And>n. cap q = Some n \<Longrightarrow> length (abs q) < n) \<Longrightarrow>
      \<exists>q'. put e q = Some q' \<and> abs q' = abs q @ [e] \<and> inv q' \<and> cap q' = cap q"
    and put_full: "inv q \<Longrightarrow> cap q = Some n \<Longrightarrow> n \<le> length (abs q) \<Longrightarrow> put e q = None"
    and get_first: "inv q \<Longrightarrow> abs q = e # es \<Longrightarrow>
      \<exists>q'. get q = Some (e, q') \<and> abs q' = es \<and> inv q' \<and> cap q' = cap q"
    and get_none: "inv q \<Longrightarrow> abs q = [] \<Longrightarrow> get q = None"
begin

text \<open>A run of operations: \<open>Some e\<close> puts, \<open>None\<close> gets; the results of the gets and the refused puts.\<close>

fun run :: "'e option list \<Rightarrow> 'q \<Rightarrow> ('e option list \<times> 'e list \<times> 'q)" where
  "run [] q = ([], [], q)"
| "run (Some e # os) q = (case put e q of
     None \<Rightarrow> (case run os q of (gs, rs, q') \<Rightarrow> (gs, e # rs, q'))
   | Some q1 \<Rightarrow> run os q1)"
| "run (None # os) q = (case get q of
     None \<Rightarrow> (case run os q of (gs, rs, q') \<Rightarrow> (None # gs, rs, q'))
   | Some (e, q1) \<Rightarrow> (case run os q1 of (gs, rs, q') \<Rightarrow> (Some e # gs, rs, q')))"

fun spec_run :: "nat option \<Rightarrow> 'e option list \<Rightarrow> 'e list \<Rightarrow> ('e option list \<times> 'e list \<times> 'e list)" where
  "spec_run c [] xs = ([], [], xs)"
| "spec_run c (Some e # os) xs =
     (if (case c of None \<Rightarrow> False | Some n \<Rightarrow> n \<le> length xs)
      then (case spec_run c os xs of (gs, rs, ys) \<Rightarrow> (gs, e # rs, ys))
      else spec_run c os (xs @ [e]))"
| "spec_run c (None # os) [] = (case spec_run c os [] of (gs, rs, ys) \<Rightarrow> (None # gs, rs, ys))"
| "spec_run c (None # os) (x # xs) = (case spec_run c os xs of (gs, rs, ys) \<Rightarrow> (Some x # gs, rs, ys))"

theorem run_refines:
  assumes "inv q" "run os q = (gs, rs, q')"
  shows "spec_run (cap q) os (abs q) = (gs, rs, abs q') \<and> inv q' \<and> cap q' = cap q"
  using assms
proof (induction os q arbitrary: gs rs q' rule: run.induct)
  case (1 q)
  then show ?case by simp
next
  case (2 e os q)
  show ?case
  proof (cases "put e q")
    case None
    then have full: "\<exists>n. cap q = Some n \<and> n \<le> length (abs q)"
      using put_room [OF 2(3)] by (metis not_le option.distinct(1))
    obtain rs1 where r: "run os q = (gs, rs1, q')" "rs = e # rs1"
      using 2(4) None by (cases "run os q") auto
    from 2(1) [OF None 2(3) r(1)] show ?thesis using full r(2) by auto
  next
    case (Some q1)
    then have free: "\<And>n. cap q = Some n \<Longrightarrow> length (abs q) < n"
      using put_full [OF 2(3)] by (metis not_le option.distinct(1))
    then have q1: "abs q1 = abs q @ [e]" "inv q1" "cap q1 = cap q"
      using put_room [OF 2(3)] Some by (metis option.inject)+
    have "run os q1 = (gs, rs, q')" using 2(4) Some by simp
    from 2(2) [OF Some q1(2) this] show ?thesis using free q1 by (auto split: option.splits dest: leD)
  qed
next
  case (3 os q)
  show ?case
  proof (cases "abs q")
    case Nil
    then have g: "get q = None" using get_none [OF 3(3)] by simp
    obtain gs1 where r: "run os q = (gs1, rs, q')" "gs = None # gs1"
      using 3(4) g by (cases "run os q") auto
    from 3(1) [OF g 3(3) r(1)] show ?thesis using Nil r(2) by auto
  next
    case (Cons e es)
    then obtain q1 where q1: "get q = Some (e, q1)" "abs q1 = es" "inv q1" "cap q1 = cap q"
      using get_first [OF 3(3)] by blast
    obtain gs1 where r: "run os q1 = (gs1, rs, q')" "gs = Some e # gs1"
      using 3(4) q1(1) by (cases "run os q1") auto
    from 3(2) [OF q1(1) refl q1(3) r(1)] show ?thesis using Cons q1 r(2) by auto
  qed
qed

lemma put_SomeD: "inv q \<Longrightarrow> put e q = Some q' \<Longrightarrow> abs q' = abs q @ [e] \<and> inv q' \<and> cap q' = cap q"
  using put_room [of q e] put_full [of q _ e] by (metis not_le option.distinct(1) option.inject)

lemma get_SomeD:
  assumes "inv q" "get q = Some (e, q')"
  shows "abs q = e # abs q' \<and> inv q' \<and> cap q' = cap q"
proof (cases "abs q")
  case Nil
  then show ?thesis using get_none [OF assms(1)] assms(2) by simp
next
  case (Cons a as)
  then show ?thesis using get_first [OF assms(1) Cons] assms(2) by auto
qed

lemma get_None_iff: "inv q \<Longrightarrow> get q = None \<longleftrightarrow> abs q = []"
  using get_none [of q] get_first [of q] by (cases "abs q") (auto simp del: not_None_eq)

end

section \<open>Rings\<close>

text \<open>The \<open>n\<close> entries of a ring from index \<open>r\<close> on.\<close>

definition ring :: "'e list \<Rightarrow> nat \<Rightarrow> nat \<Rightarrow> 'e list" where
  "ring xs r n = map (\<lambda>i. xs ! ((r + i) mod length xs)) [0..<n]"

lemma length_ring [simp]: "length (ring xs r n) = n"
  by (simp add: ring_def)

lemma ring_0 [simp]: "ring xs r 0 = []"
  by (simp add: ring_def)

lemma mod_inj: "i < m \<Longrightarrow> j < m \<Longrightarrow> (r + i) mod m = (r + j) mod m \<Longrightarrow> i = j" for i j m r :: nat
proof -
  assume ij: "i < m" "j < m" and e: "(r + i) mod m = (r + j) mod m"
  from e obtain p q where "r + i + m * p = r + j + m * q" unfolding nat_mod_eq_iff by blast
  then have "(i + m * p) mod m = (j + m * q) mod m" by simp
  then show "i = j" using ij by simp
qed

lemma ring_put:
  assumes "n < length xs"
  shows "ring (xs[(r + n) mod length xs := e]) r (Suc n) = ring xs r n @ [e]"
proof -
  have "(r + n) mod length xs \<noteq> (r + i) mod length xs" if "i < n" for i
    using mod_inj [of i "length xs" n r] that assms by auto
  moreover have "(r + n) mod length xs < length xs" by (rule mod_less_divisor) (use assms in linarith)
  ultimately show ?thesis by (auto simp: ring_def nth_list_update)
qed

lemma ring_get:
  assumes "r < length xs"
  shows "ring xs r (Suc n) = xs ! r # ring xs ((r + 1) mod length xs) n"
proof -
  have "[0..<Suc n] = 0 # map Suc [0..<n]" by (simp add: upt_conv_Cons map_Suc_upt)
  moreover have "(r + Suc i) mod length xs = ((r + 1) mod length xs + i) mod length xs" for i
    by (simp add: mod_simps)
  ultimately show ?thesis using assms by (simp add: ring_def del: upt_Suc)
qed

lemma ring_update_other:
  assumes "r < length xs" "n < length xs" "k < length xs" "\<And>i. i < n \<Longrightarrow> k \<noteq> (r + i) mod length xs"
  shows "ring (xs[k := e]) r n = ring xs r n"
  using assms(4) by (auto simp: ring_def nth_list_update)

section \<open>The command queue of the decoder component\<close>

record 'e omx_cmd_queue =
  m_q :: "'e list"
  m_read :: nat
  m_write :: nat
  m_size :: nat

definition OMX_CORE_CONTROL_CMDQ_SIZE :: nat where
  "OMX_CORE_CONTROL_CMDQ_SIZE = 100"

definition new_cmd_queue :: "'e \<Rightarrow> 'e omx_cmd_queue" where
  "new_cmd_queue zero = \<lparr>m_q = replicate OMX_CORE_CONTROL_CMDQ_SIZE zero, m_read = 0, m_write = 0, m_size = 0\<rparr>"

text \<open>\<open>None\<close> is the return value false, with the queue unchanged.\<close>

definition insert_entry :: "'e \<Rightarrow> 'e omx_cmd_queue \<Rightarrow> 'e omx_cmd_queue option" where
  "insert_entry e q =
     (if m_size q < OMX_CORE_CONTROL_CMDQ_SIZE then
        let w = m_write q + 1
        in Some (q\<lparr>m_q := (m_q q)[m_write q := e], m_size := m_size q + 1,
                  m_write := if w \<ge> OMX_CORE_CONTROL_CMDQ_SIZE then 0 else w\<rparr>)
      else None)"

definition pop_entry :: "'e omx_cmd_queue \<Rightarrow> ('e \<times> 'e omx_cmd_queue) option" where
  "pop_entry q =
     (if m_size q > 0 then
        let r = m_read q + 1
        in Some (m_q q ! m_read q, q\<lparr>m_size := m_size q - 1,
                  m_read := if r \<ge> OMX_CORE_CONTROL_CMDQ_SIZE then 0 else r\<rparr>)
      else None)"

definition get_q_msg_type :: "('e \<Rightarrow> 'i) \<Rightarrow> 'e omx_cmd_queue \<Rightarrow> 'i" where
  "get_q_msg_type ident q = ident (m_q q ! m_read q)"

definition cmd_queue_ok :: "'e omx_cmd_queue \<Rightarrow> bool" where
  "cmd_queue_ok q \<longleftrightarrow> length (m_q q) = OMX_CORE_CONTROL_CMDQ_SIZE \<and> m_read q < OMX_CORE_CONTROL_CMDQ_SIZE
     \<and> m_size q \<le> OMX_CORE_CONTROL_CMDQ_SIZE \<and> m_write q = (m_read q + m_size q) mod OMX_CORE_CONTROL_CMDQ_SIZE"

definition entries :: "'e omx_cmd_queue \<Rightarrow> 'e list" where
  "entries q = ring (m_q q) (m_read q) (m_size q)"

lemma cmdq_size_pos: "0 < OMX_CORE_CONTROL_CMDQ_SIZE"
  by (simp add: OMX_CORE_CONTROL_CMDQ_SIZE_def)

lemma wrap_mod: "w < n \<Longrightarrow> (if n \<le> Suc w then 0 else Suc w) = Suc w mod n"
  by (cases "Suc w = n") auto

lemma new_cmd_queue_ok [simp]: "cmd_queue_ok (new_cmd_queue z)" "entries (new_cmd_queue z) = []"
  by (simp_all add: cmd_queue_ok_def new_cmd_queue_def entries_def OMX_CORE_CONTROL_CMDQ_SIZE_def)

lemma length_entries [simp]: "length (entries q) = m_size q"
  by (simp add: entries_def)

lemma insert_entry_eq:
  "m_write q < OMX_CORE_CONTROL_CMDQ_SIZE \<Longrightarrow> m_size q < OMX_CORE_CONTROL_CMDQ_SIZE \<Longrightarrow>
   insert_entry e q = Some (q\<lparr>m_q := (m_q q)[m_write q := e], m_size := Suc (m_size q),
     m_write := Suc (m_write q) mod OMX_CORE_CONTROL_CMDQ_SIZE\<rparr>)"
  by (simp add: insert_entry_def Let_def wrap_mod)

lemma pop_entry_eq:
  "m_read q < OMX_CORE_CONTROL_CMDQ_SIZE \<Longrightarrow> m_size q = Suc n \<Longrightarrow>
   pop_entry q = Some (m_q q ! m_read q, q\<lparr>m_size := n, m_read := Suc (m_read q) mod OMX_CORE_CONTROL_CMDQ_SIZE\<rparr>)"
  by (simp add: pop_entry_def Let_def wrap_mod)

lemma insert_entry_spec:
  assumes "cmd_queue_ok q" "m_size q < OMX_CORE_CONTROL_CMDQ_SIZE"
  shows "\<exists>q'. insert_entry e q = Some q' \<and> entries q' = entries q @ [e] \<and> cmd_queue_ok q'"
proof -
  let ?N = OMX_CORE_CONTROL_CMDQ_SIZE
  have ok: "length (m_q q) = ?N" "m_read q < ?N" "m_write q = (m_read q + m_size q) mod ?N"
    using assms(1) by (auto simp: cmd_queue_ok_def)
  have w: "m_write q < ?N" unfolding ok(3) by (rule mod_less_divisor [OF cmdq_size_pos])
  have "Suc (m_write q) mod ?N = (m_read q + Suc (m_size q)) mod ?N" unfolding ok(3) by (simp add: mod_simps)
  moreover have "ring ((m_q q)[m_write q := e]) (m_read q) (Suc (m_size q)) = entries q @ [e]"
    using ring_put [of "m_size q" "m_q q" "m_read q" e] assms(2) ok by (simp add: entries_def)
  ultimately show ?thesis
    using assms(2) ok(1,2) by (simp add: insert_entry_eq [OF w assms(2)] entries_def cmd_queue_ok_def)
qed

lemma pop_entry_spec:
  assumes "cmd_queue_ok q" "entries q = e # es"
  shows "\<exists>q'. pop_entry q = Some (e, q') \<and> entries q' = es \<and> cmd_queue_ok q'"
proof -
  let ?N = OMX_CORE_CONTROL_CMDQ_SIZE
  have ok: "length (m_q q) = ?N" "m_read q < ?N" "m_write q = (m_read q + m_size q) mod ?N" "m_size q \<le> ?N"
    using assms(1) by (auto simp: cmd_queue_ok_def)
  obtain n where n: "m_size q = Suc n" using arg_cong [OF assms(2), of length] by (cases "m_size q") auto
  have "m_q q ! m_read q = e" "ring (m_q q) (Suc (m_read q) mod ?N) n = es"
    using assms(2) ring_get [of "m_read q" "m_q q" n] ok by (simp_all add: entries_def n)
  moreover have "(m_read q + Suc n) mod ?N = (Suc (m_read q) mod ?N + n) mod ?N" by (simp add: mod_simps)
  moreover have "Suc (m_read q) mod ?N < ?N" by (rule mod_less_divisor [OF cmdq_size_pos])
  ultimately show ?thesis
    using ok(1,3,4) n by (simp add: pop_entry_eq [OF ok(2) n] entries_def cmd_queue_ok_def)
qed

interpretation cmdq: fifo insert_entry pop_entry entries cmd_queue_ok "\<lambda>_. Some OMX_CORE_CONTROL_CMDQ_SIZE"
proof
  show "\<exists>q'. insert_entry e q = Some q' \<and> entries q' = entries q @ [e] \<and> cmd_queue_ok q' \<and>
      Some OMX_CORE_CONTROL_CMDQ_SIZE = Some OMX_CORE_CONTROL_CMDQ_SIZE"
    if "cmd_queue_ok q" "\<And>n. Some OMX_CORE_CONTROL_CMDQ_SIZE = Some n \<Longrightarrow> length (entries q) < n"
    for q :: "'a omx_cmd_queue" and e
    using insert_entry_spec [OF that(1), of e] that(2) by simp
  show "insert_entry e q = None"
    if "cmd_queue_ok q" "Some OMX_CORE_CONTROL_CMDQ_SIZE = Some n" "n \<le> length (entries q)"
    for q :: "'a omx_cmd_queue" and e n
    using that by (simp add: insert_entry_def)
  show "\<exists>q'. pop_entry q = Some (e, q') \<and> entries q' = es \<and> cmd_queue_ok q' \<and>
      Some OMX_CORE_CONTROL_CMDQ_SIZE = Some OMX_CORE_CONTROL_CMDQ_SIZE"
    if "cmd_queue_ok q" "entries q = e # es" for q :: "'a omx_cmd_queue" and e es
    using pop_entry_spec [OF that] by simp
  show "pop_entry q = None" if "cmd_queue_ok q" "entries q = []" for q :: "'a omx_cmd_queue"
    using arg_cong [OF that(2), of length] by (simp add: pop_entry_def)
qed

text \<open>
  C27. From its construction on, the command queue of the component is a queue of at most 100
  entries: any run of insertions and removals returns what the list of its contents says, and an
  insertion is refused exactly when 100 entries are waiting.
\<close>
theorem cmd_queue_refines:
  "cmdq.spec_run (Some OMX_CORE_CONTROL_CMDQ_SIZE) os [] =
     (case cmdq.run os (new_cmd_queue z) of (gs, rs, q) \<Rightarrow> (gs, rs, entries q))"
proof -
  obtain gs rs q where r: "cmdq.run os (new_cmd_queue z) = (gs, rs, q)" by (cases "cmdq.run os (new_cmd_queue z)") auto
  show ?thesis using cmdq.run_refines [OF new_cmd_queue_ok(1) r] r by simp
qed

section \<open>Commands before data: the message queue\<close>

text \<open>
  A null context or item is \<open>None\<close>. \<open>queue_get_cmd\<close> returns a pointer into one of the arrays;
  its outer \<open>None\<close> is a caller that waits on the semaphore. The mutex makes each call one step.
\<close>

datatype msg_slot = CmdSlot nat | DataSlot nat

record 'e video_queue_context =
  sem_message :: nat
  commandq_size :: nat
  dataq_size :: nat
  ptr_dataq :: "'e list"
  ptr_cmdq :: "'e list"
  write_dataq :: nat
  read_dataq :: nat
  write_comq :: nat
  read_comq :: nat

definition check_if_queue_empty :: "nat \<Rightarrow> 'e video_queue_context option \<Rightarrow> int" where
  "check_if_queue_empty queuetocheck queuecontext =
     (case queuecontext of
        None \<Rightarrow> 1
      | Some q \<Rightarrow>
          if queuetocheck > 1 then 1
          else if queuetocheck = 0 then (if read_comq q = write_comq q then 1 else 0)
          else if write_dataq q = read_dataq q then 1 else 0)"

definition queue_get_cmd ::
  "'e video_queue_context option \<Rightarrow> (msg_slot option \<times> 'e video_queue_context option) option" where
  "queue_get_cmd queuecontext =
     (case queuecontext of
        None \<Rightarrow> Some (None, None)
      | Some q \<Rightarrow>
          if sem_message q = 0 then None
          else let q = q\<lparr>sem_message := sem_message q - 1\<rparr>
               in Some (if read_comq q \<noteq> write_comq q
                        then (Some (CmdSlot (read_comq q)),
                              Some (q\<lparr>read_comq := (read_comq q + 1) mod commandq_size q\<rparr>))
                        else if write_dataq q \<noteq> read_dataq q
                        then (Some (DataSlot (read_dataq q)),
                              Some (q\<lparr>read_dataq := (read_dataq q + 1) mod dataq_size q\<rparr>))
                        else (None, Some q)))"

definition queue_post_cmdq :: "'e video_queue_context option \<Rightarrow> 'e option \<Rightarrow> int \<times> 'e video_queue_context option" where
  "queue_post_cmdq queuecontext pitem =
     (case (pitem, queuecontext) of
        (Some e, Some q) \<Rightarrow>
          if (write_comq q + 1) mod commandq_size q = read_comq q then (0, Some q)
          else (1, Some (q\<lparr>ptr_cmdq := (ptr_cmdq q)[write_comq q := e],
                           write_comq := (write_comq q + 1) mod commandq_size q,
                           sem_message := sem_message q + 1\<rparr>))
      | _ \<Rightarrow> (- 1, queuecontext))"

definition queue_post_dataq :: "'e video_queue_context option \<Rightarrow> 'e option \<Rightarrow> int \<times> 'e video_queue_context option" where
  "queue_post_dataq queuecontext pitem =
     (case (pitem, queuecontext) of
        (Some e, Some q) \<Rightarrow>
          if (write_dataq q + 1) mod dataq_size q = read_dataq q then (0, Some q)
          else (1, Some (q\<lparr>ptr_dataq := (ptr_dataq q)[write_dataq q := e],
                           write_dataq := (write_dataq q + 1) mod dataq_size q,
                           sem_message := sem_message q + 1\<rparr>))
      | _ \<Rightarrow> (- 1, queuecontext))"

definition slot_item :: "'e video_queue_context \<Rightarrow> msg_slot \<Rightarrow> 'e" where
  "slot_item q s = (case s of CmdSlot i \<Rightarrow> ptr_cmdq q ! i | DataSlot i \<Rightarrow> ptr_dataq q ! i)"

text \<open>The number of entries between two indices of a ring.\<close>

definition between :: "nat \<Rightarrow> nat \<Rightarrow> nat \<Rightarrow> nat" where
  "between n r w = (if r \<le> w then w - r else w + n - r)"

definition commands :: "'e video_queue_context \<Rightarrow> 'e list" where
  "commands q = ring (ptr_cmdq q) (read_comq q) (between (commandq_size q) (read_comq q) (write_comq q))"

definition data_items :: "'e video_queue_context \<Rightarrow> 'e list" where
  "data_items q = ring (ptr_dataq q) (read_dataq q) (between (dataq_size q) (read_dataq q) (write_dataq q))"

definition msg_queue_ok :: "'e video_queue_context \<Rightarrow> bool" where
  "msg_queue_ok q \<longleftrightarrow> length (ptr_cmdq q) = commandq_size q \<and> length (ptr_dataq q) = dataq_size q
     \<and> read_comq q < commandq_size q \<and> write_comq q < commandq_size q
     \<and> read_dataq q < dataq_size q \<and> write_dataq q < dataq_size q
     \<and> sem_message q = length (commands q) + length (data_items q)"

lemma between_0: "r < n \<Longrightarrow> w < n \<Longrightarrow> between n r w = 0 \<longleftrightarrow> r = w"
  by (auto simp: between_def)

lemma between_less: "r < n \<Longrightarrow> w < n \<Longrightarrow> between n r w < n"
  by (auto simp: between_def)

lemma between_write: "r < n \<Longrightarrow> w < n \<Longrightarrow> (r + between n r w) mod n = w"
  by (auto simp: between_def le_mod_geq)

lemma between_put: "r < n \<Longrightarrow> w < n \<Longrightarrow> (w + 1) mod n \<noteq> r \<Longrightarrow> between n r ((w + 1) mod n) = Suc (between n r w)"
  by (cases "w + 1 = n") (auto simp: between_def)

lemma between_get: "r < n \<Longrightarrow> w < n \<Longrightarrow> r \<noteq> w \<Longrightarrow> between n r w = Suc (between n (Suc r mod n) w)"
  by (cases "Suc r = n") (auto simp: between_def)

lemma post_cmdq_spec:
  assumes "msg_queue_ok q"
  shows "\<exists>q'. queue_post_cmdq (Some q) (Some e) =
      (if length (commands q) + 1 < commandq_size q then 1 else 0, Some q') \<and> msg_queue_ok q' \<and>
    commands q' = (if length (commands q) + 1 < commandq_size q then commands q @ [e] else commands q) \<and>
    data_items q' = data_items q"
proof -
  let ?n = "commandq_size q" and ?r = "read_comq q" and ?w = "write_comq q"
  have b: "?r < ?n" "?w < ?n" "length (ptr_cmdq q) = ?n" using assms by (auto simp: msg_queue_ok_def)
  have l: "length (commands q) = between ?n ?r ?w" by (simp add: commands_def)
  show ?thesis
  proof (cases "(?w + 1) mod ?n = ?r")
    case True
    have "between ?n ?r ?w + 1 = ?n" using True b by (cases "?w + 1 = ?n") (auto simp: between_def)
    then show ?thesis using True assms l by (simp add: queue_post_cmdq_def)
  next
    case False
    have p: "between ?n ?r ((?w + 1) mod ?n) = Suc (between ?n ?r ?w)" by (rule between_put) (use b False in auto)
    have "between ?n ?r ((?w + 1) mod ?n) < ?n" by (rule between_less) (use b in auto)
    then have m: "length (commands q) + 1 < ?n" using l p by simp
    have "ring ((ptr_cmdq q)[?w := e]) ?r (Suc (between ?n ?r ?w)) = commands q @ [e]"
      using ring_put [of "between ?n ?r ?w" "ptr_cmdq q" ?r e] between_write [OF b(1,2)] between_less [OF b(1,2)] b(3)
      by (simp add: commands_def)
    then show ?thesis
      using False assms m p by (simp add: queue_post_cmdq_def msg_queue_ok_def commands_def data_items_def)
  qed
qed

lemma post_dataq_spec:
  assumes "msg_queue_ok q"
  shows "\<exists>q'. queue_post_dataq (Some q) (Some e) =
      (if length (data_items q) + 1 < dataq_size q then 1 else 0, Some q') \<and> msg_queue_ok q' \<and>
    data_items q' = (if length (data_items q) + 1 < dataq_size q then data_items q @ [e] else data_items q) \<and>
    commands q' = commands q"
proof -
  let ?n = "dataq_size q" and ?r = "read_dataq q" and ?w = "write_dataq q"
  have b: "?r < ?n" "?w < ?n" "length (ptr_dataq q) = ?n" using assms by (auto simp: msg_queue_ok_def)
  have l: "length (data_items q) = between ?n ?r ?w" by (simp add: data_items_def)
  show ?thesis
  proof (cases "(?w + 1) mod ?n = ?r")
    case True
    have "between ?n ?r ?w + 1 = ?n" using True b by (cases "?w + 1 = ?n") (auto simp: between_def)
    then show ?thesis using True assms l by (simp add: queue_post_dataq_def)
  next
    case False
    have p: "between ?n ?r ((?w + 1) mod ?n) = Suc (between ?n ?r ?w)" by (rule between_put) (use b False in auto)
    have "between ?n ?r ((?w + 1) mod ?n) < ?n" by (rule between_less) (use b in auto)
    then have m: "length (data_items q) + 1 < ?n" using l p by simp
    have "ring ((ptr_dataq q)[?w := e]) ?r (Suc (between ?n ?r ?w)) = data_items q @ [e]"
      using ring_put [of "between ?n ?r ?w" "ptr_dataq q" ?r e] between_write [OF b(1,2)] between_less [OF b(1,2)] b(3)
      by (simp add: data_items_def)
    then show ?thesis
      using False assms m p by (simp add: queue_post_dataq_def msg_queue_ok_def commands_def data_items_def)
  qed
qed

text \<open>The oldest command is returned, the oldest data item when there is no command.\<close>

lemma get_cmd_spec:
  assumes "msg_queue_ok q" "commands q @ data_items q = e # es"
  shows "\<exists>s q'. queue_get_cmd (Some q) = Some (Some s, Some q') \<and> slot_item q' s = e \<and> msg_queue_ok q' \<and>
    commands q' = tl (commands q) \<and> data_items q' = (if commands q = [] then tl (data_items q) else data_items q)"
proof -
  have b: "read_comq q < commandq_size q" "write_comq q < commandq_size q" "length (ptr_cmdq q) = commandq_size q"
    "read_dataq q < dataq_size q" "write_dataq q < dataq_size q" "length (ptr_dataq q) = dataq_size q"
    "sem_message q = length (commands q) + length (data_items q)" using assms(1) by (auto simp: msg_queue_ok_def)
  have sem: "sem_message q > 0" using b(7) arg_cong [OF assms(2), of length] by simp
  show ?thesis
  proof (cases "read_comq q = write_comq q")
    case False
    define n where "n = between (commandq_size q) (Suc (read_comq q) mod commandq_size q) (write_comq q)"
    have n: "between (commandq_size q) (read_comq q) (write_comq q) = Suc n"
      unfolding n_def by (rule between_get) (use b False in auto)
    have c: "commands q = ptr_cmdq q ! read_comq q # ring (ptr_cmdq q) ((read_comq q + 1) mod commandq_size q) n"
      using ring_get [of "read_comq q" "ptr_cmdq q" n] b by (simp add: commands_def n)
    show ?thesis
      using False sem b c assms(2)
      by (simp add: queue_get_cmd_def Let_def slot_item_def msg_queue_ok_def commands_def data_items_def n n_def [symmetric])
  next
    case True
    then have c: "commands q = []" by (simp add: commands_def between_def)
    then have "data_items q \<noteq> []" using assms(2) by auto
    then have d: "read_dataq q \<noteq> write_dataq q" by (auto simp: data_items_def between_def)
    define n where "n = between (dataq_size q) (Suc (read_dataq q) mod dataq_size q) (write_dataq q)"
    have n: "between (dataq_size q) (read_dataq q) (write_dataq q) = Suc n"
      unfolding n_def by (rule between_get) (use b d in auto)
    have e: "data_items q = ptr_dataq q ! read_dataq q # ring (ptr_dataq q) ((read_dataq q + 1) mod dataq_size q) n"
      using ring_get [of "read_dataq q" "ptr_dataq q" n] b by (simp add: data_items_def n)
    show ?thesis
      using True d sem b c e assms(2)
      by (simp add: queue_get_cmd_def Let_def slot_item_def msg_queue_ok_def commands_def data_items_def n n_def [symmetric])
  qed
qed

lemma get_cmd_waits:
  "msg_queue_ok q \<Longrightarrow> commands q = [] \<Longrightarrow> data_items q = [] \<Longrightarrow> queue_get_cmd (Some q) = None"
  by (simp add: queue_get_cmd_def msg_queue_ok_def)

text \<open>Posts by the other side, commands for \<open>True\<close>.\<close>

definition post :: "bool \<times> 'e \<Rightarrow> 'e video_queue_context \<Rightarrow> 'e video_queue_context" where
  "post p q = the (snd ((if fst p then queue_post_cmdq else queue_post_dataq) (Some q) (Some (snd p))))"

definition held :: "'e video_queue_context \<Rightarrow> msg_slot \<Rightarrow> bool" where
  "held q s = (case s of
     CmdSlot i \<Rightarrow> i = (read_comq q + (commandq_size q - 1)) mod commandq_size q
   | DataSlot i \<Rightarrow> i = (read_dataq q + (dataq_size q - 1)) mod dataq_size q)"

lemma gap_not_written:
  fixes r n w :: nat
  assumes "r < n" "w < n" "(w + 1) mod n \<noteq> r"
  shows "(r + (n - 1)) mod n \<noteq> w"
proof
  assume e: "(r + (n - 1)) mod n = w"
  have "(w + 1) mod n = (r + (n - 1) + 1) mod n" unfolding e [symmetric] by (rule mod_add_left_eq)
  also have "r + (n - 1) + 1 = r + n" using assms(1) by simp
  finally show False using assms(1,3) by simp
qed

lemma post_held:
  assumes "msg_queue_ok q" "held q s"
  shows "msg_queue_ok (post p q) \<and> held (post p q) s \<and> slot_item (post p q) s = slot_item q s"
proof -
  have b: "read_comq q < commandq_size q" "write_comq q < commandq_size q"
    "read_dataq q < dataq_size q" "write_dataq q < dataq_size q" using assms(1) by (auto simp: msg_queue_ok_def)
  have g: "(write_comq q + 1) mod commandq_size q \<noteq> read_comq q \<Longrightarrow>
      (read_comq q + (commandq_size q - 1)) mod commandq_size q \<noteq> write_comq q"
    "(write_dataq q + 1) mod dataq_size q \<noteq> read_dataq q \<Longrightarrow>
      (read_dataq q + (dataq_size q - 1)) mod dataq_size q \<noteq> write_dataq q"
    using gap_not_written [OF b(1,2)] gap_not_written [OF b(3,4)] by auto
  obtain c e where p: "p = (c, e)" by fastforce
  have ok: "msg_queue_ok (post p q)"
    using post_cmdq_spec [OF assms(1), of e] post_dataq_spec [OF assms(1), of e] by (auto simp: post_def p)
  have "held (post p q) s \<and> slot_item (post p q) s = slot_item q s"
    using assms(2) g
    by (cases s) (auto simp: post_def p held_def slot_item_def queue_post_cmdq_def queue_post_dataq_def)
  then show ?thesis using ok by blast
qed

lemma get_held:
  assumes "msg_queue_ok q" "queue_get_cmd (Some q) = Some (Some s, Some q1)"
  shows "held q1 s"
proof -
  have b: "read_comq q < commandq_size q" "read_dataq q < dataq_size q" using assms(1) by (auto simp: msg_queue_ok_def)
  have m: "r = ((r + 1) mod n + (n - 1)) mod n" if "r < n" for r n :: nat
  proof -
    have "((r + 1) mod n + (n - 1)) mod n = (r + 1 + (n - 1)) mod n" by (simp add: mod_simps)
    also have "r + 1 + (n - 1) = r + n" using that by simp
    finally show ?thesis using that by simp
  qed
  show ?thesis
    using assms(2) m [OF b(1)] m [OF b(2)]
    by (auto simp: queue_get_cmd_def held_def Let_def split: if_splits)
qed

text \<open>
  The message queue: a reader gets the oldest command, the oldest data item when there is no
  command, and waits when there is neither; the item behind the returned pointer stays as it is
  while any number of posts follow, until the next read.
\<close>
theorem queue_get_cmd_item:
  assumes "msg_queue_ok q"
  shows "if commands q @ data_items q = [] then queue_get_cmd (Some q) = None
    else \<exists>s q'. queue_get_cmd (Some q) = Some (Some s, Some q') \<and> msg_queue_ok q' \<and>
      commands q' = tl (commands q) \<and> data_items q' = (if commands q = [] then tl (data_items q) else data_items q) \<and>
      slot_item (fold post ps q') s = hd (commands q @ data_items q)"
proof (cases "commands q @ data_items q")
  case Nil
  then show ?thesis using get_cmd_waits [OF assms] by simp
next
  case (Cons e es)
  obtain s q' where g: "queue_get_cmd (Some q) = Some (Some s, Some q')" "slot_item q' s = e" "msg_queue_ok q'"
    "commands q' = tl (commands q)" "data_items q' = (if commands q = [] then tl (data_items q) else data_items q)"
    using get_cmd_spec [OF assms Cons] by blast
  have "msg_queue_ok r \<Longrightarrow> held r s \<Longrightarrow> slot_item (fold post ps r) s = slot_item r s" for r
    by (induction ps arbitrary: r) (simp_all add: post_held)
  then have "slot_item (fold post ps q') s = e" using g(2,3) get_held [OF assms g(1)] by simp
  then show ?thesis using g Cons by auto
qed

definition sample_msg_queue :: "nat video_queue_context" where
  "sample_msg_queue = \<lparr>sem_message = 3, commandq_size = 3, dataq_size = 2, ptr_dataq = [7, 8], ptr_cmdq = [1, 2, 3],
     write_dataq = 0, read_dataq = 1, write_comq = 1, read_comq = 2\<rparr>"

theorem queue_get_cmd_item_witness:
  "\<exists>s q'. queue_get_cmd (Some sample_msg_queue) = Some (Some s, Some q') \<and>
     slot_item (fold post [(True, 4), (False, 9), (True, 5)] q') s = 3"
proof -
  have c: "commands sample_msg_queue = [3, 1]" "data_items sample_msg_queue = [8]" by code_simp+
  then have "msg_queue_ok sample_msg_queue" by (simp add: msg_queue_ok_def) (simp add: sample_msg_queue_def)
  from queue_get_cmd_item [OF this, of "[(True, 4), (False, 9), (True, 5)]"] c show ?thesis by auto
qed

section \<open>The linked list queue\<close>

text \<open>
  The heap is a list of cells, a freed cell \<open>None\<close>; an allocated node is a new cell at the end.
  The outer \<open>None\<close> is a null or dangling dereference.
\<close>

type_synonym 'e node = "'e \<times> nat option"

record 'e linked_queue =
  node_heap :: "'e node option list"
  lq_head :: "nat option"
  lq_tail :: "nat option"
  current_size :: int

definition alloc_queue :: "'e node option list \<Rightarrow> 'e linked_queue" where
  "alloc_queue h = \<lparr>node_heap = h, lq_head = None, lq_tail = None, current_size = 0\<rparr>"

definition load :: "'e node option list \<Rightarrow> nat option \<Rightarrow> 'e node option" where
  "load h a = (case a of None \<Rightarrow> None | Some i \<Rightarrow> if i < length h then h ! i else None)"

text \<open>\<open>push\<close> with \<open>oom\<close> when the allocation fails.\<close>

definition push :: "bool \<Rightarrow> 'e \<Rightarrow> 'e linked_queue \<Rightarrow> (int \<times> 'e linked_queue) option" where
  "push oom element q =
     (if oom then Some (- 1, q)
      else do {
        let new_node = length (node_heap q);
        let h = node_heap q @ [Some (element, None)];
        q \<leftarrow> (if current_size q = 0 then Some (q\<lparr>node_heap := h, lq_head := Some new_node\<rparr>)
             else do {
               (e, _) \<leftarrow> load h (lq_tail q);
               Some (q\<lparr>node_heap := h[the (lq_tail q) := Some (e, Some new_node)]\<rparr>)
             });
        Some (0, q\<lparr>lq_tail := Some new_node, current_size := current_size q + 1\<rparr>)
      })"

definition pop :: "'e linked_queue \<Rightarrow> ('e option \<times> 'e linked_queue) option" where
  "pop q =
     (if current_size q = 0 then Some (None, q)
      else do {
        (element, nxt) \<leftarrow> load (node_heap q) (lq_head q);
        let q' = (if current_size q = 1 then q\<lparr>lq_head := None, lq_tail := None\<rparr> else q\<lparr>lq_head := nxt\<rparr>);
        Some (Some element, q'\<lparr>node_heap := (node_heap q')[the (lq_head q) := None], current_size := current_size q' - 1\<rparr>)
      })"

text \<open>Freeing the queue pops until it is empty; the elements popped are the ones freed.\<close>

partial_function (option) pop_all :: "'e linked_queue \<Rightarrow> ('e option list \<times> 'e linked_queue) option" where
  "pop_all q =
     (if current_size q = 0 then Some ([], q)
      else do { (e, q) \<leftarrow> pop q; (es, q) \<leftarrow> pop_all q; Some (e # es, q) })"

definition free_queue :: "'e linked_queue \<Rightarrow> 'e linked_queue option" where
  "free_queue q = map_option snd (pop_all q)"

definition free_queue_and_qelement :: "'e linked_queue \<Rightarrow> ('e option list \<times> 'e linked_queue) option" where
  "free_queue_and_qelement q = pop_all q"

text \<open>The cells \<open>as\<close> hold the elements \<open>es\<close> and are linked in this order.\<close>

fun cells :: "'e node option list \<Rightarrow> nat list \<Rightarrow> 'e list \<Rightarrow> bool" where
  "cells h [] [] \<longleftrightarrow> True"
| "cells h (a # as) (e # es) \<longleftrightarrow> a < length h \<and>
     h ! a = Some (e, case as of [] \<Rightarrow> None | b # _ \<Rightarrow> Some b) \<and> cells h as es"
| "cells h _ _ \<longleftrightarrow> False"

definition holds_list :: "'e linked_queue \<Rightarrow> nat list \<Rightarrow> 'e list \<Rightarrow> bool" where
  "holds_list q as es \<longleftrightarrow> cells (node_heap q) as es \<and> distinct as \<and> current_size q = int (length as) \<and>
     (as \<noteq> [] \<longrightarrow> lq_head q = Some (hd as) \<and> lq_tail q = Some (last as))"

lemma cells_length: "cells h as es \<Longrightarrow> length as = length es"
  by (induction h as es rule: cells.induct) auto

lemma cells_bound: "cells h as es \<Longrightarrow> a \<in> set as \<Longrightarrow> a < length h"
  by (induction h as es rule: cells.induct) auto

lemma cells_cong: "cells h as es \<Longrightarrow> length h \<le> length h' \<Longrightarrow> (\<And>a. a \<in> set as \<Longrightarrow> h' ! a = h ! a) \<Longrightarrow> cells h' as es"
  by (induction h as es rule: cells.induct) auto

lemma cells_snoc:
  assumes "cells h as es" "as \<noteq> []" "distinct as" "h ! last as = Some (x, None)" "b < length h'"
    and "length h \<le> length h'" "h' ! b = Some (e, None)" "h' ! last as = Some (x, Some b)"
    and "\<And>a. a \<in> set as \<Longrightarrow> a \<noteq> last as \<Longrightarrow> h' ! a = h ! a"
  shows "cells h' (as @ [b]) (es @ [e])"
  using assms
proof (induction h as es rule: cells.induct)
  case (2 h a as e' es)
  show ?case
  proof (cases as)
    case Nil
    then have "es = []" using 2(2) by (cases es) auto
    then show ?thesis using 2 Nil by auto
  next
    case (Cons c cs)
    then have l: "last (a # as) = last as" "a \<noteq> last as" using 2(4) by auto
    have "cells h' (as @ [b]) (es @ [e])"
      by (rule 2(1)) (use 2 Cons l in auto)
    then show ?thesis using 2(2,7,10) Cons l by auto
  qed
qed auto

lemma cells_last: "cells h as es \<Longrightarrow> as \<noteq> [] \<Longrightarrow> \<exists>x. h ! last as = Some (x, None)"
  by (induction h as es rule: cells.induct) (auto split: list.splits)

lemma push_spec:
  assumes "holds_list q as es"
  shows "\<exists>q'. push False e q = Some (0, q') \<and> holds_list q' (as @ [length (node_heap q)]) (es @ [e])"
proof (cases "as = []")
  case True
  then have "es = []" using assms by (cases es) (auto simp: holds_list_def)
  then show ?thesis using assms True by (auto simp: holds_list_def push_def Let_def nth_append)
next
  case False
  let ?h = "node_heap q" and ?b = "length (node_heap q)"
  have c: "cells ?h as es" "distinct as" "lq_tail q = Some (last as)" "lq_head q = Some (hd as)"
    "current_size q = int (length as)" using assms False by (auto simp: holds_list_def)
  obtain x where x: "?h ! last as = Some (x, None)" using cells_last [OF c(1) False] by blast
  have l: "last as < ?b" using cells_bound [OF c(1)] False by auto
  let ?h' = "(?h @ [Some (e, None)])[last as := Some (x, Some ?b)]"
  have "cells ?h' (as @ [?b]) (es @ [e])"
  proof (rule cells_snoc [OF c(1) False c(2) x])
    fix a
    assume "a \<in> set as" "a \<noteq> last as"
    then show "?h' ! a = ?h ! a" using cells_bound [OF c(1)] by (auto simp: nth_append)
  qed (use l in \<open>auto simp: nth_append\<close>)
  moreover have "?b \<notin> set as" using cells_bound [OF c(1)] by auto
  ultimately show ?thesis
    using c False x l by (auto simp: holds_list_def push_def Let_def load_def nth_append)
qed

lemma pop_spec:
  assumes "holds_list q (a # as) (e # es)"
  shows "\<exists>q'. pop q = Some (Some e, q') \<and> holds_list q' as es"
proof -
  have c: "cells (node_heap q) (a # as) (e # es)" "distinct (a # as)" "lq_head q = Some a"
    "lq_tail q = Some (last (a # as))" "current_size q = int (length (a # as))"
    using assms by (auto simp: holds_list_def)
  have k: "cells ((node_heap q)[a := None]) as es"
    by (rule cells_cong [of "node_heap q"]) (use c in \<open>auto simp: nth_list_update\<close>)
  show ?thesis
  proof (cases as)
    case Nil
    then show ?thesis using c k by (auto simp: pop_def load_def holds_list_def Let_def)
  next
    case (Cons b bs)
    then show ?thesis using c k by (auto simp: pop_def load_def holds_list_def Let_def)
  qed
qed

text \<open>
  The memory of a queue that was created in the heap \<open>h\<close>: the nodes in use are new cells, and apart
  from them the heap is as it was, with every other new cell freed.
\<close>

definition owns :: "'e node option list \<Rightarrow> 'e linked_queue \<Rightarrow> nat list \<Rightarrow> bool" where
  "owns h q as \<longleftrightarrow> (\<forall>a \<in> set as. length h \<le> a) \<and> length h \<le> length (node_heap q) \<and>
     (\<forall>i < length (node_heap q). i \<notin> set as \<longrightarrow> node_heap q ! i = (if i < length h then h ! i else None))"

lemma push_owns:
  assumes "holds_list q as es" "owns h q as" "push False e q = Some (r, q')"
  shows "owns h q' (as @ [length (node_heap q)])"
proof (cases "as = []")
  case True
  then show ?thesis using assms by (auto simp: holds_list_def owns_def push_def Let_def nth_append)
next
  case False
  then have t: "lq_tail q = Some (last as)" "current_size q \<noteq> 0" using assms(1) by (auto simp: holds_list_def)
  have l: "last as \<in> set as" using False by simp
  from assms(3) t obtain x where x: "node_heap q' = (node_heap q @ [Some (e, None)])[last as := x]"
    by (auto simp: push_def Let_def bind_eq_Some_conv)
  then have "node_heap q' ! i = (node_heap q @ [Some (e, None)]) ! i" if "i \<notin> set as" for i
    using l that by (metis nth_list_update_neq)
  moreover have "length (node_heap q') = Suc (length (node_heap q))" using x by simp
  ultimately show ?thesis using assms(2) by (auto simp: owns_def nth_append less_Suc_eq)
qed

lemma pop_owns:
  assumes "holds_list q (a # as) (e # es)" "owns h q (a # as)" "pop q = Some (r, q')"
  shows "owns h q' as"
proof -
  have a: "lq_head q = Some a" "current_size q \<noteq> 0" "a \<notin> set as" using assms(1) by (auto simp: holds_list_def)
  with assms(3) have "node_heap q' = (node_heap q)[a := None]"
    by (auto simp: pop_def Let_def bind_eq_Some_conv split: if_splits)
  moreover have "(node_heap q)[a := None] ! i = (if i = a then None else node_heap q ! i)"
    if "i < length (node_heap q)" for i using that by simp
  ultimately show ?thesis using assms(2) a(3) by (auto simp: owns_def)
qed

text \<open>
  A run of operations; the allocation of a node may fail. A dereference of a null or dangling
  pointer in an operation is a fault of the run. \<open>list_run\<close> is the run of a list.
\<close>

datatype 'e queue_op = Push bool 'e | Pop

fun linked_run :: "'e queue_op list \<Rightarrow> 'e linked_queue \<Rightarrow> (int list \<times> 'e option list \<times> 'e linked_queue) option" where
  "linked_run [] q = Some ([], [], q)"
| "linked_run (Push oom e # ops) q =
     do { (r, q) \<leftarrow> push oom e q; (rs, gs, q) \<leftarrow> linked_run ops q; Some (r # rs, gs, q) }"
| "linked_run (Pop # ops) q =
     do { (g, q) \<leftarrow> pop q; (rs, gs, q) \<leftarrow> linked_run ops q; Some (rs, g # gs, q) }"

fun list_run :: "'e queue_op list \<Rightarrow> 'e list \<Rightarrow> int list \<times> 'e option list \<times> 'e list" where
  "list_run [] xs = ([], [], xs)"
| "list_run (Push oom e # ops) xs =
     (case list_run ops (if oom then xs else xs @ [e]) of (rs, gs, ys) \<Rightarrow> ((if oom then - 1 else 0) # rs, gs, ys))"
| "list_run (Pop # ops) [] = (case list_run ops [] of (rs, gs, ys) \<Rightarrow> (rs, None # gs, ys))"
| "list_run (Pop # ops) (x # xs) = (case list_run ops xs of (rs, gs, ys) \<Rightarrow> (rs, Some x # gs, ys))"

lemma linked_run_refines:
  assumes "holds_list q as es" "owns h q as" "list_run ops es = (rs, gs, ys)"
  shows "\<exists>q' as'. linked_run ops q = Some (rs, gs, q') \<and> holds_list q' as' ys \<and> owns h q' as'"
  using assms
proof (induction ops es arbitrary: q as rs gs ys rule: list_run.induct)
  case (1 xs)
  then show ?case by auto
next
  case (2 oom e ops xs)
  show ?case
  proof (cases oom)
    case True
    obtain rs1 where r: "list_run ops xs = (rs1, gs, ys)" "rs = - 1 # rs1"
      using 2(4) True by (auto split: prod.splits)
    have "list_run ops (if oom then xs else xs @ [e]) = (rs1, gs, ys)" using r True by simp
    from 2(1) [OF _ _ this, of q as] 2(2,3) True r(2) show ?thesis by (auto simp: push_def)
  next
    case False
    obtain rs1 where r: "list_run ops (xs @ [e]) = (rs1, gs, ys)" "rs = 0 # rs1"
      using 2(4) False by (auto split: prod.splits)
    obtain q1 where q1: "push False e q = Some (0, q1)" "holds_list q1 (as @ [length (node_heap q)]) (xs @ [e])"
      using push_spec [OF 2(2)] by blast
    have "list_run ops (if oom then xs else xs @ [e]) = (rs1, gs, ys)" using r False by simp
    from 2(1) [OF _ push_owns [OF 2(2,3) q1(1)] this] q1 False r(2) show ?thesis by auto
  qed
next
  case (3 ops)
  obtain gs1 where r: "list_run ops [] = (rs, gs1, ys)" "gs = None # gs1"
    using 3(4) by (auto split: prod.splits)
  have "as = []" using 3(2) by (cases as) (auto simp: holds_list_def)
  then have "pop q = Some (None, q)" using 3(2) by (simp add: pop_def holds_list_def)
  with 3(1) [OF 3(2,3) r(1)] r(2) show ?case by auto
next
  case (4 ops x xs)
  obtain gs1 where r: "list_run ops xs = (rs, gs1, ys)" "gs = Some x # gs1"
    using 4(4) by (auto split: prod.splits)
  obtain a as1 where as: "as = a # as1" using 4(2) by (cases as) (auto simp: holds_list_def)
  obtain q1 where q1: "pop q = Some (Some x, q1)" "holds_list q1 as1 xs"
    using pop_spec [OF 4(2) [unfolded as]] by blast
  have "owns h q1 as1" by (rule pop_owns [OF 4(2,3) [unfolded as] q1(1)])
  from 4(1) [OF q1(2) this r(1)] q1(1) r(2) show ?case by auto
qed

lemma pop_all_owns:
  "holds_list q as es \<Longrightarrow> owns h q as \<Longrightarrow> \<exists>q'. pop_all q = Some (map Some es, q') \<and> owns h q' []"
proof (induction as arbitrary: q es)
  case Nil
  then have "es = []" by (cases es) (auto simp: holds_list_def)
  then show ?case using Nil by (subst pop_all.simps) (auto simp: holds_list_def)
next
  case (Cons a as)
  then obtain e es' where e: "es = e # es'" by (cases es) (auto simp: holds_list_def)
  obtain q1 where q1: "pop q = Some (Some e, q1)" "holds_list q1 as es'"
    using pop_spec [OF Cons.prems(1) [unfolded e]] by blast
  have "owns h q1 as" by (rule pop_owns [OF Cons.prems(1) [unfolded e] Cons.prems(2) q1(1)])
  moreover have "current_size q \<noteq> 0" using Cons.prems by (auto simp: holds_list_def)
  ultimately show ?case using Cons.IH [OF q1(2)] q1(1) e by (subst pop_all.simps) auto
qed

text \<open>
  C28. No run of pushes and pops on a linked list queue that was created in any heap dereferences a
  null or dangling pointer, also when the queue is empty or no memory is left: \<open>linked_run\<close> has no
  fault. Its results are those of a list, and so are the elements that \<open>free_queue_and_qelement\<close> frees
  at the end, after which every node has been given back and the rest of the heap is untouched.
\<close>
theorem linked_queue_refines:
  "case list_run ops [] of (rs, gs, ys) \<Rightarrow>
     \<exists>q q'. linked_run ops (alloc_queue h) = Some (rs, gs, q) \<and>
       free_queue_and_qelement q = Some (map Some ys, q') \<and>
       node_heap q' = h @ replicate (length (node_heap q') - length h) None"
proof -
  obtain rs gs ys where l: "list_run ops [] = (rs, gs, ys)" by (rule prod_cases3)
  have "holds_list (alloc_queue h) [] []" "owns h (alloc_queue h) []"
    by (simp_all add: holds_list_def owns_def alloc_queue_def)
  from linked_run_refines [OF this l] obtain q as where q: "linked_run ops (alloc_queue h) = Some (rs, gs, q)"
      "holds_list q as ys" "owns h q as" by blast
  obtain q' where q': "pop_all q = Some (map Some ys, q')" "owns h q' []" using pop_all_owns [OF q(2,3)] by blast
  have "node_heap q' = h @ replicate (length (node_heap q') - length h) None"
    using q'(2) by (intro nth_equalityI) (auto simp: owns_def nth_append)
  then show ?thesis using l q(1) q'(1) by (auto simp: free_queue_and_qelement_def)
qed

section \<open>The time stamp array of the decoder component\<close>

record ts_entry =
  ts_value :: int
  valid :: bool

definition MAX_NUM_INPUT_OUTPUT_BUFFERS :: nat where
  "MAX_NUM_INPUT_OUTPUT_BUFFERS = 32"

definition new_ts_arr_list :: "ts_entry list" where
  "new_ts_arr_list = replicate MAX_NUM_INPUT_OUTPUT_BUFFERS \<lparr>ts_value = 0, valid = False\<rparr>"

fun first_invalid :: "ts_entry list \<Rightarrow> nat option" where
  "first_invalid [] = None"
| "first_invalid (e # es) = (if \<not> valid e then Some 0 else map_option Suc (first_invalid es))"

definition insert_ts :: "int \<Rightarrow> ts_entry list \<Rightarrow> bool \<times> ts_entry list" where
  "insert_ts ts l = (case first_invalid l of
     None \<Rightarrow> (False, l)
   | Some idx \<Rightarrow> (True, l[idx := \<lparr>ts_value = ts, valid = True\<rparr>]))"

definition min_step :: "ts_entry list \<Rightarrow> nat \<Rightarrow> (nat \<times> int) option \<Rightarrow> (nat \<times> int) option" where
  "min_step l idx m =
     (if valid (l ! idx) then
        case m of
          None \<Rightarrow> Some (idx, ts_value (l ! idx))
        | Some (_, min_ts) \<Rightarrow> if ts_value (l ! idx) < min_ts then Some (idx, ts_value (l ! idx)) else m
      else m)"

definition pop_min_ts :: "ts_entry list \<Rightarrow> bool \<times> int \<times> ts_entry list" where
  "pop_min_ts l = (case fold (min_step l) [0..<MAX_NUM_INPUT_OUTPUT_BUFFERS] None of
     None \<Rightarrow> (False, 0, l)
   | Some (min_idx, _) \<Rightarrow> (True, ts_value (l ! min_idx), l[min_idx := (l ! min_idx)\<lparr>valid := False\<rparr>]))"

definition reset_ts_list :: "ts_entry list \<Rightarrow> bool \<times> ts_entry list" where
  "reset_ts_list l = (True, map (\<lambda>e. e\<lparr>valid := False\<rparr>) l)"

definition listed :: "ts_entry list \<Rightarrow> int multiset" where
  "listed l = image_mset ts_value (filter_mset valid (mset l))"

lemma in_listed: "x \<in># listed l \<longleftrightarrow> (\<exists>j < length l. valid (l ! j) \<and> ts_value (l ! j) = x)"
  by (auto simp: listed_def in_set_conv_nth image_iff)

lemma listed_update:
  assumes "i < length l"
  shows "listed (l[i := e]) = (if valid e then {#ts_value e#} else {#}) +
    (if valid (l ! i) then listed l - {#ts_value (l ! i)#} else listed l)"
proof -
  have "l ! i \<in># mset l" using assms by simp
  then obtain N where N: "mset l = add_mset (l ! i) N" by (metis insert_DiffM)
  have "mset (l[i := e]) = add_mset e N" using assms N by (simp add: mset_update)
  then show ?thesis by (simp add: listed_def N)
qed

lemma first_invalid_Some: "first_invalid l = Some i \<Longrightarrow> i < length l \<and> \<not> valid (l ! i)"
  by (induction l arbitrary: i) (auto split: if_splits)

lemma first_invalid_None: "first_invalid l = None \<longleftrightarrow> size (listed l) = length l"
proof (induction l)
  case (Cons e l)
  have "size (listed l) \<le> length l"
  proof -
    have "size (filter_mset valid (mset l)) \<le> size (mset l)" by (rule size_mset_mono) simp
    then show ?thesis by (simp add: listed_def)
  qed
  then show ?case using Cons by (auto simp: listed_def)
qed (simp add: listed_def)

lemma min_fold:
  "case fold (min_step l) [0..<n] None of
     None \<Rightarrow> \<forall>j < n. \<not> valid (l ! j)
   | Some (i, m) \<Rightarrow> i < n \<and> valid (l ! i) \<and> m = ts_value (l ! i) \<and>
       (\<forall>j < n. valid (l ! j) \<longrightarrow> m \<le> ts_value (l ! j))"
proof (induction n)
  case (Suc n)
  then show ?case by (auto simp: min_step_def less_Suc_eq split: option.splits)
qed simp

text \<open>
  C29. The time stamp array is a bounded multiset: an insertion adds the time stamp unless all 32
  entries are in use, and \<open>pop_min_ts\<close> removes the smallest one.
\<close>
theorem ts_arr_list_refines:
  assumes "length l = MAX_NUM_INPUT_OUTPUT_BUFFERS"
  shows "(case insert_ts ts l of (ok, l') \<Rightarrow> length l' = length l \<and> (ok \<longleftrightarrow> size (listed l) < MAX_NUM_INPUT_OUTPUT_BUFFERS) \<and>
      listed l' = (if ok then add_mset ts (listed l) else listed l)) \<and>
    (case pop_min_ts l of (ok, x, l') \<Rightarrow> length l' = length l \<and> (ok \<longleftrightarrow> listed l \<noteq> {#}) \<and>
      (if ok then x = Min_mset (listed l) \<and> listed l' = listed l - {#x#} else l' = l))"
proof (rule conjI)
  have le: "size (listed l) \<le> length l"
  proof -
    have "size (filter_mset valid (mset l)) \<le> size (mset l)" by (rule size_mset_mono) simp
    then show ?thesis by (simp add: listed_def)
  qed
  show "case insert_ts ts l of (ok, l') \<Rightarrow> length l' = length l \<and> (ok \<longleftrightarrow> size (listed l) < MAX_NUM_INPUT_OUTPUT_BUFFERS) \<and>
      listed l' = (if ok then add_mset ts (listed l) else listed l)"
  proof (cases "first_invalid l")
    case None
    then show ?thesis using first_invalid_None [of l] assms by (simp add: insert_ts_def)
  next
    case (Some i)
    then have "size (listed l) \<noteq> length l" using first_invalid_None [of l] by simp
    then show ?thesis
      using Some first_invalid_Some [OF Some] le assms by (simp add: insert_ts_def listed_update)
  qed
  show "case pop_min_ts l of (ok, x, l') \<Rightarrow> length l' = length l \<and> (ok \<longleftrightarrow> listed l \<noteq> {#}) \<and>
      (if ok then x = Min_mset (listed l) \<and> listed l' = listed l - {#x#} else l' = l)"
  proof (cases "fold (min_step l) [0..<MAX_NUM_INPUT_OUTPUT_BUFFERS] None")
    case None
    then have "\<forall>j < length l. \<not> valid (l ! j)" using min_fold [where l = l and n = MAX_NUM_INPUT_OUTPUT_BUFFERS] assms by simp
    then have "listed l = {#}" using in_listed [of _ l] by (metis multiset_nonemptyE)
    then show ?thesis using None by (simp add: pop_min_ts_def)
  next
    case (Some p)
    then obtain i m where p: "p = (i, m)" by fastforce
    have i: "i < length l" "valid (l ! i)" "m = ts_value (l ! i)"
      "\<forall>j < length l. valid (l ! j) \<longrightarrow> m \<le> ts_value (l ! j)"
      using min_fold [where l = l and n = MAX_NUM_INPUT_OUTPUT_BUFFERS] Some p assms by auto
    have mem: "ts_value (l ! i) \<in># listed l" using i by (auto simp: in_listed)
    have "Min_mset (listed l) = ts_value (l ! i)"
      by (rule Min_eqI) (use i mem in \<open>auto simp: in_listed\<close>)
    moreover have "listed l \<noteq> {#}" using mem by auto
    ultimately show ?thesis using Some p i(1,2) by (simp add: pop_min_ts_def listed_update)
  qed
qed

theorem ts_arr_list_refines_witness:
  "pop_min_ts (snd (insert_ts 3 (snd (insert_ts 5 new_ts_arr_list)))) =
     (True, 3, snd (snd (pop_min_ts (snd (insert_ts 3 (snd (insert_ts 5 new_ts_arr_list)))))))"
proof -
  let ?a = "snd (insert_ts 5 new_ts_arr_list)"
  let ?b = "snd (insert_ts 3 ?a)"
  have n: "length new_ts_arr_list = MAX_NUM_INPUT_OUTPUT_BUFFERS" "listed new_ts_arr_list = {#}"
    by (simp_all add: new_ts_arr_list_def listed_def)
  have m: "0 < MAX_NUM_INPUT_OUTPUT_BUFFERS" "1 < MAX_NUM_INPUT_OUTPUT_BUFFERS" by (simp_all add: MAX_NUM_INPUT_OUTPUT_BUFFERS_def)
  have a: "length ?a = MAX_NUM_INPUT_OUTPUT_BUFFERS" "listed ?a = {#5#}"
    using ts_arr_list_refines [OF n(1), of 5] n m by (auto split: prod.splits)
  have b: "length ?b = MAX_NUM_INPUT_OUTPUT_BUFFERS" "listed ?b = {#3, 5#}"
    using ts_arr_list_refines [OF a(1), of 3] a m by (auto split: prod.splits)
  show ?thesis using ts_arr_list_refines [OF b(1), of 0] b by (auto split: prod.splits)
qed

end
