(* ===== verification/VdecState.thy ===== *)
theory VdecState
  imports Queues TsReorder PanScan Mp4Utils
begin

text \<open>
  The decoder component \<open>omx_vdec\<close> (vdec/src/omx_vdec.cpp, vdec/inc/omx_vdec.h): its state, its flags
  and counters, the messages its threads exchange, and the steps that return buffers to the client.

  The configuration: frames are handed over whole (\<open>arbitrary_bytes\<close> false), the component allocates
  its buffers (\<open>input_use_buffer\<close>, \<open>output_use_buffer\<close> false), colour conversion, secure mode, smooth
  streaming, demultiplexing and the debug modes are off, all three callbacks are installed, and at
  most 32 buffers are used per port, so that each bit map is one word. The records that
  \<open>handle_extradata\<close> appends behind a frame are not modelled.
\<close>

section \<open>Data\<close>

datatype OMX_STATETYPE = StateInvalid | StateLoaded | StateIdle | StateExecuting | StatePause
  | StateWaitForResources | StateOther nat

datatype OMX_ERRORTYPE = ErrorNone | ErrorInsufficientResources | ErrorBadParameter
  | ErrorNotImplemented | ErrorHardware | ErrorInvalidState | ErrorSameState
  | ErrorIncorrectStateTransition | ErrorIncorrectStateOperation | ErrorBadPortIndex
  | ErrorPortUnpopulated | ErrorUnsupportedSetting | ErrorStreamCorrupt | ErrorNumber nat

datatype port = InputPort | OutputPort | AllPorts | OtherPort nat

text \<open>A command with its parameter; \<open>OtherCommand\<close> holds the two numbers.\<close>

datatype omx_command = StateSet OMX_STATETYPE | Flush port | PortDisable port | PortEnable port
  | OtherCommand nat nat

text \<open>
  The two uses of \<open>OMX_COMPONENT_GENERATE_EVENT\<close>: the completion of a command, and
  \<open>OMX_EventError\<close> with either \<open>OMX_StateInvalid\<close> or an error code.
\<close>

datatype omx_event = CommandComplete omx_command | ErrorStateInvalid | ErrorCode OMX_ERRORTYPE

datatype reconfig_index = ParamPortDefinition | ConfigCommonOutputCrop

datatype vdec_interlaced_format = InterlaceFrameProgressive | InterleaveFrameTopFieldFirst
  | InterleaveFrameBottomFieldFirst

text \<open>A pointer to a buffer header is its index in the array of its port; \<open>None\<close> is null.\<close>

type_synonym header_ptr = "nat option"

datatype vdec_msg =
    GENERATE_EVENT omx_event
  | GENERATE_COMMAND omx_command
  | GENERATE_FTB header_ptr
  | GENERATE_ETB header_ptr
  | GENERATE_EBD header_ptr u32
  | GENERATE_FBD header_ptr u32
  | EVENT_INPUT_FLUSH u32
  | EVENT_OUTPUT_FLUSH u32
  | START_DONE u32
  | PAUSE_DONE u32
  | RESUME_DONE u32
  | STOP_DONE u32
  | HARDWARE_ERROR
  | PORT_RECONFIG reconfig_index
  | EOS_DONE
  | INFO_FIELD_DROPPED int

definition VDEC_S_SUCCESS :: u32 where
  "VDEC_S_SUCCESS = 0x40000000"

definition VDEC_S_EFATAL :: u32 where
  "VDEC_S_EFATAL = 0x40000000 + 2"

definition VDEC_S_INPUT_BITSTREAM_ERR :: u32 where
  "VDEC_S_INPUT_BITSTREAM_ERR = 0x40000000 + 14"

record vdec_allocatorproperty =
  mincount :: nat
  maxcount :: nat
  actualcount :: nat
  buffer_size :: u32
  alignment :: u32

text \<open>The requests to the driver that matter for the control flow, with the header index or value they carry.\<close>

datatype vdec_ioctl =
    CMD_START | CMD_STOP | CMD_PAUSE | CMD_RESUME
  | CMD_FLUSH port
  | DECODE_FRAME nat
  | FILL_OUTPUT_BUFFER nat
  | SET_FRAME_RATE u32
  | SET_BUFFER port nat
  | FREE_BUFFER port nat
  | SET_BUFFER_REQ vdec_allocatorproperty
  | GET_BUFFER_REQ
  | GET_PICRES
  | GET_INTERLACE_FORMAT

text \<open>The answer: failure, or success with what the driver writes for the \<open>GET\<close> requests.\<close>

datatype vdec_reply = Failed | Done | BufferReq vdec_allocatorproperty | PicRes nat nat
  | InterlaceFormat vdec_interlaced_format

text \<open>What the component uses of its platform: the driver, which answers a request from the
  requests made so far, the value of a flag and the sizes of structures from OMX headers.\<close>

record platform =
  driver :: "vdec_ioctl list \<Rightarrow> vdec_ioctl \<Rightarrow> vdec_reply"
  QOMX_VIDEO_BUFFERFLAG_EOSEQ :: u32
  OMX_FRAMEINFO_EXTRADATA_SIZE :: u32
  OMX_INTERLACE_EXTRADATA_SIZE :: u32
  OMX_PORTDEF_EXTRADATA_SIZE :: u32
  sizeof_OMX_OTHER_EXTRADATATYPE :: u32

text \<open>The callbacks to the client; a filled buffer comes with its header as the client finds it.\<close>

datatype omx_callback =
    EventCmdComplete omx_command
  | EventError OMX_ERRORTYPE
  | EventPortSettingsChanged reconfig_index
  | EventIndexsettingChanged vdec_interlaced_format
  | EventBufferFlagEOS
  | EmptyBufferDone nat
  | FillBufferDone nat omx_buffer

record buffer_header =
  hdr :: omx_buffer
  nPortIndex :: port
  pPortPrivate :: bool

record omx_vdec =
  m_state :: OMX_STATETYPE
  m_flags :: u32
  m_inp_bEnabled :: bool
  m_out_bEnabled :: bool
  m_inp_bPopulated :: bool
  m_out_bPopulated :: bool
  m_inp_bm_count :: u32
  m_out_bm_count :: u32
  m_inp_mem_ptr :: "buffer_header list option"
  m_out_mem_ptr :: "buffer_header list option"
  input_pmem :: "bool list"
  ip_buf :: vdec_allocatorproperty
  op_buf :: vdec_allocatorproperty
  op_buf_rcnfg :: vdec_allocatorproperty
  m_cmd_q :: "vdec_msg omx_cmd_queue"
  m_ftb_q :: "vdec_msg omx_cmd_queue"
  m_etb_q :: "vdec_msg omx_cmd_queue"
  input_flush_progress :: bool
  output_flush_progress :: bool
  pending_input_buffers :: int
  pending_output_buffers :: int
  m_error_propogated :: bool
  in_reconfig :: bool
  interlace :: vdec_interlaced_format
  video_resolution :: "nat \<times> nat"
  rectangle :: "nat \<times> nat \<times> nat \<times> nat"
  client_extradata :: u32
  m_inp_err_count :: u32
  time_stamp_dts :: omx_time_stamp_reorder
  timestamp_adjust :: bool
  prev_ts :: int
  rst_prev_ts :: bool
  frm_int :: u32
  codec_config_flag :: bool
  m_cmd_lock :: nat
  m_pipe :: nat
  callbacks :: "omx_callback list"
  requests :: "vdec_ioctl list"
  codec_type_parse :: codec_type
  mp4_headerparser :: mp4_utils

section \<open>Flags\<close>

definition BITMASK_FLAG :: "nat \<Rightarrow> u32" where
  "BITMASK_FLAG k = push_bit (k mod 32) 1"

definition BITMASK_SET :: "nat \<Rightarrow> u32 \<Rightarrow> u32" where
  "BITMASK_SET k w = w OR BITMASK_FLAG k"

definition BITMASK_CLEAR :: "nat \<Rightarrow> u32 \<Rightarrow> u32" where
  "BITMASK_CLEAR k w = w AND NOT (BITMASK_FLAG k)"

definition BITMASK_PRESENT :: "u32 \<Rightarrow> nat \<Rightarrow> bool" where
  "BITMASK_PRESENT w k \<longleftrightarrow> w AND BITMASK_FLAG k \<noteq> 0"

definition BITMASK_ABSENT :: "u32 \<Rightarrow> nat \<Rightarrow> bool" where
  "BITMASK_ABSENT w k \<longleftrightarrow> w AND BITMASK_FLAG k = 0"

definition IDLE_PENDING :: nat where "IDLE_PENDING = 0x1"
definition LOADING_PENDING :: nat where "LOADING_PENDING = 0x2"
definition INPUT_ENABLE_PENDING :: nat where "INPUT_ENABLE_PENDING = 0x5"
definition OUTPUT_ENABLE_PENDING :: nat where "OUTPUT_ENABLE_PENDING = 0x6"
definition INPUT_DISABLE_PENDING :: nat where "INPUT_DISABLE_PENDING = 0x7"
definition OUTPUT_DISABLE_PENDING :: nat where "OUTPUT_DISABLE_PENDING = 0x8"
definition OUTPUT_FLUSH_PENDING :: nat where "OUTPUT_FLUSH_PENDING = 0x9"
definition INPUT_FLUSH_PENDING :: nat where "INPUT_FLUSH_PENDING = 0xA"
definition PAUSE_PENDING :: nat where "PAUSE_PENDING = 0xB"
definition EXECUTE_PENDING :: nat where "EXECUTE_PENDING = 0xC"
definition OUTPUT_FLUSH_IN_DISABLE_PENDING :: nat where "OUTPUT_FLUSH_IN_DISABLE_PENDING = 0xD"
definition DISABLE_OUTPUT_DEFERRED :: nat where "DISABLE_OUTPUT_DEFERRED = 0xE"

lemmas flag_positions = IDLE_PENDING_def LOADING_PENDING_def INPUT_ENABLE_PENDING_def
  OUTPUT_ENABLE_PENDING_def INPUT_DISABLE_PENDING_def OUTPUT_DISABLE_PENDING_def
  OUTPUT_FLUSH_PENDING_def INPUT_FLUSH_PENDING_def PAUSE_PENDING_def EXECUTE_PENDING_def
  OUTPUT_FLUSH_IN_DISABLE_PENDING_def DISABLE_OUTPUT_DEFERRED_def

section \<open>The constructor\<close>

definition no_property :: vdec_allocatorproperty where
  "no_property = \<lparr>mincount = 0, maxcount = 0, actualcount = 0, buffer_size = 0, alignment = 0\<rparr>"

text \<open>\<open>interlace\<close> is progressive from \<open>component_init\<close> on, which also sets \<open>codec_type_parse\<close>.\<close>

definition new_omx_vdec :: omx_vdec where
  "new_omx_vdec = \<lparr>m_state = StateInvalid, m_flags = 0, m_inp_bEnabled = True, m_out_bEnabled = True,
     m_inp_bPopulated = False, m_out_bPopulated = False, m_inp_bm_count = 0, m_out_bm_count = 0,
     m_inp_mem_ptr = None, m_out_mem_ptr = None, input_pmem = [], ip_buf = no_property, op_buf = no_property,
     op_buf_rcnfg = no_property, m_cmd_q = new_cmd_queue EOS_DONE, m_ftb_q = new_cmd_queue EOS_DONE,
     m_etb_q = new_cmd_queue EOS_DONE, input_flush_progress = False, output_flush_progress = False,
     pending_input_buffers = 0, pending_output_buffers = 0, m_error_propogated = False, in_reconfig = False,
     interlace = InterlaceFrameProgressive, video_resolution = (0, 0), rectangle = (0, 0, 0, 0),
     client_extradata = 0, m_inp_err_count = 0, time_stamp_dts = new_ts_reorder, timestamp_adjust = False,
     prev_ts = LLONG_MAX, rst_prev_ts = True, frm_int = 0, codec_config_flag = False, m_cmd_lock = 0,
     m_pipe = 0, callbacks = [], requests = [], codec_type_parse = CODEC_TYPE_MPEG4,
     mp4_headerparser = new_mp4_utils\<rparr>"

section \<open>Requests, messages and callbacks\<close>

definition answer :: "platform \<Rightarrow> vdec_ioctl \<Rightarrow> omx_vdec \<Rightarrow> vdec_reply \<times> omx_vdec" where
  "answer P r s = (driver P (requests s) r, s\<lparr>requests := requests s @ [r]\<rparr>)"

definition ioctl :: "platform \<Rightarrow> vdec_ioctl \<Rightarrow> omx_vdec \<Rightarrow> bool \<times> omx_vdec" where
  "ioctl P r s = (case answer P r s of (a, s) \<Rightarrow> (a \<noteq> Failed, s))"

definition callback :: "omx_callback \<Rightarrow> omx_vdec \<Rightarrow> omx_vdec" where
  "callback c s = s\<lparr>callbacks := callbacks s @ [c]\<rparr>"

definition omx_report_error :: "omx_vdec \<Rightarrow> omx_vdec" where
  "omx_report_error s =
     (if \<not> m_error_propogated s then callback (EventError ErrorHardware) (s\<lparr>m_error_propogated := True\<rparr>)
      else s)"

text \<open>The result of \<open>insert_entry\<close> is ignored: a full queue loses the message.\<close>

definition enqueue :: "'e \<Rightarrow> 'e omx_cmd_queue \<Rightarrow> 'e omx_cmd_queue" where
  "enqueue e q = (case insert_entry e q of None \<Rightarrow> q | Some q' \<Rightarrow> q')"

definition post_event :: "vdec_msg \<Rightarrow> omx_vdec \<Rightarrow> omx_vdec" where
  "post_event m s =
     (let s = (case m of
           GENERATE_FTB _ \<Rightarrow> s\<lparr>m_ftb_q := enqueue m (m_ftb_q s)\<rparr>
         | GENERATE_FBD _ _ \<Rightarrow> s\<lparr>m_ftb_q := enqueue m (m_ftb_q s)\<rparr>
         | GENERATE_ETB _ \<Rightarrow> s\<lparr>m_etb_q := enqueue m (m_etb_q s)\<rparr>
         | GENERATE_EBD _ _ \<Rightarrow> s\<lparr>m_etb_q := enqueue m (m_etb_q s)\<rparr>
         | _ \<Rightarrow> s\<lparr>m_cmd_q := enqueue m (m_cmd_q s)\<rparr>)
      in s\<lparr>m_pipe := m_pipe s + 1\<rparr>)"

definition sem_post :: "omx_vdec \<Rightarrow> omx_vdec" where
  "sem_post s = s\<lparr>m_cmd_lock := m_cmd_lock s + 1\<rparr>"

definition set_flag :: "nat \<Rightarrow> omx_vdec \<Rightarrow> omx_vdec" where
  "set_flag k s = s\<lparr>m_flags := BITMASK_SET k (m_flags s)\<rparr>"

definition clear_flag :: "nat \<Rightarrow> omx_vdec \<Rightarrow> omx_vdec" where
  "clear_flag k s = s\<lparr>m_flags := BITMASK_CLEAR k (m_flags s)\<rparr>"

definition has_flag :: "nat \<Rightarrow> omx_vdec \<Rightarrow> bool" where
  "has_flag k s \<longleftrightarrow> BITMASK_PRESENT (m_flags s) k"

section \<open>Which buffers are allocated\<close>

definition allocate_input_done :: "omx_vdec \<Rightarrow> bool \<times> omx_vdec" where
  "allocate_input_done s =
     (if m_inp_mem_ptr s = None then (False, s)
      else let all = \<not> list_ex (BITMASK_ABSENT (m_inp_bm_count s)) [0..<actualcount (ip_buf s)]
           in (all, if all \<and> m_inp_bEnabled s then s\<lparr>m_inp_bPopulated := True\<rparr> else s))"

definition allocate_output_done :: "omx_vdec \<Rightarrow> bool \<times> omx_vdec" where
  "allocate_output_done s =
     (if m_out_mem_ptr s = None then (False, s)
      else let all = \<not> list_ex (BITMASK_ABSENT (m_out_bm_count s)) [0..<actualcount (op_buf s)]
           in (all, if all \<and> m_out_bEnabled s then s\<lparr>m_out_bPopulated := True\<rparr> else s))"

definition allocate_done :: "omx_vdec \<Rightarrow> bool \<times> omx_vdec" where
  "allocate_done s = (case allocate_input_done s of (i, s) \<Rightarrow>
     (case allocate_output_done s of (j, s) \<Rightarrow> (i \<and> j, s)))"

definition release_input_done :: "omx_vdec \<Rightarrow> bool" where
  "release_input_done s =
     (if m_inp_mem_ptr s \<noteq> None
      then \<not> list_ex (BITMASK_PRESENT (m_inp_bm_count s)) [0..<actualcount (ip_buf s)] else True)"

definition release_output_done :: "omx_vdec \<Rightarrow> bool \<times> omx_vdec" where
  "release_output_done s =
     (if m_out_mem_ptr s \<noteq> None
      then (let none = \<not> list_ex (BITMASK_PRESENT (m_out_bm_count s)) [0..<actualcount (op_buf s)]
            in (none, if none then s\<lparr>m_out_bm_count := 0\<rparr> else s))
      else (True, s\<lparr>m_out_bm_count := 0\<rparr>))"

definition release_done :: "omx_vdec \<Rightarrow> bool \<times> omx_vdec" where
  "release_done s = (if release_input_done s then release_output_done s else (False, s))"

section \<open>Buffer headers\<close>

text \<open>An access through a null pointer or outside the array is \<open>None\<close>.\<close>

definition load_header :: "buffer_header list option \<Rightarrow> header_ptr \<Rightarrow> buffer_header option" where
  "load_header mem p = (case (mem, p) of
     (Some bs, Some i) \<Rightarrow> if i < length bs then Some (bs ! i) else None
   | _ \<Rightarrow> None)"

definition store_header :: "header_ptr \<Rightarrow> buffer_header \<Rightarrow> buffer_header list option \<Rightarrow> buffer_header list option" where
  "store_header p b mem = (case (mem, p) of (Some bs, Some i) \<Rightarrow> Some (bs[i := b]) | _ \<Rightarrow> mem)"

definition store_in :: "header_ptr \<Rightarrow> omx_buffer \<Rightarrow> buffer_header \<Rightarrow> omx_vdec \<Rightarrow> omx_vdec" where
  "store_in p h b s = s\<lparr>m_inp_mem_ptr := store_header p (b\<lparr>hdr := h\<rparr>) (m_inp_mem_ptr s)\<rparr>"

definition store_out :: "header_ptr \<Rightarrow> omx_buffer \<Rightarrow> buffer_header \<Rightarrow> omx_vdec \<Rightarrow> omx_vdec" where
  "store_out p h b s = s\<lparr>m_out_mem_ptr := store_header p (b\<lparr>hdr := h\<rparr>) (m_out_mem_ptr s)\<rparr>"

section \<open>The frame rate and the time stamps\<close>

definition set_frame_rate :: "platform \<Rightarrow> int \<Rightarrow> omx_vdec \<Rightarrow> omx_vdec" where
  "set_frame_rate P act_timestamp s =
     (let distance = (if act_timestamp > prev_ts s then act_timestamp - prev_ts s else prev_ts s - act_timestamp);
          s' = (if VALID_TS act_timestamp \<and> VALID_TS (prev_ts s) \<and> act_timestamp \<noteq> prev_ts s \<and> distance > 2000
                then let new_frame_interval = (of_int distance :: u32)
                     in if new_frame_interval < frm_int s \<or> frm_int s = 0
                        then let s = s\<lparr>frm_int := new_frame_interval\<rparr>
                             in if frm_int s \<noteq> 0 then snd (ioctl P (SET_FRAME_RATE (frm_int s)) s) else s
                        else s
                else s)
      in s'\<lparr>prev_ts := act_timestamp\<rparr>)"

text \<open>The time stamp as the call leaves it, and the state.\<close>

definition adjust_timestamp :: "platform \<Rightarrow> int \<Rightarrow> omx_vdec \<Rightarrow> int \<times> omx_vdec" where
  "adjust_timestamp P act_timestamp s =
     (if rst_prev_ts s \<and> VALID_TS act_timestamp then
        (act_timestamp, s\<lparr>prev_ts := act_timestamp, rst_prev_ts := False\<rparr>)
      else if VALID_TS (prev_ts s) then
        let distance = (if act_timestamp > prev_ts s then act_timestamp - prev_ts s else prev_ts s - act_timestamp);
            codec_cond = (if timestamp_adjust s then \<not> VALID_TS act_timestamp \<or> distance \<le> 2000
                          else \<not> VALID_TS act_timestamp \<or> act_timestamp = prev_ts s)
        in if frm_int s > 0 \<and> codec_cond
           then let t = prev_ts s + uint (frm_int s) in (t, s\<lparr>prev_ts := t\<rparr>)
           else (act_timestamp, set_frame_rate P act_timestamp s)
      else if frm_int s > 0 then (0, s\<lparr>prev_ts := 0, rst_prev_ts := True\<rparr>)
      else (act_timestamp, s))"

section \<open>Buffers go back to the client\<close>

definition reset_prev_ts :: "omx_vdec \<Rightarrow> omx_vdec" where
  "reset_prev_ts s = s\<lparr>prev_ts := LLONG_MAX, rst_prev_ts := True\<rparr>"

definition interlaced :: "omx_vdec \<Rightarrow> bool" where
  "interlaced s \<longleftrightarrow> interlace s \<noteq> InterlaceFrameProgressive"

text \<open>
  Every header of the output array has its \<open>pPlatformPrivate\<close> from the allocation of the array on, and
  without colour conversion \<open>get_il_buf_hdr\<close> returns the header it is given, so that the read of the one
  and the null test of the other are left out.
\<close>

definition fill_buffer_done :: "platform \<Rightarrow> header_ptr \<Rightarrow> omx_vdec \<Rightarrow> (OMX_ERRORTYPE \<times> omx_vdec) option" where
  "fill_buffer_done P buffer s =
     (case buffer of
        None \<Rightarrow> Some (ErrorBadParameter, s)
      | Some i \<Rightarrow>
          if i \<ge> actualcount (op_buf s) then Some (ErrorBadParameter, s)
          else do {
            b \<leftarrow> load_header (m_out_mem_ptr s) buffer;
            let h = (if output_flush_progress s
                     then (hdr b)\<lparr>nFilledLen := 0, nTimeStamp := 0,
                       nFlags := nFlags (hdr b) AND NOT 0x40 AND NOT (QOMX_VIDEO_BUFFERFLAG_EOSEQ P) AND NOT 0x08\<rparr>
                     else hdr b);
            let s = s\<lparr>pending_output_buffers := pending_output_buffers s - 1\<rparr>;
            let s = (if nFlags h AND 1 \<noteq> 0 \<and> \<not> output_flush_progress s then post_event EOS_DONE s else s);
            let (h, s) = (if \<not> output_flush_progress s
                     then case get_next_timestamp (Some h) (interlaced s) (time_stamp_dts s) of
                            (_, h', t) \<Rightarrow> (the h', s\<lparr>time_stamp_dts := t\<rparr>)
                     else (h, s));
            let s = (if nFilledLen h > 0 \<and> client_extradata s AND 0x00040000 \<noteq> 0
                     then set_frame_rate P (nTimeStamp h) s else s);
            let s = (if nFlags h AND 1 \<noteq> 0 then reset_prev_ts s else s);
            Some (ErrorNone, callback (FillBufferDone i h) (store_out buffer h b s))
          })"

definition empty_buffer_done :: "header_ptr \<Rightarrow> omx_vdec \<Rightarrow> (OMX_ERRORTYPE \<times> omx_vdec) option" where
  "empty_buffer_done buffer s =
     (case buffer of
        None \<Rightarrow> Some (ErrorBadParameter, s)
      | Some i \<Rightarrow>
          if i > actualcount (ip_buf s) then Some (ErrorBadParameter, s)
          else do {
            let s = s\<lparr>pending_input_buffers := pending_input_buffers s - 1\<rparr>;
            b \<leftarrow> load_header (m_inp_mem_ptr s) buffer;
            let s = store_in buffer ((hdr b)\<lparr>nFilledLen := 0\<rparr>) b s;
            Some (ErrorNone, callback (EmptyBufferDone i) s)
          })"

section \<open>Flushing\<close>

definition execute_omx_flush :: "platform \<Rightarrow> port \<Rightarrow> omx_vdec \<Rightarrow> bool \<times> omx_vdec" where
  "execute_omx_flush P flushType s =
     (let (flush_dir, s) = (case flushType of
            InputPort \<Rightarrow> (InputPort, s\<lparr>input_flush_progress := True\<rparr>)
          | OutputPort \<Rightarrow> (OutputPort, s\<lparr>output_flush_progress := True\<rparr>)
          | _ \<Rightarrow> (AllPorts, s\<lparr>input_flush_progress := True, output_flush_progress := True\<rparr>))
      in (False, snd (ioctl P (CMD_FLUSH flush_dir) s)))"

partial_function (option) drain_ftb :: "platform \<Rightarrow> omx_vdec \<Rightarrow> omx_vdec option" where
  "drain_ftb P s =
     (case pop_entry (m_ftb_q s) of
        None \<Rightarrow> Some s
      | Some (m, q) \<Rightarrow> do {
          let s = s\<lparr>m_ftb_q := q\<rparr>;
          s \<leftarrow> (case m of
                 GENERATE_FTB p \<Rightarrow> do {
                   let s = s\<lparr>pending_output_buffers := pending_output_buffers s + 1\<rparr>;
                   b \<leftarrow> load_header (m_out_mem_ptr s) p;
                   Some (callback (FillBufferDone (the p) (hdr b)) s)
                 }
               | GENERATE_FBD p _ \<Rightarrow> map_option snd (fill_buffer_done P p s)
               | _ \<Rightarrow> Some s);
          drain_ftb P s
        })"

definition execute_output_flush :: "platform \<Rightarrow> omx_vdec \<Rightarrow> omx_vdec option" where
  "execute_output_flush P s = map_option (\<lambda>s. s\<lparr>output_flush_progress := False\<rparr>) (drain_ftb P s)"

partial_function (option) drain_etb :: "omx_vdec \<Rightarrow> omx_vdec option" where
  "drain_etb s =
     (case pop_entry (m_etb_q s) of
        None \<Rightarrow> Some s
      | Some (m, q) \<Rightarrow> do {
          let s = s\<lparr>m_etb_q := q\<rparr>;
          s \<leftarrow> (case m of
                 GENERATE_ETB p \<Rightarrow> map_option snd
                   (empty_buffer_done p (s\<lparr>pending_input_buffers := pending_input_buffers s + 1\<rparr>))
               | GENERATE_EBD p _ \<Rightarrow> map_option snd (empty_buffer_done p s)
               | _ \<Rightarrow> Some s);
          drain_etb s
        })"

definition execute_input_flush :: "omx_vdec \<Rightarrow> omx_vdec option" where
  "execute_input_flush s = do {
     s \<leftarrow> drain_etb s;
     let s = s\<lparr>time_stamp_dts := flush_timestamp (time_stamp_dts s)\<rparr>;
     Some (reset_prev_ts (s\<lparr>input_flush_progress := False\<rparr>))
   }"

end
