(* ===== verification/VdecBuffers.thy ===== *)
theory VdecBuffers
  imports VdecState
begin

text \<open>
  The buffers of the decoder component: how the client allocates and frees them, hands them over
  and gets them back, and what the driver is asked for (vdec/src/omx_vdec.cpp).
\<close>

section \<open>Handing over an input buffer\<close>

definition empty_this_buffer :: "platform \<Rightarrow> header_ptr \<Rightarrow> omx_vdec \<Rightarrow> (OMX_ERRORTYPE \<times> omx_vdec) option" where
  "empty_this_buffer P buffer s = do {
     b \<leftarrow> load_header (m_inp_mem_ptr s) buffer;
     let s = s\<lparr>codec_config_flag := nFlags (hdr b) AND 0x80 \<noteq> 0\<rparr>;
     if m_state s = StateInvalid then Some (ErrorInvalidState, s)
     else if buffer = None then Some (ErrorBadParameter, s)
     else if \<not> m_inp_bEnabled s then Some (ErrorIncorrectStateOperation, s)
     else if nPortIndex b \<noteq> InputPort then Some (ErrorBadPortIndex, s)
     else if the buffer > actualcount (ip_buf s) then Some (ErrorBadParameter, s)
     else
       let s = (if client_extradata s AND 0x00040000 = 0 then set_frame_rate P (nTimeStamp (hdr b)) s else s)
       in Some (ErrorNone, post_event (GENERATE_ETB buffer) s)
   }"

text \<open>
  MPEG-4 and DivX (the build defines \<open>MAX_RES_1080P\<close>): the frame goes through the header parser, which
  remembers the time resolution, and a VOP that is not coded is not decoded. At the end of the
  stream it becomes an empty frame instead.
\<close>

definition check_vop :: "omx_buffer \<Rightarrow> omx_vdec \<Rightarrow> (bool \<times> omx_buffer \<times> omx_vdec) option" where
  "check_vop h s =
     (if codec_type_parse s = CODEC_TYPE_MPEG4 then do {
        let bytes = drop (nOffset h) (pBuffer h);
        (_, mp4) \<leftarrow> parse_header bytes (nFilledLen h) (mp4_headerparser s);
        not_coded_vop \<leftarrow> is_notcodec_vop bytes (nFilledLen h) mp4;
        let s = s\<lparr>mp4_headerparser := mp4\<rparr>;
        Some (if not_coded_vop \<and> nFlags h AND 1 \<noteq> 0
              then (False, h\<lparr>nFilledLen := 0\<rparr>, s) else (not_coded_vop, h, s))
      } else Some (False, h, s))"

text \<open>
  The message thread passes the buffer to the driver. \<open>buffer_len\<close> is set to \<open>nFilledLen\<close>, so the
  driver gets an end of stream for an empty buffer, too. The private data of a header is the
  component's buffer with the same index, so both range tests compare this index.
\<close>

definition empty_this_buffer_proxy ::
  "platform \<Rightarrow> header_ptr \<Rightarrow> omx_vdec \<Rightarrow> (OMX_ERRORTYPE \<times> omx_vdec) option" where
  "empty_this_buffer_proxy P buffer s =
     (case buffer of
        None \<Rightarrow> Some (ErrorBadParameter, s)
      | Some i \<Rightarrow> do {
          b \<leftarrow> load_header (m_inp_mem_ptr s) buffer;
          if \<not> pPortPrivate b then Some (ErrorBadParameter, s)
          else if i > actualcount (ip_buf s) then Some (ErrorBadParameter, s)
          else
            let s = s\<lparr>pending_input_buffers := pending_input_buffers s + 1\<rparr>
            in if nFilledLen (hdr b) = 0 \<and> nFlags (hdr b) AND 1 = 0 then
                 Some (ErrorNone, post_event (GENERATE_EBD buffer VDEC_S_SUCCESS) s)
               else do {
                 (not_coded_vop, h, s) \<leftarrow> check_vop (hdr b) s;
                 if input_flush_progress s \<or> not_coded_vop then
                   Some (ErrorNone, post_event (GENERATE_EBD buffer VDEC_S_SUCCESS) (store_in buffer h b s))
                 else if i > actualcount (ip_buf s) then Some (ErrorBadParameter, store_in buffer h b s)
                 else
                   let h = (if nFlags h AND QOMX_VIDEO_BUFFERFLAG_EOSEQ P \<noteq> 0
                            then h\<lparr>nFlags := nFlags h AND NOT (QOMX_VIDEO_BUFFERFLAG_EOSEQ P)\<rparr> else h);
                       s = store_in buffer h b s
                   in case ioctl P (DECODE_FRAME i) s of
                        (ok, s) \<Rightarrow>
                          if \<not> ok then
                            Some (ErrorBadParameter, post_event (GENERATE_EBD buffer VDEC_S_SUCCESS) s)
                          else Some (ErrorNone, s\<lparr>time_stamp_dts :=
                                 snd (insert_timestamp (Some h) (time_stamp_dts s))\<rparr>)
               }
        })"

section \<open>Handing over an output buffer\<close>

text \<open>The headers of the output port are initialised together, with their private data set.\<close>

definition fill_this_buffer :: "header_ptr \<Rightarrow> omx_vdec \<Rightarrow> (OMX_ERRORTYPE \<times> omx_vdec) option" where
  "fill_this_buffer buffer s =
     (if m_state s = StateInvalid then Some (ErrorInvalidState, s)
      else if \<not> m_out_bEnabled s then Some (ErrorIncorrectStateOperation, s)
      else if buffer = None \<or> the buffer \<ge> actualcount (op_buf s) then Some (ErrorBadParameter, s)
      else do {
        b \<leftarrow> load_header (m_out_mem_ptr s) buffer;
        if nPortIndex b \<noteq> OutputPort then Some (ErrorBadPortIndex, s)
        else Some (ErrorNone, post_event (GENERATE_FTB buffer) s)
      })"

definition fill_this_buffer_proxy ::
  "platform \<Rightarrow> header_ptr \<Rightarrow> omx_vdec \<Rightarrow> (OMX_ERRORTYPE \<times> omx_vdec) option" where
  "fill_this_buffer_proxy P buffer s =
     (case buffer of
        None \<Rightarrow> Some (ErrorBadParameter, s)
      | Some i \<Rightarrow>
          if i > actualcount (op_buf s) then Some (ErrorBadParameter, s)
          else do {
            b \<leftarrow> load_header (m_out_mem_ptr s) buffer;
            let empty_hdr = (hdr b)\<lparr>nFilledLen := 0\<rparr>;
            if \<not> m_out_bEnabled s \<or> output_flush_progress s then
              Some (ErrorNone, callback (FillBufferDone i empty_hdr) (store_out buffer empty_hdr b s))
            else
              let s = s\<lparr>pending_output_buffers := pending_output_buffers s + 1\<rparr>
              in if \<not> pPortPrivate b then
                   Some (ErrorBadParameter,
                     (callback (FillBufferDone i empty_hdr) (store_out buffer empty_hdr b s))
                       \<lparr>pending_output_buffers := pending_output_buffers s - 1\<rparr>)
                 else case ioctl P (FILL_OUTPUT_BUFFER i) s of
                   (ok, s) \<Rightarrow>
                     if \<not> ok then
                       Some (ErrorBadParameter,
                         (callback (FillBufferDone i (hdr b)) s)
                           \<lparr>pending_output_buffers := pending_output_buffers s - 1\<rparr>)
                     else Some (ErrorNone, s)
          })"

section \<open>What is pending comes back before a pause or a stop\<close>

text \<open>The entries that satisfy \<open>p\<close> move to the second queue, the others stay in their order.\<close>

partial_function (option) split_queue ::
  "('e \<Rightarrow> bool) \<Rightarrow> 'e omx_cmd_queue \<Rightarrow> 'e omx_cmd_queue \<Rightarrow> 'e omx_cmd_queue \<Rightarrow>
     ('e omx_cmd_queue \<times> 'e omx_cmd_queue \<times> 'e omx_cmd_queue) option" where
  "split_queue p q pending_bd_q tmp_q =
     (case pop_entry q of
        None \<Rightarrow> Some (q, pending_bd_q, tmp_q)
      | Some (m, q) \<Rightarrow>
          if p m then split_queue p q (enqueue m pending_bd_q) tmp_q
          else split_queue p q pending_bd_q (enqueue m tmp_q))"

partial_function (option) move_back ::
  "'e omx_cmd_queue \<Rightarrow> 'e omx_cmd_queue \<Rightarrow> ('e omx_cmd_queue \<times> 'e omx_cmd_queue) option" where
  "move_back tmp_q q =
     (case pop_entry tmp_q of
        None \<Rightarrow> Some (tmp_q, q)
      | Some (m, tmp_q) \<Rightarrow> move_back tmp_q (enqueue m q))"

definition is_fbd :: "vdec_msg \<Rightarrow> bool" where
  "is_fbd m = (case m of GENERATE_FBD _ _ \<Rightarrow> True | _ \<Rightarrow> False)"

definition is_ebd :: "vdec_msg \<Rightarrow> bool" where
  "is_ebd m = (case m of GENERATE_EBD _ _ \<Rightarrow> True | _ \<Rightarrow> False)"

definition report_failure :: "OMX_ERRORTYPE \<times> omx_vdec \<Rightarrow> omx_vdec" where
  "report_failure r = (case r of (e, s) \<Rightarrow> if e \<noteq> ErrorNone then omx_report_error s else s)"

partial_function (option) process_pending ::
  "platform \<Rightarrow> vdec_msg omx_cmd_queue \<Rightarrow> omx_vdec \<Rightarrow> omx_vdec option" where
  "process_pending P pending_bd_q s =
     (case pop_entry pending_bd_q of
        None \<Rightarrow> Some s
      | Some (m, pending_bd_q) \<Rightarrow> do {
          s \<leftarrow> (case m of
                 GENERATE_EBD p _ \<Rightarrow> map_option report_failure (empty_buffer_done p s)
               | GENERATE_FBD p _ \<Rightarrow> map_option report_failure (fill_buffer_done P p s)
               | _ \<Rightarrow> Some s);
          process_pending P pending_bd_q s
        })"

definition complete_pending_buffer_done_cbs :: "platform \<Rightarrow> omx_vdec \<Rightarrow> omx_vdec option" where
  "complete_pending_buffer_done_cbs P s = do {
     let new_q = new_cmd_queue EOS_DONE;
     (ftb, pending, tmp) \<leftarrow> split_queue is_fbd (m_ftb_q s) new_q new_q;
     (tmp, ftb) \<leftarrow> move_back tmp ftb;
     (etb, pending, tmp) \<leftarrow> split_queue is_ebd (m_etb_q s) pending tmp;
     (tmp, etb) \<leftarrow> move_back tmp etb;
     process_pending P pending (s\<lparr>m_ftb_q := ftb, m_etb_q := etb\<rparr>)
   }"

section \<open>Buffer requirements and reconfiguration\<close>

definition align_up :: "u32 \<Rightarrow> u32 \<Rightarrow> u32" where
  "align_up n a = (n + a - 1) AND NOT (a - 1)"

definition set_buffer_req :: "platform \<Rightarrow> vdec_allocatorproperty \<Rightarrow> omx_vdec \<Rightarrow> OMX_ERRORTYPE \<times> omx_vdec" where
  "set_buffer_req P buffer_prop s =
     (if align_up (buffer_size buffer_prop) (alignment buffer_prop) \<noteq> buffer_size buffer_prop
      then (ErrorBadParameter, s)
      else case ioctl P (SET_BUFFER_REQ buffer_prop) s of
             (ok, s) \<Rightarrow> (if \<not> ok then ErrorInsufficientResources else ErrorNone, s))"

text \<open>\<open>VDEC_IOCTL_GET_PICRES\<close> writes the picture size.\<close>

definition update_picture_resolution :: "platform \<Rightarrow> omx_vdec \<Rightarrow> OMX_ERRORTYPE \<times> omx_vdec" where
  "update_picture_resolution P s =
     (case answer P GET_PICRES s of
        (Failed, s) \<Rightarrow> (ErrorHardware, s)
      | (PicRes w h, s) \<Rightarrow> (ErrorNone, s\<lparr>video_resolution := (w, h)\<rparr>)
      | (_, s) \<Rightarrow> (ErrorNone, s))"

definition extra_data_size :: "platform \<Rightarrow> u32 \<Rightarrow> u32" where
  "extra_data_size P flags =
     (let n = (if flags AND 0x00010000 \<noteq> 0 then OMX_FRAMEINFO_EXTRADATA_SIZE P else 0)
            + (if flags AND 0x00020000 \<noteq> 0 then OMX_INTERLACE_EXTRADATA_SIZE P else 0)
            + (if flags AND 0x00080000 \<noteq> 0 then OMX_PORTDEF_EXTRADATA_SIZE P else 0)
      in if n \<noteq> 0 then n + sizeof_OMX_OTHER_EXTRADATATYPE P else 0)"

text \<open>The properties as the call leaves them are the second component.\<close>

definition get_buffer_req ::
  "platform \<Rightarrow> vdec_allocatorproperty \<Rightarrow> omx_vdec \<Rightarrow> OMX_ERRORTYPE \<times> vdec_allocatorproperty \<times> omx_vdec" where
  "get_buffer_req P buffer_prop s =
     (case answer P GET_BUFFER_REQ s of
        (Failed, s) \<Rightarrow> (ErrorInsufficientResources, buffer_prop, s)
      | (a, s) \<Rightarrow>
          let buffer_prop = (case a of BufferReq p \<Rightarrow> p | _ \<Rightarrow> buffer_prop);
              buf_size = buffer_size buffer_prop
          in case update_picture_resolution P s of
               (e, s) \<Rightarrow>
                 if e \<noteq> ErrorNone then (e, buffer_prop, s)
                 else
                   let extra = extra_data_size P (client_extradata s);
                       buf_size = (if extra \<noteq> 0 then (buf_size + 3) AND NOT 3 else buf_size) + extra;
                       buf_size = align_up buf_size (alignment buffer_prop)
                   in if in_reconfig s then (ErrorNone, buffer_prop\<lparr>buffer_size := buf_size\<rparr>, s)
                      else if buf_size \<noteq> buffer_size buffer_prop then
                        let buffer_prop = buffer_prop\<lparr>buffer_size := buf_size\<rparr>
                        in case set_buffer_req P buffer_prop s of (e, s) \<Rightarrow> (e, buffer_prop, s)
                      else (ErrorNone, buffer_prop, s))"

definition start_port_reconfig :: "platform \<Rightarrow> omx_vdec \<Rightarrow> OMX_ERRORTYPE \<times> omx_vdec" where
  "start_port_reconfig P s =
     (case update_picture_resolution P s of
        (e, s) \<Rightarrow>
          if e \<noteq> ErrorNone then (e, s)
          else case answer P GET_INTERLACE_FORMAT s of
                 (Failed, s) \<Rightarrow> (ErrorHardware, s)
               | (a, s) \<Rightarrow>
                   let s = (case a of InterlaceFormat f \<Rightarrow> s\<lparr>interlace := f\<rparr> | _ \<Rightarrow> s);
                       s = (if interlaced s then s\<lparr>client_extradata := client_extradata s OR 0x00020000\<rparr> else s);
                       s = s\<lparr>in_reconfig := True\<rparr>
                   in case get_buffer_req P (op_buf_rcnfg s) s of
                        (e, p, s) \<Rightarrow> (e, s\<lparr>op_buf_rcnfg := p\<rparr>))"

section \<open>Allocating and freeing\<close>

text \<open>
  \<open>alloc_ok\<close> tells whether the block behind the buffer can be allocated and mapped; the header arrays
  themselves are assumed to be available. \<open>input_pmem\<close> holds which input buffers have a block.
\<close>

definition zero_header :: omx_buffer where
  "zero_header = \<lparr>pBuffer = [], nAllocLen = 0, nFilledLen = 0, nOffset = 0, nFlags = 0, nTimeStamp = 0\<rparr>"

definition free_slot :: "u32 \<Rightarrow> nat \<Rightarrow> nat option" where
  "free_slot bm n = find (BITMASK_ABSENT bm) [0..<n]"

definition allocate_input_buffer ::
  "platform \<Rightarrow> bool \<Rightarrow> u8 list \<Rightarrow> omx_vdec \<Rightarrow> (OMX_ERRORTYPE \<times> header_ptr \<times> omx_vdec) option" where
  "allocate_input_buffer P alloc_ok block s = do {
     let n = actualcount (ip_buf s);
     let s = (if m_inp_mem_ptr s = None
              then s\<lparr>m_inp_mem_ptr := Some (replicate n \<lparr>hdr = zero_header, nPortIndex = InputPort, pPortPrivate = False\<rparr>),
                     input_pmem := replicate n False\<rparr>
              else s);
     case free_slot (m_inp_bm_count s) n of
       None \<Rightarrow> Some (ErrorInsufficientResources, None, s)
     | Some i \<Rightarrow>
         if \<not> alloc_ok then Some (ErrorInsufficientResources, None, s)
         else do {
           b \<leftarrow> load_header (m_inp_mem_ptr s) (Some i);
           let s = s\<lparr>input_pmem := (input_pmem s)[i := True]\<rparr>;
           case ioctl P (SET_BUFFER InputPort i) s of
             (ok, s) \<Rightarrow>
               if \<not> ok then Some (ErrorInsufficientResources, Some i, s)
               else
                 let h = (hdr b)\<lparr>pBuffer := block, nAllocLen := unat (buffer_size (ip_buf s))\<rparr>;
                     s = s\<lparr>m_inp_bm_count := BITMASK_SET i (m_inp_bm_count s)\<rparr>
                 in Some (ErrorNone, Some i,
                      store_in (Some i) h (b\<lparr>nPortIndex := InputPort, pPortPrivate := True\<rparr>) s)
         }
   }"

definition allocate_output_buffer ::
  "platform \<Rightarrow> bool \<Rightarrow> u8 list \<Rightarrow> omx_vdec \<Rightarrow> (OMX_ERRORTYPE \<times> header_ptr \<times> omx_vdec) option" where
  "allocate_output_buffer P alloc_ok block s = do {
     let n = actualcount (op_buf s);
     let s = (if m_out_mem_ptr s = None
              then s\<lparr>m_out_mem_ptr := Some (replicate n \<lparr>hdr = zero_header, nPortIndex = OutputPort, pPortPrivate = True\<rparr>)\<rparr>
              else s);
     case free_slot (m_out_bm_count s) n of
       None \<Rightarrow> Some (ErrorInsufficientResources, None, s)
     | Some i \<Rightarrow>
         if \<not> alloc_ok then Some (ErrorInsufficientResources, None, s)
         else (case ioctl P (SET_BUFFER OutputPort i) s of
             (ok, s) \<Rightarrow>
               if \<not> ok then Some (ErrorInsufficientResources, Some i, s)
               else do {
                 b \<leftarrow> load_header (m_out_mem_ptr s) (Some i);
                 let h = (hdr b)\<lparr>nAllocLen := unat (buffer_size (op_buf s)), pBuffer := block\<rparr>;
                 let s = store_out (Some i) h b s;
                 Some (ErrorNone, Some i, s\<lparr>m_out_bm_count := BITMASK_SET i (m_out_bm_count s)\<rparr>)
               })
   }"

definition allocate_buffer ::
  "platform \<Rightarrow> bool \<Rightarrow> u8 list \<Rightarrow> port \<Rightarrow> omx_vdec \<Rightarrow> (OMX_ERRORTYPE \<times> header_ptr \<times> omx_vdec) option" where
  "allocate_buffer P alloc_ok block port s =
     (if m_state s = StateInvalid then Some (ErrorInvalidState, None, s)
      else do {
        (eRet, p, s) \<leftarrow> (case port of
            InputPort \<Rightarrow> allocate_input_buffer P alloc_ok block s
          | OutputPort \<Rightarrow> allocate_output_buffer P alloc_ok block s
          | _ \<Rightarrow> Some (ErrorBadPortIndex, None, s));
        if eRet \<noteq> ErrorNone then Some (eRet, p, s)
        else
          let (all_done, s) = allocate_done s;
              s = (if all_done \<and> has_flag IDLE_PENDING s
                   then post_event (GENERATE_EVENT (CommandComplete (StateSet StateIdle))) (clear_flag IDLE_PENDING s)
                   else s);
              s = (if port = InputPort \<and> m_inp_bPopulated s \<and> has_flag INPUT_ENABLE_PENDING s
                   then post_event (GENERATE_EVENT (CommandComplete (PortEnable InputPort)))
                          (clear_flag INPUT_ENABLE_PENDING s)
                   else s);
              s = (if port = OutputPort \<and> m_out_bPopulated s \<and> has_flag OUTPUT_ENABLE_PENDING s
                   then post_event (GENERATE_EVENT (CommandComplete (PortEnable OutputPort)))
                          (clear_flag OUTPUT_ENABLE_PENDING s)
                   else s)
          in Some (eRet, p, s)
      })"

definition free_input_buffer :: "platform \<Rightarrow> header_ptr \<Rightarrow> omx_vdec \<Rightarrow> OMX_ERRORTYPE \<times> omx_vdec" where
  "free_input_buffer P bufferHdr s =
     (case bufferHdr of
        None \<Rightarrow> (ErrorBadParameter, s)
      | Some index \<Rightarrow>
          if m_inp_mem_ptr s = None then (ErrorBadParameter, s)
          else (ErrorNone,
            if index < actualcount (ip_buf s) \<and> index < length (input_pmem s) \<and> input_pmem s ! index
            then (snd (ioctl P (FREE_BUFFER InputPort index) s))\<lparr>input_pmem := (input_pmem s)[index := False]\<rparr>
            else s))"

definition free_output_buffer :: "platform \<Rightarrow> header_ptr \<Rightarrow> omx_vdec \<Rightarrow> OMX_ERRORTYPE \<times> omx_vdec" where
  "free_output_buffer P bufferHdr s =
     (case bufferHdr of
        None \<Rightarrow> (ErrorBadParameter, s)
      | Some index \<Rightarrow>
          if m_out_mem_ptr s = None then (ErrorBadParameter, s)
          else (ErrorNone,
            if index < actualcount (op_buf s) then snd (ioctl P (FREE_BUFFER OutputPort index) s) else s))"

definition free_input_buffer_header :: "omx_vdec \<Rightarrow> omx_vdec" where
  "free_input_buffer_header s = s\<lparr>m_inp_mem_ptr := None, input_pmem := []\<rparr>"

definition free_output_buffer_header :: "omx_vdec \<Rightarrow> omx_vdec" where
  "free_output_buffer_header s = s\<lparr>m_out_mem_ptr := None\<rparr>"

definition free_input_port :: "platform \<Rightarrow> nat \<Rightarrow> omx_vdec \<Rightarrow> OMX_ERRORTYPE \<times> omx_vdec" where
  "free_input_port P i s =
     (let (eRet, s) =
            (if i < actualcount (ip_buf s) then
               let s = s\<lparr>m_inp_bm_count := BITMASK_CLEAR i (m_inp_bm_count s)\<rparr>;
                   s = snd (free_input_buffer P (Some i) s);
                   s = s\<lparr>m_inp_bPopulated := False\<rparr>
               in (ErrorNone, if release_input_done s then free_input_buffer_header s else s)
             else (ErrorBadPortIndex, s));
          s = (if has_flag INPUT_DISABLE_PENDING s \<and> release_input_done s
               then post_event (GENERATE_EVENT (CommandComplete (PortDisable InputPort)))
                      (clear_flag INPUT_DISABLE_PENDING s)
               else s)
      in (eRet, s))"

definition free_output_port :: "platform \<Rightarrow> nat \<Rightarrow> omx_vdec \<Rightarrow> OMX_ERRORTYPE \<times> omx_vdec" where
  "free_output_port P i s =
     (let (eRet, s) =
            (if i < actualcount (op_buf s) then
               let s = s\<lparr>m_out_bm_count := BITMASK_CLEAR i (m_out_bm_count s), m_out_bPopulated := False\<rparr>;
                   s = snd (free_output_buffer P (Some i) s);
                   (none, s) = release_output_done s
               in (ErrorNone, if none then free_output_buffer_header s else s)
             else (ErrorBadPortIndex, s));
          (none, s) = (if has_flag OUTPUT_DISABLE_PENDING s then release_output_done s else (False, s));
          s = (if none
               then post_event (GENERATE_EVENT (CommandComplete (PortDisable OutputPort)))
                      (clear_flag OUTPUT_DISABLE_PENDING s)
               else s)
      in (eRet, s))"

definition free_buffer :: "platform \<Rightarrow> port \<Rightarrow> nat \<Rightarrow> omx_vdec \<Rightarrow> OMX_ERRORTYPE \<times> omx_vdec" where
  "free_buffer P port i s =
     (let lost = post_event (GENERATE_EVENT (ErrorCode ErrorPortUnpopulated)) s;
          may_free = (m_state s = StateIdle \<and> has_flag LOADING_PENDING s \<or>
            \<not> m_inp_bEnabled s \<and> port = InputPort \<or> \<not> m_out_bEnabled s \<and> port = OutputPort)
      in if \<not> may_free \<and> (m_state s = StateExecuting \<or> m_state s = StatePause)
         then (ErrorIncorrectStateOperation, lost)
         else
           let s = (if \<not> may_free \<and> m_state s \<noteq> StateInvalid then lost else s);
               (eRet, s) = (case port of
                    InputPort \<Rightarrow> free_input_port P i s
                  | OutputPort \<Rightarrow> free_output_port P i s
                  | _ \<Rightarrow> (ErrorBadPortIndex, s));
               (none, s) = (if eRet = ErrorNone \<and> has_flag LOADING_PENDING s then release_done s else (False, s));
               s = (if none
                    then post_event (GENERATE_EVENT (CommandComplete (StateSet StateLoaded)))
                           (clear_flag LOADING_PENDING s)
                    else s)
           in (eRet, s))"

end
