(* ===== verification/VdecCommand.thy ===== *)
theory VdecCommand
  imports VdecBuffers
begin

text \<open>
  Commands of the client: \<open>send_command\<close> posts a command and waits for a semaphore, and
  \<open>send_command_proxy\<close> executes it in the message thread (vdec/src/omx_vdec.cpp).
\<close>

section \<open>The client side\<close>

text \<open>The result \<open>None\<close> is a client that waits for \<open>m_cmd_lock\<close>.\<close>

definition send_command :: "omx_command \<Rightarrow> omx_vdec \<Rightarrow> OMX_ERRORTYPE option \<times> omx_vdec" where
  "send_command cmd s =
     (if m_state s = StateInvalid then (Some ErrorInvalidState, s)
      else case cmd of
             Flush (OtherPort n) \<Rightarrow> (Some ErrorBadPortIndex, s)
           | _ \<Rightarrow> (None, post_event (GENERATE_COMMAND cmd) s))"

definition sem_wait :: "omx_vdec \<Rightarrow> omx_vdec option" where
  "sem_wait s = (if m_cmd_lock s > 0 then Some (s\<lparr>m_cmd_lock := m_cmd_lock s - 1\<rparr>) else None)"

section \<open>Changing the state\<close>

text \<open>
  The local variables of \<open>send_command_proxy\<close>: the error code, \<open>bFlag\<close> and \<open>sem_posted\<close>, with the state.
\<close>

type_synonym proxy = "OMX_ERRORTYPE \<times> bool \<times> bool \<times> omx_vdec"

definition accept :: "omx_vdec \<Rightarrow> proxy" where
  "accept s = (ErrorNone, True, False, s)"

definition defer_event :: "omx_vdec \<Rightarrow> proxy" where
  "defer_event s = (ErrorNone, False, False, s)"

text \<open>The error event and the error code of a transition that is not allowed.\<close>

definition refuse :: "OMX_ERRORTYPE \<Rightarrow> omx_vdec \<Rightarrow> proxy" where
  "refuse e s = (e, True, False, post_event (GENERATE_EVENT (ErrorCode e)) s)"

definition invalidate :: "omx_vdec \<Rightarrow> proxy" where
  "invalidate s = (ErrorInvalidState, True, False, post_event (GENERATE_EVENT ErrorStateInvalid) s)"

definition from_loaded :: "OMX_STATETYPE \<Rightarrow> omx_vdec \<Rightarrow> proxy" where
  "from_loaded eState s = (case eState of
     StateIdle \<Rightarrow>
       (case allocate_done s of
          (done, s) \<Rightarrow> if done \<or> \<not> m_inp_bEnabled s \<and> \<not> m_out_bEnabled s then accept s
                     else defer_event (set_flag IDLE_PENDING s))
   | StateLoaded \<Rightarrow> refuse ErrorSameState s
   | StateWaitForResources \<Rightarrow> accept s
   | StateExecuting \<Rightarrow> refuse ErrorIncorrectStateTransition s
   | StatePause \<Rightarrow> refuse ErrorIncorrectStateTransition s
   | StateInvalid \<Rightarrow> invalidate s
   | StateOther _ \<Rightarrow> (ErrorBadParameter, True, False, s))"

definition from_idle :: "platform \<Rightarrow> OMX_STATETYPE \<Rightarrow> omx_vdec \<Rightarrow> proxy" where
  "from_idle P eState s = (case eState of
     StateLoaded \<Rightarrow>
       (case release_done s of
          (done, s) \<Rightarrow> if done then accept s else defer_event (set_flag LOADING_PENDING s))
   | StateExecuting \<Rightarrow>
       (case ioctl P CMD_START (set_flag EXECUTE_PENDING s) of
          (ok, s) \<Rightarrow> if ok then defer_event s else (ErrorHardware, False, False, omx_report_error s))
   | StateIdle \<Rightarrow> refuse ErrorSameState s
   | StateWaitForResources \<Rightarrow> refuse ErrorIncorrectStateTransition s
   | StatePause \<Rightarrow>
       (case ioctl P CMD_START s of
          (ok, s) \<Rightarrow> if ok then defer_event (set_flag PAUSE_PENDING s)
                    else (ErrorHardware, True, False, omx_report_error s))
   | StateInvalid \<Rightarrow> invalidate s
   | StateOther _ \<Rightarrow> (ErrorBadParameter, True, False, s))"

text \<open>Leaving for Idle: the client is released first, then everything is flushed.\<close>

definition flush_to_idle :: "platform \<Rightarrow> omx_vdec \<Rightarrow> proxy" where
  "flush_to_idle P s =
     (ErrorNone, False, True, snd (execute_omx_flush P AllPorts (sem_post (set_flag IDLE_PENDING s))))"

definition from_executing :: "platform \<Rightarrow> OMX_STATETYPE \<Rightarrow> omx_vdec \<Rightarrow> proxy" where
  "from_executing P eState s = (case eState of
     StateIdle \<Rightarrow> flush_to_idle P s
   | StatePause \<Rightarrow>
       (case ioctl P CMD_PAUSE s of
          (ok, s) \<Rightarrow> if ok then defer_event (set_flag PAUSE_PENDING s) else refuse ErrorHardware s)
   | StateLoaded \<Rightarrow> refuse ErrorIncorrectStateTransition s
   | StateWaitForResources \<Rightarrow> refuse ErrorIncorrectStateTransition s
   | StateExecuting \<Rightarrow> refuse ErrorSameState s
   | StateInvalid \<Rightarrow> invalidate s
   | StateOther _ \<Rightarrow> (ErrorBadParameter, True, False, s))"

definition from_pause :: "platform \<Rightarrow> OMX_STATETYPE \<Rightarrow> omx_vdec \<Rightarrow> proxy" where
  "from_pause P eState s = (case eState of
     StateExecuting \<Rightarrow>
       (case ioctl P CMD_RESUME s of
          (ok, s) \<Rightarrow> if ok then defer_event (post_event (RESUME_DONE VDEC_S_SUCCESS) (set_flag EXECUTE_PENDING s))
                    else refuse ErrorHardware s)
   | StateIdle \<Rightarrow> flush_to_idle P s
   | StateLoaded \<Rightarrow> refuse ErrorIncorrectStateTransition s
   | StateWaitForResources \<Rightarrow> refuse ErrorIncorrectStateTransition s
   | StatePause \<Rightarrow> refuse ErrorSameState s
   | StateInvalid \<Rightarrow> invalidate s
   | StateOther _ \<Rightarrow> (ErrorBadParameter, True, False, s))"

text \<open>There is no branch for Idle and none for other values: they fall through as accepted.\<close>

definition from_wait_for_resources :: "OMX_STATETYPE \<Rightarrow> omx_vdec \<Rightarrow> proxy" where
  "from_wait_for_resources eState s = (case eState of
     StateLoaded \<Rightarrow> accept s
   | StateWaitForResources \<Rightarrow> refuse ErrorSameState s
   | StateExecuting \<Rightarrow> refuse ErrorIncorrectStateTransition s
   | StatePause \<Rightarrow> refuse ErrorIncorrectStateTransition s
   | StateInvalid \<Rightarrow> invalidate s
   | _ \<Rightarrow> accept s)"

definition state_set_proxy :: "platform \<Rightarrow> OMX_STATETYPE \<Rightarrow> omx_vdec \<Rightarrow> proxy" where
  "state_set_proxy P eState s = (case m_state s of
     StateLoaded \<Rightarrow> from_loaded eState s
   | StateIdle \<Rightarrow> from_idle P eState s
   | StateExecuting \<Rightarrow> from_executing P eState s
   | StatePause \<Rightarrow> from_pause P eState s
   | StateWaitForResources \<Rightarrow> from_wait_for_resources eState s
   | _ \<Rightarrow> (ErrorBadParameter, True, False, s))"

section \<open>Flush and the ports\<close>

definition covers_input :: "port \<Rightarrow> bool" where
  "covers_input p \<longleftrightarrow> p = InputPort \<or> p = AllPorts"

definition covers_output :: "port \<Rightarrow> bool" where
  "covers_output p \<longleftrightarrow> p = OutputPort \<or> p = AllPorts"

definition flush_proxy :: "platform \<Rightarrow> port \<Rightarrow> omx_vdec \<Rightarrow> proxy" where
  "flush_proxy P port s =
     (let s = (if covers_input port then set_flag INPUT_FLUSH_PENDING s else s);
          s = (if covers_output port then set_flag OUTPUT_FLUSH_PENDING s else s)
      in (ErrorNone, False, True, snd (execute_omx_flush P port (sem_post s))))"

definition enable_input :: "proxy \<Rightarrow> proxy" where
  "enable_input r = (case r of (e, bFlag, posted, s) \<Rightarrow>
     let s = s\<lparr>m_inp_bEnabled := True\<rparr>;
         (ready, s) = (if m_state s = StateLoaded \<and> \<not> has_flag IDLE_PENDING s then (True, s)
                       else allocate_input_done s)
     in if ready then (e, bFlag, posted, post_event (GENERATE_EVENT (CommandComplete (PortEnable InputPort))) s)
        else (e, False, posted, set_flag INPUT_ENABLE_PENDING s))"

definition enable_output :: "proxy \<Rightarrow> proxy" where
  "enable_output r = (case r of (e, bFlag, posted, s) \<Rightarrow>
     let s = s\<lparr>m_out_bEnabled := True\<rparr>;
         (ready, s) = (if m_state s = StateLoaded \<and> \<not> has_flag IDLE_PENDING s then (True, s)
                       else allocate_output_done s)
     in if ready then (e, bFlag, posted, post_event (GENERATE_EVENT (CommandComplete (PortEnable OutputPort))) s)
        else (e, False, posted, set_flag OUTPUT_ENABLE_PENDING s))"

definition port_enable_proxy :: "port \<Rightarrow> omx_vdec \<Rightarrow> proxy" where
  "port_enable_proxy port s =
     (let r = (if covers_input port then enable_input (accept s) else accept s)
      in if covers_output port then enable_output r else r)"

definition disable_input :: "platform \<Rightarrow> proxy \<Rightarrow> proxy" where
  "disable_input P r = (case r of (e, bFlag, posted, s) \<Rightarrow>
     let s = s\<lparr>m_inp_bEnabled := False\<rparr>
     in if (m_state s = StateLoaded \<or> m_state s = StateIdle) \<and> release_input_done s
        then (e, bFlag, posted, post_event (GENERATE_EVENT (CommandComplete (PortDisable InputPort))) s)
        else
          let s = set_flag INPUT_DISABLE_PENDING s
          in if m_state s = StatePause \<or> m_state s = StateExecuting
             then (e, False, True,
               snd (execute_omx_flush P InputPort (if posted then s else sem_post s)))
             else (e, False, posted, s))"

definition disable_output :: "platform \<Rightarrow> proxy \<Rightarrow> proxy" where
  "disable_output P r = (case r of (e, bFlag, posted, s) \<Rightarrow>
     let s = s\<lparr>m_out_bEnabled := False\<rparr>;
         (released, s) = (if m_state s = StateLoaded \<or> m_state s = StateIdle then release_output_done s
                          else (False, s))
     in if released
        then (e, bFlag, posted, post_event (GENERATE_EVENT (CommandComplete (PortDisable OutputPort))) s)
        else
          let s = set_flag OUTPUT_DISABLE_PENDING s
          in if m_state s = StatePause \<or> m_state s = StateExecuting
             then (e, False, True,
               snd (execute_omx_flush P OutputPort
                 (set_flag OUTPUT_FLUSH_IN_DISABLE_PENDING (if posted then s else sem_post s))))
             else (e, False, posted, s))"

definition port_disable_proxy :: "platform \<Rightarrow> port \<Rightarrow> omx_vdec \<Rightarrow> proxy" where
  "port_disable_proxy P port s =
     (let r = (if covers_input port then disable_input P (accept s) else accept s)
      in if covers_output port then disable_output P r else r)"

section \<open>The command in the message thread\<close>

text \<open>
  \<open>eState == (OMX_StateLoaded || OMX_StateWaitForResources || \<dots>)\<close> compares the parameter with
  the truth value 1, which is \<open>OMX_CORE_OUTPUT_PORT_INDEX\<close> for the commands that reach the test.
\<close>

definition param_is_one :: "omx_command \<Rightarrow> bool" where
  "param_is_one cmd = (case cmd of
     StateSet st \<Rightarrow> st = StateLoaded
   | Flush p \<Rightarrow> p = OutputPort
   | PortDisable p \<Rightarrow> p = OutputPort
   | PortEnable p \<Rightarrow> p = OutputPort
   | OtherCommand _ n \<Rightarrow> n = 1)"

definition command_proxy :: "platform \<Rightarrow> omx_command \<Rightarrow> omx_vdec \<Rightarrow> proxy" where
  "command_proxy P cmd s =
     (case cmd of
        StateSet eState \<Rightarrow> state_set_proxy P eState s
      | _ \<Rightarrow>
          if m_state s = StateInvalid then
            (if param_is_one cmd then refuse ErrorInvalidState s else accept s)
          else case cmd of
                 Flush port \<Rightarrow> flush_proxy P port s
               | PortEnable port \<Rightarrow> port_enable_proxy port s
               | PortDisable port \<Rightarrow> port_disable_proxy P port s
               | _ \<Rightarrow> (ErrorNotImplemented, True, False, s))"

definition send_command_proxy :: "platform \<Rightarrow> omx_command \<Rightarrow> omx_vdec \<Rightarrow> OMX_ERRORTYPE \<times> omx_vdec" where
  "send_command_proxy P cmd s =
     (case command_proxy P cmd s of
        (eRet, bFlag, sem_posted, s) \<Rightarrow>
          let s = (if eRet = ErrorNone \<and> bFlag then post_event (GENERATE_EVENT (CommandComplete cmd)) s else s);
              s = (if \<not> sem_posted then sem_post s else s)
          in (eRet, s))"

end
