(* ===== verification/VdecEvents.thy ===== *)
theory VdecEvents
  imports VdecCommand
begin

text \<open>
  The message thread of the decoder component, \<open>process_event_cb\<close>, and the translation of the
  driver's messages, \<open>async_message_process\<close> (vdec/src/omx_vdec.cpp).
\<close>

section \<open>The handlers\<close>

definition report_unless :: "bool \<Rightarrow> omx_vdec \<Rightarrow> omx_vdec" where
  "report_unless ok s = (if ok then s else omx_report_error s)"

definition complete_command :: "platform \<Rightarrow> omx_command \<Rightarrow> omx_vdec \<Rightarrow> omx_vdec" where
  "complete_command P cmd s = (case cmd of
     StateSet st \<Rightarrow> callback (EventCmdComplete cmd) (s\<lparr>m_state := st\<rparr>)
   | PortDisable p \<Rightarrow>
       if has_flag OUTPUT_FLUSH_IN_DISABLE_PENDING s then set_flag DISABLE_OUTPUT_DEFERRED s
       else if p = OutputPort \<and> in_reconfig s then
         (case set_buffer_req P (op_buf_rcnfg s) (s\<lparr>in_reconfig := False, op_buf := op_buf_rcnfg s\<rparr>) of
            (e, s) \<Rightarrow> if e \<noteq> ErrorNone then omx_report_error s else callback (EventCmdComplete cmd) s)
       else callback (EventCmdComplete cmd) s
   | _ \<Rightarrow> callback (EventCmdComplete cmd) s)"

text \<open>
  A flush is completed in this way only when it was accepted in the Invalid state, which does nothing
  (\<open>command_proxy\<close>); other flushes report their end themselves. \<open>OMX_CommandFlush\<close> and \<open>OMX_EventError\<close>
  are both 1, so that the message is read as an error with the number of the port as its code:
  0, the input port, is \<open>OMX_StateInvalid\<close>, and \<open>OMX_ALL\<close> is 0xFFFFFFFF.
\<close>

definition flush_as_error :: "port \<Rightarrow> omx_vdec \<Rightarrow> omx_vdec" where
  "flush_as_error port s = (case port of
     InputPort \<Rightarrow> callback (EventError ErrorInvalidState) (s\<lparr>m_state := StateInvalid\<rparr>)
   | OutputPort \<Rightarrow> callback (EventError (ErrorNumber 1)) s
   | AllPorts \<Rightarrow> callback (EventError (ErrorNumber 0xFFFFFFFF)) s
   | OtherPort n \<Rightarrow> if n = 0x80001009 then omx_report_error s else callback (EventError (ErrorNumber n)) s)"

definition process_generated :: "platform \<Rightarrow> omx_event \<Rightarrow> omx_vdec \<Rightarrow> omx_vdec" where
  "process_generated P ev s = (case ev of
     CommandComplete (Flush port) \<Rightarrow> flush_as_error port s
   | CommandComplete cmd \<Rightarrow> complete_command P cmd s
   | ErrorStateInvalid \<Rightarrow> callback (EventError ErrorInvalidState) (s\<lparr>m_state := StateInvalid\<rparr>)
   | ErrorCode ErrorHardware \<Rightarrow> omx_report_error s
   | ErrorCode e \<Rightarrow> callback (EventError e) s)"

definition MAX_INPUT_ERROR :: u32 where
  "MAX_INPUT_ERROR = 32 + 256"

definition header_ts :: "header_ptr \<Rightarrow> omx_vdec \<Rightarrow> int option" where
  "header_ts p s = map_option (\<lambda>b. nTimeStamp (hdr b)) (load_header (m_inp_mem_ptr s) p)"

definition process_ebd :: "header_ptr \<Rightarrow> u32 \<Rightarrow> omx_vdec \<Rightarrow> omx_vdec option" where
  "process_ebd p status s =
     (if status \<noteq> VDEC_S_SUCCESS \<and> status \<noteq> VDEC_S_INPUT_BITSTREAM_ERR then Some (omx_report_error s)
      else do {
        s \<leftarrow> (if status = VDEC_S_INPUT_BITSTREAM_ERR \<and> p \<noteq> None then do {
               let s = s\<lparr>m_inp_err_count := m_inp_err_count s + 1\<rparr>;
               ts \<leftarrow> header_ts p s;
               Some (s\<lparr>time_stamp_dts := snd (remove_time_stamp ts (interlaced s) (time_stamp_dts s))\<rparr>)
             }
             else Some (s\<lparr>m_inp_err_count := 0\<rparr>));
        s \<leftarrow> map_option report_failure (empty_buffer_done p s);
        Some (report_unless (m_inp_err_count s \<le> MAX_INPUT_ERROR) s)
      })"

definition process_fbd :: "platform \<Rightarrow> header_ptr \<Rightarrow> u32 \<Rightarrow> omx_vdec \<Rightarrow> omx_vdec option" where
  "process_fbd P p status s =
     (if status \<noteq> VDEC_S_SUCCESS then Some (omx_report_error s)
      else map_option report_failure (fill_buffer_done P p s))"

text \<open>The driver is stopped when the later one of the two flushes has completed.\<close>

definition stop_if_idle_pending :: "platform \<Rightarrow> bool \<Rightarrow> omx_vdec \<Rightarrow> omx_vdec" where
  "stop_if_idle_pending P other_flush s =
     (if has_flag IDLE_PENDING s \<and> \<not> other_flush
      then (case ioctl P CMD_STOP s of (ok, s) \<Rightarrow> report_unless ok s) else s)"

definition process_input_flush :: "platform \<Rightarrow> u32 \<Rightarrow> omx_vdec \<Rightarrow> omx_vdec option" where
  "process_input_flush P status s =
     (if \<not> input_flush_progress s then Some s
      else do {
        s \<leftarrow> execute_input_flush s;
        if status \<noteq> VDEC_S_SUCCESS then Some (omx_report_error s)
        else
          let s = (if has_flag INPUT_FLUSH_PENDING s
                   then callback (EventCmdComplete (Flush InputPort)) (clear_flag INPUT_FLUSH_PENDING s) else s)
          in Some (stop_if_idle_pending P (output_flush_progress s) s)
      })"

definition end_disable_flush :: "omx_vdec \<Rightarrow> omx_vdec" where
  "end_disable_flush s =
     (if has_flag OUTPUT_FLUSH_IN_DISABLE_PENDING s then
        let s = clear_flag OUTPUT_FLUSH_IN_DISABLE_PENDING s
        in if has_flag DISABLE_OUTPUT_DEFERRED s
           then clear_flag DISABLE_OUTPUT_DEFERRED
                  (post_event (GENERATE_EVENT (CommandComplete (PortDisable OutputPort))) s)
           else s
      else s)"

definition process_output_flush :: "platform \<Rightarrow> u32 \<Rightarrow> omx_vdec \<Rightarrow> omx_vdec option" where
  "process_output_flush P status s =
     (if \<not> output_flush_progress s then Some s
      else do {
        s \<leftarrow> execute_output_flush P s;
        if status \<noteq> VDEC_S_SUCCESS then Some (omx_report_error s)
        else
          let s = (if has_flag OUTPUT_FLUSH_PENDING s
                   then callback (EventCmdComplete (Flush OutputPort)) (clear_flag OUTPUT_FLUSH_PENDING s) else s);
              s = end_disable_flush s
          in Some (stop_if_idle_pending P (input_flush_progress s) s)
      })"

definition enter_state :: "nat \<Rightarrow> OMX_STATETYPE \<Rightarrow> omx_vdec \<Rightarrow> omx_vdec" where
  "enter_state flg st s =
     callback (EventCmdComplete (StateSet st)) ((clear_flag flg s)\<lparr>m_state := st\<rparr>)"

definition process_start_done :: "platform \<Rightarrow> u32 \<Rightarrow> omx_vdec \<Rightarrow> omx_vdec" where
  "process_start_done P status s =
     (if status \<noteq> VDEC_S_SUCCESS then omx_report_error s
      else if has_flag EXECUTE_PENDING s then enter_state EXECUTE_PENDING StateExecuting s
      else if has_flag PAUSE_PENDING s
      then (case ioctl P CMD_PAUSE s of (ok, s) \<Rightarrow> report_unless ok s)
      else s)"

definition process_resume_done :: "u32 \<Rightarrow> omx_vdec \<Rightarrow> omx_vdec" where
  "process_resume_done status s =
     (if status \<noteq> VDEC_S_SUCCESS then omx_report_error s
      else if has_flag EXECUTE_PENDING s then enter_state EXECUTE_PENDING StateExecuting s else s)"

definition process_pause_done :: "platform \<Rightarrow> u32 \<Rightarrow> omx_vdec \<Rightarrow> omx_vdec option" where
  "process_pause_done P status s =
     (if status \<noteq> VDEC_S_SUCCESS then Some (omx_report_error s)
      else do {
        s \<leftarrow> complete_pending_buffer_done_cbs P s;
        Some (if has_flag PAUSE_PENDING s then enter_state PAUSE_PENDING StatePause s else s)
      })"

definition process_stop_done :: "platform \<Rightarrow> u32 \<Rightarrow> omx_vdec \<Rightarrow> omx_vdec option" where
  "process_stop_done P status s =
     (if status \<noteq> VDEC_S_SUCCESS then Some (omx_report_error s)
      else do {
        s \<leftarrow> complete_pending_buffer_done_cbs P s;
        Some (if has_flag IDLE_PENDING s then enter_state IDLE_PENDING StateIdle s else s)
      })"

definition process_port_reconfig :: "platform \<Rightarrow> reconfig_index \<Rightarrow> omx_vdec \<Rightarrow> omx_vdec" where
  "process_port_reconfig P idx s =
     (case (if idx = ParamPortDefinition then start_port_reconfig P s else (ErrorNone, s)) of
        (e, s) \<Rightarrow>
          if e \<noteq> ErrorNone then omx_report_error s
          else
            let s = callback (EventPortSettingsChanged idx) s
            in if interlaced s then callback (EventIndexsettingChanged (interlace s)) s else s)"

definition process_msg :: "platform \<Rightarrow> vdec_msg \<Rightarrow> omx_vdec \<Rightarrow> omx_vdec option" where
  "process_msg P m s = (case m of
     GENERATE_EVENT ev \<Rightarrow> Some (process_generated P ev s)
   | GENERATE_ETB p \<Rightarrow> map_option report_failure (empty_this_buffer_proxy P p s)
   | GENERATE_FTB p \<Rightarrow> map_option report_failure (fill_this_buffer_proxy P p s)
   | GENERATE_COMMAND cmd \<Rightarrow> Some (snd (send_command_proxy P cmd s))
   | GENERATE_EBD p status \<Rightarrow> process_ebd p status s
   | INFO_FIELD_DROPPED ts \<Rightarrow>
       Some (s\<lparr>time_stamp_dts := snd (remove_time_stamp ts (interlaced s) (time_stamp_dts s))\<rparr>)
   | GENERATE_FBD p status \<Rightarrow> process_fbd P p status s
   | EVENT_INPUT_FLUSH status \<Rightarrow> process_input_flush P status s
   | EVENT_OUTPUT_FLUSH status \<Rightarrow> process_output_flush P status s
   | START_DONE status \<Rightarrow> Some (process_start_done P status s)
   | PAUSE_DONE status \<Rightarrow> process_pause_done P status s
   | RESUME_DONE status \<Rightarrow> Some (process_resume_done status s)
   | STOP_DONE status \<Rightarrow> process_stop_done P status s
   | PORT_RECONFIG idx \<Rightarrow> Some (process_port_reconfig P idx s)
   | EOS_DONE \<Rightarrow> Some (reset_prev_ts (callback EventBufferFlagEOS s))
   | HARDWARE_ERROR \<Rightarrow> Some (omx_report_error s))"

section \<open>The loop\<close>

text \<open>Commands first, then output buffers, then input buffers; while paused commands only.\<close>

definition next_msg :: "omx_vdec \<Rightarrow> (vdec_msg \<times> omx_vdec) option" where
  "next_msg s =
     (case pop_entry (m_cmd_q s) of
        Some (m, q) \<Rightarrow> Some (m, s\<lparr>m_cmd_q := q\<rparr>)
      | None \<Rightarrow>
          if m_state s = StatePause then None
          else case pop_entry (m_ftb_q s) of
                 Some (m, q) \<Rightarrow> Some (m, s\<lparr>m_ftb_q := q\<rparr>)
               | None \<Rightarrow>
                   (case pop_entry (m_etb_q s) of
                      Some (m, q) \<Rightarrow> Some (m, s\<lparr>m_etb_q := q\<rparr>)
                    | None \<Rightarrow> None))"

definition more_msgs :: "omx_vdec \<Rightarrow> bool" where
  "more_msgs s \<longleftrightarrow>
     m_size (m_cmd_q s) + (if m_state s \<noteq> StatePause then m_size (m_ftb_q s) + m_size (m_etb_q s) else 0) > 0"

definition process_one :: "platform \<Rightarrow> omx_vdec \<Rightarrow> omx_vdec option" where
  "process_one P s = (case next_msg s of None \<Rightarrow> Some s | Some (m, s) \<Rightarrow> process_msg P m s)"

partial_function (option) process_event_cb :: "platform \<Rightarrow> omx_vdec \<Rightarrow> omx_vdec option" where
  "process_event_cb P s = do {
     s \<leftarrow> process_one P s;
     if more_msgs s then process_event_cb P s else Some s
   }"

section \<open>Messages of the driver\<close>

record output_frame =
  frame_client_data :: header_ptr
  frame_len :: nat
  frame_offset :: nat
  frame_time_stamp :: int
  frame_flags :: u32
  frame_sync :: bool
  frame_size :: "nat \<times> nat \<times> nat \<times> nat"

text \<open>\<open>frame_sync\<close> stands for a picture type that is IDR (H.264) or I.\<close>

datatype driver_msg =
    MSG_START_DONE u32 | MSG_STOP_DONE u32 | MSG_RESUME_DONE u32 | MSG_PAUSE_DONE u32
  | MSG_FLUSH_INPUT_DONE u32 | MSG_FLUSH_OUTPUT_DONE u32
  | MSG_INPUT_DONE header_ptr u32
  | MSG_FIELD_DROPPED int
  | MSG_OUTPUT_DONE output_frame u32
  | MSG_CONFIG_CHANGED
  | MSG_HW_ERROR

definition sync_flag :: "output_frame \<Rightarrow> u32" where
  "sync_flag f = (if frame_sync f then frame_flags f OR 0x20 else frame_flags f AND NOT 0x20)"

text \<open>The header behind the pointer is read before the pointer is compared with the array.\<close>

definition no_frame :: "output_frame \<Rightarrow> omx_vdec \<Rightarrow> omx_vdec" where
  "no_frame f s = post_event (if sync_flag f AND 1 \<noteq> 0 then EOS_DONE else HARDWARE_ERROR) s"

definition output_done :: "output_frame \<Rightarrow> u32 \<Rightarrow> omx_vdec \<Rightarrow> omx_vdec option" where
  "output_done f status s =
     (case frame_client_data f of
        None \<Rightarrow> Some (no_frame f s)
      | Some i \<Rightarrow> do {
          b \<leftarrow> load_header (m_out_mem_ptr s) (Some i);
          if pPortPrivate b \<and> i < actualcount (op_buf s) then
            let s = (if frame_len f \<le> nAllocLen (hdr b) then
                       let h = (hdr b)\<lparr>nFilledLen := frame_len f, nOffset := frame_offset f,
                                nTimeStamp := frame_time_stamp f, nFlags := sync_flag f\<rparr>;
                           s = store_out (Some i) h b s
                       in if frame_len f \<noteq> 0 \<and> rectangle s \<noteq> frame_size f
                          then post_event (PORT_RECONFIG ConfigCommonOutputCrop) (s\<lparr>rectangle := frame_size f\<rparr>)
                          else s
                     else store_out (Some i) ((hdr b)\<lparr>nFilledLen := 0\<rparr>) b s)
            in Some (post_event (GENERATE_FBD (Some i) status) s)
          else Some (no_frame f s)
        })"

definition input_done :: "header_ptr \<Rightarrow> u32 \<Rightarrow> omx_vdec \<Rightarrow> omx_vdec" where
  "input_done p status s =
     (if (case p of None \<Rightarrow> True | Some i \<Rightarrow> i > actualcount (ip_buf s))
      then post_event (GENERATE_EBD None VDEC_S_EFATAL) s
      else post_event (GENERATE_EBD p status) s)"

definition async_message_process :: "driver_msg \<Rightarrow> omx_vdec \<Rightarrow> omx_vdec option" where
  "async_message_process m s = (case m of
     MSG_START_DONE status \<Rightarrow> Some (post_event (START_DONE status) s)
   | MSG_STOP_DONE status \<Rightarrow> Some (post_event (STOP_DONE status) s)
   | MSG_RESUME_DONE status \<Rightarrow> Some (post_event (RESUME_DONE status) s)
   | MSG_PAUSE_DONE status \<Rightarrow> Some (post_event (PAUSE_DONE status) s)
   | MSG_FLUSH_INPUT_DONE status \<Rightarrow> Some (post_event (EVENT_INPUT_FLUSH status) s)
   | MSG_FLUSH_OUTPUT_DONE status \<Rightarrow> Some (post_event (EVENT_OUTPUT_FLUSH status) s)
   | MSG_INPUT_DONE p status \<Rightarrow> Some (input_done p status s)
   | MSG_FIELD_DROPPED ts \<Rightarrow> Some (post_event (INFO_FIELD_DROPPED ts) s)
   | MSG_OUTPUT_DONE f status \<Rightarrow> output_done f status s
   | MSG_CONFIG_CHANGED \<Rightarrow> Some (post_event (PORT_RECONFIG ParamPortDefinition) s)
   | MSG_HW_ERROR \<Rightarrow> Some (post_event HARDWARE_ERROR s))"

end
