(* ===== verification/Mp4Safe.thy ===== *)
theory Mp4Safe
  imports Mp4Utils
begin

text \<open>
  When the MPEG-4 header parser (vdec/src/mp4_utils.cpp) stays inside the memory it is given. It takes
  the length of the frame for every search anew, from wherever it is, so that it reads up to four
  times that length from the beginning of the frame.
\<close>

section \<open>Room in front of the reader\<close>

text \<open>After \<open>k\<close> more bits a window of four bytes still lies inside the memory.\<close>

definition fits :: "nat \<Rightarrow> posInfoType \<Rightarrow> bool" where
  "fits k s \<longleftrightarrow> 8 * bytePtr s + bitPos s + k + 32 \<le> 8 * length (mp4_mem s)"

lemma read_fits:
  assumes "fits k s" "n \<le> k"
  shows "\<exists>v s'. read_bit_field n s = Some (v, s') \<and> fits (k - n) s' \<and> mp4_mem s' = mp4_mem s \<and>
    8 * bytePtr s' + bitPos s' = 8 * bytePtr s + bitPos s + n"
proof -
  have b: "bytePtr s + 4 \<le> length (mp4_mem s)" using assms by (simp add: fits_def)
  let ?s = "s\<lparr>bitPos := (bitPos s + n) mod 8, bytePtr := bytePtr s + (bitPos s + n) div 8\<rparr>"
  obtain v where r: "read_bit_field n s = Some (v, ?s)"
    using b by (simp add: read_bit_field_def mem_at_def normalize_div Let_def)
  have "8 * ((bitPos s + n) div 8) + (bitPos s + n) mod 8 = bitPos s + n" by simp
  then have p: "8 * bytePtr ?s + bitPos ?s = 8 * bytePtr s + bitPos s + n" by simp
  then have "fits (k - n) ?s" using assms by (simp add: fits_def)
  with r p show ?thesis by (intro exI [of _ v] exI [of _ ?s]) simp
qed

lemma find_loop_in: "p + n \<le> length mem \<Longrightarrow>
  \<exists>r. find_code_loop mem p n m c code = Some r \<and> (\<forall>q. r = Some q \<longrightarrow> q \<le> p + n)"
proof (induction mem p n m c code rule: find_code_loop.induct)
  case (1 mem p n m c code)
  show ?case
  proof (cases "n = 0")
    case True
    then show ?thesis by (simp add: find_code_loop.simps)
  next
    case False
    then have b: "mem_at mem p = Some (mem ! p)" using 1(2) by (simp add: mem_at_def)
    let ?c = "shl32 code 8 OR ucast (mem ! p)"
    show ?thesis
    proof (cases "?c AND m = c")
      case True
      then show ?thesis using False b by (simp add: find_code_loop.simps [of mem p n] Let_def)
    next
      case no: False
      have "p + 1 + (n - 1) \<le> length mem" using 1(2) False by simp
      from 1(1) [OF False b refl no this] obtain r where
        "find_code_loop mem (p + 1) (n - 1) m c ?c = Some r" "\<forall>q. r = Some q \<longrightarrow> q \<le> p + 1 + (n - 1)" by blast
      then show ?thesis using False b no by (simp add: find_code_loop.simps [of mem p n] Let_def)
    qed
  qed
qed

lemma find_in: "p + n \<le> length mem \<Longrightarrow> \<exists>r. find_code mem p n m c = Some r \<and> (\<forall>q. r = Some q \<longrightarrow> q \<le> p + n)"
  by (simp add: find_code_def find_loop_in)

section \<open>The stages\<close>

text \<open>A stage that returns: with false, or with a reader that has room left.\<close>

definition stage :: "nat \<Rightarrow> posInfoType option option \<Rightarrow> bool" where
  "stage k r \<longleftrightarrow> (\<exists>x. r = Some x \<and> (\<forall>s. x = Some s \<longrightarrow> fits k s))"

lemma marked_fields_stage: "fits (k + sum_list (map Suc ns)) s \<Longrightarrow> stage k (marked_fields ns s)"
proof (induction ns arbitrary: s)
  case Nil
  then show ?case by (simp add: stage_def)
next
  case (Cons n ns)
  obtain v s1 where 1: "read_bit_field n s = Some (v, s1)" "fits (k + Suc (sum_list (map Suc ns))) s1"
    using read_fits [OF Cons.prems, of n] by (auto simp: add.commute)
  obtain w s2 where 2: "read_bit_field 1 s1 = Some (w, s2)" "fits (k + sum_list (map Suc ns)) s2"
    using read_fits [OF 1(2), of 1] by (auto simp: add.commute)
  then show ?case using 1 Cons.IH [OF 2(2)] by (simp add: stage_def)
qed

lemma vbv_stage: "fits (k + 79) s \<Longrightarrow> stage k (vbv_parameters s)"
proof -
  assume s: "fits (k + 79) s"
  have "stage (k + 31) (marked_fields [15, 15, 15] s)" by (rule marked_fields_stage) (use s in \<open>simp add: add.commute\<close>)
  then obtain x where x: "marked_fields [15, 15, 15] s = Some x" "\<And>t. x = Some t \<Longrightarrow> fits (k + 31) t"
    by (auto simp: stage_def)
  show ?thesis
  proof (cases x)
    case (Some t)
    obtain v t1 where t1: "read_bit_field 3 t = Some (v, t1)" "fits (k + 28) t1"
      using read_fits [OF x(2) [OF Some], of 3] by (auto simp: add.commute)
    have "stage k (marked_fields [11, 15] t1)" by (rule marked_fields_stage) (use t1 in \<open>simp add: add.commute\<close>)
    then show ?thesis using x(1) Some t1 by (simp add: vbv_parameters_def)
  qed (use x in \<open>simp add: vbv_parameters_def stage_def\<close>)
qed

lemma vol_control_stage: "fits (k + 83) s \<Longrightarrow> stage k (vol_control_parameters s)"
proof -
  assume s: "fits (k + 83) s"
  obtain v s1 where 1: "read_bit_field 2 s = Some (v, s1)" "fits (k + 81) s1" using read_fits [OF s, of 2] by (auto simp: add.commute)
  obtain w s2 where 2: "read_bit_field 1 s1 = Some (w, s2)" "fits (k + 80) s2" using read_fits [OF 1(2), of 1] by (auto simp: add.commute)
  obtain x s3 where 3: "read_bit_field 1 s2 = Some (x, s3)" "fits (k + 79) s3" using read_fits [OF 2(2), of 1] by (auto simp: add.commute)
  have "fits k s3" using 3(2) by (simp add: fits_def)
  then show ?thesis using 1(1) 2(1) 3(1) vbv_stage [OF 3(2)]
    by (simp add: vol_control_parameters_def) (simp add: stage_def)
qed

lemma layer_control_stage: "fits (k + 84) s \<Longrightarrow> stage k (layer_control s)"
proof -
  assume s: "fits (k + 84) s"
  obtain v s1 where 1: "read_bit_field 1 s = Some (v, s1)" "fits (k + 83) s1" using read_fits [OF s, of 1] by (auto simp: add.commute)
  have "fits k s1" using 1(2) by (simp add: fits_def)
  then show ?thesis using 1(1) vol_control_stage [OF 1(2)] by (simp add: layer_control_def) (simp add: stage_def)
qed

lemma layer_identifier_fits: "fits (k + 8) s \<Longrightarrow> \<exists>t. layer_identifier s = Some t \<and> fits k t"
proof -
  assume s: "fits (k + 8) s"
  obtain v s1 where 1: "read_bit_field 1 s = Some (v, s1)" "fits (k + 7) s1" using read_fits [OF s, of 1] by (auto simp: add.commute)
  obtain w s2 where 2: "read_bit_field 4 s1 = Some (w, s2)" "fits (k + 3) s2" using read_fits [OF 1(2), of 4] by (auto simp: add.commute)
  obtain x s3 where 3: "read_bit_field 3 s2 = Some (x, s3)" "fits k s3" using read_fits [OF 2(2), of 3] by (auto simp: add.commute)
  have "fits k s1" using 1(2) by (simp add: fits_def)
  then show ?thesis using 1(1) 2(1) 3 by (simp add: layer_identifier_def)
qed

lemma layer_aspect_fits: "fits (k + 20) s \<Longrightarrow> \<exists>t. layer_aspect_ratio s = Some t \<and> fits k t"
proof -
  assume s: "fits (k + 20) s"
  obtain v s1 where 1: "read_bit_field 4 s = Some (v, s1)" "fits (k + 16) s1" using read_fits [OF s, of 4] by (auto simp: add.commute)
  obtain w s2 where 2: "read_bit_field 8 s1 = Some (w, s2)" "fits (k + 8) s2" using read_fits [OF 1(2), of 8] by (auto simp: add.commute)
  obtain x s3 where 3: "read_bit_field 8 s2 = Some (x, s3)" "fits k s3" using read_fits [OF 2(2), of 8] by (auto simp: add.commute)
  have "fits k s1" using 1(2) by (simp add: fits_def)
  then show ?thesis using 1(1) 2(1) 3 by (simp add: layer_aspect_ratio_def)
qed

lemma layer_resolution_returns: "fits 19 s \<Longrightarrow> \<exists>r. layer_resolution s = Some r"
proof -
  assume s: "fits 19 s"
  obtain v s1 where 1: "read_bit_field 2 s = Some (v, s1)" "fits 17 s1" using read_fits [OF s, of 2] by (auto simp: add.commute)
  obtain w s2 where 2: "read_bit_field 1 s1 = Some (w, s2)" "fits 16 s2" using read_fits [OF 1(2), of 1] by (auto simp: add.commute)
  obtain x s3 where 3: "read_bit_field 16 s2 = Some (x, s3)" using read_fits [OF 2(2), of 16] by (auto simp: add.commute)
  show ?thesis using 1(1) 2(1) 3 by (simp add: layer_resolution_def)
qed

lemma layer_header_returns: "fits 140 s \<Longrightarrow> \<exists>r. layer_header s = Some r"
proof -
  assume s: "fits 140 s"
  obtain v s1 where 1: "read_bit_field 1 s = Some (v, s1)" "fits 139 s1" using read_fits [OF s, of 1] by (auto simp: add.commute)
  obtain w s2 where 2: "read_bit_field 8 s1 = Some (w, s2)" "fits 131 s2" using read_fits [OF 1(2), of 8] by (auto simp: add.commute)
  obtain s3 where 3: "layer_identifier s2 = Some s3" "fits 123 s3" using layer_identifier_fits [of 123 s2] 2(2) by auto
  obtain s4 where 4: "layer_aspect_ratio s3 = Some s4" "fits 103 s4" using layer_aspect_fits [of 103 s3] 3(2) by auto
  have "stage 19 (layer_control s4)" by (rule layer_control_stage) (use 4(2) in \<open>simp add: add.commute\<close>)
  then obtain x where x: "layer_control s4 = Some x" "\<And>t. x = Some t \<Longrightarrow> fits 19 t" by (auto simp: stage_def)
  show ?thesis
  proof (cases x)
    case None
    then show ?thesis using 1(1) 2(1) 3(1) 4(1) x(1) by (simp add: layer_header_def)
  next
    case (Some t)
    then obtain r where "layer_resolution t = Some r" using layer_resolution_returns x(2) by blast
    then show ?thesis using 1(1) 2(1) 3(1) 4(1) x(1) Some by (simp add: layer_header_def)
  qed
qed

section \<open>The whole parser\<close>

lemma visual_sequence_in:
  assumes "4 * n + 24 \<le> length mem"
  shows "\<exists>s. visual_sequence mem n = Some s \<and> mp4_mem s = mem \<and> bytePtr s \<le> n + 1 \<and> bitPos s = 0"
proof -
  obtain r where r: "find_code mem 0 n (MASK 32) VISUAL_OBJECT_SEQUENCE_START_CODE = Some r" "\<And>q. r = Some q \<Longrightarrow> q \<le> n"
    using find_in [of 0 n mem] assms by fastforce
  show ?thesis
  proof (cases r)
    case (Some p)
    have "p + 4 \<le> length mem" using r(2) [OF Some] assms by simp
    then show ?thesis using r(1) Some r(2) [OF Some]
      by (simp add: visual_sequence_def read_bit_field_def mem_at_def normalize_div Let_def)
  qed (use r(1) in \<open>simp add: visual_sequence_def\<close>)
qed

lemma visual_object_in:
  assumes l: "4 * n + 24 \<le> length (mp4_mem s)" and p: "bytePtr s \<le> n + 1" "bitPos s = 0"
  shows "\<exists>x. visual_object n s = Some x \<and> (\<forall>t. x = Some t \<longrightarrow> mp4_mem t = mp4_mem s \<and> bytePtr t \<le> 3 * n + 2)"
proof -
  obtain r where r: "find_code (mp4_mem s) (bytePtr s) n (MASK 32) VISUAL_OBJECT_START_CODE = Some r"
      "\<And>q. r = Some q \<Longrightarrow> q \<le> 2 * n + 1"
    using find_in [of "bytePtr s" n "mp4_mem s"] l p by fastforce
  show ?thesis
  proof (cases r)
    case None
    then show ?thesis using r(1) by (simp add: visual_object_def)
  next
    case (Some q)
    have "fits (4 + 8) (s\<lparr>bytePtr := q\<rparr>)" using r(2) [OF Some] l p by (simp add: fits_def)
    then obtain v s1 where 1: "read_bit_field 1 (s\<lparr>bytePtr := q\<rparr>) = Some (v, s1)" "fits 11 s1" "mp4_mem s1 = mp4_mem s"
        "8 * bytePtr s1 + bitPos s1 = 8 * q + 1"
      using read_fits [of 12 "s\<lparr>bytePtr := q\<rparr>" 1] p by auto
    let ?id = "if v \<noteq> 0 then do { (_, s) \<leftarrow> read_bit_field 4 s1; (_, s) \<leftarrow> read_bit_field 3 s; Some s } else Some s1"
    obtain w t where w: "read_bit_field 4 s1 = Some (w, t)" "fits 7 t" "mp4_mem t = mp4_mem s"
        "8 * bytePtr t + bitPos t = 8 * q + 5" using read_fits [OF 1(2), of 4] 1(3,4) by auto
    obtain x u where x: "read_bit_field 3 t = Some (x, u)" "fits 4 u" "mp4_mem u = mp4_mem s"
        "8 * bytePtr u + bitPos u = 8 * q + 8" using read_fits [OF w(2), of 3] w(3,4) by auto
    have "fits 4 s1" using 1(2) by (simp add: fits_def)
    then obtain s2 where 2: "?id = Some s2" "fits 4 s2" "mp4_mem s2 = mp4_mem s" "8 * bytePtr s2 + bitPos s2 \<le> 8 * q + 8"
      using 1 w(1) x by (cases "v = 0") auto
    obtain y s3 where 3: "read_bit_field 4 s2 = Some (y, s3)" "mp4_mem s3 = mp4_mem s"
        "8 * bytePtr s3 + bitPos s3 \<le> 8 * q + 12" using read_fits [OF 2(2), of 4] 2(3,4) by auto
    have b: "bytePtr s3 \<le> 2 * n + 2" using 3(3) r(2) [OF Some] by simp
    obtain z where z: "find_code (mp4_mem s3) (bytePtr s3) n VIDEO_OBJECT_START_CODE_MASK VIDEO_OBJECT_START_CODE = Some z"
        "\<And>q. z = Some q \<Longrightarrow> q \<le> 3 * n + 2"
      using find_in [of "bytePtr s3" n "mp4_mem s3"] l b 3(2) by fastforce
    show ?thesis
    proof (cases "y = 1")
      case True
      then show ?thesis using r(1) Some 1(1) 2(1) 3(1,2) z by (cases z) (auto simp: visual_object_def)
    next
      case False
      then show ?thesis using r(1) Some 1(1) 2(1) 3(1) by (auto simp: visual_object_def)
    qed
  qed
qed

lemma layer_start_in:
  assumes l: "4 * n + 24 \<le> length (mp4_mem s)" and p: "bytePtr s \<le> 3 * n + 2"
  shows "\<exists>t. layer_start n s = Some t \<and> fits 140 t"
proof -
  obtain r where r: "find_code (mp4_mem s) (bytePtr s) n VIDEO_OBJECT_LAYER_START_CODE_MASK VIDEO_OBJECT_LAYER_START_CODE = Some r"
      "\<And>q. r = Some q \<Longrightarrow> q \<le> 4 * n + 2"
    using find_in [of "bytePtr s" n "mp4_mem s"] l p by fastforce
  show ?thesis
  proof (cases r)
    case None
    then show ?thesis using r(1) l by (simp add: layer_start_def fits_def)
  next
    case (Some q)
    then show ?thesis using r(1) r(2) [OF Some] l by (simp add: layer_start_def fits_def)
  qed
qed

lemma parse_header_in:
  assumes "4 * n + 24 \<le> length bytes"
  shows "parse_header bytes n m \<noteq> None"
proof -
  obtain a where a: "find_code bytes 0 4 (MASK 32) VOP_START_CODE = Some a" using find_in [of 0 4 bytes] assms by fastforce
  obtain b where b: "find_code bytes 0 4 (MASK 32) GOV_START_CODE = Some b" using find_in [of 0 4 bytes] assms by fastforce
  obtain s where s: "visual_sequence bytes n = Some s" "mp4_mem s = bytes" "bytePtr s \<le> n + 1" "bitPos s = 0"
    using visual_sequence_in [OF assms] by blast
  obtain x where x: "visual_object n s = Some x" "\<And>t. x = Some t \<Longrightarrow> mp4_mem t = bytes \<and> bytePtr t \<le> 3 * n + 2"
    using visual_object_in [of n s] s assms by auto
  show ?thesis
  proof (cases x)
    case None
    then show ?thesis using a b s(1) x(1) by (auto simp: parse_header_def)
  next
    case (Some t)
    obtain u where u: "layer_start n t = Some u" "fits 140 u" using layer_start_in [of n t] x(2) [OF Some] assms by auto
    obtain r where "layer_header u = Some r" using layer_header_returns [OF u(2)] by blast
    then show ?thesis using a b s(1) x(1) Some u(1) by (auto simp: parse_header_def)
  qed
qed

lemma parse_header_no_layer:
  assumes "take 4 bytes = [0, 0, 1, b]" "b = 0xB6 \<or> b = 0xB3"
  shows "parse_header bytes n m = Some (False, m)"
proof -
  obtain rest where "bytes = 0 # 0 # 1 # b # rest"
    using assms(1) append_take_drop_id [of 4 bytes] by (metis append_Cons append_Nil)
  moreover have "(3 :: nat) = Suc (Suc (Suc 0))" "(4 :: nat) = Suc (Suc (Suc (Suc 0)))" by simp_all
  ultimately show ?thesis using assms(2)
    by (auto simp: parse_header_def find_code_def find_code_loop.simps mem_at_def MASK_def VOP_START_CODE_def
        GOV_START_CODE_def shl32_def shr32_def)
qed

text \<open>
  Memory the parser stays in on a frame of \<open>n\<close> bytes: the frame begins with the start code of a VOP or
  of a group of VOPs, or there is room for the four searches, which each start behind the last one and
  cover as many bytes as the frame has, and for the fields of the layer.
\<close>

definition readable :: "u8 list \<Rightarrow> nat \<Rightarrow> bool" where
  "readable bytes n \<longleftrightarrow> n \<le> length bytes \<and>
     (take 4 bytes = [0, 0, 1, 0xB6] \<or> take 4 bytes = [0, 0, 1, 0xB3] \<or> 4 * n + 24 \<le> length bytes)"

lemma readable_returns: "readable bytes n \<Longrightarrow> \<exists>r. parse_header bytes n m = Some r"
  using parse_header_in [of n bytes m] parse_header_no_layer [of bytes _ n m] unfolding readable_def by fastforce

lemma readable_empty: "readable bytes n \<Longrightarrow> readable bytes 0"
  by (auto simp: readable_def)

lemma readable_slack: "4 * n + 24 \<le> length bytes \<Longrightarrow> readable bytes n"
  by (simp add: readable_def)

section \<open>VOPs that are not coded\<close>

lemma modulo_loop_in:
  "len \<le> length pbuffer \<Longrightarrow> index < len \<Longrightarrow> \<exists>r. modulo_loop pbuffer len index bits_parsed = Some r"
proof (induction pbuffer len index bits_parsed rule: modulo_loop.induct)
  case (1 pbuffer len index bits_parsed)
  have b: "mem_at pbuffer index = Some (pbuffer ! index)" using 1(2,3) by (simp add: mem_at_def)
  show ?case
    by (subst modulo_loop.simps) (use 1(1) [OF b refl refl refl refl] 1(2) b in \<open>auto simp: Let_def\<close>)
qed

lemma is_notcodec_vop_in:
  assumes "n \<le> length bytes"
  shows "\<exists>c. is_notcodec_vop bytes n m = Some c"
proof (cases "vop_time_found m \<and> 5 \<le> n \<and> take 4 bytes = [0, 0, 1, 0xB6]")
  case True
  then obtain r where r: "modulo_loop bytes n 4 2 = Some r" using modulo_loop_in [of n bytes 4 2] assms by auto
  then show ?thesis using True assms
    by (cases r) (auto simp: is_notcodec_vop_def Let_def mem_at_def split: prod.splits)
next
  case False
  then show ?thesis using assms by (auto simp: is_notcodec_vop_def)
qed

end
