(* ===== verification/VdecLoop.thy ===== *)
theory VdecLoop
  imports VdecEvents Mp4Safe
begin

text \<open>
  The message thread of the decoder component returns: every message it takes is processed without
  an invalid access, posts less work than it was, and keeps the messages in the queues valid. Each
  command is acknowledged to the client that waits for it.
\<close>

section \<open>What a step keeps\<close>

text \<open>The lengths of the header arrays.\<close>

definition shape :: "omx_vdec \<Rightarrow> nat option \<times> nat option" where
  "shape s = (map_option length (m_inp_mem_ptr s), map_option length (m_out_mem_ptr s))"

definition frame :: "omx_vdec \<Rightarrow>
    vdec_msg omx_cmd_queue \<times> vdec_msg omx_cmd_queue \<times> vdec_msg omx_cmd_queue \<times>
    (nat option \<times> nat option) \<times> codec_type \<times> buffer_header list option" where
  "frame s = (m_cmd_q s, m_ftb_q s, m_etb_q s, shape s, codec_type_parse s, m_inp_mem_ptr s)"

fun in_array :: "nat option \<Rightarrow> header_ptr \<Rightarrow> bool" where
  "in_array (Some n) (Some i) \<longleftrightarrow> i < n"
| "in_array _ _ \<longleftrightarrow> False"

definition ftb_msg_ok :: "nat option \<Rightarrow> vdec_msg \<Rightarrow> bool" where
  "ftb_msg_ok n m = (case m of GENERATE_FTB p \<Rightarrow> in_array n p | GENERATE_FBD p _ \<Rightarrow> in_array n p | _ \<Rightarrow> False)"

definition etb_msg_ok :: "nat option \<Rightarrow> vdec_msg \<Rightarrow> bool" where
  "etb_msg_ok n m = (case m of GENERATE_ETB p \<Rightarrow> in_array n p
     | GENERATE_EBD p _ \<Rightarrow> p = None \<or> in_array n p | _ \<Rightarrow> False)"

definition cmd_msg_ok :: "vdec_msg \<Rightarrow> bool" where
  "cmd_msg_ok m = (case m of GENERATE_FTB _ \<Rightarrow> False | GENERATE_FBD _ _ \<Rightarrow> False
     | GENERATE_ETB _ \<Rightarrow> False | GENERATE_EBD _ _ \<Rightarrow> False | _ \<Rightarrow> True)"

text \<open>
  For MPEG-4 and DivX the message thread parses the frame in the client's buffer, for which every
  input buffer the component has allocated must be \<open>readable\<close>.
\<close>

definition header_readable :: "omx_buffer \<Rightarrow> bool" where
  "header_readable h = readable (drop (nOffset h) (pBuffer h)) (nFilledLen h)"

definition memory_ok :: "codec_type \<Rightarrow> buffer_header list option \<Rightarrow> bool" where
  "memory_ok codec mem \<longleftrightarrow> codec = CODEC_TYPE_MPEG4 \<longrightarrow>
     (case mem of None \<Rightarrow> True | Some bs \<Rightarrow> \<forall>b \<in> set bs. pPortPrivate b \<longrightarrow> header_readable (hdr b))"

text \<open>The queues are rings of 100 entries and hold messages of their kind with pointers into the arrays.\<close>

definition vdec_ok :: "omx_vdec \<Rightarrow> bool" where
  "vdec_ok s = (case frame s of (c, f, e, (ni, no), codec, mem) \<Rightarrow>
     cmd_queue_ok c \<and> cmd_queue_ok f \<and> cmd_queue_ok e \<and> list_all cmd_msg_ok (entries c) \<and>
     list_all (ftb_msg_ok no) (entries f) \<and> list_all (etb_msg_ok ni) (entries e) \<and> memory_ok codec mem)"

text \<open>A message weighs one more than all it can post.\<close>

fun weight :: "vdec_msg \<Rightarrow> nat" where
  "weight (GENERATE_COMMAND _) = 4"
| "weight (GENERATE_ETB _) = 2"
| "weight (GENERATE_FBD _ _) = 2"
| "weight (EVENT_OUTPUT_FLUSH _) = 2"
| "weight _ = 1"

definition works :: "vdec_msg list \<Rightarrow> nat" where
  "works ms = sum_list (map weight ms)"

definition work :: "omx_vdec \<Rightarrow> nat" where
  "work s = (case frame s of (c, f, e, _) \<Rightarrow> works (entries c) + works (entries f) + works (entries e))"

definition is_command :: "vdec_msg \<Rightarrow> bool" where
  "is_command m = (case m of GENERATE_COMMAND _ \<Rightarrow> True | _ \<Rightarrow> False)"

definition commands_waiting :: "omx_vdec \<Rightarrow> nat" where
  "commands_waiting s = length (filter is_command (entries (fst (frame s))))"

text \<open>The commands that are posted or acknowledged.\<close>

definition acks :: "omx_vdec \<Rightarrow> nat" where
  "acks s = commands_waiting s + m_cmd_lock s"

definition keeps :: "nat \<Rightarrow> nat \<Rightarrow> omx_vdec \<Rightarrow> omx_vdec \<Rightarrow> bool" where
  "keeps k d s t \<longleftrightarrow> (vdec_ok s \<longrightarrow>
     vdec_ok t \<and> shape t = shape s \<and> work t \<le> work s + k \<and> acks t = acks s + d)"

lemma keeps_refl [simp]: "keeps k 0 s s"
  by (simp add: keeps_def)

lemma keeps_trans: "keeps k d s t \<Longrightarrow> keeps l e t u \<Longrightarrow> keeps (k + l) (d + e) s u"
  by (auto simp: keeps_def)

lemma keeps_mono: "keeps k d s t \<Longrightarrow> k \<le> l \<Longrightarrow> keeps l d s t"
  by (auto simp: keeps_def)

lemma keeps_frame:
  assumes "frame t = frame s" "m_cmd_lock t = m_cmd_lock s"
  shows "keeps k 0 s t"
proof -
  have "shape t = shape s" using assms(1) by (simp add: frame_def)
  then show ?thesis using assms by (simp add: keeps_def vdec_ok_def work_def acks_def commands_waiting_def)
qed

named_theorems frame_simps

lemma frame_update [frame_simps]:
  "frame (s\<lparr>m_state := a\<rparr>) = frame s" "frame (s\<lparr>m_flags := b\<rparr>) = frame s"
  "frame (s\<lparr>m_inp_bEnabled := c\<rparr>) = frame s" "frame (s\<lparr>m_out_bEnabled := c\<rparr>) = frame s"
  "frame (s\<lparr>m_inp_bPopulated := c\<rparr>) = frame s" "frame (s\<lparr>m_out_bPopulated := c\<rparr>) = frame s"
  "frame (s\<lparr>m_out_bm_count := b\<rparr>) = frame s" "frame (s\<lparr>op_buf := p\<rparr>) = frame s"
  "frame (s\<lparr>op_buf_rcnfg := p\<rparr>) = frame s" "frame (s\<lparr>input_flush_progress := c\<rparr>) = frame s"
  "frame (s\<lparr>output_flush_progress := c\<rparr>) = frame s" "frame (s\<lparr>pending_input_buffers := i\<rparr>) = frame s"
  "frame (s\<lparr>pending_output_buffers := i\<rparr>) = frame s" "frame (s\<lparr>m_error_propogated := c\<rparr>) = frame s"
  "frame (s\<lparr>in_reconfig := c\<rparr>) = frame s" "frame (s\<lparr>interlace := l\<rparr>) = frame s"
  "frame (s\<lparr>video_resolution := r\<rparr>) = frame s" "frame (s\<lparr>client_extradata := b\<rparr>) = frame s"
  "frame (s\<lparr>m_inp_err_count := b\<rparr>) = frame s" "frame (s\<lparr>time_stamp_dts := ts\<rparr>) = frame s"
  "frame (s\<lparr>prev_ts := i\<rparr>) = frame s" "frame (s\<lparr>rst_prev_ts := c\<rparr>) = frame s"
  "frame (s\<lparr>frm_int := b\<rparr>) = frame s" "frame (s\<lparr>m_cmd_lock := n\<rparr>) = frame s"
  "frame (s\<lparr>callbacks := cs\<rparr>) = frame s" "frame (s\<lparr>requests := rs\<rparr>) = frame s"
  "frame (s\<lparr>rectangle := rc\<rparr>) = frame s" "frame (s\<lparr>m_pipe := n\<rparr>) = frame s"
  "frame (s\<lparr>codec_config_flag := c\<rparr>) = frame s" "frame (s\<lparr>m_inp_bm_count := b\<rparr>) = frame s"
  "frame (s\<lparr>mp4_headerparser := mp4\<rparr>) = frame s"
  by (simp_all add: frame_def shape_def)

lemma frame_callback [frame_simps]: "frame (callback c s) = frame s" "m_cmd_lock (callback c s) = m_cmd_lock s"
  by (simp_all add: callback_def frame_simps)

lemma frame_report [frame_simps]: "frame (omx_report_error s) = frame s" "m_cmd_lock (omx_report_error s) = m_cmd_lock s"
  by (simp_all add: omx_report_error_def frame_simps)

lemma frame_answer [frame_simps]:
  "frame (snd (answer P r s)) = frame s" "m_cmd_lock (snd (answer P r s)) = m_cmd_lock s"
  by (simp_all add: answer_def frame_simps)

lemma frame_ioctl [frame_simps]:
  "frame (snd (ioctl P r s)) = frame s" "m_cmd_lock (snd (ioctl P r s)) = m_cmd_lock s"
  by (simp_all add: ioctl_def case_prod_beta frame_simps)

lemma frame_flags [frame_simps]:
  "frame (set_flag k s) = frame s" "m_cmd_lock (set_flag k s) = m_cmd_lock s"
  "frame (clear_flag k s) = frame s" "m_cmd_lock (clear_flag k s) = m_cmd_lock s"
  by (simp_all add: set_flag_def clear_flag_def frame_simps)

lemma length_store [simp]: "map_option length (store_header p b mem) = map_option length mem"
  by (simp add: store_header_def split: option.splits)

lemma frame_store [frame_simps]:
  "m_cmd_lock (store_in p h b s) = m_cmd_lock s"
  "frame (store_out p h b s) = frame s" "m_cmd_lock (store_out p h b s) = m_cmd_lock s"
  by (simp_all add: store_in_def store_out_def frame_def shape_def)

lemma frame_prev [frame_simps]: "frame (reset_prev_ts s) = frame s" "m_cmd_lock (reset_prev_ts s) = m_cmd_lock s"
  by (simp_all add: reset_prev_ts_def frame_simps)

lemma frame_rate [frame_simps]:
  "frame (set_frame_rate P t s) = frame s" "m_cmd_lock (set_frame_rate P t s) = m_cmd_lock s"
  by (simp_all add: set_frame_rate_def Let_def frame_simps)

lemma frame_sem_post [frame_simps]: "frame (sem_post s) = frame s"
  by (simp add: sem_post_def frame_simps)

lemma frame_unless [frame_simps]:
  "frame (report_unless ok s) = frame s" "m_cmd_lock (report_unless ok s) = m_cmd_lock s"
  by (simp_all add: report_unless_def frame_simps)

lemma frame_failure [frame_simps]:
  "frame (report_failure r) = frame (snd r)" "m_cmd_lock (report_failure r) = m_cmd_lock (snd r)"
  by (simp_all add: report_failure_def frame_simps split: prod.splits)

lemma frame_allocate [frame_simps]:
  "frame (snd (allocate_input_done s)) = frame s" "m_cmd_lock (snd (allocate_input_done s)) = m_cmd_lock s"
  "frame (snd (allocate_output_done s)) = frame s" "m_cmd_lock (snd (allocate_output_done s)) = m_cmd_lock s"
  "frame (snd (release_output_done s)) = frame s" "m_cmd_lock (snd (release_output_done s)) = m_cmd_lock s"
  by (simp_all add: allocate_input_done_def allocate_output_done_def release_output_done_def Let_def frame_simps)

lemma frame_allocate_done [frame_simps]:
  "frame (snd (allocate_done s)) = frame s" "m_cmd_lock (snd (allocate_done s)) = m_cmd_lock s"
  by (simp_all add: allocate_done_def case_prod_beta frame_simps)

lemma frame_release_done [frame_simps]:
  "frame (snd (release_done s)) = frame s" "m_cmd_lock (snd (release_done s)) = m_cmd_lock s"
  by (simp_all add: release_done_def frame_simps)

lemma frame_omx_flush [frame_simps]:
  "frame (snd (execute_omx_flush P port s)) = frame s"
  "m_cmd_lock (snd (execute_omx_flush P port s)) = m_cmd_lock s"
  by (simp_all add: execute_omx_flush_def frame_simps split: port.splits)

lemma frame_set_buffer_req [frame_simps]:
  "frame (snd (set_buffer_req P p s)) = frame s" "m_cmd_lock (snd (set_buffer_req P p s)) = m_cmd_lock s"
  by (simp_all add: set_buffer_req_def case_prod_beta frame_simps)

lemma frame_resolution [frame_simps]:
  "frame (snd (update_picture_resolution P s)) = frame s"
  "m_cmd_lock (snd (update_picture_resolution P s)) = m_cmd_lock s"
  by (simp_all add: update_picture_resolution_def case_prod_beta frame_simps split: vdec_reply.splits)

lemma frame_get_buffer_req [frame_simps]:
  "frame (snd (snd (get_buffer_req P p s))) = frame s"
  "m_cmd_lock (snd (snd (get_buffer_req P p s))) = m_cmd_lock s"
  by (simp_all add: get_buffer_req_def case_prod_beta Let_def frame_simps split: vdec_reply.splits)

lemma frame_reconfig [frame_simps]:
  "frame (snd (start_port_reconfig P s)) = frame s" "m_cmd_lock (snd (start_port_reconfig P s)) = m_cmd_lock s"
  by (simp_all add: start_port_reconfig_def case_prod_beta Let_def frame_simps split: vdec_reply.splits)

section \<open>Posting\<close>

lemma enqueue_ok:
  assumes "cmd_queue_ok q"
  shows "cmd_queue_ok (enqueue e q)"
    "entries (enqueue e q) = (if m_size q < OMX_CORE_CONTROL_CMDQ_SIZE then entries q @ [e] else entries q)"
proof -
  have "cmd_queue_ok (enqueue e q) \<and>
    entries (enqueue e q) = (if m_size q < OMX_CORE_CONTROL_CMDQ_SIZE then entries q @ [e] else entries q)"
  proof (cases "m_size q < OMX_CORE_CONTROL_CMDQ_SIZE")
    case True
    from insert_entry_spec [OF assms True, of e] show ?thesis using True by (auto simp: enqueue_def)
  next
    case False
    then show ?thesis using assms by (simp add: enqueue_def insert_entry_def)
  qed
  then show "cmd_queue_ok (enqueue e q)"
    "entries (enqueue e q) = (if m_size q < OMX_CORE_CONTROL_CMDQ_SIZE then entries q @ [e] else entries q)"
    by simp_all
qed

lemma works_simps [simp]: "works [] = 0" "works (m # ms) = weight m + works ms" "works (ms @ ns) = works ms + works ns"
  by (simp_all add: works_def)

lemma works_enqueue: "cmd_queue_ok q \<Longrightarrow> works (entries (enqueue m q)) \<le> works (entries q) + weight m"
  by (simp add: enqueue_ok)

text \<open>The message fits the queue it is sent to.\<close>

definition msg_ok :: "omx_vdec \<Rightarrow> vdec_msg \<Rightarrow> bool" where
  "msg_ok s m \<longleftrightarrow> cmd_msg_ok m \<or> ftb_msg_ok (snd (shape s)) m \<or> etb_msg_ok (fst (shape s)) m"

lemma post_event_queues [simp]:
  "m_cmd_q (post_event m s) = (if cmd_msg_ok m then enqueue m (m_cmd_q s) else m_cmd_q s)"
  "m_ftb_q (post_event m s) = (case m of GENERATE_FTB _ \<Rightarrow> enqueue m (m_ftb_q s)
     | GENERATE_FBD _ _ \<Rightarrow> enqueue m (m_ftb_q s) | _ \<Rightarrow> m_ftb_q s)"
  "m_etb_q (post_event m s) = (case m of GENERATE_ETB _ \<Rightarrow> enqueue m (m_etb_q s)
     | GENERATE_EBD _ _ \<Rightarrow> enqueue m (m_etb_q s) | _ \<Rightarrow> m_etb_q s)"
  "shape (post_event m s) = shape s" "m_cmd_lock (post_event m s) = m_cmd_lock s"
  "codec_type_parse (post_event m s) = codec_type_parse s" "m_inp_mem_ptr (post_event m s) = m_inp_mem_ptr s"
  by (cases m; simp add: post_event_def shape_def cmd_msg_ok_def)+

lemma keeps_post_event:
  assumes "msg_ok s m" "\<not> is_command m" "weight m \<le> k"
  shows "keeps k 0 s (post_event m s)"
  using assms
  by (cases m; cases "shape s")
    (auto simp: keeps_def vdec_ok_def work_def acks_def commands_waiting_def frame_def msg_ok_def
        enqueue_ok ftb_msg_ok_def etb_msg_ok_def cmd_msg_ok_def is_command_def)

text \<open>Writing a header of the input port.\<close>

lemma memory_ok_store:
  assumes "memory_ok codec mem" "codec = CODEC_TYPE_MPEG4 \<Longrightarrow> pPortPrivate b \<Longrightarrow> header_readable (hdr b)"
  shows "memory_ok codec (store_header p b mem)"
proof -
  have "header_readable (hdr x)"
    if "codec = CODEC_TYPE_MPEG4" "mem = Some bs" "x \<in> set (bs[i := b])" "pPortPrivate x" for bs i x
    using set_update_subset_insert [of bs i b] that assms by (auto simp: memory_ok_def)
  then show ?thesis using assms(1) by (auto simp: memory_ok_def store_header_def split: option.splits)
qed

lemma vdec_ok_store_in:
  assumes "vdec_ok s" "codec_type_parse s = CODEC_TYPE_MPEG4 \<Longrightarrow> pPortPrivate b \<Longrightarrow> header_readable h"
  shows "vdec_ok (store_in p h b s)"
  using assms memory_ok_store [of "codec_type_parse s" "m_inp_mem_ptr s" "b\<lparr>hdr := h\<rparr>" p]
  by (simp add: vdec_ok_def frame_def shape_def store_in_def)

lemma keeps_store_in:
  assumes "vdec_ok s \<Longrightarrow> codec_type_parse s = CODEC_TYPE_MPEG4 \<Longrightarrow> pPortPrivate b \<Longrightarrow> header_readable h"
  shows "keeps k 0 s (store_in p h b s)"
  using vdec_ok_store_in [of s b h p] assms
  by (simp add: keeps_def work_def acks_def commands_waiting_def) (simp add: frame_def shape_def store_in_def)

lemma loaded_readable:
  assumes "vdec_ok s" "codec_type_parse s = CODEC_TYPE_MPEG4" "load_header (m_inp_mem_ptr s) p = Some b" "pPortPrivate b"
  shows "header_readable (hdr b)"
  using assms by (auto simp: vdec_ok_def frame_def memory_ok_def load_header_def split: prod.splits option.splits if_splits)

lemma header_readable_simps [simp]:
  "header_readable (h\<lparr>nFlags := f\<rparr>) = header_readable h" "header_readable h \<Longrightarrow> header_readable (h\<lparr>nFilledLen := 0\<rparr>)"
  by (simp_all add: header_readable_def readable_empty)

lemma check_vop_ok:
  assumes "codec_type_parse s = CODEC_TYPE_MPEG4 \<Longrightarrow> header_readable h"
  shows "\<exists>c h' m. check_vop h s = Some (c, h', s\<lparr>mp4_headerparser := m\<rparr>) \<and> (h' = h \<or> h' = h\<lparr>nFilledLen := 0\<rparr>)"
proof (cases "codec_type_parse s = CODEC_TYPE_MPEG4")
  case True
  let ?b = "drop (nOffset h) (pBuffer h)" and ?n = "nFilledLen h"
  have r: "readable ?b ?n" using assms True by (simp add: header_readable_def)
  then obtain e m where m: "parse_header ?b ?n (mp4_headerparser s) = Some (e, m)" using readable_returns by fastforce
  obtain c where "is_notcodec_vop ?b ?n m = Some c" using is_notcodec_vop_in [of ?n ?b m] r by (auto simp: readable_def)
  then show ?thesis using True m by (auto simp: check_vop_def Let_def)
next
  case False
  then have "check_vop h s = Some (False, h, s\<lparr>mp4_headerparser := mp4_headerparser s\<rparr>)" by (simp add: check_vop_def)
  then show ?thesis by blast
qed

lemma keeps_cmd: "cmd_msg_ok m \<Longrightarrow> \<not> is_command m \<Longrightarrow> weight m \<le> k \<Longrightarrow> keeps k 0 s (post_event m s)"
  by (rule keeps_post_event) (simp_all add: msg_ok_def)

lemma keeps_event: "0 < k \<Longrightarrow> keeps k 0 s (post_event (GENERATE_EVENT ev) s)"
  by (rule keeps_cmd) (simp_all add: cmd_msg_ok_def is_command_def)

lemma keeps_sem_post: "keeps 0 1 s (sem_post s)"
  by (simp add: keeps_def sem_post_def vdec_ok_def work_def acks_def commands_waiting_def frame_simps frame_def shape_def)

section \<open>Commands\<close>

text \<open>A branch of \<open>send_command_proxy\<close> that posts at most \<open>k\<close> events; it posts the semaphore if it says so.\<close>

definition proxy_ok :: "nat \<Rightarrow> proxy \<Rightarrow> omx_vdec \<Rightarrow> bool" where
  "proxy_ok k r s = (case r of (_, _, posted, t) \<Rightarrow> keeps k (if posted then 1 else 0) s t)"

lemma proxy_ok_simps:
  "frame t = frame s \<Longrightarrow> m_cmd_lock t = m_cmd_lock s \<Longrightarrow> proxy_ok k (e, b, False, t) s"
  "frame t = frame s \<Longrightarrow> m_cmd_lock t = m_cmd_lock s \<Longrightarrow> 0 < k \<Longrightarrow>
     proxy_ok k (e, b, False, post_event (GENERATE_EVENT ev) t) s"
proof -
  assume f: "frame t = frame s" "m_cmd_lock t = m_cmd_lock s"
  show "proxy_ok k (e, b, False, t) s" using keeps_frame [OF f] by (simp add: proxy_ok_def)
  assume "0 < k"
  from keeps_trans [OF keeps_frame [OF f, of 0] keeps_event [OF this]]
  show "proxy_ok k (e, b, False, post_event (GENERATE_EVENT ev) t) s" by (simp add: proxy_ok_def)
qed

lemma proxy_ok_branches:
  "0 < k \<Longrightarrow> proxy_ok k (invalidate s) s"
  "frame t = frame s \<Longrightarrow> m_cmd_lock t = m_cmd_lock s \<Longrightarrow> 0 < k \<Longrightarrow> proxy_ok k (refuse e t) s"
  "frame t = frame s \<Longrightarrow> m_cmd_lock t = m_cmd_lock s \<Longrightarrow> proxy_ok k (accept t) s"
  "frame t = frame s \<Longrightarrow> m_cmd_lock t = m_cmd_lock s \<Longrightarrow> proxy_ok k (defer_event t) s"
  by (simp_all add: refuse_def invalidate_def accept_def defer_event_def proxy_ok_simps)

lemma keeps_ack:
  assumes "frame t = frame s" "m_cmd_lock t = Suc (m_cmd_lock s)"
  shows "keeps k (Suc 0) s t"
proof -
  have "shape t = shape s" using assms(1) by (simp add: frame_def)
  then show ?thesis using assms by (simp add: keeps_def vdec_ok_def work_def acks_def commands_waiting_def)
qed

lemma proxy_ok_flush: "proxy_ok k (flush_to_idle P s) s" "proxy_ok k (flush_proxy P port s) s"
  by (auto simp: flush_to_idle_def flush_proxy_def proxy_ok_def Let_def frame_simps sem_post_def intro!: keeps_ack)

lemma proxy_ok_state_set: "proxy_ok 1 (state_set_proxy P st s) s"
proof -
  have "proxy_ok 1 (from_loaded st s) s"
    by (cases st) (simp_all add: from_loaded_def case_prod_beta proxy_ok_branches proxy_ok_simps frame_simps)
  moreover have "proxy_ok 1 (from_idle P st s) s"
    by (cases st) (simp_all add: from_idle_def case_prod_beta proxy_ok_branches proxy_ok_simps frame_simps)
  moreover have "proxy_ok 1 (from_executing P st s) s"
    by (cases st) (simp_all add: from_executing_def case_prod_beta proxy_ok_branches proxy_ok_simps proxy_ok_flush frame_simps)
  moreover have "proxy_ok (Suc 0) (defer_event (post_event (RESUME_DONE VDEC_S_SUCCESS) t)) s"
    if "frame t = frame s" "m_cmd_lock t = m_cmd_lock s" for t
  proof -
    have "keeps (Suc 0) 0 t (post_event (RESUME_DONE VDEC_S_SUCCESS) t)"
      by (rule keeps_cmd) (simp_all add: cmd_msg_ok_def is_command_def)
    from keeps_trans [OF keeps_frame [OF that, of 0] this] show ?thesis by (simp add: proxy_ok_def defer_event_def)
  qed
  then have "proxy_ok 1 (from_pause P st s) s"
    by (cases st) (simp_all add: from_pause_def case_prod_beta proxy_ok_branches proxy_ok_simps proxy_ok_flush frame_simps)
  moreover have "proxy_ok 1 (from_wait_for_resources st s) s"
    by (cases st) (simp_all add: from_wait_for_resources_def proxy_ok_branches)
  ultimately show ?thesis
    by (cases "m_state s") (simp_all add: state_set_proxy_def proxy_ok_simps)
qed

lemma proxy_ok_step:
  assumes "proxy_ok k (e, b, posted, t) s" "keeps l 0 t u"
  shows "proxy_ok (k + l) (e', b', posted, u) s"
  using keeps_trans [of k _ s t l 0 u] assms by (simp add: proxy_ok_def)

lemma proxy_ok_then:
  assumes "proxy_ok k (e, b, posted, t) s" "frame u = frame t" "m_cmd_lock u = m_cmd_lock t"
  shows "proxy_ok (Suc k) (e', b', posted, u) s"
    "proxy_ok (Suc k) (e', b', posted, post_event (GENERATE_EVENT ev) u) s"
proof -
  have u: "keeps 1 0 t u" by (rule keeps_frame [OF assms(2,3)])
  from proxy_ok_step [OF assms(1) u] show "proxy_ok (Suc k) (e', b', posted, u) s" by simp
  have "keeps 1 0 t (post_event (GENERATE_EVENT ev) u)"
    using keeps_trans [OF keeps_frame [OF assms(2,3), of 0] keeps_event [of 1]] by simp
  from proxy_ok_step [OF assms(1) this]
  show "proxy_ok (Suc k) (e', b', posted, post_event (GENERATE_EVENT ev) u) s" by simp
qed

lemma proxy_ok_enable:
  assumes "proxy_ok k r s"
  shows "proxy_ok (Suc k) (enable_input r) s" "proxy_ok (Suc k) (enable_output r) s"
proof -
  obtain e b posted t where r: "r = (e, b, posted, t)" by (cases r) auto
  note p = proxy_ok_then [OF assms [unfolded r]]
  show "proxy_ok (Suc k) (enable_input r) s"
    unfolding enable_input_def r by (simp add: case_prod_beta Let_def p frame_simps)
  show "proxy_ok (Suc k) (enable_output r) s"
    unfolding enable_output_def r by (simp add: case_prod_beta Let_def p frame_simps)
qed

text \<open>A flush of a port that is disabled posts the semaphore when it is the first.\<close>

lemma proxy_ok_post_flush:
  assumes "proxy_ok k (e, b, posted, t) s" "frame u = frame t"
    and "m_cmd_lock u = (if posted then m_cmd_lock t else Suc (m_cmd_lock t))"
  shows "proxy_ok (Suc k) (e', b', True, u) s"
proof (cases posted)
  case True
  then show ?thesis using proxy_ok_then(1) [OF assms(1,2)] assms(3) by simp
next
  case False
  then have "keeps 1 (Suc 0) t u" by (intro keeps_ack) (use assms in auto)
  then have "keeps (Suc k) (Suc 0) s u" using keeps_trans [of k 0 s t 1 "Suc 0" u] assms(1) False
    by (simp add: proxy_ok_def)
  then show ?thesis by (simp add: proxy_ok_def)
qed

lemma proxy_ok_disable:
  assumes "proxy_ok k r s"
  shows "proxy_ok (Suc k) (disable_input P r) s" "proxy_ok (Suc k) (disable_output P r) s"
proof -
  obtain e b posted t where r: "r = (e, b, posted, t)" by (cases r) auto
  note p = proxy_ok_then [OF assms [unfolded r]] proxy_ok_post_flush [OF assms [unfolded r]]
  show "proxy_ok (Suc k) (disable_input P r) s"
    unfolding disable_input_def r
    by (simp add: case_prod_beta Let_def p frame_simps sem_post_def)
  show "proxy_ok (Suc k) (disable_output P r) s"
    unfolding disable_output_def r
    by (simp add: case_prod_beta Let_def p frame_simps sem_post_def)
qed

lemma proxy_ok_mono: "proxy_ok k r s \<Longrightarrow> k \<le> l \<Longrightarrow> proxy_ok l r s"
  by (auto simp: proxy_ok_def elim: keeps_mono)

lemma proxy_ok_ports: "proxy_ok 2 (port_enable_proxy port s) s" "proxy_ok 2 (port_disable_proxy P port s) s"
proof -
  have a: "proxy_ok k (accept s) s" for k by (simp add: proxy_ok_branches)
  have e: "proxy_ok (Suc (Suc 0)) (port_enable_proxy port s) s"
    and d: "proxy_ok (Suc (Suc 0)) (port_disable_proxy P port s) s"
    unfolding port_enable_proxy_def port_disable_proxy_def Let_def
    using proxy_ok_enable [OF a] proxy_ok_enable [OF proxy_ok_enable(1) [OF a]]
      proxy_ok_disable [OF a, of _ P] proxy_ok_disable [OF proxy_ok_disable(1) [OF a, of _ P], of _ P]
    by (auto simp: a)
  show "proxy_ok 2 (port_enable_proxy port s) s" "proxy_ok 2 (port_disable_proxy P port s) s"
    using e d by (simp_all add: numeral_2_eq_2)
qed

lemma proxy_ok_command: "proxy_ok 2 (command_proxy P cmd s) s"
proof -
  have st: "proxy_ok 2 (state_set_proxy P st s) s" for st
    by (rule proxy_ok_mono [OF proxy_ok_state_set]) simp
  show ?thesis
    by (cases cmd) (simp_all add: command_proxy_def st proxy_ok_ports proxy_ok_flush proxy_ok_branches proxy_ok_simps)
qed

lemma keeps_send_command_proxy: "keeps 3 1 s (snd (send_command_proxy P cmd s))"
proof -
  obtain e b posted t where r: "command_proxy P cmd s = (e, b, posted, t)" by (cases "command_proxy P cmd s") auto
  let ?u = "if e = ErrorNone \<and> b then post_event (GENERATE_EVENT (CommandComplete cmd)) t else t"
  have k: "keeps 2 (if posted then 1 else 0) s t"
    using proxy_ok_command [of P cmd s] r by (simp add: proxy_ok_def)
  have "keeps 1 0 t ?u" using keeps_event [of 1 t] by simp
  then have "keeps (2 + 1) ((if posted then 1 else 0) + 0) s ?u" by (rule keeps_trans [OF k])
  then have u: "keeps 3 (if posted then 1 else 0) s ?u" by simp
  show ?thesis
  proof (cases posted)
    case True
    then show ?thesis using u r by (simp add: send_command_proxy_def Let_def)
  next
    case False
    have "keeps (3 + 0) (0 + 1) s (sem_post ?u)" by (rule keeps_trans [OF _ keeps_sem_post]) (use u False in simp)
    then show ?thesis using r False by (simp add: send_command_proxy_def Let_def)
  qed
qed

section \<open>Buffers\<close>

definition returns :: "nat \<Rightarrow> omx_vdec \<Rightarrow> omx_vdec option \<Rightarrow> bool" where
  "returns k s r \<longleftrightarrow> (\<exists>t. r = Some t \<and> keeps k 0 s t)"

lemma returns_Some: "keeps k 0 s t \<Longrightarrow> returns k s (Some t)"
  by (simp add: returns_def)

lemma returns_mono: "returns k s r \<Longrightarrow> k \<le> l \<Longrightarrow> returns l s r"
  by (auto simp: returns_def elim: keeps_mono)

lemma returns_after:
  assumes "frame t = frame s" "m_cmd_lock t = m_cmd_lock s" "returns k t r"
  shows "returns k s r"
proof -
  obtain u where u: "r = Some u" "keeps k 0 t u" using assms(3) by (auto simp: returns_def)
  from keeps_trans [OF keeps_frame [OF assms(1,2), of 0] u(2)] show ?thesis using u(1) by (simp add: returns_def)
qed

lemma returns_bind:
  assumes "returns k s r" "\<And>t. r = Some t \<Longrightarrow> keeps k 0 s t \<Longrightarrow> returns l t (f t)"
  shows "returns (k + l) s (Option.bind r f)"
proof -
  obtain t where t: "r = Some t" "keeps k 0 s t" using assms(1) by (auto simp: returns_def)
  obtain u where u: "f t = Some u" "keeps l 0 t u" using assms(2) [OF t] by (auto simp: returns_def)
  from keeps_trans [OF t(2) u(2)] show ?thesis using t u by (simp add: returns_def)
qed

lemma returns_map:
  assumes "returns k s (map_option snd r)"
    and "\<And>x. frame (f x) = frame (snd x)" "\<And>x. m_cmd_lock (f x) = m_cmd_lock (snd x)"
  shows "returns k s (map_option f r)"
proof -
  obtain x where x: "r = Some x" "keeps k 0 s (snd x)" using assms(1) by (auto simp: returns_def)
  from keeps_trans [OF x(2) keeps_frame [OF assms(2,3), of 0]] show ?thesis using x by (simp add: returns_def)
qed

lemma load_in_array: "in_array (map_option length mem) p \<Longrightarrow> \<exists>b. load_header mem p = Some b"
  by (cases mem; cases p) (simp_all add: load_header_def)

lemma load_in: "in_array (fst (shape s)) p \<Longrightarrow> \<exists>b. load_header (m_inp_mem_ptr s) p = Some b"
  by (rule load_in_array) (simp add: shape_def)

lemma load_out: "in_array (snd (shape s)) p \<Longrightarrow> \<exists>b. load_header (m_out_mem_ptr s) p = Some b"
  by (rule load_in_array) (simp add: shape_def)

lemma keeps_update:
  assumes "keeps k 0 s t" "frame u = frame t" "m_cmd_lock u = m_cmd_lock t"
  shows "keeps k 0 s u"
  using keeps_trans [OF assms(1) keeps_frame [OF assms(2,3), of 0]] by simp

lemma returns_fill_buffer_done:
  assumes "in_array (snd (shape s)) p"
  shows "returns 1 s (map_option snd (fill_buffer_done P p s))"
proof -
  obtain i where i: "p = Some i" using assms by (cases p; cases "snd (shape s)") auto
  obtain b where b: "load_header (m_out_mem_ptr s) (Some i) = Some b" using load_out [OF assms] i by auto
  let ?s = "s\<lparr>pending_output_buffers := pending_output_buffers s - 1\<rparr>"
  have "\<exists>e t. fill_buffer_done P p s = Some (e, t) \<and>
      (frame t = frame s \<or> frame t = frame ?s \<or> frame t = frame (post_event EOS_DONE ?s)) \<and>
      m_cmd_lock t = m_cmd_lock s"
    unfolding fill_buffer_done_def i by (simp add: b Let_def case_prod_beta frame_simps)
  then obtain e t where t: "fill_buffer_done P p s = Some (e, t)" "m_cmd_lock t = m_cmd_lock s"
    "frame t = frame s \<or> frame t = frame (post_event EOS_DONE ?s)" by (auto simp: frame_simps)
  have e: "keeps 1 0 s (post_event EOS_DONE ?s)"
    using keeps_trans [OF keeps_frame [of ?s s 0] keeps_cmd [of EOS_DONE 1 ?s]]
    by (simp add: cmd_msg_ok_def is_command_def frame_simps)
  have "keeps 1 0 s t"
    using t(3) keeps_frame [OF _ t(2), of 1] keeps_update [OF e] t(2) by auto
  then show ?thesis using t(1) by (simp add: returns_def)
qed

lemma returns_empty_buffer_done:
  assumes "p = None \<or> in_array (fst (shape s)) p"
  shows "returns 0 s (map_option snd (empty_buffer_done p s))"
proof (cases p)
  case None
  then show ?thesis by (simp add: empty_buffer_done_def returns_def)
next
  case (Some i)
  then obtain b where b: "load_header (m_inp_mem_ptr s) (Some i) = Some b" using load_in [of s p] assms by auto
  let ?s = "s\<lparr>pending_input_buffers := pending_input_buffers s - 1\<rparr>"
  let ?t = "store_in (Some i) ((hdr b)\<lparr>nFilledLen := 0\<rparr>) b ?s"
  have "keeps 0 0 ?s ?t" by (rule keeps_store_in) (use loaded_readable [of ?s "Some i" b] b in simp)
  from keeps_trans [OF keeps_frame [of ?s s 0] this] have k: "keeps 0 0 s ?t" by (simp add: frame_simps)
  have "keeps 0 0 s (callback (EmptyBufferDone i) ?t)" by (rule keeps_update [OF k]) (simp_all add: frame_simps)
  then show ?thesis
    by (auto simp: empty_buffer_done_def Some b Let_def frame_simps returns_def intro: keeps_frame)
qed

lemma returns_etb_proxy:
  assumes "in_array (fst (shape s)) p" "vdec_ok s"
  shows "returns 1 s (map_option snd (empty_this_buffer_proxy P p s))"
proof -
  obtain i where i: "p = Some i" using assms by (cases p; cases "fst (shape s)") auto
  obtain b where b: "load_header (m_inp_mem_ptr s) (Some i) = Some b" using load_in [OF assms(1)] i by auto
  have ebd: "keeps (Suc 0) 0 s (post_event (GENERATE_EBD (Some i) st) t)" if t: "keeps 0 0 s t" for st t
  proof -
    have "shape t = shape s" using t assms(2) by (simp add: keeps_def)
    then have "keeps 1 0 t (post_event (GENERATE_EBD (Some i) st) t)"
      using assms(1) i by (intro keeps_post_event) (simp_all add: msg_ok_def etb_msg_ok_def is_command_def)
    from keeps_trans [OF t this] show ?thesis by simp
  qed
  have same: "keeps k 0 s t" if "frame t = frame s" "m_cmd_lock t = m_cmd_lock s" for k t
    by (rule keeps_frame [OF that])
  have pair: "(\<exists>e t. r = Some (e, t) \<and> keeps 1 0 s t) \<Longrightarrow> returns 1 s (map_option snd r)" for r :: "(OMX_ERRORTYPE \<times> omx_vdec) option"
    by (auto simp: returns_def)
  show ?thesis
  proof (cases "pPortPrivate b")
    case False
    then show ?thesis unfolding empty_this_buffer_proxy_def i by (intro pair) (simp add: b)
  next
    case True
    have r: "header_readable (hdr b)" if "codec_type_parse s = CODEC_TYPE_MPEG4"
      by (rule loaded_readable [OF assms(2) that b True])
    let ?s = "s\<lparr>pending_input_buffers := pending_input_buffers s + 1\<rparr>"
    obtain c h m where h: "check_vop (hdr b) ?s = Some (c, h, ?s\<lparr>mp4_headerparser := m\<rparr>)" "h = hdr b \<or> h = (hdr b)\<lparr>nFilledLen := 0\<rparr>"
      using check_vop_ok [of ?s "hdr b"] r by auto
    have store: "keeps k 0 s t" if "frame t = frame (store_in (Some i) g b (?s\<lparr>mp4_headerparser := m\<rparr>))"
      "m_cmd_lock t = m_cmd_lock s" "header_readable h \<Longrightarrow> header_readable g" for k t g
    proof -
      have "keeps k 0 (?s\<lparr>mp4_headerparser := m\<rparr>) (store_in (Some i) g b (?s\<lparr>mp4_headerparser := m\<rparr>))"
        by (rule keeps_store_in) (use r h(2) that(3) in auto)
      from keeps_trans [OF same [of _ 0] this] have "keeps k 0 s (store_in (Some i) g b (?s\<lparr>mp4_headerparser := m\<rparr>))"
        by (simp add: frame_simps)
      from keeps_update [OF this that(1)] that(2) show ?thesis by (simp add: frame_simps)
    qed
    show ?thesis
      unfolding empty_this_buffer_proxy_def i
      by (rule pair) (simp add: b Let_def case_prod_beta frame_simps ebd same h(1) store True)
  qed
qed

lemma returns_ftb_proxy:
  assumes "in_array (snd (shape s)) p"
  shows "returns 0 s (map_option snd (fill_this_buffer_proxy P p s))"
proof -
  obtain i where i: "p = Some i" using assms by (cases p; cases "snd (shape s)") auto
  obtain b where b: "load_header (m_out_mem_ptr s) (Some i) = Some b" using load_out [OF assms] i by auto
  have pair: "(\<exists>e t. r = Some (e, t) \<and> keeps 0 0 s t) \<Longrightarrow> returns 0 s (map_option snd r)" for r :: "(OMX_ERRORTYPE \<times> omx_vdec) option"
    by (auto simp: returns_def)
  show ?thesis
    unfolding fill_this_buffer_proxy_def i
    by (rule pair) (auto simp: b Let_def case_prod_beta frame_simps intro!: keeps_frame)
qed

section \<open>Taking messages\<close>

lemma pop_entry_cases:
  assumes "cmd_queue_ok q"
  obtains "pop_entry q = None" "entries q = []"
  | m q' where "pop_entry q = Some (m, q')" "entries q = m # entries q'" "cmd_queue_ok q'"
proof (cases "pop_entry q")
  case None
  then show ?thesis using that(1) cmdq.get_None_iff [OF assms] by simp
next
  case (Some x)
  then obtain m q' where "pop_entry q = Some (m, q')" by (cases x) auto
  then show ?thesis using that(2) cmdq.get_SomeD [OF assms] by blast
qed

text \<open>A state whose output queue lost its first message.\<close>

lemma pop_ftb:
  assumes "vdec_ok s" "pop_entry (m_ftb_q s) = Some (m, q)"
  shows "vdec_ok (s\<lparr>m_ftb_q := q\<rparr>)" "shape (s\<lparr>m_ftb_q := q\<rparr>) = shape s"
    "ftb_msg_ok (snd (shape s)) m" "work s = work (s\<lparr>m_ftb_q := q\<rparr>) + weight m"
    "acks (s\<lparr>m_ftb_q := q\<rparr>) = acks s"
proof -
  have q: "entries (m_ftb_q s) = m # entries q" "cmd_queue_ok q"
    using assms by (auto simp: vdec_ok_def frame_def dest: cmdq.get_SomeD split: prod.splits)
  show "shape (s\<lparr>m_ftb_q := q\<rparr>) = shape s" by (simp add: shape_def)
  then show "vdec_ok (s\<lparr>m_ftb_q := q\<rparr>)" "ftb_msg_ok (snd (shape s)) m"
    "work s = work (s\<lparr>m_ftb_q := q\<rparr>) + weight m" "acks (s\<lparr>m_ftb_q := q\<rparr>) = acks s"
    using assms(1) q by (auto simp: vdec_ok_def work_def acks_def commands_waiting_def frame_def split: prod.splits)
qed

lemma pop_etb:
  assumes "vdec_ok s" "pop_entry (m_etb_q s) = Some (m, q)"
  shows "vdec_ok (s\<lparr>m_etb_q := q\<rparr>)" "shape (s\<lparr>m_etb_q := q\<rparr>) = shape s"
    "etb_msg_ok (fst (shape s)) m" "work s = work (s\<lparr>m_etb_q := q\<rparr>) + weight m"
    "acks (s\<lparr>m_etb_q := q\<rparr>) = acks s"
proof -
  have q: "entries (m_etb_q s) = m # entries q" "cmd_queue_ok q"
    using assms by (auto simp: vdec_ok_def frame_def dest: cmdq.get_SomeD split: prod.splits)
  show "shape (s\<lparr>m_etb_q := q\<rparr>) = shape s" by (simp add: shape_def)
  then show "vdec_ok (s\<lparr>m_etb_q := q\<rparr>)" "etb_msg_ok (fst (shape s)) m"
    "work s = work (s\<lparr>m_etb_q := q\<rparr>) + weight m" "acks (s\<lparr>m_etb_q := q\<rparr>) = acks s"
    using assms(1) q by (auto simp: vdec_ok_def work_def acks_def commands_waiting_def frame_def split: prod.splits)
qed

lemma pop_cmd:
  assumes "vdec_ok s" "pop_entry (m_cmd_q s) = Some (m, q)"
  shows "vdec_ok (s\<lparr>m_cmd_q := q\<rparr>)" "shape (s\<lparr>m_cmd_q := q\<rparr>) = shape s"
    "cmd_msg_ok m" "work s = work (s\<lparr>m_cmd_q := q\<rparr>) + weight m"
    "acks s = acks (s\<lparr>m_cmd_q := q\<rparr>) + (if is_command m then 1 else 0)"
proof -
  have q: "entries (m_cmd_q s) = m # entries q" "cmd_queue_ok q"
    using assms by (auto simp: vdec_ok_def frame_def dest: cmdq.get_SomeD split: prod.splits)
  show "shape (s\<lparr>m_cmd_q := q\<rparr>) = shape s" by (simp add: shape_def)
  then show "vdec_ok (s\<lparr>m_cmd_q := q\<rparr>)" "cmd_msg_ok m"
    "work s = work (s\<lparr>m_cmd_q := q\<rparr>) + weight m"
    "acks s = acks (s\<lparr>m_cmd_q := q\<rparr>) + (if is_command m then 1 else 0)"
    using assms(1) q by (auto simp: vdec_ok_def work_def acks_def commands_waiting_def frame_def split: prod.splits)
qed

lemma weight_pos: "0 < weight m"
  by (cases m) simp_all

text \<open>One round of a loop that takes a message: the rest of the loop starts with less work.\<close>

lemma round_less:
  assumes "vdec_ok s1" "shape s1 = shape s" "work s = work s1 + weight m" "acks s1 = acks s"
    and "keeps k 0 s1 t" "k < weight m"
  shows "vdec_ok t \<and> shape t = shape s \<and> work t < work s \<and> acks t = acks s"
  using assms by (auto simp: keeps_def)

lemma in_arrayI: "ftb_msg_ok n (GENERATE_FTB p) \<Longrightarrow> in_array n p" "ftb_msg_ok n (GENERATE_FBD p st) \<Longrightarrow> in_array n p"
  "etb_msg_ok k (GENERATE_ETB p) \<Longrightarrow> in_array k p" "etb_msg_ok k (GENERATE_EBD p st) \<Longrightarrow> p = None \<or> in_array k p"
  by (auto simp: ftb_msg_ok_def etb_msg_ok_def)

lemma drain_ftb_returns:
  assumes "vdec_ok s"
  shows "\<exists>t. drain_ftb P s = Some t \<and> vdec_ok t \<and> shape t = shape s \<and> work t \<le> work s \<and> acks t = acks s"
  using assms
proof (induction "work s" arbitrary: s rule: less_induct)
  case less
  have ok: "cmd_queue_ok (m_ftb_q s)" using less.prems by (simp add: vdec_ok_def frame_def)
  from ok show ?case
  proof (cases rule: pop_entry_cases)
    case 1
    then show ?thesis using less.prems by (subst drain_ftb.simps) simp
  next
    case (2 m q)
    note p = pop_ftb [OF less.prems 2(1)]
    let ?s = "s\<lparr>m_ftb_q := q\<rparr>"
    let ?body = "case m of
        GENERATE_FTB p \<Rightarrow> do {
          let s = ?s\<lparr>pending_output_buffers := pending_output_buffers ?s + 1\<rparr>;
          b \<leftarrow> load_header (m_out_mem_ptr s) p;
          Some (callback (FillBufferDone (the p) (hdr b)) s)
        }
      | GENERATE_FBD p _ \<Rightarrow> map_option snd (fill_buffer_done P p ?s)
      | _ \<Rightarrow> Some ?s"
    have "\<exists>t. ?body = Some t \<and> keeps (weight m - 1) 0 ?s t"
    proof (cases m)
      case (GENERATE_FTB p)
      then obtain b where "load_header (m_out_mem_ptr ?s) p = Some b" using load_out [of ?s p] pop_ftb(2,3) [OF less.prems 2(1)]
        by (auto dest: in_arrayI)
      then show ?thesis using GENERATE_FTB by (simp add: frame_simps keeps_frame)
    next
      case (GENERATE_FBD p st)
      then have "in_array (snd (shape ?s)) p" using p(2,3) by (auto dest: in_arrayI)
      from returns_fill_buffer_done [OF this, of P] show ?thesis using GENERATE_FBD by (simp add: returns_def)
    qed simp_all
    then obtain t where t: "?body = Some t" "keeps (weight m - 1) 0 ?s t" by blast
    have r: "vdec_ok t \<and> shape t = shape s \<and> work t < work s \<and> acks t = acks s"
      by (rule round_less [OF p(1,2,4,5) t(2)]) (simp add: weight_pos)
    from less.hyps [of t] r obtain u where
      u: "drain_ftb P t = Some u" "vdec_ok u" "shape u = shape t" "work u \<le> work t" "acks u = acks t" by blast
    have "drain_ftb P s = drain_ftb P t" using 2(1) t(1) by (subst drain_ftb.simps) (simp add: Let_def)
    then show ?thesis using u r by auto
  qed
qed

lemma drain_etb_returns:
  assumes "vdec_ok s"
  shows "\<exists>t. drain_etb s = Some t \<and> vdec_ok t \<and> shape t = shape s \<and> work t \<le> work s \<and> acks t = acks s"
  using assms
proof (induction "work s" arbitrary: s rule: less_induct)
  case less
  have ok: "cmd_queue_ok (m_etb_q s)" using less.prems by (simp add: vdec_ok_def frame_def)
  from ok show ?case
  proof (cases rule: pop_entry_cases)
    case 1
    then show ?thesis using less.prems by (subst drain_etb.simps) simp
  next
    case (2 m q)
    note p = pop_etb [OF less.prems 2(1)]
    let ?s = "s\<lparr>m_etb_q := q\<rparr>"
    let ?s1 = "?s\<lparr>pending_input_buffers := pending_input_buffers ?s + 1\<rparr>"
    let ?body = "case m of
        GENERATE_ETB p \<Rightarrow> map_option snd (empty_buffer_done p ?s1)
      | GENERATE_EBD p _ \<Rightarrow> map_option snd (empty_buffer_done p ?s)
      | _ \<Rightarrow> Some ?s"
    have "returns 0 ?s ?body"
    proof (cases m)
      case (GENERATE_ETB p)
      have "returns 0 ?s1 (map_option snd (empty_buffer_done p ?s1))"
        by (rule returns_empty_buffer_done) (use GENERATE_ETB pop_etb(2,3) [OF less.prems 2(1)] in \<open>auto simp: shape_def dest: in_arrayI\<close>)
      from returns_after [OF _ _ this, of ?s] show ?thesis using GENERATE_ETB by (simp add: frame_simps)
    next
      case (GENERATE_EBD p st)
      have "returns 0 ?s (map_option snd (empty_buffer_done p ?s))"
        by (rule returns_empty_buffer_done) (use GENERATE_EBD pop_etb(2,3) [OF less.prems 2(1)] in \<open>auto simp: shape_def dest: in_arrayI\<close>)
      then show ?thesis using GENERATE_EBD by simp
    qed (simp_all add: returns_Some)
    then obtain t where t: "?body = Some t" "keeps 0 0 ?s t" by (auto simp: returns_def)
    have r: "vdec_ok t \<and> shape t = shape s \<and> work t < work s \<and> acks t = acks s"
      by (rule round_less [OF p(1,2,4,5) t(2)]) (simp add: weight_pos)
    from less.hyps [of t] r obtain u where
      u: "drain_etb t = Some u" "vdec_ok u" "shape u = shape t" "work u \<le> work t" "acks u = acks t" by blast
    have "drain_etb s = drain_etb t" using 2(1) t(1) by (subst drain_etb.simps) (simp add: Let_def)
    then show ?thesis using u r by auto
  qed
qed

section \<open>Pending buffers\<close>

text \<open>The contents after adding several entries: what does not fit is dropped.\<close>

definition fill :: "'e list \<Rightarrow> 'e list \<Rightarrow> 'e list" where
  "fill xs ys = take OMX_CORE_CONTROL_CMDQ_SIZE (xs @ ys)"

lemma enqueue_fill: "cmd_queue_ok q \<Longrightarrow> entries (enqueue e q) = fill (entries q) [e]"
  using enqueue_ok(2) [of q e] by (auto simp: fill_def cmd_queue_ok_def)

lemma fill_fill: "fill (fill xs [y]) ys = fill xs (y # ys)"
  by (cases "length xs < OMX_CORE_CONTROL_CMDQ_SIZE") (auto simp: fill_def take_Cons')

lemma fill_all [simp]: "length xs + length ys \<le> OMX_CORE_CONTROL_CMDQ_SIZE \<Longrightarrow> fill xs ys = xs @ ys"
  by (simp add: fill_def)

lemma entries_bound: "cmd_queue_ok q \<Longrightarrow> length (entries q) \<le> OMX_CORE_CONTROL_CMDQ_SIZE"
  by (simp add: cmd_queue_ok_def)

lemma fill_Nil [simp]: "cmd_queue_ok q \<Longrightarrow> fill (entries q) [] = entries q"
  by (simp add: fill_def cmd_queue_ok_def)

lemma set_fill: "set (fill xs ys) \<subseteq> set xs \<union> set ys"
  using set_take_subset [of _ "xs @ ys"] by (auto simp: fill_def)

lemma works_take: "works (take n ms) \<le> works ms"
  by (induction ms arbitrary: n) (auto simp: take_Cons')

lemma works_fill: "works (fill xs ys) \<le> works xs + works ys"
  using works_take [of _ "xs @ ys"] by (simp add: fill_def)

lemma split_queue_spec:
  assumes "cmd_queue_ok q" "cmd_queue_ok a" "cmd_queue_ok b"
  shows "\<exists>q' a' b'. split_queue p q a b = Some (q', a', b') \<and> cmd_queue_ok q' \<and> cmd_queue_ok a' \<and> cmd_queue_ok b' \<and>
    entries q' = [] \<and> entries a' = fill (entries a) (filter p (entries q)) \<and>
    entries b' = fill (entries b) (filter (\<lambda>m. \<not> p m) (entries q))"
  using assms
proof (induction "entries q" arbitrary: q a b)
  case Nil
  then have "pop_entry q = None" using cmdq.get_None_iff [of q] by simp
  then show ?case using Nil by (subst split_queue.simps) simp
next
  case (Cons m ms)
  from Cons.prems(1) show ?case
  proof (cases rule: pop_entry_cases)
    case 1
    then show ?thesis using Cons.hyps(2) by simp
  next
    case (2 m' q1)
    then have e: "m' = m" "entries q1 = ms" using Cons.hyps(2) by auto
    show ?thesis
    proof (cases "p m")
      case True
      from Cons.hyps(1) [OF e(2) [symmetric] 2(3) enqueue_ok(1) [OF Cons.prems(2)] Cons.prems(3)]
      show ?thesis using 2(1) e True Cons.hyps(2) Cons.prems
        by (subst split_queue.simps) (auto simp: enqueue_fill fill_fill simp flip: Cons.hyps(2))
    next
      case False
      from Cons.hyps(1) [OF e(2) [symmetric] 2(3) Cons.prems(2) enqueue_ok(1) [OF Cons.prems(3)]]
      show ?thesis using 2(1) e False Cons.hyps(2) Cons.prems
        by (subst split_queue.simps) (auto simp: enqueue_fill fill_fill simp flip: Cons.hyps(2))
    qed
  qed
qed

lemma move_back_spec:
  assumes "cmd_queue_ok t" "cmd_queue_ok q"
  shows "\<exists>t' q'. move_back t q = Some (t', q') \<and> cmd_queue_ok t' \<and> cmd_queue_ok q' \<and>
    entries t' = [] \<and> entries q' = fill (entries q) (entries t)"
  using assms
proof (induction "entries t" arbitrary: t q)
  case Nil
  then have "pop_entry t = None" using cmdq.get_None_iff [of t] by simp
  then show ?case using Nil by (subst move_back.simps) (auto simp flip: Nil.hyps)
next
  case (Cons m ms)
  from Cons.prems(1) show ?case
  proof (cases rule: pop_entry_cases)
    case 1
    then show ?thesis using Cons.hyps(2) by simp
  next
    case (2 m' t1)
    then have e: "m' = m" "entries t1 = ms" using Cons.hyps(2) by auto
    from Cons.hyps(1) [OF e(2) [symmetric] 2(3) enqueue_ok(1) [OF Cons.prems(2)]]
    show ?thesis using 2(1) e Cons.hyps(2) Cons.prems
      by (subst move_back.simps) (auto simp: enqueue_fill fill_fill simp flip: Cons.hyps(2))
  qed
qed

lemma process_pending_returns:
  assumes "vdec_ok s" "cmd_queue_ok q"
    and "\<forall>m \<in> set (entries q). is_fbd m \<and> ftb_msg_ok (snd (shape s)) m \<or> is_ebd m \<and> etb_msg_ok (fst (shape s)) m"
  shows "\<exists>t. process_pending P q s = Some t \<and> keeps (works (entries q)) 0 s t"
  using assms
proof (induction "entries q" arbitrary: q s)
  case Nil
  then have "pop_entry q = None" using cmdq.get_None_iff [of q] by simp
  then show ?case by (subst process_pending.simps) simp
next
  case (Cons m ms)
  from Cons.prems(2) show ?case
  proof (cases rule: pop_entry_cases)
    case 1
    then show ?thesis using Cons.hyps(2) by simp
  next
    case (2 m' q1)
    then have e: "m' = m" "entries q1 = ms" using Cons.hyps(2) by auto
    let ?body = "case m of
        GENERATE_EBD p _ \<Rightarrow> map_option report_failure (empty_buffer_done p s)
      | GENERATE_FBD p _ \<Rightarrow> map_option report_failure (fill_buffer_done P p s)
      | _ \<Rightarrow> Some s"
    have "m \<in> set (entries q)" using Cons.hyps(2) by (metis list.set_intros(1))
    with Cons.prems(3) have ok: "is_fbd m \<and> ftb_msg_ok (snd (shape s)) m \<or> is_ebd m \<and> etb_msg_ok (fst (shape s)) m"
      by blast
    have "returns (weight m) s ?body"
    proof (cases m)
      case (GENERATE_EBD p st)
      then show ?thesis using ok
        by (auto simp: is_fbd_def frame_simps dest!: in_arrayI intro!: returns_map returns_mono [OF returns_empty_buffer_done])
    next
      case (GENERATE_FBD p st)
      then show ?thesis using ok
        by (auto simp: is_ebd_def frame_simps dest!: in_arrayI intro!: returns_map returns_mono [OF returns_fill_buffer_done])
    qed (auto intro: returns_Some)
    then obtain t where t: "?body = Some t" "keeps (weight m) 0 s t" by (auto simp: returns_def)
    have ok_t: "vdec_ok t" "shape t = shape s" using t(2) Cons.prems(1) by (auto simp: keeps_def)
    have "\<forall>m \<in> set (entries q1). is_fbd m \<and> ftb_msg_ok (snd (shape t)) m \<or> is_ebd m \<and> etb_msg_ok (fst (shape t)) m"
      using Cons.prems(3) Cons.hyps(2) e ok_t(2) by (metis list.set_intros(2))
    from Cons.hyps(1) [OF e(2) [symmetric] ok_t(1) 2(3) this] obtain u where
      u: "process_pending P q1 t = Some u" "keeps (works (entries q1)) 0 t u" by blast
    have "process_pending P q s = Some u" using 2(1) t(1) u(1) e by (subst process_pending.simps) simp
    moreover have "keeps (works (entries q)) 0 s u"
      using keeps_trans [OF t(2) u(2)] Cons.hyps(2) e by (simp flip: Cons.hyps(2))
    ultimately show ?thesis by blast
  qed
qed

lemma works_filter: "works (filter p ms) + works (filter (\<lambda>m. \<not> p m) ms) = works ms"
  by (induction ms) auto

text \<open>The state in which the pending buffers are processed, and the queue of them.\<close>

lemma complete_pending_split:
  assumes "vdec_ok s"
  shows "\<exists>f e q. complete_pending_buffer_done_cbs P s = process_pending P q (s\<lparr>m_ftb_q := f, m_etb_q := e\<rparr>) \<and>
    cmd_queue_ok f \<and> cmd_queue_ok e \<and> cmd_queue_ok q \<and>
    entries f = filter (\<lambda>m. \<not> is_fbd m) (entries (m_ftb_q s)) \<and>
    entries e = filter (\<lambda>m. \<not> is_ebd m) (entries (m_etb_q s)) \<and>
    entries q = fill (filter is_fbd (entries (m_ftb_q s))) (filter is_ebd (entries (m_etb_q s)))"
proof -
  have ok: "cmd_queue_ok (m_ftb_q s)" "cmd_queue_ok (m_etb_q s)" using assms by (auto simp: vdec_ok_def frame_def)
  have le: "length (filter p (entries r)) \<le> OMX_CORE_CONTROL_CMDQ_SIZE" if "cmd_queue_ok r"
    for p and r :: "vdec_msg omx_cmd_queue"
    using entries_bound [OF that] length_filter_le [of p "entries r"] by linarith
  have lem: "length (filter p (entries (m_ftb_q s))) \<le> OMX_CORE_CONTROL_CMDQ_SIZE"
    "length (filter p (entries (m_etb_q s))) \<le> OMX_CORE_CONTROL_CMDQ_SIZE" for p
    using le [OF ok(1)] le [OF ok(2)] by auto
  let ?n = "new_cmd_queue EOS_DONE"
  obtain f0 a0 t0 where 1: "split_queue is_fbd (m_ftb_q s) ?n ?n = Some (f0, a0, t0)" "cmd_queue_ok f0" "cmd_queue_ok a0"
    "cmd_queue_ok t0" "entries f0 = []" "entries a0 = filter is_fbd (entries (m_ftb_q s))"
    "entries t0 = filter (\<lambda>m. \<not> is_fbd m) (entries (m_ftb_q s))"
    using split_queue_spec [where a = ?n and b = ?n and p = is_fbd, OF ok(1)] lem by (auto simp: fill_def)
  obtain t1 f where 2: "move_back t0 f0 = Some (t1, f)" "cmd_queue_ok t1" "cmd_queue_ok f" "entries t1 = []" "entries f = entries t0"
    using move_back_spec [OF 1(4,2)] 1(5) entries_bound [OF 1(4)] by (auto simp: fill_def)
  obtain e0 q t2 where 3: "split_queue is_ebd (m_etb_q s) a0 t1 = Some (e0, q, t2)" "cmd_queue_ok e0" "cmd_queue_ok q"
    "cmd_queue_ok t2" "entries e0 = []" "entries q = fill (entries a0) (filter is_ebd (entries (m_etb_q s)))"
    "entries t2 = filter (\<lambda>m. \<not> is_ebd m) (entries (m_etb_q s))"
    using split_queue_spec [OF ok(2) 1(3) 2(2), of is_ebd] 2(4) lem by (auto simp: fill_def)
  obtain t3 e where 4: "move_back t2 e0 = Some (t3, e)" "cmd_queue_ok e" "entries e = entries t2"
    using move_back_spec [OF 3(4,2)] 3(5) entries_bound [OF 3(4)] by (auto simp: fill_def)
  have "complete_pending_buffer_done_cbs P s = process_pending P q (s\<lparr>m_ftb_q := f, m_etb_q := e\<rparr>)"
    by (simp add: complete_pending_buffer_done_cbs_def Let_def 1(1) 2(1) 3(1) 4(1))
  then show ?thesis using 1 2 3 4 by (intro exI [of _ f] exI [of _ e] exI [of _ q]) simp
qed

lemma complete_pending_returns:
  assumes "vdec_ok s"
  shows "\<exists>t. complete_pending_buffer_done_cbs P s = Some t \<and> keeps 0 0 s t"
proof -
  obtain f e q where c: "complete_pending_buffer_done_cbs P s = process_pending P q (s\<lparr>m_ftb_q := f, m_etb_q := e\<rparr>)"
    "cmd_queue_ok f" "cmd_queue_ok e" "cmd_queue_ok q"
    "entries f = filter (\<lambda>m. \<not> is_fbd m) (entries (m_ftb_q s))"
    "entries e = filter (\<lambda>m. \<not> is_ebd m) (entries (m_etb_q s))"
    "entries q = fill (filter is_fbd (entries (m_ftb_q s))) (filter is_ebd (entries (m_etb_q s)))"
    using complete_pending_split [OF assms, of P] by (elim exE conjE)
  let ?s = "s\<lparr>m_ftb_q := f, m_etb_q := e\<rparr>"
  have sh: "shape ?s = shape s" by (simp add: shape_def)
  have ok: "cmd_queue_ok (m_cmd_q s)" "list_all cmd_msg_ok (entries (m_cmd_q s))"
    "list_all (ftb_msg_ok (snd (shape s))) (entries (m_ftb_q s))"
    "list_all (etb_msg_ok (fst (shape s))) (entries (m_etb_q s))" "memory_ok (codec_type_parse s) (m_inp_mem_ptr s)"
    using assms by (auto simp: vdec_ok_def frame_def split: prod.splits)
  have 1: "vdec_ok ?s" using ok c(2-6) sh by (auto simp: vdec_ok_def frame_def list_all_iff split: prod.splits)
  have 2: "work ?s + works (entries q) \<le> work s" "acks ?s = acks s"
    using works_filter [of is_fbd "entries (m_ftb_q s)"] works_filter [of is_ebd "entries (m_etb_q s)"]
      works_fill [of "filter is_fbd (entries (m_ftb_q s))" "filter is_ebd (entries (m_etb_q s))"] c(5-7)
    by (auto simp: work_def frame_def acks_def commands_waiting_def)
  have "\<forall>m \<in> set (entries q). is_fbd m \<and> ftb_msg_ok (snd (shape ?s)) m \<or> is_ebd m \<and> etb_msg_ok (fst (shape ?s)) m"
    unfolding sh c(7) using set_fill [of "filter is_fbd (entries (m_ftb_q s))" "filter is_ebd (entries (m_etb_q s))"] ok(3,4)
    by (auto simp: list_all_iff)
  from process_pending_returns [OF 1 c(4) this, of P] obtain t where
    t: "process_pending P q ?s = Some t" "keeps (works (entries q)) 0 ?s t" by blast
  have "keeps 0 0 s t" using t(2) 1 2 sh by (auto simp: keeps_def)
  then show ?thesis using c(1) t(1) by simp
qed

section \<open>One message\<close>

lemma keeps_generated: "keeps 0 0 s (process_generated P ev s)"
proof -
  have c: "frame (complete_command P cmd s) = frame s" "m_cmd_lock (complete_command P cmd s) = m_cmd_lock s" for cmd
    by (cases cmd; simp add: complete_command_def case_prod_beta frame_simps)+
  have f: "frame (flush_as_error port s) = frame s" "m_cmd_lock (flush_as_error port s) = m_cmd_lock s" for port
    by (cases port; simp add: flush_as_error_def frame_simps)+
  have cc: "frame (process_generated P (CommandComplete cmd) s) = frame s \<and>
      m_cmd_lock (process_generated P (CommandComplete cmd) s) = m_cmd_lock s" for cmd
    by (cases cmd) (simp_all add: process_generated_def c f)
  have e: "frame (process_generated P (ErrorCode e) s) = frame s \<and>
      m_cmd_lock (process_generated P (ErrorCode e) s) = m_cmd_lock s" for e
    by (cases e) (simp_all add: process_generated_def frame_simps)
  show ?thesis
  proof (cases ev)
    case (ErrorCode x)
    then show ?thesis using e [of x] by (intro keeps_frame) simp_all
  next
    case (CommandComplete cmd)
    then show ?thesis using cc [of cmd] by (intro keeps_frame) simp_all
  next
    case ErrorStateInvalid
    then show ?thesis by (intro keeps_frame) (simp_all add: process_generated_def frame_simps)
  qed
qed

lemma returns_ebd:
  assumes "p = None \<or> in_array (fst (shape s)) p"
  shows "returns 0 s (process_ebd p st s)"
proof (cases "st \<noteq> VDEC_S_SUCCESS \<and> st \<noteq> VDEC_S_INPUT_BITSTREAM_ERR")
  case True
  then show ?thesis by (simp add: process_ebd_def frame_simps keeps_frame returns_Some)
next
  case False
  let ?r = "if st = VDEC_S_INPUT_BITSTREAM_ERR \<and> p \<noteq> None then do {
               let s = s\<lparr>m_inp_err_count := m_inp_err_count s + 1\<rparr>;
               ts \<leftarrow> header_ts p s;
               Some (s\<lparr>time_stamp_dts := snd (remove_time_stamp ts (interlaced s) (time_stamp_dts s))\<rparr>)
             }
             else Some (s\<lparr>m_inp_err_count := 0\<rparr>)"
  have "\<exists>t. ?r = Some t \<and> frame t = frame s \<and> m_cmd_lock t = m_cmd_lock s"
    using assms load_in [of s p] by (auto simp: header_ts_def Let_def frame_simps)
  then obtain t where t: "?r = Some t" "frame t = frame s" "m_cmd_lock t = m_cmd_lock s" by blast
  have "shape t = shape s" using t(2) by (simp add: frame_def)
  then have "returns 0 t (map_option snd (empty_buffer_done p t))"
    using assms by (intro returns_empty_buffer_done) simp
  then have "returns 0 t (map_option report_failure (empty_buffer_done p t))"
    by (rule returns_map) (simp_all add: frame_simps)
  then have "returns (0 + 0) t (map_option report_failure (empty_buffer_done p t) \<bind>
      (\<lambda>s. Some (report_unless (m_inp_err_count s \<le> MAX_INPUT_ERROR) s)))"
    by (rule returns_bind) (simp add: returns_def frame_simps keeps_frame)
  then have "returns 0 t (process_ebd p st s)"
    unfolding process_ebd_def if_not_P [OF False] using t(1) by simp
  from returns_after [OF t(2,3) this] show ?thesis .
qed

lemma returns_input_flush: "vdec_ok s \<Longrightarrow> returns 0 s (process_input_flush P st s)"
proof (cases "input_flush_progress s")
  case True
  assume "vdec_ok s"
  then obtain t where t: "drain_etb s = Some t" "keeps 0 0 s t"
    using drain_etb_returns [of s] by (auto simp: keeps_def)
  let ?t = "reset_prev_ts (t\<lparr>time_stamp_dts := flush_timestamp (time_stamp_dts t), input_flush_progress := False\<rparr>)"
  have f: "execute_input_flush s = Some ?t" using t(1) by (simp add: execute_input_flush_def Let_def)
  have "frame u = frame t \<Longrightarrow> m_cmd_lock u = m_cmd_lock t \<Longrightarrow> returns 0 s (Some u)" for u
    using keeps_update [OF t(2)] by (simp add: returns_Some)
  then show ?thesis
    using True by (simp add: process_input_flush_def f Let_def stop_if_idle_pending_def case_prod_beta frame_simps)
next
  case False
  then show ?thesis by (simp add: process_input_flush_def returns_Some)
qed

lemma returns_output_flush: "vdec_ok s \<Longrightarrow> returns 1 s (process_output_flush P st s)"
proof (cases "output_flush_progress s")
  case True
  assume "vdec_ok s"
  then obtain t where t: "drain_ftb P s = Some t" "keeps 0 0 s t"
    using drain_ftb_returns [of s P] by (auto simp: keeps_def)
  have f: "execute_output_flush P s = Some (t\<lparr>output_flush_progress := False\<rparr>)"
    using t(1) by (simp add: execute_output_flush_def)
  have k: "keeps (Suc 0) 0 s u" if "frame u = frame t" "m_cmd_lock u = m_cmd_lock t" for u
    by (rule keeps_mono [OF keeps_update [OF t(2) that]]) simp
  have e: "keeps (Suc 0) 0 s v" if "frame v = frame (post_event (GENERATE_EVENT ev) u)" "m_cmd_lock v = m_cmd_lock u"
    "frame u = frame t" "m_cmd_lock u = m_cmd_lock t" for ev u v
  proof -
    have "keeps (0 + 1) 0 s (post_event (GENERATE_EVENT ev) u)"
      using keeps_trans [OF keeps_update [OF t(2) that(3,4)] keeps_event [of 1]] by simp
    then show ?thesis using keeps_update [of "0 + 1" s "post_event (GENERATE_EVENT ev) u" v] that(1,2) by simp
  qed
  let ?w = "\<lambda>s. callback (EventCmdComplete (Flush OutputPort)) (clear_flag OUTPUT_FLUSH_PENDING s)"
  have d: "keeps (Suc 0) 0 s v" if u: "frame v = frame (end_disable_flush u)" "m_cmd_lock v = m_cmd_lock (end_disable_flush u)"
    "frame u = frame t" "m_cmd_lock u = m_cmd_lock t" for u v
    using u(1,2)
    by (auto simp: end_disable_flush_def Let_def frame_simps u(3,4) k split: if_splits
        intro: e [of _ _ "clear_flag OUTPUT_FLUSH_IN_DISABLE_PENDING u"])
  show ?thesis
    using True
    by (simp add: process_output_flush_def f Let_def stop_if_idle_pending_def case_prod_beta frame_simps returns_Some k)
      (auto simp: frame_simps intro!: returns_Some d)
next
  case False
  then show ?thesis by (simp add: process_output_flush_def returns_Some)
qed

lemma returns_done:
  assumes "vdec_ok s" "\<And>t. frame (g t) = frame t" "\<And>t. m_cmd_lock (g t) = m_cmd_lock t"
  shows "returns 0 s (if st \<noteq> VDEC_S_SUCCESS then Some (omx_report_error s)
    else do { t \<leftarrow> complete_pending_buffer_done_cbs P s; Some (g t) })"
proof -
  obtain t where t: "complete_pending_buffer_done_cbs P s = Some t" "keeps 0 0 s t"
    using complete_pending_returns [OF assms(1)] by blast
  show ?thesis using t keeps_update [OF t(2) assms(2,3)] by (simp add: returns_Some keeps_frame frame_simps)
qed

lemma returns_pause_stop: "vdec_ok s \<Longrightarrow> returns 0 s (process_pause_done P st s)"
  "vdec_ok s \<Longrightarrow> returns 0 s (process_stop_done P st s)"
  unfolding process_pause_done_def process_stop_done_def
  by (rule returns_done; simp add: enter_state_def frame_simps)+

lemma returns_msg:
  assumes "vdec_ok s" "msg_ok s m" "\<not> is_command m"
  shows "returns (weight m - 1) s (process_msg P m s)"
proof (cases m)
  case (GENERATE_EVENT ev)
  then show ?thesis by (simp add: process_msg_def returns_Some keeps_generated)
next
  case (GENERATE_COMMAND cmd)
  then show ?thesis using assms(3) by (simp add: is_command_def)
next
  case (GENERATE_FTB p)
  then have "in_array (snd (shape s)) p" using assms(2) by (simp add: msg_ok_def cmd_msg_ok_def ftb_msg_ok_def etb_msg_ok_def)
  from returns_map [OF returns_ftb_proxy [OF this, of P], of report_failure]
  show ?thesis using GENERATE_FTB by (simp add: process_msg_def frame_simps)
next
  case (GENERATE_ETB p)
  then have "in_array (fst (shape s)) p" using assms(2) by (simp add: msg_ok_def cmd_msg_ok_def ftb_msg_ok_def etb_msg_ok_def)
  from returns_map [OF returns_etb_proxy [OF this assms(1), of P], of report_failure]
  show ?thesis using GENERATE_ETB by (simp add: process_msg_def frame_simps)
next
  case (GENERATE_EBD p st)
  then have "p = None \<or> in_array (fst (shape s)) p" using assms(2) by (simp add: msg_ok_def cmd_msg_ok_def ftb_msg_ok_def etb_msg_ok_def)
  from returns_ebd [OF this, of st] show ?thesis using GENERATE_EBD by (simp add: process_msg_def)
next
  case (GENERATE_FBD p st)
  then have "in_array (snd (shape s)) p" using assms(2) by (simp add: msg_ok_def cmd_msg_ok_def ftb_msg_ok_def etb_msg_ok_def)
  from returns_map [OF returns_fill_buffer_done [OF this, of P], of report_failure]
  show ?thesis using GENERATE_FBD by (simp add: process_msg_def process_fbd_def frame_simps returns_Some keeps_frame)
next
  case (EVENT_INPUT_FLUSH st)
  then show ?thesis using returns_input_flush [OF assms(1)] by (simp add: process_msg_def)
next
  case (EVENT_OUTPUT_FLUSH st)
  then show ?thesis using returns_output_flush [OF assms(1)] by (simp add: process_msg_def)
next
  case (START_DONE st)
  then show ?thesis
    by (simp add: process_msg_def process_start_done_def enter_state_def case_prod_beta frame_simps keeps_frame returns_Some)
next
  case (PAUSE_DONE st)
  then show ?thesis using returns_pause_stop(1) [OF assms(1)] by (simp add: process_msg_def)
next
  case (RESUME_DONE st)
  then show ?thesis
    by (simp add: process_msg_def process_resume_done_def enter_state_def frame_simps keeps_frame returns_Some)
next
  case (STOP_DONE st)
  then show ?thesis using returns_pause_stop(2) [OF assms(1)] by (simp add: process_msg_def)
next
  case (PORT_RECONFIG idx)
  then show ?thesis
    by (simp add: process_msg_def process_port_reconfig_def case_prod_beta Let_def frame_simps keeps_frame returns_Some)
qed (simp_all add: process_msg_def frame_simps keeps_frame returns_Some)

lemma msg_kind: "cmd_msg_ok m \<Longrightarrow> \<not> ftb_msg_ok n m \<and> \<not> etb_msg_ok n m" "ftb_msg_ok n m \<Longrightarrow> \<not> is_command m"
  "etb_msg_ok n m \<Longrightarrow> \<not> is_command m"
  by (cases m; simp add: cmd_msg_ok_def ftb_msg_ok_def etb_msg_ok_def is_command_def)+

text \<open>A message that is taken is valid and counted.\<close>

lemma next_msg_ok:
  assumes "vdec_ok s" "next_msg s = Some (m, t)"
  shows "vdec_ok t" "shape t = shape s" "msg_ok t m" "work s = work t + weight m"
    "acks s = acks t + (if is_command m then 1 else 0)"
proof -
  from assms(2) have c: "(\<exists>q. pop_entry (m_cmd_q s) = Some (m, q) \<and> t = s\<lparr>m_cmd_q := q\<rparr>) \<or>
      (\<exists>q. pop_entry (m_ftb_q s) = Some (m, q) \<and> t = s\<lparr>m_ftb_q := q\<rparr>) \<or>
      (\<exists>q. pop_entry (m_etb_q s) = Some (m, q) \<and> t = s\<lparr>m_etb_q := q\<rparr>)"
    by (auto simp: next_msg_def split: option.splits prod.splits if_splits)
  have "vdec_ok t \<and> shape t = shape s \<and> msg_ok t m \<and> work s = work t + weight m \<and>
      acks s = acks t + (if is_command m then 1 else 0)"
    using c
  proof (elim disjE exE conjE)
    fix q assume "pop_entry (m_cmd_q s) = Some (m, q)" "t = s\<lparr>m_cmd_q := q\<rparr>"
    then show ?thesis using pop_cmd [OF assms(1), of m q] by (simp add: msg_ok_def)
  next
    fix q assume "pop_entry (m_ftb_q s) = Some (m, q)" "t = s\<lparr>m_ftb_q := q\<rparr>"
    then show ?thesis using pop_ftb [OF assms(1), of m q] msg_kind(2) by (auto simp: msg_ok_def)
  next
    fix q assume "pop_entry (m_etb_q s) = Some (m, q)" "t = s\<lparr>m_etb_q := q\<rparr>"
    then show ?thesis using pop_etb [OF assms(1), of m q] msg_kind(3) by (auto simp: msg_ok_def)
  qed
  then show "vdec_ok t" "shape t = shape s" "msg_ok t m" "work s = work t + weight m"
    "acks s = acks t + (if is_command m then 1 else 0)" by simp_all
qed

text \<open>One round of the loop: nothing happens, or there is less work to do.\<close>

lemma process_one_ok:
  assumes "vdec_ok s"
  shows "\<exists>t. process_one P s = Some t \<and> vdec_ok t \<and> shape t = shape s \<and> acks t = acks s \<and>
    (if next_msg s = None then t = s else work t < work s)"
proof (cases "next_msg s")
  case None
  then show ?thesis using assms by (simp add: process_one_def)
next
  case (Some x)
  then obtain m s1 where m: "next_msg s = Some (m, s1)" by (cases x) auto
  note n = next_msg_ok [OF assms m]
  show ?thesis
  proof (cases "is_command m")
    case True
    then obtain cmd where c: "m = GENERATE_COMMAND cmd" by (cases m) (auto simp: is_command_def)
    have "keeps 3 1 s1 (snd (send_command_proxy P cmd s1))" by (rule keeps_send_command_proxy)
    then show ?thesis using n m c by (auto simp: process_one_def process_msg_def keeps_def is_command_def)
  next
    case False
    from returns_msg [OF n(1,3) False, of P] obtain t where
      t: "process_msg P m s1 = Some t" "keeps (weight m - 1) 0 s1 t" by (auto simp: returns_def)
    then show ?thesis using n m False weight_pos [of m] by (auto simp: process_one_def keeps_def)
  qed
qed

section \<open>The loop\<close>

lemma more_msgs_next: "more_msgs s \<Longrightarrow> vdec_ok s \<Longrightarrow> next_msg s \<noteq> None"
proof -
  assume m: "more_msgs s" and "vdec_ok s"
  then have "pop_entry (m_cmd_q s) = None \<longleftrightarrow> m_size (m_cmd_q s) = 0"
    "pop_entry (m_ftb_q s) = None \<longleftrightarrow> m_size (m_ftb_q s) = 0"
    "pop_entry (m_etb_q s) = None \<longleftrightarrow> m_size (m_etb_q s) = 0"
    by (auto simp: pop_entry_def)
  then show ?thesis using m by (auto simp: next_msg_def more_msgs_def split: option.splits if_splits)
qed

lemma process_event_cb_result:
  assumes "vdec_ok s"
  shows "\<exists>t. process_event_cb P s = Some t \<and> vdec_ok t \<and> shape t = shape s \<and> acks t = acks s \<and> \<not> more_msgs t"
  using assms
proof (induction "work s" arbitrary: s rule: less_induct)
  case less
  obtain t where t: "process_one P s = Some t" "vdec_ok t" "shape t = shape s" "acks t = acks s"
    "if next_msg s = None then t = s else work t < work s"
    using process_one_ok [OF less.prems] by blast
  show ?case
  proof (cases "more_msgs t")
    case False
    then show ?thesis using t by (subst process_event_cb.simps) simp
  next
    case True
    then have "work t < work s" using more_msgs_next [OF True t(2)] t(5) by (auto split: if_splits)
    from less.hyps [OF this t(2)] obtain u where
      u: "process_event_cb P t = Some u" "vdec_ok u" "shape u = shape t" "acks u = acks t" "\<not> more_msgs u" by blast
    have "process_event_cb P s = Some u" using True t(1) u(1) by (subst process_event_cb.simps) simp
    then show ?thesis using t u by auto
  qed
qed

lemma entries_Nil: "entries q = [] \<longleftrightarrow> m_size q = 0"
  using length_entries [of q] by (cases "entries q") auto

lemma no_more_acks: "\<not> more_msgs s \<Longrightarrow> acks s = m_cmd_lock s"
  using entries_Nil [of "m_cmd_q s"] by (simp add: more_msgs_def acks_def commands_waiting_def frame_def)

text \<open>
  C1. The message thread returns from every call: with valid messages in the queues and, for MPEG-4
  and DivX, input buffers whose frame begins with a VOP or a group of VOPs or has room for the searches
  of the header parser behind it (\<open>readable\<close>), the loop ends, reads
  and writes nothing outside the header arrays and the buffers it parses, leaves no command and,
  unless the component is paused, no buffer message behind, and has posted the semaphore once for
  every command. Without the condition on the memory the parser may read beyond the buffer
  (\<open>parse_header_overreads\<close>).
\<close>
theorem process_event_cb_returns:
  assumes "vdec_ok s"
  shows "\<exists>t. process_event_cb P s = Some t \<and> vdec_ok t \<and> entries (m_cmd_q t) = [] \<and>
    (m_state t \<noteq> StatePause \<longrightarrow> entries (m_ftb_q t) = [] \<and> entries (m_etb_q t) = []) \<and>
    m_cmd_lock t = m_cmd_lock s + commands_waiting s"
proof -
  obtain t where t: "process_event_cb P s = Some t" "vdec_ok t" "acks t = acks s" "\<not> more_msgs t"
    using process_event_cb_result [OF assms, of P] by blast
  then show ?thesis using no_more_acks [OF t(4)]
    by (auto simp: more_msgs_def acks_def entries_Nil)
qed

end
