(* ===== verification/VdecRuns.thy ===== *)
theory VdecRuns
  imports VdecLoop
begin

text \<open>
  The decoder component in its environment: the client's calls, the driver's messages and the
  rounds of the message thread in any order keep the messages in the queues valid.
\<close>

section \<open>Runs of the component\<close>

text \<open>
  The driver names headers of the arrays or null. The client writes the fields of a header; for
  MPEG-4 and DivX the parser must stay inside the memory it hands over, and inside the block of a
  buffer that is allocated, whatever a header of the array still says about the length
  (\<open>readable\<close> asks for a frame that begins with a VOP or for room behind it). The client frees a buffer only while no
  buffer message is queued: \<open>free_buffer\<close> itself has no such test.
\<close>

definition client_header_ok :: "omx_vdec \<Rightarrow> omx_buffer \<Rightarrow> bool" where
  "client_header_ok s h \<longleftrightarrow> (codec_type_parse s = CODEC_TYPE_MPEG4 \<longrightarrow> header_readable h)"

definition client_block_ok :: "omx_vdec \<Rightarrow> u8 list \<Rightarrow> bool" where
  "client_block_ok s block \<longleftrightarrow> client_header_ok s (zero_header\<lparr>pBuffer := block\<rparr>) \<and>
     (case m_inp_mem_ptr s of None \<Rightarrow> True
      | Some bs \<Rightarrow> list_all (\<lambda>b. client_header_ok s ((hdr b)\<lparr>pBuffer := block\<rparr>)) bs)"

definition driver_ok :: "omx_vdec \<Rightarrow> driver_msg \<Rightarrow> bool" where
  "driver_ok s m = (case m of
     MSG_INPUT_DONE p _ \<Rightarrow> p = None \<or> in_array (fst (shape s)) p
   | MSG_OUTPUT_DONE f _ \<Rightarrow> frame_client_data f = None \<or> in_array (snd (shape s)) (frame_client_data f)
   | _ \<Rightarrow> True)"

lemma client_header_room: "4 * nFilledLen h + 24 \<le> length (pBuffer h) - nOffset h \<Longrightarrow> client_header_ok s h"
  by (simp add: client_header_ok_def header_readable_def readable_slack)

inductive vdec_step :: "platform \<Rightarrow> omx_vdec \<Rightarrow> omx_vdec \<Rightarrow> bool" for P where
  client_empty: "empty_this_buffer P p s = Some (e, t) \<Longrightarrow> vdec_step P s t"
| client_fill: "fill_this_buffer p s = Some (e, t) \<Longrightarrow> vdec_step P s t"
| client_command: "send_command cmd s = (e, t) \<Longrightarrow> vdec_step P s t"
| client_wakes: "sem_wait s = Some t \<Longrightarrow> vdec_step P s t"
| client_writes: "load_header (m_inp_mem_ptr s) p = Some b \<Longrightarrow> client_header_ok s h \<Longrightarrow> vdec_step P s (store_in p h b s)"
| client_allocates: "client_block_ok s block \<Longrightarrow> allocate_buffer P ok block port s = Some (e, p, t) \<Longrightarrow> vdec_step P s t"
| client_frees: "entries (m_ftb_q s) = [] \<Longrightarrow> entries (m_etb_q s) = [] \<Longrightarrow>
    free_buffer P port i s = (e, t) \<Longrightarrow> vdec_step P s t"
| driver_msg: "driver_ok s m \<Longrightarrow> async_message_process m s = Some t \<Longrightarrow> vdec_step P s t"
| thread: "process_one P s = Some t \<Longrightarrow> vdec_step P s t"

inductive_simps vdec_step_iff: "vdec_step P s t"

lemma vdec_ok_frame: "frame t = frame s \<Longrightarrow> vdec_ok t = vdec_ok s"
  by (simp add: vdec_ok_def)

lemma vdec_ok_post: "vdec_ok s \<Longrightarrow> msg_ok s m \<Longrightarrow> vdec_ok (post_event m s)"
  by (cases m; cases "shape s")
    (auto simp: vdec_ok_def frame_def msg_ok_def enqueue_ok ftb_msg_ok_def etb_msg_ok_def cmd_msg_ok_def)

lemma vdec_ok_post_frame: "vdec_ok s \<Longrightarrow> frame t = frame s \<Longrightarrow> msg_ok s m \<Longrightarrow> vdec_ok (post_event m t)"
  by (rule vdec_ok_post) (simp_all add: vdec_ok_def msg_ok_def frame_def)

lemma msg_ok_cmd: "cmd_msg_ok m \<Longrightarrow> msg_ok s m"
  by (simp add: msg_ok_def)

lemma load_header_in_array: "load_header mem p = Some b \<Longrightarrow> in_array (map_option length mem) p"
  by (auto simp: load_header_def split: option.splits if_splits)

text \<open>With a valid state at hand: states with its queues, and messages posted to them.\<close>

lemma ok_rules:
  assumes "vdec_ok s"
  shows "frame t = frame s \<Longrightarrow> vdec_ok t" "frame t = frame s \<Longrightarrow> msg_ok s m \<Longrightarrow> vdec_ok (post_event m t)"
  using assms vdec_ok_frame vdec_ok_post_frame by blast+

lemma empty_this_buffer_ok:
  assumes "vdec_ok s" "empty_this_buffer P p s = Some (e, t)"
  shows "vdec_ok t"
proof -
  obtain b where b: "load_header (m_inp_mem_ptr s) p = Some b"
    using assms(2) by (auto simp: empty_this_buffer_def split: bind_splits)
  then have "msg_ok s (GENERATE_ETB p)"
    by (auto simp: msg_ok_def etb_msg_ok_def shape_def dest: load_header_in_array)
  then show ?thesis
    using assms(2) b by (auto simp: empty_this_buffer_def Let_def frame_simps ok_rules [OF assms(1)] split: if_splits)
qed

lemma fill_this_buffer_ok:
  assumes "vdec_ok s" "fill_this_buffer p s = Some (e, t)"
  shows "vdec_ok t"
proof -
  have "msg_ok s (GENERATE_FTB p)" if "load_header (m_out_mem_ptr s) p = Some b" for b
    using that by (auto simp: msg_ok_def ftb_msg_ok_def shape_def dest: load_header_in_array)
  then show ?thesis
    using assms by (auto simp: fill_this_buffer_def ok_rules [OF assms(1)] split: if_splits bind_splits)
qed

lemma send_command_ok:
  assumes "vdec_ok s" "send_command cmd s = (e, t)"
  shows "vdec_ok t"
proof -
  have "msg_ok s (GENERATE_COMMAND cmd)" by (rule msg_ok_cmd) (simp add: cmd_msg_ok_def)
  then show ?thesis
    using assms by (auto simp: send_command_def ok_rules [OF assms(1)] split: if_splits omx_command.splits port.splits)
qed

lemma sem_wait_ok: "vdec_ok s \<Longrightarrow> sem_wait s = Some t \<Longrightarrow> vdec_ok t"
  by (auto simp: sem_wait_def vdec_ok_def frame_simps split: if_splits)

lemma async_ok:
  assumes ok: "vdec_ok s" and d: "driver_ok s m" and t: "async_message_process m s = Some t"
  shows "vdec_ok t"
proof (cases m)
  case (MSG_INPUT_DONE p st)
  then have "t = input_done p st s" using t by (simp add: async_message_process_def)
  then show ?thesis using d MSG_INPUT_DONE
    by (auto simp: input_done_def driver_ok_def msg_ok_def etb_msg_ok_def ok_rules [OF ok])
next
  case (MSG_OUTPUT_DONE f st)
  have none: "vdec_ok (no_frame f s)" by (auto simp: no_frame_def cmd_msg_ok_def msg_ok_cmd ok_rules [OF ok])
  show ?thesis
  proof (cases "frame_client_data f")
    case None
    then show ?thesis using t MSG_OUTPUT_DONE none by (simp add: async_message_process_def output_done_def)
  next
    case (Some i)
    then have m: "ftb_msg_ok (snd (shape s)) (GENERATE_FBD (Some i) st)"
      using d MSG_OUTPUT_DONE by (simp add: driver_ok_def ftb_msg_ok_def)
    have crop: "msg_ok s (PORT_RECONFIG ConfigCommonOutputCrop)" by (simp add: msg_ok_def cmd_msg_ok_def)
    have fbd: "vdec_ok (post_event (GENERATE_FBD (Some i) st) u)" if "vdec_ok u" "shape u = shape s" for u
      by (rule vdec_ok_post [OF that(1)]) (use m that(2) in \<open>simp add: msg_ok_def\<close>)
    have sh: "vdec_ok (post_event (GENERATE_FBD (Some i) st) u)" if "frame u = frame s" for u
      by (rule fbd) (use that ok in \<open>simp_all add: frame_def vdec_ok_def\<close>)
    obtain b where b: "load_header (m_out_mem_ptr s) (Some i) = Some b"
      using t MSG_OUTPUT_DONE Some by (auto simp: async_message_process_def output_done_def split: bind_splits)
    let ?h = "(hdr b)\<lparr>nFilledLen := frame_len f, nOffset := frame_offset f,
        nTimeStamp := frame_time_stamp f, nFlags := sync_flag f\<rparr>"
    let ?s1 = "store_out (Some i) ?h b s"
    have "frame (?s1\<lparr>rectangle := frame_size f\<rparr>) = frame s" by (simp add: frame_simps)
    then have crop_ok: "vdec_ok (post_event (GENERATE_FBD (Some i) st)
        (post_event (PORT_RECONFIG ConfigCommonOutputCrop) (?s1\<lparr>rectangle := frame_size f\<rparr>)))"
      by (intro fbd) (simp_all add: crop ok_rules [OF ok], simp add: frame_def)
    have "t = no_frame f s \<or> (\<exists>u. t = post_event (GENERATE_FBD (Some i) st) u \<and>
        (u = ?s1 \<or> u = store_out (Some i) ((hdr b)\<lparr>nFilledLen := 0\<rparr>) b s \<or>
         u = post_event (PORT_RECONFIG ConfigCommonOutputCrop) (?s1\<lparr>rectangle := frame_size f\<rparr>)))"
      using t MSG_OUTPUT_DONE Some b
      by (auto simp: async_message_process_def output_done_def Let_def split: if_splits)
    then show ?thesis
      using none crop_ok by (elim disjE exE conjE; simp add: sh frame_simps)
  qed
qed (use t vdec_ok_post [OF ok msg_ok_cmd] in \<open>auto simp: async_message_process_def cmd_msg_ok_def\<close>)

text \<open>The three queues alone, for the steps that allocate or free header arrays.\<close>

definition queues :: "omx_vdec \<Rightarrow>
    vdec_msg omx_cmd_queue \<times> vdec_msg omx_cmd_queue \<times> vdec_msg omx_cmd_queue" where
  "queues s = (m_cmd_q s, m_ftb_q s, m_etb_q s)"

lemma queues_frame: "frame t = frame s \<Longrightarrow> queues t = queues s"
  by (simp add: frame_def queues_def)

text \<open>The memory of the input port, if it is well-formed, stays so.\<close>

definition input_memory_ok :: "omx_vdec \<Rightarrow> bool" where
  "input_memory_ok s = memory_ok (codec_type_parse s) (m_inp_mem_ptr s)"

lemma vdec_ok_memory: "vdec_ok s \<Longrightarrow> input_memory_ok s"
  by (auto simp: vdec_ok_def frame_def input_memory_ok_def split: prod.splits)

definition grows :: "nat option \<Rightarrow> nat option \<Rightarrow> bool" where
  "grows m n \<longleftrightarrow> m = None \<or> n = m"

lemma in_array_grows: "grows m n \<Longrightarrow> in_array m p \<Longrightarrow> in_array n p"
  by (cases m; cases p) (auto simp: grows_def)

lemma vdec_ok_grows:
  assumes "vdec_ok s" "queues t = queues s" "grows (fst (shape s)) (fst (shape t))" "grows (snd (shape s)) (snd (shape t))"
    and "input_memory_ok t"
  shows "vdec_ok t"
proof -
  have "ftb_msg_ok (snd (shape t)) m" if "ftb_msg_ok (snd (shape s)) m" for m
    using that in_array_grows [OF assms(4)] by (cases m) (auto simp: ftb_msg_ok_def)
  moreover have "etb_msg_ok (fst (shape t)) m" if "etb_msg_ok (fst (shape s)) m" for m
    using that in_array_grows [OF assms(3)] by (cases m) (auto simp: etb_msg_ok_def)
  ultimately show ?thesis
    using assms(1,2,5) by (auto simp: vdec_ok_def frame_def queues_def list_all_iff input_memory_ok_def split: prod.splits)
qed

lemma shape_store [simp]: "shape (store_in p h b s) = shape s" "shape (store_out p h b s) = shape s"
  by (simp_all add: shape_def store_in_def store_out_def)

lemma shape_update [simp]:
  "shape (s\<lparr>input_pmem := a\<rparr>) = shape s" "shape (s\<lparr>m_inp_bm_count := b\<rparr>) = shape s"
  "shape (s\<lparr>m_out_bm_count := b\<rparr>) = shape s" "shape (s\<lparr>requests := r\<rparr>) = shape s"
  by (simp_all add: shape_def)

lemma shape_ioctl [simp]: "shape (snd (ioctl P r s)) = shape s" "queues (snd (ioctl P r s)) = queues s"
  using frame_ioctl(1) [of P r s] by (simp_all add: frame_def queues_def)

lemma queues_update [simp]:
  "queues (s\<lparr>input_pmem := a\<rparr>) = queues s" "queues (s\<lparr>m_inp_bm_count := b\<rparr>) = queues s"
  "queues (s\<lparr>m_out_bm_count := b\<rparr>) = queues s" "queues (s\<lparr>m_inp_mem_ptr := mi\<rparr>) = queues s"
  "queues (s\<lparr>m_out_mem_ptr := mo\<rparr>) = queues s" "queues (store_in p h hb s) = queues s"
  "queues (store_out p h hb s) = queues s" "queues (s\<lparr>m_inp_bPopulated := c\<rparr>) = queues s"
  "queues (s\<lparr>m_out_bPopulated := c\<rparr>) = queues s" "queues (clear_flag k s) = queues s"
  by (simp_all add: queues_def store_in_def store_out_def clear_flag_def)

lemma shape_allocated [simp]:
  "shape (s\<lparr>m_inp_mem_ptr := Some x\<rparr>) = (Some (length x), snd (shape s))"
  "shape (s\<lparr>m_out_mem_ptr := Some x\<rparr>) = (fst (shape s), Some (length x))"
  by (simp_all add: shape_def)

lemma grows_simps [simp]: "grows n n" "grows None n"
  by (simp_all add: grows_def)

lemma allocate_grows:
  "allocate_input_buffer P ok block s = Some (e, p, t) \<Longrightarrow>
    queues t = queues s \<and> grows (fst (shape s)) (fst (shape t)) \<and> grows (snd (shape s)) (snd (shape t))"
  "allocate_output_buffer P ok block s = Some (e, p, t) \<Longrightarrow>
    queues t = queues s \<and> grows (fst (shape s)) (fst (shape t)) \<and> grows (snd (shape s)) (snd (shape t))"
proof -
  have n: "m_inp_mem_ptr s = None \<Longrightarrow> fst (shape s) = None" "m_out_mem_ptr s = None \<Longrightarrow> snd (shape s) = None"
    by (simp_all add: shape_def)
  show "allocate_input_buffer P ok block s = Some (e, p, t) \<Longrightarrow>
    queues t = queues s \<and> grows (fst (shape s)) (fst (shape t)) \<and> grows (snd (shape s)) (snd (shape t))"
    by (auto simp: allocate_input_buffer_def Let_def case_prod_beta n split: option.splits if_splits bind_splits)
  show "allocate_output_buffer P ok block s = Some (e, p, t) \<Longrightarrow>
    queues t = queues s \<and> grows (fst (shape s)) (fst (shape t)) \<and> grows (snd (shape s)) (snd (shape t))"
    by (auto simp: allocate_output_buffer_def Let_def case_prod_beta n split: option.splits if_splits bind_splits)
qed

lemma input_memory_simps [simp]:
  "input_memory_ok (s\<lparr>m_inp_bm_count := b\<rparr>) = input_memory_ok s" "input_memory_ok (s\<lparr>input_pmem := a\<rparr>) = input_memory_ok s"
  "input_memory_ok (s\<lparr>m_out_bm_count := b\<rparr>) = input_memory_ok s" "input_memory_ok (store_out p h hb s) = input_memory_ok s"
  "input_memory_ok (s\<lparr>m_out_mem_ptr := mo\<rparr>) = input_memory_ok s" "input_memory_ok (snd (ioctl P r s)) = input_memory_ok s"
  by (simp_all add: input_memory_ok_def store_out_def ioctl_def answer_def)

lemma allocate_output_memory:
  "input_memory_ok s \<Longrightarrow> allocate_output_buffer P ok block s = Some (e, p, t) \<Longrightarrow> input_memory_ok t"
  by (auto simp: allocate_output_buffer_def Let_def case_prod_beta split: option.splits if_splits bind_splits)

lemma fresh_memory: "input_memory_ok (s\<lparr>m_inp_mem_ptr := Some (replicate n \<lparr>hdr = h, nPortIndex = q, pPortPrivate = False\<rparr>),
    input_pmem := x\<rparr>)"
  by (simp add: input_memory_ok_def memory_ok_def)

lemma header_readable_alloc [simp]: "header_readable (h\<lparr>nAllocLen := n\<rparr>) = header_readable h"
  by (simp add: header_readable_def)

lemma allocate_input_memory:
  assumes s: "input_memory_ok s" "client_block_ok s block" and t: "allocate_input_buffer P ok block s = Some (e, p, t)"
  shows "input_memory_ok t"
proof -
  let ?n = "actualcount (ip_buf s)"
  define s1 where "s1 = (if m_inp_mem_ptr s = None
    then s\<lparr>m_inp_mem_ptr := Some (replicate ?n \<lparr>hdr = zero_header, nPortIndex = InputPort, pPortPrivate = False\<rparr>),
      input_pmem := replicate ?n False\<rparr> else s)"
  have m: "input_memory_ok s1" using s(1) fresh_memory by (simp add: s1_def)
  have c: "codec_type_parse s1 = codec_type_parse s" by (simp add: s1_def)
  have b: "client_header_ok s ((hdr b)\<lparr>pBuffer := block\<rparr>)" if "load_header (m_inp_mem_ptr s1) (Some i) = Some b" for b i
    using that s(2) by (auto simp: s1_def client_block_ok_def load_header_def list_all_iff split: if_splits option.splits)
  show ?thesis
  proof (cases "free_slot (m_inp_bm_count s1) ?n")
    case None
    then have "t = s1" using t by (simp add: allocate_input_buffer_def Let_def s1_def [symmetric])
    then show ?thesis using m by simp
  next
    case (Some i)
    note free = this
    show ?thesis
    proof (cases "ok \<and> load_header (m_inp_mem_ptr s1) (Some i) \<noteq> None")
      case False
      then have "t = s1" using t free
        by (auto simp: allocate_input_buffer_def Let_def s1_def [symmetric] split: if_splits)
      then show ?thesis using m by simp
    next
      case True
      then obtain b where l: "load_header (m_inp_mem_ptr s1) (Some i) = Some b" by blast
      define u where "u = snd (ioctl P (SET_BUFFER InputPort i) (s1\<lparr>input_pmem := (input_pmem s1)[i := True]\<rparr>))"
      have u: "input_memory_ok u" "codec_type_parse u = codec_type_parse s" "m_inp_mem_ptr u = m_inp_mem_ptr s1"
        using m c by (simp_all add: u_def) (simp_all add: ioctl_def answer_def)
      have "t = u \<or> (\<exists>bm k. t = store_in (Some i) ((hdr b)\<lparr>pBuffer := block, nAllocLen := k\<rparr>)
          (b\<lparr>nPortIndex := InputPort, pPortPrivate := True\<rparr>) (u\<lparr>m_inp_bm_count := bm\<rparr>))"
        using t True l
        by (simp add: allocate_input_buffer_def Let_def s1_def [symmetric] free case_prod_beta split: if_splits)
          (auto simp: u_def)
      then show ?thesis
      proof (elim disjE exE)
        fix bm k assume v: "t = store_in (Some i) ((hdr b)\<lparr>pBuffer := block, nAllocLen := k\<rparr>)
          (b\<lparr>nPortIndex := InputPort, pPortPrivate := True\<rparr>) (u\<lparr>m_inp_bm_count := bm\<rparr>)"
        have "memory_ok (codec_type_parse u) (store_header (Some i) (b\<lparr>nPortIndex := InputPort, pPortPrivate := True,
            hdr := (hdr b)\<lparr>pBuffer := block, nAllocLen := k\<rparr>\<rparr>) (m_inp_mem_ptr u))"
          by (rule memory_ok_store) (use u b [OF l] in \<open>auto simp: input_memory_ok_def client_header_ok_def\<close>)
        then show ?thesis by (simp add: v input_memory_ok_def store_in_def)
      qed (use u in simp)
    qed
  qed
qed

lemma vdec_ok_event:
  "vdec_ok s \<Longrightarrow> vdec_ok (post_event (GENERATE_EVENT ev) (clear_flag k s))"
  by (rule vdec_ok_post_frame [of s]) (simp_all add: frame_simps msg_ok_def cmd_msg_ok_def)

lemma allocate_buffer_ok:
  assumes "vdec_ok s" "client_block_ok s block" "allocate_buffer P ok block port s = Some (e, p, t)"
  shows "vdec_ok t"
proof (cases "m_state s = StateInvalid")
  case True
  then show ?thesis using assms by (simp add: allocate_buffer_def)
next
  case False
  obtain e1 p1 u where u: "(case port of InputPort \<Rightarrow> allocate_input_buffer P ok block s
      | OutputPort \<Rightarrow> allocate_output_buffer P ok block s | _ \<Rightarrow> Some (ErrorBadPortIndex, None, s)) = Some (e1, p1, u)"
    using assms(3) False by (auto simp: allocate_buffer_def split: bind_splits prod.splits)
  have "vdec_ok u"
    using u assms(1) allocate_grows [of P ok block s e1 p1 u]
      allocate_input_memory [OF vdec_ok_memory [OF assms(1)] assms(2), of P ok e1 p1 u]
      allocate_output_memory [OF vdec_ok_memory [OF assms(1)], of P ok block e1 p1 u]
    by (cases port) (auto intro: vdec_ok_grows [OF assms(1)])
  moreover have "vdec_ok (snd (allocate_done u))" if "vdec_ok u"
    using that by (simp add: vdec_ok_def frame_simps)
  ultimately show ?thesis
    using assms(3) False u
    by (auto simp: allocate_buffer_def case_prod_beta Let_def split: if_splits intro: vdec_ok_event)
qed

text \<open>Freeing, while no buffer message is queued.\<close>

definition idle_ok :: "omx_vdec \<Rightarrow> bool" where
  "idle_ok s = (case queues s of (c, f, e) \<Rightarrow>
     cmd_queue_ok c \<and> cmd_queue_ok f \<and> cmd_queue_ok e \<and> list_all cmd_msg_ok (entries c) \<and>
     entries f = [] \<and> entries e = [] \<and> input_memory_ok s)"

lemma idle_ok_iff: "idle_ok s \<longleftrightarrow> vdec_ok s \<and> entries (m_ftb_q s) = [] \<and> entries (m_etb_q s) = []"
  by (auto simp: idle_ok_def vdec_ok_def queues_def frame_def input_memory_ok_def split: prod.splits)

lemma input_memory_free [simp]:
  "input_memory_ok (snd (free_input_buffer P p s)) = input_memory_ok s"
  "input_memory_ok (snd (free_output_buffer P p s)) = input_memory_ok s"
  "input_memory_ok (free_input_buffer_header s)" "input_memory_ok (free_output_buffer_header s) = input_memory_ok s"
  "input_memory_ok (snd (release_output_done s)) = input_memory_ok s" "input_memory_ok (snd (release_done s)) = input_memory_ok s"
  "input_memory_ok (clear_flag k s) = input_memory_ok s" "input_memory_ok (s\<lparr>m_inp_bPopulated := c\<rparr>) = input_memory_ok s"
  "input_memory_ok (s\<lparr>m_out_bPopulated := c\<rparr>) = input_memory_ok s" "input_memory_ok (post_event m s) = input_memory_ok s"
  by (simp_all add: free_input_buffer_def free_output_buffer_def free_input_buffer_header_def
      free_output_buffer_header_def release_output_done_def release_done_def Let_def clear_flag_def split: option.splits)
    (simp_all add: input_memory_ok_def memory_ok_def)

lemma idle_ok_event: "idle_ok s \<Longrightarrow> idle_ok (post_event (GENERATE_EVENT ev) s)"
  by (auto simp: idle_ok_def queues_def enqueue_ok cmd_msg_ok_def)

lemma queues_free [simp]:
  "queues (snd (free_input_buffer P p s)) = queues s" "queues (snd (free_output_buffer P p s)) = queues s"
  "queues (free_input_buffer_header s) = queues s" "queues (free_output_buffer_header s) = queues s"
  "queues (snd (release_output_done s)) = queues s" "queues (snd (release_done s)) = queues s"
  by (simp_all add: free_input_buffer_def free_output_buffer_def free_input_buffer_header_def
      free_output_buffer_header_def release_output_done_def release_done_def Let_def split: option.splits)

lemma idle_ok_same [simp]:
  "idle_ok (snd (free_input_buffer P p s)) = idle_ok s" "idle_ok (snd (free_output_buffer P p s)) = idle_ok s"
  "idle_ok s \<Longrightarrow> idle_ok (free_input_buffer_header s)" "idle_ok (free_output_buffer_header s) = idle_ok s"
  "idle_ok (snd (release_output_done s)) = idle_ok s" "idle_ok (snd (release_done s)) = idle_ok s"
  "idle_ok (clear_flag k s) = idle_ok s" "idle_ok (s\<lparr>m_inp_bm_count := b\<rparr>) = idle_ok s"
  "idle_ok (s\<lparr>m_out_bm_count := b, m_out_bPopulated := c\<rparr>) = idle_ok s"
  "idle_ok (s\<lparr>m_inp_bPopulated := c\<rparr>) = idle_ok s"
  by (auto simp: idle_ok_def split: prod.splits)

lemma idle_ok_free_port:
  assumes "idle_ok s"
  shows "idle_ok (snd (free_input_port P i s))" "idle_ok (snd (free_output_port P i s))"
  using assms
  by (simp_all add: free_input_port_def free_output_port_def Let_def case_prod_beta idle_ok_event)

lemma free_buffer_ok:
  assumes "vdec_ok s" "entries (m_ftb_q s) = []" "entries (m_etb_q s) = []" "free_buffer P port i s = (e, t)"
  shows "vdec_ok t"
proof -
  have s: "idle_ok s" using assms by (simp add: idle_ok_iff)
  have "idle_ok (snd (free_buffer P port i s))"
    unfolding free_buffer_def Let_def case_prod_beta
    by (cases port) (simp_all add: s idle_ok_free_port idle_ok_event)
  then show ?thesis using assms(4) by (simp add: idle_ok_iff)
qed

lemma vdec_step_ok: "vdec_step P s t \<Longrightarrow> vdec_ok s \<Longrightarrow> vdec_ok t"
proof (induction rule: vdec_step.induct)
  case (client_writes s p b h)
  then show ?case by (intro vdec_ok_store_in) (simp_all add: client_header_ok_def)
next
  case (thread s t)
  then show ?case using process_one_ok [OF thread.prems, of P] by auto
qed (auto intro: empty_this_buffer_ok fill_this_buffer_ok send_command_ok sem_wait_ok allocate_buffer_ok
    free_buffer_ok async_ok)

text \<open>
  C2. Whatever the client and the driver do, as long as the driver names headers that exist or null,
  the client frees buffers only while no buffer message is queued and, for MPEG-4 and DivX, the
  buffers it hands over are \<open>readable\<close>: in every reachable state the queues hold
  valid messages only, and the message thread, when it runs, returns without an invalid access.
\<close>
theorem reachable_states_ok:
  assumes "vdec_ok s0" "rtranclp (vdec_step P) s0 s"
  shows "vdec_ok s \<and> (\<exists>t. process_event_cb P s = Some t)"
proof -
  have "vdec_ok s" using assms(2,1) by (induction rule: rtranclp_induct) (auto intro: vdec_step_ok)
  then show ?thesis using process_event_cb_result [of s P] by blast
qed

text \<open>
  C16. A command is acknowledged: if there is room in the command queue, the client that waits in
  \<open>send_command\<close> is released by the next run of the message thread, whatever the command is and
  whatever is queued before it (in a valid state, \<open>vdec_ok\<close>).
\<close>
theorem send_command_released:
  assumes "vdec_ok s" "m_size (m_cmd_q s) < OMX_CORE_CONTROL_CMDQ_SIZE" "send_command cmd s = (None, s1)"
  shows "\<exists>t u. process_event_cb P s1 = Some t \<and> sem_wait t = Some u \<and> m_cmd_lock u = m_cmd_lock s + commands_waiting s"
proof -
  have s1: "s1 = post_event (GENERATE_COMMAND cmd) s"
    using assms(3) by (auto simp: send_command_def split: if_splits omx_command.splits port.splits)
  have ok: "vdec_ok s1" by (rule send_command_ok [OF assms(1,3)])
  have "cmd_queue_ok (m_cmd_q s)" using assms(1) by (simp add: vdec_ok_def frame_def)
  then have "acks s1 = Suc (acks s)"
    using assms(2) by (simp add: s1 acks_def commands_waiting_def frame_def enqueue_ok cmd_msg_ok_def is_command_def)
  moreover obtain t where "process_event_cb P s1 = Some t" "acks t = acks s1" "\<not> more_msgs t"
    using process_event_cb_result [OF ok, of P] by blast
  ultimately show ?thesis using no_more_acks [of t] by (auto simp: sem_wait_def acks_def)
qed

text \<open>
  C31. With a full command queue the command is lost: nothing is posted, and the client waits for
  ever, even after the message thread has emptied the queue. No other command or post is outstanding.
\<close>
theorem full_queue_loses_command:
  assumes "vdec_ok s" "m_size (m_cmd_q s) = OMX_CORE_CONTROL_CMDQ_SIZE" "acks s = 0"
    and "send_command cmd s = (None, s1)"
  shows "\<exists>t. process_event_cb P s1 = Some t \<and> entries (m_cmd_q t) = [] \<and> sem_wait t = None"
proof -
  have s1: "s1 = post_event (GENERATE_COMMAND cmd) s"
    using assms(4) by (auto simp: send_command_def split: if_splits omx_command.splits port.splits)
  have ok: "vdec_ok s1" by (rule send_command_ok [OF assms(1,4)])
  have "cmd_queue_ok (m_cmd_q s)" using assms(1) by (simp add: vdec_ok_def frame_def)
  then have "acks s1 = 0"
    using assms(2,3) by (simp add: s1 acks_def commands_waiting_def frame_def enqueue_ok cmd_msg_ok_def)
  moreover obtain t where "process_event_cb P s1 = Some t" "acks t = acks s1" "\<not> more_msgs t"
    using process_event_cb_result [OF ok, of P] by blast
  ultimately show ?thesis using no_more_acks [of t] by (auto simp: sem_wait_def more_msgs_def entries_Nil)
qed

section \<open>Sample states\<close>

text \<open>A component in the Loaded state with a driver that accepts everything, and one with a header on each port.\<close>

definition one_buffer :: vdec_allocatorproperty where
  "one_buffer = \<lparr>mincount = 1, maxcount = 32, actualcount = 1, buffer_size = 4096, alignment = 4096\<rparr>"

definition willing :: platform where
  "willing = \<lparr>driver = (\<lambda>_ _. Done), QOMX_VIDEO_BUFFERFLAG_EOSEQ = 0x00200000,
     OMX_FRAMEINFO_EXTRADATA_SIZE = 64, OMX_INTERLACE_EXTRADATA_SIZE = 36,
     OMX_PORTDEF_EXTRADATA_SIZE = 128, sizeof_OMX_OTHER_EXTRADATATYPE = 24\<rparr>"

definition loaded_vdec :: omx_vdec where
  "loaded_vdec = new_omx_vdec\<lparr>m_state := StateLoaded, ip_buf := one_buffer, op_buf := one_buffer,
     codec_type_parse := CODEC_TYPE_H264\<rparr>"

definition sample_header :: "port \<Rightarrow> buffer_header" where
  "sample_header p = \<lparr>hdr = zero_header\<lparr>nFilledLen := 9, nTimeStamp := 40\<rparr>, nPortIndex = p, pPortPrivate = True\<rparr>"

definition ready_vdec :: omx_vdec where
  "ready_vdec = loaded_vdec\<lparr>m_state := StateExecuting, m_inp_mem_ptr := Some [sample_header InputPort],
     m_out_mem_ptr := Some [sample_header OutputPort], input_pmem := [True], m_inp_bm_count := 1,
     m_out_bm_count := 1, m_inp_bPopulated := True, m_out_bPopulated := True\<rparr>"

lemma sample_queues:
  "m_cmd_q loaded_vdec = new_cmd_queue EOS_DONE" "m_ftb_q loaded_vdec = new_cmd_queue EOS_DONE"
  "m_etb_q loaded_vdec = new_cmd_queue EOS_DONE" "m_cmd_q ready_vdec = new_cmd_queue EOS_DONE"
  "m_ftb_q ready_vdec = new_cmd_queue EOS_DONE" "m_etb_q ready_vdec = new_cmd_queue EOS_DONE"
  "m_state loaded_vdec = StateLoaded" "m_cmd_lock loaded_vdec = 0"
  "codec_type_parse loaded_vdec = CODEC_TYPE_H264" "codec_type_parse ready_vdec = CODEC_TYPE_H264"
  by (simp_all add: ready_vdec_def loaded_vdec_def new_omx_vdec_def)

lemma sample_ok: "vdec_ok loaded_vdec" "vdec_ok ready_vdec"
  by (simp_all add: vdec_ok_def frame_def sample_queues memory_ok_def split: prod.split)

lemma sample_commands: "commands_waiting loaded_vdec = 0" "m_size (m_cmd_q loaded_vdec) = 0"
  by (simp_all add: commands_waiting_def frame_def sample_queues) (simp add: new_cmd_queue_def)

theorem process_event_cb_returns_witness:
  "\<exists>t. process_event_cb willing (post_event (GENERATE_COMMAND (Flush AllPorts)) loaded_vdec) = Some t \<and> m_cmd_lock t = 1"
proof -
  let ?s = "post_event (GENERATE_COMMAND (Flush AllPorts)) loaded_vdec"
  have ok: "vdec_ok ?s" by (rule vdec_ok_post [OF sample_ok(1)]) (simp add: msg_ok_def cmd_msg_ok_def)
  have "cmd_queue_ok (m_cmd_q loaded_vdec)" by (simp add: sample_queues)
  then have "commands_waiting ?s = 1" using sample_commands
    by (simp add: commands_waiting_def frame_def enqueue_ok cmd_msg_ok_def is_command_def OMX_CORE_CONTROL_CMDQ_SIZE_def)
  then show ?thesis using process_event_cb_returns [OF ok, of willing] by (auto simp: sample_queues)
qed

theorem reachable_states_ok_witness:
  "vdec_ok (post_event (GENERATE_COMMAND (StateSet StateIdle)) loaded_vdec)"
proof -
  have "vdec_step willing loaded_vdec (post_event (GENERATE_COMMAND (StateSet StateIdle)) loaded_vdec)"
    by (rule client_command [of "StateSet StateIdle"]) (simp add: send_command_def sample_queues)
  then have "rtranclp (vdec_step willing) loaded_vdec
      (post_event (GENERATE_COMMAND (StateSet StateIdle)) loaded_vdec)" by blast
  from reachable_states_ok [OF sample_ok(1) this] show ?thesis by blast
qed

theorem send_command_released_witness:
  "\<exists>t u. process_event_cb willing (snd (send_command (StateSet StateIdle) loaded_vdec)) = Some t \<and> sem_wait t = Some u"
proof -
  have "send_command (StateSet StateIdle) loaded_vdec =
      (None, snd (send_command (StateSet StateIdle) loaded_vdec))" by (simp add: send_command_def sample_queues)
  from send_command_released [OF sample_ok(1) _ this, of willing] sample_commands show ?thesis
    by (auto simp: OMX_CORE_CONTROL_CMDQ_SIZE_def)
qed

text \<open>A queue full of driver events.\<close>

definition busy_vdec :: omx_vdec where
  "busy_vdec = loaded_vdec\<lparr>m_cmd_q := \<lparr>m_q = replicate OMX_CORE_CONTROL_CMDQ_SIZE EOS_DONE, m_read = 0,
     m_write = 0, m_size = OMX_CORE_CONTROL_CMDQ_SIZE\<rparr>\<rparr>"

lemma busy_entries: "entries (m_cmd_q busy_vdec) = replicate OMX_CORE_CONTROL_CMDQ_SIZE EOS_DONE"
  by (rule nth_equalityI) (simp_all add: busy_vdec_def entries_def ring_def)

lemma busy_ok: "vdec_ok busy_vdec" "acks busy_vdec = 0"
proof -
  have c: "cmd_queue_ok (m_cmd_q busy_vdec)"
    by (simp add: busy_vdec_def cmd_queue_ok_def OMX_CORE_CONTROL_CMDQ_SIZE_def)
  have "m_ftb_q busy_vdec = new_cmd_queue EOS_DONE" "m_etb_q busy_vdec = new_cmd_queue EOS_DONE"
    "m_cmd_lock busy_vdec = 0" "codec_type_parse busy_vdec = CODEC_TYPE_H264" by (simp_all add: busy_vdec_def sample_queues)
  then show "vdec_ok busy_vdec" "acks busy_vdec = 0"
    using c by (simp_all add: vdec_ok_def frame_def busy_entries cmd_msg_ok_def acks_def commands_waiting_def
        is_command_def list_all_iff memory_ok_def split: prod.split)
qed

theorem full_queue_loses_command_witness:
  "\<exists>t. process_event_cb willing (snd (send_command (StateSet StateIdle) busy_vdec)) = Some t \<and> sem_wait t = None"
proof -
  have "m_state busy_vdec = StateLoaded" by (simp add: busy_vdec_def sample_queues)
  then have w: "send_command (StateSet StateIdle) busy_vdec =
      (None, snd (send_command (StateSet StateIdle) busy_vdec))" by (simp add: send_command_def)
  have "m_size (m_cmd_q busy_vdec) = OMX_CORE_CONTROL_CMDQ_SIZE" by (simp add: busy_vdec_def)
  from full_queue_loses_command [OF busy_ok(1) this busy_ok(2) w, of willing] show ?thesis by blast
qed

end
