(* ===== verification/VdecConserve.thy ===== *)
theory VdecConserve
  imports VdecRuns
begin

text \<open>
  Every input buffer the client hands over comes back exactly once or is with the driver: the
  message thread of the decoder component (vdec/src/omx_vdec.cpp) neither loses nor duplicates one.
\<close>

section \<open>Where an input buffer can be\<close>

text \<open>Queued for the message thread, returned to the client, or accepted by the driver.\<close>

fun input_of :: "vdec_msg \<Rightarrow> header_ptr" where
  "input_of (GENERATE_ETB p) = p"
| "input_of (GENERATE_EBD p _) = p"
| "input_of _ = None"

definition queued :: "nat \<Rightarrow> vdec_msg omx_cmd_queue \<Rightarrow> nat" where
  "queued i q = length (filter (\<lambda>m. input_of m = Some i) (entries q))"

definition returned :: "nat \<Rightarrow> omx_vdec \<Rightarrow> nat" where
  "returned i s = count_list (callbacks s) (EmptyBufferDone i)"

definition accepted :: "platform \<Rightarrow> vdec_ioctl \<Rightarrow> vdec_ioctl list \<Rightarrow> nat" where
  "accepted P r rs =
     length (filter (\<lambda>k. rs ! k = r \<and> driver P (take k rs) r \<noteq> Failed) [0..<length rs])"

definition decoding :: "platform \<Rightarrow> nat \<Rightarrow> omx_vdec \<Rightarrow> nat" where
  "decoding P i s = accepted P (DECODE_FRAME i) (requests s)"

definition ledger :: "platform \<Rightarrow> nat \<Rightarrow> omx_vdec \<Rightarrow> nat" where
  "ledger P i s = queued i (m_etb_q s) + returned i s + decoding P i s"

text \<open>
  The headers in the array have their private data, the array is not larger than the component
  believes, no buffer comes back with a status that means a hardware error, and the buffers that
  are queued fit one queue.
\<close>

definition done_ok :: "vdec_msg \<Rightarrow> bool" where
  "done_ok m = (case m of GENERATE_EBD p st \<Rightarrow> st = VDEC_S_SUCCESS \<or> st = VDEC_S_INPUT_BITSTREAM_ERR | _ \<Rightarrow> True)"

definition headers_private :: "bool list option \<Rightarrow> nat \<Rightarrow> bool" where
  "headers_private mem n \<longleftrightarrow> (case mem of None \<Rightarrow> True | Some ps \<Rightarrow> length ps \<le> n \<and> list_all id ps)"

definition inputs_ok :: "omx_vdec \<Rightarrow> bool" where
  "inputs_ok s \<longleftrightarrow>
     cmd_queue_ok (m_etb_q s) \<and> cmd_queue_ok (m_ftb_q s) \<and>
     list_all (etb_msg_ok (fst (shape s))) (entries (m_etb_q s)) \<and> list_all done_ok (entries (m_etb_q s)) \<and>
     m_size (m_etb_q s) + m_size (m_ftb_q s) \<le> OMX_CORE_CONTROL_CMDQ_SIZE \<and>
     headers_private (map_option (map pPortPrivate) (m_inp_mem_ptr s)) (actualcount (ip_buf s))"

text \<open>What the ledger and its conditions depend on.\<close>

definition book :: "platform \<Rightarrow> omx_vdec \<Rightarrow> vdec_msg omx_cmd_queue \<times> vdec_msg omx_cmd_queue \<times>
    bool list option \<times> nat \<times> (nat \<Rightarrow> nat)" where
  "book P s = (m_etb_q s, m_ftb_q s, map_option (map pPortPrivate) (m_inp_mem_ptr s),
     actualcount (ip_buf s), \<lambda>i. returned i s + decoding P i s)"

lemma ledger_book: "ledger P i s = (case book P s of (e, _, _, _, d) \<Rightarrow> queued i e + d i)"
  by (simp add: ledger_def book_def)

lemma inputs_ok_book: "inputs_ok s = (case book P s of (e, f, ps, n, _) \<Rightarrow>
    cmd_queue_ok e \<and> cmd_queue_ok f \<and> list_all (etb_msg_ok (map_option length ps)) (entries e) \<and>
    list_all done_ok (entries e) \<and> m_size e + m_size f \<le> OMX_CORE_CONTROL_CMDQ_SIZE \<and>
    headers_private ps n)"
  by (simp add: inputs_ok_def book_def shape_def option.map_comp comp_def)

definition conserves :: "platform \<Rightarrow> omx_vdec \<Rightarrow> omx_vdec \<Rightarrow> bool" where
  "conserves P s t \<longleftrightarrow> (inputs_ok s \<longrightarrow> inputs_ok t \<and> (\<forall>i. ledger P i t = ledger P i s))"

lemma conserves_refl [simp]: "conserves P s s"
  by (simp add: conserves_def)

lemma conserves_trans: "conserves P s t \<Longrightarrow> conserves P t u \<Longrightarrow> conserves P s u"
  by (auto simp: conserves_def)

lemma conserves_book: "book P t = book P s \<Longrightarrow> conserves P s t"
  by (simp add: conserves_def inputs_ok_book [of _ P] ledger_book)

section \<open>Steps that leave the book alone\<close>

named_theorems book_simps

lemma accepted_snoc [simp]:
  "accepted P r (rs @ [q]) = accepted P r rs + (if q = r \<and> driver P rs r \<noteq> Failed then 1 else 0)"
proof -
  have "filter (\<lambda>k. (rs @ [q]) ! k = r \<and> driver P (take k (rs @ [q])) r \<noteq> Failed) [0..<length rs] =
      filter (\<lambda>k. rs ! k = r \<and> driver P (take k rs) r \<noteq> Failed) [0..<length rs]"
    by (rule filter_cong) (auto simp: nth_append)
  then show ?thesis by (simp add: accepted_def)
qed

lemma count_list_snoc [simp]: "count_list (xs @ [y]) x = count_list xs x + (if y = x then 1 else 0)"
  by simp

lemma book_update [book_simps]:
  "book P (s\<lparr>m_state := a\<rparr>) = book P s" "book P (s\<lparr>m_flags := b\<rparr>) = book P s"
  "book P (s\<lparr>m_inp_bEnabled := c\<rparr>) = book P s" "book P (s\<lparr>m_out_bEnabled := c\<rparr>) = book P s"
  "book P (s\<lparr>m_inp_bPopulated := c\<rparr>) = book P s" "book P (s\<lparr>m_out_bPopulated := c\<rparr>) = book P s"
  "book P (s\<lparr>m_out_bm_count := b\<rparr>) = book P s" "book P (s\<lparr>op_buf := p\<rparr>) = book P s"
  "book P (s\<lparr>op_buf_rcnfg := p\<rparr>) = book P s" "book P (s\<lparr>input_flush_progress := c\<rparr>) = book P s"
  "book P (s\<lparr>output_flush_progress := c\<rparr>) = book P s" "book P (s\<lparr>pending_input_buffers := k\<rparr>) = book P s"
  "book P (s\<lparr>pending_output_buffers := k\<rparr>) = book P s" "book P (s\<lparr>m_error_propogated := c\<rparr>) = book P s"
  "book P (s\<lparr>in_reconfig := c\<rparr>) = book P s" "book P (s\<lparr>interlace := l\<rparr>) = book P s"
  "book P (s\<lparr>video_resolution := r\<rparr>) = book P s" "book P (s\<lparr>client_extradata := b\<rparr>) = book P s"
  "book P (s\<lparr>m_inp_err_count := b\<rparr>) = book P s" "book P (s\<lparr>time_stamp_dts := ts\<rparr>) = book P s"
  "book P (s\<lparr>prev_ts := k\<rparr>) = book P s" "book P (s\<lparr>rst_prev_ts := c\<rparr>) = book P s"
  "book P (s\<lparr>frm_int := b\<rparr>) = book P s" "book P (s\<lparr>m_cmd_lock := n\<rparr>) = book P s"
  "book P (s\<lparr>m_out_mem_ptr := mo\<rparr>) = book P s" "book P (s\<lparr>m_cmd_q := cq\<rparr>) = book P s"
  "book P (s\<lparr>mp4_headerparser := mp4\<rparr>) = book P s" "book P (s\<lparr>m_pipe := n\<rparr>) = book P s" "book P (s\<lparr>codec_config_flag := c\<rparr>) = book P s"
  by (simp_all add: book_def returned_def decoding_def)

lemma book_callback [book_simps]: "(\<forall>i. c \<noteq> EmptyBufferDone i) \<Longrightarrow> book P (callback c s) = book P s"
  by (simp add: callback_def book_def returned_def decoding_def)

lemma book_report [book_simps]: "book P (omx_report_error s) = book P s"
  by (simp add: omx_report_error_def book_simps)

lemma book_answer [book_simps]: "(\<forall>i. r \<noteq> DECODE_FRAME i) \<Longrightarrow> book P (snd (answer P r s)) = book P s"
  by (simp add: answer_def book_def returned_def decoding_def)

lemma book_ioctl [book_simps]: "(\<forall>i. r \<noteq> DECODE_FRAME i) \<Longrightarrow> book P (snd (ioctl P r s)) = book P s"
  by (simp add: ioctl_def case_prod_beta book_simps)

lemma book_flags [book_simps]: "book P (set_flag k s) = book P s" "book P (clear_flag k s) = book P s"
  by (simp_all add: set_flag_def clear_flag_def book_simps)

lemma book_store [book_simps]: "book P (store_out p h b s) = book P s"
  by (simp add: store_out_def book_simps)

lemma book_store_in [book_simps]:
  assumes "load_header (m_inp_mem_ptr s) p = Some b"
  shows "book P (store_in p h b s) = book P s"
proof -
  obtain bs i where bs: "m_inp_mem_ptr s = Some bs" "p = Some i" "i < length bs" "bs ! i = b"
    using assms by (auto simp: load_header_def split: option.splits if_splits)
  then have "map pPortPrivate (bs[i := b\<lparr>hdr := h\<rparr>]) = map pPortPrivate bs"
    by (intro nth_equalityI) (auto simp: nth_list_update)
  then show ?thesis using bs by (simp add: store_in_def store_header_def book_def returned_def decoding_def)
qed

lemma book_prev [book_simps]: "book P (reset_prev_ts s) = book P s"
  by (simp add: reset_prev_ts_def book_simps)

lemma book_rate [book_simps]: "book P (set_frame_rate P t s) = book P s"
  by (simp add: set_frame_rate_def Let_def book_simps)

lemma book_sem [book_simps]: "book P (sem_post s) = book P s"
  by (simp add: sem_post_def book_simps)

lemma book_unless [book_simps]: "book P (report_unless ok s) = book P s"
  by (simp add: report_unless_def book_simps)

lemma book_failure [book_simps]: "book P (report_failure r) = book P (snd r)"
  by (simp add: report_failure_def case_prod_beta book_simps)

lemma book_post [book_simps]: "cmd_msg_ok m \<Longrightarrow> book P (post_event m s) = book P s"
  by (cases m) (simp_all add: post_event_def book_simps cmd_msg_ok_def)

lemma book_post_event [book_simps]: "book P (post_event (GENERATE_EVENT ev) s) = book P s"
  by (rule book_post) (simp add: cmd_msg_ok_def)

lemma book_allocate [book_simps]:
  "book P (snd (allocate_input_done s)) = book P s" "book P (snd (allocate_output_done s)) = book P s"
  "book P (snd (release_output_done s)) = book P s"
  by (simp_all add: allocate_input_done_def allocate_output_done_def release_output_done_def Let_def book_simps)

lemma book_allocate_done [book_simps]:
  "book P (snd (allocate_done s)) = book P s" "book P (snd (release_done s)) = book P s"
  by (simp_all add: allocate_done_def release_done_def case_prod_beta book_simps)

lemma book_omx_flush [book_simps]: "book P (snd (execute_omx_flush P port s)) = book P s"
  by (simp add: execute_omx_flush_def book_simps split: port.splits)

lemma book_requirements [book_simps]:
  "book P (snd (set_buffer_req P p s)) = book P s" "book P (snd (update_picture_resolution P s)) = book P s"
  by (simp_all add: set_buffer_req_def update_picture_resolution_def case_prod_beta book_simps split: vdec_reply.splits)

lemma book_get_buffer_req [book_simps]: "book P (snd (snd (get_buffer_req P p s))) = book P s"
  by (simp add: get_buffer_req_def case_prod_beta Let_def book_simps split: vdec_reply.splits)

lemma book_reconfig [book_simps]: "book P (snd (start_port_reconfig P s)) = book P s"
  by (simp add: start_port_reconfig_def case_prod_beta Let_def book_simps split: vdec_reply.splits)

section \<open>Commands\<close>

definition kept_book :: "platform \<Rightarrow> proxy \<Rightarrow> omx_vdec \<Rightarrow> bool" where
  "kept_book P r s \<longleftrightarrow> book P (snd (snd (snd r))) = book P s"

lemma kept_book_simps [book_simps]:
  "kept_book P (e, b, posted, t) s \<longleftrightarrow> book P t = book P s"
  "kept_book P (accept t) s \<longleftrightarrow> book P t = book P s" "kept_book P (defer_event t) s \<longleftrightarrow> book P t = book P s"
  "kept_book P (refuse c t) s \<longleftrightarrow> book P t = book P s" "kept_book P (invalidate t) s \<longleftrightarrow> book P t = book P s"
  by (simp_all add: kept_book_def accept_def defer_event_def refuse_def invalidate_def book_simps)

lemma kept_book_flush [book_simps]: "kept_book P (flush_to_idle P s) s" "kept_book P (flush_proxy P port s) s"
  by (simp_all add: flush_to_idle_def flush_proxy_def Let_def book_simps)

lemma kept_book_from [book_simps]:
  "kept_book P (from_loaded st s) s" "kept_book P (from_idle P st s) s" "kept_book P (from_executing P st s) s"
  "kept_book P (from_pause P st s) s" "kept_book P (from_wait_for_resources st s) s"
  by (cases st; simp add: from_loaded_def from_idle_def from_executing_def from_pause_def
      from_wait_for_resources_def case_prod_beta book_simps cmd_msg_ok_def)+

lemma kept_book_state_set [book_simps]: "kept_book P (state_set_proxy P st s) s"
  by (cases "m_state s") (simp_all add: state_set_proxy_def book_simps)

lemma kept_book_enable:
  "kept_book P r s \<Longrightarrow> kept_book P (enable_input r) s" "kept_book P r s \<Longrightarrow> kept_book P (enable_output r) s"
  "kept_book P r s \<Longrightarrow> kept_book P (disable_input P r) s" "kept_book P r s \<Longrightarrow> kept_book P (disable_output P r) s"
  by (cases r; simp add: enable_input_def enable_output_def disable_input_def disable_output_def
      case_prod_beta Let_def book_simps)+

lemma kept_book_ports [book_simps]: "kept_book P (port_enable_proxy port s) s" "kept_book P (port_disable_proxy P port s) s"
  by (simp_all add: port_enable_proxy_def port_disable_proxy_def Let_def kept_book_enable book_simps)

lemma kept_book_command [book_simps]: "kept_book P (command_proxy P cmd s) s"
  by (cases cmd) (simp_all add: command_proxy_def book_simps)

lemma book_command [book_simps]: "book P (snd (send_command_proxy P cmd s)) = book P s"
  using kept_book_command [of P cmd s]
  by (simp add: send_command_proxy_def case_prod_beta Let_def kept_book_def book_simps)

section \<open>Messages that do not concern input buffers\<close>

lemma book_generated [book_simps]: "book P (process_generated P ev s) = book P s"
proof -
  have "book P (complete_command P cmd s) = book P s" for cmd
    by (cases cmd; simp add: complete_command_def case_prod_beta book_simps)
  moreover have "book P (flush_as_error port s) = book P s" for port
    by (cases port) (simp_all add: flush_as_error_def book_simps)
  moreover have "book P (process_generated P (ErrorCode e) s) = book P s" for e
    by (cases e) (simp_all add: process_generated_def book_simps)
  ultimately show ?thesis
    by (cases ev) (simp_all add: process_generated_def book_simps split: omx_command.split)
qed

lemma book_done [book_simps]:
  "book P (enter_state k st s) = book P s" "book P (process_start_done P status s) = book P s"
  "book P (process_resume_done status s) = book P s" "book P (stop_if_idle_pending P c s) = book P s"
  "book P (end_disable_flush s) = book P s"
  by (simp_all add: enter_state_def process_start_done_def process_resume_done_def stop_if_idle_pending_def
      end_disable_flush_def case_prod_beta Let_def book_simps)

lemma book_port_reconfig [book_simps]: "book P (process_port_reconfig P idx s) = book P s"
  by (cases idx) (simp_all add: process_port_reconfig_def case_prod_beta Let_def book_simps)

text \<open>Output buffers.\<close>

lemma book_fill_buffer_done: "fill_buffer_done P p s = Some (e, t) \<Longrightarrow> book P t = book P s"
  by (auto simp: fill_buffer_done_def Let_def case_prod_beta book_simps cmd_msg_ok_def
      split: option.splits if_splits bind_splits)

lemma book_ftb_proxy: "fill_this_buffer_proxy P p s = Some (e, t) \<Longrightarrow> book P t = book P s"
  by (auto simp: fill_this_buffer_proxy_def Let_def case_prod_beta book_simps
      split: option.splits if_splits bind_splits)

section \<open>Taking a message\<close>

lemma pop_entry_ok:
  assumes "cmd_queue_ok q" "pop_entry q = Some (m, q')"
  shows "cmd_queue_ok q'" "entries q = m # entries q'" "m_size q = Suc (m_size q')"
proof -
  from assms(1) show "cmd_queue_ok q'" "entries q = m # entries q'"
    using assms(2) by (cases rule: pop_entry_cases; simp)+
  then show "m_size q = Suc (m_size q')" by (metis length_Cons length_entries)
qed

lemma conserves_pop:
  "pop_entry (m_cmd_q s) = Some (m, q) \<Longrightarrow> conserves P s (s\<lparr>m_cmd_q := q\<rparr>)"
  "pop_entry (m_ftb_q s) = Some (m, q) \<Longrightarrow> conserves P s (s\<lparr>m_ftb_q := q\<rparr>)"
proof -
  show "conserves P s (s\<lparr>m_cmd_q := q\<rparr>)" by (rule conserves_book) (simp add: book_simps)
  assume "pop_entry (m_ftb_q s) = Some (m, q)"
  then show "conserves P s (s\<lparr>m_ftb_q := q\<rparr>)"
    using pop_entry_ok [of "m_ftb_q s" m q]
    by (auto simp: conserves_def inputs_ok_def ledger_def returned_def decoding_def shape_def)
qed

text \<open>A buffer that is in hand is entered in the books again, with room in the queue for it.\<close>

definition gains :: "platform \<Rightarrow> header_ptr \<Rightarrow> omx_vdec \<Rightarrow> omx_vdec \<Rightarrow> bool" where
  "gains P p s t \<longleftrightarrow>
     (inputs_ok s \<longrightarrow> inputs_ok t \<and> (\<forall>i. ledger P i t = ledger P i s + (if p = Some i then 1 else 0)))"

definition enters :: "platform \<Rightarrow> header_ptr \<Rightarrow> omx_vdec \<Rightarrow> omx_vdec \<Rightarrow> bool" where
  "enters P p s t \<longleftrightarrow>
     (m_size (m_etb_q s) + m_size (m_ftb_q s) < OMX_CORE_CONTROL_CMDQ_SIZE \<longrightarrow> gains P p s t)"

lemma gains_enters: "gains P p s t \<Longrightarrow> enters P p s t"
  by (simp add: enters_def)

lemma pop_etb_enters:
  assumes "inputs_ok s" "pop_entry (m_etb_q s) = Some (m, q)"
  shows "etb_msg_ok (fst (shape s)) m" "done_ok m" "inputs_ok (s\<lparr>m_etb_q := q\<rparr>)"
    "enters P (input_of m) (s\<lparr>m_etb_q := q\<rparr>) t \<Longrightarrow> conserves P s t"
proof -
  have q: "cmd_queue_ok q" "entries (m_etb_q s) = m # entries q" "m_size (m_etb_q s) = Suc (m_size q)"
    using pop_entry_ok [OF _ assms(2)] assms(1) by (auto simp: inputs_ok_def)
  show "etb_msg_ok (fst (shape s)) m" "done_ok m" using assms(1) q by (auto simp: inputs_ok_def)
  show ok: "inputs_ok (s\<lparr>m_etb_q := q\<rparr>)" using assms(1) q by (auto simp: inputs_ok_def shape_def)
  have "ledger P i s = ledger P i (s\<lparr>m_etb_q := q\<rparr>) + (if input_of m = Some i then 1 else 0)" for i
    using q by (simp add: ledger_def queued_def returned_def decoding_def)
  moreover have "m_size q + m_size (m_ftb_q s) < OMX_CORE_CONTROL_CMDQ_SIZE"
    using assms(1) q(3) by (simp add: inputs_ok_def)
  ultimately show "enters P (input_of m) (s\<lparr>m_etb_q := q\<rparr>) t \<Longrightarrow> conserves P s t"
    using ok by (simp add: enters_def gains_def conserves_def)
qed

lemma enters_book: "book P s' = book P s \<Longrightarrow> enters P p s' t \<Longrightarrow> enters P p s t"
  by (simp add: enters_def gains_def inputs_ok_book [of _ P] ledger_book book_def)

lemma gains_book: "book P s' = book P s \<Longrightarrow> gains P p s' t \<Longrightarrow> gains P p s t"
  by (simp add: gains_def inputs_ok_book [of _ P] ledger_book)

lemma enters_then: "enters P p s t \<Longrightarrow> conserves P t u \<Longrightarrow> enters P p s u"
  by (auto simp: enters_def gains_def conserves_def)

lemma gains_then: "gains P p s t \<Longrightarrow> conserves P t u \<Longrightarrow> gains P p s u"
  by (auto simp: gains_def conserves_def)

lemma gains_None: "book P t = book P s \<Longrightarrow> gains P None s t"
  by (simp add: gains_def inputs_ok_book [of _ P] ledger_book)

lemma in_array_bound:
  assumes "inputs_ok s" "in_array (fst (shape s)) (Some i)"
  shows "i < actualcount (ip_buf s)" "\<exists>b. load_header (m_inp_mem_ptr s) (Some i) = Some b \<and> pPortPrivate b"
  using assms
  by (auto simp: inputs_ok_def shape_def headers_private_def load_header_def list_all_length split: option.splits)

lemma gains_returned: "gains P (Some i) s (callback (EmptyBufferDone i) s)"
proof -
  have "ledger P j (callback (EmptyBufferDone i) s) = ledger P j s + (if i = j then 1 else 0)" for j
    by (simp add: ledger_def callback_def returned_def decoding_def)
  moreover have "inputs_ok (callback (EmptyBufferDone i) s) = inputs_ok s"
    by (simp add: inputs_ok_def callback_def shape_def)
  ultimately show ?thesis by (auto simp: gains_def)
qed

lemma gains_decoding:
  assumes "fst (ioctl P (DECODE_FRAME i) s)"
  shows "gains P (Some i) s (snd (ioctl P (DECODE_FRAME i) s))"
proof -
  have "ledger P j (snd (ioctl P (DECODE_FRAME i) s)) = ledger P j s + (if i = j then 1 else 0)" for j
    using assms by (auto simp: ledger_def ioctl_def answer_def returned_def decoding_def)
  moreover have "inputs_ok (snd (ioctl P (DECODE_FRAME i) s)) = inputs_ok s"
    by (simp add: inputs_ok_def ioctl_def answer_def shape_def)
  ultimately show ?thesis by (auto simp: gains_def)
qed

lemma book_refused: "\<not> fst (ioctl P r s) \<Longrightarrow> book P (snd (ioctl P r s)) = book P s"
  by (auto simp: ioctl_def answer_def book_def returned_def decoding_def)

lemma enters_posted:
  assumes "in_array (fst (shape s)) (Some i)"
  shows "enters P (Some i) s (post_event (GENERATE_EBD (Some i) VDEC_S_SUCCESS) s)"
proof -
  let ?m = "GENERATE_EBD (Some i) VDEC_S_SUCCESS"
  let ?t = "post_event ?m s"
  have t: "m_etb_q ?t = enqueue ?m (m_etb_q s)" "m_ftb_q ?t = m_ftb_q s" "shape ?t = shape s"
    "m_inp_mem_ptr ?t = m_inp_mem_ptr s" "ip_buf ?t = ip_buf s" "callbacks ?t = callbacks s"
    "requests ?t = requests s" by (simp_all add: post_event_def shape_def)
  show ?thesis
    unfolding enters_def gains_def
  proof (intro impI)
    assume room: "m_size (m_etb_q s) + m_size (m_ftb_q s) < OMX_CORE_CONTROL_CMDQ_SIZE" and s: "inputs_ok s"
    then have q: "cmd_queue_ok (m_etb_q s)" by (simp add: inputs_ok_def)
    have e: "entries (enqueue ?m (m_etb_q s)) = entries (m_etb_q s) @ [?m]"
      using enqueue_ok(2) [OF q, of ?m] room by simp
    then have z: "m_size (enqueue ?m (m_etb_q s)) = Suc (m_size (m_etb_q s))" by (metis length_append_singleton length_entries)
    have "inputs_ok ?t" using s room assms
      by (simp add: inputs_ok_def t e z enqueue_ok(1) [OF q] etb_msg_ok_def done_ok_def)
    moreover have "ledger P j ?t = ledger P j s + (if Some i = Some j then 1 else 0)" for j
      by (simp add: ledger_def t queued_def e returned_def decoding_def)
    ultimately show "inputs_ok ?t \<and> (\<forall>j. ledger P j ?t = ledger P j s + (if Some i = Some j then 1 else 0))" by blast
  qed
qed

section \<open>Input buffers\<close>

lemma gains_empty_buffer_done:
  assumes "inputs_ok s" "p = None \<or> in_array (fst (shape s)) p" "empty_buffer_done p s = Some (e, t)"
  shows "gains P p s t"
proof (cases p)
  case None
  then show ?thesis using assms(3) by (simp add: empty_buffer_done_def gains_None)
next
  case (Some i)
  then obtain b where i: "i < actualcount (ip_buf s)" "load_header (m_inp_mem_ptr s) (Some i) = Some b"
    using assms(1,2) in_array_bound [of s i] by auto
  let ?s = "s\<lparr>pending_input_buffers := pending_input_buffers s - 1\<rparr>"
  let ?u = "store_in (Some i) ((hdr b)\<lparr>nFilledLen := 0\<rparr>) b ?s"
  have t: "t = callback (EmptyBufferDone i) ?u"
    using assms(3) i by (simp add: empty_buffer_done_def Some Let_def)
  have "book P ?u = book P s" using i(2) by (simp add: book_simps)
  from gains_book [OF this gains_returned] show ?thesis by (simp add: t Some)
qed

lemma check_vop_state: "check_vop h s = Some (c, h', t) \<Longrightarrow> \<exists>m. t = s\<lparr>mp4_headerparser := m\<rparr>"
proof -
  assume c: "check_vop h s = Some (c, h', t)"
  have "s = s\<lparr>mp4_headerparser := mp4_headerparser s\<rparr>" by simp
  then have "\<exists>m. s = s\<lparr>mp4_headerparser := m\<rparr>" by (rule exI)
  then show ?thesis using c by (auto simp: check_vop_def Let_def split: if_splits bind_splits)
qed

text \<open>
  What the message thread makes of a buffer: it comes back as it is (empty, in a flush, or a VOP that
  is not coded), the driver refuses it, or the driver has it.
\<close>

definition counted :: "omx_vdec \<Rightarrow> mp4_utils \<Rightarrow> omx_vdec" where
  "counted s m = s\<lparr>pending_input_buffers := pending_input_buffers s + 1, mp4_headerparser := m\<rparr>"

lemma etb_proxy_cases:
  assumes etb: "empty_this_buffer_proxy P (Some i) s = Some (e, t)"
    and i: "i < actualcount (ip_buf s)" "load_header (m_inp_mem_ptr s) (Some i) = Some b" "pPortPrivate b"
  obtains (empty) "t = post_event (GENERATE_EBD (Some i) VDEC_S_SUCCESS) (s\<lparr>pending_input_buffers := pending_input_buffers s + 1\<rparr>)"
  | (requeued) h m where "t = post_event (GENERATE_EBD (Some i) VDEC_S_SUCCESS) (store_in (Some i) h b (counted s m))"
  | (refused) h m where "\<not> fst (ioctl P (DECODE_FRAME i) (store_in (Some i) h b (counted s m)))"
      "t = post_event (GENERATE_EBD (Some i) VDEC_S_SUCCESS) (snd (ioctl P (DECODE_FRAME i) (store_in (Some i) h b (counted s m))))"
  | (driver) h m ts where "t = (snd (ioctl P (DECODE_FRAME i) (store_in (Some i) h b (counted s m))))\<lparr>time_stamp_dts := ts\<rparr>"
      "fst (ioctl P (DECODE_FRAME i) (store_in (Some i) h b (counted s m)))"
proof (cases "nFilledLen (hdr b) = 0 \<and> nFlags (hdr b) AND 1 = 0")
  case True
  then show ?thesis using empty etb i by (simp add: empty_this_buffer_proxy_def Let_def)
next
  case False
  define s1 where "s1 = s\<lparr>pending_input_buffers := pending_input_buffers s + 1\<rparr>"
  obtain c h v where v: "check_vop (hdr b) s1 = Some (c, h, v)"
    using etb i by (cases "check_vop (hdr b) s1") (auto simp: empty_this_buffer_proxy_def Let_def s1_def [symmetric] False)
  obtain m where "v = s1\<lparr>mp4_headerparser := m\<rparr>" using check_vop_state [OF v] by blast
  then have m: "v = counted s m" by (simp add: s1_def counted_def)
  have n: "ip_buf v = ip_buf s" by (simp add: m counted_def)
  show ?thesis
  proof (cases "input_flush_progress v \<or> c")
    case True
    then show ?thesis using requeued [of h m] etb i
      by (simp add: empty_this_buffer_proxy_def Let_def s1_def [symmetric] False v) (simp add: m)
  next
    case no: False
    define g where "g = (if nFlags h AND QOMX_VIDEO_BUFFERFLAG_EOSEQ P \<noteq> 0
      then h\<lparr>nFlags := nFlags h AND NOT (QOMX_VIDEO_BUFFERFLAG_EOSEQ P)\<rparr> else h)"
    let ?io = "ioctl P (DECODE_FRAME i) (store_in (Some i) g b (counted s m))"
    have r: "Some (e, t) = (if \<not> fst ?io
        then Some (ErrorBadParameter, post_event (GENERATE_EBD (Some i) VDEC_S_SUCCESS) (snd ?io))
        else Some (ErrorNone, (snd ?io)\<lparr>time_stamp_dts := snd (insert_timestamp (Some g) (time_stamp_dts (snd ?io)))\<rparr>))"
      unfolding etb [symmetric] m [symmetric] g_def using i no n
      by (simp add: empty_this_buffer_proxy_def Let_def case_prod_beta s1_def [symmetric] False v)
    show ?thesis
    proof (cases "fst ?io")
      case True
      with r have "t = (snd ?io)\<lparr>time_stamp_dts := snd (insert_timestamp (Some g) (time_stamp_dts (snd ?io)))\<rparr>" by simp
      from driver [OF this True] show ?thesis .
    next
      case False
      with r have "t = post_event (GENERATE_EBD (Some i) VDEC_S_SUCCESS) (snd ?io)" by simp
      from refused [OF False this] show ?thesis .
    qed
  qed
qed

lemma enters_etb_proxy:
  assumes "inputs_ok s" "in_array (fst (shape s)) p" "empty_this_buffer_proxy P p s = Some (e, t)"
  shows "enters P p s t"
proof -
  obtain i where p: "p = Some i" using assms(2) by (cases p; cases "fst (shape s)") auto
  then obtain b where i: "i < actualcount (ip_buf s)" "load_header (m_inp_mem_ptr s) (Some i) = Some b" "pPortPrivate b"
    using assms(1,2) in_array_bound [of s i] by auto
  have requeue: "enters P (Some i) s (post_event (GENERATE_EBD (Some i) VDEC_S_SUCCESS) u)"
    if "book P u = book P s" "fst (shape u) = fst (shape s)" for u
    by (rule enters_book [OF that(1) enters_posted]) (use that assms(2) p in simp)
  have decode: "enters P (Some i) s t" if ok: "fst (ioctl P (DECODE_FRAME i) u)" and u: "book P u = book P s"
      and t: "book P t = book P (snd (ioctl P (DECODE_FRAME i) u))" for u
  proof -
    have "enters P (Some i) s (snd (ioctl P (DECODE_FRAME i) u))" by (rule gains_enters [OF gains_book [OF u gains_decoding [OF ok]]])
    then show ?thesis by (rule enters_then) (rule conserves_book [OF t])
  qed
  have u: "book P (store_in (Some i) h b (counted s m)) = book P s"
    "fst (shape (store_in (Some i) h b (counted s m))) = fst (shape s)" for h m
    using i(2) by (simp_all add: counted_def book_simps) (simp add: shape_def)
  from assms(3) [unfolded p] i show ?thesis
  proof (cases rule: etb_proxy_cases)
    case empty
    then show ?thesis using requeue p by (simp add: book_simps shape_def)
  next
    case requeued
    then show ?thesis using requeue u p by simp
  next
    case (refused h m)
    have "fst (shape (snd (ioctl P (DECODE_FRAME i) (store_in (Some i) h b (counted s m))))) = fst (shape s)"
      using u(2) [of h m] by (simp add: ioctl_def answer_def shape_def)
    with refused show ?thesis using requeue u(1) book_refused [OF refused(1)] p by simp
  next
    case (driver h m ts)
    then show ?thesis using decode [OF driver(2) u(1)] p by (auto simp: book_simps)
  qed
qed

section \<open>The loops over the queues\<close>

lemmas drain_ftb_run =
  drain_ftb.raw_induct [of "\<lambda>(P, s) t. Q P s t" for Q, unfolded prod.case, rotated, consumes 1, case_names step]

lemma conserves_drain_ftb: "drain_ftb P s = Some t \<Longrightarrow> conserves P s t"
proof (induction P s t rule: drain_ftb_run)
  case (step drain P s t)
  show ?case
  proof (cases "pop_entry (m_ftb_q s)")
    case None
    then show ?thesis using step(2) by simp
  next
    case (Some x)
    then obtain m q where q: "pop_entry (m_ftb_q s) = Some (m, q)" by (cases x) auto
    let ?s = "s\<lparr>m_ftb_q := q\<rparr>"
    obtain u where u: "(case m of
        GENERATE_FTB p \<Rightarrow> do {
          let s = ?s\<lparr>pending_output_buffers := pending_output_buffers ?s + 1\<rparr>;
          b \<leftarrow> load_header (m_out_mem_ptr s) p;
          Some (callback (FillBufferDone (the p) (hdr b)) s)
        }
      | GENERATE_FBD p _ \<Rightarrow> map_option snd (fill_buffer_done P p ?s)
      | _ \<Rightarrow> Some ?s) = Some u" "drain P u = Some t"
      using step(2) q by (auto simp: Let_def split: bind_splits)
    have "book P u = book P ?s"
      using u(1) by (cases m) (auto simp: Let_def book_simps book_fill_buffer_done split: bind_splits)
    then show ?thesis
      using conserves_pop(2) [OF q] step(1) [OF u(2)] by (blast intro: conserves_trans conserves_book)
  qed
qed

lemma book_of_pending: "book P (s\<lparr>pending_input_buffers := k\<rparr>) = book P s"
  by (simp add: book_simps)

lemma conserves_drain_etb: "drain_etb s = Some t \<Longrightarrow> conserves P s t"
proof (induction s t rule: drain_etb.raw_induct [rotated, consumes 1, case_names step])
  case (step drain s t)
  show ?case
  proof (cases "inputs_ok s")
    case False
    then show ?thesis by (simp add: conserves_def)
  next
    case True
    show ?thesis
    proof (cases "pop_entry (m_etb_q s)")
      case None
      then show ?thesis using step(2) by simp
    next
      case (Some x)
      then obtain m q where q: "pop_entry (m_etb_q s) = Some (m, q)" by (cases x) auto
      note pop = pop_etb_enters [OF True q]
      let ?s = "s\<lparr>m_etb_q := q\<rparr>"
      let ?s1 = "?s\<lparr>pending_input_buffers := pending_input_buffers ?s + 1\<rparr>"
      have s1: "book P ?s1 = book P ?s" "fst (shape ?s1) = fst (shape s)" "fst (shape ?s) = fst (shape s)"
        by (simp_all add: book_simps) (simp_all add: shape_def)
      obtain u where u: "(case m of
          GENERATE_ETB p \<Rightarrow> map_option snd (empty_buffer_done p ?s1)
        | GENERATE_EBD p _ \<Rightarrow> map_option snd (empty_buffer_done p ?s)
        | _ \<Rightarrow> Some ?s) = Some u" "drain u = Some t"
        using step(2) q by (auto simp: Let_def split: bind_splits)
      have ok: "inputs_ok ?s" "inputs_ok ?s1"
        using pop(3) inputs_ok_book [of ?s P] inputs_ok_book [of ?s1 P] s1(1) by simp_all
      have "gains P p ?s u" if "empty_buffer_done p ?s1 = Some (e, u)" "in_array (fst (shape s)) p" for p e
        by (rule gains_book [OF s1(1) gains_empty_buffer_done [OF ok(2) _ that(1)]]) (use that(2) s1(2) in simp)
      then have "gains P (input_of m) ?s u"
        using u(1) pop(1) s1(3) gains_empty_buffer_done [OF ok(1), of _ _ u P]
        by (cases m) (auto simp: etb_msg_ok_def)
      from conserves_trans [OF pop(4) [OF gains_enters [OF this]] step(1) [OF u(2)]] show ?thesis .
    qed
  qed
qed

section \<open>Pending buffers\<close>

lemma queued_filter:
  assumes "entries e = filter (\<lambda>m. \<not> is_ebd m) (entries q)"
    "entries r = filter is_fbd xs @ filter is_ebd (entries q)"
  shows "queued i e + queued i r = queued i q"
proof -
  have "filter (\<lambda>m. input_of m = Some i) (filter is_fbd xs) = []"
    by (auto simp: filter_empty_conv is_fbd_def split: vdec_msg.splits)
  moreover have "length (filter (\<lambda>m. input_of m = Some i) (filter (\<lambda>m. \<not> is_ebd m) ms)) +
      length (filter (\<lambda>m. input_of m = Some i) (filter is_ebd ms)) =
      length (filter (\<lambda>m. input_of m = Some i) ms)" for ms
    by (induction ms) auto
  ultimately show ?thesis by (simp add: queued_def assms)
qed

lemma shape_book:
  assumes "book P t = book P s"
  shows "fst (shape t) = fst (shape s)"
proof -
  have "map_option length (map_option (map pPortPrivate) (m_inp_mem_ptr t)) =
      map_option length (map_option (map pPortPrivate) (m_inp_mem_ptr s))"
    using assms by (simp add: book_def)
  then show ?thesis by (simp add: shape_def option.map_comp comp_def)
qed

lemma process_pending_gains:
  assumes "cmd_queue_ok q" "inputs_ok s" "process_pending P q s = Some t"
    and "\<forall>m \<in> set (entries q). is_fbd m \<or> is_ebd m \<and> etb_msg_ok (fst (shape s)) m"
  shows "inputs_ok t \<and> (\<forall>i. ledger P i t = ledger P i s + queued i q)"
  using assms
proof (induction "entries q" arbitrary: q s)
  case Nil
  then have "pop_entry q = None" using cmdq.get_None_iff [of q] by simp
  then show ?case using Nil by (auto simp: process_pending.simps queued_def simp flip: Nil.hyps)
next
  case (Cons m ms)
  from Cons.prems(1) show ?case
  proof (cases rule: pop_entry_cases)
    case 1
    then show ?thesis using Cons.hyps(2) by simp
  next
    case (2 m' q1)
    then have e: "m' = m" "entries q1 = ms" "entries q = m # ms" using Cons.hyps(2) by auto
    obtain u where u: "(case m of
          GENERATE_EBD p _ \<Rightarrow> map_option report_failure (empty_buffer_done p s)
        | GENERATE_FBD p _ \<Rightarrow> map_option report_failure (fill_buffer_done P p s)
        | _ \<Rightarrow> Some s) = Some u" "process_pending P q1 u = Some t"
      using Cons.prems(3) 2(1) e(1) by (subst (asm) process_pending.simps) (auto split: bind_splits)
    have ok: "is_fbd m \<or> is_ebd m \<and> etb_msg_ok (fst (shape s)) m" using Cons.prems(4) e(3) by simp
    have "gains P (input_of m) s u \<and> fst (shape u) = fst (shape s)"
    proof (cases m)
      case (GENERATE_EBD p st)
      then obtain e1 u1 where u1: "empty_buffer_done p s = Some (e1, u1)" "u = report_failure (e1, u1)"
        using u(1) by auto
      have p: "p = None \<or> in_array (fst (shape s)) p" using ok GENERATE_EBD by (auto simp: is_fbd_def etb_msg_ok_def)
      have "conserves P u1 u" by (rule conserves_book) (simp add: u1 book_simps)
      with gains_empty_buffer_done [OF Cons.prems(2) p u1(1), of P] have "gains P p s u"
        by (auto simp: gains_def conserves_def)
      moreover have "shape u1 = shape s" using returns_empty_buffer_done [OF p]  u1(1)
        by (auto simp: empty_buffer_done_def Let_def split: option.splits if_splits bind_splits)
          (auto simp: shape_def store_in_def callback_def)
      moreover have "shape u = shape u1"
        using frame_failure(1) [of "(e1, u1)"] by (simp add: u1(2) frame_def)
      ultimately show ?thesis using GENERATE_EBD by simp
    next
      case (GENERATE_FBD p st)
      then obtain e1 u1 where u1: "fill_buffer_done P p s = Some (e1, u1)" "u = report_failure (e1, u1)"
        using u(1) by auto
      have "book P u = book P s" using book_fill_buffer_done [OF u1(1)] by (simp add: u1(2) book_simps)
      from shape_book [OF this] gains_None [OF this] show ?thesis using GENERATE_FBD by simp
    qed (use ok in \<open>simp_all add: is_fbd_def is_ebd_def\<close>)
    then have g: "inputs_ok u" "\<And>i. ledger P i u = ledger P i s + (if input_of m = Some i then 1 else 0)"
      "fst (shape u) = fst (shape s)"
      using Cons.prems(2) by (auto simp: gains_def)
    have "\<forall>m \<in> set (entries q1). is_fbd m \<or> is_ebd m \<and> etb_msg_ok (fst (shape u)) m"
      using Cons.prems(4) e by (simp add: g(3))
    from Cons.hyps(1) [OF e(2) [symmetric] 2(3) g(1) u(2) this] g(2)
    show ?thesis by (simp add: queued_def e(2,3))
  qed
qed

lemma conserves_complete_pending:
  assumes "vdec_ok s" "complete_pending_buffer_done_cbs P s = Some t"
  shows "conserves P s t"
proof -
  obtain f e q where c: "complete_pending_buffer_done_cbs P s = process_pending P q (s\<lparr>m_ftb_q := f, m_etb_q := e\<rparr>)"
    "cmd_queue_ok f" "cmd_queue_ok e" "cmd_queue_ok q"
    "entries f = filter (\<lambda>m. \<not> is_fbd m) (entries (m_ftb_q s))"
    "entries e = filter (\<lambda>m. \<not> is_ebd m) (entries (m_etb_q s))"
    "entries q = fill (filter is_fbd (entries (m_ftb_q s))) (filter is_ebd (entries (m_etb_q s)))"
    using complete_pending_split [OF assms(1), of P] by (elim exE conjE)
  let ?s = "s\<lparr>m_ftb_q := f, m_etb_q := e\<rparr>"
  show ?thesis
    unfolding conserves_def
  proof (intro impI)
    assume s: "inputs_ok s"
    have size: "m_size e \<le> m_size (m_etb_q s)" "m_size f \<le> m_size (m_ftb_q s)"
      using arg_cong [OF c(5), of length] arg_cong [OF c(6), of length] length_filter_le
      by (metis length_entries)+
    have "length (filter is_fbd (entries (m_ftb_q s))) + length (filter is_ebd (entries (m_etb_q s)))
        \<le> OMX_CORE_CONTROL_CMDQ_SIZE"
      using length_filter_le [of is_fbd "entries (m_ftb_q s)"] length_filter_le [of is_ebd "entries (m_etb_q s)"] s
      by (simp add: inputs_ok_def)
    then have q: "entries q = filter is_fbd (entries (m_ftb_q s)) @ filter is_ebd (entries (m_etb_q s))"
      using c(7) by simp
    have 1: "inputs_ok ?s" using s c(2,3,6) size by (auto simp: inputs_ok_def shape_def list_all_iff)
    have 2: "\<forall>m \<in> set (entries q). is_fbd m \<or> is_ebd m \<and> etb_msg_ok (fst (shape ?s)) m"
      using s by (auto simp: q inputs_ok_def shape_def list_all_iff)
    have "process_pending P q ?s = Some t" using assms(2) c(1) by simp
    from process_pending_gains [OF c(4) 1 this 2]
    have t: "inputs_ok t" "\<And>i. ledger P i t = ledger P i ?s + queued i q" by auto
    have "ledger P i ?s + queued i q = ledger P i s" for i
      using queued_filter [OF c(6) q, of i] by (simp add: ledger_def returned_def decoding_def)
    then show "inputs_ok t \<and> (\<forall>i. ledger P i t = ledger P i s)" using t by simp
  qed
qed

section \<open>One message\<close>

lemma conserves_then_book: "conserves P s t \<Longrightarrow> book P u = book P t \<Longrightarrow> conserves P s u"
  by (rule conserves_trans [OF _ conserves_book])

lemma conserves_flush:
  "process_input_flush P st s = Some t \<Longrightarrow> conserves P s t"
  "process_output_flush P st s = Some t \<Longrightarrow> conserves P s t"
proof -
  assume a: "process_input_flush P st s = Some t"
  show "conserves P s t"
  proof (cases "input_flush_progress s")
    case True
    then obtain u where u: "drain_etb s = Some u" "book P t = book P u"
      using a by (auto simp: process_input_flush_def execute_input_flush_def Let_def book_simps
          split: bind_splits if_splits)
    then show ?thesis using conserves_drain_etb conserves_then_book by blast
  qed (use a in \<open>simp add: process_input_flush_def\<close>)
next
  assume a: "process_output_flush P st s = Some t"
  show "conserves P s t"
  proof (cases "output_flush_progress s")
    case True
    then obtain u where u: "drain_ftb P s = Some u" "book P t = book P u"
      using a by (auto simp: process_output_flush_def execute_output_flush_def Let_def book_simps
          split: bind_splits if_splits)
    then show ?thesis using conserves_drain_ftb conserves_then_book by blast
  qed (use a in \<open>simp add: process_output_flush_def\<close>)
qed

lemma conserves_done:
  assumes "vdec_ok s"
  shows "process_pause_done P st s = Some t \<Longrightarrow> conserves P s t"
    "process_stop_done P st s = Some t \<Longrightarrow> conserves P s t"
  using assms conserves_complete_pending conserves_then_book
  by (fastforce simp: process_pause_done_def process_stop_done_def book_simps conserves_book
      split: bind_splits if_splits)+

lemma conserves_msg:
  assumes "vdec_ok s" "cmd_msg_ok m \<or> ftb_msg_ok n m" "process_msg P m s = Some t"
  shows "conserves P s t"
proof (cases m)
  case (GENERATE_FTB p)
  then show ?thesis using assms(3)
    by (auto simp: process_msg_def book_simps dest: book_ftb_proxy intro!: conserves_book)
next
  case (GENERATE_FBD p st)
  then show ?thesis using assms(3)
    by (auto simp: process_msg_def process_fbd_def book_simps dest: book_fill_buffer_done intro!: conserves_book
        split: if_splits)
qed (use assms conserves_flush conserves_done in
  \<open>auto simp: process_msg_def cmd_msg_ok_def ftb_msg_ok_def book_simps intro!: conserves_book\<close>)

lemma enters_ebd:
  assumes "inputs_ok s" "p = None \<or> in_array (fst (shape s)) p"
    "st = VDEC_S_SUCCESS \<or> st = VDEC_S_INPUT_BITSTREAM_ERR" "process_ebd p st s = Some t"
  shows "gains P p s t"
proof -
  let ?r = "if st = VDEC_S_INPUT_BITSTREAM_ERR \<and> p \<noteq> None then do {
               let s = s\<lparr>m_inp_err_count := m_inp_err_count s + 1\<rparr>;
               ts \<leftarrow> header_ts p s;
               Some (s\<lparr>time_stamp_dts := snd (remove_time_stamp ts (interlaced s) (time_stamp_dts s))\<rparr>)
             }
             else Some (s\<lparr>m_inp_err_count := 0\<rparr>)"
  let ?f = "\<lambda>s. map_option report_failure (empty_buffer_done p s) \<bind>
      (\<lambda>s. Some (report_unless (m_inp_err_count s \<le> MAX_INPUT_ERROR) s))"
  have "process_ebd p st s = ?r \<bind> ?f"
    using assms(3) by (auto simp: process_ebd_def)
  from this [symmetric] have "?r \<bind> ?f = Some t" unfolding assms(4) .
  from iffD1 [OF bind_eq_Some_conv this] obtain s1 where s1: "?r = Some s1" "?f s1 = Some t"
    by (elim exE conjE)
  then obtain e u where u: "?r = Some s1" "empty_buffer_done p s1 = Some (e, u)" "book P t = book P u"
    by (auto simp: book_simps split: bind_splits)
  have "book P s1 = book P s" using u(1) by (auto simp: Let_def book_simps split: bind_splits if_splits)
  note u = this u(2,3)
  have "inputs_ok s1" using assms(1) u(1) by (simp add: inputs_ok_book [of _ P])
  then have "gains P p s1 u"
    using assms(2) shape_book [OF u(1)] by (intro gains_empty_buffer_done [OF _ _ u(2)]) simp_all
  from gains_book [OF u(1) gains_then [OF this conserves_book [OF u(3)]]] show ?thesis .
qed

lemma enters_msg:
  assumes "inputs_ok s" "etb_msg_ok (fst (shape s)) m" "done_ok m" "process_msg P m s = Some t"
  shows "enters P (input_of m) s t"
proof (cases m)
  case (GENERATE_ETB p)
  then obtain e u where u: "empty_this_buffer_proxy P p s = Some (e, u)" "t = report_failure (e, u)"
    using assms(4) by (auto simp: process_msg_def)
  have "enters P p s u" by (rule enters_etb_proxy [OF assms(1) _ u(1)]) (use assms(2) GENERATE_ETB in \<open>simp add: etb_msg_ok_def\<close>)
  from enters_then [OF this conserves_book] show ?thesis using u GENERATE_ETB by (simp add: book_simps)
next
  case (GENERATE_EBD p st)
  then have "gains P p s t"
    using assms by (intro enters_ebd) (auto simp: process_msg_def etb_msg_ok_def done_ok_def)
  then show ?thesis using GENERATE_EBD by (simp add: gains_enters)
qed (use assms(2) in \<open>simp_all add: etb_msg_ok_def\<close>)

section \<open>The loop\<close>

lemma conserves_one:
  assumes "vdec_ok s" "process_one P s = Some t"
  shows "conserves P s t"
proof (cases "inputs_ok s")
  case False
  then show ?thesis by (simp add: conserves_def)
next
  case s: True
  have "next_msg s = None \<or> (\<exists>m q.
      pop_entry (m_cmd_q s) = Some (m, q) \<and> next_msg s = Some (m, s\<lparr>m_cmd_q := q\<rparr>) \<or>
      pop_entry (m_ftb_q s) = Some (m, q) \<and> next_msg s = Some (m, s\<lparr>m_ftb_q := q\<rparr>) \<or>
      pop_entry (m_etb_q s) = Some (m, q) \<and> next_msg s = Some (m, s\<lparr>m_etb_q := q\<rparr>))"
    by (auto simp: next_msg_def split: option.splits prod.splits)
  then consider "next_msg s = None"
    | (cmd) m q where "pop_entry (m_cmd_q s) = Some (m, q)" "next_msg s = Some (m, s\<lparr>m_cmd_q := q\<rparr>)"
    | (ftb) m q where "pop_entry (m_ftb_q s) = Some (m, q)" "next_msg s = Some (m, s\<lparr>m_ftb_q := q\<rparr>)"
    | (etb) m q where "pop_entry (m_etb_q s) = Some (m, q)" "next_msg s = Some (m, s\<lparr>m_etb_q := q\<rparr>)"
    by metis
  then show ?thesis
  proof cases
    case 1
    then show ?thesis using assms(2) by (simp add: process_one_def)
  next
    case cmd
    have "conserves P (s\<lparr>m_cmd_q := q\<rparr>) t"
      by (rule conserves_msg [of _ m]) (use assms cmd pop_cmd [OF assms(1) cmd(1)] in \<open>auto simp: process_one_def\<close>)
    from conserves_trans [OF conserves_pop(1) [OF cmd(1)] this] show ?thesis .
  next
    case ftb
    have "conserves P (s\<lparr>m_ftb_q := q\<rparr>) t"
      by (rule conserves_msg [of _ m "snd (shape s)"])
        (use assms ftb pop_ftb [OF assms(1) ftb(1)] in \<open>auto simp: process_one_def\<close>)
    from conserves_trans [OF conserves_pop(2) [OF ftb(1)] this] show ?thesis .
  next
    case etb
    note pop = pop_etb_enters [OF s etb(1)]
    have "enters P (input_of m) (s\<lparr>m_etb_q := q\<rparr>) t"
      by (rule enters_msg) (use pop(1-3) assms(2) etb pop_etb(2) [OF assms(1) etb(1)] in \<open>auto simp: process_one_def\<close>)
    from pop(4) [OF this] show ?thesis .
  qed
qed

lemmas event_cb_run = process_event_cb.raw_induct
  [of "\<lambda>(P, s) t. Q P s t" for Q, unfolded prod.case, rotated, consumes 1, case_names step]

lemma conserves_event_cb: "process_event_cb P s = Some t \<Longrightarrow> vdec_ok s \<longrightarrow> conserves P s t"
proof (induction P s t rule: event_cb_run)
  case (step loop P s t)
  then obtain u where u: "process_one P s = Some u" "(if more_msgs u then loop P u else Some u) = Some t"
    by (auto split: bind_splits)
  show ?case
  proof
    assume ok: "vdec_ok s"
    then have "vdec_ok u" using process_one_ok [OF ok, of P] u(1) by auto
    then have "conserves P u t" using step(1) u(2) by (auto split: if_splits)
    with conserves_one [OF ok u(1)] show "conserves P s t" by (rule conserves_trans)
  qed
qed

lemma queued_Nil: "entries q = [] \<Longrightarrow> queued i q = 0"
  by (simp add: queued_def)

text \<open>
  C5. No input buffer is lost and none is returned twice: whatever valid messages the thread finds in
  its queues, for every buffer the number of times it is queued, has been returned to the client
  (\<open>EmptyBufferDone\<close>) or has been accepted by the driver (a \<open>DECODE_FRAME\<close> that did not fail) is
  the same before and after; unless the component is paused none remains queued. A VOP that is not
  coded and a buffer that meets a flush or a refusal count as returned. The condition excludes a
  completion of the driver with a fatal status, after which the buffer is kept, and more buffers
  than one queue holds.
\<close>
theorem input_buffers_conserved:
  assumes "vdec_ok s" "inputs_ok s" "process_event_cb P s = Some t"
  shows "queued i (m_etb_q t) + returned i t + decoding P i t =
      queued i (m_etb_q s) + returned i s + decoding P i s \<and> inputs_ok t \<and>
    (m_state t \<noteq> StatePause \<longrightarrow> queued i (m_etb_q t) = 0)"
proof -
  have "conserves P s t" using conserves_event_cb [OF assms(3)] assms(1) by simp
  then have "inputs_ok t" "ledger P i t = ledger P i s" using assms(2) by (simp_all add: conserves_def)
  moreover have "m_state t \<noteq> StatePause \<Longrightarrow> entries (m_etb_q t) = []"
    using process_event_cb_result [OF assms(1), of P] assms(3) by (auto simp: more_msgs_def entries_Nil)
  ultimately show ?thesis by (auto simp: ledger_def queued_Nil)
qed

text \<open>A buffer that the client hands over enters the books once.\<close>

lemma empty_this_buffer_enters:
  assumes "inputs_ok s" "m_size (m_etb_q s) < OMX_CORE_CONTROL_CMDQ_SIZE"
    "empty_this_buffer P (Some i) s = Some (ErrorNone, t)"
  shows "ledger P j t = ledger P j s + (if j = i then 1 else 0)"
proof -
  obtain b where b: "load_header (m_inp_mem_ptr s) (Some i) = Some b"
    using assms(3) by (auto simp: empty_this_buffer_def split: bind_splits)
  define v where "v = s\<lparr>codec_config_flag := nFlags (hdr b) AND 0x80 \<noteq> 0\<rparr>"
  define u where "u = (if client_extradata v AND 0x00040000 = 0 then set_frame_rate P (nTimeStamp (hdr b)) v else v)"
  have t: "t = post_event (GENERATE_ETB (Some i)) u"
    using assms(3) by (simp add: empty_this_buffer_def b Let_def v_def u_def split: if_splits)
  have "book P u = book P s" by (simp add: u_def book_simps) (simp add: v_def book_simps)
  note u = this t
  have q: "m_etb_q u = m_etb_q s" using u(1) by (simp add: book_def)
  have "entries (enqueue (GENERATE_ETB (Some i)) (m_etb_q u)) = entries (m_etb_q s) @ [GENERATE_ETB (Some i)]"
    using assms(1,2) by (simp add: q inputs_ok_def enqueue_ok(2))
  then have "ledger P j t = ledger P j u + (if j = i then 1 else 0)"
    by (simp add: u(2) ledger_def queued_def returned_def decoding_def post_event_def q)
  then show ?thesis by (simp add: ledger_book u(1))
qed

theorem input_buffers_conserved_witness:
  "\<exists>t. process_event_cb willing (post_event (GENERATE_ETB (Some 0)) ready_vdec) = Some t \<and>
     queued 0 (m_etb_q t) + returned 0 t + decoding willing 0 t = 1"
proof -
  let ?s = "post_event (GENERATE_ETB (Some 0)) ready_vdec"
  have "msg_ok ready_vdec (GENERATE_ETB (Some 0))"
    by (simp add: msg_ok_def etb_msg_ok_def shape_def ready_vdec_def)
  then have ok: "vdec_ok ?s" by (rule vdec_ok_post [OF sample_ok(2)])
  have r: "cmd_queue_ok (m_etb_q ready_vdec)" "entries (m_etb_q ready_vdec) = []" "m_size (m_etb_q ready_vdec) = 0"
    by (simp_all add: sample_queues) (simp add: new_cmd_queue_def)
  have e: "m_etb_q ?s = enqueue (GENERATE_ETB (Some 0)) (m_etb_q ready_vdec)"
    "entries (m_etb_q ?s) = [GENERATE_ETB (Some 0)]" "cmd_queue_ok (m_etb_q ?s)"
    using r enqueue_ok [OF r(1), of "GENERATE_ETB (Some 0)"] by (simp_all add: OMX_CORE_CONTROL_CMDQ_SIZE_def)
  then have z: "m_size (m_etb_q ?s) = 1" by (metis One_nat_def length_Cons length_entries list.size(3))
  have f: "m_ftb_q ?s = new_cmd_queue EOS_DONE" "m_inp_mem_ptr ?s = Some [sample_header InputPort]"
    "ip_buf ?s = one_buffer" "callbacks ?s = []" "requests ?s = []" "m_state ?s = StateExecuting"
    by (simp_all add: sample_queues) (simp_all add: post_event_def ready_vdec_def loaded_vdec_def new_omx_vdec_def)
  have "inputs_ok ?s"
    by (simp add: inputs_ok_def e(2,3) z f del: post_event_queues) 
      (simp add: etb_msg_ok_def done_ok_def shape_def f headers_private_def sample_header_def one_buffer_def
        OMX_CORE_CONTROL_CMDQ_SIZE_def new_cmd_queue_def del: post_event_queues)
  moreover obtain t where t: "process_event_cb willing ?s = Some t" using process_event_cb_result [OF ok, of willing] by blast
  ultimately have "queued 0 (m_etb_q t) + returned 0 t + decoding willing 0 t =
      queued 0 (m_etb_q ?s) + returned 0 ?s + decoding willing 0 ?s \<and> (m_state t \<noteq> StatePause \<longrightarrow> queued 0 (m_etb_q t) = 0)"
    using input_buffers_conserved [OF ok _ t, of 0] by blast
  moreover have "queued 0 (m_etb_q ?s) + returned 0 ?s + decoding willing 0 ?s = 1"
    by (simp add: queued_def e(2) returned_def decoding_def accepted_def f del: post_event_queues)
  ultimately show ?thesis using t by auto
qed

end
