(* ===== verification/VdecTransitions.thy ===== *)
theory VdecTransitions
  imports VdecConserve
begin

text \<open>
  State changes of the decoder component: which transitions a command may ask for, how the way from
  Executing to Idle runs, and what goes wrong at its edges (vdec/src/omx_vdec.cpp).
\<close>

section \<open>The transitions\<close>

text \<open>The transitions the OpenMAX state machine allows, and the request to the driver each one needs.\<close>

definition legal_transitions :: "(OMX_STATETYPE \<times> OMX_STATETYPE) list" where
  "legal_transitions =
     [(StateLoaded, StateIdle), (StateLoaded, StateWaitForResources), (StateIdle, StateLoaded),
      (StateIdle, StateExecuting), (StateIdle, StatePause), (StateExecuting, StateIdle),
      (StateExecuting, StatePause), (StatePause, StateExecuting), (StatePause, StateIdle),
      (StateWaitForResources, StateLoaded), (StateWaitForResources, StateIdle)]"

definition needed_request :: "OMX_STATETYPE \<Rightarrow> OMX_STATETYPE \<Rightarrow> vdec_ioctl option" where
  "needed_request a b =
     (if a = StateIdle \<and> (b = StateExecuting \<or> b = StatePause) then Some CMD_START
      else if a = StateExecuting \<and> b = StatePause then Some CMD_PAUSE
      else if a = StatePause \<and> b = StateExecuting then Some CMD_RESUME
      else None)"

definition verdict :: "platform \<Rightarrow> vdec_ioctl list \<Rightarrow> OMX_STATETYPE \<Rightarrow> OMX_STATETYPE \<Rightarrow> OMX_ERRORTYPE" where
  "verdict P rs a b =
     (if b = StateInvalid then ErrorInvalidState
      else if b = a then ErrorSameState
      else if (a, b) \<notin> set legal_transitions then ErrorIncorrectStateTransition
      else case needed_request a b of
             None \<Rightarrow> ErrorNone
           | Some r \<Rightarrow> if driver P rs r = Failed then ErrorHardware else ErrorNone)"

named_theorems state_simps

lemma state_kept [state_simps]:
  "m_state (set_flag k s) = m_state s" "m_state (clear_flag k s) = m_state s" "m_state (sem_post s) = m_state s"
  "m_state (callback c s) = m_state s" "m_state (omx_report_error s) = m_state s"
  "m_state (snd (answer P r s)) = m_state s" "m_state (snd (ioctl P r s)) = m_state s"
  "m_state (post_event m s) = m_state s" "m_state (snd (allocate_done s)) = m_state s"
  "m_state (snd (release_done s)) = m_state s" "m_state (snd (execute_omx_flush P port s)) = m_state s"
  by (simp_all add: set_flag_def clear_flag_def sem_post_def callback_def omx_report_error_def answer_def
      ioctl_def post_event_def allocate_done_def allocate_input_done_def allocate_output_done_def
      release_done_def release_output_done_def execute_omx_flush_def Let_def case_prod_beta
      split: vdec_msg.splits port.splits)

lemma ioctl_verdict: "fst (ioctl P r s) \<longleftrightarrow> driver P (requests s) r \<noteq> Failed"
  by (simp add: ioctl_def answer_def)

lemma requests_set_flag: "requests (set_flag k s) = requests s"
  by (simp add: set_flag_def)

lemmas from_state_defs = from_loaded_def from_idle_def from_executing_def from_pause_def
  from_wait_for_resources_def accept_def defer_event_def refuse_def invalidate_def flush_to_idle_def

lemma state_set_verdict:
  assumes "m_state s \<in> {StateLoaded, StateIdle, StateExecuting, StatePause, StateWaitForResources}"
    "\<forall>n. st \<noteq> StateOther n"
  shows "fst (state_set_proxy P st s) = verdict P (requests s) (m_state s) st \<and>
    m_state (snd (snd (snd (state_set_proxy P st s)))) = m_state s"
  using assms
  by (cases st) (auto simp: state_set_proxy_def from_state_defs verdict_def legal_transitions_def
      needed_request_def case_prod_beta ioctl_verdict requests_set_flag state_simps split: if_splits)

text \<open>
  C6. The table of the state changes: in every proper state a command to change the state to any
  other standard value answers with the error the table of legal transitions gives it (an invalid
  state, the same state, a transition that is not allowed, a driver that refuses the request the
  transition needs), and never changes the state itself: that is left to the completion.
\<close>
theorem state_transition_table:
  assumes "m_state s \<in> {StateLoaded, StateIdle, StateExecuting, StatePause, StateWaitForResources}"
    "\<forall>n. st \<noteq> StateOther n"
  shows "fst (send_command_proxy P (StateSet st) s) = verdict P (requests s) (m_state s) st \<and>
    m_state (snd (send_command_proxy P (StateSet st) s)) = m_state s"
  using state_set_verdict [OF assms, of P]
  by (simp add: send_command_proxy_def command_proxy_def case_prod_beta Let_def state_simps)

theorem state_transition_table_witness:
  "fst (send_command_proxy willing (StateSet StateExecuting) loaded_vdec) = ErrorIncorrectStateTransition"
  using state_transition_table [of loaded_vdec StateExecuting willing]
  by (simp add: sample_queues verdict_def legal_transitions_def)

section \<open>What is accepted although it should not be\<close>

text \<open>
  From WaitForResources any number that is not a state is accepted as the new state and
  completed, and so is Idle without a single buffer.
\<close>
theorem wait_accepts_anything:
  assumes "vdec_ok s" "entries (m_cmd_q s) = []" "m_state s = StateWaitForResources"
    "st = StateIdle \<or> st = StateOther n"
  shows "\<exists>t u. process_msg P (GENERATE_COMMAND (StateSet st)) s = Some t \<and> process_one P t = Some u \<and>
    m_state u = st \<and> callbacks u = callbacks s @ [EventCmdComplete (StateSet st)]"
proof -
  have q: "cmd_queue_ok (m_cmd_q s)" "m_size (m_cmd_q s) = 0"
    using assms(1,2) by (simp_all add: vdec_ok_def frame_def entries_Nil)
  let ?m = "GENERATE_EVENT (CommandComplete (StateSet st))"
  let ?t = "sem_post (post_event ?m s)"
  have t: "process_msg P (GENERATE_COMMAND (StateSet st)) s = Some ?t"
    using assms(3,4) by (auto simp: process_msg_def send_command_proxy_def command_proxy_def state_set_proxy_def
        from_wait_for_resources_def accept_def Let_def)
  have "cmd_queue_ok (enqueue ?m (m_cmd_q s))" "entries (enqueue ?m (m_cmd_q s)) = [?m]"
    using enqueue_ok [OF q(1), of ?m] q(2) assms(2) by (simp_all add: OMX_CORE_CONTROL_CMDQ_SIZE_def)
  from pop_entry_spec [OF this] obtain q1 where "pop_entry (m_cmd_q ?t) = Some (?m, q1)"
    by (auto simp: sem_post_def cmd_msg_ok_def)
  then have "process_one P ?t = Some (callback (EventCmdComplete (StateSet st)) (?t\<lparr>m_cmd_q := q1, m_state := st\<rparr>))"
    by (simp add: process_one_def next_msg_def process_msg_def process_generated_def complete_command_def)
  moreover have "callbacks ?t = callbacks s" by (simp add: sem_post_def post_event_def)
  ultimately show ?thesis using t by (auto simp: callback_def)
qed

definition waiting_vdec :: omx_vdec where
  "waiting_vdec = loaded_vdec\<lparr>m_state := StateWaitForResources\<rparr>"

theorem wait_accepts_anything_witness:
  "\<exists>t u. process_msg willing (GENERATE_COMMAND (StateSet (StateOther 77))) waiting_vdec = Some t \<and>
     process_one willing t = Some u \<and> m_state u = StateOther 77"
proof -
  have "vdec_ok waiting_vdec" "entries (m_cmd_q waiting_vdec) = []" "m_state waiting_vdec = StateWaitForResources"
    using sample_ok(1) by (simp_all add: waiting_vdec_def vdec_ok_def frame_simps sample_queues)
  from wait_accepts_anything [OF this, of "StateOther 77" 77 willing] show ?thesis by auto
qed

section \<open>From Executing to Idle\<close>

text \<open>
  What the way to Idle is about: state, flags, flushes, stop requests and completions; with it what
  a change of the output buffers needs.
\<close>

definition completions :: "omx_vdec \<Rightarrow> omx_callback list" where
  "completions s = filter (\<lambda>c. case c of EventCmdComplete _ \<Rightarrow> True | _ \<Rightarrow> False) (callbacks s)"

definition stops :: "omx_vdec \<Rightarrow> nat" where
  "stops s = count_list (requests s) CMD_STOP"

definition idle_completions :: "omx_vdec \<Rightarrow> nat" where
  "idle_completions s = count_list (callbacks s) (EventCmdComplete (StateSet StateIdle))"

definition ctl :: "omx_vdec \<Rightarrow> OMX_STATETYPE \<times> u32 \<times> bool \<times> bool \<times> nat \<times> omx_callback list \<times>
    bool \<times> vdec_allocatorproperty \<times> u32" where
  "ctl s = (m_state s, m_flags s, input_flush_progress s, output_flush_progress s, stops s, completions s,
     in_reconfig s, op_buf_rcnfg s, m_out_bm_count s)"

lemma idle_of_completions:
  "idle_completions s = count_list (completions s) (EventCmdComplete (StateSet StateIdle))"
proof -
  have "count_list (filter p xs) x = count_list xs x" if "p x" for p and x :: omx_callback and xs
    using that by (induction xs) auto
  then show ?thesis by (simp add: idle_completions_def completions_def)
qed

named_theorems ctl_simps

lemma ctl_update [ctl_simps]:
  "ctl (s\<lparr>pending_input_buffers := k\<rparr>) = ctl s" "ctl (s\<lparr>pending_output_buffers := k\<rparr>) = ctl s"
  "ctl (s\<lparr>m_error_propogated := c\<rparr>) = ctl s" "ctl (s\<lparr>time_stamp_dts := ts\<rparr>) = ctl s"
  "ctl (s\<lparr>prev_ts := k\<rparr>) = ctl s" "ctl (s\<lparr>rst_prev_ts := c\<rparr>) = ctl s"
  "ctl (s\<lparr>frm_int := b\<rparr>) = ctl s" "ctl (s\<lparr>m_inp_mem_ptr := mi\<rparr>) = ctl s"
  "ctl (s\<lparr>m_out_mem_ptr := mo\<rparr>) = ctl s" "ctl (s\<lparr>m_ftb_q := q\<rparr>) = ctl s" "ctl (s\<lparr>m_etb_q := q\<rparr>) = ctl s"
  "ctl (post_event m s) = ctl s" "ctl (sem_post s) = ctl s"
  by (simp_all add: ctl_def stops_def completions_def post_event_def sem_post_def split: vdec_msg.splits)

lemma ctl_callback [ctl_simps]: "(\<forall>cmd. c \<noteq> EventCmdComplete cmd) \<Longrightarrow> ctl (callback c s) = ctl s"
  by (cases c) (simp_all add: callback_def ctl_def stops_def completions_def)

lemma ctl_ioctl [ctl_simps]: "r \<noteq> CMD_STOP \<Longrightarrow> ctl (snd (ioctl P r s)) = ctl s"
  by (simp add: ioctl_def answer_def ctl_def stops_def completions_def)

lemma ctl_store [ctl_simps]:
  "ctl (store_in p h b s) = ctl s" "ctl (store_out p h b s) = ctl s" "ctl (reset_prev_ts s) = ctl s"
  "ctl (omx_report_error s) = ctl s" "ctl (report_failure r) = ctl (snd r)" "ctl (set_frame_rate P t s) = ctl s"
  by (simp_all add: store_in_def store_out_def reset_prev_ts_def omx_report_error_def report_failure_def
      set_frame_rate_def Let_def case_prod_beta ctl_simps)

lemma ctl_buffer_done:
  "fill_buffer_done P p s = Some (e, t) \<Longrightarrow> ctl t = ctl s"
  "empty_buffer_done p s = Some (e, t) \<Longrightarrow> ctl t = ctl s"
  by (auto simp: fill_buffer_done_def empty_buffer_done_def Let_def case_prod_beta ctl_simps
      split: option.splits if_splits bind_splits)

lemma pop_entry_None: "pop_entry q = None \<longleftrightarrow> entries q = []"
  by (simp add: pop_entry_def entries_Nil)

lemma queues_callback: "m_etb_q (callback c s) = m_etb_q s" "m_ftb_q (callback c s) = m_ftb_q s"
  by (simp_all add: callback_def)

text \<open>The queues a loop empties and those it does not touch.\<close>

lemma drain_ftb_ctl: "drain_ftb P s = Some t \<Longrightarrow> ctl t = ctl s \<and> entries (m_ftb_q t) = [] \<and> m_etb_q t = m_etb_q s"
proof (induction P s t rule: drain_ftb_run)
  case (step drain P s t)
  show ?case
  proof (cases "pop_entry (m_ftb_q s)")
    case None
    then show ?thesis using step(2) None [unfolded pop_entry_None] by simp
  next
    case (Some x)
    then obtain m q where q: "pop_entry (m_ftb_q s) = Some (m, q)" by (cases x) auto
    let ?s = "s\<lparr>m_ftb_q := q\<rparr>"
    obtain u where u: "(case m of
        GENERATE_FTB p \<Rightarrow> do {
          let s = ?s\<lparr>pending_output_buffers := pending_output_buffers ?s + 1\<rparr>;
          b \<leftarrow> load_header (m_out_mem_ptr s) p;
          Some (callback (FillBufferDone (the p) (hdr b)) s)
        }
      | GENERATE_FBD p _ \<Rightarrow> map_option snd (fill_buffer_done P p ?s)
      | _ \<Rightarrow> Some ?s) = Some u" "drain P u = Some t"
      using step(2) q by (auto simp: Let_def split: bind_splits)
    have "m_etb_q v = m_etb_q w" if "fill_buffer_done P p w = Some (e, v)" for p e v w
      using book_fill_buffer_done [OF that] by (simp add: book_def)
    then have "ctl u = ctl ?s \<and> m_etb_q u = m_etb_q ?s"
      using u(1) by (cases m) (auto simp: Let_def ctl_simps ctl_buffer_done queues_callback split: bind_splits)
    then show ?thesis using step(1) [OF u(2)] by (simp add: ctl_simps)
  qed
qed

lemma drain_etb_ctl: "drain_etb s = Some t \<Longrightarrow> ctl t = ctl s \<and> entries (m_etb_q t) = [] \<and> m_ftb_q t = m_ftb_q s"
proof (induction s t rule: drain_etb.raw_induct [rotated, consumes 1, case_names step])
  case (step drain s t)
  show ?case
  proof (cases "pop_entry (m_etb_q s)")
    case None
    then show ?thesis using step(2) None [unfolded pop_entry_None] by simp
  next
    case (Some x)
    then obtain m q where q: "pop_entry (m_etb_q s) = Some (m, q)" by (cases x) auto
    let ?s = "s\<lparr>m_etb_q := q\<rparr>"
    obtain u where u: "(case m of
        GENERATE_ETB p \<Rightarrow> map_option snd
          (empty_buffer_done p (?s\<lparr>pending_input_buffers := pending_input_buffers ?s + 1\<rparr>))
      | GENERATE_EBD p _ \<Rightarrow> map_option snd (empty_buffer_done p ?s)
      | _ \<Rightarrow> Some ?s) = Some u" "drain u = Some t"
      using step(2) q by (auto simp: Let_def split: bind_splits)
    have "m_ftb_q v = m_ftb_q w" if "empty_buffer_done p w = Some (e, v)" for p e v w
      using that by (auto simp: empty_buffer_done_def Let_def callback_def store_in_def
          split: option.splits if_splits bind_splits)
    then have "ctl u = ctl ?s \<and> m_ftb_q u = m_ftb_q ?s"
      using u(1) by (cases m) (auto simp: ctl_simps ctl_buffer_done)
    then show ?thesis using step(1) [OF u(2)] by (simp add: ctl_simps)
  qed
qed

lemmas process_pending_run = process_pending.raw_induct
  [of "\<lambda>((P, q), s) t. Q P q s t" for Q, unfolded prod.case, rotated, consumes 1, case_names step]

lemma complete_pending_ctl: "complete_pending_buffer_done_cbs P s = Some t \<Longrightarrow> ctl t = ctl s"
proof -
  have pending: "process_pending P q s = Some t \<Longrightarrow> ctl t = ctl s" for q s
  proof (induction P q s t rule: process_pending_run)
    case (step drain P q s t)
    then show ?case
      by (fastforce simp: ctl_simps ctl_buffer_done split: option.splits prod.splits bind_splits vdec_msg.splits)
  qed
  assume "complete_pending_buffer_done_cbs P s = Some t"
  then obtain q f e where "process_pending P q (s\<lparr>m_ftb_q := f, m_etb_q := e\<rparr>) = Some t"
    by (auto simp: complete_pending_buffer_done_cbs_def Let_def split: bind_splits prod.splits)
  from pending [OF this] show ?thesis by (simp add: ctl_simps)
qed

text \<open>The flags are bits.\<close>

lemma present_bit: "k < 32 \<Longrightarrow> BITMASK_PRESENT w k \<longleftrightarrow> bit w k"
  by (simp add: BITMASK_PRESENT_def BITMASK_FLAG_def and_exp_eq_0_iff_not_bit)

lemma has_flag_set_clear:
  assumes "k < 32" "j < 32"
  shows "has_flag k (set_flag j s) \<longleftrightarrow> k = j \<or> has_flag k s"
    "has_flag k (clear_flag j s) \<longleftrightarrow> k \<noteq> j \<and> has_flag k s"
  using assms
  by (auto simp: has_flag_def set_flag_def clear_flag_def present_bit BITMASK_SET_def BITMASK_CLEAR_def
      BITMASK_FLAG_def bit_simps)

lemma idle_flag [simp]:
  "has_flag IDLE_PENDING (set_flag IDLE_PENDING s)" "\<not> has_flag IDLE_PENDING (clear_flag IDLE_PENDING s)"
  "has_flag IDLE_PENDING (clear_flag INPUT_FLUSH_PENDING s) \<longleftrightarrow> has_flag IDLE_PENDING s"
  "has_flag IDLE_PENDING (clear_flag OUTPUT_FLUSH_PENDING s) \<longleftrightarrow> has_flag IDLE_PENDING s"
  "has_flag IDLE_PENDING (clear_flag OUTPUT_FLUSH_IN_DISABLE_PENDING s) \<longleftrightarrow> has_flag IDLE_PENDING s"
  "has_flag IDLE_PENDING (clear_flag DISABLE_OUTPUT_DEFERRED s) \<longleftrightarrow> has_flag IDLE_PENDING s"
  by (simp_all add: has_flag_set_clear flag_positions)

lemma ctl_end_disable: "ctl (end_disable_flush s) = (case ctl s of (st, f, r) \<Rightarrow> (st, m_flags (end_disable_flush s), r))"
  by (simp add: end_disable_flush_def Let_def ctl_def clear_flag_def post_event_def stops_def completions_def)

lemma flag_post: "has_flag k (post_event m s) = has_flag k s"
  by (simp add: has_flag_def post_event_def split: vdec_msg.splits)

lemma idle_end_disable: "has_flag IDLE_PENDING (end_disable_flush s) = has_flag IDLE_PENDING s"
  by (simp add: end_disable_flush_def Let_def flag_post)

lemma queue_end_disable: "m_etb_q (end_disable_flush s) = m_etb_q s" "m_ftb_q (end_disable_flush s) = m_ftb_q s"
  by (simp_all add: end_disable_flush_def Let_def clear_flag_def)

lemma stop_requests:
  "stops (stop_if_idle_pending P c s) = stops s + (if has_flag IDLE_PENDING s \<and> \<not> c then 1 else 0)"
  "m_state (stop_if_idle_pending P c s) = m_state s" "m_flags (stop_if_idle_pending P c s) = m_flags s"
  "input_flush_progress (stop_if_idle_pending P c s) = input_flush_progress s"
  "output_flush_progress (stop_if_idle_pending P c s) = output_flush_progress s"
  "idle_completions (stop_if_idle_pending P c s) = idle_completions s"
  "m_etb_q (stop_if_idle_pending P c s) = m_etb_q s" "m_ftb_q (stop_if_idle_pending P c s) = m_ftb_q s"
  by (simp_all add: stop_if_idle_pending_def ioctl_def answer_def report_unless_def omx_report_error_def
      callback_def stops_def idle_completions_def)

lemma reset_fields:
  "m_state (reset_prev_ts s) = m_state s" "m_flags (reset_prev_ts s) = m_flags s"
  "input_flush_progress (reset_prev_ts s) = input_flush_progress s"
  "output_flush_progress (reset_prev_ts s) = output_flush_progress s" "stops (reset_prev_ts s) = stops s"
  "idle_completions (reset_prev_ts s) = idle_completions s"
  "m_etb_q (reset_prev_ts s) = m_etb_q s" "m_ftb_q (reset_prev_ts s) = m_ftb_q s"
  by (simp_all add: reset_prev_ts_def stops_def idle_completions_def)

lemma callback_fields:
  "m_flags (callback c s) = m_flags s" "input_flush_progress (callback c s) = input_flush_progress s"
  "output_flush_progress (callback c s) = output_flush_progress s" "stops (callback c s) = stops s"
  "c \<noteq> EventCmdComplete (StateSet StateIdle) \<Longrightarrow> idle_completions (callback c s) = idle_completions s"
  "has_flag k (callback c s) = has_flag k s"
  by (simp_all add: callback_def stops_def idle_completions_def has_flag_def)

lemma clear_fields:
  "input_flush_progress (clear_flag k s) = input_flush_progress s"
  "output_flush_progress (clear_flag k s) = output_flush_progress s" "stops (clear_flag k s) = stops s"
  "idle_completions (clear_flag k s) = idle_completions s" "m_etb_q (clear_flag k s) = m_etb_q s"
  "m_ftb_q (clear_flag k s) = m_ftb_q s"
  by (simp_all add: clear_flag_def stops_def idle_completions_def)

lemma idle_fields: "has_flag IDLE_PENDING s = BITMASK_PRESENT (m_flags s) IDLE_PENDING"
  by (simp add: has_flag_def)

lemma progress_fields:
  "m_state (s\<lparr>input_flush_progress := c\<rparr>) = m_state s" "stops (s\<lparr>input_flush_progress := c\<rparr>) = stops s"
  "idle_completions (s\<lparr>input_flush_progress := c\<rparr>) = idle_completions s"
  "stops (s\<lparr>output_flush_progress := c\<rparr>) = stops s"
  "idle_completions (s\<lparr>output_flush_progress := c\<rparr>) = idle_completions s"
  "stops (s\<lparr>time_stamp_dts := ts\<rparr>) = stops s" "idle_completions (s\<lparr>time_stamp_dts := ts\<rparr>) = idle_completions s"
  by (simp_all add: stops_def idle_completions_def)

lemma input_flush_effect:
  assumes "process_input_flush P VDEC_S_SUCCESS s = Some t" "input_flush_progress s"
  shows "m_state t = m_state s \<and> has_flag IDLE_PENDING t = has_flag IDLE_PENDING s \<and> \<not> input_flush_progress t \<and>
    output_flush_progress t = output_flush_progress s \<and> idle_completions t = idle_completions s \<and>
    stops t = stops s + (if has_flag IDLE_PENDING s \<and> \<not> output_flush_progress s then 1 else 0) \<and>
    entries (m_etb_q t) = [] \<and> m_ftb_q t = m_ftb_q s"
proof -
  obtain u where u: "drain_etb s = Some u"
    using assms by (auto simp: process_input_flush_def execute_input_flush_def split: bind_splits)
  define v where "v = reset_prev_ts (u\<lparr>time_stamp_dts := flush_timestamp (time_stamp_dts u), input_flush_progress := False\<rparr>)"
  define w where "w = (if has_flag INPUT_FLUSH_PENDING v
    then callback (EventCmdComplete (Flush InputPort)) (clear_flag INPUT_FLUSH_PENDING v) else v)"
  have t: "t = stop_if_idle_pending P (output_flush_progress w) w"
    using assms u unfolding v_def w_def
    by (auto simp: process_input_flush_def execute_input_flush_def Let_def split del: if_split)
  have "m_state u = m_state s \<and> m_flags u = m_flags s \<and> output_flush_progress u = output_flush_progress s \<and>
      stops u = stops s \<and> idle_completions u = idle_completions s \<and> entries (m_etb_q u) = [] \<and> m_ftb_q u = m_ftb_q s"
    using drain_etb_ctl [OF u] by (simp add: ctl_def idle_of_completions)
  then have v: "m_state v = m_state s \<and> m_flags v = m_flags s \<and> output_flush_progress v = output_flush_progress s \<and>
      stops v = stops s \<and> idle_completions v = idle_completions s \<and> entries (m_etb_q v) = [] \<and>
      m_ftb_q v = m_ftb_q s \<and> \<not> input_flush_progress v"
    by (simp add: v_def reset_fields progress_fields)
  have iv: "has_flag IDLE_PENDING v = has_flag IDLE_PENDING s" using v by (simp add: idle_fields)
  have "m_state w = m_state s \<and> output_flush_progress w = output_flush_progress s \<and>
      has_flag IDLE_PENDING w = has_flag IDLE_PENDING s \<and>
      stops w = stops s \<and> idle_completions w = idle_completions s \<and> entries (m_etb_q w) = [] \<and>
      m_ftb_q w = m_ftb_q s \<and> \<not> input_flush_progress w"
    using v iv by (simp add: w_def callback_fields clear_fields state_simps queues_callback)
  then show ?thesis by (simp add: t stop_requests idle_fields)
qed

lemma output_flush_effect:
  assumes "process_output_flush P VDEC_S_SUCCESS s = Some t" "output_flush_progress s"
  shows "m_state t = m_state s \<and> has_flag IDLE_PENDING t = has_flag IDLE_PENDING s \<and> \<not> output_flush_progress t \<and>
    input_flush_progress t = input_flush_progress s \<and> idle_completions t = idle_completions s \<and>
    stops t = stops s + (if has_flag IDLE_PENDING s \<and> \<not> input_flush_progress s then 1 else 0) \<and>
    entries (m_ftb_q t) = [] \<and> m_etb_q t = m_etb_q s"
proof -
  obtain u where u: "drain_ftb P s = Some u"
    using assms by (auto simp: process_output_flush_def execute_output_flush_def split: bind_splits)
  define v where "v = u\<lparr>output_flush_progress := False\<rparr>"
  define w where "w = (if has_flag OUTPUT_FLUSH_PENDING v
    then callback (EventCmdComplete (Flush OutputPort)) (clear_flag OUTPUT_FLUSH_PENDING v) else v)"
  define x where "x = end_disable_flush w"
  have t: "t = stop_if_idle_pending P (input_flush_progress x) x"
    using assms u unfolding v_def w_def x_def
    by (auto simp: process_output_flush_def execute_output_flush_def Let_def split del: if_split)
  have "m_state u = m_state s \<and> m_flags u = m_flags s \<and> input_flush_progress u = input_flush_progress s \<and>
      stops u = stops s \<and> idle_completions u = idle_completions s \<and> entries (m_ftb_q u) = [] \<and> m_etb_q u = m_etb_q s"
    using drain_ftb_ctl [OF u] by (simp add: ctl_def idle_of_completions)
  then have v: "m_state v = m_state s \<and> m_flags v = m_flags s \<and> input_flush_progress v = input_flush_progress s \<and>
      stops v = stops s \<and> idle_completions v = idle_completions s \<and> entries (m_ftb_q v) = [] \<and>
      m_etb_q v = m_etb_q s \<and> \<not> output_flush_progress v"
    by (simp add: v_def progress_fields)
  have iv: "has_flag IDLE_PENDING v = has_flag IDLE_PENDING s" using v by (simp add: idle_fields)
  have w: "m_state w = m_state s \<and> input_flush_progress w = input_flush_progress s \<and>
      has_flag IDLE_PENDING w = has_flag IDLE_PENDING s \<and>
      stops w = stops s \<and> idle_completions w = idle_completions s \<and> entries (m_ftb_q w) = [] \<and>
      m_etb_q w = m_etb_q s \<and> \<not> output_flush_progress w"
    using v iv by (simp add: w_def callback_fields clear_fields state_simps queues_callback)
  have "m_state x = m_state w \<and> input_flush_progress x = input_flush_progress w \<and>
      output_flush_progress x = output_flush_progress w \<and> stops x = stops w \<and> idle_completions x = idle_completions w"
    using ctl_end_disable [of w] by (simp add: ctl_def idle_of_completions x_def)
  then show ?thesis
    using w idle_end_disable [of w] queue_end_disable [of w] by (simp add: t stop_requests idle_fields x_def)
qed

text \<open>The command starts both flushes, and the stop is the reaction to the completion of the driver.\<close>

lemma idle_command_effect:
  assumes "m_state s = StateExecuting"
  shows "\<exists>t. process_msg P (GENERATE_COMMAND (StateSet StateIdle)) s = Some t \<and> m_state t = StateExecuting \<and>
    has_flag IDLE_PENDING t \<and> input_flush_progress t \<and> output_flush_progress t \<and>
    idle_completions t = idle_completions s \<and> stops t = stops s \<and> m_cmd_lock t = Suc (m_cmd_lock s)"
  using assms
  by (simp add: process_msg_def send_command_proxy_def command_proxy_def state_set_proxy_def from_executing_def
      flush_to_idle_def execute_omx_flush_def ioctl_def answer_def sem_post_def Let_def case_prod_beta)
    (simp add: set_flag_def stops_def idle_completions_def has_flag_def BITMASK_PRESENT_def BITMASK_SET_def
      BITMASK_FLAG_def IDLE_PENDING_def)

lemma stop_done_effect:
  assumes "process_stop_done P VDEC_S_SUCCESS s = Some t" "has_flag IDLE_PENDING s"
  shows "m_state t = StateIdle \<and> \<not> has_flag IDLE_PENDING t \<and> stops t = stops s \<and>
    idle_completions t = Suc (idle_completions s)"
proof -
  obtain u where u: "complete_pending_buffer_done_cbs P s = Some u"
    "t = (if has_flag IDLE_PENDING u then enter_state IDLE_PENDING StateIdle u else u)"
    using assms(1) by (auto simp: process_stop_done_def split: bind_splits)
  have c: "m_flags u = m_flags s" "stops u = stops s" "idle_completions u = idle_completions s"
    using complete_pending_ctl [OF u(1)] by (simp_all add: ctl_def idle_of_completions)
  then have "has_flag IDLE_PENDING u" using assms(2) by (simp add: has_flag_def)
  then have t: "t = callback (EventCmdComplete (StateSet StateIdle)) ((clear_flag IDLE_PENDING u)\<lparr>m_state := StateIdle\<rparr>)"
    using u(2) by (simp add: enter_state_def)
  have "\<not> has_flag IDLE_PENDING ((clear_flag IDLE_PENDING u)\<lparr>m_state := StateIdle\<rparr>)"
    using idle_flag(2) [of u] by (simp add: has_flag_def)
  then show ?thesis using c by (simp add: t callback_fields) (simp add: callback_def stops_def idle_completions_def clear_flag_def)
qed

lemma process_msg_ok:
  assumes "vdec_ok s" "cmd_msg_ok m"
  shows "\<exists>t. process_msg P m s = Some t \<and> vdec_ok t"
proof (cases "is_command m")
  case True
  then obtain cmd where "m = GENERATE_COMMAND cmd" by (cases m) (auto simp: is_command_def)
  then show ?thesis using keeps_send_command_proxy [of s P cmd] assms(1) by (auto simp: process_msg_def keeps_def)
next
  case False
  from returns_msg [OF assms(1) _ False, of P] assms show ?thesis
    by (auto simp: returns_def keeps_def msg_ok_def)
qed

text \<open>
  C7. The way from Executing to Idle: the command leaves the state alone and starts a flush of both
  ports; when the driver reports the two flushes, in either order, the driver is told to stop after
  the second one and exactly once, with nothing queued on either port any more; when it reports the
  stop, the component is in Idle and the command is completed to the client exactly once. Every step
  returns.
\<close>
theorem executing_to_idle:
  assumes "vdec_ok s" "m_state s = StateExecuting"
    "(m1, m2) = (EVENT_INPUT_FLUSH VDEC_S_SUCCESS, EVENT_OUTPUT_FLUSH VDEC_S_SUCCESS) \<or>
     (m1, m2) = (EVENT_OUTPUT_FLUSH VDEC_S_SUCCESS, EVENT_INPUT_FLUSH VDEC_S_SUCCESS)"
  shows "\<exists>a b c d. process_msg P (GENERATE_COMMAND (StateSet StateIdle)) s = Some a \<and>
    process_msg P m1 a = Some b \<and> process_msg P m2 b = Some c \<and>
    process_msg P (STOP_DONE VDEC_S_SUCCESS) c = Some d \<and>
    stops b = stops s \<and> stops c = Suc (stops s) \<and> stops d = Suc (stops s) \<and>
    entries (m_ftb_q c) = [] \<and> entries (m_etb_q c) = [] \<and>
    m_state c = StateExecuting \<and> idle_completions c = idle_completions s \<and>
    m_state d = StateIdle \<and> idle_completions d = Suc (idle_completions s)"
proof -
  obtain a where a: "process_msg P (GENERATE_COMMAND (StateSet StateIdle)) s = Some a" "m_state a = StateExecuting"
    "has_flag IDLE_PENDING a" "input_flush_progress a" "output_flush_progress a"
    "idle_completions a = idle_completions s" "stops a = stops s"
    using idle_command_effect [OF assms(2), of P] by blast
  have "vdec_ok a" using process_msg_ok [OF assms(1), of "GENERATE_COMMAND (StateSet StateIdle)" P] a(1)
    by (simp add: cmd_msg_ok_def)
  then obtain b where b: "process_msg P m1 a = Some b" "vdec_ok b"
    using process_msg_ok [of a m1 P] assms(3) by (auto simp: cmd_msg_ok_def)
  obtain c where c: "process_msg P m2 b = Some c" "vdec_ok c"
    using process_msg_ok [OF b(2), of m2 P] assms(3) by (auto simp: cmd_msg_ok_def)
  obtain d where d: "process_msg P (STOP_DONE VDEC_S_SUCCESS) c = Some d"
    using process_msg_ok [OF c(2), of "STOP_DONE VDEC_S_SUCCESS" P] by (auto simp: cmd_msg_ok_def)
  have "stops b = stops s \<and> stops c = Suc (stops s) \<and> entries (m_ftb_q c) = [] \<and> entries (m_etb_q c) = [] \<and>
      m_state c = StateExecuting \<and> idle_completions c = idle_completions s \<and> has_flag IDLE_PENDING c"
    using assms(3)
  proof
    assume m: "(m1, m2) = (EVENT_INPUT_FLUSH VDEC_S_SUCCESS, EVENT_OUTPUT_FLUSH VDEC_S_SUCCESS)"
    then have "process_input_flush P VDEC_S_SUCCESS a = Some b" "process_output_flush P VDEC_S_SUCCESS b = Some c"
      using b(1) c(1) by (simp_all add: process_msg_def)
    from input_flush_effect [OF this(1) a(4)] output_flush_effect [OF this(2)] a show ?thesis by simp
  next
    assume m: "(m1, m2) = (EVENT_OUTPUT_FLUSH VDEC_S_SUCCESS, EVENT_INPUT_FLUSH VDEC_S_SUCCESS)"
    then have "process_output_flush P VDEC_S_SUCCESS a = Some b" "process_input_flush P VDEC_S_SUCCESS b = Some c"
      using b(1) c(1) by (simp_all add: process_msg_def)
    from output_flush_effect [OF this(1) a(5)] input_flush_effect [OF this(2)] a show ?thesis by simp
  qed
  note bc = this
  from d have "process_stop_done P VDEC_S_SUCCESS c = Some d" by (simp add: process_msg_def)
  from stop_done_effect [OF this] bc a(1) b(1) c(1) d show ?thesis by auto
qed

theorem executing_to_idle_witness:
  "\<exists>a b c d. process_msg willing (GENERATE_COMMAND (StateSet StateIdle)) ready_vdec = Some a \<and>
    process_msg willing (EVENT_OUTPUT_FLUSH VDEC_S_SUCCESS) a = Some b \<and>
    process_msg willing (EVENT_INPUT_FLUSH VDEC_S_SUCCESS) b = Some c \<and>
    process_msg willing (STOP_DONE VDEC_S_SUCCESS) c = Some d \<and> m_state d = StateIdle"
proof -
  have "m_state ready_vdec = StateExecuting" by (simp add: ready_vdec_def)
  from executing_to_idle [OF sample_ok(2) this, of "EVENT_OUTPUT_FLUSH VDEC_S_SUCCESS"
      "EVENT_INPUT_FLUSH VDEC_S_SUCCESS" willing]
  show ?thesis by auto
qed

section \<open>Completions of port commands\<close>

lemma process_one_cmd:
  assumes "cmd_queue_ok (m_cmd_q s)" "entries (m_cmd_q s) = m # ms"
  shows "\<exists>q. process_one P s = process_msg P m (s\<lparr>m_cmd_q := q\<rparr>) \<and> entries q = ms \<and> cmd_queue_ok q"
  using pop_entry_spec [OF assms] by (auto simp: process_one_def next_msg_def)

text \<open>
  Enabling a port that needs no buffers completes the command twice: once for the port and once
  for the command.
\<close>
theorem port_command_completes_twice:
  assumes "vdec_ok s" "entries (m_cmd_q s) = []" "m_state s = StateLoaded" "\<not> has_flag IDLE_PENDING s"
    "p = InputPort \<or> p = OutputPort"
  shows "\<exists>t u. process_msg P (GENERATE_COMMAND (PortEnable p)) s = Some t \<and>
    process_one P t \<bind> process_one P = Some u \<and>
    callbacks u = callbacks s @ [EventCmdComplete (PortEnable p), EventCmdComplete (PortEnable p)]"
proof -
  have q: "cmd_queue_ok (m_cmd_q s)" "m_size (m_cmd_q s) = 0"
    using assms(1,2) by (simp_all add: vdec_ok_def frame_def entries_Nil)
  let ?m = "GENERATE_EVENT (CommandComplete (PortEnable p))"
  obtain s1 where s1: "snd (send_command_proxy P (PortEnable p) s) = sem_post (post_event ?m (post_event ?m s1))"
    "callbacks s1 = callbacks s" "m_cmd_q s1 = m_cmd_q s" "m_state s1 = StateLoaded"
    using assms(3-5)
    by (auto simp: send_command_proxy_def command_proxy_def port_enable_proxy_def covers_input_def covers_output_def
        enable_input_def enable_output_def accept_def Let_def has_flag_def)
  let ?t = "sem_post (post_event ?m (post_event ?m s1))"
  have "entries (enqueue ?m (m_cmd_q s)) = [?m]" "cmd_queue_ok (enqueue ?m (m_cmd_q s))"
    using enqueue_ok [OF q(1), of ?m] q(2) assms(2) by (simp_all add: OMX_CORE_CONTROL_CMDQ_SIZE_def)
  moreover from this have "m_size (enqueue ?m (m_cmd_q s)) = 1"
    by (metis One_nat_def length_Cons length_entries list.size(3))
  ultimately have e: "entries (m_cmd_q ?t) = [?m, ?m]" "cmd_queue_ok (m_cmd_q ?t)"
    by (simp_all add: sem_post_def cmd_msg_ok_def s1(3) enqueue_ok OMX_CORE_CONTROL_CMDQ_SIZE_def)
  have run: "process_msg P ?m v = Some (callback (EventCmdComplete (PortEnable p)) v)" for v
    by (simp add: process_msg_def process_generated_def complete_command_def)
  obtain q1 where q1: "process_one P ?t = Some (callback (EventCmdComplete (PortEnable p)) (?t\<lparr>m_cmd_q := q1\<rparr>))"
    "entries q1 = [?m]" "cmd_queue_ok q1"
    using process_one_cmd [OF e(2,1), of P] run by auto
  let ?u = "callback (EventCmdComplete (PortEnable p)) (?t\<lparr>m_cmd_q := q1\<rparr>)"
  have "m_cmd_q ?u = q1" by (simp add: callback_def)
  then obtain q2 where "process_one P ?u = Some (callback (EventCmdComplete (PortEnable p)) (?u\<lparr>m_cmd_q := q2\<rparr>))"
    using process_one_cmd [of ?u ?m "[]" P] q1(2,3) run by auto
  moreover have "callbacks ?t = callbacks s" by (simp add: sem_post_def post_event_def s1(2))
  moreover have "process_msg P (GENERATE_COMMAND (PortEnable p)) s = Some ?t" by (simp add: process_msg_def s1(1))
  ultimately show ?thesis using q1(1) by (auto simp: callback_def)
qed

theorem port_command_completes_twice_witness:
  "\<exists>t u. process_msg willing (GENERATE_COMMAND (PortEnable OutputPort)) loaded_vdec = Some t \<and>
    process_one willing t \<bind> process_one willing = Some u \<and>
    callbacks u = [EventCmdComplete (PortEnable OutputPort), EventCmdComplete (PortEnable OutputPort)]"
proof -
  have l: "m_flags loaded_vdec = 0" "callbacks loaded_vdec = []" by (simp_all add: loaded_vdec_def new_omx_vdec_def)
  then have "\<not> has_flag IDLE_PENDING loaded_vdec" by (simp add: has_flag_def BITMASK_PRESENT_def)
  from port_command_completes_twice [OF sample_ok(1) _ _ this, of OutputPort willing] l sample_queues
  show ?thesis by simp
qed

end
