(* ===== verification/VdecPush.thy ===== *)
theory VdecPush
  imports VdecBuffers FrameParser NalFrame H264Safe Mp4Header
begin

text \<open>
  The arbitrary byte mode of the decoder component (vdec/src/omx_vdec.cpp): the client's buffers are
  cut into frames by the frame splitter and the access unit detector, and each frame is handed to
  the driver in a buffer of the component (\<open>push_input_buffer\<close> and the functions it calls).

  The build is the one for the msm8660 (\<open>MAX_RES_1080P\<close>, \<open>PROCESS_EXTRADATA_IN_OUTPUT_PORT\<close>; vdec.mk); DivX does
  not use the mode.
\<close>

section \<open>State\<close>

text \<open>
  The fields of \<open>omx_vdec\<close> that the mode uses, next to the others (\<open>vd\<close>). \<open>m_inp_heap_ptr\<close> holds the
  client's headers, \<open>psource_frame\<close> and the pending queue refer to them; \<open>pdest_frame\<close> and the queue of
  free buffers refer to the headers of \<open>vd\<close>. A null \<open>pBuffer\<close> is the empty list. \<open>emptied\<close> are the
  \<open>EmptyBufferDone\<close> calls for the client's headers, \<open>submitted\<close> the frames the driver has accepted,
  with their time stamps.
\<close>

datatype vc1_profile_type = VC1_SP_MP_RCV | VC1_AP

record vdec_input =
  vd :: omx_vdec
  m_inp_heap_ptr :: "omx_buffer list"
  psource_frame :: header_ptr
  pdest_frame :: header_ptr
  m_input_pending_q :: "nat omx_cmd_queue"
  m_input_free_q :: "nat omx_cmd_queue"
  h264_scratch :: omx_buffer
  look_ahead_nal :: bool
  nal_count :: u32
  frame_count :: u32
  omx_nal_length :: nat
  h264_last_au_ts :: int
  h264_last_au_flags :: u32
  m_frame_parser :: frame_parse
  mutils :: "h264_utils option"
  h264_parser :: h264_parser
  first_frame :: bool
  m_vc1_profile :: vc1_profile_type
  m_vendor_config :: "u8 list option"
  emptied :: "nat list"
  submitted :: "(u8 list \<times> int) list"

definition BUFFERFLAG_EOS :: u32 where
  "BUFFERFLAG_EOS = 1"

definition load_source :: "vdec_input \<Rightarrow> omx_buffer option" where
  "load_source s = do {
     i \<leftarrow> psource_frame s;
     if i < length (m_inp_heap_ptr s) then Some (m_inp_heap_ptr s ! i) else None
   }"

definition store_source :: "omx_buffer \<Rightarrow> vdec_input \<Rightarrow> vdec_input" where
  "store_source h s = (case psource_frame s of
     Some i \<Rightarrow> s\<lparr>m_inp_heap_ptr := (m_inp_heap_ptr s)[i := h]\<rparr> | None \<Rightarrow> s)"

definition load_dest :: "vdec_input \<Rightarrow> omx_buffer option" where
  "load_dest s = map_option hdr (load_header (m_inp_mem_ptr (vd s)) (pdest_frame s))"

definition store_dest :: "omx_buffer \<Rightarrow> vdec_input \<Rightarrow> vdec_input" where
  "store_dest h s = (case load_header (m_inp_mem_ptr (vd s)) (pdest_frame s) of
     Some b \<Rightarrow> s\<lparr>vd := store_in (pdest_frame s) h b (vd s)\<rparr> | None \<Rightarrow> s)"

section \<open>A frame for the driver\<close>

text \<open>The state in front of the next stream, after an end of stream.\<close>

definition reset_framing :: "vdec_input \<Rightarrow> vdec_input" where
  "reset_framing s = s\<lparr>h264_scratch := (h264_scratch s)\<lparr>nFilledLen := 0\<rparr>, nal_count := 0, look_ahead_nal := False,
     frame_count := 0, mutils := map_option initialize_frame_checking_environment (mutils s),
     m_frame_parser := flush (m_frame_parser s), h264_last_au_ts := LLONG_MAX, h264_last_au_flags := 0\<rparr>"

text \<open>
  \<open>empty_this_buffer_proxy\<close> in this mode, for the header behind \<open>pdest_frame\<close>. Unlike the frame based mode
  it passes empty buffers on and does not return a buffer the driver refuses.
\<close>

definition submit_frame :: "platform \<Rightarrow> vdec_input \<Rightarrow> (OMX_ERRORTYPE \<times> vdec_input) option" where
  "submit_frame P s =
     (case pdest_frame s of
        None \<Rightarrow> Some (ErrorBadParameter, s)
      | Some i \<Rightarrow> do {
          b \<leftarrow> load_header (m_inp_mem_ptr (vd s)) (Some i);
          if \<not> pPortPrivate b \<or> i > actualcount (ip_buf (vd s)) then Some (ErrorBadParameter, s)
          else do {
            let s = s\<lparr>vd := (vd s)\<lparr>pending_input_buffers := pending_input_buffers (vd s) + 1\<rparr>\<rparr>;
            (not_coded_vop, h, v) \<leftarrow> check_vop (hdr b) (vd s);
            let s = s\<lparr>vd := v\<rparr>;
            if input_flush_progress (vd s) \<or> not_coded_vop then
              Some (ErrorNone, (store_dest h s)\<lparr>vd := post_event (GENERATE_EBD (Some i) VDEC_S_SUCCESS) (vd (store_dest h s))\<rparr>)
            else do {
              let h = h\<lparr>nFlags := nFlags h AND NOT (QOMX_VIDEO_BUFFERFLAG_EOSEQ P)\<rparr>;
              let s = store_dest h s;
              let s = (if nFilledLen h = 0 \<or> nFlags h AND BUFFERFLAG_EOS \<noteq> 0 then reset_framing s else s);
              bytes \<leftarrow> slice (nFilledLen h) h;
              let (ok, v) = ioctl P (DECODE_FRAME i) (vd s);
              let s = s\<lparr>vd := v\<rparr>;
              Some (if \<not> ok then (ErrorBadParameter, s)
                    else (ErrorNone, s\<lparr>vd := (vd s)\<lparr>time_stamp_dts := snd (insert_timestamp (Some h) (time_stamp_dts (vd s)))\<rparr>,
                                submitted := submitted s @ [(bytes, nTimeStamp h)]\<rparr>))
            }
          }
        })"

section \<open>Buffers of the queues\<close>

text \<open>The next free buffer, if there is one; \<open>init\<close> is what the caller writes into its header.\<close>

definition next_dest :: "(omx_buffer \<Rightarrow> omx_buffer) \<Rightarrow> vdec_input \<Rightarrow> vdec_input option" where
  "next_dest init s = (case pop_entry (m_input_free_q s) of
     None \<Rightarrow> Some s
   | Some (i, q) \<Rightarrow> do {
       let s = s\<lparr>pdest_frame := Some i, m_input_free_q := q\<rparr>;
       h \<leftarrow> load_dest s;
       Some (store_dest (init h) s)
     })"

definition next_source :: "vdec_input \<Rightarrow> vdec_input" where
  "next_source s = (case pop_entry (m_input_pending_q s) of
     None \<Rightarrow> s | Some (i, q) \<Rightarrow> s\<lparr>psource_frame := Some i, m_input_pending_q := q\<rparr>)"

definition return_source :: "vdec_input \<Rightarrow> vdec_input" where
  "return_source s = (case psource_frame s of
     Some i \<Rightarrow> next_source (s\<lparr>emptied := emptied s @ [i], psource_frame := None\<rparr>) | None \<Rightarrow> s)"

section \<open>Codecs with frame start codes\<close>

text \<open>A complete frame in the destination; \<open>psource_frame\<close> is the source after the splitter.\<close>

definition sc_frame :: "platform \<Rightarrow> omx_buffer \<Rightarrow> vdec_input \<Rightarrow> (OMX_ERRORTYPE \<times> vdec_input) option" where
  "sc_frame P src s = do {
     dst \<leftarrow> load_dest s;
     if frame_count s = 0 then do {
       mp4 \<leftarrow> (if codec_type_parse (vd s) = CODEC_TYPE_MPEG4
          then map_option snd (parse_header (drop (nOffset dst) (pBuffer dst)) (nFilledLen dst) (mp4_headerparser (vd s)))
          else Some (mp4_headerparser (vd s)));
       Some (ErrorNone, s\<lparr>vd := (vd s)\<lparr>mp4_headerparser := mp4\<rparr>, frame_count := frame_count s + 1\<rparr>)
     } else do {
       let dst = dst\<lparr>nFlags := nFlags dst AND NOT BUFFERFLAG_EOS\<rparr>;
       let s = store_dest dst s;
       if nFilledLen dst \<noteq> 0 then do {
         (e, s) \<leftarrow> submit_frame P s;
         if e \<noteq> ErrorNone then Some (ErrorBadParameter, s)
         else do {
           s \<leftarrow> next_dest (\<lambda>h. h\<lparr>nFilledLen := 0\<rparr>) (s\<lparr>frame_count := frame_count s + 1, pdest_frame := None\<rparr>);
           Some (ErrorNone, s)
         }
       }
       else if nFlags src AND BUFFERFLAG_EOS = 0 then
         Some (ErrorNone, s\<lparr>m_input_free_q := enqueue (the (pdest_frame s)) (m_input_free_q s), pdest_frame := None\<rparr>)
       else Some (ErrorNone, s)
     }
   }"

text \<open>
  The source is used up; at the end of the stream the last frame leaves with its flags. Here and below
  a \<open>frame_count++\<close> among the arguments of a log macro counts, too: the macro is empty, its arguments remain.
\<close>

definition sc_source_done :: "platform \<Rightarrow> omx_buffer \<Rightarrow> vdec_input \<Rightarrow> (OMX_ERRORTYPE \<times> vdec_input) option" where
  "sc_source_done P src s =
     (if nFlags src AND BUFFERFLAG_EOS \<noteq> 0 then
        (if pdest_frame s = None then Some (ErrorNone, s)
         else do {
           dst \<leftarrow> load_dest s;
           let s = store_dest (dst\<lparr>nFlags := nFlags dst OR nFlags src\<rparr>) s;
           (e, s) \<leftarrow> submit_frame P (s\<lparr>frame_count := frame_count s + 1\<rparr>);
           if e \<noteq> ErrorNone then Some (ErrorBadParameter, s)
           else Some (ErrorNone, return_source (s\<lparr>frame_count := frame_count s + 1, pdest_frame := None\<rparr>))
         })
      else Some (ErrorNone, return_source s))"

definition push_input_sc_codec :: "platform \<Rightarrow> vdec_input \<Rightarrow> (OMX_ERRORTYPE \<times> vdec_input) option" where
  "push_input_sc_codec P s = do {
     src \<leftarrow> load_source s;
     dst \<leftarrow> load_dest s;
     (r, partial_frame, p, src, dst) \<leftarrow> parse_sc_frame (m_frame_parser s) src dst 1;
     let s = store_dest dst (store_source src (s\<lparr>m_frame_parser := p\<rparr>));
     if r = - 1 then Some (ErrorBadParameter, s)
     else do {
       (e, s) \<leftarrow> (if partial_frame = 0 then sc_frame P src s
                  else Some (if nAllocLen dst = nFilledLen dst + nOffset dst then ErrorStreamCorrupt else ErrorNone, s));
       if e \<noteq> ErrorNone then Some (e, s)
       else if nFilledLen src = 0 then sc_source_done P src s
       else Some (ErrorNone, s)
     }
   }"

section \<open>H.264\<close>

text \<open>The room test of the four copies; the offset of the destination is ignored.\<close>

definition scratch_fits :: "omx_buffer \<Rightarrow> omx_buffer \<Rightarrow> bool" where
  "scratch_fits scratch dst \<longleftrightarrow>
     nFilledLen scratch \<le> nat ((int (nAllocLen dst) - int (nFilledLen dst)) mod 2 ^ 32)"

definition copy_scratch :: "omx_buffer \<Rightarrow> omx_buffer \<Rightarrow> omx_buffer option" where
  "copy_scratch scratch dst =
     (if nFilledLen scratch \<le> length (pBuffer scratch) \<and> nFilledLen dst + nFilledLen scratch \<le> length (pBuffer dst)
      then Some (dst\<lparr>pBuffer := overwrite (nFilledLen dst) (take (nFilledLen scratch) (pBuffer scratch)) (pBuffer dst),
                     nFilledLen := nFilledLen dst + nFilledLen scratch\<rparr>)
      else None)"

definition empty_scratch :: "vdec_input \<Rightarrow> vdec_input" where
  "empty_scratch s = s\<lparr>h264_scratch := (h264_scratch s)\<lparr>nFilledLen := 0\<rparr>\<rparr>"

text \<open>Scratch goes to the destination, if it fits.\<close>

definition append_scratch :: "(omx_buffer \<Rightarrow> omx_buffer) \<Rightarrow> vdec_input \<Rightarrow> (OMX_ERRORTYPE \<times> vdec_input) option" where
  "append_scratch f s = do {
     dst \<leftarrow> load_dest s;
     if scratch_fits (h264_scratch s) dst then do {
       dst \<leftarrow> copy_scratch (h264_scratch s) dst;
       Some (ErrorNone, empty_scratch (store_dest (f dst) s))
     } else Some (ErrorBadParameter, s)
   }"

text \<open>The NAL unit kept back by the previous call starts the next frame.\<close>

definition copy_look_ahead :: "vdec_input \<Rightarrow> (OMX_ERRORTYPE \<times> vdec_input) option" where
  "copy_look_ahead s =
     (if nFilledLen (h264_scratch s) \<noteq> 0 \<and> look_ahead_nal s
      then append_scratch id (s\<lparr>look_ahead_nal := False\<rparr>) else Some (ErrorNone, s))"

definition parse_source :: "vdec_input \<Rightarrow> (int \<times> nat \<times> vdec_input) option" where
  "parse_source s = do {
     src \<leftarrow> load_source s;
     (r, partial_frame, p, src, scratch) \<leftarrow>
       (if omx_nal_length s = 0 then parse_sc_frame (m_frame_parser s) src (h264_scratch s) 1
        else parse_h264_nallength (m_frame_parser s) src (h264_scratch s) 1);
     Some (r, partial_frame, store_source src (s\<lparr>m_frame_parser := p, h264_scratch := scratch\<rparr>))
   }"

text \<open>
  The NAL unit in the scratch buffer: its parameters are parsed, the detector decides whether it
  starts an access unit, and the frame takes over the time stamp of its first slice. \<open>raw\<close> is the
  indeterminate header of \<open>isNewFrame\<close>. The configuration has no \<open>OMX_FRAMEINFO_EXTRADATA\<close>.
\<close>

definition examine_nal :: "nalu \<Rightarrow> vdec_input \<Rightarrow> (bool \<times> vdec_input) option" where
  "examine_nal raw s =
     (let scratch = h264_scratch s
      in if nFilledLen scratch = 0 then Some (False, s)
         else do {
           parser \<leftarrow> parse_nal (take (nFilledLen scratch) (pBuffer scratch)) NALU_TYPE_SPS True (h264_parser s);
           ut \<leftarrow> mutils s;
           ((_, new), ut) \<leftarrow> is_new_frame (pBuffer scratch) (nFilledLen scratch) 0 raw ut;
           let s = s\<lparr>h264_parser := parser, mutils := Some ut, nal_count := nal_count s + 1\<rparr>;
           dst \<leftarrow> load_dest s;
           let s = (if VALID_TS (h264_last_au_ts s) \<and> \<not> VALID_TS (nTimeStamp dst)
                    then store_dest (dst\<lparr>nTimeStamp := h264_last_au_ts s, nFlags := h264_last_au_flags s\<rparr>) s else s);
           Some (new, if last_nalu_type ut = 1 \<or> last_nalu_type ut = 5
             then s\<lparr>h264_last_au_ts := nTimeStamp scratch, h264_last_au_flags := nFlags scratch\<rparr>
             else s\<lparr>h264_last_au_ts := LLONG_MAX\<rparr>)
         })"

definition end_of_sequence :: "platform \<Rightarrow> vdec_input \<Rightarrow> omx_buffer \<Rightarrow> omx_buffer" where
  "end_of_sequence P s dst =
     (case mutils s of
        Some ut \<Rightarrow> if last_nalu_type ut = 10
          then dst\<lparr>nFlags := nFlags dst OR QOMX_VIDEO_BUFFERFLAG_EOSEQ P\<rparr> else dst
      | None \<Rightarrow> dst)"

text \<open>
  A NAL unit that starts an access unit: the frame before it leaves and the unit stays behind in
  the scratch buffer; without a frame before it, the unit is copied.
\<close>

definition start_frame :: "platform \<Rightarrow> vdec_input \<Rightarrow> (OMX_ERRORTYPE \<times> vdec_input) option" where
  "start_frame P s = do {
     let s = s\<lparr>look_ahead_nal := True, frame_count := frame_count s + 1\<rparr>;
     dst \<leftarrow> load_dest s;
     if nFilledLen dst = 0 then append_scratch id (s\<lparr>look_ahead_nal := False\<rparr>)
     else do {
       (e, s) \<leftarrow> submit_frame P (store_dest (dst\<lparr>nFlags := nFlags dst AND NOT BUFFERFLAG_EOS\<rparr>) s);
       if e \<noteq> ErrorNone then Some (ErrorBadParameter, s)
       else do {
         s \<leftarrow> next_dest (\<lambda>h. h\<lparr>nFilledLen := 0, nFlags := 0, nTimeStamp := LLONG_MAX\<rparr>) (s\<lparr>pdest_frame := None\<rparr>);
         Some (ErrorNone, s)
       }
     }
   }"

definition complete_nal :: "platform \<Rightarrow> nalu \<Rightarrow> vdec_input \<Rightarrow> (OMX_ERRORTYPE \<times> vdec_input) option" where
  "complete_nal P raw s =
     (if nal_count s = 0 \<and> nFilledLen (h264_scratch s) = 0 then do {
        src \<leftarrow> load_source s;
        Some (ErrorNone, s\<lparr>nal_count := nal_count s + 1,
          h264_scratch := (h264_scratch s)\<lparr>nTimeStamp := nTimeStamp src, nFlags := nFlags src\<rparr>\<rparr>)
      } else do {
        (new, s) \<leftarrow> examine_nal raw s;
        if \<not> new then append_scratch (end_of_sequence P s) s
        else if nFilledLen (h264_scratch s) \<noteq> 0 then start_frame P s
        else Some (ErrorNone, s)
      })"

text \<open>
  The last buffer of the stream. The boolean is \<open>generate_ebd\<close>: if the scratch buffer holds a frame of
  its own, the source stays for another round, which the return of the buffer starts.
\<close>

definition push_last :: "platform \<Rightarrow> nalu \<Rightarrow> omx_buffer \<Rightarrow> vdec_input \<Rightarrow> (OMX_ERRORTYPE \<times> bool \<times> vdec_input) option" where
  "push_last P raw src s =
     (if pdest_frame s = None then Some (ErrorNone, False, s)
      else do {
        dst \<leftarrow> load_dest s;
        if \<not> scratch_fits (h264_scratch s) dst then Some (ErrorBadParameter, True, s)
        else do {
          (generate_ebd, s) \<leftarrow>
            (if nFilledLen dst = 0 then do {
               (_, s) \<leftarrow> append_scratch (\<lambda>h. h\<lparr>nTimeStamp := nTimeStamp (h264_scratch s)\<rparr>) s;
               Some (True, s)
             } else do {
               ut \<leftarrow> mutils s;
               ((_, new), ut) \<leftarrow> is_new_frame (pBuffer (h264_scratch s)) (nFilledLen (h264_scratch s)) 0 raw ut;
               let s = s\<lparr>mutils := Some ut\<rparr>;
               if \<not> new then do {
                 (_, s) \<leftarrow> append_scratch (\<lambda>h. h\<lparr>nTimeStamp := h264_last_au_ts s\<rparr>) s;
                 Some (True, s)
               } else Some (False,
                 (store_dest (dst\<lparr>nTimeStamp := h264_last_au_ts s\<rparr>) s)\<lparr>h264_last_au_ts := nTimeStamp (h264_scratch s)\<rparr>)
             });
          dst \<leftarrow> load_dest s;
          let s = (if generate_ebd
                   then store_dest (dst\<lparr>nFlags := nFlags (h264_scratch s) OR nFlags src\<rparr>) s else s);
          (e, s) \<leftarrow> submit_frame P (s\<lparr>frame_count := frame_count s + 1\<rparr>);
          if e \<noteq> ErrorNone then Some (ErrorBadParameter, generate_ebd, s)
          else Some (ErrorNone, generate_ebd, s\<lparr>frame_count := frame_count s + 1, pdest_frame := None\<rparr>)
        }
      })"

text \<open>One NAL unit: the unit kept back, the next unit of the source, and what becomes of it.\<close>

definition h264_unit :: "platform \<Rightarrow> nalu \<Rightarrow> vdec_input \<Rightarrow> (OMX_ERRORTYPE \<times> vdec_input) option" where
  "h264_unit P raw s = do {
     (e, s) \<leftarrow> copy_look_ahead s;
     if e \<noteq> ErrorNone then Some (e, s)
     else do {
       (r, partial_frame, s) \<leftarrow> parse_source s;
       if r = - 1 then Some (ErrorBadParameter, s)
       else if partial_frame = 0 then complete_nal P raw s
       else let scratch = h264_scratch s
            in Some (if nAllocLen scratch = nFilledLen scratch + nOffset scratch
                     then ErrorStreamCorrupt else ErrorNone, s)
     }
   }"

text \<open>The end of a call: a source without bytes goes back to the client.\<close>

definition h264_source_done :: "platform \<Rightarrow> nalu \<Rightarrow> vdec_input \<Rightarrow> (OMX_ERRORTYPE \<times> vdec_input) option" where
  "h264_source_done P raw s = do {
     src \<leftarrow> load_source s;
     (e, generate_ebd, s) \<leftarrow>
       (if nFilledLen src = 0 \<and> nFlags src AND BUFFERFLAG_EOS \<noteq> 0
        then push_last P raw src s else Some (ErrorNone, True, s));
     Some (e, if e = ErrorNone \<and> generate_ebd \<and> nFilledLen src = 0 then return_source s else s)
   }"

definition push_input_h264 :: "platform \<Rightarrow> nalu \<Rightarrow> vdec_input \<Rightarrow> (OMX_ERRORTYPE \<times> vdec_input) option" where
  "push_input_h264 P raw s =
     (if pBuffer (h264_scratch s) = [] then Some (ErrorBadParameter, s)
      else do {
        (e, s) \<leftarrow> h264_unit P raw s;
        if e \<noteq> ErrorNone then Some (e, s) else h264_source_done P raw s
      })"

section \<open>VC1\<close>

text \<open>The first four bytes as the little-endian word the processor loads.\<close>

definition first_word :: "omx_buffer \<Rightarrow> u32 option" where
  "first_word h = (case pBuffer h of
     a # b # c # d # _ \<Rightarrow> Some (ucast a OR push_bit 8 (ucast b) OR push_bit 16 (ucast c) OR push_bit 24 (ucast d))
   | _ \<Rightarrow> None)"

definition vc1_first_frame :: "vdec_input \<Rightarrow> (OMX_ERRORTYPE \<times> vdec_input) option" where
  "vc1_first_frame s =
     (let s = s\<lparr>first_frame := True\<rparr>
      in case m_vendor_config s of
           None \<Rightarrow> do {
             src \<leftarrow> load_source s;
             w \<leftarrow> first_word src;
             Some (if w AND 0xFF000000 = 0xC5000000 then (ErrorNone, s\<lparr>m_vc1_profile := VC1_SP_MP_RCV\<rparr>)
                   else if w AND 0x0F010000 \<noteq> 0 then (ErrorNone, s\<lparr>m_vc1_profile := VC1_AP\<rparr>)
                   else (ErrorStreamCorrupt, s))
           }
         | Some config \<Rightarrow> do {
             dst \<leftarrow> load_dest s;
             if room dst < length config then Some (ErrorBadParameter, s)
             else do {
               dst \<leftarrow> emit config dst;
               Some (ErrorNone, store_dest dst s)
             }
           })"

definition push_input_vc1 :: "platform \<Rightarrow> vdec_input \<Rightarrow> (OMX_ERRORTYPE \<times> vdec_input) option" where
  "push_input_vc1 P s = do {
     (e, s) \<leftarrow> (if first_frame s then Some (ErrorNone, s) else vc1_first_frame s);
     if e \<noteq> ErrorNone then Some (e, s)
     else (case m_vc1_profile s of
        VC1_AP \<Rightarrow> do {
          (e, s) \<leftarrow> push_input_sc_codec P s;
          Some (if e \<noteq> ErrorNone then ErrorBadParameter else ErrorNone, s)
        }
      | VC1_SP_MP_RCV \<Rightarrow> Some (ErrorBadParameter, s))
   }"

section \<open>The loop\<close>

definition push_one :: "platform \<Rightarrow> nalu \<Rightarrow> vdec_input \<Rightarrow> (OMX_ERRORTYPE \<times> vdec_input) option" where
  "push_one P raw s =
     (case codec_type_parse (vd s) of
        CODEC_TYPE_H264 \<Rightarrow> push_input_h264 P raw s
      | CODEC_TYPE_VC1 \<Rightarrow> push_input_vc1 P s
      | _ \<Rightarrow> push_input_sc_codec P s)"

partial_function (option) push_loop ::
  "platform \<Rightarrow> nalu \<Rightarrow> OMX_ERRORTYPE \<Rightarrow> vdec_input \<Rightarrow> (OMX_ERRORTYPE \<times> vdec_input) option" where
  "push_loop P raw ret s =
     (if pdest_frame s \<noteq> None \<and> psource_frame s \<noteq> None then do {
        (ret, s) \<leftarrow> push_one P raw s;
        if ret \<noteq> ErrorNone then Some (ret, s\<lparr>vd := omx_report_error (vd s)\<rparr>)
        else push_loop P raw ret s
      } else Some (ret, s))"

definition push_input_buffer :: "platform \<Rightarrow> nalu \<Rightarrow> vdec_input \<Rightarrow> (OMX_ERRORTYPE \<times> vdec_input) option" where
  "push_input_buffer P raw s = do {
     s \<leftarrow> (if pdest_frame s = None
          then next_dest (\<lambda>h. h\<lparr>nFilledLen := 0, nTimeStamp := LLONG_MAX\<rparr>) s else Some s);
     let s = (if psource_frame s = None then next_source s else s);
     push_loop P raw ErrorNone s
   }"

section \<open>Buffers that come and go\<close>

definition empty_this_buffer_proxy_arbitrary ::
  "platform \<Rightarrow> nalu \<Rightarrow> header_ptr \<Rightarrow> vdec_input \<Rightarrow> (OMX_ERRORTYPE \<times> vdec_input) option" where
  "empty_this_buffer_proxy_arbitrary P raw buffer s =
     (case buffer of
        None \<Rightarrow> Some (ErrorBadParameter, s)
      | Some i \<Rightarrow> do {
          h \<leftarrow> load_source (s\<lparr>psource_frame := Some i\<rparr>);
          if input_flush_progress (vd s) \<or> nFilledLen h = 0 \<and> nFlags h AND BUFFERFLAG_EOS = 0 then
            Some (ErrorNone, s\<lparr>emptied := emptied s @ [i]\<rparr>)
          else if psource_frame s = None then do {
            (_, s) \<leftarrow> push_input_buffer P raw (s\<lparr>psource_frame := Some i\<rparr>);
            Some (ErrorNone, s)
          }
          else Some (case insert_entry i (m_input_pending_q s) of
                 None \<Rightarrow> (ErrorBadParameter, s)
               | Some q \<Rightarrow> (ErrorNone, s\<lparr>m_input_pending_q := q\<rparr>))
        })"

text \<open>\<open>empty_buffer_done\<close> in this mode: the buffer takes the next frame, or is free.\<close>

definition buffer_done_arbitrary :: "platform \<Rightarrow> nalu \<Rightarrow> header_ptr \<Rightarrow> vdec_input \<Rightarrow> (OMX_ERRORTYPE \<times> vdec_input) option" where
  "buffer_done_arbitrary P raw buffer s =
     (case buffer of
        None \<Rightarrow> Some (ErrorBadParameter, s)
      | Some i \<Rightarrow>
          if i > actualcount (ip_buf (vd s)) then Some (ErrorBadParameter, s)
          else do {
            b \<leftarrow> load_header (m_inp_mem_ptr (vd s)) buffer;
            let v = (vd s)\<lparr>pending_input_buffers := pending_input_buffers (vd s) - 1\<rparr>;
            if pdest_frame s = None \<and> \<not> input_flush_progress v then do {
              let v = store_in buffer ((hdr b)\<lparr>nFilledLen := 0, nTimeStamp := LLONG_MAX\<rparr>) b v;
              (_, s) \<leftarrow> push_input_buffer P raw (s\<lparr>vd := v, pdest_frame := buffer\<rparr>);
              Some (ErrorNone, s)
            } else
              Some (ErrorNone, s\<lparr>vd := store_in buffer ((hdr b)\<lparr>nFilledLen := 0\<rparr>) b v,
                m_input_free_q := enqueue i (m_input_free_q s)\<rparr>)
          })"

text \<open>The part of \<open>execute_input_flush\<close> for this mode, behind the return of the queued buffers.\<close>

partial_function (option) return_pending :: "vdec_input \<Rightarrow> vdec_input option" where
  "return_pending s = (case pop_entry (m_input_pending_q s) of
     None \<Rightarrow> Some s
   | Some (i, q) \<Rightarrow> return_pending (s\<lparr>m_input_pending_q := q, emptied := emptied s @ [i]\<rparr>))"

definition flush_arbitrary :: "vdec_input \<Rightarrow> vdec_input option" where
  "flush_arbitrary s =
     (if codec_config_flag (vd s) then Some s
      else do {
        s \<leftarrow> return_pending (s\<lparr>h264_scratch := (h264_scratch s)\<lparr>nFilledLen := 0\<rparr>, nal_count := 0, look_ahead_nal := False,
          frame_count := 0, h264_last_au_ts := LLONG_MAX, h264_last_au_flags := 0,
          mutils := map_option initialize_frame_checking_environment (mutils s)\<rparr>);
        let s = (case psource_frame s of
            Some i \<Rightarrow> s\<lparr>emptied := emptied s @ [i], psource_frame := None\<rparr> | None \<Rightarrow> s);
        s \<leftarrow> (case pdest_frame s of
            None \<Rightarrow> Some s
          | Some i \<Rightarrow> do {
              h \<leftarrow> load_dest s;
              let s = store_dest (h\<lparr>nFilledLen := 0\<rparr>) s;
              Some (s\<lparr>m_input_free_q := enqueue i (m_input_free_q s), pdest_frame := None\<rparr>)
            });
        Some (s\<lparr>m_frame_parser := flush (m_frame_parser s)\<rparr>)
      })"

end
