(* ===== verification/VdecFrames.thy ===== *)
theory VdecFrames
  imports VdecPush
begin

text \<open>
  What the arbitrary byte mode makes of an H.264 stream with NAL length fields: one call of
  \<open>push_input_h264\<close> per NAL unit assembles the frames that the abstract machine \<open>take_unit\<close> describes,
  and a stream of access units reaches the driver as one frame per access unit.
\<close>

section \<open>The detector looks at the unit only\<close>

lemma mem_at_append: "i < length xs \<Longrightarrow> mem_at (xs @ ys) i = mem_at xs i"
  by (simp add: mem_at_def nth_append)

lemma start_code_search_append:
  "n \<le> length xs \<Longrightarrow> start_code_search (xs @ ys) n pos a b = start_code_search xs n pos a b"
proof (induction xs n pos a b rule: start_code_search.induct)
  case (1 xs n pos a b)
  show ?case
  proof (cases "n \<le> pos")
    case True
    then show ?thesis by (simp add: start_code_search.simps)
  next
    case False
    then have m: "mem_at (xs @ ys) pos = Some (xs ! pos)" "mem_at xs pos = Some (xs ! pos)"
      using "1.prems" by (simp_all add: mem_at_def nth_append)
    show ?thesis
      using False m "1.IH" [OF False, of "xs ! pos"] "1.prems"
      by (simp add: start_code_search.simps [of _ n pos])
  qed
qed

lemma rbsp_copy_append:
  "n \<le> length xs \<Longrightarrow> rbsp_copy (xs @ ys) sc n pos z rbsp l = rbsp_copy xs sc n pos z rbsp l"
proof (induction "n - pos" arbitrary: pos z rbsp l)
  case 0
  then show ?case by (simp add: rbsp_copy.simps)
next
  case (Suc k)
  then have "pos < length xs" by linarith
  then have m: "mem_at (xs @ ys) pos = Some (xs ! pos)" "mem_at xs pos = Some (xs ! pos)" "k = n - Suc pos"
    using Suc by (simp_all add: mem_at_def nth_append)
  show ?case
    using m Suc.hyps(1) [OF m(3) Suc.prems]
    by (subst (1 2) rbsp_copy.simps) (simp add: Let_def)
qed

lemma extract_rbsp_append:
  assumes "2 \<le> length xs"
  shows "extract_rbsp (xs @ ys) (length xs) 0 rbsp l raw = extract_rbsp xs (length xs) 0 rbsp l raw"
proof -
  have "mem_at (xs @ ys) 0 = mem_at xs 0" "mem_at (xs @ ys) 1 = mem_at xs 1"
    using assms by (intro mem_at_append; linarith)+
  then show ?thesis
    by (auto simp: extract_rbsp_def Let_def start_code_search_append rbsp_copy_append mem_at_append
        split: option.split intro!: Option.bind_cong)
qed

lemma is_new_frame_append:
  "2 \<le> length xs \<Longrightarrow> is_new_frame (xs @ ys) (length xs) 0 raw ut = is_new_frame xs (length xs) 0 raw ut"
  by (simp add: is_new_frame_def extract_rbsp_append)

section \<open>The abstract machine\<close>

text \<open>
  The frames that have left, the frame under construction and the unit kept back. The pair is a NAL
  unit and the answer of the detector. A frame larger than \<open>cap\<close> is an overflow.
\<close>

type_synonym assembly = "u8 list list \<times> u8 list \<times> u8 list"

fun take_unit :: "nat \<Rightarrow> u8 list \<times> bool \<Rightarrow> assembly \<Rightarrow> assembly option" where
  "take_unit cap (unit, new) (frames, cur, kept) =
     (let cur = cur @ kept
      in if length cur > cap then None
         else if new \<and> cur \<noteq> [] then Some (frames @ [cur], [], unit)
         else if length (cur @ unit) > cap then None
         else Some (frames, cur @ unit, []))"

fun take_units :: "nat \<Rightarrow> (u8 list \<times> bool) list \<Rightarrow> assembly \<Rightarrow> assembly option" where
  "take_units cap [] a = Some a"
| "take_units cap (x # xs) a = Option.bind (take_unit cap x a) (take_units cap xs)"

text \<open>The answers of the detector along a sequence of units, with the state of the parser and the detector.\<close>

fun detections ::
  "nalu \<Rightarrow> u8 list list \<Rightarrow> h264_parser \<times> h264_utils \<Rightarrow> (bool list \<times> h264_parser \<times> h264_utils) option" where
  "detections raw [] (ps, ut) = Some ([], ps, ut)"
| "detections raw (n # ns) (ps, ut) = do {
     ps \<leftarrow> parse_nal n NALU_TYPE_SPS True ps;
     ((_, new), ut) \<leftarrow> is_new_frame n (length n) 0 raw ut;
     (fs, r) \<leftarrow> detections raw ns (ps, ut);
     Some (new # fs, r)
   }"

section \<open>The state between two calls\<close>

definition whole_buffer :: "nat \<Rightarrow> omx_buffer \<Rightarrow> bool" where
  "whole_buffer cap h \<longleftrightarrow> buf_ok h \<and> nOffset h = 0 \<and> nAllocLen h = cap"

definition headers_ok :: "nat \<Rightarrow> vdec_input \<Rightarrow> bool" where
  "headers_ok cap s \<longleftrightarrow> (\<exists>bs i. m_inp_mem_ptr (vd s) = Some bs \<and> pdest_frame s = Some i \<and> i < length bs
     \<and> length bs \<le> actualcount (ip_buf (vd s)) \<and> cmd_queue_ok (m_input_free_q s)
     \<and> (\<forall>j \<in> set (entries (m_input_free_q s)). j < length bs)
     \<and> (\<forall>b \<in> set bs. pPortPrivate b \<and> whole_buffer cap (hdr b)))"

definition parts_ok :: "nat \<Rightarrow> nat \<Rightarrow> nat \<Rightarrow> vdec_input \<Rightarrow> bool" where
  "parts_ok cap m k s \<longleftrightarrow> headers_ok cap s \<and> codec_type_parse (vd s) = CODEC_TYPE_H264 \<and> omx_nal_length s = k
     \<and> unit_start (m_frame_parser s) k \<and> \<not> input_flush_progress (vd s) \<and> whole_buffer m (h264_scratch s)"

definition framing_ok :: "nat \<Rightarrow> nat \<Rightarrow> nat \<Rightarrow> vdec_input \<Rightarrow> bool" where
  "framing_ok cap m k s \<longleftrightarrow> parts_ok cap m k s \<and> (look_ahead_nal s \<longleftrightarrow> nFilledLen (h264_scratch s) \<noteq> 0)"

definition assembled :: "vdec_input \<Rightarrow> assembly" where
  "assembled s = (map fst (submitted s), (case load_dest s of Some h \<Rightarrow> data h | None \<Rightarrow> []), data (h264_scratch s))"

text \<open>The source and what the client has got back are not touched within a unit.\<close>

definition source_side :: "vdec_input \<Rightarrow> (omx_buffer option \<times> header_ptr \<times> nat omx_cmd_queue \<times> nat list)" where
  "source_side s = (load_source s, psource_frame s, m_input_pending_q s, emptied s)"

lemma whole_empty: "whole_buffer cap h \<Longrightarrow> whole_buffer cap (h\<lparr>nFilledLen := 0\<rparr>) \<and> data (h\<lparr>nFilledLen := 0\<rparr>) = []"
  by (simp add: whole_buffer_def buf_ok_def data_def)

lemma whole_flags [simp]:
  "whole_buffer cap (h\<lparr>nFlags := f\<rparr>) = whole_buffer cap h" "whole_buffer cap (h\<lparr>nTimeStamp := t\<rparr>) = whole_buffer cap h"
  "data (h\<lparr>nFlags := f\<rparr>) = data h" "data (h\<lparr>nTimeStamp := t\<rparr>) = data h"
  by (simp_all add: whole_buffer_def buf_ok_def data_def)

lemma whole_data: "whole_buffer cap h \<Longrightarrow> data h = take (nFilledLen h) (pBuffer h) \<and> length (data h) = nFilledLen h"
  using length_data [of h] by (simp add: whole_buffer_def data_def)

lemma whole_nonempty: "whole_buffer cap h \<Longrightarrow> nFilledLen h = 0 \<longleftrightarrow> data h = []"
  using whole_data [of cap h] by auto

text \<open>The header behind \<open>pdest_frame\<close>.\<close>

lemma headers_load:
  assumes "headers_ok cap s"
  obtains h where "load_dest s = Some h" "whole_buffer cap h"
proof -
  from assms obtain bs i where b: "m_inp_mem_ptr (vd s) = Some bs" "pdest_frame s = Some i" "i < length bs"
    "\<forall>b \<in> set bs. pPortPrivate b \<and> whole_buffer cap (hdr b)"
    by (auto simp: headers_ok_def)
  have "bs ! i \<in> set bs" using b(3) by simp
  then show thesis using that [of "hdr (bs ! i)"] b by (simp add: load_dest_def load_header_def)
qed

lemma load_source_upd [simp]:
  "load_source (s\<lparr>vd := v\<rparr>) = load_source s" "load_source (s\<lparr>h264_scratch := h\<rparr>) = load_source s"
  "load_source (s\<lparr>look_ahead_nal := b\<rparr>) = load_source s" "load_source (s\<lparr>m_frame_parser := p\<rparr>) = load_source s"
  "load_source (s\<lparr>m_input_free_q := q\<rparr>) = load_source s" "load_source (s\<lparr>nal_count := n\<rparr>) = load_source s"
  "load_source (s\<lparr>frame_count := n\<rparr>) = load_source s" "load_source (s\<lparr>mutils := ut\<rparr>) = load_source s"
  "load_source (s\<lparr>h264_parser := w\<rparr>) = load_source s" "load_source (s\<lparr>pdest_frame := d\<rparr>) = load_source s"
  "load_source (s\<lparr>submitted := f\<rparr>) = load_source s" "load_source (s\<lparr>h264_last_au_ts := ts\<rparr>) = load_source s"
  "load_source (s\<lparr>h264_last_au_flags := fl\<rparr>) = load_source s"
  by (simp_all add: load_source_def cong: if_cong)

lemma dest_upd [simp]:
  "headers_ok cap (s\<lparr>h264_scratch := h\<rparr>) = headers_ok cap s"
  "headers_ok cap (s\<lparr>look_ahead_nal := b\<rparr>) = headers_ok cap s"
  "headers_ok cap (s\<lparr>m_frame_parser := p\<rparr>) = headers_ok cap s"
  "headers_ok cap (s\<lparr>nal_count := n\<rparr>) = headers_ok cap s"
  "headers_ok cap (s\<lparr>frame_count := n\<rparr>) = headers_ok cap s"
  "headers_ok cap (s\<lparr>mutils := ut\<rparr>) = headers_ok cap s"
  "headers_ok cap (s\<lparr>h264_parser := w\<rparr>) = headers_ok cap s"
  "headers_ok cap (s\<lparr>submitted := f\<rparr>) = headers_ok cap s"
  "headers_ok cap (s\<lparr>h264_last_au_ts := ts\<rparr>) = headers_ok cap s"
  "headers_ok cap (s\<lparr>h264_last_au_flags := fl\<rparr>) = headers_ok cap s"
  "load_dest (s\<lparr>h264_scratch := h\<rparr>) = load_dest s"
  "load_dest (s\<lparr>look_ahead_nal := b\<rparr>) = load_dest s"
  "load_dest (s\<lparr>m_frame_parser := p\<rparr>) = load_dest s"
  "load_dest (s\<lparr>nal_count := n\<rparr>) = load_dest s"
  "load_dest (s\<lparr>frame_count := n\<rparr>) = load_dest s"
  "load_dest (s\<lparr>mutils := ut\<rparr>) = load_dest s"
  "load_dest (s\<lparr>h264_parser := w\<rparr>) = load_dest s"
  "load_dest (s\<lparr>submitted := f\<rparr>) = load_dest s"
  "load_dest (s\<lparr>h264_last_au_ts := ts\<rparr>) = load_dest s"
  "load_dest (s\<lparr>h264_last_au_flags := fl\<rparr>) = load_dest s"
  by (simp_all add: headers_ok_def load_dest_def)

lemma store_dest_frame [simp]:
  "source_side (store_dest h s) = source_side s" "submitted (store_dest h s) = submitted s"
  "h264_scratch (store_dest h s) = h264_scratch s" "look_ahead_nal (store_dest h s) = look_ahead_nal s"
  "pdest_frame (store_dest h s) = pdest_frame s" "m_input_free_q (store_dest h s) = m_input_free_q s"
  "m_frame_parser (store_dest h s) = m_frame_parser s" "codec_type_parse (vd (store_dest h s)) = codec_type_parse (vd s)"
  "omx_nal_length (store_dest h s) = omx_nal_length s" "mutils (store_dest h s) = mutils s"
  "h264_parser (store_dest h s) = h264_parser s" "nal_count (store_dest h s) = nal_count s" "frame_count (store_dest h s) = frame_count s"
  "input_flush_progress (vd (store_dest h s)) = input_flush_progress (vd s)"
  "ip_buf (vd (store_dest h s)) = ip_buf (vd s)"
  "h264_last_au_ts (store_dest h s) = h264_last_au_ts s"
  "h264_last_au_flags (store_dest h s) = h264_last_au_flags s"
  by (simp_all add: store_dest_def store_in_def source_side_def split: option.split)

lemma headers_store:
  assumes "headers_ok cap s" "whole_buffer cap h"
  shows "headers_ok cap (store_dest h s)" "load_dest (store_dest h s) = Some h"
proof -
  from assms(1) obtain bs i where b: "m_inp_mem_ptr (vd s) = Some bs" "pdest_frame s = Some i" "i < length bs"
    "length bs \<le> actualcount (ip_buf (vd s))" "cmd_queue_ok (m_input_free_q s)"
    "\<forall>j \<in> set (entries (m_input_free_q s)). j < length bs" "\<forall>b \<in> set bs. pPortPrivate b \<and> whole_buffer cap (hdr b)"
    unfolding headers_ok_def by blast
  have m: "m_inp_mem_ptr (vd (store_dest h s)) = Some (bs[i := (bs ! i)\<lparr>hdr := h\<rparr>])"
    using b(1-3) by (simp add: store_dest_def load_header_def store_in_def store_header_def)
  have "\<forall>b \<in> set (bs[i := (bs ! i)\<lparr>hdr := h\<rparr>]). pPortPrivate b \<and> whole_buffer cap (hdr b)"
    using b(3,7) assms(2) by (auto dest!: set_update_subset_insert [THEN subsetD])
  then show "headers_ok cap (store_dest h s)" using m b by (simp add: headers_ok_def)
  show "load_dest (store_dest h s) = Some h" using m b by (simp add: load_dest_def load_header_def)
qed

section \<open>Copying a unit\<close>

lemma copy_scratch_emit:
  assumes "whole_buffer m sc" "whole_buffer cap dst"
  shows "copy_scratch sc dst = emit (data sc) dst" "scratch_fits sc dst \<longleftrightarrow> length (data sc) \<le> room dst"
    "room dst = cap - length (data dst)"
proof -
  have sc: "data sc = take (nFilledLen sc) (pBuffer sc)" "length (data sc) = nFilledLen sc"
    "nFilledLen sc \<le> length (pBuffer sc)" "nOffset dst = 0" "length (data dst) = nFilledLen dst"
    using whole_data [OF assms(1)] whole_data [OF assms(2)] assms by (auto simp: whole_buffer_def buf_ok_def)
  then show "copy_scratch sc dst = emit (data sc) dst"
    by (simp add: copy_scratch_def emit_def Let_def)
  show "scratch_fits sc dst \<longleftrightarrow> length (data sc) \<le> room dst"
    by (simp add: scratch_fits_def room_def sc)
  show "room dst = cap - length (data dst)"
    using room_ok [of dst] assms(2) sc by (simp add: whole_buffer_def)
qed

lemma emit_whole:
  assumes "whole_buffer cap dst" "length (data dst @ bs) \<le> cap"
  shows "\<exists>d. emit bs dst = Some d \<and> whole_buffer cap d \<and> data d = data dst @ bs"
proof -
  have "length bs \<le> room dst" using copy_scratch_emit(3) [OF assms(1) assms(1)] assms(2) by simp
  moreover have "buf_ok dst" using assms(1) by (simp add: whole_buffer_def)
  ultimately obtain d where d: "emit bs dst = Some d" "buf_ok d" "data d = data dst @ bs" using emit_ok by blast
  then have "nOffset d = nOffset dst" "nAllocLen d = nAllocLen dst"
    by (auto simp: emit_def Let_def split: if_splits)
  then show ?thesis using d assms(1) by (simp add: whole_buffer_def)
qed

definition keeps_bytes :: "(omx_buffer \<Rightarrow> omx_buffer) \<Rightarrow> bool" where
  "keeps_bytes f \<longleftrightarrow> (\<forall>cap h. whole_buffer cap (f h) = whole_buffer cap h \<and> data (f h) = data h)"

lemma append_scratch_fits:
  assumes "headers_ok cap s" "load_dest s = Some h" "whole_buffer cap h" "whole_buffer m (h264_scratch s)"
    and "length (data h @ data (h264_scratch s)) \<le> cap" "keeps_bytes f"
  shows "\<exists>h'. append_scratch f s = Some (ErrorNone, empty_scratch (store_dest h' s)) \<and>
    whole_buffer cap h' \<and> data h' = data h @ data (h264_scratch s)"
proof -
  note c = copy_scratch_emit [OF assms(4,3)]
  obtain d where d: "emit (data (h264_scratch s)) h = Some d" "whole_buffer cap d" "data d = data h @ data (h264_scratch s)"
    using emit_whole [OF assms(3,5)] by blast
  have "scratch_fits (h264_scratch s) h" using assms(5) by (simp add: c)
  then show ?thesis using d assms(2,6)
    by (intro exI [of _ "f d"]) (simp add: append_scratch_def c(1) keeps_bytes_def)
qed

text \<open>The state after a copy.\<close>

lemma empty_scratch_frame [simp]:
  "source_side (empty_scratch s) = source_side s" "submitted (empty_scratch s) = submitted s"
  "load_dest (empty_scratch s) = load_dest s" "headers_ok cap (empty_scratch s) = headers_ok cap s"
  "vd (empty_scratch s) = vd s" "look_ahead_nal (empty_scratch s) = look_ahead_nal s"
  "m_frame_parser (empty_scratch s) = m_frame_parser s" "codec_type_parse (vd (empty_scratch s)) = codec_type_parse (vd s)"
  "omx_nal_length (empty_scratch s) = omx_nal_length s" "mutils (empty_scratch s) = mutils s"
  "h264_parser (empty_scratch s) = h264_parser s" "m_input_free_q (empty_scratch s) = m_input_free_q s"
  "h264_scratch (empty_scratch s) = (h264_scratch s)\<lparr>nFilledLen := 0\<rparr>" "pdest_frame (empty_scratch s) = pdest_frame s"
  by (simp_all add: empty_scratch_def source_side_def load_dest_def headers_ok_def)

lemma framing_copied:
  assumes "framing_ok cap m k s" "whole_buffer cap h'" "\<not> look_ahead_nal s"
  shows "framing_ok cap m k (empty_scratch (store_dest h' s))"
    "assembled (empty_scratch (store_dest h' s)) = (map fst (submitted s), data h', [])"
proof -
  have h: "headers_ok cap s" "whole_buffer m (h264_scratch s)" using assms(1) by (simp_all add: framing_ok_def parts_ok_def)
  note st = headers_store [OF h(1) assms(2)] and e = whole_empty [OF h(2)]
  show "framing_ok cap m k (empty_scratch (store_dest h' s))"
    using assms(1,3) st e by (simp add: framing_ok_def parts_ok_def)
  show "assembled (empty_scratch (store_dest h' s)) = (map fst (submitted s), data h', [])"
    using st e by (simp add: assembled_def)
qed

text \<open>The detector and the free buffers.\<close>

definition detector :: "vdec_input \<Rightarrow> h264_parser \<times> h264_utils option" where
  "detector s = (h264_parser s, mutils s)"

lemma copy_look_ahead_ok:
  assumes "framing_ok cap m k s" "assembled s = (fs, cur, kept)" "length (cur @ kept) \<le> cap"
  shows "\<exists>s'. copy_look_ahead s = Some (ErrorNone, s') \<and> framing_ok cap m k s' \<and> \<not> look_ahead_nal s' \<and>
    assembled s' = (fs, cur @ kept, []) \<and> source_side s' = source_side s \<and> detector s' = detector s \<and>
    m_input_free_q s' = m_input_free_q s"
proof -
  have h: "headers_ok cap s" "whole_buffer m (h264_scratch s)" "look_ahead_nal s \<longleftrightarrow> nFilledLen (h264_scratch s) \<noteq> 0"
    using assms(1) by (simp_all add: framing_ok_def parts_ok_def)
  obtain d where d: "load_dest s = Some d" "whole_buffer cap d" using headers_load [OF h(1)] by blast
  have a: "fs = map fst (submitted s)" "cur = data d" "kept = data (h264_scratch s)"
    using assms(2) d by (simp_all add: assembled_def)
  show ?thesis
  proof (cases "look_ahead_nal s")
    case False
    then show ?thesis using assms h a whole_nonempty [OF h(2)] by (simp add: copy_look_ahead_def)
  next
    case True
    define s1 where "s1 = s\<lparr>look_ahead_nal := False\<rparr>"
    have s1: "headers_ok cap s1" "load_dest s1 = Some d" "whole_buffer m (h264_scratch s1)" "keeps_bytes id"
      using h d by (simp_all add: s1_def headers_ok_def load_dest_def keeps_bytes_def)
    have "length (data d @ data (h264_scratch s1)) \<le> cap" using assms(3) a by (simp add: s1_def)
    from append_scratch_fits [OF s1(1,2) d(2) s1(3) this s1(4)] obtain h' where h': "append_scratch id s1 = Some (ErrorNone, empty_scratch (store_dest h' s1))"
      "whole_buffer cap h'" "data h' = data d @ data (h264_scratch s1)" by blast
    let ?s = "empty_scratch (store_dest h' s1)"
    have "framing_ok cap m k ?s"
      using assms(1) headers_store [OF s1(1) h'(2)] whole_empty [OF s1(3)] by (simp add: framing_ok_def parts_ok_def) (simp add: s1_def)
    moreover have "assembled ?s = (fs, cur @ kept, [])"
      using headers_store [OF s1(1) h'(2)] whole_empty [OF s1(3)] h'(3) a by (simp add: assembled_def) (simp add: s1_def)
    moreover have "source_side ?s = source_side s" "detector ?s = detector s" "m_input_free_q ?s = m_input_free_q s" "\<not> look_ahead_nal ?s"
      by (simp_all add: detector_def) (simp_all add: s1_def source_side_def)
    ultimately show ?thesis using h'(1) True h(3) by (simp add: copy_look_ahead_def s1_def)
  qed
qed

section \<open>The next unit of the source\<close>

lemma emit_fields: "emit bs d = Some d' \<Longrightarrow> nOffset d' = nOffset d \<and> nAllocLen d' = nAllocLen d"
  by (auto simp: emit_def Let_def split: if_splits)

lemma acc_loop_fields:
  "acc_loop n t p src dst = Some (p', src', dst') \<Longrightarrow>
   nFlags src' = nFlags src \<and> nTimeStamp src' = nTimeStamp src \<and> nOffset dst' = nOffset dst \<and> nAllocLen dst' = nAllocLen dst"
proof (induction "t - n" arbitrary: n p src dst)
  case 0
  then show ?case by (simp add: acc_loop.simps)
next
  case (Suc j)
  then have j: "j = t - Suc n" and lt: "n < t" by linarith+
  from Suc.prems lt show ?case
    by (subst (asm) acc_loop.simps)
      (auto simp: Let_def consume_def bind_eq_Some_conv dest!: emit_fields Suc.hyps(1) [OF j] split: if_splits)
qed

lemma copy_nal_fields:
  "copy_nal p src dst = Some (p', src', dst') \<Longrightarrow>
   nFlags src' = nFlags src \<and> nTimeStamp src' = nTimeStamp src \<and> nOffset dst' = nOffset dst \<and> nAllocLen dst' = nAllocLen dst"
  by (auto simp: copy_nal_def Let_def consume_def bind_eq_Some_conv dest!: emit_fields split: if_splits)

lemma nallength_fields:
  assumes "parse_h264_nallength p src dst x = Some (r, y, p', src', dst')"
  shows "nFlags src' = nFlags src \<and> nOffset dst' = nOffset dst \<and> nAllocLen dst' = nAllocLen dst"
proof (cases "room dst < 4 \<or> nFilledLen src = 0 \<or> nal_length p = 0")
  case True
  then show ?thesis using assms by (auto simp: parse_h264_nallength_def)
next
  case False
  define a where "a = (if state_nal p = NAL_LENGTH_ACC
      then acc_loop 0 (min (nFilledLen src) (room dst)) p src dst else Some (p, src, dst))"
  obtain p1 src1 dst1 where a: "a = Some (p1, src1, dst1)"
    using assms False by (cases a) (auto simp: parse_h264_nallength_def a_def)
  define c where "c = copy_nal p1 src1 (dst1\<lparr>nTimeStamp := nTimeStamp src1, nFlags := nFlags src1\<rparr>)"
  have run: "parse_h264_nallength p src dst x = Option.bind c (\<lambda>(p, src, dst).
      Some (if bytes_tobeparsed p = 0 \<and> state_nal p = NAL_PARSING
        then (1, 0, p\<lparr>state_nal := NAL_LENGTH_ACC\<rparr>, src, dst) else (1, 1, p, src, dst)))"
    using False unfolding parse_h264_nallength_def Let_def a_def [symmetric] a c_def by simp
  obtain p2 src2 dst2 where c: "c = Some (p2, src2, dst2)" using assms run by (cases c) auto
  have "src2 = src'" "dst2 = dst'" using assms run c by (auto split: if_splits)
  then show ?thesis
    using a [unfolded a_def] copy_nal_fields [OF c [unfolded c_def]] by (auto dest: acc_loop_fields split: if_splits)
qed

lemma store_source_load: "load_source s = Some h \<Longrightarrow> load_source (store_source h' s) = Some h'"
  by (cases "psource_frame s") (simp_all add: load_source_def store_source_def split: if_splits)

lemma store_source_frame [simp]:
  "vd (store_source h s) = vd s" "psource_frame (store_source h s) = psource_frame s"
  "m_input_pending_q (store_source h s) = m_input_pending_q s" "emptied (store_source h s) = emptied s"
  "submitted (store_source h s) = submitted s" "h264_scratch (store_source h s) = h264_scratch s"
  "look_ahead_nal (store_source h s) = look_ahead_nal s" "pdest_frame (store_source h s) = pdest_frame s"
  "m_input_free_q (store_source h s) = m_input_free_q s" "m_frame_parser (store_source h s) = m_frame_parser s"
  "codec_type_parse (vd (store_source h s)) = codec_type_parse (vd s)" "omx_nal_length (store_source h s) = omx_nal_length s"
  "mutils (store_source h s) = mutils s" "h264_parser (store_source h s) = h264_parser s"
  "nal_count (store_source h s) = nal_count s" "load_dest (store_source h s) = load_dest s"
  "headers_ok cap (store_source h s) = headers_ok cap s"
  by (simp_all add: store_source_def load_dest_def headers_ok_def split: option.split)

text \<open>A client's buffer with the bytes \<open>bs\<close> left and the flags \<open>fl\<close>.\<close>

definition source_has :: "u8 list \<Rightarrow> u32 \<Rightarrow> vdec_input \<Rightarrow> bool" where
  "source_has bs fl s \<longleftrightarrow> (\<exists>src. load_source s = Some src \<and> buf_ok src \<and> data src = bs \<and> nFlags src = fl)"

definition client_side :: "vdec_input \<Rightarrow> header_ptr \<times> nat omx_cmd_queue \<times> nat list" where
  "client_side s = (psource_frame s, m_input_pending_q s, emptied s)"

lemma source_side_same:
  "source_side s' = source_side s \<Longrightarrow> client_side s' = client_side s \<and> source_has bs fl s' = source_has bs fl s"
  by (simp add: source_side_def client_side_def source_has_def)

lemma parse_source_unit:
  assumes "framing_ok cap m k s" "\<not> look_ahead_nal s" "source_has (l @ nal @ rest) fl s" "unit_bytes k (l, nal)"
    and "4 + length nal \<le> m"
  shows "\<exists>s'. parse_source s = Some (1, 0, s') \<and> source_has rest fl s' \<and> parts_ok cap m k s' \<and>
    data (h264_scratch s') = [0, 0, 0, 1] @ nal \<and> load_dest s' = load_dest s \<and> submitted s' = submitted s \<and> client_side s' = client_side s \<and> detector s' = detector s \<and> m_input_free_q s' = m_input_free_q s \<and> \<not> look_ahead_nal s'"
proof -
  have f: "unit_start (m_frame_parser s) k" "whole_buffer m (h264_scratch s)" "omx_nal_length s = k" "headers_ok cap s"
    "nFilledLen (h264_scratch s) = 0"
    using assms(1,2) by (simp_all add: framing_ok_def parts_ok_def)
  have k: "k \<noteq> 0" using f(1) by (simp add: unit_start_def)
  obtain src where src: "load_source s = Some src" "buf_ok src" "data src = l @ nal @ rest" "nFlags src = fl"
    using assms(3) by (auto simp: source_has_def)
  have sc: "buf_ok (h264_scratch s)" "data (h264_scratch s) = []" "room (h264_scratch s) = m"
    using f whole_data [OF f(2)] copy_scratch_emit(3) [OF f(2) f(2)] by (simp_all add: whole_buffer_def)
  obtain p' src' dst' where c: "parse_h264_nallength (m_frame_parser s) src (h264_scratch s) 1 = Some (1, 0, p', src', dst')"
    "unit_start p' k" "buf_ok src'" "buf_ok dst'" "data src' = rest" "data dst' = [0, 0, 0, 1] @ nal"
    using nallength_unit [OF f(1) src(2) sc(1) src(3), of 1] assms(4,5) sc by (auto simp: unit_bytes_def)
  note fl = nallength_fields [OF c(1)]
  let ?s = "s\<lparr>m_frame_parser := p', h264_scratch := dst'\<rparr>"
  have "load_source ?s = Some src" using src(1) by simp
  note ld = store_source_load [OF this, of src']
  have "parse_source s = Some (1, 0, store_source src' ?s)"
    using src(1) c(1) f(3) k by (simp add: parse_source_def)
  moreover have "source_has rest fl (store_source src' ?s)" using ld c fl src(4) by (simp add: source_has_def)
  moreover have "whole_buffer m dst'" using c fl f(2) by (simp add: whole_buffer_def)
  ultimately show ?thesis
    using c f assms(1,2) by (simp add: detector_def client_side_def load_dest_def headers_ok_def framing_ok_def parts_ok_def)
qed

section \<open>The detector's answer\<close>

lemma examine_nal_ok:
  assumes "parts_ok cap m k s" "data (h264_scratch s) = nal" "2 \<le> length nal" "detector s = (ps, Some ut)"
    and "parse_nal nal NALU_TYPE_SPS True ps = Some ps'" "is_new_frame nal (length nal) 0 raw ut = Some ((b, new), ut')"
  shows "\<exists>s'. examine_nal raw s = Some (new, s') \<and> parts_ok cap m k s' \<and> assembled s' = assembled s \<and>
    source_side s' = source_side s \<and> detector s' = (ps', Some ut') \<and> m_input_free_q s' = m_input_free_q s \<and>
    look_ahead_nal s' = look_ahead_nal s"
proof -
  have p: "headers_ok cap s" "whole_buffer m (h264_scratch s)" using assms(1) by (simp_all add: parts_ok_def)
  define sc where "sc = h264_scratch s"
  have nal: "take (nFilledLen sc) (pBuffer sc) = nal" "nFilledLen sc = length nal"
    using conjunct1 [OF whole_data [OF p(2)]] conjunct2 [OF whole_data [OF p(2)]] unfolding sc_def assms(2) by simp_all
  have "pBuffer sc = nal @ drop (length nal) (pBuffer sc)" using nal by (metis append_take_drop_id)
  then have new: "is_new_frame (pBuffer sc) (nFilledLen sc) 0 raw ut = Some ((b, new), ut')"
    using is_new_frame_append [OF assms(3), of "drop (length nal) (pBuffer sc)" raw ut] assms(6) nal(2) by simp
  define s1 where "s1 = s\<lparr>h264_parser := ps', mutils := Some ut', nal_count := nal_count s + 1\<rparr>"
  have h1: "headers_ok cap s1" using p(1) by (simp add: s1_def headers_ok_def)
  obtain d where d: "load_dest s1 = Some d" "whole_buffer cap d" using headers_load [OF h1] by blast
  have d0: "load_dest s = Some d" using d(1) by (simp add: s1_def load_dest_def)
  define s2 where "s2 = (if VALID_TS (h264_last_au_ts s1) \<and> \<not> VALID_TS (nTimeStamp d)
    then store_dest (d\<lparr>nTimeStamp := h264_last_au_ts s1, nFlags := h264_last_au_flags s1\<rparr>) s1 else s1)"
  have "headers_ok cap s2 \<and> (\<exists>d2. load_dest s2 = Some d2 \<and> data d2 = data d)"
    using h1 d headers_store [OF h1, of "d\<lparr>nTimeStamp := h264_last_au_ts s1, nFlags := h264_last_au_flags s1\<rparr>"]
    by (cases "VALID_TS (h264_last_au_ts s1) \<and> \<not> VALID_TS (nTimeStamp d)") (simp_all add: s2_def)
  then obtain d2 where d2: "headers_ok cap s2" "load_dest s2 = Some d2" "data d2 = data d" by blast
  define s3 where "s3 = (if last_nalu_type ut' = 1 \<or> last_nalu_type ut' = 5
    then s2\<lparr>h264_last_au_ts := nTimeStamp sc, h264_last_au_flags := nFlags sc\<rparr> else s2\<lparr>h264_last_au_ts := LLONG_MAX\<rparr>)"
  have "nFilledLen sc \<noteq> 0" using nal(2) assms(3) by auto
  then have run: "examine_nal raw s = Some (new, s3)"
    using assms(4,5) nal(1) new d(1)
    by (simp add: examine_nal_def Let_def sc_def [symmetric] detector_def s3_def s2_def s1_def)
  have s2: "h264_scratch s2 = sc" "codec_type_parse (vd s2) = codec_type_parse (vd s)" "omx_nal_length s2 = omx_nal_length s"
    "m_frame_parser s2 = m_frame_parser s" "input_flush_progress (vd s2) = input_flush_progress (vd s)"
    "source_side s2 = source_side s" "m_input_free_q s2 = m_input_free_q s" "look_ahead_nal s2 = look_ahead_nal s"
    "submitted s2 = submitted s" "h264_parser s2 = ps'" "mutils s2 = Some ut'"
    by (simp_all add: s2_def) (simp_all add: s1_def sc_def source_side_def)
  have "parts_ok cap m k s3 \<and> assembled s3 = assembled s \<and> source_side s3 = source_side s \<and> detector s3 = (ps', Some ut')
    \<and> m_input_free_q s3 = m_input_free_q s \<and> look_ahead_nal s3 = look_ahead_nal s"
    using s2 d2 d0 assms(1)
    by (simp add: s3_def parts_ok_def assembled_def detector_def source_side_def sc_def)
  then show ?thesis using run by blast
qed

section \<open>A frame leaves\<close>

definition accepts_frames :: "platform \<Rightarrow> bool" where
  "accepts_frames P \<longleftrightarrow> (\<forall>rs i. driver P rs (DECODE_FRAME i) \<noteq> Failed)"

lemma ioctl_accepts: "accepts_frames P \<Longrightarrow> ioctl P (DECODE_FRAME i) v = (True, v\<lparr>requests := requests v @ [DECODE_FRAME i]\<rparr>)"
  by (simp add: ioctl_def answer_def accepts_frames_def)

text \<open>What no submission touches.\<close>

definition untouched :: "vdec_input \<Rightarrow> vdec_input \<Rightarrow> bool" where
  "untouched s s' \<longleftrightarrow> source_side s' = source_side s \<and> m_input_free_q s' = m_input_free_q s \<and> pdest_frame s' = pdest_frame s"

lemma submit_frame_ok:
  assumes "parts_ok cap m k s" "accepts_frames P" "load_dest s = Some d" "whole_buffer cap d"
  shows "\<exists>s'. submit_frame P s = Some (ErrorNone, s') \<and> untouched s s' \<and>
    submitted s' = submitted s @ [(data d, nTimeStamp d)] \<and>
    (nFilledLen d \<noteq> 0 \<and> nFlags d AND BUFFERFLAG_EOS = 0 \<longrightarrow>
       parts_ok cap m k s' \<and> h264_scratch s' = h264_scratch s \<and> detector s' = detector s \<and> look_ahead_nal s' = look_ahead_nal s)"
proof -
  from assms(1) obtain bs i where b: "m_inp_mem_ptr (vd s) = Some bs" "pdest_frame s = Some i" "i < length bs"
    "length bs \<le> actualcount (ip_buf (vd s))" "\<forall>b \<in> set bs. pPortPrivate b \<and> whole_buffer cap (hdr b)"
    unfolding parts_ok_def headers_ok_def by blast
  have hd: "pPortPrivate (bs ! i)" "hdr (bs ! i) = d"
    using b assms(3) by (auto simp: load_dest_def load_header_def)
  define s1 where "s1 = s\<lparr>vd := (vd s)\<lparr>pending_input_buffers := pending_input_buffers (vd s) + 1\<rparr>\<rparr>"
  define d1 where "d1 = d\<lparr>nFlags := nFlags d AND NOT (QOMX_VIDEO_BUFFERFLAG_EOSEQ P)\<rparr>"
  have p1: "parts_ok cap m k s1" using assms(1) by (simp add: s1_def parts_ok_def headers_ok_def)
  have d1: "whole_buffer cap d1" "data d1 = data d" "nTimeStamp d1 = nTimeStamp d" "nFilledLen d1 = nFilledLen d"
    using assms(4) by (simp_all add: d1_def)
  define s2 where "s2 = store_dest d1 s1"
  have p2: "parts_ok cap m k s2" "load_dest s2 = Some d1"
    using headers_store [of cap s1 d1] p1 d1(1) by (simp_all add: s2_def parts_ok_def)
  define s3 where "s3 = (if nFilledLen d1 = 0 \<or> nFlags d1 AND BUFFERFLAG_EOS \<noteq> 0 then reset_framing s2 else s2)"
  define v where "v = (vd s3)\<lparr>requests := requests (vd s3) @ [DECODE_FRAME i]\<rparr>"
  define s4 where "s4 = s3\<lparr>vd := v\<lparr>time_stamp_dts := snd (insert_timestamp (Some d1) (time_stamp_dts v))\<rparr>,
    submitted := submitted s3 @ [(data d1, nTimeStamp d1)]\<rparr>"
  have sl: "slice (nFilledLen d1) d1 = Some (data d1)"
    using slice_ok [of d1 "nFilledLen d1"] whole_data [OF d1(1)] d1(1) by (simp add: whole_buffer_def)
  have "codec_type_parse (vd s1) = CODEC_TYPE_H264" "\<not> input_flush_progress (vd s1)" using p1 by (simp_all add: parts_ok_def)
  then have run: "submit_frame P s = Some (ErrorNone, s4)"
    using b(2-4) hd sl
    by (cases "nFilledLen d1 = 0 \<or> nFlags d1 AND BUFFERFLAG_EOS \<noteq> 0")
      (simp_all add: submit_frame_def load_header_def b(1) check_vop_def Let_def s1_def [symmetric] d1_def [symmetric]
        s2_def [symmetric] ioctl_accepts [OF assms(2)] s4_def v_def s3_def)
  have r: "source_side (reset_framing s2) = source_side s2" "m_input_free_q (reset_framing s2) = m_input_free_q s2"
    "pdest_frame (reset_framing s2) = pdest_frame s2" "submitted (reset_framing s2) = submitted s2"
    by (simp_all add: reset_framing_def source_side_def)
  have q: "source_side s3 = source_side s" "m_input_free_q s3 = m_input_free_q s" "pdest_frame s3 = pdest_frame s"
    "submitted s3 = submitted s"
    using r by (simp_all add: s3_def s2_def) (simp_all add: s1_def source_side_def)
  then have "untouched s s4" "submitted s4 = submitted s @ [(data d, nTimeStamp d)]"
    using d1 by (simp_all add: untouched_def s4_def source_side_def)
  moreover have "parts_ok cap m k s4 \<and> h264_scratch s4 = h264_scratch s \<and> detector s4 = detector s \<and> look_ahead_nal s4 = look_ahead_nal s"
    if "nFilledLen d \<noteq> 0" "nFlags d AND BUFFERFLAG_EOS = 0"
  proof -
    have "nFlags d1 AND BUFFERFLAG_EOS = 0"
      using that(2) by (simp add: d1_def) (metis and.assoc and.commute and_zero_eq)
    then have "s3 = s2" using that(1) d1 by (simp add: s3_def)
    then show ?thesis using p2(1)
      by (simp add: s4_def v_def parts_ok_def headers_ok_def detector_def) (simp add: s2_def s1_def)
  qed
  ultimately show ?thesis using run by blast
qed

section \<open>The next destination\<close>

lemma next_dest_ok:
  assumes "headers_ok cap s" "entries (m_input_free_q s) = j # js"
    and "\<And>h. whole_buffer cap h \<Longrightarrow> whole_buffer cap (init h) \<and> data (init h) = []"
  shows "\<exists>s'. next_dest init (s\<lparr>pdest_frame := None\<rparr>) = Some s' \<and> headers_ok cap s' \<and>
    (\<exists>h. load_dest s' = Some h \<and> data h = []) \<and> entries (m_input_free_q s') = js \<and> source_side s' = source_side s \<and>
    submitted s' = submitted s \<and> h264_scratch s' = h264_scratch s \<and> look_ahead_nal s' = look_ahead_nal s \<and>
    detector s' = detector s \<and> codec_type_parse (vd s') = codec_type_parse (vd s) \<and> omx_nal_length s' = omx_nal_length s \<and>
    m_frame_parser s' = m_frame_parser s \<and> input_flush_progress (vd s') = input_flush_progress (vd s)"
proof -
  have "cmd_queue_ok (m_input_free_q s)" using assms(1) by (auto simp: headers_ok_def)
  then obtain q where q: "pop_entry (m_input_free_q s) = Some (j, q)" "entries q = js" "cmd_queue_ok q"
    using pop_entry_spec [OF _ assms(2)] by blast
  define s1 where "s1 = s\<lparr>pdest_frame := Some j, m_input_free_q := q\<rparr>"
  have h1: "headers_ok cap s1" using assms(1,2) q(2,3) by (auto simp: s1_def headers_ok_def)
  obtain h where h: "load_dest s1 = Some h" "whole_buffer cap h" using headers_load [OF h1] by blast
  note st = headers_store [OF h1 conjunct1 [OF assms(3) [OF h(2)]]]
  have "next_dest init (s\<lparr>pdest_frame := None\<rparr>) = Some (store_dest (init h) s1)"
    using q(1) h(1) by (simp add: next_dest_def s1_def)
  moreover have "source_side s1 = source_side s" "submitted s1 = submitted s" "h264_scratch s1 = h264_scratch s"
    "look_ahead_nal s1 = look_ahead_nal s" "h264_parser s1 = h264_parser s" "mutils s1 = mutils s"
    "codec_type_parse (vd s1) = codec_type_parse (vd s)" "omx_nal_length s1 = omx_nal_length s" "m_frame_parser s1 = m_frame_parser s"
    "vd s1 = vd s" "m_input_free_q s1 = q"
    by (simp_all add: s1_def source_side_def)
  ultimately show ?thesis using st assms(3) [OF h(2)] q(2) by (simp add: detector_def)
qed

section \<open>One unit\<close>

lemma flag_cleared: "(f AND NOT e) AND e = (0 :: u32)"
  by (rule bit_eqI) (simp add: bit_simps)

lemma start_frame_ok:
  assumes "parts_ok cap m k s" "assembled s = (fs, cur, nal)" "nal \<noteq> []" "accepts_frames P"
    and "entries (m_input_free_q s) = j # js" "cur \<noteq> []"
  shows "\<exists>s'. start_frame P s = Some (ErrorNone, s') \<and> framing_ok cap m k s' \<and> assembled s' = (fs @ [cur], [], nal) \<and>
    source_side s' = source_side s \<and> detector s' = detector s \<and> entries (m_input_free_q s') = js"
proof -
  define s1 where "s1 = s\<lparr>look_ahead_nal := True, frame_count := frame_count s + 1\<rparr>"
  have p1: "parts_ok cap m k s1" using assms(1) by (simp add: s1_def parts_ok_def)
  then obtain d where d: "load_dest s1 = Some d" "whole_buffer cap d"
    using headers_load [of cap s1] by (auto simp: parts_ok_def)
  have a: "data d = cur" "data (h264_scratch s) = nal" "map fst (submitted s) = fs"
    using d(1) assms(2) by (simp_all add: assembled_def s1_def)
  have sc: "nFilledLen (h264_scratch s) \<noteq> 0" using whole_nonempty [of m "h264_scratch s"] assms(1,3) a by (simp add: parts_ok_def)
  have dn: "nFilledLen d \<noteq> 0" using whole_nonempty [OF d(2)] a assms(6) by simp
  define d1 where "d1 = d\<lparr>nFlags := nFlags d AND NOT BUFFERFLAG_EOS\<rparr>"
  have d1: "whole_buffer cap d1" "data d1 = cur" "nFilledLen d1 \<noteq> 0" "nFlags d1 AND BUFFERFLAG_EOS = 0"
    using d(2) a dn by (simp_all add: d1_def flag_cleared)
  define s2 where "s2 = store_dest d1 s1"
  have p2: "parts_ok cap m k s2" "load_dest s2 = Some d1"
    using p1 headers_store [of cap s1 d1] d1(1) by (simp_all add: s2_def parts_ok_def)
  obtain s3 where s3: "submit_frame P s2 = Some (ErrorNone, s3)" "untouched s2 s3"
    "submitted s3 = submitted s2 @ [(cur, nTimeStamp d1)]" "parts_ok cap m k s3"
    "h264_scratch s3 = h264_scratch s2" "detector s3 = detector s2" "look_ahead_nal s3 = look_ahead_nal s2"
    using submit_frame_ok [OF p2(1) assms(4) p2(2) d1(1)] d1(2-4) by auto
  have s2: "source_side s2 = source_side s" "m_input_free_q s2 = m_input_free_q s" "submitted s2 = submitted s"
    "h264_scratch s2 = h264_scratch s" "detector s2 = detector s" "look_ahead_nal s2"
    by (simp_all add: s2_def detector_def) (simp_all add: s1_def source_side_def)
  have h3: "headers_ok cap s3" "entries (m_input_free_q s3) = j # js"
    using s3(2,4) s2 assms(5) by (simp_all add: parts_ok_def untouched_def)
  define init :: "omx_buffer \<Rightarrow> omx_buffer" where "init = (\<lambda>h. h\<lparr>nFilledLen := 0, nFlags := 0, nTimeStamp := LLONG_MAX\<rparr>)"
  have init: "whole_buffer cap (init h) \<and> data (init h) = []" if "whole_buffer cap h" for h
    using whole_empty [OF that] by (simp add: init_def)
  obtain s4 where s4: "next_dest init (s3\<lparr>pdest_frame := None\<rparr>) = Some s4" "headers_ok cap s4"
    "\<exists>h. load_dest s4 = Some h \<and> data h = []" "entries (m_input_free_q s4) = js" "source_side s4 = source_side s3"
    "submitted s4 = submitted s3" "h264_scratch s4 = h264_scratch s3" "look_ahead_nal s4 = look_ahead_nal s3"
    "detector s4 = detector s3" "codec_type_parse (vd s4) = codec_type_parse (vd s3)" "omx_nal_length s4 = omx_nal_length s3"
    "m_frame_parser s4 = m_frame_parser s3" "input_flush_progress (vd s4) = input_flush_progress (vd s3)"
    using next_dest_ok [OF h3, of init, OF init] by blast
  have "start_frame P s = Some (ErrorNone, s4)"
    using d(1) dn s3(1) s4(1)
    by (simp add: start_frame_def Let_def s1_def [symmetric] d1_def [symmetric] s2_def [symmetric] init_def [symmetric])
  moreover have "framing_ok cap m k s4" using s3 s4 s2 sc by (simp add: framing_ok_def parts_ok_def)
  moreover have "assembled s4 = (fs @ [cur], [], nal)" using s3 s4 s2 a by (auto simp: assembled_def)
  ultimately show ?thesis using s2 s3 s4 by (simp add: untouched_def)
qed

lemma end_of_sequence_keeps: "keeps_bytes (end_of_sequence P s)"
  by (simp add: keeps_bytes_def end_of_sequence_def split: option.split)

lemma complete_nal_ok:
  assumes "parts_ok cap m k s" "assembled s = (fs, cur, nal)" "2 \<le> length nal" "\<not> look_ahead_nal s" "detector s = (ps, Some ut)"
    and "parse_nal nal NALU_TYPE_SPS True ps = Some ps'" "is_new_frame nal (length nal) 0 raw ut = Some ((b, new), ut')"
    and "accepts_frames P" "new \<longrightarrow> entries (m_input_free_q s) \<noteq> []" "take_unit cap (nal, new) (fs, cur, []) = Some a"
  shows "\<exists>s'. complete_nal P raw s = Some (ErrorNone, s') \<and> framing_ok cap m k s' \<and> assembled s' = a \<and>
    source_side s' = source_side s \<and> detector s' = (ps', Some ut') \<and>
    length (entries (m_input_free_q s)) \<le> length (entries (m_input_free_q s')) + (if new then 1 else 0)"
proof -
  have w: "whole_buffer m (h264_scratch s)" using assms(1) by (simp add: parts_ok_def)
  have nal: "data (h264_scratch s) = nal" "nal \<noteq> []" using assms(2,3) by (auto simp: assembled_def)
  have sc: "nFilledLen (h264_scratch s) \<noteq> 0" using whole_nonempty [OF w] nal by simp
  obtain s1 where s1: "examine_nal raw s = Some (new, s1)" "parts_ok cap m k s1" "assembled s1 = (fs, cur, nal)"
    "source_side s1 = source_side s" "detector s1 = (ps', Some ut')" "m_input_free_q s1 = m_input_free_q s"
    "\<not> look_ahead_nal s1"
    using examine_nal_ok [OF assms(1) nal(1) assms(3,5-7)] assms(2,4) by auto
  have h1: "headers_ok cap s1" "whole_buffer m (h264_scratch s1)" using s1(2) by (simp_all add: parts_ok_def)
  obtain d where d: "load_dest s1 = Some d" "whole_buffer cap d" using headers_load [OF h1(1)] by blast
  have a1: "data d = cur" "data (h264_scratch s1) = nal" "map fst (submitted s1) = fs"
    using s1(3) d by (simp_all add: assembled_def)
  have sc1: "nFilledLen (h264_scratch s1) \<noteq> 0" using whole_nonempty [OF h1(2)] a1 nal by simp
  have run: "complete_nal P raw s = (if \<not> new then append_scratch (end_of_sequence P s1) s1 else start_frame P s1)"
    using sc sc1 s1(1) by (simp add: complete_nal_def)
  have copy: "\<exists>s'. append_scratch f t = Some (ErrorNone, s') \<and> framing_ok cap m k s' \<and> assembled s' = (fs, cur @ nal, []) \<and>
      source_side s' = source_side s \<and> detector s' = (ps', Some ut') \<and> m_input_free_q s' = m_input_free_q s"
    if len: "length (cur @ nal) \<le> cap" and f: "keeps_bytes f" and
      t: "parts_ok cap m k t" "load_dest t = Some d" "h264_scratch t = h264_scratch s1" "submitted t = submitted s1"
      "source_side t = source_side s1" "detector t = detector s1" "m_input_free_q t = m_input_free_q s1" "\<not> look_ahead_nal t"
    for f t
  proof -
    have ht: "headers_ok cap t" "whole_buffer m (h264_scratch t)" using t(1) by (simp_all add: parts_ok_def)
    have "length (data d @ data (h264_scratch t)) \<le> cap" using len a1 t(3) by simp
    from append_scratch_fits [OF ht(1) t(2) d(2) ht(2) this f] obtain h'
      where h': "append_scratch f t = Some (ErrorNone, empty_scratch (store_dest h' t))" "whole_buffer cap h'"
        "data h' = data d @ data (h264_scratch t)" by blast
    have fo: "framing_ok cap m k (empty_scratch (store_dest h' t))"
      using t(1,8) headers_store [OF ht(1) h'(2)] whole_empty [OF ht(2)] by (simp add: framing_ok_def parts_ok_def)
    have "assembled (empty_scratch (store_dest h' t)) = (fs, cur @ nal, [])"
      using headers_store [OF ht(1) h'(2)] whole_empty [OF ht(2)] h'(3) t a1 by (simp add: assembled_def)
    then show ?thesis using fo h'(1) t s1 by (simp add: detector_def)
  qed
  show ?thesis
  proof (cases new)
    case False
    then have "length (cur @ nal) \<le> cap" "a = (fs, cur @ nal, [])"
      using assms(10) by (auto simp: Let_def split: if_splits)
    then show ?thesis
      using copy [OF _ end_of_sequence_keeps [of P s1] s1(2) d(1) refl refl refl refl refl s1(7)] False run by fastforce
  next
    case new: True
    show ?thesis
    proof (cases "cur = []")
      case False
      then have a: "a = (fs @ [cur], [], nal)" using assms(10) new by (auto simp: Let_def split: if_splits)
      obtain j js where js: "entries (m_input_free_q s1) = j # js"
        using assms(9) new s1(6) by (cases "entries (m_input_free_q s1)") auto
      show ?thesis
        using start_frame_ok [OF s1(2,3) nal(2) assms(8) js False] run new a s1 js by auto
    next
      case True
      then have a: "length (cur @ nal) \<le> cap" "a = (fs, cur @ nal, [])"
        using assms(10) by (auto simp: Let_def split: if_splits)
      define t where "t = s1\<lparr>look_ahead_nal := True, frame_count := frame_count s1 + 1, look_ahead_nal := False\<rparr>"
      have dn: "nFilledLen d = 0" using whole_nonempty [OF d(2)] a1 True by simp
      have "start_frame P s1 = append_scratch id t"
        using d(1) dn by (simp add: start_frame_def t_def)
      moreover have "parts_ok cap m k t" "load_dest t = Some d" "h264_scratch t = h264_scratch s1" "submitted t = submitted s1"
        "source_side t = source_side s1" "detector t = detector s1" "m_input_free_q t = m_input_free_q s1" "\<not> look_ahead_nal t"
        using s1(2) d(1) by (simp_all add: t_def parts_ok_def source_side_def detector_def)
      ultimately show ?thesis using copy [OF a(1), of id t] run new a(2) by (auto simp: keeps_bytes_def)
    qed
  qed
qed

lemma h264_unit_ok:
  assumes "framing_ok cap m k s" "source_has (l @ nal @ rest) fl s" "unit_bytes k (l, nal)" "4 + length nal \<le> m"
    and "detector s = (ps, Some ut)" "parse_nal (sc_unit nal) NALU_TYPE_SPS True ps = Some ps'"
    and "is_new_frame (sc_unit nal) (length (sc_unit nal)) 0 raw ut = Some ((b, new), ut')"
    and "accepts_frames P" "new \<longrightarrow> entries (m_input_free_q s) \<noteq> []" "take_unit cap (sc_unit nal, new) (assembled s) = Some a"
  shows "\<exists>s'. h264_unit P raw s = Some (ErrorNone, s') \<and> framing_ok cap m k s' \<and> assembled s' = a \<and>
    source_has rest fl s' \<and> client_side s' = client_side s \<and> detector s' = (ps', Some ut') \<and>
    length (entries (m_input_free_q s)) \<le> length (entries (m_input_free_q s')) + (if new then 1 else 0)"
proof -
  obtain fs cur kept where as: "assembled s = (fs, cur, kept)" by (metis surj_pair)
  have len: "length (cur @ kept) \<le> cap" using assms(10) as by (auto simp: Let_def split: if_splits)
  obtain s1 where s1: "copy_look_ahead s = Some (ErrorNone, s1)" "framing_ok cap m k s1" "\<not> look_ahead_nal s1"
    "assembled s1 = (fs, cur @ kept, [])" "source_side s1 = source_side s" "detector s1 = detector s"
    "m_input_free_q s1 = m_input_free_q s"
    using copy_look_ahead_ok [OF assms(1) as len] by blast
  have src: "source_has (l @ nal @ rest) fl s1" using assms(2) source_side_same [OF s1(5)] by simp
  obtain s2 where s2: "parse_source s1 = Some (1, 0, s2)" "source_has rest fl s2" "parts_ok cap m k s2"
    "data (h264_scratch s2) = sc_unit nal" "load_dest s2 = load_dest s1" "submitted s2 = submitted s1"
    "client_side s2 = client_side s1" "detector s2 = detector s1" "m_input_free_q s2 = m_input_free_q s1" "\<not> look_ahead_nal s2"
    using parse_source_unit [OF s1(2,3) src assms(3,4)] unfolding sc_unit_def by blast
  have a2: "assembled s2 = (fs, cur @ kept, sc_unit nal)" using s1(4) s2(4-6) by (simp add: assembled_def)
  have det: "detector s2 = (ps, Some ut)" using s2(8) s1(6) assms(5) by simp
  have free: "new \<longrightarrow> entries (m_input_free_q s2) \<noteq> []" using assms(9) s1(7) s2(9) by simp
  have tk: "take_unit cap (sc_unit nal, new) (fs, cur @ kept, []) = Some a"
    using assms(10) as by (simp add: Let_def)
  have l2: "2 \<le> length (sc_unit nal)" by (simp add: sc_unit_def)
  obtain s3 where s3: "complete_nal P raw s2 = Some (ErrorNone, s3)" "framing_ok cap m k s3" "assembled s3 = a"
    "source_side s3 = source_side s2" "detector s3 = (ps', Some ut')"
    "length (entries (m_input_free_q s2)) \<le> length (entries (m_input_free_q s3)) + (if new then 1 else 0)"
    using complete_nal_ok [OF s2(3) a2 l2 s2(10) det assms(6,7,8) free tk] by blast
  have "h264_unit P raw s = Some (ErrorNone, s3)" using s1(1) s2(1) s3(1) by (simp add: h264_unit_def)
  then show ?thesis
    using s3 s2 s1 source_side_same [OF s3(4)] source_side_same [OF s1(5)] by auto
qed

section \<open>All units of a source\<close>

definition units_bytes :: "(u8 list \<times> u8 list) list \<Rightarrow> u8 list" where
  "units_bytes us = concat (map (\<lambda>(l, nal). l @ nal) us)"

definition sc_units :: "(u8 list \<times> u8 list) list \<Rightarrow> u8 list list" where
  "sc_units us = map (\<lambda>(l, nal). sc_unit nal) us"

lemma scratch_there: "framing_ok cap m k s \<Longrightarrow> 0 < m \<Longrightarrow> pBuffer (h264_scratch s) \<noteq> []"
  by (auto simp: framing_ok_def parts_ok_def whole_buffer_def buf_ok_def)

lemma framing_dest: "framing_ok cap m k s \<Longrightarrow> pdest_frame s \<noteq> None"
  by (auto simp: framing_ok_def parts_ok_def headers_ok_def)

lemma push_input_unit:
  assumes "framing_ok cap m k s" "0 < m" "h264_unit P raw s = Some (ErrorNone, s')"
  shows "push_one P raw s = h264_source_done P raw s'"
proof -
  have "codec_type_parse (vd s) = CODEC_TYPE_H264" using assms(1) by (simp add: framing_ok_def parts_ok_def)
  then show ?thesis
    using scratch_there [OF assms(1,2)] assms(3) by (simp add: push_one_def push_input_h264_def)
qed

lemma source_more:
  assumes "source_has (b # bs) fl s"
  shows "h264_source_done P raw s = Some (ErrorNone, s)"
proof -
  obtain src where "load_source s = Some src" "buf_ok src" "data src = b # bs"
    using assms by (auto simp: source_has_def)
  moreover from this have "nFilledLen src \<noteq> 0" using length_data [of src] by auto
  ultimately show ?thesis by (simp add: h264_source_done_def)
qed

lemma push_loop_step:
  assumes "pdest_frame s \<noteq> None" "psource_frame s \<noteq> None" "push_one P raw s = Some (ErrorNone, s')"
  shows "push_loop P raw e s = push_loop P raw ErrorNone s'"
  using assms by (subst push_loop.simps) simp

lemma push_loop_units:
  assumes "framing_ok cap m k s" "source_has (units_bytes us @ rest) fl s" "rest \<noteq> []"
    and "\<forall>x \<in> set us. unit_bytes k x \<and> 4 + length (snd x) \<le> m"
    and "detector s = (ps, Some ut)" "detections raw (sc_units us) (ps, ut) = Some (fs, ps', ut')"
    and "accepts_frames P" "count_list fs True \<le> length (entries (m_input_free_q s))"
    and "take_units cap (zip (sc_units us) fs) (assembled s) = Some a" "psource_frame s \<noteq> None"
  shows "\<exists>s'. push_loop P raw ErrorNone s = push_loop P raw ErrorNone s' \<and> framing_ok cap m k s' \<and> assembled s' = a \<and>
    source_has rest fl s' \<and> client_side s' = client_side s \<and> detector s' = (ps', Some ut') \<and>
    length (entries (m_input_free_q s)) \<le> length (entries (m_input_free_q s')) + count_list fs True"
  using assms
proof (induction us arbitrary: s ps ut fs)
  case Nil
  then show ?case by (auto simp: units_bytes_def sc_units_def)
next
  case (Cons x us)
  obtain l nal where x: "x = (l, nal)" by (cases x)
  obtain ps1 b new ut1 fs1 where det: "parse_nal (sc_unit nal) NALU_TYPE_SPS True ps = Some ps1"
    "is_new_frame (sc_unit nal) (length (sc_unit nal)) 0 raw ut = Some ((b, new), ut1)"
    "detections raw (sc_units us) (ps1, ut1) = Some (fs1, ps', ut')" "fs = new # fs1"
    using Cons.prems(6) by (auto simp: sc_units_def x bind_eq_Some_conv)
  obtain a1 where a1: "take_unit cap (sc_unit nal, new) (assembled s) = Some a1"
    "take_units cap (zip (sc_units us) fs1) a1 = Some a"
    using Cons.prems(9) by (auto simp: sc_units_def x det(4) bind_eq_Some_conv)
  have src: "source_has (l @ nal @ units_bytes us @ rest) fl s" using Cons.prems(2) by (simp add: units_bytes_def x)
  have un: "unit_bytes k (l, nal)" "4 + length nal \<le> m" using Cons.prems(4) by (auto simp: x)
  have free: "new \<longrightarrow> entries (m_input_free_q s) \<noteq> []" using Cons.prems(8) det(4) by (auto simp del: length_entries)
  obtain s1 where s1: "h264_unit P raw s = Some (ErrorNone, s1)" "framing_ok cap m k s1" "assembled s1 = a1"
    "source_has (units_bytes us @ rest) fl s1" "client_side s1 = client_side s" "detector s1 = (ps1, Some ut1)"
    "length (entries (m_input_free_q s)) \<le> length (entries (m_input_free_q s1)) + (if new then 1 else 0)"
    using h264_unit_ok [OF Cons.prems(1) src un Cons.prems(5) det(1,2) Cons.prems(7) free a1(1)] by blast
  have "0 < m" using un(2) by simp
  note one = push_input_unit [OF Cons.prems(1) this s1(1)]
  have "units_bytes us @ rest \<noteq> []" using Cons.prems(3) by simp
  then have "h264_source_done P raw s1 = Some (ErrorNone, s1)"
    using source_more s1(4) by (metis neq_Nil_conv)
  then have step: "push_loop P raw ErrorNone s = push_loop P raw ErrorNone s1"
    using push_loop_step [OF framing_dest [OF Cons.prems(1)] Cons.prems(10)] one by simp
  have "psource_frame s1 \<noteq> None" using s1(5) Cons.prems(10) by (simp add: client_side_def)
  note ih = Cons.IH [OF s1(2,4) Cons.prems(3) _ s1(6) det(3) Cons.prems(7) _ a1(2)[folded s1(3)] this]
  have "\<forall>x \<in> set us. unit_bytes k x \<and> 4 + length (snd x) \<le> m" "count_list fs1 True \<le> length (entries (m_input_free_q s1))"
    using Cons.prems(4,8) s1(7) det(4) by (auto split: if_splits)
  from ih [OF this] show ?case using step s1(5,7) det(4) by (auto split: if_splits)
qed

section \<open>The end of a source\<close>

lemma return_source_last:
  assumes "psource_frame s = Some i" "cmd_queue_ok (m_input_pending_q s)" "entries (m_input_pending_q s) = []"
  shows "return_source s = s\<lparr>emptied := emptied s @ [i], psource_frame := None\<rparr>"
  using assms cmdq.get_none [OF assms(2,3)] by (simp add: return_source_def next_source_def)

lemma push_loop_end: "psource_frame s = None \<or> pdest_frame s = None \<Longrightarrow> push_loop P raw e s = Some (e, s)"
  by (subst push_loop.simps) auto

lemma take_units_append:
  "take_units cap (xs @ ys) a = Option.bind (take_units cap xs a) (take_units cap ys)"
  by (induction xs arbitrary: a) (auto intro!: Option.bind_cong)

lemma detections_append:
  "detections raw (xs @ ys) st = do {
     (fs, st) \<leftarrow> detections raw xs st;
     (gs, st) \<leftarrow> detections raw ys st;
     Some (fs @ gs, st)
   }"
proof (induction xs arbitrary: st)
  case Nil
  then show ?case by (cases st) (simp split: bind_splits)
next
  case (Cons x xs)
  then show ?case by (cases st) (simp add: case_prod_beta cong: Option.bind_cong)
qed

lemma detections_length: "detections raw xs st = Some (fs, r) \<Longrightarrow> length fs = length xs"
proof (induction xs arbitrary: st fs)
  case (Cons x xs)
  then show ?case by (cases st) (auto simp: bind_eq_Some_conv)
qed (cases st, auto)

text \<open>The hypotheses on a source, its units and the detector's answers.\<close>

definition source_fits ::
  "platform \<Rightarrow> nalu \<Rightarrow> nat \<Rightarrow> nat \<Rightarrow> nat \<Rightarrow> (u8 list \<times> u8 list) list \<Rightarrow> bool list \<Rightarrow> u32 \<Rightarrow> vdec_input \<Rightarrow> bool" where
  "source_fits P raw cap m k us fs fl s \<longleftrightarrow> framing_ok cap m k s \<and> source_has (units_bytes us) fl s \<and> us \<noteq> []
     \<and> (\<forall>x \<in> set us. unit_bytes k x \<and> 4 + length (snd x) \<le> m) \<and> accepts_frames P
     \<and> (\<exists>ut r. mutils s = Some ut \<and> detections raw (sc_units us) (h264_parser s, ut) = Some (fs, r))
     \<and> count_list fs True \<le> length (entries (m_input_free_q s))"

lemma push_loop_last:
  assumes "source_fits P raw cap m k us fs fl s" "psource_frame s \<noteq> None"
    and "take_units cap (zip (sc_units us) fs) (assembled s) = Some a"
  shows "\<exists>s1 s'. push_loop P raw ErrorNone s = push_loop P raw ErrorNone s1 \<and> pdest_frame s1 \<noteq> None \<and>
    psource_frame s1 \<noteq> None \<and> push_one P raw s1 = h264_source_done P raw s' \<and> framing_ok cap m k s' \<and>
    assembled s' = a \<and> source_has [] fl s' \<and> client_side s' = client_side s \<and> mutils s' \<noteq> None"
proof -
  obtain ut r where a: "framing_ok cap m k s" "source_has (units_bytes us) fl s" "us \<noteq> []"
    "\<forall>x \<in> set us. unit_bytes k x \<and> 4 + length (snd x) \<le> m" "accepts_frames P" "detector s = (h264_parser s, Some ut)"
    "detections raw (sc_units us) (h264_parser s, ut) = Some (fs, r)" "count_list fs True \<le> length (entries (m_input_free_q s))"
    using assms(1) by (auto simp: source_fits_def detector_def)
  obtain vs l nal where us: "us = vs @ [(l, nal)]" using a(3) by (metis rev_exhaust surj_pair)
  have su: "sc_units us = sc_units vs @ [sc_unit nal]" by (simp add: us sc_units_def)
  obtain gs ps1 ut1 hs where d: "detections raw (sc_units vs) (h264_parser s, ut) = Some (gs, ps1, ut1)"
    "detections raw [sc_unit nal] (ps1, ut1) = Some (hs, r)" "fs = gs @ hs"
    using a(7) unfolding su detections_append by (auto simp: bind_eq_Some_conv simp del: detections.simps)
  obtain new b ps2 ut2 where n: "parse_nal (sc_unit nal) NALU_TYPE_SPS True ps1 = Some ps2"
    "is_new_frame (sc_unit nal) (length (sc_unit nal)) 0 raw ut1 = Some ((b, new), ut2)" "hs = [new]"
    using d(2) by (auto simp: bind_eq_Some_conv)
  have len: "length (sc_units vs) = length gs" using detections_length [OF d(1)] by simp
  obtain a1 where a1: "take_units cap (zip (sc_units vs) gs) (assembled s) = Some a1"
    "take_unit cap (sc_unit nal, new) a1 = Some a"
    using assms(3) len by (auto simp: su d(3) n(3) take_units_append bind_eq_Some_conv)
  have un: "unit_bytes k (l, nal)" "4 + length nal \<le> m" "\<forall>x \<in> set vs. unit_bytes k x \<and> 4 + length (snd x) \<le> m"
    using a(4) by (auto simp: us)
  have "0 < k" using a(1) by (simp add: framing_ok_def parts_ok_def unit_start_def)
  then have rest: "l @ nal \<noteq> []" using un(1) by (auto simp: unit_bytes_def)
  have cl: "count_list gs True \<le> length (entries (m_input_free_q s))" using a(8) d(3) by simp
  have src: "source_has (units_bytes vs @ l @ nal) fl s" using a(2) by (simp add: us units_bytes_def)
  obtain s1 where s1: "push_loop P raw ErrorNone s = push_loop P raw ErrorNone s1" "framing_ok cap m k s1"
    "assembled s1 = a1" "source_has (l @ nal) fl s1" "client_side s1 = client_side s" "detector s1 = (ps1, Some ut1)"
    "length (entries (m_input_free_q s)) \<le> length (entries (m_input_free_q s1)) + count_list gs True"
    using push_loop_units [OF a(1) src rest un(3) a(6) d(1) a(5) cl a1(1) assms(2)] by blast
  have free: "new \<longrightarrow> entries (m_input_free_q s1) \<noteq> []"
    using s1(7) a(8) d(3) n(3) by (auto simp del: length_entries)
  have src1: "source_has (l @ nal @ []) fl s1" using s1(4) by simp
  obtain s2 where s2: "h264_unit P raw s1 = Some (ErrorNone, s2)" "framing_ok cap m k s2" "assembled s2 = a"
    "source_has [] fl s2" "client_side s2 = client_side s1" "detector s2 = (ps2, Some ut2)"
    using h264_unit_ok [OF s1(2) src1 un(1,2) s1(6) n(1,2) a(5) free a1(2)[folded s1(3)]] by blast
  have "push_one P raw s1 = h264_source_done P raw s2" using push_input_unit [OF s1(2) _ s2(1)] un(2) by simp
  moreover have "psource_frame s1 \<noteq> None" using s1(5) assms(2) by (simp add: client_side_def)
  ultimately show ?thesis using s1 s2 framing_dest [OF s1(2)] by (auto simp: detector_def)
qed

section \<open>From the client's call\<close>

lemma source_side_upd [simp]: "source_side (s\<lparr>frame_count := n\<rparr>) = source_side s"
  by (simp add: source_side_def)

lemma psource_upd [simp]:
  "framing_ok cap m k (s\<lparr>psource_frame := p\<rparr>) = framing_ok cap m k s" "assembled (s\<lparr>psource_frame := p\<rparr>) = assembled s"
  "framing_ok cap m k (s\<lparr>emptied := es\<rparr>) = framing_ok cap m k s" "assembled (s\<lparr>emptied := es\<rparr>) = assembled s"
  by (simp_all add: framing_ok_def parts_ok_def headers_ok_def assembled_def load_dest_def)

lemma units_bytes_nonempty:
  assumes "us \<noteq> []" "\<forall>x \<in> set us. unit_bytes k x" "0 < k"
  shows "units_bytes us \<noteq> []"
proof -
  obtain x vs where "us = x # vs" using assms(1) by (cases us) auto
  then show ?thesis using assms(2,3) by (auto simp: units_bytes_def unit_bytes_def case_prod_beta)
qed

lemma accept_source:
  assumes "source_fits P raw cap m k us fs fl (s\<lparr>psource_frame := Some i\<rparr>)" "psource_frame s = None"
    and "push_loop P raw ErrorNone (s\<lparr>psource_frame := Some i\<rparr>) = Some (e, s')"
  shows "empty_this_buffer_proxy_arbitrary P raw (Some i) s = Some (ErrorNone, s')"
proof -
  have f: "framing_ok cap m k s" using assms(1) by (simp add: source_fits_def)
  have "0 < k" using f by (simp add: framing_ok_def parts_ok_def unit_start_def)
  then have "units_bytes us \<noteq> []"
    using units_bytes_nonempty [of us k] assms(1) by (auto simp: source_fits_def)
  moreover obtain src where src: "load_source (s\<lparr>psource_frame := Some i\<rparr>) = Some src" "buf_ok src" "data src = units_bytes us"
    using assms(1) by (auto simp: source_fits_def source_has_def)
  ultimately have "nFilledLen src \<noteq> 0" using length_data [OF src(2)] by (metis length_0_conv)
  moreover have "\<not> input_flush_progress (vd s)" "pdest_frame s \<noteq> None"
    using f framing_dest [OF f] by (simp_all add: framing_ok_def parts_ok_def)
  ultimately show ?thesis
    using src(1) assms(2,3) by (auto simp: empty_this_buffer_proxy_arbitrary_def push_input_buffer_def)
qed

text \<open>The client's queue is empty, so that the source is the last one.\<close>

definition no_pending :: "vdec_input \<Rightarrow> bool" where
  "no_pending s \<longleftrightarrow> cmd_queue_ok (m_input_pending_q s) \<and> entries (m_input_pending_q s) = []"

lemma return_last:
  "psource_frame s = Some i \<Longrightarrow> no_pending s \<Longrightarrow> return_source s = s\<lparr>emptied := emptied s @ [i], psource_frame := None\<rparr>"
  by (simp add: no_pending_def return_source_last)

text \<open>
  C4. One source buffer with NAL length fields, any number of units and no end of stream refines the
  abstract machine: the frames submitted, the bytes of the frame under construction and the unit
  kept back after the call of the client are what \<open>take_units\<close> makes of them with the answers of
  the detector, whatever the sizes, as long as frames and units fit and the free buffers suffice;
  the buffer is returned once, and the state is ready for the next one.
\<close>
theorem h264_source_refines:
  assumes "source_fits P raw cap m k us fs fl (s\<lparr>psource_frame := Some i\<rparr>)" "psource_frame s = None" "no_pending s"
    and "fl AND BUFFERFLAG_EOS = 0" "take_units cap (zip (sc_units us) fs) (assembled s) = Some a"
  shows "\<exists>s'. empty_this_buffer_proxy_arbitrary P raw (Some i) s = Some (ErrorNone, s') \<and>
    framing_ok cap m k s' \<and> assembled s' = a \<and> emptied s' = emptied s @ [i] \<and> psource_frame s' = None"
proof -
  let ?s = "s\<lparr>psource_frame := Some i\<rparr>"
  have t: "take_units cap (zip (sc_units us) fs) (assembled ?s) = Some a" "psource_frame ?s \<noteq> None" using assms(5) by simp_all
  obtain s1 s2 where s: "push_loop P raw ErrorNone ?s = push_loop P raw ErrorNone s1" "pdest_frame s1 \<noteq> None"
    "psource_frame s1 \<noteq> None" "push_one P raw s1 = h264_source_done P raw s2" "framing_ok cap m k s2" "assembled s2 = a"
    "source_has [] fl s2" "client_side s2 = client_side ?s"
    using push_loop_last [OF assms(1) t(2,1)] by blast
  define s3 where "s3 = s2\<lparr>emptied := emptied s2 @ [i], psource_frame := None\<rparr>"
  have "return_source s2 = s3"
    using return_last [of s2 i] s(8) assms(3) by (simp add: s3_def client_side_def no_pending_def)
  moreover obtain src where "load_source s2 = Some src" "buf_ok src" "data src = []" "nFlags src = fl"
    using s(7) by (auto simp: source_has_def)
  moreover from this have "nFilledLen src = 0" using length_data [of src] by simp
  ultimately have "h264_source_done P raw s2 = Some (ErrorNone, s3)" using assms(4) by (simp add: h264_source_done_def)
  then have "push_loop P raw ErrorNone ?s = Some (ErrorNone, s3)"
    using push_loop_step [OF s(2,3)] s(1,4) push_loop_end [of s3] by (simp add: s3_def)
  from accept_source [OF assms(1,2) this] show ?thesis using s by (simp add: s3_def client_side_def)
qed

section \<open>The end of the stream\<close>

lemma is_new_frame_empty:
  assumes "2 \<le> length buffer"
  shows "\<exists>ut'. is_new_frame buffer 0 0 raw ut = Some ((False, False), ut')"
proof -
  have "mem_at buffer 0 = Some (buffer ! 0)" "mem_at buffer 1 = Some (buffer ! 1)"
    unfolding mem_at_def using assms by (simp_all del: length_greater_0_conv)
  then have "extract_rbsp buffer 0 0 (m_rbspBytes ut) 0 raw = Some (0, m_rbspBytes ut, 0, raw)"
    by (simp add: extract_rbsp_def Let_def start_code_search.simps)
  then show ?thesis by (simp add: is_new_frame_def)
qed

lemma push_last_ok:
  assumes "framing_ok cap m k s" "assembled s = (fs, cur, kept)" "cur = [] \<or> kept = []" "length (cur @ kept) \<le> cap"
    and "mutils s = Some ut" "2 \<le> m" "accepts_frames P"
  shows "\<exists>s'. push_last P raw src s = Some (ErrorNone, True, s') \<and> map fst (submitted s') = fs @ [cur @ kept] \<and>
    pdest_frame s' = None \<and> client_side s' = client_side s"
proof -
  have h: "headers_ok cap s" "whole_buffer m (h264_scratch s)" using assms(1) by (simp_all add: framing_ok_def parts_ok_def)
  obtain d where d: "load_dest s = Some d" "whole_buffer cap d" using headers_load [OF h(1)] by blast
  have a: "data d = cur" "data (h264_scratch s) = kept" "map fst (submitted s) = fs" using d assms(2) by (simp_all add: assembled_def)
  have fits: "scratch_fits (h264_scratch s) d" using copy_scratch_emit(2,3) [OF h(2) d(2)] assms(4) a by simp
  have fin: "\<exists>s1 h' s3. append_scratch f t = Some (ErrorNone, s1) \<and> load_dest s1 = Some h' \<and>
      submit_frame P ((store_dest (h'\<lparr>nFlags := nFlags (h264_scratch s1) OR nFlags src\<rparr>) s1)\<lparr>frame_count := frame_count s1 + 1\<rparr>) =
        Some (ErrorNone, s3) \<and> map fst (submitted s3) = fs @ [cur @ kept] \<and> client_side s3 = client_side s"
    if t: "keeps_bytes f" "parts_ok cap m k t" "load_dest t = Some d" "h264_scratch t = h264_scratch s"
      "submitted t = submitted s" "source_side t = source_side s" for f t
  proof -
    have ht: "headers_ok cap t" "whole_buffer m (h264_scratch t)" using t(2) by (simp_all add: parts_ok_def)
    have "length (data d @ data (h264_scratch t)) \<le> cap" using assms(4) a t(4) by simp
    from append_scratch_fits [OF ht(1) t(3) d(2) ht(2) this t(1)] obtain h'
      where h': "append_scratch f t = Some (ErrorNone, empty_scratch (store_dest h' t))" "whole_buffer cap h'"
        "data h' = cur @ kept" using a t(4) by auto
    let ?s1 = "empty_scratch (store_dest h' t)"
    define h1 where "h1 = h'\<lparr>nFlags := nFlags (h264_scratch ?s1) OR nFlags src\<rparr>"
    define s2 where "s2 = (store_dest h1 ?s1)\<lparr>frame_count := frame_count ?s1 + 1\<rparr>"
    have p1: "parts_ok cap m k ?s1" "load_dest ?s1 = Some h'"
      using t(2) headers_store [OF ht(1) h'(2)] whole_empty [OF ht(2)] by (simp_all add: parts_ok_def)
    have h1: "whole_buffer cap h1" "data h1 = cur @ kept" using h'(2,3) by (simp_all add: h1_def)
    have p2: "parts_ok cap m k s2" "load_dest s2 = Some h1"
      using p1 headers_store [of cap ?s1 h1] h1(1) by (simp_all add: s2_def parts_ok_def)
    obtain s3 where s3: "submit_frame P s2 = Some (ErrorNone, s3)" "untouched s2 s3"
      "submitted s3 = submitted s2 @ [(data h1, nTimeStamp h1)]"
      using submit_frame_ok [OF p2(1) assms(7) p2(2) h1(1)] by blast
    have "source_side s2 = source_side s" using t(6) by (simp add: s2_def)
    then have "client_side s3 = client_side s" using s3(2) source_side_same [of s3 s] by (simp add: untouched_def)
    moreover have "map fst (submitted s3) = fs @ [cur @ kept]" using s3(3) h1(2) a t(5) by (simp add: s2_def)
    ultimately show ?thesis using h'(1) p1(2) s3(1) unfolding s2_def h1_def by blast
  qed
  show ?thesis
  proof (cases "cur = []")
    case True
    then have n: "nFilledLen d = 0" using whole_nonempty [OF d(2)] a by simp
    define f :: "omx_buffer \<Rightarrow> omx_buffer" where "f = (\<lambda>h. h\<lparr>nTimeStamp := nTimeStamp (h264_scratch s)\<rparr>)"
    have "keeps_bytes f" "parts_ok cap m k s" using assms(1) by (simp_all add: f_def keeps_bytes_def framing_ok_def)
    from fin [OF this d(1) refl refl refl] obtain s1 h' s3 where "append_scratch f s = Some (ErrorNone, s1)" "load_dest s1 = Some h'"
      "submit_frame P ((store_dest (h'\<lparr>nFlags := nFlags (h264_scratch s1) OR nFlags src\<rparr>) s1)\<lparr>frame_count := frame_count s1 + 1\<rparr>) =
        Some (ErrorNone, s3)" "map fst (submitted s3) = fs @ [cur @ kept]" "client_side s3 = client_side s" by blast
    then show ?thesis using framing_dest [OF assms(1)] d(1) fits n
      by (auto simp: push_last_def f_def client_side_def Let_def)
  next
    case False
    then have n: "nFilledLen d \<noteq> 0" "nFilledLen (h264_scratch s) = 0"
      using whole_nonempty [OF d(2)] whole_nonempty [OF h(2)] a assms(3) by simp_all
    have "2 \<le> length (pBuffer (h264_scratch s))" using h(2) assms(6) by (simp add: whole_buffer_def buf_ok_def)
    then obtain ut' where ut': "is_new_frame (pBuffer (h264_scratch s)) 0 0 raw ut = Some ((False, False), ut')"
      using is_new_frame_empty by blast
    define t where "t = s\<lparr>mutils := Some ut'\<rparr>"
    define f :: "omx_buffer \<Rightarrow> omx_buffer" where "f = (\<lambda>h. h\<lparr>nTimeStamp := h264_last_au_ts t\<rparr>)"
    have "keeps_bytes f" "parts_ok cap m k t" "load_dest t = Some d" "h264_scratch t = h264_scratch s"
      "submitted t = submitted s" "source_side t = source_side s"
      using assms(1) d(1) by (simp_all add: f_def t_def keeps_bytes_def framing_ok_def parts_ok_def source_side_def)
    from fin [OF this] obtain s1 h' s3 where "append_scratch f t = Some (ErrorNone, s1)" "load_dest s1 = Some h'"
      "submit_frame P ((store_dest (h'\<lparr>nFlags := nFlags (h264_scratch s1) OR nFlags src\<rparr>) s1)\<lparr>frame_count := frame_count s1 + 1\<rparr>) =
        Some (ErrorNone, s3)" "map fst (submitted s3) = fs @ [cur @ kept]" "client_side s3 = client_side s" by blast
    then show ?thesis using framing_dest [OF assms(1)] d(1) fits n ut' assms(5)
      by (auto simp: push_last_def f_def t_def client_side_def Let_def)
  qed
qed

lemma take_unit_parts: "take_unit cap x a = Some (fs, cur, kept) \<Longrightarrow> cur = [] \<or> kept = []"
  by (cases "(cap, x, a)" rule: take_unit.cases) (auto simp: Let_def split: if_splits)

lemma take_units_parts:
  assumes "xs \<noteq> []" "take_units cap xs a = Some (fs, cur, kept)"
  shows "cur = [] \<or> kept = []"
proof -
  obtain ys y where "xs = ys @ [y]" using assms(1) by (metis rev_exhaust)
  then obtain a1 where "take_unit cap y a1 = Some (fs, cur, kept)"
    using assms(2) by (auto simp: take_units_append bind_eq_Some_conv simp del: take_unit.simps)
  then show ?thesis by (rule take_unit_parts)
qed

lemma stream_end:
  assumes "source_fits P raw cap m k us fs fl (s\<lparr>psource_frame := Some i\<rparr>)" "psource_frame s = None" "no_pending s"
    and "fl AND BUFFERFLAG_EOS \<noteq> 0" "take_units cap (zip (sc_units us) fs) (assembled s) = Some (prev, cur, kept)"
    and "length (cur @ kept) \<le> cap"
  shows "\<exists>s'. empty_this_buffer_proxy_arbitrary P raw (Some i) s = Some (ErrorNone, s') \<and>
    map fst (submitted s') = prev @ [cur @ kept] \<and> emptied s' = emptied s @ [i] \<and> psource_frame s' = None"
proof -
  let ?s = "s\<lparr>psource_frame := Some i\<rparr>"
  have t: "take_units cap (zip (sc_units us) fs) (assembled ?s) = Some (prev, cur, kept)" "psource_frame ?s \<noteq> None"
    using assms(5) by simp_all
  obtain s1 s2 ut where s: "push_loop P raw ErrorNone ?s = push_loop P raw ErrorNone s1" "pdest_frame s1 \<noteq> None"
    "psource_frame s1 \<noteq> None" "push_one P raw s1 = h264_source_done P raw s2" "framing_ok cap m k s2"
    "assembled s2 = (prev, cur, kept)" "source_has [] fl s2" "client_side s2 = client_side ?s" "mutils s2 = Some ut"
    using push_loop_last [OF assms(1) t(2,1)] by blast
  obtain us' x where x: "us = x # us'" "4 + length (snd x) \<le> m" "accepts_frames P"
    using assms(1) by (cases us) (auto simp: source_fits_def)
  have "length fs = length (sc_units us)" using assms(1) detections_length by (auto simp: source_fits_def)
  then have "zip (sc_units us) fs \<noteq> []" by (cases fs) (simp_all add: x sc_units_def)
  note parts = take_units_parts [OF this assms(5)]
  obtain src where src: "load_source s2 = Some src" "buf_ok src" "data src = []" "nFlags src = fl"
    using s(7) by (auto simp: source_has_def)
  have "2 \<le> m" using x by simp
  from push_last_ok [OF s(5,6) parts assms(6) s(9) this x(3)] obtain s3 where s3: "push_last P raw src s2 = Some (ErrorNone, True, s3)"
    "map fst (submitted s3) = prev @ [cur @ kept]" "pdest_frame s3 = None" "client_side s3 = client_side s2" by blast
  define s4 where "s4 = s3\<lparr>emptied := emptied s3 @ [i], psource_frame := None\<rparr>"
  have r: "return_source s3 = s4"
    using return_last [of s3 i] s(8) s3(4) assms(3) by (simp add: s4_def client_side_def no_pending_def)
  have "nFilledLen src = 0" using length_data [OF src(2)] src(3) by simp
  then have "h264_source_done P raw s2 = Some (ErrorNone, s4)"
    using assms(4) src s3(1) r by (simp add: h264_source_done_def)
  then have "push_loop P raw ErrorNone ?s = Some (ErrorNone, s4)"
    using push_loop_step [OF s(2,3)] s(1,4) push_loop_end [of s4] by (simp add: s4_def)
  from accept_source [OF assms(1,2) this] show ?thesis using s s3 by (simp add: s4_def client_side_def)
qed

section \<open>Units of a stream\<close>

fun framed :: "stream_unit \<Rightarrow> u8 list \<times> u8 list" where
  "framed (l, h, r, mb) = (l, nal_of (l, h, r, mb))"

fun unit_ok :: "nat \<Rightarrow> nat \<Rightarrow> nat \<Rightarrow> stream_unit \<Rightarrow> bool" where
  "unit_ok k m R (l, h, r, mb) \<longleftrightarrow> unit_bytes k (l, h # escape 0 r) \<and> 5 + length (escape 0 r) \<le> m
     \<and> unit_readable R (l, h, r, mb)"

lemma unit_ok_readable: "unit_ok k m R x \<Longrightarrow> unit_readable R x"
  by (cases x) simp

lemma units_detected:
  assumes "\<forall>x \<in> set xs. unit_ok k m R x" "length (m_rbspBytes ut) = R" "same_detector ut vt" "parser_ok M ps"
    and "m \<le> M" "M \<le> 2 ^ 23"
  shows "\<exists>r. detections raw (sc_units (map framed xs)) (ps, ut) = Some (boundary_flags (map unit_info xs) vt, r)"
  using assms(1-4)
proof (induction xs arbitrary: ps ut vt)
  case Nil
  then show ?case by (simp add: sc_units_def)
next
  case (Cons x xs)
  obtain l h r mb where x: "x = (l, h, r, mb)" by (cases x)
  define vt' where "vt' = (snd (frame_decision (nal_header h) mb vt))\<lparr>m_prv_nalu := nal_header h\<rparr>"
  have ux: "unit_ok k m R x" using Cons.prems(1) by simp
  obtain ut' where ut': "is_new_frame (sc_unit (nal_of x)) (length (sc_unit (nal_of x))) 0 raw ut =
      Some ((True, fst (frame_decision (nal_header h) mb vt)), ut')"
    "length (m_rbspBytes ut') = R" "same_detector ut' vt'"
    using unit_detected [OF unit_ok_readable [OF ux] Cons.prems(2,3), of raw] by (auto simp: x vt'_def)
  have "length (sc_unit (nal_of x)) \<le> M" using ux assms(5) by (simp add: x sc_unit_def)
  from parse_nal_ok [OF Cons.prems(4) this assms(6)] obtain ps'
    where ps': "parse_nal (sc_unit (nal_of x)) NALU_TYPE_SPS True ps = Some ps'" "parser_ok M ps'"
    by (auto simp: yields_def)
  obtain q where "detections raw (sc_units (map framed xs)) (ps', ut') = Some (boundary_flags (map unit_info xs) vt', q)"
    using Cons.IH [OF _ ut'(2,3) ps'(2)] Cons.prems(1) by auto
  then show ?case using ut'(1) ps'(1) by (simp add: sc_units_def x case_prod_beta vt'_def)
qed

section \<open>Access units\<close>

lemma take_same_frame:
  "length (cur @ kept @ concat vs) \<le> cap \<Longrightarrow>
   \<exists>cur' kept'. take_units cap (zip vs (replicate (length vs) False)) (fs, cur, kept) = Some (fs, cur', kept') \<and>
     cur' @ kept' = cur @ kept @ concat vs"
proof (induction vs arbitrary: cur kept)
  case (Cons v vs)
  have "length ((cur @ kept @ v) @ [] @ concat vs) \<le> cap" using Cons.prems by simp
  from Cons.IH [OF this] show ?case using Cons.prems by (auto simp: Let_def)
qed simp

lemma take_next_frame:
  assumes "cur @ kept \<noteq> []" "length (cur @ kept) \<le> cap" "length (concat vs) \<le> cap" "vs \<noteq> []"
  shows "\<exists>cur' kept'. take_units cap (zip vs (first_only vs)) (fs, cur, kept) =
     Some (fs @ [cur @ kept], cur', kept') \<and> cur' @ kept' = concat vs"
proof -
  obtain w ws where v: "vs = w # ws" using assms(4) by (cases vs) auto
  have "length ([] @ w @ concat ws) \<le> cap" using assms(3) v by simp
  from take_same_frame [OF this, of "fs @ [cur @ kept]"] show ?thesis
    using assms(1,2) by (auto simp: v Let_def first_only_def)
qed

lemma take_next_frames:
  assumes "cur @ kept \<noteq> []" "length (cur @ kept) \<le> cap"
    and "\<forall>vs \<in> set vss. concat vs \<noteq> [] \<and> length (concat vs) \<le> cap"
  shows "\<exists>fs' cur' kept'. take_units cap (zip (concat vss) (concat (map (\<lambda>vs. first_only vs) vss)))
      (fs, cur, kept) = Some (fs', cur', kept') \<and> fs' @ [cur' @ kept'] = fs @ [cur @ kept] @ map concat vss \<and>
    cur' @ kept' \<noteq> [] \<and> length (cur' @ kept') \<le> cap"
  using assms
proof (induction vss arbitrary: fs cur kept)
  case Nil
  then show ?case by simp
next
  case (Cons vs vss)
  have vs: "vs \<noteq> []" "length (concat vs) \<le> cap" "concat vs \<noteq> []" using Cons.prems(3) by auto
  obtain cur1 kept1 where 1: "take_units cap (zip vs (first_only vs)) (fs, cur, kept) =
     Some (fs @ [cur @ kept], cur1, kept1)" "cur1 @ kept1 = concat vs"
    using take_next_frame [OF Cons.prems(1,2) vs(2,1)] by blast
  have "cur1 @ kept1 \<noteq> []" "length (cur1 @ kept1) \<le> cap" using vs 1(2) by simp_all
  from Cons.IH [OF this, of "fs @ [cur @ kept]"] Cons.prems(3) obtain fs' cur' kept'
    where "take_units cap (zip (concat vss) (concat (map (\<lambda>vs. first_only vs) vss)))
      (fs @ [cur @ kept], cur1, kept1) = Some (fs', cur', kept')"
      "fs' @ [cur' @ kept'] = (fs @ [cur @ kept]) @ [cur1 @ kept1] @ map concat vss" "cur' @ kept' \<noteq> []"
      "length (cur' @ kept') \<le> cap" by auto
  moreover have "length vs = length (first_only vs)" using vs(1) by (cases vs) (auto simp: first_only_def)
  ultimately show ?case using 1 by (auto simp: take_units_append)
qed

text \<open>An access unit of the stream as it should reach the driver.\<close>

definition frame_of :: "stream_unit list \<times> stream_unit list \<Rightarrow> u8 list" where
  "frame_of au = concat (map (\<lambda>x. sc_unit (nal_of x)) (fst au @ snd au))"

lemma take_stream:
  assumes "\<forall>vs \<in> set (v # vss). concat vs \<noteq> [] \<and> length (concat vs) \<le> cap"
  shows "\<exists>fs' cur' kept'. take_units cap (zip (concat (v # vss)) (b # replicate (length v - 1) False @ concat (map first_only vss)))
      (fs, [], []) = Some (fs', cur', kept') \<and> fs' @ [cur' @ kept'] = fs @ map concat (v # vss) \<and> length (cur' @ kept') \<le> cap"
proof -
  obtain w ws where v: "v = w # ws" using assms by (cases v) auto
  have "length (w @ [] @ concat ws) \<le> cap" using assms v by simp
  from take_same_frame [OF this, of fs] obtain cur kept
    where 1: "take_units cap (zip ws (replicate (length ws) False)) (fs, w, []) = Some (fs, cur, kept)" "cur @ kept = concat v"
    by (auto simp: v)
  have f: "take_units cap (zip v (b # replicate (length v - 1) False)) (fs, [], []) = Some (fs, cur, kept)"
    using 1(1) assms by (simp add: v Let_def)
  have "cur @ kept \<noteq> []" "length (cur @ kept) \<le> cap" "\<forall>vs \<in> set vss. concat vs \<noteq> [] \<and> length (concat vs) \<le> cap"
    unfolding 1(2) using assms by simp_all
  from take_next_frames [OF this, of fs] obtain fs' cur' kept'
    where 2: "take_units cap (zip (concat vss) (concat (map first_only vss))) (fs, cur, kept) = Some (fs', cur', kept')"
      "fs' @ [cur' @ kept'] = fs @ [cur @ kept] @ map concat vss" "length (cur' @ kept') \<le> cap" by blast
  have "zip (concat (v # vss)) (b # replicate (length v - 1) False @ concat (map first_only vss)) =
      zip v (b # replicate (length v - 1) False) @ zip (concat vss) (concat (map first_only vss))"
    using zip_append [of v "b # replicate (length v - 1) False" "concat vss" "concat (map first_only vss)"] by (simp add: v)
  then show ?thesis using f 2 1(2) by (simp add: take_units_append)
qed

lemma count_answers: "count_list (b # replicate n False @ concat (map first_only vss)) True \<le> Suc (length vss)"
proof -
  have "count_list (replicate j False) True = 0" for j by (induction j) auto
  moreover from this have "count_list (concat (map first_only vss)) True = length vss"
    by (induction vss) (simp_all add: first_only_def)
  ultimately show ?thesis by simp
qed

lemma sc_units_framed: "sc_units (map framed xs) = map (\<lambda>x. sc_unit (nal_of x)) xs"
  by (induction xs) (auto simp: sc_units_def)

lemma unit_ok_framed: "unit_ok k m R x \<Longrightarrow> unit_bytes k (framed x) \<and> 4 + length (snd (framed x)) \<le> m"
  by (cases x) simp

lemma frame_of_nonempty: "access_unit (au_info au) \<Longrightarrow> frame_of au \<noteq> []"
  by (cases "snd au") (auto simp: access_unit_def picture_slices_def au_info_def frame_of_def sc_unit_def)

text \<open>What the component needs for a stream: parser, detector and free buffers.\<close>

definition stream_ready :: "nat \<Rightarrow> nat \<Rightarrow> nat \<Rightarrow> nat \<Rightarrow> vdec_input \<Rightarrow> bool" where
  "stream_ready cap m k R s \<longleftrightarrow> framing_ok cap m k s \<and> m \<le> 2 ^ 23 \<and> parser_ok (2 ^ 23) (h264_parser s) \<and> psource_frame s = None
     \<and> no_pending s \<and> (\<exists>ut. mutils s = Some ut \<and> length (m_rbspBytes ut) = R \<and> \<not> m_forceToStichNextNAL ut \<and> \<not> m_au_data ut)"

text \<open>
  C3. The arbitrary byte mode delivers access units: a buffer that holds a stream of H.264 access
  units with NAL length fields, each made of parameter sets and SEI followed by the slices of one picture, and that
  carries the end of the stream, reaches a driver that accepts its frames as exactly one frame per
  access unit, in order, each the units of the access unit with start codes in place of the length fields;
  no byte is lost, none belongs to two frames, and the buffer goes back to the client once.
\<close>
theorem access_units_reach_driver:
  assumes "stream_ready cap m k R s" "assembled s = (prev, [], [])" "accepts_frames P" "aus \<noteq> []"
    and "source_has (units_bytes (map framed (all_units aus))) fl (s\<lparr>psource_frame := Some i\<rparr>)" "fl AND BUFFERFLAG_EOS \<noteq> 0"
    and "\<forall>x \<in> set (all_units aus). unit_ok k m R x"
    and "\<forall>a \<in> set aus. access_unit (au_info a) \<and> length (frame_of a) \<le> cap"
    and "length aus \<le> length (entries (m_input_free_q s))"
  shows "\<exists>s'. empty_this_buffer_proxy_arbitrary P raw (Some i) s = Some (ErrorNone, s') \<and>
    map fst (submitted s') = prev @ map frame_of aus \<and> emptied s' = emptied s @ [i] \<and> psource_frame s' = None"
proof -
  let ?s = "s\<lparr>psource_frame := Some i\<rparr>"
  obtain au aus' where aus: "aus = au # aus'" using assms(4) by (cases aus) auto
  from assms(1) obtain ut where r: "framing_ok cap m k s" "m \<le> 2 ^ 23" "parser_ok (2 ^ 23) (h264_parser s)" "psource_frame s = None"
    "no_pending s" "mutils s = Some ut" "length (m_rbspBytes ut) = R" "\<not> m_forceToStichNextNAL ut" "\<not> m_au_data ut"
    by (auto simp: stream_ready_def)
  let ?us = "map framed (all_units aus)"
  define uv where "uv = (\<lambda>a. map (\<lambda>x. sc_unit (nal_of x)) (fst a @ snd a))"
  obtain b where b: "boundary_flags (map unit_info (all_units aus)) ut =
      b # replicate (length (fst au @ snd au) - 1) False @ concat (map (\<lambda>a. first_only (fst a @ snd a)) aus')" (is "_ = ?fl")
    using access_unit_answers [of au aus' ut] assms(8) r(8,9) unfolding aus by blast
  obtain q where det: "detections raw (sc_units ?us) (h264_parser s, ut) = Some (?fl, q)"
    using units_detected [OF assms(7) r(7) _ r(3,2), of ut raw] b by (auto simp: same_detector_def)
  have fo: "frame_of a = concat (uv a)" for a by (simp add: frame_of_def uv_def)
  have su: "sc_units ?us = concat (uv au # map uv aus')"
    unfolding sc_units_framed by (simp add: aus all_units_def uv_def map_concat comp_def)
  have fl: "?fl = b # replicate (length (uv au) - 1) False @ concat (map first_only (map uv aus'))"
    by (simp add: uv_def first_only_def comp_def)
  have "concat (uv a) \<noteq> [] \<and> length (concat (uv a)) \<le> cap" if "a \<in> set aus" for a
    using assms(8) that frame_of_nonempty [of a] unfolding fo [symmetric] by blast
  then have "\<forall>vs \<in> set (uv au # map uv aus'). concat vs \<noteq> [] \<and> length (concat vs) \<le> cap"
    unfolding aus by (metis (no_types, lifting) imageE list.set_map list.simps(9))
  from take_stream [OF this, of b prev] obtain fs' cur' kept'
    where tk: "take_units cap (zip (sc_units ?us) ?fl) (prev, [], []) = Some (fs', cur', kept')"
      "fs' @ [cur' @ kept'] = prev @ map concat (uv au # map uv aus')" "length (cur' @ kept') \<le> cap"
    unfolding su fl by blast
  have cnt: "count_list ?fl True \<le> length (entries (m_input_free_q s))"
    using count_answers [of b "length (uv au) - 1" "map uv aus'"] assms(9) unfolding fl by (simp add: aus)
  have "all_units aus \<noteq> []"
    using assms(8) by (auto simp: aus all_units_def access_unit_def picture_slices_def au_info_def)
  then have fits: "source_fits P raw cap m k ?us ?fl fl ?s"
    using assms(3,5,7) r(1,6) det cnt unit_ok_framed by (auto simp: source_fits_def)
  have "take_units cap (zip (sc_units ?us) ?fl) (assembled s) = Some (fs', cur', kept')" using tk(1) assms(2) by simp
  from stream_end [OF fits r(4,5) assms(6) this tk(3)] show ?thesis
    unfolding tk(2) by (simp add: aus ext [of frame_of "\<lambda>a. concat (uv a)", OF fo] comp_def)
qed

section \<open>An end of stream without bytes\<close>

text \<open>
  C30. With NAL length fields an empty buffer that only carries the end of the stream is an error:
  whatever the component has assembled, the call of the client succeeds, but the splitter rejects the
  buffer, a hardware error is reported, the frame under construction and the unit kept back never reach the driver, and the
  client does not get the buffer back.
\<close>
theorem empty_eos_is_an_error:
  assumes "framing_ok cap m k s" "0 < m" "assembled s = (fs, cur, kept)" "length (cur @ kept) \<le> cap" "psource_frame s = None"
    and "source_has [] fl (s\<lparr>psource_frame := Some i\<rparr>)" "fl AND BUFFERFLAG_EOS \<noteq> 0" "\<not> m_error_propogated (vd s)"
  shows "\<exists>s'. empty_this_buffer_proxy_arbitrary P raw (Some i) s = Some (ErrorNone, s') \<and> map fst (submitted s') = fs \<and>
    emptied s' = emptied s \<and> psource_frame s' = Some i \<and> last (callbacks (vd s')) = EventError ErrorHardware"
proof -
  let ?s = "s\<lparr>psource_frame := Some i\<rparr>"
  have f: "framing_ok cap m k ?s" "assembled ?s = (fs, cur, kept)" using assms(1,3) by simp_all
  obtain s1 where s1: "copy_look_ahead ?s = Some (ErrorNone, s1)" "framing_ok cap m k s1" "assembled s1 = (fs, cur @ kept, [])"
    "source_side s1 = source_side ?s"
    using copy_look_ahead_ok [OF f assms(4)] by blast
  have e: "m_error_propogated (vd s1) = m_error_propogated (vd s)"
    using s1(1) by (auto simp: copy_look_ahead_def append_scratch_def bind_eq_Some_conv store_dest_def store_in_def
        split: if_splits option.splits)
  obtain src where src: "load_source ?s = Some src" "buf_ok src" "data src = []" "nFlags src = fl"
    using assms(6) by (auto simp: source_has_def)
  have n: "nFilledLen src = 0" using length_data [OF src(2)] src(3) by simp
  have ld: "load_source s1 = Some src" using s1(4) src(1) by (simp add: source_side_def)
  have k: "omx_nal_length s1 = k" "k \<noteq> 0" using s1(2) by (simp_all add: framing_ok_def parts_ok_def unit_start_def)
  define s2 where "s2 = store_source src (s1\<lparr>m_frame_parser := m_frame_parser s1, h264_scratch := h264_scratch s1\<rparr>)"
  have "parse_source s1 = Some (- 1, 1, s2)"
    using ld k n by (simp add: parse_source_def parse_h264_nallength_def s2_def)
  then have "h264_unit P raw ?s = Some (ErrorBadParameter, s2)" using s1(1) by (simp add: h264_unit_def)
  moreover have "codec_type_parse (vd ?s) = CODEC_TYPE_H264" using f(1) by (simp add: framing_ok_def parts_ok_def)
  moreover have "pBuffer (h264_scratch ?s) \<noteq> []" using scratch_there [OF f(1) assms(2)] by simp
  ultimately have one: "push_one P raw ?s = Some (ErrorBadParameter, s2)" by (simp add: push_one_def push_input_h264_def)
  define s3 where "s3 = s2\<lparr>vd := omx_report_error (vd s2)\<rparr>"
  have "push_loop P raw ErrorNone ?s = Some (ErrorBadParameter, s3)"
    using one framing_dest [OF f(1)] by (subst push_loop.simps) (simp add: s3_def)
  moreover have "\<not> input_flush_progress (vd s)" using assms(1) by (simp add: framing_ok_def parts_ok_def)
  ultimately have "empty_this_buffer_proxy_arbitrary P raw (Some i) s = Some (ErrorNone, s3)"
    using src n assms(5,7) framing_dest [OF assms(1)]
    by (auto simp: empty_this_buffer_proxy_arbitrary_def push_input_buffer_def)
  then show ?thesis using s1 assms(8) e
    by (simp add: s3_def s2_def omx_report_error_def callback_def assembled_def source_side_def)
qed

section \<open>A concrete stream\<close>

text \<open>
  Four input buffers of 64 bytes, the first one in use and the others free; a scratch buffer of 16 bytes; one client's
  buffer with a stream of two access units, with length fields of one byte.
\<close>

definition sample_dest :: buffer_header where
  "sample_dest = \<lparr>hdr = sample_dst 64, nPortIndex = InputPort, pPortPrivate = True\<rparr>"

definition sample_free :: "nat omx_cmd_queue" where
  "sample_free = enqueue 3 (enqueue 2 (enqueue 1 (new_cmd_queue 0)))"

definition willing_driver :: platform where
  "willing_driver = \<lparr>driver = \<lambda>_ _. Done, QOMX_VIDEO_BUFFERFLAG_EOSEQ = 0x400000, OMX_FRAMEINFO_EXTRADATA_SIZE = 64,
     OMX_INTERLACE_EXTRADATA_SIZE = 36, OMX_PORTDEF_EXTRADATA_SIZE = 128, sizeof_OMX_OTHER_EXTRADATATYPE = 24\<rparr>"

definition sample_input :: "u8 list \<Rightarrow> u32 \<Rightarrow> vdec_input" where
  "sample_input bs fl = \<lparr>vd = new_omx_vdec\<lparr>m_inp_mem_ptr := Some (replicate 4 sample_dest),
     ip_buf := no_property\<lparr>actualcount := 4\<rparr>, codec_type_parse := CODEC_TYPE_H264\<rparr>,
     m_inp_heap_ptr = [(sample_src bs)\<lparr>nFlags := fl\<rparr>], psource_frame = None, pdest_frame = Some 0,
     m_input_pending_q = new_cmd_queue 0, m_input_free_q = sample_free, h264_scratch = sample_dst 16, look_ahead_nal = False,
     nal_count = 0, frame_count = 0, omx_nal_length = 1, h264_last_au_ts = LLONG_MAX, h264_last_au_flags = 0,
     m_frame_parser = (frame_parse_init 0)\<lparr>nal_length := 1\<rparr>,
     mutils = Some (sample_utils\<lparr>m_rbspBytes := replicate 4 0\<rparr>),
     h264_parser = new_h264_stream_parser (\<lambda>n. Some (replicate n raw_node)) blank_parser,
     first_frame = False, m_vc1_profile = VC1_SP_MP_RCV, m_vendor_config = None,
     emptied = [], submitted = []\<rparr>"

lemma sample_free_queue: "entries sample_free = [1, 2, 3]" "cmd_queue_ok sample_free"
  "cmd_queue_ok (new_cmd_queue (0 :: nat))" "entries (new_cmd_queue (0 :: nat)) = []"
proof -
  show n: "cmd_queue_ok (new_cmd_queue (0 :: nat))" "entries (new_cmd_queue (0 :: nat)) = []"
    by (simp_all add: new_cmd_queue_def cmd_queue_ok_def entries_def OMX_CORE_CONTROL_CMDQ_SIZE_def)
  have e: "entries (enqueue e q) = entries q @ [e] \<and> cmd_queue_ok (enqueue e q)"
    if "cmd_queue_ok q" "length (entries q) < 4" for q and e :: nat
  proof -
    have "m_size q < OMX_CORE_CONTROL_CMDQ_SIZE" using that(2) by (simp add: OMX_CORE_CONTROL_CMDQ_SIZE_def)
    then show ?thesis using insert_entry_spec [OF that(1), of e] by (auto simp: enqueue_def)
  qed
  show "entries sample_free = [1, 2, 3]" "cmd_queue_ok sample_free"
    using e [of "new_cmd_queue 0" 1] e [of "enqueue 1 (new_cmd_queue 0)" 2]
      e [of "enqueue 2 (enqueue 1 (new_cmd_queue 0))" 3] n by (simp_all add: sample_free_def del: length_entries)
qed

lemma sample_framing: "framing_ok 64 16 1 (sample_input bs fl)" "assembled (sample_input bs fl) = ([], [], [])"
  "stream_ready 64 16 1 4 (sample_input bs fl)" "accepts_frames willing_driver"
proof -
  have d: "whole_buffer n (sample_dst n)" if "n < 2 ^ 32" for n
    using that by (simp add: whole_buffer_def buf_ok_def sample_dst_def)
  have e: "data (sample_dst n) = []" for n by (simp add: data_def sample_dst_def)
  show f: "framing_ok 64 16 1 (sample_input bs fl)"
    using d [of 64] d [of 16] sample_free_queue
    by (auto simp: framing_ok_def parts_ok_def headers_ok_def sample_input_def sample_dest_def new_omx_vdec_def unit_start_def
        frame_parse_init_def sample_dst_def)
  show "assembled (sample_input bs fl) = ([], [], [])"
    using e by (simp add: assembled_def sample_input_def load_dest_def load_header_def sample_dest_def)
  have "parser_ok (2 ^ 23) (new_h264_stream_parser (\<lambda>n. Some (replicate n raw_node)) blank_parser)"
    by (rule new_parser_ok [of _ "replicate 10 raw_node"])
      (auto simp: raw_node_def rect_typed_def sample_node_def MAX_PAN_SCAN_RECT_def)
  then show "stream_ready 64 16 1 4 (sample_input bs fl)"
    using f sample_free_queue by (simp add: stream_ready_def no_pending_def) (simp add: sample_input_def sample_utils_def)
  show "accepts_frames willing_driver" by (simp add: accepts_frames_def willing_driver_def)
qed

lemma sample_source: "length bs < 2 ^ 32 \<Longrightarrow> source_has bs fl ((sample_input bs fl)\<lparr>psource_frame := Some 0\<rparr>)"
  by (simp add: source_has_def load_source_def sample_input_def sample_src_def buf_ok_def data_def)

lemma sample_units: "\<forall>x \<in> set (all_units sample_stream). unit_ok 1 16 4 x"
  using sample_stream_readable by (simp add: sample_stream_def all_units_def unit_bytes_def)

lemma sample_access_units:
  "\<forall>a \<in> set sample_stream. access_unit (au_info a) \<and> length (frame_of a) \<le> 64"
  using sample_stream_units by (simp add: sample_stream_def frame_of_def sc_unit_def)

lemma sample_fields: "emptied (sample_input bs fl) = []" "psource_frame (sample_input bs fl) = None"
  "\<not> m_error_propogated (vd (sample_input bs fl))" "m_input_free_q (sample_input bs fl) = sample_free"
  by (simp_all add: sample_input_def new_omx_vdec_def)

theorem access_units_reach_driver_witness:
  "\<exists>s'. empty_this_buffer_proxy_arbitrary willing_driver unset_nalu (Some 0)
       (sample_input [2, 0x67, 0x42, 2, 0x65, 0x88, 2, 0x65, 0x2F, 2, 0x41, 0x88] 1) = Some (ErrorNone, s') \<and>
     map fst (submitted s') = [[0, 0, 0, 1, 0x67, 0x42, 0, 0, 0, 1, 0x65, 0x88, 0, 0, 0, 1, 0x65, 0x2F], [0, 0, 0, 1, 0x41, 0x88]]
     \<and> emptied s' = [0]"
proof -
  define bs :: "u8 list" where "bs = [2, 0x67, 0x42, 2, 0x65, 0x88, 2, 0x65, 0x2F, 2, 0x41, 0x88]"
  have b: "units_bytes (map framed (all_units sample_stream)) = bs"
    by (simp add: units_bytes_def all_units_def sample_stream_def bs_def)
  have "length bs < 2 ^ 32" by (simp add: bs_def)
  note src = sample_source [OF this, of 1, folded b]
  have "sample_stream \<noteq> []" "(1 :: u32) AND BUFFERFLAG_EOS \<noteq> 0"
    "length sample_stream \<le> length (entries (m_input_free_q (sample_input bs 1)))"
    by (simp add: sample_stream_def) (simp add: BUFFERFLAG_EOS_def, simp add: sample_fields sample_free_queue sample_stream_def del: length_entries)
  from access_units_reach_driver [OF sample_framing(3,2,4) this(1) src this(2) sample_units sample_access_units, unfolded b, OF this(3), of unset_nalu]
  show ?thesis by (auto simp add: bs_def frame_of_def sample_stream_def sc_unit_def sample_fields)
qed

theorem empty_eos_is_an_error_witness:
  "\<exists>s'. empty_this_buffer_proxy_arbitrary willing_driver unset_nalu (Some 0) (sample_input [] 1) = Some (ErrorNone, s') \<and>
     submitted s' = [] \<and> emptied s' = [] \<and> psource_frame s' = Some 0"
  using empty_eos_is_an_error [OF sample_framing(1) _ sample_framing(2) _ _ sample_source, of 1 willing_driver unset_nalu]
  by (auto simp add: BUFFERFLAG_EOS_def sample_fields)

theorem h264_source_refines_witness:
  "\<exists>s'. empty_this_buffer_proxy_arbitrary willing_driver unset_nalu (Some 0)
       (sample_input [2, 0x67, 0x42, 2, 0x65, 0x88, 2, 0x65, 0x2F, 2, 0x41, 0x88] 0) = Some (ErrorNone, s') \<and>
     assembled s' = ([[0, 0, 0, 1, 0x67, 0x42, 0, 0, 0, 1, 0x65, 0x88, 0, 0, 0, 1, 0x65, 0x2F]], [], [0, 0, 0, 1, 0x41, 0x88])
     \<and> emptied s' = [0]"
proof -
  define bs :: "u8 list" where "bs = [2, 0x67, 0x42, 2, 0x65, 0x88, 2, 0x65, 0x2F, 2, 0x41, 0x88]"
  define us where "us = map framed (all_units sample_stream)"
  define ut where "ut = sample_utils\<lparr>m_rbspBytes := replicate 4 (0 :: u8)\<rparr>"
  let ?s = "sample_input bs 0"
  have b: "units_bytes us = bs" by (simp add: units_bytes_def all_units_def sample_stream_def bs_def us_def)
  have "length bs < 2 ^ 32" by (simp add: bs_def)
  note src = sample_source [OF this, of 0]
  have ut: "mutils ?s = Some ut" "length (m_rbspBytes ut) = 4" by (simp_all add: sample_input_def ut_def)
  have fl: "boundary_flags (map unit_info (all_units sample_stream)) ut = [False, False, False, True]"
    by (simp add: sample_stream_def all_units_def ut_def sample_utils_def frame_decision_def is_slice_def is_parameter_def
        nal_header_def starts_picture_def unset_nalu_def)
  have p: "parser_ok (2 ^ 23) (h264_parser ?s)" using sample_framing(3) [of bs 0] by (simp add: stream_ready_def)
  obtain r where det: "detections unset_nalu (sc_units us) (h264_parser ?s, ut) = Some ([False, False, False, True], r)"
    using units_detected [OF sample_units ut(2) _ p, of ut unset_nalu] fl by (auto simp: us_def same_detector_def)
  have "us \<noteq> []" "\<forall>x \<in> set us. unit_bytes 1 x \<and> 4 + length (snd x) \<le> 16"
    using unit_ok_framed sample_units by (auto simp: us_def sample_stream_def all_units_def)
  then have fits: "source_fits willing_driver unset_nalu 64 16 1 us [False, False, False, True] 0 (?s\<lparr>psource_frame := Some 0\<rparr>)"
    using sample_framing(1,4) src ut(1) det
    by (simp add: source_fits_def b sample_fields sample_free_queue del: length_entries)
  have "no_pending ?s" using sample_framing(3) [of bs 0] by (simp add: stream_ready_def)
  moreover have "take_units 64 (zip (sc_units us) [False, False, False, True]) (assembled ?s) =
      Some ([[0, 0, 0, 1, 0x67, 0x42, 0, 0, 0, 1, 0x65, 0x88, 0, 0, 0, 1, 0x65, 0x2F]], [], [0, 0, 0, 1, 0x41, 0x88])"
    unfolding sample_framing(2) us_def sc_units_framed by (simp add: sample_stream_def all_units_def sc_unit_def Let_def)
  ultimately show ?thesis
    using h264_source_refines [OF fits sample_fields(2)] by (auto simp: bs_def sample_fields)
qed

end
