(* ===== verification/MdpCtrl.thy ===== *)
theory MdpCtrl
  imports Prelude
begin

text \<open>
  The overlay control object of the display (display/liboverlay/overlayMdp.cpp, overlayMdp.h,
  overlayCtrlData.h, overlayUtils.h, overlayUtils.cpp): the description of one hardware pipe, the
  calculations that are deferred until it is committed, and the ioctls of the frame buffer driver.

  The configuration: neither \<open>MDSS_TARGET\<close> nor \<open>USES_POST_PROCESSING\<close> is defined, so there are no
  post processing parameters and the blend operation is set. The classes \<open>Ctrl\<close> and \<open>Data\<close>, which
  only pass their calls on to \<open>MdpCtrl\<close> and \<open>MdpData\<close>, are not repeated.
\<close>

section \<open>Data\<close>

record Whf =
  whf_w :: u32
  whf_h :: u32
  whf_format :: u32

record Dim =
  dim_x :: u32
  dim_y :: u32
  dim_w :: u32
  dim_h :: u32

text \<open>\<open>struct mdp_overlay\<close>, with the first word of its user data.\<close>

record mdp_overlay =
  ov_src :: Whf
  ov_src_rect :: Dim
  ov_dst_rect :: Dim
  ov_z_order :: u32
  ov_is_fg :: u32
  ov_alpha :: u32
  ov_transp_mask :: u32
  ov_blend_op :: u32
  ov_flags :: u32
  ov_id :: u32
  ov_user_data0 :: u32

record PipeArgs =
  pa_mdpFlags :: u32
  pa_whf :: Whf
  pa_zorder :: u32
  pa_isFg :: u32
  pa_rotFlags :: u32
  pa_planeAlpha :: u32
  pa_blending :: u32

record msm_rotator_img_info =
  ri_session_id :: u32
  ri_src :: Whf
  ri_dst :: Whf
  ri_src_w :: u32
  ri_src_h :: u32
  ri_rotations :: u8
  ri_enable :: bool
  ri_downscale_ratio :: u32
  ri_secure :: bool

record msm_rotator_data_info =
  rd_session_id :: u32
  rd_src_memory_id :: int
  rd_src_offset :: u32
  rd_dst_memory_id :: int
  rd_dst_offset :: u32

section \<open>The driver\<close>

text \<open>
  The calls that leave the library, in the order they are made. What a call returns may depend on
  all calls before it; \<open>MSMFB_OVERLAY_SET\<close> and \<open>MSM_ROTATOR_IOCTL_START\<close> also write their argument
  back when they succeed. Memory comes from the allocation controller as a file descriptor.
\<close>

datatype mdp_device = FbDev u32 | RotDev

datatype mdp_call =
    OpenDev mdp_device
  | CloseFd int
  | OverlaySet int mdp_overlay
  | OverlayUnset int u32
  | OverlayPlay int u32 int u32
  | RotatorStart int msm_rotator_img_info
  | Rotate int msm_rotator_data_info
  | RotatorFinish int u32
  | AllocMem u32 bool
  | FreeMem int u32

record mdp_kernel =
  k_open :: "mdp_call list \<Rightarrow> mdp_device \<Rightarrow> int"
  k_set :: "mdp_call list \<Rightarrow> int \<Rightarrow> mdp_overlay \<Rightarrow> mdp_overlay option"
  k_start :: "mdp_call list \<Rightarrow> int \<Rightarrow> msm_rotator_img_info \<Rightarrow> msm_rotator_img_info option"
  k_alloc :: "mdp_call list \<Rightarrow> u32 \<Rightarrow> bool \<Rightarrow> int option"
  k_ok :: "mdp_call list \<Rightarrow> mdp_call \<Rightarrow> bool"

text \<open>A call that only succeeds or fails.\<close>

definition do_call :: "mdp_kernel \<Rightarrow> mdp_call \<Rightarrow> mdp_call list \<Rightarrow> bool \<times> mdp_call list" where
  "do_call K c t = (k_ok K t c, t @ [c])"

text \<open>The class \<open>OvFD\<close> is the descriptor; \<open>close\<close> does nothing on an invalid one.\<close>

definition INVAL :: int where "INVAL = - 1"

definition OvFD_open :: "mdp_kernel \<Rightarrow> mdp_device \<Rightarrow> mdp_call list \<Rightarrow> bool \<times> int \<times> mdp_call list" where
  "OvFD_open K d t = (let f = k_open K t d in (0 \<le> f, f, t @ [OpenDev d]))"

definition OvFD_close :: "mdp_kernel \<Rightarrow> int \<Rightarrow> mdp_call list \<Rightarrow> bool \<times> int \<times> mdp_call list" where
  "OvFD_close K f t =
     (if f \<noteq> INVAL then let (r, t) = do_call K (CloseFd f) t in (r, INVAL, t) else (True, f, t))"

section \<open>Helpers\<close>

definition MSMFB_NEW_REQUEST :: u32 where "MSMFB_NEW_REQUEST = - 1"

definition MDP_FLIP_LR :: u32 where "MDP_FLIP_LR = 1"
definition MDP_FLIP_UD :: u32 where "MDP_FLIP_UD = 2"
definition MDP_ROT_90 :: u32 where "MDP_ROT_90 = 4"
definition MDP_SOURCE_ROTATED_90 :: u32 where "MDP_SOURCE_ROTATED_90 = 0x00100000"

text \<open>
  The orientation the driver is given: the flips change places when the source is rotated by 90
  degrees. An invalid orientation gives -1.
\<close>

definition getMdpOrient :: "u32 \<Rightarrow> u32" where
  "getMdpOrient r =
     (if r = 0 then 0
      else if r = 2 then MDP_FLIP_UD
      else if r = 1 then MDP_FLIP_LR
      else if r = 4 then MDP_ROT_90
      else if r = 6 then MDP_ROT_90 OR MDP_FLIP_LR
      else if r = 5 then MDP_ROT_90 OR MDP_FLIP_UD
      else if r = 3 then MDP_FLIP_UD OR MDP_FLIP_LR
      else if r = 7 then MDP_ROT_90 OR MDP_FLIP_UD OR MDP_FLIP_LR
      else - 1)"

definition isYuv :: "u32 \<Rightarrow> bool" where
  "isYuv f \<longleftrightarrow> f \<in> {9, 2, 6, 20, 8, 15, 16, 17, 18, 0x10002}"

definition even_ceil :: "u32 \<Rightarrow> u32" where
  "even_ceil v = (if v AND 1 \<noteq> 0 then v + 1 else v)"

definition even_floor :: "u32 \<Rightarrow> u32" where
  "even_floor v = (if v AND 1 \<noteq> 0 then v - 1 else v)"

definition normalizeCrop :: "u32 \<Rightarrow> u32 \<Rightarrow> u32 \<times> u32" where
  "normalizeCrop xy wh =
     (if xy AND 1 \<noteq> 0
      then (even_ceil xy, if wh AND 1 \<noteq> 0 then even_floor wh else wh - 2)
      else (xy, even_floor wh))"

definition flip_h :: "Whf \<Rightarrow> Dim \<Rightarrow> Dim" where
  "flip_h whf d = d\<lparr>dim_x := whf_w whf - (dim_x d + dim_w d)\<rparr>"

definition flip_v :: "Whf \<Rightarrow> Dim \<Rightarrow> Dim" where
  "flip_v whf d = d\<lparr>dim_y := whf_h whf - (dim_y d + dim_h d)\<rparr>"

definition rot_90 :: "Whf \<Rightarrow> Dim \<Rightarrow> Whf \<times> Dim" where
  "rot_90 whf d =
     (whf\<lparr>whf_w := whf_h whf, whf_h := whf_w whf\<rparr>,
      \<lparr>dim_x = whf_h whf - (dim_y d + dim_h d), dim_y = dim_x d, dim_w = dim_h d, dim_h = dim_w d\<rparr>)"

definition preRotateSource :: "u32 \<Rightarrow> Whf \<Rightarrow> Dim \<Rightarrow> Whf \<times> Dim" where
  "preRotateSource tr whf d =
     (let d = (if tr AND 1 \<noteq> 0 then flip_h whf d else d);
          d = (if tr AND 2 \<noteq> 0 then flip_v whf d else d)
      in if tr AND 4 \<noteq> 0 then rot_90 whf d else (whf, d))"

section \<open>MdpCtrl\<close>

record mdp_ctrl =
  mOrientation :: u32
  mLkgo :: mdp_overlay
  mOVInfo :: mdp_overlay
  mFd :: int
  mDownscale :: nat

definition zero_whf :: Whf where "zero_whf = \<lparr>whf_w = 0, whf_h = 0, whf_format = 0\<rparr>"

definition zero_dim :: Dim where "zero_dim = \<lparr>dim_x = 0, dim_y = 0, dim_w = 0, dim_h = 0\<rparr>"

definition new_request :: mdp_overlay where
  "new_request = \<lparr>ov_src = zero_whf, ov_src_rect = zero_dim, ov_dst_rect = zero_dim, ov_z_order = 0,
     ov_is_fg = 0, ov_alpha = 0, ov_transp_mask = 0, ov_blend_op = 0, ov_flags = 0,
     ov_id = MSMFB_NEW_REQUEST, ov_user_data0 = 0\<rparr>"

definition MdpCtrl_reset :: "mdp_ctrl \<Rightarrow> mdp_ctrl" where
  "MdpCtrl_reset c = c\<lparr>mOVInfo := new_request, mLkgo := new_request, mOrientation := 0, mDownscale := 0\<rparr>"

definition new_MdpCtrl :: mdp_ctrl where
  "new_MdpCtrl = \<lparr>mOrientation = 0, mLkgo = new_request, mOVInfo = new_request, mFd = INVAL, mDownscale = 0\<rparr>"

definition MdpCtrl_init :: "mdp_kernel \<Rightarrow> u32 \<Rightarrow> mdp_ctrl \<Rightarrow> mdp_call list \<Rightarrow> bool \<times> mdp_ctrl \<times> mdp_call list" where
  "MdpCtrl_init K fbnum c t =
     (let (r, f, t) = OvFD_open K (FbDev fbnum) t in (r, c\<lparr>mFd := f\<rparr>, t))"

definition MdpCtrl_close :: "mdp_kernel \<Rightarrow> mdp_ctrl \<Rightarrow> mdp_call list \<Rightarrow> bool \<times> mdp_ctrl \<times> mdp_call list" where
  "MdpCtrl_close K c t =
     (let (result, t) =
            (if ov_id (mOVInfo c) \<noteq> MSMFB_NEW_REQUEST
             then do_call K (OverlayUnset (mFd c) (ov_id (mOVInfo c))) t else (True, t));
          c = MdpCtrl_reset c;
          (r, f, t) = OvFD_close K (mFd c) t
      in (result \<and> r, c\<lparr>mFd := f\<rparr>, t))"

text \<open>\<open>setZ\<close> subtracts one: the driver counts the base stage as -1.\<close>

definition blend_op :: "u32 \<Rightarrow> u32" where
  "blend_op blending = (if blending = 1 then 1 else if blending = 2 then 2 else 3)"

definition MdpCtrl_setSource :: "PipeArgs \<Rightarrow> mdp_ctrl \<Rightarrow> mdp_ctrl" where
  "MdpCtrl_setSource a c =
     c\<lparr>mOVInfo := (mOVInfo c)\<lparr>ov_src := pa_whf a, ov_transp_mask := 0xffffffff,
         ov_flags := pa_mdpFlags a, ov_z_order := pa_zorder a - 1, ov_is_fg := pa_isFg a,
         ov_alpha := pa_planeAlpha a, ov_blend_op := blend_op (pa_blending a)\<rparr>\<rparr>"

definition MdpCtrl_setCrop :: "Dim \<Rightarrow> mdp_ctrl \<Rightarrow> mdp_ctrl" where
  "MdpCtrl_setCrop d c = c\<lparr>mOVInfo := (mOVInfo c)\<lparr>ov_src_rect := d\<rparr>\<rparr>"

definition MdpCtrl_setPosition :: "Dim \<Rightarrow> mdp_ctrl \<Rightarrow> mdp_ctrl" where
  "MdpCtrl_setPosition d c = c\<lparr>mOVInfo := (mOVInfo c)\<lparr>ov_dst_rect := d\<rparr>\<rparr>"

definition MdpCtrl_setTransform :: "u32 \<Rightarrow> mdp_ctrl \<Rightarrow> mdp_ctrl" where
  "MdpCtrl_setTransform orient c =
     c\<lparr>mOVInfo := (mOVInfo c)\<lparr>ov_user_data0 := getMdpOrient orient\<rparr>, mOrientation := getMdpOrient orient\<rparr>"

definition MdpCtrl_setDownscale :: "nat \<Rightarrow> mdp_ctrl \<Rightarrow> mdp_ctrl" where
  "MdpCtrl_setDownscale ds c = c\<lparr>mDownscale := ds\<rparr>"

definition MdpCtrl_updateSrcFormat :: "u32 \<Rightarrow> mdp_ctrl \<Rightarrow> mdp_ctrl" where
  "MdpCtrl_updateSrcFormat f c = c\<lparr>mOVInfo := (mOVInfo c)\<lparr>ov_src := (ov_src (mOVInfo c))\<lparr>whf_format := f\<rparr>\<rparr>\<rparr>"

definition setRotationFlags :: "mdp_overlay \<Rightarrow> mdp_overlay" where
  "setRotationFlags ov =
     (if ov_user_data0 ov AND MDP_ROT_90 \<noteq> 0 then ov\<lparr>ov_flags := ov_flags ov OR MDP_SOURCE_ROTATED_90\<rparr> else ov)"

definition doTransform :: "u32 \<Rightarrow> mdp_overlay \<Rightarrow> mdp_overlay" where
  "doTransform orient ov =
     (let ov = setRotationFlags ov;
          (whf, d) = preRotateSource orient (ov_src ov) (ov_src_rect ov)
      in ov\<lparr>ov_src := whf, ov_src_rect := d\<rparr>)"

definition doDownscale :: "nat \<Rightarrow> mdp_overlay \<Rightarrow> mdp_overlay" where
  "doDownscale ds ov =
     (let d = ov_src_rect ov
      in ov\<lparr>ov_src_rect := \<lparr>dim_x = shr32 (dim_x d) ds, dim_y = shr32 (dim_y d) ds,
                          dim_w = shr32 (dim_w d) ds, dim_h = shr32 (dim_h d) ds\<rparr>\<rparr>)"

definition normalizeYuv :: "mdp_overlay \<Rightarrow> mdp_overlay" where
  "normalizeYuv ov =
     (if isYuv (whf_format (ov_src ov))
      then let d = ov_src_rect ov;
               (x, w) = normalizeCrop (dim_x d) (dim_w d);
               (y, h) = normalizeCrop (dim_y d) (dim_h d);
               p = ov_dst_rect ov
           in ov\<lparr>ov_src_rect := \<lparr>dim_x = x, dim_y = y, dim_w = w, dim_h = h\<rparr>,
                ov_dst_rect := p\<lparr>dim_w := even_floor (dim_w p), dim_h := even_floor (dim_h p)\<rparr>\<rparr>
      else ov)"

text \<open>The deferred calculations of \<open>set\<close>.\<close>

definition calculate :: "mdp_ctrl \<Rightarrow> mdp_ctrl" where
  "calculate c = c\<lparr>mOVInfo := normalizeYuv (doDownscale (mDownscale c) (doTransform (mOrientation c) (mOVInfo c)))\<rparr>"

definition ovChanged :: "mdp_ctrl \<Rightarrow> bool" where
  "ovChanged c \<longleftrightarrow> mOVInfo c \<noteq> mLkgo c"

definition MdpCtrl_save :: "mdp_ctrl \<Rightarrow> mdp_ctrl" where
  "MdpCtrl_save c = (if ov_id (mOVInfo c) = MSMFB_NEW_REQUEST then c else c\<lparr>mLkgo := mOVInfo c\<rparr>)"

definition MdpCtrl_restore :: "mdp_ctrl \<Rightarrow> mdp_ctrl" where
  "MdpCtrl_restore c = (if ov_id (mLkgo c) = MSMFB_NEW_REQUEST then c else c\<lparr>mOVInfo := mLkgo c\<rparr>)"

definition MdpCtrl_set :: "mdp_kernel \<Rightarrow> mdp_ctrl \<Rightarrow> mdp_call list \<Rightarrow> bool \<times> mdp_ctrl \<times> mdp_call list" where
  "MdpCtrl_set K c t =
     (let c = calculate c
      in if ovChanged c
         then let t' = t @ [OverlaySet (mFd c) (mOVInfo c)]
              in case k_set K t (mFd c) (mOVInfo c) of
                   None \<Rightarrow> (False, MdpCtrl_restore c, t')
                 | Some ov \<Rightarrow> (True, MdpCtrl_save (c\<lparr>mOVInfo := ov\<rparr>), t')
         else (True, c, t))"

definition getPipeId :: "mdp_ctrl \<Rightarrow> u32" where "getPipeId c = ov_id (mOVInfo c)"

section \<open>MdpData\<close>

record mdp_data =
  md_id :: u32
  md_memory_id :: int
  md_offset :: u32
  md_fd :: int

definition new_MdpData :: mdp_data where
  "new_MdpData = \<lparr>md_id = 0, md_memory_id = - 1, md_offset = 0, md_fd = INVAL\<rparr>"

definition MdpData_init :: "mdp_kernel \<Rightarrow> u32 \<Rightarrow> mdp_data \<Rightarrow> mdp_call list \<Rightarrow> bool \<times> mdp_data \<times> mdp_call list" where
  "MdpData_init K fbnum d t =
     (let (r, f, t) = OvFD_open K (FbDev fbnum) t in (r, d\<lparr>md_fd := f\<rparr>, t))"

definition MdpData_close :: "mdp_kernel \<Rightarrow> mdp_data \<Rightarrow> mdp_call list \<Rightarrow> bool \<times> mdp_data \<times> mdp_call list" where
  "MdpData_close K d t =
     (let d = new_MdpData\<lparr>md_fd := md_fd d\<rparr>; (r, f, t) = OvFD_close K (md_fd d) t in (r, d\<lparr>md_fd := f\<rparr>, t))"

definition MdpData_setPipeId :: "u32 \<Rightarrow> mdp_data \<Rightarrow> mdp_data" where
  "MdpData_setPipeId i d = d\<lparr>md_id := i\<rparr>"

definition MdpData_play :: "mdp_kernel \<Rightarrow> int \<Rightarrow> u32 \<Rightarrow> mdp_data \<Rightarrow> mdp_call list \<Rightarrow> bool \<times> mdp_data \<times> mdp_call list" where
  "MdpData_play K f off d t =
     (let d = d\<lparr>md_memory_id := f, md_offset := off\<rparr>;
          (r, t) = do_call K (OverlayPlay (md_fd d) (md_id d) f off) t
      in (r, d, t))"

section \<open>The normalised crop\<close>

declare odd_u32 [simp]

lemma unat_succ: "unat (v :: u32) + 1 < 2 ^ 32 \<Longrightarrow> unat (v + 1) = unat v + 1"
  by (simp add: unat_word_ariths)

lemma unat_minus: "(b :: u32) \<le> a \<Longrightarrow> unat (a - b) = unat a - unat b"
  by (simp add: unat_sub)

lemma odd_not_zero: "odd (unat (v :: u32)) \<Longrightarrow> 1 \<le> v"
  by (cases "v = 0") (auto simp: word_le_nat_alt Suc_le_eq unat_gt_0)

lemma unat_even_floor: "unat (even_floor v) = 2 * (unat v div 2)"
proof (cases "odd (unat v)")
  case True
  then have "unat (even_floor v) = unat v - 1"
    unfolding even_floor_def by (simp add: unat_minus odd_not_zero)
  with True show ?thesis by presburger
qed (simp add: even_floor_def)

lemma unat_even_ceil: "unat v + 1 < 2 ^ 32 \<Longrightarrow> unat (even_ceil v) = 2 * ((unat v + 1) div 2)"
  by (cases "odd (unat v)") (auto simp: even_ceil_def unat_succ)

lemma two_le: "even (unat v) \<Longrightarrow> v \<noteq> 0 \<Longrightarrow> 2 \<le> unat (v :: u32)"
  by (cases "unat v" rule: nat.exhaust) (auto simp: unat_eq_0 odd_pos Suc_le_eq)

lemma unat_minus_2: "even (unat v) \<Longrightarrow> v \<noteq> 0 \<Longrightarrow> unat (v - 2 :: u32) = unat v - 2"
  using two_le [of v] by (simp add: unat_minus word_le_nat_alt)

text \<open>
  Where the crop does not leave the 32-bit range and is not an empty one at an odd position,
  \<open>normalizeCrop\<close> gives the largest interval with even ends inside the given one.
\<close>
theorem normalizeCrop_largest_even:
  assumes "unat xy + unat wh + 1 < 2 ^ 32" "wh \<noteq> 0 \<or> even (unat xy)"
  shows "(case normalizeCrop xy wh of (a, b) \<Rightarrow>
    unat a = 2 * ((unat xy + 1) div 2) \<and> unat a + unat b = 2 * ((unat xy + unat wh) div 2))"
proof -
  have c: "unat (even_ceil xy) = 2 * ((unat xy + 1) div 2)"
    using assms(1) by (intro unat_even_ceil) simp
  consider (a) "even (unat xy)" | (b) "odd (unat xy)" "odd (unat wh)" | (c) "odd (unat xy)" "even (unat wh)" "wh \<noteq> 0"
    using assms(2) by blast
  then show ?thesis
  proof cases
    case a then show ?thesis by (simp add: normalizeCrop_def unat_even_floor; presburger)
  next
    case b then show ?thesis using c by (simp add: normalizeCrop_def unat_even_floor; presburger)
  next
    case c': c
    with two_le [of wh] have "2 \<le> unat wh" by blast
    with c' show ?thesis using c by (simp add: normalizeCrop_def unat_minus_2; presburger)
  qed
qed

lemma normalizeCrop_largest_even_witness:
  "(case normalizeCrop 5 10 of (a, b) \<Rightarrow>
    unat a = 2 * ((unat (5::u32) + 1) div 2) \<and> unat a + unat b = 2 * ((unat (5::u32) + unat (10::u32)) div 2))"
  by (rule normalizeCrop_largest_even [of 5 10]) simp_all

text \<open>
  An empty crop at an odd position becomes one of 4294967294 columns; \<open>doDownscale\<close>, which runs
  before, makes such crops from ones that are up to seven columns wide.
\<close>
theorem normalizeCrop_empty_wraps:
  "normalizeCrop 1 0 = (2, 4294967294) \<and>
   normalizeYuv (doDownscale 3 (new_request\<lparr>ov_src := zero_whf\<lparr>whf_format := 2\<rparr>,
     ov_src_rect := \<lparr>dim_x = 8, dim_y = 0, dim_w = 6, dim_h = 16\<rparr>\<rparr>)) =
   new_request\<lparr>ov_src := zero_whf\<lparr>whf_format := 2\<rparr>,
     ov_src_rect := \<lparr>dim_x = 2, dim_y = 0, dim_w = 4294967294, dim_h = 2\<rparr>\<rparr>"
  by (simp add: normalizeCrop_def normalizeYuv_def doDownscale_def new_request_def isYuv_def zero_dim_def zero_whf_def
      even_ceil_def even_floor_def shr32_def drop_bit_eq_div)

section \<open>Rotation of the source\<close>

definition inside :: "Whf \<Rightarrow> Dim \<Rightarrow> bool" where
  "inside whf d \<longleftrightarrow> unat (dim_x d) + unat (dim_w d) \<le> unat (whf_w whf) \<and>
     unat (dim_y d) + unat (dim_h d) \<le> unat (whf_h whf)"

definition inverse_orient :: "u32 \<Rightarrow> u32" where
  "inverse_orient tr = (if tr = 4 then 7 else if tr = 7 then 4 else tr)"

lemma u32_less_8: "(tr :: u32) < 8 \<Longrightarrow> tr \<in> {0, 1, 2, 3, 4, 5, 6, 7}"
proof -
  assume "tr < 8"
  then have "unat tr < 8" by (simp add: word_less_nat_alt)
  then have "unat tr = 0 \<or> unat tr = 1 \<or> unat tr = 2 \<or> unat tr = 3 \<or> unat tr = 4 \<or> unat tr = 5 \<or>
    unat tr = 6 \<or> unat tr = 7" by presburger
  then show ?thesis by (simp add: word_unat_eq_iff)
qed

lemma flip_unat: "unat a + unat b \<le> unat m \<Longrightarrow> unat (m - (a + b) :: u32) = unat m - (unat a + unat b)"
proof -
  assume le: "unat a + unat b \<le> unat m"
  then have s: "unat (a + b) = unat a + unat b"
    using unat_less_32 [of m] by (simp add: unat_word_ariths)
  with le show ?thesis by (simp add: unat_minus word_le_nat_alt)
qed

lemma inside_flip_h: "inside whf d \<Longrightarrow> inside whf (flip_h whf d)"
  by (simp add: inside_def flip_h_def flip_unat)

lemma inside_flip_v: "inside whf d \<Longrightarrow> inside whf (flip_v whf d)"
  by (simp add: inside_def flip_v_def flip_unat)

lemma inside_rot_90: "(whf', d') = rot_90 whf d \<Longrightarrow> inside whf d \<Longrightarrow> inside whf' d'"
  by (simp add: inside_def rot_90_def flip_unat)

text \<open>
  C36. The eight orientations keep a crop that lies inside its image inside the rotated image, and
  each is undone by its inverse.
\<close>
theorem preRotateSource_inverse:
  assumes "tr < 8" "preRotateSource tr whf d = (whf', d')"
  shows "preRotateSource (inverse_orient tr) whf' d' = (whf, d) \<and> (inside whf d \<longrightarrow> inside whf' d')"
proof
  show "preRotateSource (inverse_orient tr) whf' d' = (whf, d)"
    using u32_less_8 [OF assms(1)] assms(2)
    by (elim insertE) (auto simp: preRotateSource_def inverse_orient_def flip_h_def flip_v_def rot_90_def Let_def)
  show "inside whf d \<longrightarrow> inside whf' d'"
    using assms(2)
    by (auto simp: preRotateSource_def Let_def split: if_splits dest!: sym [where t = "(whf', d')"]
        intro: inside_rot_90 inside_flip_h inside_flip_v)
qed

lemma preRotateSource_inverse_witness:
  "preRotateSource 7 \<lparr>whf_w = 48, whf_h = 64, whf_format = 2\<rparr> \<lparr>dim_x = 28, dim_y = 4, dim_w = 16, dim_h = 8\<rparr> =
     (\<lparr>whf_w = 64, whf_h = 48, whf_format = 2\<rparr>, \<lparr>dim_x = 4, dim_y = 4, dim_w = 8, dim_h = 16\<rparr>) \<and>
   inside \<lparr>whf_w = 48, whf_h = 64, whf_format = 2\<rparr> \<lparr>dim_x = 28, dim_y = 4, dim_w = 16, dim_h = 8\<rparr>"
  using preRotateSource_inverse [of 4 "\<lparr>whf_w = 64, whf_h = 48, whf_format = 2\<rparr>"
      "\<lparr>dim_x = 4, dim_y = 4, dim_w = 8, dim_h = 16\<rparr>"]
  by (simp add: inverse_orient_def preRotateSource_def rot_90_def inside_def)

section \<open>A configuration that does not change\<close>

text \<open>The calls with which a client describes what a pipe shows.\<close>

definition configured :: "PipeArgs \<Rightarrow> Dim \<Rightarrow> u32 \<Rightarrow> Dim \<Rightarrow> nat \<Rightarrow> mdp_ctrl \<Rightarrow> mdp_ctrl" where
  "configured a crop orient pos ds c =
     MdpCtrl_setDownscale ds (MdpCtrl_setPosition pos (MdpCtrl_setTransform orient
       (MdpCtrl_setCrop crop (MdpCtrl_setSource a c))))"

lemmas config_defs = configured_def MdpCtrl_setDownscale_def MdpCtrl_setPosition_def
  MdpCtrl_setTransform_def MdpCtrl_setCrop_def MdpCtrl_setSource_def

text \<open>The description of a pipe without the identifier the driver gave it.\<close>

definition described :: "PipeArgs \<Rightarrow> Dim \<Rightarrow> u32 \<Rightarrow> Dim \<Rightarrow> mdp_overlay" where
  "described a crop orient pos =
     \<lparr>ov_src = pa_whf a, ov_src_rect = crop, ov_dst_rect = pos, ov_z_order = pa_zorder a - 1,
      ov_is_fg = pa_isFg a, ov_alpha = pa_planeAlpha a, ov_transp_mask = 0xffffffff,
      ov_blend_op = blend_op (pa_blending a), ov_flags = pa_mdpFlags a, ov_id = 0,
      ov_user_data0 = getMdpOrient orient\<rparr>"

lemma configured_eq:
  "configured a crop orient pos ds c =
     c\<lparr>mOVInfo := (described a crop orient pos)\<lparr>ov_id := ov_id (mOVInfo c)\<rparr>,
       mOrientation := getMdpOrient orient, mDownscale := ds\<rparr>"
  by (simp add: config_defs described_def)

definition settled :: "u32 \<Rightarrow> nat \<Rightarrow> mdp_overlay \<Rightarrow> mdp_overlay" where
  "settled orient ds ov = normalizeYuv (doDownscale ds (doTransform orient ov))"

lemma settled_id: "settled orient ds (ov\<lparr>ov_id := i\<rparr>) = (settled orient ds ov)\<lparr>ov_id := i\<rparr>"
  by (simp add: settled_def normalizeYuv_def doDownscale_def doTransform_def setRotationFlags_def
      Let_def split_beta)

lemma settled_get_id [simp]: "ov_id (settled orient ds ov) = ov_id ov"
  by (simp add: settled_def normalizeYuv_def doDownscale_def doTransform_def setRotationFlags_def
      Let_def split_beta)

lemma calculate_eq: "calculate c = c\<lparr>mOVInfo := settled (mOrientation c) (mDownscale c) (mOVInfo c)\<rparr>"
  by (simp add: calculate_def settled_def)

text \<open>The driver gives the pipe an identifier and leaves the rest of the description alone.\<close>

definition driver_keeps :: "mdp_kernel \<Rightarrow> bool" where
  "driver_keeps K \<longleftrightarrow> (\<forall>t f ov ov'. k_set K t f ov = Some ov' \<longrightarrow>
     (\<exists>i. i \<noteq> MSMFB_NEW_REQUEST \<and> ov' = ov\<lparr>ov_id := i\<rparr>))"

text \<open>
  C11. A description that has been committed is committed again without a call of the driver and
  without a change of the object, although \<open>set\<close> rotates, scales and aligns in place.
\<close>
theorem commit_again_silent:
  assumes "driver_keeps K" "MdpCtrl_set K (configured a crop orient pos ds c) t = (True, c', t')"
  shows "MdpCtrl_set K (configured a crop orient pos ds c') t'' = (True, c', t'')"
proof -
  define o' where "o' = getMdpOrient orient"
  define s where "s = settled o' ds (described a crop orient pos)"
  define c0 where "c0 = c\<lparr>mOVInfo := s\<lparr>ov_id := ov_id (mOVInfo c)\<rparr>, mOrientation := o', mDownscale := ds\<rparr>"
  have calc: "calculate (configured a crop orient pos ds x) =
      x\<lparr>mOVInfo := s\<lparr>ov_id := ov_id (mOVInfo x)\<rparr>, mOrientation := o', mDownscale := ds\<rparr>" for x
    by (simp add: configured_eq calculate_eq settled_id s_def o'_def)
  have "\<exists>i. mOVInfo c' = s\<lparr>ov_id := i\<rparr> \<and> mLkgo c' = mOVInfo c' \<and> mOrientation c' = o' \<and> mDownscale c' = ds"
  proof (cases "ovChanged c0")
    case True
    from assms(2) True obtain ov where ov: "k_set K t (mFd c0) (mOVInfo c0) = Some ov"
      and c': "c' = MdpCtrl_save (c0\<lparr>mOVInfo := ov\<rparr>)"
      by (simp add: MdpCtrl_set_def calc Let_def flip: c0_def split: option.splits)
    from assms(1) ov obtain i where "i \<noteq> MSMFB_NEW_REQUEST" "ov = (mOVInfo c0)\<lparr>ov_id := i\<rparr>"
      unfolding driver_keeps_def by blast
    then show ?thesis using c' by (intro exI [of _ i]) (simp add: MdpCtrl_save_def c0_def)
  next
    case False
    with assms(2) have "c' = c0" by (simp add: MdpCtrl_set_def calc Let_def flip: c0_def)
    with False show ?thesis
      by (intro exI [of _ "ov_id (mOVInfo c)"]) (simp add: ovChanged_def c0_def)
  qed
  then have "calculate (configured a crop orient pos ds c') = c'" "\<not> ovChanged c'"
    by (auto simp: calc ovChanged_def)
  then show ?thesis by (simp add: MdpCtrl_set_def)
qed

text \<open>A driver that accepts every request and numbers the pipes by their stage.\<close>

definition obliging :: mdp_kernel where
  "obliging = \<lparr>k_open = \<lambda>_ _. 3, k_set = \<lambda>_ _ ov. Some (ov\<lparr>ov_id := 1\<rparr>),
     k_start = \<lambda>_ _ r. Some (r\<lparr>ri_session_id := 1\<rparr>), k_alloc = \<lambda>_ _ _. Some 9, k_ok = \<lambda>_ _. True\<rparr>"

lemma obliging_keeps: "driver_keeps obliging"
  by (auto simp: driver_keeps_def obliging_def MSMFB_NEW_REQUEST_def intro!: exI [of _ 1])

definition video_args :: PipeArgs where
  "video_args = \<lparr>pa_mdpFlags = 0x40000, pa_whf = \<lparr>whf_w = 64, whf_h = 48, whf_format = 2\<rparr>, pa_zorder = 1,
     pa_isFg = 0, pa_rotFlags = 0, pa_planeAlpha = 0xff, pa_blending = 3\<rparr>"

lemma commit_again_silent_witness:
  "case MdpCtrl_set obliging (configured video_args \<lparr>dim_x = 3, dim_y = 4, dim_w = 9, dim_h = 16\<rparr> 4 zero_dim 0 new_MdpCtrl) []
   of (r, c', t') \<Rightarrow> r \<and>
     MdpCtrl_set obliging (configured video_args \<lparr>dim_x = 3, dim_y = 4, dim_w = 9, dim_h = 16\<rparr> 4 zero_dim 0 c') t'
       = (True, c', t')"
proof -
  let ?d = "\<lparr>dim_x = 3, dim_y = 4, dim_w = 9, dim_h = 16\<rparr>"
  have "fst (MdpCtrl_set obliging (configured video_args ?d 4 zero_dim 0 new_MdpCtrl) [])"
    by (simp add: MdpCtrl_set_def obliging_def Let_def)
  moreover obtain r c' t' where e: "MdpCtrl_set obliging (configured video_args ?d 4 zero_dim 0 new_MdpCtrl) [] = (r, c', t')"
    by (metis prod_cases3)
  ultimately show ?thesis
    using commit_again_silent [OF obliging_keeps, of video_args ?d 4 zero_dim 0 new_MdpCtrl "[]" c' t' t'] by simp
qed

text \<open>
  When the driver refuses a description, the last one it accepted is in force again; before the
  first success the refused one stays, so that the next attempt calls the driver again.
\<close>
theorem refused_set_restores:
  assumes "MdpCtrl_set K c t = (False, c', t')"
  shows "mLkgo c' = mLkgo c \<and> t' = t @ [OverlaySet (mFd c) (mOVInfo (calculate c))] \<and>
    mOVInfo c' = (if ov_id (mLkgo c) = MSMFB_NEW_REQUEST then mOVInfo (calculate c) else mLkgo c)"
  using assms
  by (auto simp: MdpCtrl_set_def Let_def calculate_def MdpCtrl_restore_def split: if_splits option.splits)

text \<open>\<open>close\<close> gives the pipe back exactly if the driver knows it, and forgets everything.\<close>

lemma MdpCtrl_close_unsets:
  "MdpCtrl_close K c t = (r, c', t') \<Longrightarrow>
   (OverlayUnset (mFd c) (ov_id (mOVInfo c)) \<in> set (drop (length t) t') \<longleftrightarrow> ov_id (mOVInfo c) \<noteq> MSMFB_NEW_REQUEST) \<and>
   c' = new_MdpCtrl"
  by (auto simp: MdpCtrl_close_def OvFD_close_def do_call_def MdpCtrl_reset_def new_MdpCtrl_def Let_def
      split: if_splits prod.splits)

end
