(* ===== verification/Gralloc.thy ===== *)
theory Gralloc
  imports Prelude
begin

text \<open>
  The allocator of graphics buffers (display/libgralloc): the size of a buffer
  (alloc_controller.cpp), the planes a client gets when it locks one (mapper.cpp), the choice of
  the heap (alloc_controller.cpp) and the slots of the frame buffer memory (gpu.cpp).

  All quantities are 32 bits wide; widths and heights are not negative, so that the signed and the
  unsigned divisions of the source agree. \<open>VENUS_COLOR_FORMAT\<close> is not defined, so that its macros
  are 0. The padding function of libadreno_utils.so is a parameter; \<open>None\<close> if it is not there.
  A buffer is locked after \<open>gralloc_map_and_invalidate\<close>, which maps it where it is not mapped yet and
  invalidates the cache, both by ioctl and mmap calls; the model starts where it has succeeded, with
  the address it mapped the buffer at.
\<close>

section \<open>Sizes\<close>

datatype hal_format = RGBA_8888 | RGBX_8888 | RGB_888 | RGB_565 | BGRA_8888 | YV12 | YCbCr_422_SP
  | YCrCb_422_SP | YCbCr_420_SP | YCrCb_420_SP | YCrCb_420_SP_ADRENO | YCbCr_420_SP_TILED
  | YCbCr_420_SP_VENUS | NV12 | NV12_ENCODEABLE | RAW16 | RAW_OPAQUE | BLOB | OtherFormat int

text \<open>The test \<open>format <= HAL_PIXEL_FORMAT_BGRA_8888\<close>.\<close>

definition rgb_format :: "hal_format \<Rightarrow> bool" where
  "rgb_format f = (case f of RGBA_8888 \<Rightarrow> True | RGBX_8888 \<Rightarrow> True | RGB_888 \<Rightarrow> True | RGB_565 \<Rightarrow> True
     | BGRA_8888 \<Rightarrow> True | OtherFormat i \<Rightarrow> i \<le> 5 | _ \<Rightarrow> False)"

definition ALIGN :: "u32 \<Rightarrow> u32 \<Rightarrow> u32" where
  "ALIGN x a = (x + a - 1) AND NOT (a - 1)"

definition EINVAL_result :: u32 where "EINVAL_result = - 22"

definition getStride :: "(u32 \<Rightarrow> u32 \<Rightarrow> u32) option \<Rightarrow> u32 \<Rightarrow> hal_format \<Rightarrow> u32" where
  "getStride padding width f =
     (let stride = ALIGN width 32 in
      if rgb_format f
      then let bpp = (case f of RGB_888 \<Rightarrow> 3 | RGB_565 \<Rightarrow> 2 | _ \<Rightarrow> 4)
           in (case padding of Some p \<Rightarrow> p stride bpp | None \<Rightarrow> stride)
      else case f of
          YCrCb_420_SP_ADRENO \<Rightarrow> ALIGN width 32
        | YCbCr_420_SP_TILED \<Rightarrow> ALIGN width 128
        | NV12_ENCODEABLE \<Rightarrow> ALIGN width 16
        | YCbCr_420_SP \<Rightarrow> ALIGN width 16
        | YCrCb_420_SP \<Rightarrow> ALIGN width 16
        | YV12 \<Rightarrow> ALIGN width 16
        | YCbCr_422_SP \<Rightarrow> ALIGN width 16
        | YCrCb_422_SP \<Rightarrow> ALIGN width 16
        | RAW16 \<Rightarrow> ALIGN width 16
        | RAW_OPAQUE \<Rightarrow> ALIGN width 16
        | YCbCr_420_SP_VENUS \<Rightarrow> 0
        | BLOB \<Rightarrow> width
        | _ \<Rightarrow> stride)"

text \<open>The size (or the error as an unsigned number), and the aligned width and height.\<close>

definition getBufferSizeAndDimensions ::
    "(u32 \<Rightarrow> u32 \<Rightarrow> u32) option \<Rightarrow> u32 \<Rightarrow> u32 \<Rightarrow> hal_format \<Rightarrow> u32 \<times> u32 \<times> u32" where
  "getBufferSizeAndDimensions padding width height f =
     (let alignedw = getStride padding width f; alignedh = ALIGN height 32;
          rgba = (alignedw * alignedh * 4, alignedw, alignedh);
          words = (alignedw * alignedh * 2, alignedw, alignedh);
          sp420 = (ALIGN (alignedw * height + (alignedw * height) div 2) 4096, alignedw, height);
          sp422 = (if width AND 1 \<noteq> 0 then (EINVAL_result, alignedw, alignedh)
                   else (ALIGN (alignedw * height * 2) 4096, alignedw, height))
      in case f of
          RGBA_8888 \<Rightarrow> rgba
        | RGBX_8888 \<Rightarrow> rgba
        | BGRA_8888 \<Rightarrow> rgba
        | RGB_888 \<Rightarrow> (alignedw * alignedh * 3, alignedw, alignedh)
        | RGB_565 \<Rightarrow> words
        | RAW16 \<Rightarrow> words
        | RAW_OPAQUE \<Rightarrow> words
        | YCrCb_420_SP_ADRENO \<Rightarrow>
            (ALIGN (alignedw * alignedh) 4096 +
               ALIGN (2 * ALIGN (width div 2) 32 * ALIGN (height div 2) 32) 4096, alignedw, alignedh)
        | YCbCr_420_SP_TILED \<Rightarrow>
            (let alignedw = ALIGN alignedw 128
             in (ALIGN (alignedw * alignedh) 8192 + ALIGN (alignedw * ALIGN (height div 2) 32) 8192,
                 alignedw, alignedh))
        | NV12 \<Rightarrow>
            (ALIGN (ALIGN width 128 * ALIGN height 32) 8192 +
               ALIGN (ALIGN width 128 * ALIGN (height div 2) 32) 8192, ALIGN width 16, height)
        | NV12_ENCODEABLE \<Rightarrow>
            (ALIGN (ALIGN (alignedw * height) 2048 +
               ALIGN (alignedw div 2) 16 * (height div 2) * 2) 4096, alignedw, height)
        | YV12 \<Rightarrow>
            (if width AND 1 \<noteq> 0 \<or> height AND 1 \<noteq> 0 then (EINVAL_result, alignedw, alignedh)
             else (ALIGN (alignedw * height + ALIGN (alignedw div 2) 16 * (height div 2) * 2) 4096,
                   alignedw, height))
        | YCbCr_420_SP \<Rightarrow> sp420
        | YCrCb_420_SP \<Rightarrow> sp420
        | YCbCr_422_SP \<Rightarrow> sp422
        | YCrCb_422_SP \<Rightarrow> sp422
        | YCbCr_420_SP_VENUS \<Rightarrow> (0, alignedw, 0)
        | BLOB \<Rightarrow> (if height \<noteq> 1 then (EINVAL_result, alignedw, alignedh) else (width, width, height))
        | OtherFormat _ \<Rightarrow> (EINVAL_result, alignedw, alignedh))"

section \<open>Locking\<close>

text \<open>A handle as the allocation leaves it; width and height are the aligned ones.\<close>

record private_handle =
  h_format :: hal_format
  h_width :: u32
  h_height :: u32
  h_size :: u32
  h_base :: u32

text \<open>
  \<open>alloc_buffer\<close>. The allocation controller maps the number of bytes to the address it maps them at.
\<close>

definition alloc_buffer ::
    "(u32 \<Rightarrow> u32 \<Rightarrow> u32) option \<Rightarrow> (u32 \<Rightarrow> u32 option) \<Rightarrow> u32 \<Rightarrow> u32 \<Rightarrow> hal_format \<Rightarrow> private_handle option" where
  "alloc_buffer padding allocate w h f =
     (let (bytes, alignedw, alignedh) = getBufferSizeAndDimensions padding w h f
      in case allocate bytes of None \<Rightarrow> None
         | Some base \<Rightarrow> Some \<lparr>h_format = f, h_width = alignedw, h_height = alignedh, h_size = bytes, h_base = base\<rparr>)"

record android_ycbcr =
  plane_y :: u32
  plane_cb :: u32
  plane_cr :: u32
  ystride :: u32
  cstride :: u32
  chroma_step :: u32

definition lock_ycbcr :: "private_handle \<Rightarrow> android_ycbcr option" where
  "lock_ycbcr hnd =
     (let b = h_base hnd; s = ALIGN (h_width hnd) 16; c = ALIGN (s div 2) 16; h = h_height hnd
      in case h_format hnd of
          YCrCb_420_SP \<Rightarrow> Some \<lparr>plane_y = b, plane_cb = b + s * h + 1, plane_cr = b + s * h,
                                ystride = s, cstride = s, chroma_step = 2\<rparr>
        | NV12 \<Rightarrow> Some \<lparr>plane_y = b, plane_cb = b + s * h, plane_cr = b + s * h + 1,
                        ystride = s, cstride = s, chroma_step = 2\<rparr>
        | YV12 \<Rightarrow> Some \<lparr>plane_y = b, plane_cb = b + s * h + c * h div 2, plane_cr = b + s * h,
                        ystride = s, cstride = c, chroma_step = 1\<rparr>
        | _ \<Rightarrow> None)"

section \<open>The frame buffer memory\<close>

text \<open>
  The memory of the frame buffer holds \<open>numBuffers\<close> pictures; \<open>bufferMask\<close> tells which are in use.
  A picture takes whole pages when it is allocated.
\<close>

record private_module =
  bufferMask :: u32
  numBuffers :: nat
  line_length :: u32
  yres :: u32
  fb_base :: u32

definition roundUpToPageSize :: "u32 \<Rightarrow> u32" where
  "roundUpToPageSize x = (x + (4096 - 1)) AND NOT (4096 - 1)"

fun find_slot :: "u32 \<Rightarrow> nat list \<Rightarrow> u32 \<Rightarrow> u32 \<Rightarrow> u32 \<times> u32" where
  "find_slot used [] vaddr bufferSize = (used, vaddr)"
| "find_slot used (i # ks) vaddr bufferSize =
     (if used AND push_bit i 1 = 0 then (used OR push_bit i 1, vaddr)
      else find_slot used ks (vaddr + bufferSize) bufferSize)"

datatype fb_result = FbError u32 | FbRegular | FbSlot u32

definition ENOMEM_result :: u32 where "ENOMEM_result = - 12"

definition alloc_framebuffer :: "bool \<Rightarrow> private_module \<Rightarrow> fb_result \<times> private_module" where
  "alloc_framebuffer heap_flags m =
     (if heap_flags then (FbError EINVAL_result, m)
      else let bufferSize = roundUpToPageSize (line_length m * yres m) in
        if numBuffers m = 1 then (FbRegular, m)
        else if push_bit (numBuffers m) 1 - 1 \<le> bufferMask m then (FbError ENOMEM_result, m)
        else let (used, vaddr) = find_slot (bufferMask m) [0..<numBuffers m] (fb_base m) bufferSize
             in (FbSlot vaddr, m\<lparr>bufferMask := used\<rparr>))"

definition free_framebuffer :: "u32 \<Rightarrow> private_module \<Rightarrow> private_module" where
  "free_framebuffer base m =
     (let bufferSize = line_length m * yres m; index = (base - fb_base m) div bufferSize
      in m\<lparr>bufferMask := bufferMask m AND NOT (push_bit (unat index) 1)\<rparr>)"

section \<open>Alignment\<close>

declare odd_u32 [simp]

lemma unat_ALIGN:
  assumes "k < 32" "unat x + 2 ^ k \<le> 2 ^ 32"
  shows "unat (ALIGN x (2 ^ k)) = (unat x + 2 ^ k - 1) div 2 ^ k * 2 ^ k"
proof -
  define y where "y = x + 2 ^ k - 1"
  have "(2::nat) ^ k < 2 ^ 32" using assms(1) by (rule power_strict_increasing) simp
  then have u2: "unat (2 ^ k :: u32) = 2 ^ k" using unat_of_nat32 [of "2 ^ k"] by simp
  have "unat (x + (2 ^ k - 1)) = unat x + (2 ^ k - 1)"
    using assms(2) u2 by (simp add: unat_word_ariths unat_minus_one word_le_nat_alt unat_sub)
  then have y: "unat y = unat x + 2 ^ k - 1" by (simp add: y_def algebra_simps)
  have "ALIGN x (2 ^ k) = push_bit k (drop_bit k y)"
    unfolding ALIGN_def y_def [symmetric] mask_eq_exp_minus_1 [symmetric]
    by (rule bit_word_eqI) (auto simp: bit_simps)
  then have "unat (ALIGN x (2 ^ k)) = take_bit 32 (unat y div 2 ^ k * 2 ^ k)"
    by (simp only: unsigned_push_bit_eq unat_drop_bit_eq) (simp add: drop_bit_eq_div push_bit_eq_mult mult.commute)
  moreover have "unat y div 2 ^ k * 2 ^ k < 2 ^ 32"
    using unat_less_32 [of y] by (meson div_times_less_eq_dividend le_less_trans)
  ultimately show ?thesis by (simp add: y take_bit_nat_eq_self)
qed

section \<open>Bounds of sizes\<close>

text \<open>\<open>fits n x B\<close>: the 32-bit quantity \<open>x\<close> is at least \<open>n\<close> and at most \<open>B\<close>.\<close>

definition fits :: "nat \<Rightarrow> u32 \<Rightarrow> nat \<Rightarrow> bool" where
  "fits n x B \<longleftrightarrow> n \<le> unat x \<and> unat x \<le> B"

named_theorems size_rules \<open>bounds of computed sizes\<close>

lemma fits_mult [size_rules]:
  assumes "fits m x A" "fits n y B" "A * B < 2 ^ 32"
  shows "fits (m * n) (x * y) (A * B)"
proof -
  have "unat x * unat y \<le> A * B" using assms(1,2) by (auto simp: fits_def intro: mult_le_mono)
  with assms show ?thesis
    by (auto simp: fits_def unat_word_ariths intro!: mult_le_mono)
qed

lemma fits_add [size_rules]:
  "fits m x A \<Longrightarrow> fits n y B \<Longrightarrow> A + B < 2 ^ 32 \<Longrightarrow> fits (m + n) (x + y) (A + B)"
  by (auto simp: fits_def unat_word_ariths)

lemma fits_div_2 [size_rules]: "fits n x B \<Longrightarrow> fits (n div 2) (x div 2) (B div 2)"
  by (auto simp: fits_def unat_div intro: div_le_mono)

lemma fits_numeral [size_rules]: "(numeral k :: nat) < 2 ^ 32 \<Longrightarrow> fits (numeral k) (numeral k :: u32) (numeral k)"
  using unat_of_nat32 [of "numeral k"] by (simp add: fits_def)

lemma fits_ALIGN_pow:
  assumes "fits n x B" "k < 32" "B + 2 ^ k \<le> 2 ^ 32"
  shows "fits n (ALIGN x (2 ^ k)) (B + 2 ^ k)"
proof -
  have u: "unat (ALIGN x (2 ^ k)) = (unat x + 2 ^ k - 1) div 2 ^ k * 2 ^ k"
    using assms by (intro unat_ALIGN) (auto simp: fits_def)
  have "unat x + 2 ^ k - 1 = (unat x + 2 ^ k - 1) div 2 ^ k * 2 ^ k + (unat x + 2 ^ k - 1) mod 2 ^ k"
    by (rule div_mult_mod_eq [symmetric])
  moreover have "(unat x + 2 ^ k - 1) mod 2 ^ k < 2 ^ k" by simp
  ultimately have "unat x \<le> unat (ALIGN x (2 ^ k))" "unat (ALIGN x (2 ^ k)) \<le> unat x + 2 ^ k"
    using u by linarith+
  with assms(1) show ?thesis by (auto simp: fits_def)
qed

lemmas fits_ALIGN [size_rules] =
  fits_ALIGN_pow [of _ _ _ 4, simplified] fits_ALIGN_pow [of _ _ _ 5, simplified]
  fits_ALIGN_pow [of _ _ _ 7, simplified] fits_ALIGN_pow [of _ _ _ 11, simplified]
  fits_ALIGN_pow [of _ _ _ 12, simplified] fits_ALIGN_pow [of _ _ _ 13, simplified]

lemma fits_weaken: "fits n x B \<Longrightarrow> m \<le> n \<Longrightarrow> fits m x B"
  by (simp add: fits_def)

text \<open>Bits per picture element; 0 for a format that is not known.\<close>

definition pixel_bits :: "hal_format \<Rightarrow> nat" where
  "pixel_bits f = (case f of RGBA_8888 \<Rightarrow> 32 | RGBX_8888 \<Rightarrow> 32 | BGRA_8888 \<Rightarrow> 32 | RGB_888 \<Rightarrow> 24
     | RGB_565 \<Rightarrow> 16 | RAW16 \<Rightarrow> 16 | RAW_OPAQUE \<Rightarrow> 16 | YCbCr_422_SP \<Rightarrow> 16 | YCrCb_422_SP \<Rightarrow> 16
     | BLOB \<Rightarrow> 8 | OtherFormat _ \<Rightarrow> 0 | _ \<Rightarrow> 12)"

text \<open>The padding of the graphics library widens a row, within reason.\<close>

definition padding_ok :: "(u32 \<Rightarrow> u32 \<Rightarrow> u32) option \<Rightarrow> bool" where
  "padding_ok padding \<longleftrightarrow> (\<forall>p s b. padding = Some p \<longrightarrow> unat s \<le> 8224 \<longrightarrow> fits (unat s) (p s b) 16384)"

lemma getStride_rgb:
  assumes "padding_ok padding" "rgb_format f" "unat w \<le> 8192"
  shows "fits (unat w) (getStride padding w f) 16384"
proof -
  have a: "fits (unat w) (ALIGN w 32) (8192 + 32)"
    by (rule fits_ALIGN) (use assms(3) in \<open>simp_all add: fits_def\<close>)
  show ?thesis
  proof (cases padding)
    case None
    with a assms(2) show ?thesis by (auto simp: getStride_def fits_def Let_def)
  next
    case (Some p)
    have "fits (unat (ALIGN w 32)) (p (ALIGN w 32) b) 16384" for b
      using assms(1) Some a unfolding padding_ok_def by (auto simp: fits_def)
    with a Some assms(2) show ?thesis
      by (auto simp: getStride_def fits_def Let_def intro: le_trans)
  qed
qed

lemmas size_defs = getBufferSizeAndDimensions_def Let_def

lemma fits_self: "fits n x B \<Longrightarrow> fits (unat x) x B"
  by (simp add: fits_def)

lemma ALIGN_dvd:
  assumes "k < 32" "unat x + 2 ^ k \<le> 2 ^ 32"
  shows "2 ^ k dvd unat (ALIGN x (2 ^ k))"
  unfolding unat_ALIGN [OF assms] by simp

lemmas ALIGN_dvds =
  ALIGN_dvd [of 4, simplified] ALIGN_dvd [of 5, simplified] ALIGN_dvd [of 7, simplified]

text \<open>
  The units the columns and the rows of a picture are rounded to: the graphics core and the video
  core work on rows of whole units, and the former on groups of 32 rows. With the graphics library
  the rows of an RGB picture are as long as the library says.
\<close>

definition width_unit :: "(u32 \<Rightarrow> u32 \<Rightarrow> u32) option \<Rightarrow> hal_format \<Rightarrow> nat" where
  "width_unit padding f =
     (if f \<in> {RGBA_8888, RGBX_8888, BGRA_8888, RGB_888, RGB_565} then (if padding = None then 32 else 1)
      else if f = YCrCb_420_SP_ADRENO then 32 else if f = YCbCr_420_SP_TILED then 128
      else if f = BLOB then 1 else 16)"

definition height_unit :: "hal_format \<Rightarrow> nat" where
  "height_unit f = (if f \<in> {RGBA_8888, RGBX_8888, BGRA_8888, RGB_888, RGB_565, RAW16, RAW_OPAQUE,
     YCrCb_420_SP_ADRENO, YCbCr_420_SP_TILED} then 32 else 1)"

text \<open>The aligned picture contains the one asked for and consists of whole units.\<close>

definition aligned_picture ::
    "(u32 \<Rightarrow> u32 \<Rightarrow> u32) option \<Rightarrow> hal_format \<Rightarrow> u32 \<Rightarrow> u32 \<Rightarrow> u32 \<Rightarrow> u32 \<Rightarrow> bool" where
  "aligned_picture padding f w h aw ah \<longleftrightarrow> unat w \<le> unat aw \<and> unat h \<le> unat ah \<and>
     width_unit padding f dvd unat aw \<and> height_unit f dvd unat ah"

lemma aligned_height:
  assumes "unat h \<le> 8192"
  shows "unat h \<le> unat (ALIGN h 32) \<and> 32 dvd unat (ALIGN h 32)"
proof
  have "fits (unat h) (ALIGN h 32) (8192 + 32)"
    by (rule fits_ALIGN) (use assms in \<open>simp_all add: fits_def\<close>)
  then show "unat h \<le> unat (ALIGN h 32)" by (simp add: fits_def)
  show "32 dvd unat (ALIGN h 32)" by (rule ALIGN_dvds) (use assms in simp)
qed

lemma aligned_rgb:
  assumes "padding_ok padding" "unat w \<le> 8192" "unat h \<le> 8192"
    and "f \<in> {RGBA_8888, RGBX_8888, BGRA_8888, RGB_888, RGB_565}"
  shows "aligned_picture padding f w h (getStride padding w f) (ALIGN h 32)"
proof -
  have "rgb_format f" using assms(4) by (auto simp: rgb_format_def)
  with getStride_rgb [OF assms(1) this assms(2)] have "unat w \<le> unat (getStride padding w f)"
    and "padding = None \<Longrightarrow> getStride padding w f = ALIGN w 32"
    by (auto simp: fits_def getStride_def)
  moreover have "32 dvd unat (ALIGN w 32)" by (rule ALIGN_dvds) (use assms(2) in simp)
  ultimately show ?thesis
    using assms(4) aligned_height [OF assms(3)] by (auto simp: aligned_picture_def width_unit_def height_unit_def)
qed

text \<open>A product of aligned dimensions is the product of the numbers, as nothing wraps.\<close>

lemma area_rgb:
  assumes "padding_ok padding" "unat w \<le> 8192" "unat h \<le> 8192" "rgb_format f"
  shows "fits (unat (getStride padding w f)) (getStride padding w f) 16384"
    and "fits (unat (ALIGN h 32)) (ALIGN h 32) (8192 + 32)"
proof -
  show "fits (unat (getStride padding w f)) (getStride padding w f) 16384"
    by (rule fits_self) (rule getStride_rgb [OF assms(1,4,2)])
  have "fits (unat h) (ALIGN h 32) (8192 + 32)"
    by (rule fits_ALIGN) (use assms(3) in \<open>simp_all add: fits_def\<close>)
  then show "fits (unat (ALIGN h 32)) (ALIGN h 32) (8192 + 32)" by (rule fits_self)
qed

lemma size_fits_rgb:
  assumes pad: "padding_ok padding" and dims: "unat w \<le> 8192" "unat h \<le> 8192"
    and sz: "getBufferSizeAndDimensions padding w h f = (bytes, aw, ah)"
    and f: "f \<in> {RGBA_8888, RGBX_8888, BGRA_8888, RGB_888, RGB_565}"
  shows "aligned_picture padding f w h aw ah \<and> unat aw * unat ah * pixel_bits f \<le> 8 * unat bytes"
proof -
  have a: "aw = getStride padding w f" "ah = ALIGN h 32" using sz f by (auto simp: size_defs)
  have "rgb_format f" using f by (auto simp: rgb_format_def)
  note st = area_rgb [OF pad dims this, folded a]
  from f consider (rgba) "f \<in> {RGBA_8888, RGBX_8888, BGRA_8888}" | (c) "f = RGB_888" | (rgb565) "f = RGB_565" by blast
  then have "unat aw * unat ah * pixel_bits f \<le> 8 * unat bytes"
  proof cases
    case rgba
    then have n: "bytes = aw * ah * 4" using sz by (auto simp: size_defs)
    have "fits (unat aw * unat ah * 4) bytes (16384 * (8192 + 32) * 4)"
      unfolding n by (intro size_rules st) simp_all
    with rgba show ?thesis by (auto simp: fits_def pixel_bits_def algebra_simps)
  next
    case c
    then have n: "bytes = aw * ah * 3" using sz by (auto simp: size_defs)
    have "fits (unat aw * unat ah * 3) bytes (16384 * (8192 + 32) * 3)"
      unfolding n by (intro size_rules st) simp_all
    with c show ?thesis by (auto simp: fits_def pixel_bits_def algebra_simps)
  next
    case rgb565
    then have n: "bytes = aw * ah * 2" using sz by (auto simp: size_defs)
    have "fits (unat aw * unat ah * 2) bytes (16384 * (8192 + 32) * 2)"
      unfolding n by (intro size_rules st) simp_all
    with rgb565 show ?thesis by (auto simp: fits_def pixel_bits_def algebra_simps)
  qed
  then show ?thesis unfolding a using aligned_rgb [OF pad dims f] by blast
qed

text \<open>The alignments of a picture that is not larger than 8192 by 8192.\<close>

lemma aligned_bounds:
  assumes "unat w \<le> 8192"
  shows "fits (unat w) (ALIGN w 16) 8208" "fits (unat w) (ALIGN w 32) 8224" "fits (unat w) (ALIGN w 128) 8320"
    and "16 dvd unat (ALIGN w 16)" "32 dvd unat (ALIGN w 32)" "128 dvd unat (ALIGN w 128)"
proof -
  have w: "fits (unat w) w 8192" using assms by (simp add: fits_def)
  show "fits (unat w) (ALIGN w 16) 8208" using fits_ALIGN(1) [OF w] by simp
  show "fits (unat w) (ALIGN w 32) 8224" using fits_ALIGN(2) [OF w] by simp
  show "fits (unat w) (ALIGN w 128) 8320" using fits_ALIGN(3) [OF w] by simp
  show "16 dvd unat (ALIGN w 16)" "32 dvd unat (ALIGN w 32)" "128 dvd unat (ALIGN w 128)"
    by (rule ALIGN_dvds; use assms in simp)+
qed

lemmas aligned_area = aligned_bounds(1-3) [THEN fits_self]

lemma size_fits_422:
  assumes dims: "unat w \<le> 8192" "unat h \<le> 8192"
    and sz: "getBufferSizeAndDimensions padding w h f = (bytes, aw, ah)"
    and ok: "bytes \<noteq> EINVAL_result" and f: "f \<in> {RAW16, RAW_OPAQUE, YCbCr_422_SP, YCrCb_422_SP}"
  shows "aligned_picture padding f w h aw ah \<and> unat aw * unat ah * pixel_bits f \<le> 8 * unat bytes"
proof -
  have h: "fits (unat h) h 8192" using dims by (simp add: fits_def)
  have a: "aw = ALIGN w 16" using sz ok f by (auto simp: size_defs getStride_def rgb_format_def split: if_splits)
  note st = aligned_area(1) [OF dims(1), folded a] and sh = aligned_area(2) [OF dims(2)]
  note al = aligned_bounds(1,4) [OF dims(1), folded a] and alh = aligned_height [OF dims(2)]
  from f consider (raw) "f \<in> {RAW16, RAW_OPAQUE}" | (sp422) "f \<in> {YCbCr_422_SP, YCrCb_422_SP}" by blast
  then show ?thesis
  proof cases
    case raw
    then have n: "bytes = aw * ah * 2" and ah: "ah = ALIGN h 32" using sz ok by (auto simp: size_defs split: if_splits)
    have "fits (unat aw * unat ah * 2) bytes (8208 * 8224 * 2)"
      unfolding n ah by (intro size_rules st sh) simp_all
    with raw al alh ah show ?thesis
      by (auto simp: fits_def pixel_bits_def aligned_picture_def width_unit_def height_unit_def algebra_simps)
  next
    case sp422
    then have n: "bytes = ALIGN (aw * ah * 2) 4096" and ah: "ah = h" using sz ok by (auto simp: size_defs split: if_splits)
    have "fits (unat aw * unat ah * 2) bytes (8208 * 8192 * 2 + 4096)"
      unfolding n ah by (intro size_rules st h) simp_all
    with sp422 al ah show ?thesis
      by (auto simp: fits_def pixel_bits_def aligned_picture_def width_unit_def height_unit_def algebra_simps)
  qed
qed

text \<open>Half as many columns or rows, aligned in turn, are at least half of the aligned ones.\<close>

lemma half_aligned:
  assumes "unat w \<le> 8192" "even (unat w)"
  shows "unat (ALIGN w 32) \<le> 2 * unat (ALIGN (w div 2) 32)"
proof -
  have "unat (ALIGN w 32) = (unat w + 31) div 32 * 32" using unat_ALIGN [of 5 w] assms(1) by simp
  moreover have "unat (ALIGN (w div 2) 32) = (unat w div 2 + 31) div 32 * 32"
    using unat_ALIGN [of 5 "w div 2"] assms(1) by (simp add: unat_div)
  moreover from assms(2) obtain i where "unat w = 2 * i" by (elim evenE)
  moreover have "(2 * i + 31) div 32 * 32 \<le> 2 * i + 31" by (rule div_times_less_eq_dividend)
  moreover have "i + 31 < (i + 31) div 32 * 32 + 32" using dividend_less_div_times [of 32 "i + 31"] by simp
  ultimately show ?thesis by simp
qed

lemma size_fits_tiled:
  assumes dims: "unat w \<le> 8192" "unat h \<le> 8192"
    and sz: "getBufferSizeAndDimensions padding w h f = (bytes, aw, ah)"
    and ev: "even (unat w)" "even (unat h)"
    and f: "f \<in> {YCrCb_420_SP_ADRENO, YCbCr_420_SP_TILED}"
  shows "aligned_picture padding f w h aw ah \<and> unat aw * unat ah * 12 \<le> 8 * unat bytes"
proof -
  have h: "fits (unat h) h 8192" and w: "fits (unat w) w 8192" using dims by (simp_all add: fits_def)
  have ah: "ah = ALIGN h 32" using sz f by (auto simp: size_defs)
  define W H where "W = ALIGN (w div 2) 32" and "H = ALIGN (h div 2) 32"
  have "fits (unat w div 2) W (8192 div 2 + 32)" unfolding W_def by (intro size_rules w) simp_all
  then have W: "fits (unat W) W 4128" by (simp add: fits_def)
  have "fits (unat h div 2) H (8192 div 2 + 32)" unfolding H_def by (intro size_rules h) simp_all
  then have H: "fits (unat H) H 4128" by (simp add: fits_def)
  have hH: "unat ah \<le> 2 * unat H" unfolding ah H_def by (rule half_aligned) (rule dims ev)+
  note sh = aligned_area(2) [OF dims(2), folded ah] and alh = aligned_height [OF dims(2), folded ah]
  from f consider (adreno) "f = YCrCb_420_SP_ADRENO" | (tiled) "f = YCbCr_420_SP_TILED" by blast
  then show ?thesis
  proof cases
    case adreno
    then have n: "bytes = ALIGN (aw * ah) 4096 + ALIGN (2 * W * H) 4096" and aw: "aw = ALIGN w 32"
      using sz by (auto simp: size_defs getStride_def rgb_format_def W_def H_def)
    note st = aligned_area(2) [OF dims(1), folded aw] and al = aligned_bounds(2,5) [OF dims(1), folded aw]
    have "fits (unat aw * unat ah + 2 * unat W * unat H) bytes
        (8224 * 8224 + 4096 + (2 * 4128 * 4128 + 4096))"
      unfolding n by (intro size_rules st sh W H) simp_all
    then have "unat aw * unat ah + 2 * unat W * unat H \<le> unat bytes" by (simp add: fits_def)
    moreover have "unat aw \<le> 2 * unat W" unfolding aw W_def by (rule half_aligned) (rule dims ev)+
    then have "unat aw * unat ah \<le> 2 * unat W * (2 * unat H)" using hH by (rule mult_le_mono)
    ultimately have "unat aw * unat ah * 12 \<le> 8 * unat bytes" by (simp add: algebra_simps)
    then show ?thesis
      using adreno al alh by (auto simp: fits_def aligned_picture_def width_unit_def height_unit_def)
  next
    case tiled
    have "ALIGN (ALIGN w 128) 128 = ALIGN w 128"
    proof (rule u32_eqI)
      have u: "unat (ALIGN y 128) = (unat y + 127) div 128 * 128" if "unat y \<le> 2 ^ 31" for y
        using unat_ALIGN [of 7 y] that by simp
      have "unat (ALIGN w 128) \<le> 2 ^ 31" using aligned_bounds(3) [OF dims(1)] by (simp add: fits_def)
      then show "unat (ALIGN (ALIGN w 128) 128) = unat (ALIGN w 128)" using dims(1) by (simp add: u)
    qed
    with tiled have n: "bytes = ALIGN (aw * ah) 8192 + ALIGN (aw * H) 8192" and aw: "aw = ALIGN w 128"
      using sz by (auto simp: size_defs getStride_def rgb_format_def H_def)
    note st = aligned_area(3) [OF dims(1), folded aw] and al = aligned_bounds(3,6) [OF dims(1), folded aw]
    have "fits (unat aw * unat ah + unat aw * unat H) bytes (8320 * 8224 + 8192 + (8320 * 4128 + 8192))"
      unfolding n by (intro size_rules st sh H) simp_all
    then have "unat aw * unat ah + unat aw * unat H \<le> unat bytes" by (simp add: fits_def)
    moreover have "unat aw * unat ah \<le> 2 * (unat aw * unat H)"
      using mult_le_mono2 [OF hH, of "unat aw"] by (simp only: mult.left_commute [of "unat aw" 2])
    ultimately have "unat aw * unat ah * 12 \<le> 8 * unat bytes" by linarith
    then show ?thesis
      using tiled al alh by (auto simp: fits_def aligned_picture_def width_unit_def height_unit_def)
  qed
qed

lemma ALIGN_16_128: "unat x \<le> 8192 \<Longrightarrow> unat (ALIGN x 16) \<le> unat (ALIGN x 128)"
  using unat_ALIGN [of 4 x] unat_ALIGN [of 7 x] by (simp; presburger?)

lemma size_fits_planar:
  assumes dims: "unat w \<le> 8192" "unat h \<le> 8192"
    and sz: "getBufferSizeAndDimensions padding w h f = (bytes, aw, ah)"
    and ev: "even (unat h)"
    and ok: "bytes \<noteq> EINVAL_result" and f: "f \<in> {NV12_ENCODEABLE, YV12, YCbCr_420_SP, YCrCb_420_SP, NV12}"
  shows "aligned_picture padding f w h aw ah \<and> unat aw * unat ah * 12 \<le> 8 * unat bytes"
proof -
  have h: "fits (unat h) h 8192" using dims by (simp add: fits_def)
  have a: "aw = ALIGN w 16" "ah = h"
    using sz ok f by (auto simp: size_defs getStride_def rgb_format_def split: if_splits)
  note st = aligned_area(1) [OF dims(1), folded a] and al = aligned_bounds(1,4) [OF dims(1), folded a]
  have al: "aligned_picture padding f w h aw ah"
    using al a(2) f by (auto simp: fits_def aligned_picture_def width_unit_def height_unit_def)
  from ev obtain k where k: "unat h = 2 * k" by (elim evenE)
  obtain j where j: "unat aw = 2 * j" using aligned_bounds(4) [OF dims(1), folded a] by (auto elim!: dvdE)
  from f consider (enc) "f = NV12_ENCODEABLE" | (yv12) "f = YV12" | (sp) "f \<in> {YCbCr_420_SP, YCrCb_420_SP}"
    | (nv12) "f = NV12" by blast
  then have "unat aw * unat h * 12 \<le> 8 * unat bytes"
  proof cases
    case enc
    then have n: "bytes = ALIGN (ALIGN (aw * h) 2048 + ALIGN (aw div 2) 16 * (h div 2) * 2) 4096"
      using sz ok a by (auto simp: size_defs split: if_splits)
    have "fits (unat aw * unat h + unat aw div 2 * (unat h div 2) * 2) bytes
        (8208 * 8192 + 2048 + (8208 div 2 + 16) * (8192 div 2) * 2 + 4096)"
      unfolding n by (intro size_rules st h) simp_all
    then show ?thesis by (simp add: fits_def j k algebra_simps)
  next
    case yv12
    then have n: "bytes = ALIGN (aw * h + ALIGN (aw div 2) 16 * (h div 2) * 2) 4096"
      using sz ok a by (auto simp: size_defs split: if_splits)
    have "fits (unat aw * unat h + unat aw div 2 * (unat h div 2) * 2) bytes
        (8208 * 8192 + (8208 div 2 + 16) * (8192 div 2) * 2 + 4096)"
      unfolding n by (intro size_rules st h) simp_all
    then show ?thesis by (simp add: fits_def j k algebra_simps)
  next
    case sp
    then have n: "bytes = ALIGN (aw * h + (aw * h) div 2) 4096"
      using sz ok a by (auto simp: size_defs split: if_splits)
    have "fits (unat aw * unat h + unat aw * unat h div 2) bytes (8208 * 8192 + 8208 * 8192 div 2 + 4096)"
      unfolding n by (intro size_rules st h) simp_all
    then show ?thesis by (simp add: fits_def j k algebra_simps)
  next
    case nv12
    have w128: "unat aw \<le> unat (ALIGN w 128)" unfolding a by (rule ALIGN_16_128) (rule dims)
    then have w128: "fits (unat aw) (ALIGN w 128) 8320" using aligned_bounds(3) [OF dims(1)] by (simp add: fits_def)
    from nv12 have n: "bytes = ALIGN (ALIGN w 128 * ALIGN h 32) 8192 + ALIGN (ALIGN w 128 * ALIGN (h div 2) 32) 8192"
      using sz by (auto simp: size_defs split: if_splits)
    have "fits (unat aw * unat h + unat aw * (unat h div 2)) bytes
        (8320 * (8192 + 32) + 8192 + (8320 * (8192 div 2 + 32) + 8192))"
      unfolding n by (intro size_rules w128 h) simp_all
    then show ?thesis by (simp add: fits_def k algebra_simps)
  qed
  with al a(2) show ?thesis by simp
qed

text \<open>
  C37. For a picture of at most 8192 by 8192 elements that the allocator accepts, the aligned width
  and height contain those asked for and consist of whole units, and the size holds the aligned
  picture, not only the one asked for: columns and rows have to be even where the format subsamples
  them. Left out is the format of the Venus core, which this device does not have
  (\<open>Venus_has_no_size\<close>).
\<close>
theorem size_fits_picture:
  assumes "padding_ok padding" "unat w \<le> 8192" "unat h \<le> 8192" "f \<noteq> YCbCr_420_SP_VENUS"
    and "pixel_bits f = 12 \<longrightarrow> even (unat w) \<and> even (unat h)"
    and "getBufferSizeAndDimensions padding w h f = (bytes, aw, ah)" "bytes \<noteq> EINVAL_result"
  shows "aligned_picture padding f w h aw ah \<and> unat aw * unat ah * pixel_bits f \<le> 8 * unat bytes"
proof -
  consider (rgb) "f \<in> {RGBA_8888, RGBX_8888, BGRA_8888, RGB_888, RGB_565}"
    | (raw) "f \<in> {RAW16, RAW_OPAQUE, YCbCr_422_SP, YCrCb_422_SP}"
    | (tiled) "f \<in> {YCrCb_420_SP_ADRENO, YCbCr_420_SP_TILED}"
    | (planar) "f \<in> {NV12_ENCODEABLE, YV12, YCbCr_420_SP, YCrCb_420_SP, NV12}"
    | (blob) "f = BLOB" | (other) i where "f = OtherFormat i"
    using assms(4) by (cases f) simp_all
  then show ?thesis
  proof cases
    case rgb then show ?thesis by (intro size_fits_rgb assms)
  next
    case raw then show ?thesis using assms(2,3,6,7) by (intro size_fits_422)
  next
    case tiled
    then have "pixel_bits f = 12" by (auto simp: pixel_bits_def)
    then show ?thesis using size_fits_tiled [OF assms(2,3,6) _ _ tiled] assms(5) by simp
  next
    case planar
    then have "pixel_bits f = 12" by (auto simp: pixel_bits_def)
    then show ?thesis using size_fits_planar [OF assms(2,3,6) _ assms(7) planar] assms(5) by simp
  next
    case blob
    with assms(6,7) show ?thesis
      by (auto simp: size_defs pixel_bits_def aligned_picture_def width_unit_def height_unit_def split: if_splits)
  next
    case other
    with assms(6,7) show ?thesis by (simp add: size_defs)
  qed
qed

lemma size_fits_picture_witness:
  "aligned_picture None RGBA_8888 1921 1080 1952 1088 \<and>
   unat (1952 :: u32) * unat (1088 :: u32) * pixel_bits RGBA_8888 \<le> 8 * unat (8495104 :: u32)"
  by (rule size_fits_picture)
    (simp_all add: padding_ok_def pixel_bits_def size_defs getStride_def rgb_format_def ALIGN_def EINVAL_result_def)

text \<open>The size of a picture of the Venus core is 0, not an error.\<close>

lemma Venus_has_no_size:
  "getBufferSizeAndDimensions padding w h YCbCr_420_SP_VENUS = (0, 0, 0)"
  by (simp add: size_defs getStride_def rgb_format_def)

section \<open>The planes of a locked buffer\<close>

text \<open>Offsets of the elements of picture element \<open>(x, y)\<close> from the start of the buffer.\<close>

definition y_at :: "u32 \<Rightarrow> android_ycbcr \<Rightarrow> nat \<Rightarrow> nat \<Rightarrow> nat" where
  "y_at b p x y = unat (plane_y p - b) + y * unat (ystride p) + x"

definition cb_at :: "u32 \<Rightarrow> android_ycbcr \<Rightarrow> nat \<Rightarrow> nat \<Rightarrow> nat" where
  "cb_at b p x y = unat (plane_cb p - b) + y div 2 * unat (cstride p) + x div 2 * unat (chroma_step p)"

definition cr_at :: "u32 \<Rightarrow> android_ycbcr \<Rightarrow> nat \<Rightarrow> nat \<Rightarrow> nat" where
  "cr_at b p x y = unat (plane_cr p - b) + y div 2 * unat (cstride p) + x div 2 * unat (chroma_step p)"

text \<open>Row \<open>y\<close> of a plane with rows of \<open>s\<close> bytes.\<close>

lemma row_end: "x < s \<Longrightarrow> y < n \<Longrightarrow> y * s + x < n * (s :: nat)"
proof -
  assume "x < s" "y < n"
  then have "y * s + x < Suc y * s" by simp
  also have "\<dots> \<le> n * s" using \<open>y < n\<close> by (intro mult_le_mono1) simp
  finally show ?thesis .
qed

text \<open>Chroma planes of half the height behind a luma plane of \<open>h\<close> rows.\<close>

definition planes_inside :: "u32 \<Rightarrow> android_ycbcr \<Rightarrow> nat \<Rightarrow> nat \<Rightarrow> nat \<Rightarrow> bool" where
  "planes_inside b p w h n \<longleftrightarrow> (\<forall>x < w. \<forall>y < h.
     y_at b p x y < unat (ystride p) * h \<and>
     unat (ystride p) * h \<le> cb_at b p x y \<and> cb_at b p x y < n \<and>
     unat (ystride p) * h \<le> cr_at b p x y \<and> cr_at b p x y < n)"

text \<open>No two elements of the picture share a byte: neither elements of one plane nor of two.\<close>

definition planes_apart :: "u32 \<Rightarrow> android_ycbcr \<Rightarrow> nat \<Rightarrow> nat \<Rightarrow> bool" where
  "planes_apart b p w h \<longleftrightarrow> (\<forall>x < w. \<forall>y < h. \<forall>x' < w. \<forall>y' < h.
     (y_at b p x y = y_at b p x' y' \<longrightarrow> x = x' \<and> y = y') \<and>
     (cb_at b p x y = cb_at b p x' y' \<longrightarrow> x div 2 = x' div 2 \<and> y div 2 = y' div 2) \<and>
     (cr_at b p x y = cr_at b p x' y' \<longrightarrow> x div 2 = x' div 2 \<and> y div 2 = y' div 2) \<and>
     cb_at b p x y \<noteq> cr_at b p x' y' \<and>
     y_at b p x y \<noteq> cb_at b p x' y' \<and> y_at b p x y \<noteq> cr_at b p x' y')"

lemma row_element_inj: "x < s \<Longrightarrow> x' < s \<Longrightarrow> y * s + x = y' * s + x' \<Longrightarrow> x = x' \<and> y = (y' :: nat)"
proof -
  assume a: "x < s" "x' < s" "y * s + x = y' * s + x'"
  from a(1) have "(y * s + x) mod s = x" "(y * s + x) div s = y" by simp_all
  moreover from a(2) have "(y' * s + x') mod s = x'" "(y' * s + x') div s = y'" by simp_all
  ultimately show ?thesis using a(3) by metis
qed

lemma planes_apartI:
  assumes inside: "planes_inside b p w h n" and w: "w \<le> unat (ystride p)" and b: "plane_y p = b"
    and cb: "\<And>x y x' y'. x < w \<Longrightarrow> x' < w \<Longrightarrow> cb_at b p x y = cb_at b p x' y' \<Longrightarrow> x div 2 = x' div 2 \<and> y div 2 = y' div 2"
    and cr: "\<And>x y x' y'. x < w \<Longrightarrow> x' < w \<Longrightarrow> cr_at b p x y = cr_at b p x' y' \<Longrightarrow> x div 2 = x' div 2 \<and> y div 2 = y' div 2"
    and cbcr: "\<And>x y x' y'. x < w \<Longrightarrow> x' < w \<Longrightarrow> y < h \<Longrightarrow> y' < h \<Longrightarrow> cb_at b p x y \<noteq> cr_at b p x' y'"
  shows "planes_apart b p w h"
  unfolding planes_apart_def
proof (intro allI impI conjI)
  fix x y x' y' assume *: "x < w" "y < h" "x' < w" "y' < h"
  have "y_at b p x y < unat (ystride p) * h" "unat (ystride p) * h \<le> cb_at b p x' y'"
    "unat (ystride p) * h \<le> cr_at b p x' y'"
    using inside * unfolding planes_inside_def by blast+
  then show "y_at b p x y \<noteq> cb_at b p x' y'" "y_at b p x y \<noteq> cr_at b p x' y'" by linarith+
  show "cb_at b p x y \<noteq> cr_at b p x' y'" by (rule cbcr) (rule *)+
  { assume "y_at b p x y = y_at b p x' y'"
    then have "x = x' \<and> y = y'" using * w b by (intro row_element_inj [where s = "unat (ystride p)"]) (simp_all add: y_at_def)
    then show "x = x'" "y = y'" by simp_all }
  { assume "cb_at b p x y = cb_at b p x' y'"
    with cb [OF *(1,3)] show "x div 2 = x' div 2" "y div 2 = y' div 2" by blast+ }
  { assume "cr_at b p x y = cr_at b p x' y'"
    with cr [OF *(1,3)] show "x div 2 = x' div 2" "y div 2 = y' div 2" by blast+ }
qed

lemma semiplanar_inside:
  assumes "even w" "even h" "w \<le> s" "s * h + s * (h div 2) \<le> n"
    and "unat (ystride p) = s" "unat (cstride p) = s" "chroma_step p = 2" "plane_y p = b"
    and "{unat (plane_cb p - b), unat (plane_cr p - b)} = {s * h, s * h + 1}"
  shows "planes_inside b p w h n"
proof -
  have "s * h + k + (y div 2 * s + x div 2 * 2) < n" if "x < w" "y < h" "k \<le> 1" for x y k
  proof -
    have "x div 2 * 2 + k < s" using that assms(1,3) by presburger
    then have "y div 2 * s + (x div 2 * 2 + k) < h div 2 * s"
      using that(2) assms(2) by (intro row_end) presburger+
    then show ?thesis using assms(4) by (simp add: algebra_simps)
  qed
  note chroma = this
  have luma: "y * s + x < s * h" if "x < w" "y < h" for x y
    using that assms(3) row_end [of x s y h] by (simp add: mult.commute)
  from assms(9) obtain k l where "unat (plane_cb p - b) = s * h + k" "unat (plane_cr p - b) = s * h + l"
      "k \<le> 1" "l \<le> 1"
    by (auto simp: doubleton_eq_iff)
  then show ?thesis
    using chroma [of _ _ k] chroma [of _ _ l] luma assms(5-8)
    unfolding planes_inside_def y_at_def cb_at_def cr_at_def by (simp add: add.assoc)
qed

lemma planar_inside:
  assumes "even w" "even h" "w \<le> s" "s div 2 \<le> c" "s * h + c * (h div 2) * 2 \<le> n"
    and "unat (ystride p) = s" "unat (cstride p) = c" "chroma_step p = 1" "plane_y p = b"
    and "unat (plane_cr p - b) = s * h" "unat (plane_cb p - b) = s * h + c * (h div 2)"
  shows "planes_inside b p w h n"
proof -
  have chroma: "y div 2 * c + x div 2 < c * (h div 2)" if "x < w" "y < h" for x y
  proof -
    from that assms(1-4) have "x div 2 < c" "y div 2 < h div 2" by presburger+
    from row_end [OF this] show ?thesis by (simp add: mult.commute)
  qed
  have luma: "y * s + x < s * h" if "x < w" "y < h" for x y
    using that assms(3) row_end [of x s y h] by (simp add: mult.commute)
  show ?thesis unfolding planes_inside_def y_at_def cb_at_def cr_at_def
  proof (intro allI impI)
    fix x y assume "x < w" "y < h"
    from chroma [OF this] luma [OF this] show "unat (plane_y p - b) + y * unat (ystride p) + x < unat (ystride p) * h \<and>
      unat (ystride p) * h \<le> unat (plane_cb p - b) + y div 2 * unat (cstride p) + x div 2 * unat (chroma_step p) \<and>
      unat (plane_cb p - b) + y div 2 * unat (cstride p) + x div 2 * unat (chroma_step p) < n \<and>
      unat (ystride p) * h \<le> unat (plane_cr p - b) + y div 2 * unat (cstride p) + x div 2 * unat (chroma_step p) \<and>
      unat (plane_cr p - b) + y div 2 * unat (cstride p) + x div 2 * unat (chroma_step p) < n"
      using assms(5-11) by simp
  qed
qed

lemma semiplanar_apart:
  assumes "planes_inside b p w h n" "even w" "w \<le> s"
    and "unat (ystride p) = s" "unat (cstride p) = s" "chroma_step p = 2" "plane_y p = b"
    and "{unat (plane_cb p - b), unat (plane_cr p - b)} = {s * h, s * h + 1}"
  shows "planes_apart b p w h"
proof -
  have pair: "k = l \<and> x div 2 = x' div 2 \<and> y div 2 = y' div 2"
    if "x < w" "x' < w" "k \<le> 1" "l \<le> 1"
      "s * h + k + y div 2 * s + x div 2 * 2 = s * h + l + y' div 2 * s + x' div 2 * 2" for x x' y y' k l
  proof -
    have "x div 2 * 2 + k < s" if "x < w" "k \<le> 1" for x k using that assms(2,3) by presburger
    then have "x div 2 * 2 + k < s" "x' div 2 * 2 + l < s" using that(1-4) by blast+
    moreover from that(5) have "y div 2 * s + (x div 2 * 2 + k) = y' div 2 * s + (x' div 2 * 2 + l)" by simp
    ultimately have "x div 2 * 2 + k = x' div 2 * 2 + l \<and> y div 2 = y' div 2" by (rule row_element_inj)
    moreover have "k = l \<and> i = j" if "i * 2 + k = j * 2 + l" "k \<le> 1" "l \<le> 1" for i j k l :: nat
      using that by presburger
    ultimately show ?thesis using that(3,4) by blast
  qed
  from assms(8) consider "unat (plane_cb p - b) = s * h" "unat (plane_cr p - b) = s * h + 1"
    | "unat (plane_cb p - b) = s * h + 1" "unat (plane_cr p - b) = s * h"
    by (auto simp: doubleton_eq_iff)
  then obtain k l where kl: "unat (plane_cb p - b) = s * h + k" "unat (plane_cr p - b) = s * h + l"
      "k \<le> 1" "l \<le> 1" "k \<noteq> l"
    by cases (use that [of 0 1] in simp, use that [of 1 0] in simp)
  show ?thesis
  proof (rule planes_apartI [OF assms(1) _ assms(7)])
    show "w \<le> unat (ystride p)" using assms(3,4) by simp
    fix x y x' y' assume x: "x < w" "x' < w"
    show "x div 2 = x' div 2 \<and> y div 2 = y' div 2" if "cb_at b p x y = cb_at b p x' y'"
      using pair [OF x kl(3) kl(3), of y y'] that kl(1) assms(5,6) by (simp add: cb_at_def)
    show "x div 2 = x' div 2 \<and> y div 2 = y' div 2" if "cr_at b p x y = cr_at b p x' y'"
      using pair [OF x kl(4) kl(4), of y y'] that kl(2) assms(5,6) by (simp add: cr_at_def)
    show "cb_at b p x y \<noteq> cr_at b p x' y'"
      using pair [OF x kl(3) kl(4), of y y'] kl assms(5,6) by (auto simp: cb_at_def cr_at_def)
  qed
qed

lemma planar_apart:
  assumes "planes_inside b p w h n" "even w" "even h" "w \<le> s" "s div 2 \<le> c"
    and "unat (ystride p) = s" "unat (cstride p) = c" "chroma_step p = 1" "plane_y p = b"
    and "unat (plane_cr p - b) = s * h" "unat (plane_cb p - b) = s * h + c * (h div 2)"
  shows "planes_apart b p w h"
proof (rule planes_apartI [OF assms(1) _ assms(9)])
  show "w \<le> unat (ystride p)" using assms(4,6) by simp
  fix x y x' y' assume x: "x < w" "x' < w"
  then have half: "x div 2 < c" "x' div 2 < c" using assms(2,4,5) by presburger+
  have pair: "x div 2 = x' div 2 \<and> y div 2 = y' div 2" if "y div 2 * c + x div 2 = y' div 2 * c + x' div 2"
    using half that by (rule row_element_inj)
  show "x div 2 = x' div 2 \<and> y div 2 = y' div 2" if "cb_at b p x y = cb_at b p x' y'"
    using pair that assms(7,8) by (simp add: cb_at_def)
  show "x div 2 = x' div 2 \<and> y div 2 = y' div 2" if "cr_at b p x y = cr_at b p x' y'"
    using pair that assms(7,8) by (simp add: cr_at_def)
  assume y: "y < h" "y' < h"
  then have "y' div 2 < h div 2" using assms(3) by presburger
  from row_end [OF half(2) this] have "y' div 2 * c + x' div 2 < c * (h div 2)" by (simp add: mult.commute)
  then show "cb_at b p x y \<noteq> cr_at b p x' y'" using assms(7,8,10,11) by (simp add: cb_at_def cr_at_def)
qed

lemma unat_mult_le: "unat x \<le> A \<Longrightarrow> unat y \<le> B \<Longrightarrow> A * B < 2 ^ 32 \<Longrightarrow> unat (x * y :: u32) = unat x * unat y"
  using mult_le_mono [of "unat x" A "unat y" B] by (simp add: unat_word_ariths)

lemma ALIGN_16_again: "unat x \<le> 8192 \<Longrightarrow> ALIGN (ALIGN x 16) 16 = ALIGN x 16"
proof (rule u32_eqI)
  assume x: "unat x \<le> 8192"
  have u: "unat (ALIGN y 16) = (unat y + 15) div 16 * 16" if "unat y \<le> 2 ^ 31" for y
    using unat_ALIGN [of 4 y] that by simp
  have a: "unat (ALIGN x 16) = (unat x + 15) div 16 * 16" by (rule u) (use x in simp)
  moreover have "unat (ALIGN x 16) \<le> 2 ^ 31" using a x by simp
  ultimately show "unat (ALIGN (ALIGN x 16) 16) = unat (ALIGN x 16)" by (simp add: u)
qed

lemma half_mult: "even (n :: nat) \<Longrightarrow> m * n div 2 = m * (n div 2)"
  by (elim evenE) simp

lemma unat_Suc_32: "unat x < 2 ^ 31 \<Longrightarrow> unat (x + 1 :: u32) = Suc (unat x)"
  by (simp add: unat_word_ariths)

text \<open>
  C10. The planes a client gets when it locks a buffer lie inside the memory allocated for it, the
  chroma planes behind the luma plane, and no two elements share a byte: the elements of a plane are
  apart from each other, and those of the luma, the Cb and the Cr plane from those of the other
  planes. This is for every format that can be locked, and for an even width and height of at most
  8192; \<open>odd_height_overruns\<close> shows what happens for an odd height.
\<close>
theorem locked_planes_inside:
  assumes "alloc_buffer padding allocate w h f = Some hnd" "lock_ycbcr hnd = Some p"
    and "unat w \<le> 8192" "unat h \<le> 8192" "even (unat w)" "even (unat h)"
  shows "planes_inside (h_base hnd) p (unat w) (unat h) (unat (h_size hnd)) \<and>
    planes_apart (h_base hnd) p (unat w) (unat h)"
proof -
  define s where "s = ALIGN w 16"
  define c where "c = ALIGN (s div 2) 16"
  let ?S = "unat s" and ?H = "unat h"
  have "fits (unat w) s (8192 + 16)"
    unfolding s_def by (rule fits_ALIGN) (use assms(3) in \<open>simp_all add: fits_def\<close>)
  then have ws: "unat w \<le> ?S" and s: "fits ?S s 8208" by (simp_all add: fits_def)
  have h: "fits ?H h 8192" using assms(4) by (simp add: fits_def)
  have "fits (?S div 2) c (8208 div 2 + 16)"
    unfolding c_def by (intro size_rules s) simp_all
  then have sc: "?S div 2 \<le> unat c" and c: "fits (unat c) c 4120" by (simp_all add: fits_def)
  have again: "ALIGN s 16 = s" unfolding s_def by (rule ALIGN_16_again) (rule assms(3))
  have sh: "unat (s * h) = ?S * ?H" "?S * ?H \<le> 8208 * 8192"
    using s h mult_le_mono [of ?S 8208 ?H 8192] by (auto simp: fits_def intro!: unat_mult_le [of _ 8208 _ 8192])
  have ch: "unat (c * h) = unat c * ?H" "unat c * ?H \<le> 4120 * 8192"
    using c h mult_le_mono [of "unat c" 4120 ?H 8192] by (auto simp: fits_def intro!: unat_mult_le [of _ 4120 _ 8192])
  have half: "m * ?H div 2 = m * (?H div 2)" for m by (rule half_mult) (rule assms(6))
  have half_sum: "unat (s * h + c * h div 2) = ?S * ?H + unat c * (?H div 2)"
    using sh ch half [of "unat c"] by (simp add: unat_word_ariths unat_div)
  consider (nv21) "f = YCrCb_420_SP" | (nv12) "f = NV12" | (yv12) "f = YV12"
    using assms(1,2) by (cases f) (auto simp: alloc_buffer_def lock_ycbcr_def split: prod.splits option.splits)
  then show ?thesis
  proof cases
    case nv21
    then have b: "h_size hnd = ALIGN (s * h + (s * h) div 2) 4096" and p: "unat (plane_cr p - h_base hnd) = ?S * ?H"
      "unat (plane_cb p - h_base hnd) = ?S * ?H + 1" "ystride p = s" "cstride p = s" "chroma_step p = 2" "plane_y p = h_base hnd"
      using assms(1,2) again sh by (auto simp: alloc_buffer_def lock_ycbcr_def size_defs getStride_def rgb_format_def
          simp flip: s_def simp: unat_Suc_32 split: option.splits)
    have "fits (?S * ?H + ?S * ?H div 2) (h_size hnd) (8208 * 8192 + 8208 * 8192 div 2 + 4096)"
      unfolding b by (intro size_rules s h) simp_all
    then have "planes_inside (h_base hnd) p (unat w) ?H (unat (h_size hnd))"
      using p assms(5,6) ws by (intro semiplanar_inside [where s = ?S]) (auto simp: fits_def half)
    moreover from this have "planes_apart (h_base hnd) p (unat w) ?H"
      by (rule semiplanar_apart [where s = ?S]) (use p assms(5,6) ws in auto)
    ultimately show ?thesis ..
  next
    case nv12
    then have b: "h_size hnd = ALIGN (ALIGN w 128 * ALIGN h 32) 8192 + ALIGN (ALIGN w 128 * ALIGN (h div 2) 32) 8192"
      and p: "unat (plane_cb p - h_base hnd) = ?S * ?H"
      "unat (plane_cr p - h_base hnd) = ?S * ?H + 1" "ystride p = s" "cstride p = s" "chroma_step p = 2" "plane_y p = h_base hnd"
      using assms(1,2) again sh by (auto simp: alloc_buffer_def lock_ycbcr_def size_defs
          simp flip: s_def simp: unat_Suc_32 split: option.splits)
    have w: "fits (unat w) w 8192" using assms(3) by (simp add: fits_def)
    have "fits (unat w) (ALIGN w 128) (8192 + 128)" by (intro size_rules w) simp_all
    then have w128: "fits ?S (ALIGN w 128) 8320" using ALIGN_16_128 [OF assms(3)] by (simp add: fits_def s_def)
    have "fits (?S * ?H + ?S * (?H div 2)) (h_size hnd)
        (8320 * (8192 + 32) + 8192 + (8320 * (8192 div 2 + 32) + 8192))"
      unfolding b by (intro size_rules w128 h) simp_all
    then have "planes_inside (h_base hnd) p (unat w) ?H (unat (h_size hnd))"
      using p assms(5,6) ws by (intro semiplanar_inside [where s = ?S]) (auto simp: fits_def)
    moreover from this have "planes_apart (h_base hnd) p (unat w) ?H"
      by (rule semiplanar_apart [where s = ?S]) (use p assms(5,6) ws in auto)
    ultimately show ?thesis ..
  next
    case yv12
    then have b: "h_size hnd = ALIGN (s * h + c * (h div 2) * 2) 4096" and p: "unat (plane_cr p - h_base hnd) = ?S * ?H"
      "unat (plane_cb p - h_base hnd) = ?S * ?H + unat c * (?H div 2)" "ystride p = s" "cstride p = c" "chroma_step p = 1"
      "plane_y p = h_base hnd"
      using assms(1,2,5,6) again sh half_sum
      by (auto simp: alloc_buffer_def lock_ycbcr_def size_defs getStride_def rgb_format_def
          simp flip: s_def c_def split: option.splits)
    have "fits (?S * ?H + unat c * (?H div 2) * 2) (h_size hnd) (8208 * 8192 + 4120 * (8192 div 2) * 2 + 4096)"
      unfolding b by (intro size_rules s c h) simp_all
    then have "planes_inside (h_base hnd) p (unat w) ?H (unat (h_size hnd))"
      using p assms(5,6) ws sc by (intro planar_inside [where s = ?S and c = "unat c"]) (auto simp: fits_def)
    moreover from this have "planes_apart (h_base hnd) p (unat w) ?H"
      by (rule planar_apart [where s = ?S and c = "unat c"]) (use p assms(5,6) ws sc in auto)
    ultimately show ?thesis ..
  qed
qed

lemma locked_planes_inside_witness:
  "\<exists>hnd p. alloc_buffer None (\<lambda>_. Some 4096) 642 480 YV12 = Some hnd \<and> lock_ycbcr hnd = Some p \<and>
     planes_inside (h_base hnd) p 642 480 (unat (h_size hnd)) \<and> planes_apart (h_base hnd) p 642 480"
proof -
  obtain hnd where a: "alloc_buffer None (\<lambda>_. Some 4096) 642 480 YV12 = Some hnd"
    by (simp add: alloc_buffer_def size_defs)
  moreover from a obtain p where "lock_ycbcr hnd = Some p"
    by (auto simp: alloc_buffer_def lock_ycbcr_def size_defs)
  ultimately show ?thesis using locked_planes_inside [of None "\<lambda>_. Some 4096" 642 480 YV12 hnd p] by auto
qed

text \<open>
  For NV21 an odd height is accepted, but half a row of chroma is missing: in a buffer of 8192 by
  1 the client is told that the chroma of the column 4096 and of those behind it lies beyond the end.
\<close>
theorem odd_height_overruns:
  "(case alloc_buffer None (\<lambda>_. Some b) 8192 1 YCrCb_420_SP of None \<Rightarrow> False | Some hnd \<Rightarrow>
    (case lock_ycbcr hnd of None \<Rightarrow> False | Some p \<Rightarrow>
      h_size hnd = 12288 \<and> cr_at (h_base hnd) p 4096 0 = 12288))"
  by (simp add: alloc_buffer_def lock_ycbcr_def size_defs getStride_def rgb_format_def ALIGN_def cr_at_def)

text \<open>A size that is an error is asked for as a number of bytes.\<close>

lemma alloc_buffer_odd_YV12:
  "odd (unat w) \<Longrightarrow> alloc_buffer padding allocate w h YV12 =
   (case allocate EINVAL_result of None \<Rightarrow> None
    | Some base \<Rightarrow> Some \<lparr>h_format = YV12, h_width = getStride padding w YV12, h_height = ALIGN h 32,
                         h_size = EINVAL_result, h_base = base\<rparr>)"
  by (simp add: alloc_buffer_def size_defs)

section \<open>Slots of the frame buffer\<close>

lemma find_slot_first:
  assumes "\<exists>i < n. k \<le> i \<and> \<not> bit used i" "n \<le> 32"
  shows "\<exists>i < n. k \<le> i \<and> \<not> bit used i \<and> (\<forall>j. k \<le> j \<and> j < i \<longrightarrow> bit used j) \<and>
    find_slot used [k..<n] v R = (used OR push_bit i 1, v + of_nat (i - k) * R)"
  using assms(1)
proof (induction "n - k" arbitrary: k v)
  case 0
  then obtain i where "i < n" "k \<le> i" by blast
  with 0(1) have False by linarith
  then show ?case ..
next
  case (Suc d)
  from Suc(2,3) have kn: "k < n" by linarith
  then have l: "[k..<n] = k # [Suc k..<n]" by (rule upt_conv_Cons)
  show ?case
  proof (cases "bit used k")
    case False
    then show ?thesis using kn assms(2) by (intro exI [of _ k]) (auto simp: l and_exp_eq_0_iff_not_bit)
  next
    case True
    then have "\<exists>i < n. Suc k \<le> i \<and> \<not> bit used i" using Suc(3) by (metis le_neq_implies_less Suc_leI)
    from Suc(1) [OF _ this] Suc(2) obtain i where i: "i < n" "Suc k \<le> i" "\<not> bit used i"
        "\<forall>j. Suc k \<le> j \<and> j < i \<longrightarrow> bit used j"
        "find_slot used [Suc k..<n] (v + R) R = (used OR push_bit i 1, v + R + of_nat (i - Suc k) * R)"
      by (metis Suc_diff_Suc diff_Suc_1 kn)
    have "of_nat (i - k) = (of_nat (i - Suc k) + 1 :: u32)"
      using i(2) by (metis Suc_diff_le add.commute diff_Suc_Suc of_nat_Suc)
    then have v: "v + R + of_nat (i - Suc k) * R = v + of_nat (i - k) * R" by (simp add: algebra_simps)
    have "\<forall>j. k \<le> j \<and> j < i \<longrightarrow> bit used j" using i(4) True by (metis Suc_leI le_neq_implies_less)
    moreover have "find_slot used [k..<n] v R = (used OR push_bit i 1, v + of_nat (i - k) * R)"
      using i(5) True unfolding l v by (simp add: and_exp_eq_0_iff_not_bit)
    ultimately show ?thesis using i by (intro exI [of _ i]) simp
  qed
qed

lemma some_slot_free:
  assumes "\<not> push_bit n 1 - 1 \<le> (used :: u32)"
  shows "\<exists>i < n. 0 \<le> i \<and> \<not> bit used i"
proof (rule ccontr)
  assume "\<not> ?thesis"
  then have "take_bit n used = mask n"
    by (intro bit_word_eqI) (auto simp: bit_simps)
  then have "unat (mask n :: u32) = take_bit n (unat used)" by (metis unsigned_take_bit_eq)
  then have "unat (mask n :: u32) \<le> unat used" by (simp add: take_bit_nat_less_eq_self)
  then show False using assms by (simp add: word_le_nat_alt mask_eq_exp_minus_1)
qed

lemma page_round: "unat x + 4096 \<le> 2 ^ 32 \<Longrightarrow> unat x \<le> unat (roundUpToPageSize x) \<and> unat (roundUpToPageSize x) < unat x + 4096"
proof -
  assume x: "unat x + 4096 \<le> 2 ^ 32"
  have "roundUpToPageSize x = ALIGN x (2 ^ 12)" by (simp add: roundUpToPageSize_def ALIGN_def add.commute)
  then have u: "unat (roundUpToPageSize x) = (unat x + 4095) div 4096 * 4096" using unat_ALIGN [of 12 x] x by simp
  have "(unat x + 4095) div 4096 * 4096 + (unat x + 4095) mod 4096 = unat x + 4095" by (rule div_mult_mod_eq)
  moreover have "(unat x + 4095) mod 4096 < 4096" by simp
  ultimately show ?thesis unfolding u by linarith
qed

lemma slot_index:
  assumes "i < n" "n * 4096 \<le> S" "S \<le> R" "R < S + 4096"
  shows "i * R div S = (i :: nat)"
proof -
  have "i * (R - S) \<le> i * 4096" using assms(3,4) by (intro mult_le_mono2) simp
  also have "\<dots> < S" using assms(1,2) by simp
  finally have "i * R = S * i + i * (R - S)" "i * (R - S) < S" using assms(3)
    by (simp_all add: algebra_simps diff_mult_distrib2)
  then show ?thesis by simp
qed

text \<open>
  A picture of the frame buffer memory is given the first free slot, and giving it back restores the
  map of the slots, although the size is rounded to pages only when a slot is taken: this needs the
  slots to be larger than the sum of the roundings.
\<close>
theorem fb_slot_round_trip:
  assumes "alloc_framebuffer flags m = (FbSlot v, m')" "numBuffers m \<le> 32"
    and "numBuffers m * 4096 \<le> unat (line_length m * yres m)"
    and "numBuffers m * (unat (line_length m * yres m) + 4096) \<le> 2 ^ 32"
  shows "\<exists>i < numBuffers m. \<not> bit (bufferMask m) i \<and> (\<forall>j < i. bit (bufferMask m) j) \<and>
    v = fb_base m + of_nat i * roundUpToPageSize (line_length m * yres m) \<and>
    bufferMask m' = bufferMask m OR push_bit i 1 \<and> free_framebuffer v m' = m"
proof -
  let ?n = "numBuffers m" and ?u = "bufferMask m" and ?S = "line_length m * yres m"
  let ?R = "roundUpToPageSize ?S"
  from assms(1) have g: "\<not> push_bit ?n 1 - 1 \<le> ?u" and fs: "find_slot ?u [0..<?n] (fb_base m) ?R = (bufferMask m', v)"
    and m': "m' = m\<lparr>bufferMask := bufferMask m'\<rparr>"
    by (auto simp: alloc_framebuffer_def Let_def split: if_splits prod.splits)
  from find_slot_first [OF some_slot_free [OF g] assms(2), of "fb_base m" ?R] fs obtain i where i: "i < ?n" "\<not> bit ?u i" "\<forall>j < i. bit ?u j"
      and v: "v = fb_base m + of_nat i * ?R" and u: "bufferMask m' = ?u OR push_bit i 1" by auto
  have "1 * (unat ?S + 4096) \<le> ?n * (unat ?S + 4096)" using i(1) by (intro mult_le_mono1) simp
  then have "unat ?S + 4096 \<le> 2 ^ 32" unfolding mult_1 using assms(4) by (rule le_trans)
  from page_round [OF this] have R: "unat ?S \<le> unat ?R" "unat ?R < unat ?S + 4096" by blast+
  have i32: "unat (of_nat i :: u32) = i" using i(1) assms(2) by (intro unat_of_nat32) simp
  have "i * unat ?R \<le> i * (unat ?S + 4096)" using R(2) by (intro mult_le_mono2) simp
  also have "\<dots> < ?n * (unat ?S + 4096)" using i(1) by simp
  finally have "unat (of_nat i * ?R) = i * unat ?R" using assms(4) by (simp add: unat_word_ariths i32)
  then have "unat ((v - fb_base m) div ?S) = i" unfolding v
    using slot_index [OF i(1) assms(3) R] by (simp add: unat_div)
  then have "free_framebuffer v m' = m\<lparr>bufferMask := (?u OR push_bit i 1) AND NOT (push_bit i 1)\<rparr>"
    by (subst m') (simp add: free_framebuffer_def u Let_def)
  moreover have "(?u OR push_bit i 1) AND NOT (push_bit i 1) = ?u"
    by (rule bit_word_eqI) (use i(2) in \<open>auto simp: bit_simps\<close>)
  ultimately show ?thesis using i v u by auto
qed

lemma fb_slot_round_trip_witness:
  "let m = \<lparr>bufferMask = 1, numBuffers = 3, line_length = 3456, yres = 1280, fb_base = 0x40000000\<rparr>
   in case alloc_framebuffer False m of
        (FbSlot v, m') \<Rightarrow> v = 0x40438000 \<and> free_framebuffer v m' = m
      | _ \<Rightarrow> False"
proof -
  let ?m = "\<lparr>bufferMask = 1, numBuffers = 3, line_length = 3456, yres = 1280, fb_base = 0x40000000\<rparr>"
  have a: "alloc_framebuffer False ?m = (FbSlot 0x40438000, ?m\<lparr>bufferMask := 3\<rparr>)"
    by (simp add: alloc_framebuffer_def roundUpToPageSize_def upt_rec word_le_nat_alt)
  have "free_framebuffer 0x40438000 (?m\<lparr>bufferMask := 3\<rparr>) = ?m"
    using fb_slot_round_trip [OF a] by auto
  with a show ?thesis by simp
qed

end
