(* ===== verification/MdpRot.thy ===== *)
theory MdpRot
  imports MdpCtrl Gralloc
begin

text \<open>
  The rotator session (display/liboverlay/overlayMdpRot.cpp, overlayRotator.cpp, overlayRotator.h,
  overlayMem.h) on hardware before MDSS: its configuration, the memory it writes to, which is
  replaced when the size of a frame changes, and the manager of the sessions.

  A failed assertion (\<open>OVASSERT\<close> aborts the process) is \<open>None\<close>.
\<close>

section \<open>Memory\<close>

text \<open>
  \<open>RotMem::Mem\<close> with its \<open>OvMem\<close>. A memory is valid if it has a descriptor; the address goes with it.
\<close>

record rot_mem =
  mRotOffset :: "u32 list"
  mRelFence :: "int list"
  mCurrOffset :: nat
  mem_fd :: int
  mem_bufSz :: u32
  mem_numBufs :: nat

definition ROT_NUM_BUFS :: nat where "ROT_NUM_BUFS = 3"

definition new_mem :: rot_mem where
  "new_mem = \<lparr>mRotOffset = [0, 0, 0], mRelFence = [- 1, - 1, - 1], mCurrOffset = 0,
     mem_fd = - 1, mem_bufSz = 0, mem_numBufs = 0\<rparr>"

definition mem_valid :: "rot_mem \<Rightarrow> bool" where "mem_valid m \<longleftrightarrow> mem_fd m \<noteq> - 1"

definition OvMem_close :: "mdp_kernel \<Rightarrow> rot_mem \<Rightarrow> mdp_call list \<Rightarrow> bool \<times> rot_mem \<times> mdp_call list" where
  "OvMem_close K m t =
     (if \<not> mem_valid m then (True, m, t)
      else let (r, t) = do_call K (FreeMem (mem_fd m) (mem_bufSz m * of_nat (mem_numBufs m))) t
           in (r, if r then m\<lparr>mem_fd := - 1, mem_bufSz := 0, mem_numBufs := 0\<rparr> else m, t))"

definition Mem_close :: "mdp_kernel \<Rightarrow> rot_mem \<Rightarrow> mdp_call list \<Rightarrow> bool \<times> rot_mem \<times> mdp_call list" where
  "Mem_close K m t =
     OvMem_close K (m\<lparr>mRelFence := [- 1, - 1, - 1]\<rparr>) (t @ map CloseFd (mRelFence m))"

text \<open>\<open>Mem::setReleaseFd\<close>; the waiting for the previous fence of the slot has no effect on the state.\<close>

definition Mem_setReleaseFd :: "int \<Rightarrow> rot_mem \<Rightarrow> mdp_call list \<Rightarrow> rot_mem \<times> mdp_call list" where
  "Mem_setReleaseFd fence m t =
     (let old = mRelFence m ! mCurrOffset m
      in (m\<lparr>mRelFence := (mRelFence m)[mCurrOffset m := fence]\<rparr>, if 0 \<le> old then t @ [CloseFd old] else t))"

section \<open>The session\<close>

record mdp_rot =
  mRotImgInfo :: msm_rotator_img_info
  mLSRotImgInfo :: msm_rotator_img_info
  mOrigWhf :: Whf
  mRotDataInfo :: msm_rotator_data_info
  rotOrientation :: u32
  rotFd :: int
  rotCurr :: nat
  rotMems :: "rot_mem list"

definition curr_mem :: "mdp_rot \<Rightarrow> rot_mem" where "curr_mem r = rotMems r ! (rotCurr r mod 2)"

definition upd_curr :: "rot_mem \<Rightarrow> mdp_rot \<Rightarrow> mdp_rot" where
  "upd_curr m r = r\<lparr>rotMems := (rotMems r)[rotCurr r mod 2 := m]\<rparr>"

definition zero_info :: msm_rotator_img_info where
  "zero_info = \<lparr>ri_session_id = 0, ri_src = zero_whf, ri_dst = zero_whf, ri_src_w = 0, ri_src_h = 0,
     ri_rotations = 0, ri_enable = False, ri_downscale_ratio = 0, ri_secure = False\<rparr>"

definition zero_data :: msm_rotator_data_info where
  "zero_data = \<lparr>rd_session_id = 0, rd_src_memory_id = 0, rd_src_offset = 0, rd_dst_memory_id = 0, rd_dst_offset = 0\<rparr>"

definition MdpRot_reset :: "mdp_rot \<Rightarrow> mdp_rot" where
  "MdpRot_reset r = r\<lparr>mRotImgInfo := zero_info, mLSRotImgInfo := zero_info, mRotDataInfo := zero_data,
     rotMems := map (\<lambda>m. m\<lparr>mRotOffset := [0, 0, 0], mCurrOffset := 0\<rparr>) (rotMems r), rotOrientation := 0\<rparr>"

text \<open>\<open>Rotator::getRotator\<close> for \<open>TYPE_MDP\<close>; that the device may not open is not noticed.\<close>

definition getRotator :: "mdp_kernel \<Rightarrow> mdp_call list \<Rightarrow> mdp_rot \<times> mdp_call list" where
  "getRotator K t =
     (let (_, f, t) = OvFD_open K RotDev t
      in (\<lparr>mRotImgInfo = zero_info, mLSRotImgInfo = zero_info, mOrigWhf = zero_whf, mRotDataInfo = zero_data,
           rotOrientation = 0, rotFd = f, rotCurr = 0, rotMems = [new_mem, new_mem]\<rparr>, t))"

definition MdpRot_setSource :: "Whf \<Rightarrow> mdp_rot \<Rightarrow> mdp_rot" where
  "MdpRot_setSource whf r = r\<lparr>mRotImgInfo := (mRotImgInfo r)\<lparr>ri_src := whf, ri_src_w := whf_w whf,
     ri_src_h := whf_h whf, ri_dst := (ri_dst (mRotImgInfo r))\<lparr>whf_w := whf_w whf, whf_h := whf_h whf\<rparr>\<rparr>\<rparr>"

definition MdpRot_setSource2 :: "Whf \<Rightarrow> Whf \<Rightarrow> mdp_rot \<Rightarrow> mdp_rot" where
  "MdpRot_setSource2 awhf owhf r = MdpRot_setSource awhf (r\<lparr>mOrigWhf := owhf\<rparr>)"

definition MdpRot_setFlags :: "u32 \<Rightarrow> mdp_rot \<Rightarrow> mdp_rot" where
  "MdpRot_setFlags flags r =
     r\<lparr>mRotImgInfo := (mRotImgInfo r)\<lparr>ri_secure := flags AND 0x8000 \<noteq> 0\<rparr>\<rparr>"

definition MdpRot_setTransform :: "u32 \<Rightarrow> mdp_rot \<Rightarrow> mdp_rot" where
  "MdpRot_setTransform rot r =
     r\<lparr>mRotImgInfo := (mRotImgInfo r)\<lparr>ri_rotations := ucast (getMdpOrient rot)\<rparr>, rotOrientation := getMdpOrient rot\<rparr>"

definition aligndown :: "u32 \<Rightarrow> u32 \<Rightarrow> u32" where
  "aligndown v a = (if a \<noteq> 0 then v AND NOT (a - 1) else v)"

definition alignup :: "u32 \<Rightarrow> u32 \<Rightarrow> u32" where
  "alignup v a = (if a \<noteq> 0 then ((v - 1) div a + 1) * a else v)"

definition MdpRot_setDownscale :: "u32 \<Rightarrow> mdp_rot \<Rightarrow> mdp_rot" where
  "MdpRot_setDownscale ds r =
     (let i = mRotImgInfo r; h = ri_src_h i;
          h' = (if whf_format (ri_src i) = 18
                then if ds = 1 \<and> h AND 3 \<noteq> 0 then aligndown h 4
                     else if ds = 2 \<and> h AND 7 \<noteq> 0 then aligndown h 8
                     else if ds = 3 \<and> h AND 15 \<noteq> 0 then aligndown h 16 else h
                else if ds = 3 \<and> h AND 15 \<noteq> 0 then alignup h 16 else h)
      in r\<lparr>mRotImgInfo := i\<lparr>ri_src_h := h', ri_downscale_ratio := ds\<rparr>\<rparr>)"

definition swap_whf :: "Whf \<Rightarrow> Whf" where
  "swap_whf x = x\<lparr>whf_w := whf_h x, whf_h := whf_w x\<rparr>"

definition MdpRot_doTransform :: "mdp_rot \<Rightarrow> mdp_rot" where
  "MdpRot_doTransform r =
     (if rotOrientation r AND 4 \<noteq> 0
      then r\<lparr>mRotImgInfo := (mRotImgInfo r)\<lparr>ri_dst := swap_whf (ri_dst (mRotImgInfo r))\<rparr>\<rparr> else r)"

definition MdpRot_commit :: "mdp_kernel \<Rightarrow> mdp_rot \<Rightarrow> mdp_call list \<Rightarrow> bool \<times> mdp_rot \<times> mdp_call list" where
  "MdpRot_commit K r t =
     (let r = MdpRot_doTransform r
      in if mRotImgInfo r \<noteq> mLSRotImgInfo r
         then let i = (mRotImgInfo r)\<lparr>ri_enable := True\<rparr>; t' = t @ [RotatorStart (rotFd r) i]
              in case k_start K t (rotFd r) i of
                   None \<Rightarrow> (False, r\<lparr>mRotImgInfo := i\<lparr>ri_enable := False\<rparr>\<rparr>, t')
                 | Some i \<Rightarrow> (True, r\<lparr>mRotImgInfo := i, mLSRotImgInfo := i,
                     mRotDataInfo := (mRotDataInfo r)\<lparr>rd_session_id := ri_session_id i\<rparr>\<rparr>, t')
         else (True, r, t))"

section \<open>Output memory\<close>

text \<open>\<open>getHALFormat\<close>\<close>

definition getHALFormat :: "u32 \<Rightarrow> hal_format" where
  "getHALFormat f =
     (if f = 12 then RGBA_8888 else if f = 14 then RGBX_8888 else if f = 5 then RGB_888
      else if f = 0 then RGB_565 else if f = 13 then BGRA_8888 else if f = 18 then YV12
      else if f = 9 then YCbCr_422_SP else if f = 6 then YCrCb_420_SP
      else if f = 16 then YCbCr_420_SP_TILED else if f = 2 then YCbCr_420_SP
      else if f = 8 then YCrCb_422_SP else if f = 21 then OtherFormat 0x10F
      else if f = 20 then OtherFormat 0x110 else if f = 0x10002 then YCbCr_420_SP_VENUS
      else OtherFormat (- 1))"

type_synonym padding = "(u32 \<Rightarrow> u32 \<Rightarrow> u32) option"

definition out_size :: "padding \<Rightarrow> Whf \<Rightarrow> u32" where
  "out_size pad whf = fst (getBufferSizeAndDimensions pad (whf_w whf) (whf_h whf) (getHALFormat (whf_format whf)))"

text \<open>\<open>calcOutputBufSize\<close> swaps the remembered width and height in place.\<close>

definition calcOutputBufSize :: "padding \<Rightarrow> mdp_rot \<Rightarrow> u32 \<times> mdp_rot" where
  "calcOutputBufSize pad r =
     (let r = (if rotOrientation r AND 4 \<noteq> 0 then r\<lparr>mOrigWhf := swap_whf (mOrigWhf r)\<rparr> else r)
      in (out_size pad ((mOrigWhf r)\<lparr>whf_format := whf_format (ri_dst (mRotImgInfo r))\<rparr>), r))"

definition open_i :: "mdp_kernel \<Rightarrow> nat \<Rightarrow> u32 \<Rightarrow> mdp_rot \<Rightarrow> mdp_call list \<Rightarrow> (bool \<times> mdp_rot \<times> mdp_call list) option" where
  "open_i K numbufs bufsz r t =
     (if numbufs = 0 \<or> bufsz = 0 then None
      else let secure = ri_secure (mRotImgInfo r); bytes = bufsz * of_nat numbufs; t' = t @ [AllocMem bytes secure]
      in case k_alloc K t bytes secure of
           None \<Rightarrow> Some (False, r, t')
         | Some f \<Rightarrow> if f = - 1 then None
             else Some (True, upd_curr ((curr_mem r)\<lparr>mem_fd := f, mem_bufSz := bufsz, mem_numBufs := numbufs\<rparr>)
               (r\<lparr>mRotDataInfo := (mRotDataInfo r)\<lparr>rd_dst_memory_id := f, rd_dst_offset := 0\<rparr>\<rparr>), t'))"

text \<open>The other memory becomes the current one; what it held is given back.\<close>

definition retire :: "mdp_kernel \<Rightarrow> mdp_rot \<Rightarrow> mdp_call list \<Rightarrow> bool \<times> mdp_rot \<times> mdp_call list" where
  "retire K r t =
     (let r = r\<lparr>rotCurr := rotCurr r + 1\<rparr>
      in if mem_valid (curr_mem r)
         then let (ok, m, t) = Mem_close K (curr_mem r) t in (ok, upd_curr m r, t)
         else (True, r, t))"

definition set_offsets :: "nat \<Rightarrow> u32 \<Rightarrow> mdp_rot \<Rightarrow> mdp_rot" where
  "set_offsets numbufs b r = upd_curr ((curr_mem r)\<lparr>mRotOffset :=
     map (\<lambda>i. of_nat i * b) [0..<numbufs] @ drop numbufs (mRotOffset (curr_mem r))\<rparr>) r"

definition remap :: "padding \<Rightarrow> mdp_kernel \<Rightarrow> nat \<Rightarrow> mdp_rot \<Rightarrow> mdp_call list \<Rightarrow> (bool \<times> mdp_rot \<times> mdp_call list) option" where
  "remap pad K numbufs r t =
     (case calcOutputBufSize pad r of (opBufSize, r) \<Rightarrow>
        if opBufSize = mem_bufSz (curr_mem r) then Some (True, r, t)
        else (case retire K r t of (ok, r, t) \<Rightarrow>
          if \<not> ok then Some (False, r, t)
          else Option.bind (open_i K numbufs opBufSize r t) (\<lambda>(ok, r, t).
            if \<not> ok then Some (False, r, t) else Some (True, set_offsets numbufs opBufSize r, t))))"

text \<open>What \<open>remap\<close> returns is not looked at.\<close>

definition MdpRot_queueBuffer ::
    "padding \<Rightarrow> mdp_kernel \<Rightarrow> int \<Rightarrow> u32 \<Rightarrow> mdp_rot \<Rightarrow> mdp_call list \<Rightarrow> (bool \<times> mdp_rot \<times> mdp_call list) option" where
  "MdpRot_queueBuffer pad K f off r t =
     (if \<not> ri_enable (mRotImgInfo r) then Some (True, r, t)
      else Option.bind (remap pad K ROT_NUM_BUFS
          (r\<lparr>mRotDataInfo := (mRotDataInfo r)\<lparr>rd_src_memory_id := f, rd_src_offset := off\<rparr>\<rparr>) t) (\<lambda>(_, r, t).
        let m = curr_mem r
        in if mem_numBufs m = 0 then None
           else let r = r\<lparr>mRotDataInfo := (mRotDataInfo r)\<lparr>rd_dst_offset := mRotOffset m ! mCurrOffset m\<rparr>\<rparr>;
                    r = upd_curr (m\<lparr>mCurrOffset := (mCurrOffset m + 1) mod mem_numBufs m\<rparr>) r;
                    (ok, t) = do_call K (Rotate (rotFd r) (mRotDataInfo r)) t
                in Some (ok, r, t)))"

definition MdpRot_close :: "mdp_kernel \<Rightarrow> mdp_rot \<Rightarrow> mdp_call list \<Rightarrow> bool \<times> mdp_rot \<times> mdp_call list" where
  "MdpRot_close K r t =
     (let (s1, t) = (if rotFd r \<noteq> INVAL \<and> ri_session_id (mRotImgInfo r) \<noteq> 0
                     then do_call K (RotatorFinish (rotFd r) (ri_session_id (mRotImgInfo r))) t else (True, t));
          (s2, f, t) = OvFD_close K (rotFd r) t;
          (s3, m0, t) = (if mem_valid (rotMems r ! 0) then Mem_close K (rotMems r ! 0) t else (True, rotMems r ! 0, t));
          (s4, m1, t) = (if mem_valid (rotMems r ! 1) then Mem_close K (rotMems r ! 1) t else (True, rotMems r ! 1, t))
      in (s1 \<and> s2 \<and> s3 \<and> s4, MdpRot_reset (r\<lparr>rotFd := f, rotMems := [m0, m1]\<rparr>), t))"

section \<open>The manager of the sessions\<close>

definition MAX_ROT_SESS :: nat where "MAX_ROT_SESS = 3"

record rot_mgr =
  mRots :: "mdp_rot option list"
  mUseCount :: nat
  mRotDevFd :: int

definition new_RotMgr :: rot_mgr where
  "new_RotMgr = \<lparr>mRots = [None, None, None], mUseCount = 0, mRotDevFd = - 1\<rparr>"

definition RotMgr_configBegin :: "rot_mgr \<Rightarrow> rot_mgr" where
  "RotMgr_configBegin g = g\<lparr>mUseCount := 0\<rparr>"

fun close_rots :: "mdp_kernel \<Rightarrow> mdp_rot option list \<Rightarrow> mdp_call list \<Rightarrow> mdp_call list" where
  "close_rots K [] t = t"
| "close_rots K (None # rs) t = close_rots K rs t"
| "close_rots K (Some r # rs) t = close_rots K rs (snd (snd (MdpRot_close K r t)))"

definition RotMgr_configDone :: "mdp_kernel \<Rightarrow> rot_mgr \<Rightarrow> mdp_call list \<Rightarrow> rot_mgr \<times> mdp_call list" where
  "RotMgr_configDone K g t =
     (g\<lparr>mRots := take (mUseCount g) (mRots g) @ map (\<lambda>_. None) (drop (mUseCount g) (mRots g))\<rparr>,
      close_rots K (drop (mUseCount g) (mRots g)) t)"

text \<open>\<open>getNext\<close> returns the index of the session; the array holds it.\<close>

definition RotMgr_getNext :: "mdp_kernel \<Rightarrow> rot_mgr \<Rightarrow> mdp_call list \<Rightarrow> nat option \<times> rot_mgr \<times> mdp_call list" where
  "RotMgr_getNext K g t =
     (if MAX_ROT_SESS \<le> mUseCount g then (None, g, t)
      else let i = mUseCount g;
               (r, t) = (case mRots g ! i of None \<Rightarrow> getRotator K t | Some r \<Rightarrow> (r, t))
           in (Some i, g\<lparr>mRots := (mRots g)[i := Some r], mUseCount := i + 1\<rparr>, t))"

definition RotMgr_clear :: "mdp_kernel \<Rightarrow> rot_mgr \<Rightarrow> mdp_call list \<Rightarrow> rot_mgr \<times> mdp_call list" where
  "RotMgr_clear K g t =
     (g\<lparr>mRots := [None, None, None], mUseCount := 0, mRotDevFd := - 1\<rparr>,
      close_rots K (mRots g) t @ [CloseFd (mRotDevFd g)])"

definition getRotDevFd :: "mdp_kernel \<Rightarrow> rot_mgr \<Rightarrow> mdp_call list \<Rightarrow> int \<times> rot_mgr \<times> mdp_call list" where
  "getRotDevFd K g t =
     (if mRotDevFd g < 0 then let f = k_open K t RotDev in (f, g\<lparr>mRotDevFd := f\<rparr>, t @ [OpenDev RotDev])
      else (mRotDevFd g, g, t))"

section \<open>Every rotated frame lies inside the memory\<close>

definition mem_ok :: "rot_mem \<Rightarrow> bool" where
  "mem_ok m \<longleftrightarrow> length (mRotOffset m) = 3 \<and> mCurrOffset m < 3 \<and>
     (if mem_valid m then mem_numBufs m = 3 \<and> mRotOffset m = [0, mem_bufSz m, 2 * mem_bufSz m]
      else mem_numBufs m = 0 \<and> mem_bufSz m = 0)"

definition rot_ok :: "mdp_rot \<Rightarrow> bool" where
  "rot_ok r \<longleftrightarrow> length (rotMems r) = 2 \<and> (\<forall>m \<in> set (rotMems r). mem_ok m) \<and>
     (mem_valid (curr_mem r) \<longrightarrow> rd_dst_memory_id (mRotDataInfo r) = mem_fd (curr_mem r))"

text \<open>Memory can always be given back.\<close>

definition frees :: "mdp_kernel \<Rightarrow> bool" where
  "frees K \<longleftrightarrow> (\<forall>t f n. k_ok K t (FreeMem f n))"

lemma curr_upd_curr [simp]: "length (rotMems r) = 2 \<Longrightarrow> curr_mem (upd_curr m r) = m"
  by (simp add: curr_mem_def upd_curr_def)

lemma upd_curr_simps [simp]:
  "length (rotMems (upd_curr m r)) = length (rotMems r)"
  "mRotImgInfo (upd_curr m r) = mRotImgInfo r"
  "mRotDataInfo (upd_curr m r) = mRotDataInfo r"
  "rotCurr (upd_curr m r) = rotCurr r"
  "rotFd (upd_curr m r) = rotFd r"
  by (simp_all add: upd_curr_def)

lemma mem_ok_curr: "rot_ok r \<Longrightarrow> mem_ok (curr_mem r)"
  by (simp add: rot_ok_def curr_mem_def)

lemma set_upd_curr: "length (rotMems r) = 2 \<Longrightarrow> \<forall>m \<in> set (rotMems r). mem_ok m \<Longrightarrow> mem_ok m' \<Longrightarrow>
   \<forall>m \<in> set (rotMems (upd_curr m' r)). mem_ok m"
  by (auto simp: upd_curr_def dest!: set_update_subset_insert [THEN subsetD])

lemma rot_ok_upd_curr:
  "length (rotMems r) = 2 \<Longrightarrow> \<forall>m \<in> set (rotMems r). mem_ok m \<Longrightarrow> mem_ok m' \<Longrightarrow>
   (mem_valid m' \<longrightarrow> rd_dst_memory_id (mRotDataInfo r) = mem_fd m') \<Longrightarrow> rot_ok (upd_curr m' r)"
  using set_upd_curr by (simp add: rot_ok_def)

text \<open>The operations that do not touch the memory.\<close>

lemma rot_ok_fields: "rot_ok (r\<lparr>mRotImgInfo := i\<rparr>) = rot_ok r" "rot_ok (r\<lparr>rotOrientation := x\<rparr>) = rot_ok r"
    "rot_ok (r\<lparr>mOrigWhf := y\<rparr>) = rot_ok r" "rot_ok (r\<lparr>mLSRotImgInfo := z\<rparr>) = rot_ok r"
    "rd_dst_memory_id d = rd_dst_memory_id (mRotDataInfo r) \<Longrightarrow> rot_ok (r\<lparr>mRotDataInfo := d\<rparr>) = rot_ok r"
  by (simp_all add: rot_ok_def curr_mem_def)

lemma configuration_keeps_rot_ok:
  "rot_ok r \<Longrightarrow> rot_ok (MdpRot_setSource2 a b r)"
  "rot_ok r \<Longrightarrow> rot_ok (MdpRot_setSource a r)"
  "rot_ok r \<Longrightarrow> rot_ok (MdpRot_setFlags f r)"
  "rot_ok r \<Longrightarrow> rot_ok (MdpRot_setTransform x r)"
  "rot_ok r \<Longrightarrow> rot_ok (MdpRot_setDownscale d r)"
  by (simp_all add: MdpRot_setSource2_def MdpRot_setSource_def MdpRot_setFlags_def MdpRot_setTransform_def
      MdpRot_setDownscale_def rot_ok_fields Let_def)

lemma commit_keeps_rot_ok: "rot_ok r \<Longrightarrow> MdpRot_commit K r t = (ok, r', t') \<Longrightarrow> rot_ok r'"
  by (auto simp: MdpRot_commit_def MdpRot_doTransform_def rot_ok_fields Let_def split: if_splits option.splits)

lemma new_rot_ok: "rot_ok (fst (getRotator K t))"
  by (simp add: getRotator_def OvFD_open_def Let_def rot_ok_def mem_ok_def new_mem_def mem_valid_def curr_mem_def)

lemma calc_state: "calcOutputBufSize pad r = (b, r') \<Longrightarrow> \<exists>y. r' = r\<lparr>mOrigWhf := y\<rparr>"
proof (cases "rotOrientation r AND 4 \<noteq> 0")
  case False
  assume "calcOutputBufSize pad r = (b, r')"
  with False show ?thesis by (intro exI [of _ "mOrigWhf r"]) (simp add: calcOutputBufSize_def)
qed (auto simp: calcOutputBufSize_def Let_def)

lemma Mem_close_frees:
  assumes "frees K" "mem_ok m" "Mem_close K m t = (ok, m', t')"
  shows "ok \<and> mem_ok m' \<and> \<not> mem_valid m'"
  using assms by (auto simp: Mem_close_def OvMem_close_def do_call_def frees_def mem_ok_def mem_valid_def Let_def
      split: if_splits)

definition mems_ok :: "mdp_rot \<Rightarrow> bool" where
  "mems_ok r \<longleftrightarrow> length (rotMems r) = 2 \<and> (\<forall>m \<in> set (rotMems r). mem_ok m)"

definition source_of :: "mdp_rot \<Rightarrow> int \<times> u32 \<times> int" where
  "source_of r = (rd_src_memory_id (mRotDataInfo r), rd_src_offset (mRotDataInfo r), rotFd r)"

lemma source_of_fields [simp]:
  "source_of (upd_curr m r) = source_of r" "source_of (r\<lparr>mOrigWhf := y\<rparr>) = source_of r"
  "source_of (r\<lparr>rotCurr := n\<rparr>) = source_of r" "source_of (set_offsets n b r) = source_of r"
  by (simp_all add: source_of_def set_offsets_def)

lemma mems_ok_curr: "mems_ok r \<Longrightarrow> mem_ok (curr_mem r)"
  by (simp add: mems_ok_def curr_mem_def)

lemma mems_ok_upd: "mems_ok r \<Longrightarrow> mem_ok m \<Longrightarrow> mems_ok (upd_curr m r)"
  using set_upd_curr [of r m] by (auto simp: mems_ok_def)

lemma mems_ok_fields [simp]:
  "mems_ok (r\<lparr>mOrigWhf := y\<rparr>) = mems_ok r" "mems_ok (r\<lparr>rotCurr := n\<rparr>) = mems_ok r"
  "mems_ok (r\<lparr>mRotDataInfo := d\<rparr>) = mems_ok r"
  by (simp_all add: mems_ok_def)

lemma rot_ok_eq: "rot_ok r \<longleftrightarrow> mems_ok r \<and>
   (mem_valid (curr_mem r) \<longrightarrow> rd_dst_memory_id (mRotDataInfo r) = mem_fd (curr_mem r))"
  by (simp add: rot_ok_def mems_ok_def)

lemma retire_ok:
  assumes "frees K" "mems_ok r" "retire K r t = (ok, r', t')"
  shows "ok \<and> mems_ok r' \<and> \<not> mem_valid (curr_mem r') \<and> source_of r' = source_of r"
proof -
  let ?r = "r\<lparr>rotCurr := rotCurr r + 1\<rparr>"
  have m: "mems_ok ?r" "length (rotMems ?r) = 2" using assms(2) by (simp_all add: mems_ok_def)
  show ?thesis
  proof (cases "mem_valid (curr_mem ?r)")
    case True
    obtain ok1 m1 t1 where c: "Mem_close K (curr_mem ?r) t = (ok1, m1, t1)" by (metis prod_cases3)
    from Mem_close_frees [OF assms(1) mems_ok_curr [OF m(1)] c] have "ok1" "mem_ok m1" "\<not> mem_valid m1" by simp_all
    then show ?thesis using assms(3) True c m by (auto simp: retire_def Let_def intro: mems_ok_upd)
  next
    case False
    with assms(3) m show ?thesis by (auto simp: retire_def Let_def)
  qed
qed









lemma calc_source: "fst (calcOutputBufSize pad (r\<lparr>mRotDataInfo := d\<rparr>)) = fst (calcOutputBufSize pad r)"
  by (simp add: calcOutputBufSize_def Let_def)








lemma remap_refused:
  assumes "frees K" "rot_ok r" "fst (calcOutputBufSize pad r) \<noteq> mem_bufSz (curr_mem r)"
    and "\<And>t b s. k_alloc K t b s = None"
  shows "remap pad K 3 r t = None \<or> (\<exists>r' t'. remap pad K 3 r t = Some (False, r', t') \<and> mem_numBufs (curr_mem r') = 0)"
proof -
  obtain b y where c: "calcOutputBufSize pad r = (b, r\<lparr>mOrigWhf := y\<rparr>)"
    using calc_state by (metis surj_pair)
  let ?r = "r\<lparr>mOrigWhf := y\<rparr>"
  obtain ok1 r1 t1 where re: "retire K ?r t = (ok1, r1, t1)" by (metis prod_cases3)
  from retire_ok [OF assms(1) _ re] assms(2) have r1: ok1 "mems_ok r1" "\<not> mem_valid (curr_mem r1)"
    by (simp_all add: rot_ok_eq)
  have "mem_numBufs (curr_mem r1) = 0" using mems_ok_curr [OF r1(2)] r1(3) by (simp add: mem_ok_def)
  moreover have "b \<noteq> mem_bufSz (curr_mem ?r)" using assms(3) c by (simp add: curr_mem_def)
  ultimately show ?thesis using c re r1(1) assms(4) by (auto simp: remap_def open_i_def Let_def)
qed

text \<open>
  When the memory for frames of another size cannot be had, the process aborts: what
  \<open>remap\<close> returns is not looked at, and the assertion behind it finds no buffers.
\<close>
theorem refused_memory_aborts:
  assumes "frees K" "rot_ok r" "ri_enable (mRotImgInfo r)"
    and "fst (calcOutputBufSize pad r) \<noteq> mem_bufSz (curr_mem r)" "\<And>t b s. k_alloc K t b s = None"
  shows "MdpRot_queueBuffer pad K f off r t = None"
proof -
  let ?r = "r\<lparr>mRotDataInfo := (mRotDataInfo r)\<lparr>rd_src_memory_id := f, rd_src_offset := off\<rparr>\<rparr>"
  have "rot_ok ?r" using assms(2) by (simp add: rot_ok_fields)
  moreover have "fst (calcOutputBufSize pad ?r) \<noteq> mem_bufSz (curr_mem ?r)"
    using assms(4) by (simp add: calc_source) (simp add: curr_mem_def)
  ultimately show ?thesis
    using remap_refused [of K ?r pad t, OF assms(1) _ _ assms(5)] assms(3)
    by (auto simp: MdpRot_queueBuffer_def ROT_NUM_BUFS_def)
qed

text \<open>A session for a 64 by 48 frame that is rotated by 90 degrees.\<close>

definition sample_rot :: "mdp_kernel \<Rightarrow> mdp_rot" where
  "sample_rot K = fst (snd (MdpRot_commit K (MdpRot_setTransform 4
     (MdpRot_setSource2 \<lparr>whf_w = 64, whf_h = 48, whf_format = 2\<rparr> \<lparr>whf_w = 64, whf_h = 48, whf_format = 2\<rparr>
       (fst (getRotator K [])))) []))"

lemma sample_rot_ok: "rot_ok (sample_rot K)"
  unfolding sample_rot_def
  by (metis commit_keeps_rot_ok configuration_keeps_rot_ok(1,4) new_rot_ok prod.collapse)

lemma sample_enabled: "ri_enable (mRotImgInfo (sample_rot obliging))"
  by (simp add: sample_rot_def MdpRot_commit_def MdpRot_setTransform_def MdpRot_setSource2_def MdpRot_setSource_def
      getRotator_def OvFD_open_def MdpRot_doTransform_def obliging_def Let_def zero_info_def zero_whf_def)

definition refusing :: mdp_kernel where
  "refusing = obliging\<lparr>k_alloc := \<lambda>_ _ _. None\<rparr>"

lemma frees_samples: "frees obliging" "frees refusing"
  by (simp_all add: frees_def obliging_def refusing_def)

lemma refusing_sample: "sample_rot refusing = sample_rot obliging"
  by (simp add: sample_rot_def MdpRot_commit_def getRotator_def OvFD_open_def refusing_def obliging_def Let_def)

lemma sample_rot_state:
  "mRotImgInfo (sample_rot obliging) = zero_info\<lparr>ri_session_id := 1, ri_enable := True, ri_rotations := 4,
     ri_src := \<lparr>whf_w = 64, whf_h = 48, whf_format = 2\<rparr>, ri_dst := \<lparr>whf_w = 48, whf_h = 64, whf_format = 0\<rparr>,
     ri_src_w := 64, ri_src_h := 48\<rparr>"
  "mOrigWhf (sample_rot obliging) = \<lparr>whf_w = 64, whf_h = 48, whf_format = 2\<rparr>"
  "rotOrientation (sample_rot obliging) = 4" "rotMems (sample_rot obliging) = [new_mem, new_mem]"
  "rotCurr (sample_rot obliging) = 0"
  by (simp_all add: sample_rot_def MdpRot_commit_def MdpRot_setTransform_def MdpRot_setSource2_def MdpRot_setSource_def
      getRotator_def OvFD_open_def MdpRot_doTransform_def obliging_def Let_def zero_info_def zero_whf_def
      getMdpOrient_def MDP_ROT_90_def MDP_FLIP_UD_def MDP_FLIP_LR_def swap_whf_def)

lemma sample_size: "fst (calcOutputBufSize None (sample_rot obliging)) = 8192"
  by (simp add: calcOutputBufSize_def sample_rot_state swap_whf_def out_size_def getHALFormat_def size_defs
      getStride_def rgb_format_def ALIGN_def)

lemma refused_memory_aborts_witness:
  "MdpRot_queueBuffer None refusing 5 0 (sample_rot refusing) [] = None"
proof (rule refused_memory_aborts)
  show "fst (calcOutputBufSize None (sample_rot refusing)) \<noteq> mem_bufSz (curr_mem (sample_rot refusing))"
    by (simp add: refusing_sample sample_size curr_mem_def sample_rot_state new_mem_def)
qed (simp_all add: frees_samples sample_rot_ok refusing_sample sample_enabled, simp add: refusing_def)

lemma obliging_answers [simp]: "k_alloc obliging t b s = Some 9" "k_ok obliging t c"
  by (simp_all add: obliging_def)




text \<open>
  \<open>calcOutputBufSize\<close> swaps the remembered dimensions every time it is called: without a new
  configuration every other frame of a session that rotates by 90 degrees gets the size of the
  picture that is not rotated.
\<close>

lemma size_alternates:
  "rotOrientation r AND 4 \<noteq> 0 \<Longrightarrow>
   fst (calcOutputBufSize pad (snd (calcOutputBufSize pad r))) =
     out_size pad ((mOrigWhf r)\<lparr>whf_format := whf_format (ri_dst (mRotImgInfo r))\<rparr>)"
  by (simp add: calcOutputBufSize_def Let_def swap_whf_def)

end
