(* ===== verification/OverlayPipes.thy ===== *)
theory OverlayPipes
  imports MdpRot
begin

text \<open>
  The overlay pipes (display/liboverlay/pipes/overlayGenPipe.cpp, overlay.cpp, overlay.h): a pipe with
  its control object, its data channel and its rotator, and the book that says which display owns
  which pipe.

  \<open>Ctrl\<close> and \<open>Data\<close> (overlayCtrlData.h) only forward their calls to the objects of MdpCtrl, so that a
  pipe holds these. All pipes share one trace of driver calls. The display numbers are 0, 1 and 2 for
  unused. Picture parameters (\<open>setVisualParams\<close>) are left out,
  and so are the dumps and \<open>mDumpStr\<close>, a string of 256 bytes that logs which pipes were set and unset
  in a round and to which \<open>nextPipe\<close> and \<open>configDone\<close> append without a test of its length.

  A failed assertion and a call through a null pointer end the process: \<open>None\<close>. \<open>getDownscaleFactor\<close>
  rounds a square root in floating point; the rounded number is a parameter.
\<close>

section \<open>GenericPipe\<close>

record generic_pipe =
  mFbNum :: u32
  gp_ctrl :: mdp_ctrl
  gp_data :: mdp_data
  mRot :: "mdp_rot option"
  mRotUsed :: bool
  mRotDownscaleOpt :: bool
  mPreRotated :: bool
  pipeOpen :: bool

type_synonym ratio = "u32 \<Rightarrow> u32 \<Rightarrow> u32 \<Rightarrow> u32 \<Rightarrow> nat"

definition getDownscaleFactor :: "ratio \<Rightarrow> u32 \<Rightarrow> u32 \<Rightarrow> u32 \<Rightarrow> u32 \<Rightarrow> nat" where
  "getDownscaleFactor rd sw sh dw dh =
     (if dw \<noteq> 0 \<and> dh \<noteq> 0
      then let dscale = rd sw sh dw dh
           in if dscale < 2 then 0 else if dscale < 4 then 1 else if dscale < 8 then 2 else 3
      else 0)"

text \<open>
  The constructor does not look at what \<open>init\<close> returns. A frame buffer number other than 0 is
  replaced by that of the external display.
\<close>

definition GenericPipe_init :: "mdp_kernel \<Rightarrow> u32 \<Rightarrow> generic_pipe \<Rightarrow> mdp_call list \<Rightarrow> bool \<times> generic_pipe \<times> mdp_call list" where
  "GenericPipe_init K ext p t =
     (let p = p\<lparr>mRotUsed := False, mRotDownscaleOpt := False, mPreRotated := False,
                mFbNum := (if mFbNum p \<noteq> 0 then ext else mFbNum p)\<rparr>;
          (ok, c, t) = MdpCtrl_init K (mFbNum p) (gp_ctrl p) t; p = p\<lparr>gp_ctrl := c\<rparr>
      in if \<not> ok then (False, p, t)
         else let (ok, d, t) = MdpData_init K (mFbNum p) (gp_data p) t; p = p\<lparr>gp_data := d\<rparr>
              in if \<not> ok then (False, p, t)
                 else let (r, t) = getRotator K t in (True, p\<lparr>mRot := Some r\<rparr>, t))"

definition new_GenericPipe :: "mdp_kernel \<Rightarrow> u32 \<Rightarrow> u32 \<Rightarrow> mdp_call list \<Rightarrow> generic_pipe \<times> mdp_call list" where
  "new_GenericPipe K ext dpy t =
     snd (GenericPipe_init K ext \<lparr>mFbNum = dpy, gp_ctrl = new_MdpCtrl, gp_data = new_MdpData, mRot = None,
       mRotUsed = False, mRotDownscaleOpt = False, mPreRotated = False, pipeOpen = False\<rparr> t)"

definition delete_rot :: "mdp_kernel \<Rightarrow> mdp_rot option \<Rightarrow> mdp_call list \<Rightarrow> mdp_call list" where
  "delete_rot K r t = (case r of None \<Rightarrow> t | Some r \<Rightarrow> snd (snd (MdpRot_close K r t)))"

definition GenericPipe_close :: "mdp_kernel \<Rightarrow> generic_pipe \<Rightarrow> mdp_call list \<Rightarrow> bool \<times> generic_pipe \<times> mdp_call list" where
  "GenericPipe_close K p t =
     (let (r1, c, t) = MdpCtrl_close K (gp_ctrl p) t;
          (r2, d, t) = MdpData_close K (gp_data p) t;
          t = delete_rot K (mRot p) t
      in (r1 \<and> r2, p\<lparr>gp_ctrl := c, gp_data := d, mRot := None, pipeOpen := False\<rparr>, t))"

definition GenericPipe_setSource :: "PipeArgs \<Rightarrow> generic_pipe \<Rightarrow> generic_pipe option" where
  "GenericPipe_setSource a p =
     (case mRot p of None \<Rightarrow> None
      | Some r \<Rightarrow>
          let pre = pa_rotFlags a AND 4 \<noteq> 0
          in Some (p\<lparr>mRotUsed := pa_rotFlags a AND 1 \<noteq> 0 \<and> \<not> pre, mRotDownscaleOpt := pa_rotFlags a AND 2 \<noteq> 0,
             mPreRotated := pre, mRot := Some (MdpRot_setFlags (pa_mdpFlags a) (MdpRot_setSource (pa_whf a) r)),
             gp_ctrl := MdpCtrl_setSource a (gp_ctrl p)\<rparr>))"

definition GenericPipe_setCrop :: "Dim \<Rightarrow> generic_pipe \<Rightarrow> generic_pipe" where
  "GenericPipe_setCrop d p = p\<lparr>gp_ctrl := MdpCtrl_setCrop d (gp_ctrl p)\<rparr>"

definition GenericPipe_setPosition :: "Dim \<Rightarrow> generic_pipe \<Rightarrow> generic_pipe" where
  "GenericPipe_setPosition d p = p\<lparr>gp_ctrl := MdpCtrl_setPosition d (gp_ctrl p)\<rparr>"

definition GenericPipe_setTransform :: "u32 \<Rightarrow> generic_pipe \<Rightarrow> generic_pipe option" where
  "GenericPipe_setTransform orient p =
     (case mRot p of None \<Rightarrow> None
      | Some r \<Rightarrow> Some (p\<lparr>mRotUsed := mRotUsed p \<or> orient AND 4 \<noteq> 0 \<and> \<not> mPreRotated p,
          mRot := Some (MdpRot_setTransform orient r), gp_ctrl := MdpCtrl_setTransform orient (gp_ctrl p)\<rparr>))"

text \<open>The end of \<open>commit\<close>: the control object is set; when that fails a hollow rotator replaces the old one.\<close>

definition commit_ctrl :: "mdp_kernel \<Rightarrow> nat \<Rightarrow> generic_pipe \<Rightarrow> mdp_call list \<Rightarrow> bool \<times> generic_pipe \<times> mdp_call list" where
  "commit_ctrl K ds p t =
     (let (ret, c, t) = MdpCtrl_set K (MdpCtrl_setDownscale ds (gp_ctrl p)) t; p = p\<lparr>gp_ctrl := c, pipeOpen := ret\<rparr>
      in if ret then (True, p, t)
         else let (r, t) = getRotator K (delete_rot K (mRot p) t) in (False, p\<lparr>mRot := Some r\<rparr>, t))"

definition GenericPipe_commit ::
    "ratio \<Rightarrow> mdp_kernel \<Rightarrow> generic_pipe \<Rightarrow> mdp_call list \<Rightarrow> (bool \<times> generic_pipe \<times> mdp_call list) option" where
  "GenericPipe_commit rd K p t =
     (let s = ov_src_rect (mOVInfo (gp_ctrl p)); d = ov_dst_rect (mOVInfo (gp_ctrl p));
          ds = (if mRotDownscaleOpt p then getDownscaleFactor rd (dim_w s) (dim_h s) (dim_w d) (dim_h d) else 0);
          p = p\<lparr>mRotUsed := mRotUsed p \<or> mRotDownscaleOpt p \<and> ds \<noteq> 0 \<and> \<not> mPreRotated p\<rparr>
      in if \<not> mRotUsed p then Some (commit_ctrl K ds p t)
         else case mRot p of None \<Rightarrow> None
           | Some r \<Rightarrow>
               let (ok, r, t) = MdpRot_commit K (MdpRot_setDownscale (of_nat ds) r) t
               in if \<not> ok
                  then let (r, t) = getRotator K (delete_rot K (Some r) t)
                       in Some (False, p\<lparr>mRot := Some r, pipeOpen := False\<rparr>, t)
                  else Some (commit_ctrl K ds (p\<lparr>mRot := Some r,
                         gp_ctrl := MdpCtrl_updateSrcFormat (whf_format (ri_dst (mRotImgInfo r))) (gp_ctrl p)\<rparr>) t))"

definition GenericPipe_queueBuffer ::
    "padding \<Rightarrow> mdp_kernel \<Rightarrow> int \<Rightarrow> u32 \<Rightarrow> generic_pipe \<Rightarrow> mdp_call list \<Rightarrow> (bool \<times> generic_pipe \<times> mdp_call list) option" where
  "GenericPipe_queueBuffer pad K f off p t =
     (if \<not> pipeOpen p \<or> getPipeId (gp_ctrl p) = MSMFB_NEW_REQUEST then None
      else let p = p\<lparr>gp_data := MdpData_setPipeId (getPipeId (gp_ctrl p)) (gp_data p)\<rparr>;
               play = (\<lambda>p f off t. let (ok, d, t) = MdpData_play K f off (gp_data p) t in Some (ok, p\<lparr>gp_data := d\<rparr>, t))
      in if \<not> mRotUsed p then play p f off t
         else case mRot p of None \<Rightarrow> None
           | Some r \<Rightarrow> Option.bind (MdpRot_queueBuffer pad K f off r t) (\<lambda>(ok, r, t).
               let p = p\<lparr>mRot := Some r\<rparr>
               in if \<not> ok then Some (False, p, t)
                  else if rd_dst_memory_id (mRotDataInfo r) \<noteq> - 1
                    then play p (rd_dst_memory_id (mRotDataInfo r)) (rd_dst_offset (mRotDataInfo r)) t
                    else play p f off t))"

section \<open>The book of the pipes\<close>

datatype eMdpPipeType = PIPE_RGB | PIPE_VG | PIPE_DMA | PIPE_ANY

definition DPY_UNUSED :: u32 where "DPY_UNUSED = 2"

record pipe_book =
  mPipe :: "generic_pipe option"
  mDisplay :: u32

text \<open>The object with the static members of \<open>PipeBook\<close>.\<close>

record overlay =
  mPipeBook :: "pipe_book list"
  sPipeUsageBitmap :: u32
  sLastUsageBitmap :: u32
  sAllocatedBitmap :: u32
  pipeTypeLUT :: "eMdpPipeType list"
  sExtFbIndex :: u32

definition free_entry :: pipe_book where "free_entry = \<lparr>mPipe = None, mDisplay = DPY_UNUSED\<rparr>"

text \<open>The table of the pipe types: first the RGB pipes, then the VG, then the DMA pipes.\<close>

definition init_LUT :: "nat \<Rightarrow> nat \<Rightarrow> nat \<Rightarrow> eMdpPipeType list" where
  "init_LUT rgb vg dma = replicate rgb PIPE_RGB @ replicate vg PIPE_VG @ replicate dma PIPE_DMA"

definition new_overlay :: "eMdpPipeType list \<Rightarrow> overlay" where
  "new_overlay lut = \<lparr>mPipeBook = replicate (length lut) free_entry, sPipeUsageBitmap = 0, sLastUsageBitmap = 0,
     sAllocatedBitmap = 0, pipeTypeLUT = lut, sExtFbIndex = 1\<rparr>"

definition NUM_PIPES :: "overlay \<Rightarrow> nat" where "NUM_PIPES s = length (mPipeBook s)"

definition set_bit32 :: "nat \<Rightarrow> u32 \<Rightarrow> u32" where "set_bit32 i b = b OR push_bit i 1"

definition reset_bit32 :: "nat \<Rightarrow> u32 \<Rightarrow> u32" where "reset_bit32 i b = b AND NOT (push_bit i 1)"

definition is_set32 :: "nat \<Rightarrow> u32 \<Rightarrow> bool" where "is_set32 i b \<longleftrightarrow> b AND push_bit i 1 \<noteq> 0"

definition isUsed :: "nat \<Rightarrow> overlay \<Rightarrow> bool" where "isUsed i s = is_set32 i (sPipeUsageBitmap s)"

definition isAllocated :: "nat \<Rightarrow> overlay \<Rightarrow> bool" where "isAllocated i s = is_set32 i (sAllocatedBitmap s)"

definition configBegin :: "overlay \<Rightarrow> overlay" where
  "configBegin s = fold (\<lambda>i s. s\<lparr>sPipeUsageBitmap := reset_bit32 i (sPipeUsageBitmap s),
     sAllocatedBitmap := reset_bit32 i (sAllocatedBitmap s)\<rparr>) [0..<NUM_PIPES s] s"

definition destroy :: "mdp_kernel \<Rightarrow> nat \<Rightarrow> overlay \<Rightarrow> mdp_call list \<Rightarrow> overlay \<times> mdp_call list" where
  "destroy K i s t =
     (s\<lparr>mPipeBook := (mPipeBook s)[i := free_entry]\<rparr>,
      case mPipe (mPipeBook s ! i) of None \<Rightarrow> t | Some p \<Rightarrow> snd (snd (GenericPipe_close K p t)))"

fun collect :: "mdp_kernel \<Rightarrow> nat list \<Rightarrow> overlay \<Rightarrow> mdp_call list \<Rightarrow> overlay \<times> mdp_call list" where
  "collect K [] s t = (s, t)"
| "collect K (i # ks) s t =
     (if \<not> isUsed i s then let (s, t) = destroy K i s t in collect K ks s t else collect K ks s t)"

definition configDone :: "mdp_kernel \<Rightarrow> overlay \<Rightarrow> mdp_call list \<Rightarrow> overlay \<times> mdp_call list" where
  "configDone K s t =
     (if sPipeUsageBitmap s = sLastUsageBitmap s then (s, t)
      else let (s, t) = collect K [0..<NUM_PIPES s] s t
           in (s\<lparr>sLastUsageBitmap := sPipeUsageBitmap s\<rparr>, t))"

definition candidate :: "eMdpPipeType \<Rightarrow> u32 \<Rightarrow> overlay \<Rightarrow> nat \<Rightarrow> bool" where
  "candidate ty dpy s i \<longleftrightarrow> (ty = PIPE_ANY \<or> ty = pipeTypeLUT s ! i) \<and>
     (mDisplay (mPipeBook s ! i) = DPY_UNUSED \<or> mDisplay (mPipeBook s ! i) = dpy) \<and> \<not> isAllocated i s"

definition nextPipe ::
    "mdp_kernel \<Rightarrow> eMdpPipeType \<Rightarrow> u32 \<Rightarrow> overlay \<Rightarrow> mdp_call list \<Rightarrow> nat option \<times> overlay \<times> mdp_call list" where
  "nextPipe K ty dpy s t =
     (case find (candidate ty dpy s) [0..<NUM_PIPES s] of
        None \<Rightarrow> (None, s, t)
      | Some i \<Rightarrow>
          let e = (mPipeBook s ! i)\<lparr>mDisplay := dpy\<rparr>;
              (e, t) = (case mPipe e of
                  None \<Rightarrow> (let (p, t) = new_GenericPipe K (sExtFbIndex s) dpy t in (e\<lparr>mPipe := Some p\<rparr>, t))
                | Some _ \<Rightarrow> (e, t))
          in (Some i, s\<lparr>sAllocatedBitmap := set_bit32 i (sAllocatedBitmap s), mPipeBook := (mPipeBook s)[i := e]\<rparr>, t))"

definition availablePipes :: "u32 \<Rightarrow> overlay \<Rightarrow> nat" where
  "availablePipes dpy s = length (filter (candidate PIPE_ANY dpy s) [0..<NUM_PIPES s])"

text \<open>\<open>validate\<close> and the access behind it.\<close>

definition pipe_at :: "nat \<Rightarrow> overlay \<Rightarrow> generic_pipe option" where
  "pipe_at i s = (if i < NUM_PIPES s then mPipe (mPipeBook s ! i) else None)"

definition put_pipe :: "nat \<Rightarrow> generic_pipe \<Rightarrow> overlay \<Rightarrow> overlay" where
  "put_pipe i p s = s\<lparr>mPipeBook := (mPipeBook s)[i := (mPipeBook s ! i)\<lparr>mPipe := Some p\<rparr>]\<rparr>"

definition Overlay_commit ::
    "ratio \<Rightarrow> mdp_kernel \<Rightarrow> nat \<Rightarrow> overlay \<Rightarrow> mdp_call list \<Rightarrow> (bool \<times> overlay \<times> mdp_call list) option" where
  "Overlay_commit rd K i s t =
     Option.bind (pipe_at i s) (\<lambda>p. Option.bind (GenericPipe_commit rd K p t) (\<lambda>(ok, p, t).
       let s = put_pipe i p s
       in if ok then Some (True, s\<lparr>sPipeUsageBitmap := set_bit32 i (sPipeUsageBitmap s)\<rparr>, t)
          else let dpy = mDisplay (mPipeBook s ! i);
                   s = s\<lparr>sPipeUsageBitmap := reset_bit32 i (sPipeUsageBitmap s)\<rparr>
               in Some (False, fold (\<lambda>k s. if mDisplay (mPipeBook s ! k) = dpy
                    then s\<lparr>sAllocatedBitmap := reset_bit32 k (sAllocatedBitmap s)\<rparr> else s) [0..<NUM_PIPES s] s, t)))"

definition Overlay_queueBuffer ::
    "padding \<Rightarrow> mdp_kernel \<Rightarrow> int \<Rightarrow> u32 \<Rightarrow> nat \<Rightarrow> overlay \<Rightarrow> mdp_call list \<Rightarrow> (bool \<times> overlay \<times> mdp_call list) option" where
  "Overlay_queueBuffer pad K f off i s t =
     Option.bind (pipe_at i s) (\<lambda>p.
       if isUsed i s
       then Option.bind (GenericPipe_queueBuffer pad K f off p t) (\<lambda>(ok, p, t). Some (ok, put_pipe i p s, t))
       else Some (False, s, t))"

definition Overlay_setCrop :: "Dim \<Rightarrow> nat \<Rightarrow> overlay \<Rightarrow> overlay option" where
  "Overlay_setCrop d i s = map_option (\<lambda>p. put_pipe i (GenericPipe_setCrop d p) s) (pipe_at i s)"

definition Overlay_setPosition :: "Dim \<Rightarrow> nat \<Rightarrow> overlay \<Rightarrow> overlay option" where
  "Overlay_setPosition d i s = map_option (\<lambda>p. put_pipe i (GenericPipe_setPosition d p) s) (pipe_at i s)"

definition Overlay_setTransform :: "u32 \<Rightarrow> nat \<Rightarrow> overlay \<Rightarrow> overlay option" where
  "Overlay_setTransform orient i s =
     Option.bind (pipe_at i s) (\<lambda>p. map_option (\<lambda>p. put_pipe i p s) (GenericPipe_setTransform orient p))"

definition OV_MDP_PIPE_SHARE :: u32 where "OV_MDP_PIPE_SHARE = 0x00800000"

definition OV_MDP_PIPE_FORCE_DMA :: u32 where "OV_MDP_PIPE_FORCE_DMA = 0x4000"

definition source_args :: "eMdpPipeType \<Rightarrow> PipeArgs \<Rightarrow> PipeArgs" where
  "source_args ty a =
     (let f = pa_mdpFlags a;
          f = (if ty = PIPE_VG then f OR OV_MDP_PIPE_SHARE else f AND NOT OV_MDP_PIPE_SHARE);
          f = (if ty = PIPE_DMA then f OR OV_MDP_PIPE_FORCE_DMA else f AND NOT OV_MDP_PIPE_FORCE_DMA)
      in a\<lparr>pa_mdpFlags := f\<rparr>)"

definition Overlay_setSource :: "PipeArgs \<Rightarrow> nat \<Rightarrow> overlay \<Rightarrow> overlay option" where
  "Overlay_setSource a i s =
     Option.bind (pipe_at i s) (\<lambda>p. map_option (\<lambda>p. put_pipe i p s)
       (GenericPipe_setSource (source_args (pipeTypeLUT s ! i) a) p))"

section \<open>Bits\<close>

lemma is_set32_bit: "is_set32 i b \<longleftrightarrow> bit b i"
  by (simp add: is_set32_def and_exp_eq_0_iff_not_bit)

lemma is_set32_set [simp]: "i < 32 \<Longrightarrow> is_set32 k (set_bit32 i b) \<longleftrightarrow> k = i \<or> is_set32 k b"
  unfolding is_set32_bit set_bit32_def by (auto simp: bit_simps)

lemma is_set32_reset [simp]: "is_set32 k (reset_bit32 i b) \<longleftrightarrow> k \<noteq> i \<and> is_set32 k b"
proof (cases "k < 32")
  case True
  then show ?thesis unfolding is_set32_bit reset_bit32_def by (auto simp: bit_simps)
next
  case False
  then show ?thesis unfolding is_set32_bit by (simp add: impossible_bit)
qed

lemma is_set32_0 [simp]: "\<not> is_set32 k 0"
  by (simp add: is_set32_def)

section \<open>What holds of a pipe and of the book\<close>

definition ctrl_ok :: "mdp_ctrl \<Rightarrow> bool" where
  "ctrl_ok c \<longleftrightarrow> ov_id (mOVInfo c) = ov_id (mLkgo c) \<and> (ov_id (mLkgo c) = MSMFB_NEW_REQUEST \<longrightarrow> mLkgo c = new_request)"

text \<open>Its source has been set.\<close>

definition sourced :: "generic_pipe \<Rightarrow> bool" where
  "sourced p \<longleftrightarrow> ov_transp_mask (mOVInfo (gp_ctrl p)) = 0xffffffff"

text \<open>
  The rotator of a pipe never learns the dimensions of the picture (\<open>setSource\<close> with one argument does
  not store \<open>mOrigWhf\<close>), so that it never has memory either.
\<close>

definition rot_hollow :: "mdp_rot \<Rightarrow> bool" where
  "rot_hollow r \<longleftrightarrow> whf_w (mOrigWhf r) = 0 \<and> whf_h (mOrigWhf r) = 0 \<and> length (rotMems r) = 2 \<and>
     (\<forall>m \<in> set (rotMems r). mem_numBufs m = 0 \<and> mem_bufSz m = 0)"

text \<open>A buffer that is queued goes through the rotator of the pipe.\<close>

definition own_rotator :: "generic_pipe \<Rightarrow> bool" where
  "own_rotator p \<longleftrightarrow> mRotUsed p \<and> (case mRot p of None \<Rightarrow> False | Some r \<Rightarrow> ri_enable (mRotImgInfo r))"

text \<open>
  A pipe whose \<open>init\<close> failed has no rotator; then its source and its transform were never set. The
  rotator is hollow: no buffer went through it.
\<close>

definition pipe_ok :: "generic_pipe \<Rightarrow> bool" where
  "pipe_ok p \<longleftrightarrow> (mRotUsed p \<or> mRotDownscaleOpt p \<or> sourced p \<longrightarrow> mRot p \<noteq> None) \<and>
     (\<forall>r. mRot p = Some r \<longrightarrow> rot_hollow r) \<and> ctrl_ok (gp_ctrl p) \<and>
     (pipeOpen p \<longrightarrow> getPipeId (gp_ctrl p) \<noteq> MSMFB_NEW_REQUEST)"

definition entry_ok :: "pipe_book \<Rightarrow> bool" where
  "entry_ok e \<longleftrightarrow> (mPipe e = None \<longleftrightarrow> mDisplay e = DPY_UNUSED) \<and> (\<forall>p. mPipe e = Some p \<longrightarrow> pipe_ok p)"

definition book_ok :: "overlay \<Rightarrow> bool" where
  "book_ok s \<longleftrightarrow> length (pipeTypeLUT s) = NUM_PIPES s \<and> NUM_PIPES s \<le> 10 \<and>
     (\<forall>i < NUM_PIPES s. entry_ok (mPipeBook s ! i) \<and>
        (isUsed i s \<longrightarrow> (\<exists>p. mPipe (mPipeBook s ! i) = Some p \<and> pipeOpen p)))"

lemma settled_mask [simp]: "ov_transp_mask (settled orient ds ov) = ov_transp_mask ov"
  by (simp add: settled_def normalizeYuv_def doDownscale_def doTransform_def setRotationFlags_def Let_def split_beta)

lemma MdpCtrl_set_ok:
  assumes "driver_keeps K" "ctrl_ok c" "ov_transp_mask (mOVInfo c) = 0xffffffff" "MdpCtrl_set K c t = (ok, c', t')"
  shows "ctrl_ok c' \<and> (ok \<longrightarrow> getPipeId c' \<noteq> MSMFB_NEW_REQUEST)"
proof -
  let ?c = "calculate c"
  have c: "ctrl_ok ?c" "mLkgo ?c = mLkgo c" "ov_transp_mask (mOVInfo ?c) = 0xffffffff"
    using assms(2,3) by (simp_all add: ctrl_ok_def calculate_eq)
  show ?thesis
  proof (cases "ovChanged ?c")
    case False
    then have "mOVInfo ?c = mLkgo ?c" by (simp add: ovChanged_def)
    moreover from this c have "ov_id (mLkgo c) \<noteq> MSMFB_NEW_REQUEST"
      by (auto simp: ctrl_ok_def new_request_def)
    ultimately show ?thesis using assms(4) False c by (simp add: MdpCtrl_set_def getPipeId_def)
  next
    case True
    show ?thesis
    proof (cases "k_set K t (mFd ?c) (mOVInfo ?c)")
      case None
      then show ?thesis using assms(4) True c
        by (auto simp: MdpCtrl_set_def Let_def MdpCtrl_restore_def ctrl_ok_def)
    next
      case (Some ov)
      with assms(1) obtain i where "i \<noteq> MSMFB_NEW_REQUEST" "ov = (mOVInfo ?c)\<lparr>ov_id := i\<rparr>"
        unfolding driver_keeps_def by blast
      then show ?thesis using assms(4) True Some
        by (auto simp: MdpCtrl_set_def Let_def MdpCtrl_save_def ctrl_ok_def getPipeId_def)
    qed
  qed
qed

lemma ctrl_ok_setters [simp]:
  "ctrl_ok (MdpCtrl_setSource a c) = ctrl_ok c" "ctrl_ok (MdpCtrl_setCrop d c) = ctrl_ok c"
  "ctrl_ok (MdpCtrl_setPosition d c) = ctrl_ok c" "ctrl_ok (MdpCtrl_setTransform x c) = ctrl_ok c"
  "ctrl_ok (MdpCtrl_setDownscale n c) = ctrl_ok c"
  "getPipeId (MdpCtrl_setSource a c) = getPipeId c" "getPipeId (MdpCtrl_setCrop d c) = getPipeId c"
  "getPipeId (MdpCtrl_setPosition d c) = getPipeId c" "getPipeId (MdpCtrl_setTransform x c) = getPipeId c"
  by (simp_all add: config_defs ctrl_ok_def getPipeId_def)

lemma hollow_config [simp]:
  "rot_hollow (MdpRot_setSource whf r) = rot_hollow r" "rot_hollow (MdpRot_setFlags fl r) = rot_hollow r"
  "rot_hollow (MdpRot_setTransform x r) = rot_hollow r" "rot_hollow (MdpRot_setDownscale ds r) = rot_hollow r"
  by (simp_all add: rot_hollow_def MdpRot_setSource_def MdpRot_setFlags_def MdpRot_setTransform_def
      MdpRot_setDownscale_def Let_def)

lemma hollow_new [simp]: "rot_hollow (fst (getRotator K t))"
  by (simp add: rot_hollow_def getRotator_def OvFD_open_def new_mem_def zero_whf_def Let_def)

lemma hollow_commit: "rot_hollow r \<Longrightarrow> MdpRot_commit K r t = (ok, r', t') \<Longrightarrow> rot_hollow r'"
  by (auto simp: rot_hollow_def MdpRot_commit_def MdpRot_doTransform_def Let_def split: if_splits option.splits)

lemma ctrl_ok_format [simp]:
  "ctrl_ok (MdpCtrl_updateSrcFormat f c) = ctrl_ok c"
  "ov_transp_mask (mOVInfo (MdpCtrl_updateSrcFormat f c)) = ov_transp_mask (mOVInfo c)"
  by (simp_all add: MdpCtrl_updateSrcFormat_def ctrl_ok_def)

lemma commit_ctrl_ok:
  assumes "driver_keeps K" "pipe_ok p" "sourced p" "commit_ctrl K ds p t = (ok, p', t')"
  shows "pipe_ok p' \<and> pipeOpen p' = ok"
proof -
  let ?c = "MdpCtrl_setDownscale ds (gp_ctrl p)"
  obtain ret c' u where s: "MdpCtrl_set K ?c t = (ret, c', u)" by (rule prod_cases3)
  have "ctrl_ok ?c" "ov_transp_mask (mOVInfo ?c) = 0xffffffff"
    using assms(2,3) by (simp_all add: pipe_ok_def sourced_def MdpCtrl_setDownscale_def ctrl_ok_def)
  note c = MdpCtrl_set_ok [OF assms(1) this s]
  have r: "mRot p \<noteq> None" using assms(2,3) by (simp add: pipe_ok_def)
  show ?thesis
  proof (cases ret)
    case True
    then show ?thesis using c r assms(2,4) s by (auto simp: commit_ctrl_def Let_def pipe_ok_def)
  next
    case False
    let ?g = "getRotator K (delete_rot K (mRot p) u)"
    have "p' = p\<lparr>gp_ctrl := c', pipeOpen := False, mRot := Some (fst ?g)\<rparr>" "ok = False"
      using False assms(4) s by (auto simp: commit_ctrl_def Let_def case_prod_beta)
    then show ?thesis using c by (simp add: pipe_ok_def)
  qed
qed

lemma GenericPipe_commit_ok:
  assumes "driver_keeps K" "pipe_ok p" "sourced p"
  shows "\<exists>ok p' t'. GenericPipe_commit rd K p t = Some (ok, p', t') \<and> pipe_ok p' \<and> pipeOpen p' = ok"
proof -
  obtain r where r: "mRot p = Some r" "rot_hollow r" using assms(2,3) by (auto simp: pipe_ok_def)
  define ds where "ds = (if mRotDownscaleOpt p then getDownscaleFactor rd (dim_w (ov_src_rect (mOVInfo (gp_ctrl p))))
    (dim_h (ov_src_rect (mOVInfo (gp_ctrl p)))) (dim_w (ov_dst_rect (mOVInfo (gp_ctrl p))))
    (dim_h (ov_dst_rect (mOVInfo (gp_ctrl p)))) else 0)"
  define q where "q = p\<lparr>mRotUsed := mRotUsed p \<or> mRotDownscaleOpt p \<and> ds \<noteq> 0 \<and> \<not> mPreRotated p\<rparr>"
  have q: "pipe_ok q" "sourced q" "mRot q = Some r" using assms r by (simp_all add: q_def pipe_ok_def sourced_def)
  have g: "GenericPipe_commit rd K p t = (if \<not> mRotUsed q then Some (commit_ctrl K ds q t)
     else case MdpRot_commit K (MdpRot_setDownscale (of_nat ds) r) t of (ok, r, t) \<Rightarrow>
       if \<not> ok then let (r, t) = getRotator K (delete_rot K (Some r) t) in Some (False, q\<lparr>mRot := Some r, pipeOpen := False\<rparr>, t)
       else Some (commit_ctrl K ds (q\<lparr>mRot := Some r,
              gp_ctrl := MdpCtrl_updateSrcFormat (whf_format (ri_dst (mRotImgInfo r))) (gp_ctrl q)\<rparr>) t))"
    unfolding GenericPipe_commit_def Let_def ds_def [symmetric] q_def [symmetric] by (simp add: q(3))
  show ?thesis
  proof (cases "mRotUsed q")
    case False
    obtain ok p' t' where c: "commit_ctrl K ds q t = (ok, p', t')" by (rule prod_cases3)
    then show ?thesis using commit_ctrl_ok [OF assms(1) q(1,2) c] False g by auto
  next
    case True
    obtain ok1 r1 t1 where m: "MdpRot_commit K (MdpRot_setDownscale (of_nat ds) r) t = (ok1, r1, t1)" by (rule prod_cases3)
    have h: "rot_hollow r1" by (rule hollow_commit [OF _ m]) (simp add: r(2))
    show ?thesis
    proof (cases ok1)
      case False
      then show ?thesis using True g m q(1) by (auto simp: case_prod_beta Let_def pipe_ok_def)
    next
      case ok: True
      let ?q = "q\<lparr>mRot := Some r1, gp_ctrl := MdpCtrl_updateSrcFormat (whf_format (ri_dst (mRotImgInfo r1))) (gp_ctrl q)\<rparr>"
      obtain ok2 p' t' where c: "commit_ctrl K ds ?q t1 = (ok2, p', t')" by (rule prod_cases3)
      have "pipe_ok ?q" "sourced ?q" using q h
        by (simp_all add: pipe_ok_def sourced_def) (simp add: getPipeId_def MdpCtrl_updateSrcFormat_def)
      from commit_ctrl_ok [OF assms(1) this c] show ?thesis using True ok g m c by auto
    qed
  qed
qed

lemma sourced_other [simp]:
  "sourced (p\<lparr>gp_ctrl := MdpCtrl_setCrop d (gp_ctrl p)\<rparr>) = sourced p"
  "sourced (p\<lparr>gp_ctrl := MdpCtrl_setPosition d (gp_ctrl p)\<rparr>) = sourced p"
  by (simp_all add: sourced_def config_defs)

lemma pipe_ok_setters:
  "pipe_ok p \<Longrightarrow> pipe_ok (GenericPipe_setCrop d p) \<and> pipeOpen (GenericPipe_setCrop d p) = pipeOpen p"
  "pipe_ok p \<Longrightarrow> pipe_ok (GenericPipe_setPosition d p) \<and> pipeOpen (GenericPipe_setPosition d p) = pipeOpen p"
  "pipe_ok p \<Longrightarrow> mRot p \<noteq> None \<Longrightarrow>
     \<exists>p'. GenericPipe_setSource a p = Some p' \<and> pipe_ok p' \<and> pipeOpen p' = pipeOpen p"
  "pipe_ok p \<Longrightarrow> mRot p \<noteq> None \<Longrightarrow>
     \<exists>p'. GenericPipe_setTransform x p = Some p' \<and> pipe_ok p' \<and> pipeOpen p' = pipeOpen p"
  by (auto simp: pipe_ok_def GenericPipe_setCrop_def GenericPipe_setPosition_def GenericPipe_setSource_def
      GenericPipe_setTransform_def Let_def simp del: odd_u32)

lemma GenericPipe_queueBuffer_ok:
  assumes "pipe_ok p" "pipeOpen p" "\<not> own_rotator p"
  shows "\<exists>ok p' t'. GenericPipe_queueBuffer pad K f off p t = Some (ok, p', t') \<and> pipe_ok p' \<and> pipeOpen p'"
  using assms
  by (cases "mRot p") (auto simp: GenericPipe_queueBuffer_def MdpRot_queueBuffer_def own_rotator_def pipe_ok_def
      sourced_def MdpData_play_def do_call_def Let_def)

lemma new_GenericPipe_ok: "pipe_ok (fst (new_GenericPipe K ext dpy t))"
  by (simp add: new_GenericPipe_def GenericPipe_init_def MdpCtrl_init_def MdpData_init_def OvFD_open_def sourced_def
      getRotator_def pipe_ok_def ctrl_ok_def new_MdpCtrl_def new_request_def rot_hollow_def new_mem_def zero_whf_def Let_def)

text \<open>
  When the frame buffer device of a pipe cannot be opened, the next \<open>setSource\<close> or \<open>setTransform\<close> follows
  a null pointer: the constructor does not look at what \<open>init\<close> returns.
\<close>

lemma failed_open_aborts:
  assumes "k_open K t (FbDev (if dpy \<noteq> 0 then ext else dpy)) < 0"
  shows "GenericPipe_setSource a (fst (new_GenericPipe K ext dpy t)) = None"
    "GenericPipe_setTransform x (fst (new_GenericPipe K ext dpy t)) = None"
  using assms
  by (cases "dpy = 0"; simp add: new_GenericPipe_def GenericPipe_init_def MdpCtrl_init_def OvFD_open_def
      GenericPipe_setSource_def GenericPipe_setTransform_def Let_def)+

text \<open>The frames of a hollow rotator have no size, so that it gets no memory and the process aborts.\<close>

lemma empty_picture: "whf_w x = 0 \<Longrightarrow> whf_h x = 0 \<Longrightarrow> (\<And>n. getHALFormat (whf_format x) \<noteq> OtherFormat n) \<Longrightarrow> out_size pad x = 0"
  by (cases "getHALFormat (whf_format x)")
    (auto simp: out_size_def size_defs ALIGN_def getHALFormat_def getStride_def rgb_format_def split: if_splits)

lemma hollow_aborts:
  assumes "rot_hollow r" "ri_enable (mRotImgInfo r)"
    and "\<And>n. getHALFormat (whf_format (ri_dst (mRotImgInfo r))) \<noteq> OtherFormat n"
  shows "MdpRot_queueBuffer pad K f off r t = None"
proof -
  let ?r = "r\<lparr>mRotDataInfo := (mRotDataInfo r)\<lparr>rd_src_memory_id := f, rd_src_offset := off\<rparr>\<rparr>"
  obtain b y where c: "calcOutputBufSize pad ?r = (b, ?r\<lparr>mOrigWhf := y\<rparr>)" using calc_state by (metis surj_pair)
  have "fst (calcOutputBufSize pad ?r) = 0"
    using assms(1,3) by (simp add: calcOutputBufSize_def rot_hollow_def swap_whf_def empty_picture)
  with c have b: "b = 0" by simp
  have m: "mem_numBufs (curr_mem r) = 0" "mem_bufSz (curr_mem r) = 0"
    using assms(1) by (simp_all add: rot_hollow_def curr_mem_def)
  have "remap pad K ROT_NUM_BUFS ?r t = Some (True, ?r\<lparr>mOrigWhf := y\<rparr>, t)"
    using c b m by (simp add: remap_def) (simp add: curr_mem_def)
  then show ?thesis using assms(2) m by (simp add: MdpRot_queueBuffer_def) (simp add: curr_mem_def)
qed

section \<open>The book stays in order\<close>

lemma pipe_at_Some: "book_ok s \<Longrightarrow> pipe_at i s = Some p \<Longrightarrow>
   i < NUM_PIPES s \<and> mPipe (mPipeBook s ! i) = Some p \<and> pipe_ok p \<and> mDisplay (mPipeBook s ! i) \<noteq> DPY_UNUSED"
  by (auto simp: pipe_at_def book_ok_def entry_ok_def split: if_splits)

lemma put_pipe_simps [simp]:
  "NUM_PIPES (put_pipe i p s) = NUM_PIPES s"
  "isUsed k (put_pipe i p s) = isUsed k s" "isAllocated k (put_pipe i p s) = isAllocated k s"
  "pipeTypeLUT (put_pipe i p s) = pipeTypeLUT s"
  by (simp_all add: put_pipe_def NUM_PIPES_def isUsed_def isAllocated_def)

lemma put_pipe_nth: "i < NUM_PIPES s \<Longrightarrow>
    mPipeBook (put_pipe i p s) ! k = (if k = i then (mPipeBook s ! i)\<lparr>mPipe := Some p\<rparr> else mPipeBook s ! k)"
  by (simp add: put_pipe_def NUM_PIPES_def)

lemma put_pipe_ok:
  assumes "book_ok s" "pipe_at i s = Some p" "pipe_ok p'" "isUsed i s \<Longrightarrow> pipeOpen p'"
  shows "book_ok (put_pipe i p' s)"
  using pipe_at_Some [OF assms(1,2)] assms(1,3,4) by (auto simp: put_pipe_nth book_ok_def entry_ok_def)

lemma used_pipe_open: "book_ok s \<Longrightarrow> pipe_at i s = Some p \<Longrightarrow> isUsed i s \<Longrightarrow> pipeOpen p"
  using pipe_at_Some [of s i p] by (auto simp: book_ok_def)

lemma Overlay_setters_ok:
  assumes "book_ok s" "pipe_at i s \<noteq> None"
  shows "\<exists>s'. Overlay_setCrop d i s = Some s' \<and> book_ok s'"
    and "\<exists>s'. Overlay_setPosition d i s = Some s' \<and> book_ok s'"
    and "pipe_at i s = Some p \<Longrightarrow> mRot p \<noteq> None \<Longrightarrow> \<exists>s'. Overlay_setSource a i s = Some s' \<and> book_ok s'"
    and "pipe_at i s = Some p \<Longrightarrow> mRot p \<noteq> None \<Longrightarrow> \<exists>s'. Overlay_setTransform x i s = Some s' \<and> book_ok s'"
proof -
  from assms(2) obtain q where p: "pipe_at i s = Some q" by blast
  have ok: "pipe_ok q" using pipe_at_Some [OF assms(1) p] by simp
  note put = put_pipe_ok [OF assms(1) p] and op = used_pipe_open [OF assms(1) p]
  show "\<exists>s'. Overlay_setCrop d i s = Some s' \<and> book_ok s'"
    using pipe_ok_setters(1) [OF ok, of d] p op by (auto simp: Overlay_setCrop_def intro: put)
  show "\<exists>s'. Overlay_setPosition d i s = Some s' \<and> book_ok s'"
    using pipe_ok_setters(2) [OF ok, of d] p op by (auto simp: Overlay_setPosition_def intro: put)
  show "\<exists>s'. Overlay_setSource a i s = Some s' \<and> book_ok s'" if "pipe_at i s = Some p" "mRot p \<noteq> None"
    using pipe_ok_setters(3) [OF ok, of "source_args (pipeTypeLUT s ! i) a"] that p op
    by (auto simp: Overlay_setSource_def intro: put)
  show "\<exists>s'. Overlay_setTransform x i s = Some s' \<and> book_ok s'" if "pipe_at i s = Some p" "mRot p \<noteq> None"
    using pipe_ok_setters(4) [OF ok, of x] that p op by (auto simp: Overlay_setTransform_def intro: put)
qed

lemma Overlay_queueBuffer_ok:
  assumes "book_ok s" "pipe_at i s = Some p" "isUsed i s \<Longrightarrow> \<not> own_rotator p"
  shows "\<exists>ok s' t'. Overlay_queueBuffer pad K f off i s t = Some (ok, s', t') \<and> book_ok s'"
proof -
  note p = assms(2)
  show ?thesis
  proof (cases "isUsed i s")
    case True
    have "pipe_ok p" "pipeOpen p" using pipe_at_Some [OF assms(1) p] used_pipe_open [OF assms(1) p True] by simp_all
    from GenericPipe_queueBuffer_ok [OF this assms(3) [OF True], of pad K f off t] True p show ?thesis
      by (auto simp: Overlay_queueBuffer_def intro: put_pipe_ok [OF assms(1) p])
  next
    case False
    with p assms(1) show ?thesis by (auto simp: Overlay_queueBuffer_def)
  qed
qed

section \<open>Acquiring and collecting\<close>

lemma find_Some_upt: "find P [0..<n] = Some i \<Longrightarrow> i < n \<and> P i \<and> (\<forall>k < i. \<not> P k)"
  unfolding find_Some_iff by auto

lemma find_None_upt: "find P [0..<n] = None \<longleftrightarrow> (\<forall>i < n. \<not> P i)"
  by (auto simp: find_None_iff)

lemma nextPipe_Some:
  assumes "nextPipe K ty dpy s t = (Some i, s', t')"
  shows "i < NUM_PIPES s" "candidate ty dpy s i" "\<forall>k < i. \<not> candidate ty dpy s k"
    and "\<exists>p. mPipeBook s' = (mPipeBook s)[i := \<lparr>mPipe = Some p, mDisplay = dpy\<rparr>] \<and>
      (mPipe (mPipeBook s ! i) = Some p \<or> mPipe (mPipeBook s ! i) = None \<and> p = fst (new_GenericPipe K (sExtFbIndex s) dpy t))"
    and "sAllocatedBitmap s' = set_bit32 i (sAllocatedBitmap s)" "sPipeUsageBitmap s' = sPipeUsageBitmap s"
    "pipeTypeLUT s' = pipeTypeLUT s" "sLastUsageBitmap s' = sLastUsageBitmap s"
proof -
  obtain p u where pu: "new_GenericPipe K (sExtFbIndex s) dpy t = (p, u)" by force
  from assms have f: "find (candidate ty dpy s) [0..<NUM_PIPES s] = Some i"
    by (simp add: nextPipe_def Let_def split: option.splits prod.splits)
  from find_Some_upt [OF f] show "i < NUM_PIPES s" "candidate ty dpy s i" "\<forall>k < i. \<not> candidate ty dpy s k" by auto
  show "\<exists>p. mPipeBook s' = (mPipeBook s)[i := \<lparr>mPipe = Some p, mDisplay = dpy\<rparr>] \<and>
      (mPipe (mPipeBook s ! i) = Some p \<or> mPipe (mPipeBook s ! i) = None \<and> p = fst (new_GenericPipe K (sExtFbIndex s) dpy t))"
    and "sAllocatedBitmap s' = set_bit32 i (sAllocatedBitmap s)" "sPipeUsageBitmap s' = sPipeUsageBitmap s"
    "pipeTypeLUT s' = pipeTypeLUT s" "sLastUsageBitmap s' = sLastUsageBitmap s"
    using assms f pu by (cases "mPipeBook s ! i"; auto simp: nextPipe_def Let_def split: option.splits)+
qed

lemma nextPipe_None: "nextPipe K ty dpy s t = (None, s', t') \<longleftrightarrow>
    (\<forall>i < NUM_PIPES s. \<not> candidate ty dpy s i) \<and> s' = s \<and> t' = t"
proof (cases "find (candidate ty dpy s) [0..<NUM_PIPES s]")
  case None
  then show ?thesis by (auto simp: nextPipe_def find_None_upt [symmetric])
next
  case (Some i)
  then have "\<not> (\<forall>i < NUM_PIPES s. \<not> candidate ty dpy s i)" by (simp add: find_None_upt [symmetric])
  with Some show ?thesis by (simp add: nextPipe_def Let_def split: option.splits prod.splits)
qed

lemma collect_result:
  assumes "collect K ks s t = (s', t')"
  shows "s' = s\<lparr>mPipeBook := mPipeBook s'\<rparr> \<and> NUM_PIPES s' = NUM_PIPES s \<and>
    (\<forall>i < NUM_PIPES s. mPipeBook s' ! i = (if i \<in> set ks \<and> \<not> isUsed i s then free_entry else mPipeBook s ! i))"
  using assms
proof (induction ks arbitrary: s t)
  case (Cons k ks)
  show ?case
  proof (cases "isUsed k s")
    case True
    with Cons show ?thesis by auto
  next
    case False
    obtain s1 t1 where d: "destroy K k s t = (s1, t1)" by force
    then have s1: "s1 = s\<lparr>mPipeBook := (mPipeBook s)[k := free_entry]\<rparr>" by (simp add: destroy_def)
    from Cons.prems False d have step: "collect K ks s1 t1 = (s', t')" by simp
    have "mPipeBook s1 ! i = (if i = k then free_entry else mPipeBook s ! i)" if "i < NUM_PIPES s" for i
      using that by (simp add: s1 NUM_PIPES_def)
    with Cons.IH [OF step] False show ?thesis
      by (auto simp: s1 NUM_PIPES_def isUsed_def) (metis nth_list_update_neq)
  qed
qed simp

lemma configDone_result:
  assumes "configDone K s t = (s', t')"
  shows "s' = s\<lparr>mPipeBook := mPipeBook s', sLastUsageBitmap := sPipeUsageBitmap s\<rparr>" "NUM_PIPES s' = NUM_PIPES s"
    and "\<forall>i < NUM_PIPES s. mPipeBook s' ! i =
      (if sPipeUsageBitmap s \<noteq> sLastUsageBitmap s \<and> \<not> isUsed i s then free_entry else mPipeBook s ! i)"
proof -
  obtain s1 t1 where c: "collect K [0..<NUM_PIPES s] s t = (s1, t1)" by force
  note r = collect_result [OF c]
  have u: "s' = (if sPipeUsageBitmap s = sLastUsageBitmap s then s else s1\<lparr>sLastUsageBitmap := sPipeUsageBitmap s1\<rparr>)"
    using assms c by (auto simp: configDone_def split: if_splits)
  have "sPipeUsageBitmap s1 = sPipeUsageBitmap s" using r by (metis overlay.surjective overlay.update_convs(1) overlay.ext_inject)
  with u r show "s' = s\<lparr>mPipeBook := mPipeBook s', sLastUsageBitmap := sPipeUsageBitmap s\<rparr>" "NUM_PIPES s' = NUM_PIPES s"
    and "\<forall>i < NUM_PIPES s. mPipeBook s' ! i =
      (if sPipeUsageBitmap s \<noteq> sLastUsageBitmap s \<and> \<not> isUsed i s then free_entry else mPipeBook s ! i)"
    by (cases s; cases s1; auto simp: NUM_PIPES_def)+
qed

lemma configBegin_result:
  "mPipeBook (configBegin s) = mPipeBook s \<and> pipeTypeLUT (configBegin s) = pipeTypeLUT s \<and>
   (\<forall>i < NUM_PIPES s. \<not> isUsed i (configBegin s) \<and> \<not> isAllocated i (configBegin s))"
proof -
  let ?f = "\<lambda>i s. s\<lparr>sPipeUsageBitmap := reset_bit32 i (sPipeUsageBitmap s),
     sAllocatedBitmap := reset_bit32 i (sAllocatedBitmap s)\<rparr>"
  have "mPipeBook (fold ?f ks s) = mPipeBook s \<and> pipeTypeLUT (fold ?f ks s) = pipeTypeLUT s \<and>
     (\<forall>i. isUsed i (fold ?f ks s) \<longleftrightarrow> i \<notin> set ks \<and> isUsed i s) \<and>
     (\<forall>i. isAllocated i (fold ?f ks s) \<longleftrightarrow> i \<notin> set ks \<and> isAllocated i s)" for ks :: "nat list"
    by (induction ks arbitrary: s) (auto simp: isUsed_def isAllocated_def)
  then show ?thesis by (auto simp: configBegin_def)
qed

lemma commit_failed_result:
  "s' = fold (\<lambda>k s. if mDisplay (mPipeBook s ! k) = dpy
      then s\<lparr>sAllocatedBitmap := reset_bit32 k (sAllocatedBitmap s)\<rparr> else s) ks s \<Longrightarrow>
   mPipeBook s' = mPipeBook s \<and> pipeTypeLUT s' = pipeTypeLUT s \<and> sPipeUsageBitmap s' = sPipeUsageBitmap s"
  by (induction ks arbitrary: s) auto

lemma Overlay_commit_book:
  assumes "Overlay_commit rd K k s t = Some (ok, s', t')"
  shows "k < NUM_PIPES s \<and> (\<exists>p. mPipeBook s' = mPipeBook (put_pipe k p s))"
proof -
  from assms obtain q ok' p u where c: "pipe_at k s = Some q" "GenericPipe_commit rd K q t = Some (ok', p, u)"
    by (auto simp: Overlay_commit_def bind_eq_Some_conv)
  then have "k < NUM_PIPES s" by (simp add: pipe_at_def split: if_splits)
  moreover have "mPipeBook s' = mPipeBook (put_pipe k p s)"
  proof (cases ok')
    case True
    with assms c show ?thesis by (auto simp: Overlay_commit_def Let_def)
  next
    case False
    define d where "d = mDisplay (mPipeBook (put_pipe k p s) ! k)"
    have "s' = fold (\<lambda>k s. if mDisplay (mPipeBook s ! k) = d
        then s\<lparr>sAllocatedBitmap := reset_bit32 k (sAllocatedBitmap s)\<rparr> else s) [0..<NUM_PIPES s]
        ((put_pipe k p s)\<lparr>sPipeUsageBitmap := reset_bit32 k (sPipeUsageBitmap (put_pipe k p s))\<rparr>)"
      using assms c False by (simp add: Overlay_commit_def Let_def d_def) (simp add: put_pipe_def NUM_PIPES_def)
    from commit_failed_result [OF this] show ?thesis by simp
  qed
  ultimately show ?thesis by blast
qed

lemma configBegin_ok: "book_ok s \<Longrightarrow> book_ok (configBegin s)"
  using configBegin_result [of s] by (auto simp: book_ok_def NUM_PIPES_def)

lemma configDone_ok: "book_ok s \<Longrightarrow> configDone K s t = (s', t') \<Longrightarrow> book_ok s'"
proof -
  assume ok: "book_ok s" and "configDone K s t = (s', t')"
  note r = configDone_result [OF this(2)]
  have "sPipeUsageBitmap s' = sPipeUsageBitmap s" "pipeTypeLUT s' = pipeTypeLUT s"
    by (subst r(1), simp)+
  moreover have "entry_ok free_entry" by (simp add: entry_ok_def free_entry_def)
  ultimately show ?thesis using ok r(2,3) by (auto simp: book_ok_def isUsed_def)
qed

lemma nextPipe_ok:
  assumes "dpy \<noteq> DPY_UNUSED" "book_ok s" "nextPipe K ty dpy s t = (r, s', t')"
  shows "book_ok s'"
proof (cases r)
  case None
  with assms show ?thesis by (simp add: nextPipe_None)
next
  case (Some i)
  note n = nextPipe_Some [OF assms(3) [unfolded Some]]
  from n(4) obtain p where p: "mPipeBook s' = (mPipeBook s)[i := \<lparr>mPipe = Some p, mDisplay = dpy\<rparr>]"
    "mPipe (mPipeBook s ! i) = Some p \<or> mPipe (mPipeBook s ! i) = None \<and> p = fst (new_GenericPipe K (sExtFbIndex s) dpy t)"
    by blast
  have i: "entry_ok (mPipeBook s ! i)" "isUsed i s \<Longrightarrow> \<exists>q. mPipe (mPipeBook s ! i) = Some q \<and> pipeOpen q"
    using assms(2) n(1) by (auto simp: book_ok_def)
  have "pipe_ok p" using p(2) i(1) new_GenericPipe_ok by (auto simp: entry_ok_def)
  moreover have "isUsed i s \<Longrightarrow> pipeOpen p" using i(2) p(2) by auto
  moreover have "isUsed k s' = isUsed k s" for k by (simp add: isUsed_def n(6))
  moreover have "mPipeBook s' ! k = (if k = i then \<lparr>mPipe = Some p, mDisplay = dpy\<rparr> else mPipeBook s ! k)" for k
    using n(1) p(1) by (simp add: NUM_PIPES_def)
  moreover have "NUM_PIPES s' = NUM_PIPES s" by (simp add: p(1) NUM_PIPES_def)
  ultimately show ?thesis using assms(1,2) n(7) by (auto simp: book_ok_def entry_ok_def)
qed

lemma Overlay_commit_ok:
  assumes "driver_keeps K" "book_ok s" "pipe_at i s = Some p" "sourced p"
  shows "\<exists>ok s' t'. Overlay_commit rd K i s t = Some (ok, s', t') \<and> book_ok s'"
proof -
  have i: "i < NUM_PIPES s" "NUM_PIPES s \<le> 10" "pipe_ok p" "mPipe (mPipeBook s ! i) = Some p"
    using pipe_at_Some [OF assms(2,3)] assms(2) by (simp_all add: book_ok_def)
  from GenericPipe_commit_ok [OF assms(1) i(3) assms(4), of rd t]
  obtain ok p' t' where c: "GenericPipe_commit rd K p t = Some (ok, p', t')" "pipe_ok p'" "pipeOpen p' = ok" by blast
  let ?r = "s\<lparr>sPipeUsageBitmap := reset_bit32 i (sPipeUsageBitmap s)\<rparr>"
  have "book_ok ?r" "\<not> isUsed i ?r" "pipe_at i ?r = Some p"
    using assms(2,3) by (auto simp: book_ok_def NUM_PIPES_def isUsed_def pipe_at_def split: if_splits)
  then have b: "book_ok (put_pipe i p' ?r)" using put_pipe_ok [of ?r i p p'] c(2) by simp
  have e: "mPipe (mPipeBook (put_pipe i p' ?r) ! i) = Some p'"
    using i(1) by (simp add: put_pipe_def NUM_PIPES_def)
  show ?thesis
  proof (cases ok)
    case True
    have "book_ok ((put_pipe i p' s)\<lparr>sPipeUsageBitmap := set_bit32 i (sPipeUsageBitmap s)\<rparr>)"
      using b e c(3) True i(1,2) by (auto simp: book_ok_def NUM_PIPES_def put_pipe_def isUsed_def nth_list_update)
    with c True assms(3) show ?thesis by (auto simp: Overlay_commit_def Let_def put_pipe_def)
  next
    case False
    define d where "d = mDisplay (mPipeBook (put_pipe i p' s) ! i)"
    obtain s' where s': "s' = fold (\<lambda>k s. if mDisplay (mPipeBook s ! k) = d
        then s\<lparr>sAllocatedBitmap := reset_bit32 k (sAllocatedBitmap s)\<rparr> else s) [0..<NUM_PIPES s] (put_pipe i p' ?r)"
      by simp
    from commit_failed_result [OF this] b have "book_ok s'"
      by (simp add: book_ok_def NUM_PIPES_def isUsed_def)
    moreover have "put_pipe i p' ?r = (put_pipe i p' s)\<lparr>sPipeUsageBitmap := reset_bit32 i (sPipeUsageBitmap s)\<rparr>"
      "sPipeUsageBitmap (put_pipe i p' s) = sPipeUsageBitmap s" by (simp_all add: put_pipe_def)
    moreover have "NUM_PIPES (x\<lparr>sPipeUsageBitmap := b\<rparr>) = NUM_PIPES x" for x :: overlay and b
      by (simp add: NUM_PIPES_def)
    ultimately have "Overlay_commit rd K i s t = Some (False, s', t')" "book_ok s'"
      using c False assms(3) s' by (simp_all add: Overlay_commit_def Let_def d_def)
    then show ?thesis by blast
  qed
qed

section \<open>Clients\<close>

text \<open>
  The calls of the composer. A call may address a pipe that exists, as the one \<open>nextPipe\<close> returned in
  this round. A source or a transform needs a pipe whose devices could be opened
  (\<open>failed_open_aborts\<close>), a commit needs a source, and a buffer must not go through the rotator of the
  pipe itself (\<open>own_rotator_aborts\<close>): the composer rotates in sessions of its own.
\<close>

datatype client_call = ConfigBegin | ConfigDone | NextPipe eMdpPipeType u32 | SetSource PipeArgs nat
  | SetCrop Dim nat | SetPosition Dim nat | SetTransform u32 nat | Commit nat | QueueBuffer int u32 nat

fun client_step :: "ratio \<Rightarrow> padding \<Rightarrow> mdp_kernel \<Rightarrow> client_call \<Rightarrow> overlay \<times> mdp_call list \<Rightarrow> (overlay \<times> mdp_call list) option" where
  "client_step rd pad K ConfigBegin (s, t) = Some (configBegin s, t)"
| "client_step rd pad K ConfigDone (s, t) = Some (configDone K s t)"
| "client_step rd pad K (NextPipe ty dpy) (s, t) = Some (snd (nextPipe K ty dpy s t))"
| "client_step rd pad K (SetSource a i) (s, t) = map_option (\<lambda>s. (s, t)) (Overlay_setSource a i s)"
| "client_step rd pad K (SetCrop d i) (s, t) = map_option (\<lambda>s. (s, t)) (Overlay_setCrop d i s)"
| "client_step rd pad K (SetPosition d i) (s, t) = map_option (\<lambda>s. (s, t)) (Overlay_setPosition d i s)"
| "client_step rd pad K (SetTransform x i) (s, t) = map_option (\<lambda>s. (s, t)) (Overlay_setTransform x i s)"
| "client_step rd pad K (Commit i) (s, t) = map_option snd (Overlay_commit rd K i s t)"
| "client_step rd pad K (QueueBuffer f off i) (s, t) = map_option snd (Overlay_queueBuffer pad K f off i s t)"

fun legal :: "client_call \<Rightarrow> overlay \<Rightarrow> bool" where
  "legal ConfigBegin s \<longleftrightarrow> True"
| "legal ConfigDone s \<longleftrightarrow> True"
| "legal (NextPipe ty dpy) s \<longleftrightarrow> dpy \<noteq> DPY_UNUSED"
| "legal (SetSource a i) s \<longleftrightarrow> (case pipe_at i s of None \<Rightarrow> False | Some p \<Rightarrow> mRot p \<noteq> None)"
| "legal (SetCrop d i) s \<longleftrightarrow> pipe_at i s \<noteq> None"
| "legal (SetPosition d i) s \<longleftrightarrow> pipe_at i s \<noteq> None"
| "legal (SetTransform x i) s \<longleftrightarrow> (case pipe_at i s of None \<Rightarrow> False | Some p \<Rightarrow> mRot p \<noteq> None)"
| "legal (Commit i) s \<longleftrightarrow> (case pipe_at i s of None \<Rightarrow> False | Some p \<Rightarrow> sourced p)"
| "legal (QueueBuffer f off i) s \<longleftrightarrow> (case pipe_at i s of None \<Rightarrow> False | Some p \<Rightarrow> isUsed i s \<longrightarrow> \<not> own_rotator p)"

inductive session :: "ratio \<Rightarrow> padding \<Rightarrow> mdp_kernel \<Rightarrow> eMdpPipeType list \<Rightarrow> overlay \<times> mdp_call list \<Rightarrow> bool"
  for rd pad K lut where
  session_init: "session rd pad K lut (new_overlay lut, [])"
| session_step: "session rd pad K lut (s, t) \<Longrightarrow> legal c s \<Longrightarrow> client_step rd pad K c (s, t) = Some st \<Longrightarrow>
    session rd pad K lut st"

lemma new_overlay_ok: "length lut \<le> 10 \<Longrightarrow> book_ok (new_overlay lut)"
  by (simp add: book_ok_def new_overlay_def NUM_PIPES_def isUsed_def entry_ok_def free_entry_def)

lemma client_step_ok:
  assumes "driver_keeps K" "book_ok s" "legal c s"
  shows "\<exists>s' t'. client_step rd pad K c (s, t) = Some (s', t') \<and> book_ok s'"
proof (cases c)
  case ConfigDone
  then show ?thesis using configDone_ok [OF assms(2), of K t] by (cases "configDone K s t") simp
next
  case (NextPipe ty dpy)
  with assms(3) have "dpy \<noteq> DPY_UNUSED" by simp
  from nextPipe_ok [OF this assms(2), of K ty t] NextPipe show ?thesis
    by (cases "nextPipe K ty dpy s t") auto
next
  case (Commit i)
  with assms(3) obtain p where "pipe_at i s = Some p" "sourced p" by (auto split: option.splits)
  from Overlay_commit_ok [OF assms(1,2) this, of rd t] Commit show ?thesis by auto
next
  case (QueueBuffer f off i)
  with assms(3) obtain p where "pipe_at i s = Some p" "isUsed i s \<Longrightarrow> \<not> own_rotator p" by (auto split: option.splits)
  from Overlay_queueBuffer_ok [OF assms(2) this, of pad K f off t] QueueBuffer show ?thesis by auto
next
  case (SetSource a i)
  with assms(3) Overlay_setters_ok(3) [OF assms(2), of i _ a] show ?thesis by (auto split: option.splits)
next
  case (SetCrop d i)
  with Overlay_setters_ok(1) [OF assms(2), of i d] assms(3) show ?thesis by auto
next
  case (SetPosition d i)
  with Overlay_setters_ok(2) [OF assms(2), of i d] assms(3) show ?thesis by auto
next
  case (SetTransform x i)
  with assms(3) Overlay_setters_ok(4) [OF assms(2), of i _ x] show ?thesis by (auto split: option.splits)
qed (simp add: configBegin_ok assms(2))

lemma session_ok:
  assumes "driver_keeps K" "length lut \<le> 10" "session rd pad K lut st"
  shows "book_ok (fst st)"
  using assms(3)
proof induction
  case session_init
  then show ?case by (simp add: new_overlay_ok assms(2))
next
  case (session_step s t c st)
  with client_step_ok [OF assms(1), of s c rd pad t] show ?case by auto
qed

section \<open>What clients may rely on\<close>

text \<open>
  C9. Whatever legal calls a client has made in whatever order, with whatever results of the driver
  and whatever devices it could open, the next legal call returns: no assertion fails and no null
  pointer is followed. A pipe whose usage bit is set is open and has a number of the driver. The
  driver answers a description with the same description and a number (\<open>driver_keeps\<close>); what is not
  legal is a source or a transform for a pipe whose devices could not be opened, a commit without a
  source, and a buffer for a pipe that uses its own rotator.
\<close>
theorem overlay_calls_return:
  assumes "driver_keeps K" "length lut \<le> 10" "session rd pad K lut (s, t)"
  shows "(legal c s \<longrightarrow> client_step rd pad K c (s, t) \<noteq> None) \<and>
    (\<forall>i < NUM_PIPES s. isUsed i s \<longrightarrow>
      (\<exists>p. pipe_at i s = Some p \<and> pipeOpen p \<and> getPipeId (gp_ctrl p) \<noteq> MSMFB_NEW_REQUEST))"
proof -
  have ok: "book_ok s" using session_ok [OF assms] by simp
  have "pipe_at i s = Some p \<and> pipeOpen p \<and> getPipeId (gp_ctrl p) \<noteq> MSMFB_NEW_REQUEST"
    if "i < NUM_PIPES s" "isUsed i s" "mPipe (mPipeBook s ! i) = Some p" "pipeOpen p" for i p
    using that ok by (auto simp: book_ok_def entry_ok_def pipe_ok_def pipe_at_def)
  then show ?thesis using ok client_step_ok [OF assms(1) ok, of c rd pad t]
    by (fastforce simp: book_ok_def)
qed

text \<open>
  C39. A buffer that is queued on a pipe in use ends the process when it goes through the rotator of
  the pipe itself, whatever the client did before: the size of its frames is 0, so that the rotator
  has no memory, which an assertion checks. (The driver has named an output format of the rotator
  that gralloc knows.)
\<close>
theorem own_rotator_aborts:
  assumes "driver_keeps K" "length lut \<le> 10" "session rd pad K lut (s, t)"
    and "pipe_at i s = Some p" "isUsed i s" "mRotUsed p" "mRot p = Some r" "ri_enable (mRotImgInfo r)"
    and "\<And>n. getHALFormat (whf_format (ri_dst (mRotImgInfo r))) \<noteq> OtherFormat n"
  shows "client_step rd pad K (QueueBuffer f off i) (s, t) = None"
proof -
  have "book_ok s" using session_ok [OF assms(1-3)] by simp
  from pipe_at_Some [OF this assms(4)] assms(7) have "rot_hollow r" by (simp add: pipe_ok_def)
  from hollow_aborts [OF this assms(8,9)] assms(4-7) show ?thesis
    by (simp add: Overlay_queueBuffer_def GenericPipe_queueBuffer_def)
qed

fun run_client :: "ratio \<Rightarrow> padding \<Rightarrow> mdp_kernel \<Rightarrow> client_call list \<Rightarrow> overlay \<times> mdp_call list \<Rightarrow> (overlay \<times> mdp_call list) option" where
  "run_client rd pad K [] st = Some st"
| "run_client rd pad K (c # cs) st =
     (if legal c (fst st) then Option.bind (client_step rd pad K c st) (run_client rd pad K cs) else None)"

lemma run_client_session:
  "session rd pad K lut st \<Longrightarrow> run_client rd pad K cs st = Some st' \<Longrightarrow> session rd pad K lut st'"
proof (induction cs arbitrary: st)
  case (Cons c cs)
  then obtain st1 where "legal c (fst st)" "client_step rd pad K c st = Some st1" "run_client rd pad K cs st1 = Some st'"
    by (auto simp: bind_eq_Some_conv split: if_splits)
  moreover from this(1,2) have "session rd pad K lut st1"
    using session_step [of rd pad K lut "fst st" "snd st" c st1] Cons.prems(1) by simp
  ultimately show ?case using Cons.IH by blast
qed simp

definition a_round :: "(overlay \<times> mdp_call list) option" where
  "a_round = run_client (\<lambda>_ _ _ _. 1) None obliging
     [ConfigBegin, NextPipe PIPE_VG 0, SetSource video_args 1, Commit 1, ConfigDone] (new_overlay [PIPE_RGB, PIPE_VG], [])"

lemma a_round_legal: "case a_round of None \<Rightarrow> False | Some (s, t) \<Rightarrow> isUsed 1 s \<and> legal (QueueBuffer 5 0 1) s"
  by code_simp

lemma overlay_calls_return_witness:
  "case a_round of None \<Rightarrow> False | Some (s, t) \<Rightarrow>
     client_step (\<lambda>_ _ _ _. 1) None obliging (QueueBuffer 5 0 1) (s, t) \<noteq> None"
proof -
  obtain s t where a: "a_round = Some (s, t)" "legal (QueueBuffer 5 0 1) s"
    using a_round_legal by (auto split: option.splits prod.splits)
  have "session (\<lambda>_ _ _ _. 1) None obliging [PIPE_RGB, PIPE_VG] (s, t)"
    by (rule run_client_session [OF session_init a(1) [unfolded a_round_def]])
  then show ?thesis
    unfolding a(1)
    using overlay_calls_return [OF obliging_keeps, of "[PIPE_RGB, PIPE_VG]" "\<lambda>_ _ _ _. 1" None s t "QueueBuffer 5 0 1"] a(2) by simp
qed

text \<open>The same round with a transform by 90 degrees, which the pipe does with its own rotator.\<close>

definition rotated_round :: "(overlay \<times> mdp_call list) option" where
  "rotated_round = run_client (\<lambda>_ _ _ _. 1) None obliging
     [ConfigBegin, NextPipe PIPE_VG 0, SetSource video_args 1, SetTransform 4 1, Commit 1, ConfigDone]
     (new_overlay [PIPE_RGB, PIPE_VG], [])"

definition uses_rotator :: "nat \<Rightarrow> overlay \<Rightarrow> bool" where
  "uses_rotator i s \<longleftrightarrow> isUsed i s \<and> (case pipe_at i s of None \<Rightarrow> False | Some p \<Rightarrow> mRotUsed p \<and>
     (case mRot p of None \<Rightarrow> False | Some r \<Rightarrow> ri_enable (mRotImgInfo r) \<and>
       getHALFormat (whf_format (ri_dst (mRotImgInfo r))) = RGB_565))"

lemma rotated_round_used: "case rotated_round of None \<Rightarrow> False | Some (s, t) \<Rightarrow> uses_rotator 1 s"
  by code_simp

lemma own_rotator_aborts_witness:
  "case rotated_round of None \<Rightarrow> False | Some (s, t) \<Rightarrow>
     client_step (\<lambda>_ _ _ _. 1) None obliging (QueueBuffer 5 0 1) (s, t) = None"
proof -
  obtain s t where a: "rotated_round = Some (s, t)" "uses_rotator 1 s"
    using rotated_round_used by (auto split: option.splits prod.splits)
  then obtain p r where p: "pipe_at 1 s = Some p" "isUsed 1 s" "mRotUsed p" "mRot p = Some r" "ri_enable (mRotImgInfo r)"
    "getHALFormat (whf_format (ri_dst (mRotImgInfo r))) = RGB_565"
    by (auto simp: uses_rotator_def split: option.splits)
  have "session (\<lambda>_ _ _ _. 1) None obliging [PIPE_RGB, PIPE_VG] (s, t)"
    by (rule run_client_session [OF session_init a(1) [unfolded rotated_round_def]])
  from own_rotator_aborts [OF obliging_keeps _ this p(1-5)] p(6) show ?thesis unfolding a(1) by simp
qed

lemma client_step_display:
  assumes "client_step rd pad K c (s, t) = Some (s', t')" "i < NUM_PIPES s" "mDisplay (mPipeBook s ! i) \<noteq> DPY_UNUSED"
  shows "mDisplay (mPipeBook s' ! i) = mDisplay (mPipeBook s ! i) \<or>
    c = ConfigDone \<and> \<not> isUsed i s \<and> mPipeBook s' ! i = free_entry"
proof (cases c)
  case ConfigDone
  with assms configDone_result(3) [of K s t s' t'] show ?thesis by auto
next
  case (NextPipe ty dpy)
  then obtain r where r: "nextPipe K ty dpy s t = (r, s', t')" using assms(1) by (cases "nextPipe K ty dpy s t") auto
  show ?thesis
  proof (cases r)
    case None
    with r show ?thesis by (simp add: nextPipe_None)
  next
    case (Some k)
    note n = nextPipe_Some [OF r [unfolded Some]]
    from n(1,2,4) assms(2,3) show ?thesis by (cases "k = i") (auto simp: candidate_def NUM_PIPES_def)
  qed
next
  case (Commit k)
  with assms(1) obtain ok where "Overlay_commit rd K k s t = Some (ok, s', t')" by auto
  from Overlay_commit_book [OF this] assms(2) show ?thesis by (cases "i = k") (auto simp: put_pipe_nth)
next
  case ConfigBegin
  with assms(1) configBegin_result [of s] show ?thesis by simp
qed (use assms in \<open>auto simp: Overlay_setSource_def Overlay_setCrop_def Overlay_setPosition_def Overlay_setTransform_def
    Overlay_queueBuffer_def put_pipe_nth bind_eq_Some_conv pipe_at_def split: if_splits\<close>)

lemma client_step_length: "client_step rd pad K c (s, t) = Some (s', t') \<Longrightarrow> NUM_PIPES s' = NUM_PIPES s"
proof (cases c)
  case ConfigBegin
  then show "client_step rd pad K c (s, t) = Some (s', t') \<Longrightarrow> NUM_PIPES s' = NUM_PIPES s"
    using configBegin_result [of s] by (auto simp: NUM_PIPES_def)
next
  case ConfigDone
  then show "client_step rd pad K c (s, t) = Some (s', t') \<Longrightarrow> NUM_PIPES s' = NUM_PIPES s"
    using configDone_result(2) [of K s t s' t'] by auto
next
  case (NextPipe ty dpy)
  obtain r u w where r: "nextPipe K ty dpy s t = (r, u, w)" by (rule prod_cases3)
  show "client_step rd pad K c (s, t) = Some (s', t') \<Longrightarrow> NUM_PIPES s' = NUM_PIPES s"
    using r NextPipe nextPipe_Some(4) [of K ty dpy s t _ u w] by (cases r) (auto simp: nextPipe_None NUM_PIPES_def)
next
  case (Commit i)
  then show "client_step rd pad K c (s, t) = Some (s', t') \<Longrightarrow> NUM_PIPES s' = NUM_PIPES s"
    using Overlay_commit_book [of rd K i s t _ s' t'] by (auto simp: NUM_PIPES_def put_pipe_def)
qed (auto simp: Overlay_setSource_def Overlay_setCrop_def Overlay_setPosition_def Overlay_setTransform_def
    Overlay_queueBuffer_def bind_eq_Some_conv split: if_splits)

text \<open>
  C38. A pipe that belongs to a display keeps belonging to it, whatever call is made, until the end of
  a round in which no commit on it succeeded returns it to the pool; then its object is gone.
\<close>
theorem display_keeps_pipe:
  assumes "client_step rd pad K c (s, t) = Some (s', t')" "i < NUM_PIPES s" "mDisplay (mPipeBook s ! i) \<noteq> DPY_UNUSED"
  shows "mDisplay (mPipeBook s' ! i) = mDisplay (mPipeBook s ! i) \<or>
    c = ConfigDone \<and> \<not> isUsed i s \<and> mPipeBook s' ! i = free_entry"
  by (rule client_step_display [OF assms])

lemma display_keeps_pipe_witness:
  "case a_round of None \<Rightarrow> False | Some (s, t) \<Rightarrow>
     mDisplay (mPipeBook (fst (the (client_step (\<lambda>_ _ _ _. 1) None obliging (NextPipe PIPE_ANY 1) (s, t)))) ! 1) = 0"
proof -
  obtain s t where a: "a_round = Some (s, t)" "NUM_PIPES s = 2" "mDisplay (mPipeBook s ! 1) = 0"
  proof -
    have "case a_round of None \<Rightarrow> False | Some (s, t) \<Rightarrow> NUM_PIPES s = 2 \<and> mDisplay (mPipeBook s ! 1) = 0" by code_simp
    then show thesis using that by (auto split: option.splits)
  qed
  obtain s' t' where "client_step (\<lambda>_ _ _ _. 1) None obliging (NextPipe PIPE_ANY 1) (s, t) = Some (s', t')"
    by (cases "nextPipe obliging PIPE_ANY 1 s t") auto
  from display_keeps_pipe [OF this, of 1] a this show ?thesis unfolding a(1) by (simp add: DPY_UNUSED_def)
qed

text \<open>Pipes of any type asked for one after the other, until none is left or \<open>n\<close> are there.\<close>

fun acquire :: "mdp_kernel \<Rightarrow> u32 \<Rightarrow> nat \<Rightarrow> overlay \<Rightarrow> mdp_call list \<Rightarrow> nat list \<times> overlay \<times> mdp_call list" where
  "acquire K dpy 0 s t = ([], s, t)"
| "acquire K dpy (Suc n) s t =
     (case nextPipe K PIPE_ANY dpy s t of
        (None, s, t) \<Rightarrow> ([], s, t)
      | (Some i, s, t) \<Rightarrow> let (ks, s, t) = acquire K dpy n s t in (i # ks, s, t))"

lemma nextPipe_candidates:
  assumes "nextPipe K PIPE_ANY dpy s t = (Some i, s', t')" "i < 32"
  shows "candidate PIPE_ANY dpy s' k \<longleftrightarrow> k \<noteq> i \<and> candidate PIPE_ANY dpy s k"
proof -
  note n = nextPipe_Some [OF assms(1)]
  from n(4) obtain p where p: "mPipeBook s' = (mPipeBook s)[i := \<lparr>mPipe = Some p, mDisplay = dpy\<rparr>]" by blast
  show ?thesis using assms(2) p n(5) by (cases "k = i") (auto simp: candidate_def isAllocated_def)
qed

lemma nextPipe_available:
  assumes "nextPipe K PIPE_ANY dpy s t = (Some i, s', t')" "NUM_PIPES s \<le> 32"
  shows "availablePipes dpy s = Suc (availablePipes dpy s')" "NUM_PIPES s' = NUM_PIPES s"
proof -
  note n = nextPipe_Some [OF assms(1)]
  show N: "NUM_PIPES s' = NUM_PIPES s" using n(4) by (auto simp: NUM_PIPES_def)
  let ?A = "{k. k < NUM_PIPES s \<and> candidate PIPE_ANY dpy s k}"
  have card: "availablePipes dpy x = card {k. k < NUM_PIPES x \<and> candidate PIPE_ANY dpy x k}" for x
    using distinct_length_filter [of "[0..<NUM_PIPES x]" "candidate PIPE_ANY dpy x"]
    by (simp add: availablePipes_def Int_def conj_commute)
  have "{k. k < NUM_PIPES s' \<and> candidate PIPE_ANY dpy s' k} = ?A - {i}"
    using nextPipe_candidates [OF assms(1)] n(1) assms(2) N by auto
  moreover have "i \<in> ?A" "finite ?A" using n(1,2) by auto
  ultimately show "availablePipes dpy s = Suc (availablePipes dpy s')"
    unfolding card by (simp only: card.remove [of ?A i])
qed

lemma acquire_fresh:
  assumes "acquire K dpy n s t = (ks, s', t')" "NUM_PIPES s \<le> 32"
  shows "NUM_PIPES s' = NUM_PIPES s \<and> length ks = min n (availablePipes dpy s) \<and> distinct ks \<and>
    (\<forall>i \<in> set ks. candidate PIPE_ANY dpy s i \<and> i < NUM_PIPES s) \<and>
    (\<forall>i < NUM_PIPES s. if i \<in> set ks then mDisplay (mPipeBook s' ! i) = dpy \<and> mPipe (mPipeBook s' ! i) \<noteq> None
       else mPipeBook s' ! i = mPipeBook s ! i)"
  using assms
proof (induction n arbitrary: ks s t)
  case (Suc n)
  obtain r s1 t1 where r: "nextPipe K PIPE_ANY dpy s t = (r, s1, t1)" by (metis prod_cases3)
  show ?case
  proof (cases r)
    case None
    have "s1 = s" "\<forall>i < NUM_PIPES s. \<not> candidate PIPE_ANY dpy s i" using r None by (simp_all add: nextPipe_None)
    moreover have "ks = []" "s' = s1" using r None Suc.prems(1) by simp_all
    ultimately show ?thesis by (simp add: availablePipes_def)
  next
    case (Some i)
    obtain js where js: "acquire K dpy n s1 t1 = (js, s', t')" "ks = i # js"
      using Suc.prems(1) r Some by (auto split: prod.splits)
    note n = nextPipe_Some [OF r [unfolded Some]] and av = nextPipe_available [OF r [unfolded Some] Suc.prems(2)]
    have c: "candidate PIPE_ANY dpy s1 k \<longleftrightarrow> k \<noteq> i \<and> candidate PIPE_ANY dpy s k" for k
      using nextPipe_candidates [OF r [unfolded Some]] n(1) Suc.prems(2) by simp
    from n(4) obtain p where p: "mPipeBook s1 = (mPipeBook s)[i := \<lparr>mPipe = Some p, mDisplay = dpy\<rparr>]" by blast
    from Suc.IH [OF js(1)] Suc.prems(2) av(2) have ih: "NUM_PIPES s' = NUM_PIPES s"
      "length js = min n (availablePipes dpy s1)" "distinct js"
      "\<forall>k \<in> set js. candidate PIPE_ANY dpy s1 k \<and> k < NUM_PIPES s"
      "\<forall>k < NUM_PIPES s. if k \<in> set js then mDisplay (mPipeBook s' ! k) = dpy \<and> mPipe (mPipeBook s' ! k) \<noteq> None
         else mPipeBook s' ! k = mPipeBook s1 ! k" by simp_all
    have "mPipeBook s1 ! k = (if k = i then \<lparr>mPipe = Some p, mDisplay = dpy\<rparr> else mPipeBook s ! k)" for k
      using n(1) by (simp add: p NUM_PIPES_def)
    with ih c n(1,2) av(1) js(2) show ?thesis by (auto split: if_splits)
  qed
qed simp

text \<open>
  A display that asks for pipes one after the other gets as many as \<open>availablePipes\<close> said, each one
  once and each with an object; all others stay as they were. They are pipes of any type, those of
  the DMA engine included, although the comment in overlay.h speaks of VG and RGB pipes only.
\<close>
theorem available_pipes_obtained:
  assumes "NUM_PIPES s \<le> 32"
  shows "case acquire K dpy n s t of (ks, s', t') \<Rightarrow>
    length ks = min n (availablePipes dpy s) \<and> distinct ks \<and>
    (\<forall>i < NUM_PIPES s. if i \<in> set ks then mDisplay (mPipeBook s' ! i) = dpy \<and> mPipe (mPipeBook s' ! i) \<noteq> None
       else mPipeBook s' ! i = mPipeBook s ! i)"
  using acquire_fresh [OF _ assms] by (cases "acquire K dpy n s t") auto

lemma available_pipes_obtained_witness:
  "length (fst (acquire obliging 0 2 (new_overlay [PIPE_RGB, PIPE_VG, PIPE_DMA]) [])) = 2"
proof -
  have "NUM_PIPES (new_overlay [PIPE_RGB, PIPE_VG, PIPE_DMA]) \<le> 32"
    "availablePipes 0 (new_overlay [PIPE_RGB, PIPE_VG, PIPE_DMA]) = 3" by code_simp+
  with available_pipes_obtained [OF this(1), where K = obliging and dpy = 0 and n = 2 and t = "[]"] show ?thesis
    by (cases "acquire obliging 0 2 (new_overlay [PIPE_RGB, PIPE_VG, PIPE_DMA]) []") simp
qed

text \<open>Any calls, one after the other.\<close>

fun run_calls :: "ratio \<Rightarrow> padding \<Rightarrow> mdp_kernel \<Rightarrow> client_call list \<Rightarrow> overlay \<times> mdp_call list \<Rightarrow> (overlay \<times> mdp_call list) option" where
  "run_calls rd pad K [] st = Some st"
| "run_calls rd pad K (c # cs) st = Option.bind (client_step rd pad K c st) (run_calls rd pad K cs)"

lemma run_calls_display:
  assumes "run_calls rd pad K cs (s, t) = Some (s', t')" "ConfigDone \<notin> set cs"
    and "i < NUM_PIPES s" "mDisplay (mPipeBook s ! i) \<noteq> DPY_UNUSED"
  shows "NUM_PIPES s' = NUM_PIPES s \<and> mDisplay (mPipeBook s' ! i) = mDisplay (mPipeBook s ! i)"
  using assms
proof (induction cs arbitrary: s t)
  case (Cons c cs)
  then obtain s1 t1 where c: "client_step rd pad K c (s, t) = Some (s1, t1)" "run_calls rd pad K cs (s1, t1) = Some (s', t')"
    by (auto simp: bind_eq_Some_conv)
  have "mDisplay (mPipeBook s1 ! i) = mDisplay (mPipeBook s ! i)" "NUM_PIPES s1 = NUM_PIPES s"
    using client_step_display [OF c(1) Cons.prems(3,4)] client_step_length [OF c(1)] Cons.prems(2) by auto
  then show ?case using Cons.IH [OF c(2)] Cons.prems by simp
qed simp

text \<open>
  C40. When the usage bits at the end of a round are those of the round before, \<open>configDone\<close> collects
  nothing: a pipe that belongs to a display stays with it, whether the display committed it in the
  round or not, and no calls before the next \<open>configDone\<close> let another display get it.
\<close>
theorem idle_pipe_withheld:
  assumes "sPipeUsageBitmap s = sLastUsageBitmap s" "i < NUM_PIPES s" "mDisplay (mPipeBook s ! i) = dpy" "dpy \<noteq> DPY_UNUSED"
    and "configDone K s t = (s1, t1)" "run_calls rd pad K cs (s1, t1) = Some (s2, t2)" "ConfigDone \<notin> set cs"
    and "nextPipe K ty dpy' s2 t2 = (r, s3, t3)" "dpy' \<noteq> dpy"
  shows "s1 = s \<and> t1 = t \<and> mDisplay (mPipeBook s2 ! i) = dpy \<and> r \<noteq> Some i"
proof -
  have s1: "s1 = s" "t1 = t" using assms(1,5) by (simp_all add: configDone_def)
  have d: "mDisplay (mPipeBook s2 ! i) = dpy"
    using run_calls_display [OF assms(6,7), of i] assms(2-4) s1 by simp
  have "r \<noteq> Some i"
  proof
    assume "r = Some i"
    with nextPipe_Some(2) assms(8) have "candidate ty dpy' s2 i" by blast
    then show False using d assms(4,9) by (simp add: candidate_def)
  qed
  then show ?thesis using s1 d by simp
qed

text \<open>
  A display acquires and commits the VG pipe in a first round; in a second round it acquires it
  with an RGB pipe, commits the VG pipe only, and the RGB pipe is withheld from the other display.
\<close>

definition two_rounds :: "(overlay \<times> mdp_call list) option" where
  "two_rounds = run_calls (\<lambda>_ _ _ _. 1) None obliging
     [ConfigBegin, NextPipe PIPE_VG 0, SetSource video_args 1, Commit 1, ConfigDone,
      ConfigBegin, NextPipe PIPE_VG 0, NextPipe PIPE_RGB 0, SetSource video_args 1, Commit 1]
     (new_overlay [PIPE_RGB, PIPE_VG], [])"

lemma two_rounds_state: "case two_rounds of None \<Rightarrow> False | Some (s, t) \<Rightarrow>
    sPipeUsageBitmap s = sLastUsageBitmap s \<and> sPipeUsageBitmap s = 2 \<and> NUM_PIPES s = 2 \<and> mDisplay (mPipeBook s ! 0) = 0"
  by code_simp

lemma idle_pipe_withheld_witness:
  "case two_rounds of None \<Rightarrow> False | Some (s, t) \<Rightarrow>
     fst (nextPipe obliging PIPE_RGB 1 (configBegin (fst (configDone obliging s t))) t) \<noteq> Some 0"
proof -
  obtain s t where a: "two_rounds = Some (s, t)" "sPipeUsageBitmap s = sLastUsageBitmap s" "NUM_PIPES s = 2"
    "mDisplay (mPipeBook s ! 0) = 0"
    using two_rounds_state by (auto split: option.splits prod.splits)
  obtain s1 t1 where c: "configDone obliging s t = (s1, t1)" by force
  have "t1 = t" using c a(2) by (simp add: configDone_def)
  then have r: "run_calls (\<lambda>_ _ _ _. 1) None obliging [ConfigBegin] (s1, t1) = Some (configBegin s1, t)" by simp
  obtain p s3 t3 where n: "nextPipe obliging PIPE_RGB 1 (configBegin s1) t = (p, s3, t3)" by (rule prod_cases3)
  have "p \<noteq> Some 0"
    using idle_pipe_withheld [OF a(2) _ a(4) _ c r _ n] a(3) by (simp add: DPY_UNUSED_def)
  then show ?thesis unfolding a(1) by (simp add: c n)
qed

end
