(* ===== verification/Spec2Isabelle.thy ===== *)
theory Spec2Isabelle
  imports SeiExchange H264Safe NalFrame FrameParser TsReorder Mp4Header VdecTransitions VdecFrames OverlayPipes
begin

text \<open>
  Verification library for two parts of the device tree: the video decoder, which turns the byte
  stream an application feeds into the OpenMAX component into frames, parameters, supplemental
  information and time stamps (src/media/mm-video-legacy/vidc, vdec and common), and the display
  library below the hardware composer, which allocates graphics buffers and puts them on the screen
  through the overlay pipes of the display processor (src/display/libgralloc and liboverlay).

  Parts of the decoder and the theories that model them

  A client hands buffers to the decoder component (\<open>omx_vdec.cpp\<close>). In arbitrary byte mode it calls
  the frame splitter \<open>frame_parse\<close> (vdec/src/frameparser.cpp; theory FrameParser), which cuts
  the bytes at start codes or at length fields, and \<open>H264_Utils::isNewFrame\<close>
  (\<open>vdec/src/h264_utils.cpp\<close>; theory NalFrame), which decides whether a NAL unit starts an access
  unit. Frame by frame, \<open>h264_stream_parser\<close> (\<open>vdec/src/h264_utils.cpp\<close>; theories BitReader,
  H264Codes, H264Syntax, H264Decode, H264Safe) parses parameter sets and supplemental information;
  the pan-scan rectangles it finds are kept by \<open>panscan_handler\<close> (same file; theory PanScan)
  until the frame they belong to is output. \<open>MP4_Utils\<close> (\<open>vdec/src/mp4_utils.cpp\<close>; theories
  Mp4Utils, Mp4Header, Mp4Safe) does the same for MPEG-4 headers. \<open>omx_time_stamp_reorder\<close>
  (\<open>vdec/src/ts_parser.cpp\<close>; theory TsReorder) returns the time stamps in presentation order.
  \<open>extra_data_handler\<close> (\<open>common/src/extra_data_handler.cpp\<close>; theories ExtraData, ExtraDataBits,
  ExtraDataSei) reads and writes the supplemental information that travels with a buffer, on the
  encoder and on the decoder side; SeiExchange connects its writer with the stream parser.

  The component itself, \<open>omx_vdec\<close> (\<open>vdec/src/omx_vdec.cpp\<close>), is a record of about fifty fields that
  three threads change: the client's calls, the driver's messages (\<open>async_message_process\<close>) and the
  message thread (\<open>process_event_cb\<close>), which takes messages from three ring buffers (theory Queues,
  with the other queues of the decoder). VdecState holds the record, the flags and the return of
  buffers to the client, VdecBuffers the allocation and the hand over of buffers, VdecCommand the
  commands, VdecEvents the message thread and the driver's messages. The driver is a parameter, a
  function from the requests so far to the answer. In frame based mode an MPEG-4 or DivX buffer goes
  through \<open>MP4_Utils\<close> before it is handed over (\<open>check_vop\<close> of VdecBuffers): its header is parsed, and a
  buffer that holds a VOP that is not coded is returned undecoded. VdecLoop, VdecRuns, VdecConserve and
  VdecTransitions hold the proofs. VdecPush is the arbitrary byte mode, in which the component cuts the
  client's buffers into frames itself (\<open>push_input_buffer\<close> and what it calls): its state extends the
  record by the parsers, the look-ahead buffer and the queues of the mode. VdecFrames proves what
  the composition of splitter, detector and component delivers to the driver.

  Parts of the display library

  Gralloc models the buffers: their stride and size by format (\<open>alloc_controller.cpp\<close>), the planes a
  client gets when it locks one (mapper.cpp) and the slots of the frame buffer memory (gpu.cpp).
  MdpCtrl is one overlay of the display driver (overlayMdp.cpp, \<open>MdpCtrl\<close> and \<open>MdpData\<close>): the
  description that is collected by setters, rotated, scaled and aligned when it is committed, sent
  when it has changed, and restored when the driver refuses it. MdpRot is a session of the rotator
  with its ring of output buffers (overlayMdpRot.cpp, overlayRotator.cpp). OverlayPipes composes the
  two to a \<open>GenericPipe\<close> (overlayGenPipe.cpp) and models \<open>Overlay\<close> and its \<open>PipeBook\<close>
  (overlay.cpp), through which the composer acquires pipes for a display, sets and commits them,
  queues buffers and collects the unused ones. The kernel is a parameter (\<open>mdp_kernel\<close>): for every
  kind of request a function from the requests so far to the answer; the operations return the
  trace of the requests.

  Conventions

  The generic lemmas (bit strings, 32-bit words, Exp-Golomb codes, memory access, computations that
  may fail) are in Prelude; \<open>None\<close> at the outside of a result is always undefined behaviour of the
  source: a read or write outside an array, a null dereference, a division by zero. In MdpRot and
  OverlayPipes it is also an assertion that fails, since \<open>OVASSERT\<close> aborts. Error returns
  of the source are values. A \<open>uint32\<close> is a \<open>32 word\<close>, a \<open>uint8\<close> an \<open>8 word\<close>; sizes and
  positions that the code cannot let wrap are natural numbers; time stamps (\<open>OMX_TICKS\<close>) are
  integers, since they are only compared. The shifts of the sources whose count reaches 32 follow
  the ARM target: the result is 0. Log output is dropped throughout.

  Interfaces

  BitSource states what a bit reader promises (locale \<open>bit_reader\<close>: a read returns the next bits
  of the stream, up to a width) and what an Exp-Golomb decoder is over it (locale \<open>ue_decoder\<close>);
  the decoder theorem is proved there once. Four readers of the code interpret it:
  \<open>h264_stream_parser::extract_bits\<close> (32 bits), \<open>RbspParser::u\<close> (32), \<open>extra_data_handler::d_u\<close>
  (8, since wider reads go wrong) and \<open>MP4_Utils::read_bit_field\<close> (25, four bytes less the seven
  bits of an offset); the first three interpret the decoder. The locale \<open>fifo\<close> of Queues states what
  a first-in first-out queue of bounded or unbounded capacity promises; the ring buffer of
  \<open>omx_cmd_queue\<close> interprets it, and the pool of PanScan interprets the contract of its lists. The
  linked list of queue.c, whose operations can fault, is compared with a list directly. OmxBuffer models the fields of the
  OpenMAX buffer header the code uses, with the copy operations on it; FramePack is the record of a
  frame packing arrangement and its bit syntax, shared by the two parsers and the writer.

  What the lemmas show

  \<^item> BitReader, H264Codes: the window of \<open>extract_bits\<close> holds exactly the next payload bits;
    \<open>uev\<close> and \<open>sev\<close> invert their codes; \<open>iv\<close> loses the sign.
  \<^item> PanScan: the two intrusive lists partition the node pool under every operation (a predicate
    on the index-linked heap); what each operation returns on every branch; \<open>get_populated\<close>
    terminates, although it is a \<open>partial_function\<close>.
  \<^item> H264Decode: the HRD and frame packing parsers invert the syntax. H264Safe: every sequence of
    calls on the parser, with any bytes, returns without undefined behaviour for NAL units of up to
    \<open>2 ^ 23\<close> bytes (the bound keeps the 32-bit counters of consumed bits from wrapping).
  \<^item> NalFrame: NAL extraction inverts emulation prevention, access unit detection is right on every
    sequence of access units, given as the bytes of their NAL units, and two ways in which the extraction fails.
  \<^item> FrameParser: for H.264 one call copies exactly the bytes up to the next start code, whatever
    the sizes of the two buffers and however the start code is split over calls (invariant
    \<open>sc_inv\<close> over the state machine); length framing is turned into start codes; an overflow of
    the destination for MPEG-4.
  \<^item> ExtraData*, SeiExchange: writer and reader round trip; \<open>parse_nal\<close> of the stream parser reads the
    same unit through its loop over SEI messages; the slice
    table check is exact, and the ways in which malformed extra data leaves the bounds.
  \<^item> TsReorder: the tables refine a queue of multisets; inserting, taking and removing implement
    the abstract operations; up to 64 time stamps come out sorted.
  \<^item> Mp4Header: the first start code is found, the layer header parser inverts the syntax, the
    test for VOPs that are not coded decides the coded flag, and a search that runs off the header.
    Mp4Safe: \<open>parseHeader\<close> and \<open>is_notcodec_vop\<close> return if the frame begins with a VOP or a group of
    VOPs, or has three times its length and 24 bytes of memory behind it (\<open>readable\<close>); a sequence header
    in a smaller buffer can be read beyond its end.
  \<^item> Queues: the command queue and the linked list are queues, the linked list also without an
    invalid dereference and without a leak, \<open>queue_get_cmd\<close> prefers commands,
    \<open>ts_arr_list\<close> is a bounded multiset.
  \<^item> VdecLoop: every message that is processed returns (for MPEG-4 and DivX if the headers of the client's
    buffers are \<open>readable\<close>), keeps the queued messages valid and posts
    less work than it was (\<open>weight\<close>, the measure of the loop); each command is acknowledged.
    VdecRuns: this holds in every state reached by calls, messages and rounds in any order; a
    client is released unless the command queue was full. VdecConserve: for each input buffer the
    numbers of times it is queued, was returned and was accepted by the driver have a constant
    sum, unless the driver reports a fatal completion. VdecTransitions: the table of the state changes, the way from Executing to Idle, and
    commands that complete twice or should be refused.
  \<^item> VdecFrames: one source buffer with NAL length fields refines an abstract machine on NAL units
    (\<open>take_units\<close>); a stream of access units reaches the driver as one frame per access unit; an
    empty buffer at the end of such a stream is an error.
  \<^item> Gralloc: the size computed for a picture holds it with its aligned width and height; the planes
    of a locked buffer lie inside it, no two elements at one place (not for NV21 with an odd height); taking and returning a slot of the frame buffer.
  \<^item> MdpCtrl: committing the same description again makes no call, although \<open>set\<close> changes the
    description in place; the orientations of \<open>preRotateSource\<close> are invertible; crops are aligned to
    the largest even interval inside, and where that wraps.
  \<^item> MdpRot: every rotated frame is written into a slot of the memory its session holds, slot after
    slot, and the slot lies inside the bytes that were allocated; a refused allocation aborts.
  \<^item> OverlayPipes: the invariant of the book (\<open>book_ok\<close>) holds after all legal calls of a client, for
    every behaviour of the kernel that keeps a description, so that no call
    aborts; what is not legal aborts: a source for a pipe whose devices could not be opened, and a
    buffer through the rotator of the pipe itself. A pipe keeps its display until it is collected;
    a display gets as many pipes as \<open>availablePipes\<close> says; a round whose usage bits equal those of the
    round before collects nothing and may withhold pipes from the other displays.

  Loops that the code bounds by data are functions with a measure. Loops whose exit depends on the
  stream only (\<open>uev\<close>, \<open>ue\<close>, \<open>d_ue\<close>, \<open>get_populated\<close>, the walk over extra data records) are
  \<open>partial_function (option)\<close>; that they return is proved where it holds, and that the walk over
  a record of size 0 does not return is proved too. There is no fuel.

  Not modelled

  Of \<open>omx_vdec.cpp\<close> the model covers frame based and arbitrary byte input with buffers the component
  allocates. Left out are parameters and configuration, buffers of the client and native buffers,
  the descriptors for the demultiplexer, colour conversion, secure mode, smooth streaming and the writing of extra data: they
  marshal structures of the generated headers. The encoder (\<open>omx_video_base.cpp\<close>,
  \<open>video_encoder_device.cpp\<close>) has the same message loop around another driver. Generated headers (\<open>OMX_Core.h\<close>, \<open>OMX_QCOMExtns.h\<close>) are not in the tree: the
  layout of an extra data record is a parameter of \<open>walk_records\<close>. The functions of
  \<open>h264_utils.cpp\<close> that compute time stamps in double precision and the performance counters are left
  out. Of the display library, the heap an allocation goes to, the ION and mapping calls, posting,
  the post processing parameters, the rotator of the MDSS and the start-up scan of the mixers are
  left out; the rounded square root of \<open>getDownscaleFactor\<close> is a parameter, since it is computed in
  floating point, and so is the size of the padding library that is loaded at run time.
  The hardware composer, audio and the vendored patches of the platform are listed in the manifest
  with the reasons.
\<close>

end
